(* ===== verification/Go_Prelude.thy ===== *)
theory Go_Prelude
  imports Main "HOL-Library.Word" "HOL-Library.Multiset"
begin

section \<open>The Go runtime as the components use it\<close>

text \<open>
  What every component shares: run-time failures as values, slices as lists with Go's bounds
  checks, integer division that truncates and panics, and the list lemmas the component proofs
  rest on.

  Go's \<open>int\<close> is 64 bits wide; the counters the programs keep in it (terms, log indices, task
  numbers) are modelled as \<open>int\<close>, since reaching the wrap-around takes more than
  \<open>2 ^ 62\<close> operations. Where the width matters (the bit set, the FNV hash) the model uses
  words. A slice is the list of its elements: its capacity and the sharing of its backing array
  are not modelled, so a slice expression is checked against the length.
\<close>

datatype go_error =
    IndexOutOfRange
  | NilDereference
  | DivideByZero
  | Panic string
  | LogFatal string
  | Deadlock

type_synonym 'a res = "go_error + 'a"

named_theorems res_simps \<open>characteristic equations of the result combinators and slices\<close>

subsection \<open>Sequencing fallible code\<close>

definition bind_res :: "'a res \<Rightarrow> ('a \<Rightarrow> 'b res) \<Rightarrow> 'b res" where
  "bind_res m f = (case m of Inl e \<Rightarrow> Inl e | Inr x \<Rightarrow> f x)"

fun fold_res :: "('a \<Rightarrow> 's \<Rightarrow> 's res) \<Rightarrow> 'a list \<Rightarrow> 's \<Rightarrow> 's res" where
  "fold_res f [] s = Inr s"
| "fold_res f (x # xs) s = bind_res (f x s) (fold_res f xs)"

lemma bind_res_Inr [simp, res_simps]: "bind_res (Inr x) f = f x"
  by (simp add: bind_res_def)

lemma bind_res_Inl [simp, res_simps]: "bind_res (Inl e) f = Inl e"
  by (simp add: bind_res_def)

lemma bind_res_eq_Inr: "bind_res m f = Inr y \<longleftrightarrow> (\<exists>x. m = Inr x \<and> f x = Inr y)"
  by (cases m) auto

lemma bind_res_eq_Inl: "bind_res m f = Inl e \<longleftrightarrow> m = Inl e \<or> (\<exists>x. m = Inr x \<and> f x = Inl e)"
  by (cases m) auto

lemma bind_resE [elim]:
  assumes "bind_res m f = Inr y"
  obtains x where "m = Inr x" and "f x = Inr y"
  using assms by (auto simp: bind_res_eq_Inr)

lemma bind_res_assoc: "bind_res (bind_res m f) g = bind_res m (\<lambda>x. bind_res (f x) g)"
  by (cases m) auto

lemma fold_res_snoc: "fold_res f (xs @ [x]) s = bind_res (fold_res f xs s) (f x)"
proof (induction xs arbitrary: s)
  case Nil
  show ?case by (cases "f x s") auto
next
  case (Cons y xs)
  show ?case by (cases "f y s") (simp_all add: Cons)
qed

text \<open>An invariant of the body is an invariant of the loop.\<close>

lemma fold_res_map: "fold_res f (map g xs) s = fold_res (\<lambda>x. f (g x)) xs s"
proof (induction xs arbitrary: s)
  case (Cons x xs)
  then show ?case by (cases "f (g x) s") simp_all
qed simp

lemma fold_res_append: "fold_res f (xs @ ys) s = bind_res (fold_res f xs s) (fold_res f ys)"
proof (induction xs arbitrary: s)
  case (Cons x xs)
  then show ?case by (cases "f x s") simp_all
qed simp

lemma fold_unit_ok: "fold_res (\<lambda>x _. f x) xs () = Inr () \<longleftrightarrow> (\<forall>x \<in> set xs. f x = Inr ())"
proof (induction xs)
  case (Cons x xs)
  then show ?case by (cases "f x") simp_all
qed simp

lemma fold_res_invariant:
  assumes "fold_res f xs s = Inr s'" and "P s"
    and "\<And>x s s'. x \<in> set xs \<Longrightarrow> P s \<Longrightarrow> f x s = Inr s' \<Longrightarrow> P s'"
  shows "P s'"
  using assms
proof (induction xs arbitrary: s)
  case Nil
  then show ?case by simp
next
  case (Cons x xs)
  from Cons.prems(1) obtain s1 where s1: "f x s = Inr s1" "fold_res f xs s1 = Inr s'"
    by (auto simp: bind_res_eq_Inr)
  have "P s1" using Cons.prems(2,3) s1(1) by auto
  then show ?case using Cons.IH [OF s1(2)] Cons.prems(3) by (meson list.set_intros(2))
qed

subsection \<open>Slices\<close>

definition go_len :: "'a list \<Rightarrow> int" where
  "go_len xs = int (length xs)"

definition go_index :: "'a list \<Rightarrow> int \<Rightarrow> 'a res" where
  "go_index xs i = (if 0 \<le> i \<and> i < go_len xs then Inr (xs ! nat i) else Inl IndexOutOfRange)"

definition go_update :: "'a list \<Rightarrow> int \<Rightarrow> 'a \<Rightarrow> 'a list res" where
  "go_update xs i v = (if 0 \<le> i \<and> i < go_len xs then Inr (xs[nat i := v]) else Inl IndexOutOfRange)"

definition go_slice :: "'a list \<Rightarrow> int \<Rightarrow> int \<Rightarrow> 'a list res" where
  "go_slice xs lo hi =
     (if 0 \<le> lo \<and> lo \<le> hi \<and> hi \<le> go_len xs then Inr (take (nat (hi - lo)) (drop (nat lo) xs))
      else Inl IndexOutOfRange)"

definition go_slice_to :: "'a list \<Rightarrow> int \<Rightarrow> 'a list res" where
  "go_slice_to xs hi = go_slice xs 0 hi"

definition go_slice_from :: "'a list \<Rightarrow> int \<Rightarrow> 'a list res" where
  "go_slice_from xs lo = go_slice xs lo (go_len xs)"

lemma go_len_simps [simp, res_simps]:
  "go_len [] = 0"
  "go_len (x # xs) = go_len xs + 1"
  "go_len (xs @ ys) = go_len xs + go_len ys"
  "go_len (xs[n := v]) = go_len xs"
  "0 \<le> go_len xs"
  by (simp_all add: go_len_def)

lemma go_len_eq_0 [simp]: "go_len xs = 0 \<longleftrightarrow> xs = []"
  by (simp add: go_len_def)

lemma go_len_pos: "0 < go_len xs \<longleftrightarrow> xs \<noteq> []"
  by (simp add: go_len_def)

lemma go_index_Inr [res_simps]:
  "go_index xs i = Inr x \<longleftrightarrow> 0 \<le> i \<and> i < go_len xs \<and> x = xs ! nat i"
  by (auto simp: go_index_def)

lemma go_index_int [simp]: "n < length xs \<Longrightarrow> go_index xs (int n) = Inr (xs ! n)"
  by (simp add: go_index_def go_len_def)

lemma go_index_ok: "0 \<le> i \<Longrightarrow> i < go_len xs \<Longrightarrow> go_index xs i = Inr (xs ! nat i)"
  by (simp add: go_index_def)

lemma go_index_out: "i < 0 \<or> go_len xs \<le> i \<Longrightarrow> go_index xs i = Inl IndexOutOfRange"
  by (auto simp: go_index_def)

lemma go_index_last: "xs \<noteq> [] \<Longrightarrow> go_index xs (go_len xs - 1) = Inr (last xs)"
  by (cases xs rule: rev_cases) (auto simp: go_index_def go_len_def nat_diff_distrib)

lemma go_update_Inr [res_simps]:
  "go_update xs i v = Inr ys \<longleftrightarrow> 0 \<le> i \<and> i < go_len xs \<and> ys = xs[nat i := v]"
  by (auto simp: go_update_def)

lemma go_index_nat: "go_index xs i = Inr x \<Longrightarrow> \<exists>k < length xs. i = int k \<and> x = xs ! k"
  by (intro exI [of _ "nat i"]) (auto simp: go_index_def go_len_def split: if_splits)

lemma go_update_nat: "go_update xs i v = Inr ys \<Longrightarrow> \<exists>k < length xs. i = int k \<and> ys = xs[k := v]"
  by (intro exI [of _ "nat i"]) (auto simp: go_update_def go_len_def split: if_splits)

lemma go_update_ok: "0 \<le> i \<Longrightarrow> i < go_len xs \<Longrightarrow> go_update xs i v = Inr (xs[nat i := v])"
  by (simp add: go_update_def)

lemma go_slice_to_Inr [res_simps]:
  "go_slice_to xs i = Inr ys \<longleftrightarrow> 0 \<le> i \<and> i \<le> go_len xs \<and> ys = take (nat i) xs"
  by (auto simp: go_slice_to_def go_slice_def)

lemma go_slice_from_Inr [res_simps]:
  "go_slice_from xs i = Inr ys \<longleftrightarrow> 0 \<le> i \<and> i \<le> go_len xs \<and> ys = drop (nat i) xs"
  by (auto simp: go_slice_from_def go_slice_def go_len_def nat_diff_distrib)

lemma go_slice_to_ok: "0 \<le> i \<Longrightarrow> i \<le> go_len xs \<Longrightarrow> go_slice_to xs i = Inr (take (nat i) xs)"
  by (simp add: go_slice_to_Inr)

lemma go_slice_from_ok: "0 \<le> i \<Longrightarrow> i \<le> go_len xs \<Longrightarrow> go_slice_from xs i = Inr (drop (nat i) xs)"
  by (simp add: go_slice_from_Inr)

subsection \<open>Integer division and remainder\<close>

text \<open>Go truncates towards zero and panics on a zero divisor.\<close>

definition go_div :: "int \<Rightarrow> int \<Rightarrow> int res" where
  "go_div a b = (if b = 0 then Inl DivideByZero else Inr (sgn a * sgn b * (\<bar>a\<bar> div \<bar>b\<bar>)))"

definition go_mod :: "int \<Rightarrow> int \<Rightarrow> int res" where
  "go_mod a b = (if b = 0 then Inl DivideByZero else Inr (sgn a * (\<bar>a\<bar> mod \<bar>b\<bar>)))"

lemma go_div_nonneg: "0 \<le> a \<Longrightarrow> 0 < b \<Longrightarrow> go_div a b = Inr (a div b)"
  by (cases "a = 0") (simp_all add: go_div_def)

lemma go_mod_nonneg: "0 \<le> a \<Longrightarrow> 0 < b \<Longrightarrow> go_mod a b = Inr (a mod b)"
  by (cases "a = 0") (simp_all add: go_mod_def)

lemma go_mod_bounds:
  assumes "go_mod a b = Inr r" and "0 \<le> a" and "0 < b"
  shows "0 \<le> r \<and> r < b"
  using assms by (auto simp: go_mod_nonneg)

subsection \<open>Lists\<close>

lemma nth_append_take:
  "n \<le> length xs \<Longrightarrow> (take n xs @ ys) ! i = (if i < n then xs ! i else ys ! (i - n))"
  by (auto simp: nth_append min_def)

lemma nth_update_if: "j < length xs \<Longrightarrow> xs[i := x] ! j = (if i = j then x else xs ! j)"
  by simp

lemma take_take_le: "m \<le> n \<Longrightarrow> take m (take n xs) = take m xs"
  by (simp add: min_def)

lemma mset_remove_nth:
  "i < length xs \<Longrightarrow> mset xs = add_mset (xs ! i) (mset (take i xs @ drop (Suc i) xs))"
  by (metis add_mset_add_single id_take_nth_drop mset.simps(2) mset_append union_mset_add_mset_right)

end
