(* ===== verification/Labgob.thy ===== *)
theory Labgob
  imports Go_Prelude
begin

section \<open>Checked encoding (labgob/labgob.go)\<close>

text \<open>
  The wrapper around \<open>encoding/gob\<close> warns about types with lower-case fields and about decoding
  into variables that are not at their default. Types are the nodes of a graph: \<open>env t\<close> is what
  \<open>reflect\<close> says of the type \<open>t\<close>, and a recursive type is a cycle. The test for a
  capital first letter (package \<open>unicode\<close>) is the parameter \<open>up\<close>; the package \<open>gob\<close>
  itself is a parameter of the operations that call it. \<open>checkType\<close> recurses through the graph,
  so it has fuel, one unit per level; that enough fuel always exists is proved below.
\<close>

datatype 't tdesc =
    Struct string "(string \<times> 't) list"
  | Slice 't
  | Array 't
  | Ptr 't
  | Map 't 't
  | Basic

text \<open>The package variables, and what was printed.\<close>

record 't lg =
  errorCount :: int
  checked :: "'t set"
  printed :: "string list"

definition lower_case_message :: "string \<Rightarrow> string \<Rightarrow> string" where
  "lower_case_message field tname =
     ''labgob error: lower-case field '' @ field @ '' of '' @ tname @ '' in RPC or persist/snapshot will break your Raft''"

definition complain :: "string \<Rightarrow> 't lg \<Rightarrow> 't lg" where
  "complain msg g = g\<lparr>errorCount := errorCount g + 1, printed := printed g @ [msg]\<rparr>"

text \<open>The loop over the fields of a struct; \<open>check\<close> is the recursive call.\<close>

fun check_fields :: "('t \<Rightarrow> 't lg \<Rightarrow> 't lg option) \<Rightarrow> (string \<Rightarrow> bool) \<Rightarrow> string \<Rightarrow> (string \<times> 't) list \<Rightarrow> 't lg \<Rightarrow> 't lg option" where
  "check_fields check up tname [] g = Some g"
| "check_fields check up tname ((fname, ftype) # fs) g =
     (let g1 = (if up fname = False then complain (lower_case_message fname tname) g else g)
      in Option.bind (check ftype g1) (check_fields check up tname fs))"

primrec checkType :: "nat \<Rightarrow> (string \<Rightarrow> bool) \<Rightarrow> ('t \<Rightarrow> 't tdesc) \<Rightarrow> 't \<Rightarrow> 't lg \<Rightarrow> 't lg option" where
  "checkType 0 up env t g = None"
| "checkType (Suc fuel) up env t g =
     (if t \<in> checked g then Some g
      else (let g1 = g\<lparr>checked := insert t (checked g)\<rparr> in
            case env t of
              Struct tname fs \<Rightarrow> check_fields (checkType fuel up env) up tname fs g1
            | Slice e \<Rightarrow> checkType fuel up env e g1
            | Array e \<Rightarrow> checkType fuel up env e g1
            | Ptr e \<Rightarrow> checkType fuel up env e g1
            | Map k e \<Rightarrow> Option.bind (checkType fuel up env e g1) (checkType fuel up env k)
            | Basic \<Rightarrow> Some g1))"

text \<open>
  Values as \<open>reflect\<close> sees them. A basic value carries the name of its type and whether it is the
  zero value. Reading a basic value out of a field that is not exported is a panic of
  \<open>Value.Interface\<close>; \<open>ro\<close> says that the path to the value has such a field.
\<close>

datatype gvalue =
    VStruct "(string \<times> gvalue) list"
  | VPtr "gvalue option"
  | VBasic string bool
  | VOther

definition non_default_message :: "string \<Rightarrow> string" where
  "non_default_message what =
     ''labgob warning: Decoding into a non-default variable/field '' @ what @ '' may not work''"

fun checkDefault1 :: "(string \<Rightarrow> bool) \<Rightarrow> bool \<Rightarrow> gvalue \<Rightarrow> int \<Rightarrow> string \<Rightarrow> 't lg \<Rightarrow> 't lg res"
  and check_default_fields :: "(string \<Rightarrow> bool) \<Rightarrow> bool \<Rightarrow> (string \<times> gvalue) list \<Rightarrow> int \<Rightarrow> string \<Rightarrow> 't lg \<Rightarrow> 't lg res" where
  "checkDefault1 up ro v depth name g =
     (if depth > 3 then Inr g
      else (case v of
              VStruct fs \<Rightarrow> check_default_fields up ro fs depth name g
            | VPtr None \<Rightarrow> Inr g
            | VPtr (Some w) \<Rightarrow> checkDefault1 up ro w (depth + 1) name g
            | VBasic tname zero \<Rightarrow>
                if ro then Inl (Panic ''reflect.Value.Interface: cannot return value obtained from unexported field'')
                else if \<not> zero
                then Inr (if errorCount g < 1
                          then complain (non_default_message (if name = '''' then tname else name)) g
                          else g\<lparr>errorCount := errorCount g + 1\<rparr>)
                else Inr g
            | VOther \<Rightarrow> Inr g))"
| "check_default_fields up ro [] depth name g = Inr g"
| "check_default_fields up ro ((fname, w) # fs) depth name g =
     (let name1 = (if name \<noteq> '''' then name @ ''.'' @ fname else fname)
      in bind_res (checkDefault1 up (ro \<or> \<not> up fname) w (depth + 1) name1 g)
           (check_default_fields up ro fs depth name))"

declare checkDefault1.simps [simp del]

text \<open>A value of type \<open>interface\<close>: nil, or a type with a value.\<close>

type_synonym 't iface = "('t \<times> gvalue) option"

definition checkValue :: "nat \<Rightarrow> (string \<Rightarrow> bool) \<Rightarrow> ('t \<Rightarrow> 't tdesc) \<Rightarrow> 't iface \<Rightarrow> 't lg \<Rightarrow> 't lg res option" where
  "checkValue fuel up env v g =
     (case v of None \<Rightarrow> Some (Inl NilDereference) | Some (t, w) \<Rightarrow> map_option Inr (checkType fuel up env t g))"

definition checkDefault :: "(string \<Rightarrow> bool) \<Rightarrow> 't iface \<Rightarrow> 't lg \<Rightarrow> 't lg res" where
  "checkDefault up v g = (case v of None \<Rightarrow> Inr g | Some (t, w) \<Rightarrow> checkDefault1 up False w 1 '''' g)"



definition lab_Register :: "nat \<Rightarrow> (string \<Rightarrow> bool) \<Rightarrow> ('t \<Rightarrow> 't tdesc) \<Rightarrow> ('t iface \<Rightarrow> 'r) \<Rightarrow> 't iface \<Rightarrow> 't lg \<Rightarrow> ('t lg \<times> 'r) res option" where
  "lab_Register fuel up env greg v g =
     map_option (\<lambda>r. bind_res r (\<lambda>g'. Inr (g', greg v))) (checkValue fuel up env v g)"

definition lab_RegisterName :: "nat \<Rightarrow> (string \<Rightarrow> bool) \<Rightarrow> ('t \<Rightarrow> 't tdesc) \<Rightarrow> (string \<Rightarrow> 't iface \<Rightarrow> 'r) \<Rightarrow> string \<Rightarrow> 't iface \<Rightarrow> 't lg \<Rightarrow>
  ('t lg \<times> 'r) res option" where
  "lab_RegisterName fuel up env greg name v g =
     map_option (\<lambda>r. bind_res r (\<lambda>g'. Inr (g', greg name v))) (checkValue fuel up env v g)"

subsection \<open>The types a type is made of\<close>

fun comps :: "'t tdesc \<Rightarrow> 't set" where
  "comps (Struct tname fs) = snd ` set fs"
| "comps (Slice e) = {e}"
| "comps (Array e) = {e}"
| "comps (Ptr e) = {e}"
| "comps (Map k e) = {k, e}"
| "comps Basic = {}"

definition lower_fields :: "(string \<Rightarrow> bool) \<Rightarrow> (string \<times> 't) list \<Rightarrow> nat" where
  "lower_fields up fs = length (filter (\<lambda>f. \<not> up (fst f)) fs)"

fun lower_count :: "(string \<Rightarrow> bool) \<Rightarrow> 't tdesc \<Rightarrow> nat" where
  "lower_count up (Struct tname fs) = lower_fields up fs"
| "lower_count up d = 0"

inductive_set parts :: "('t \<Rightarrow> 't tdesc) \<Rightarrow> 't \<Rightarrow> 't set" for env :: "'t \<Rightarrow> 't tdesc" and t :: 't where
  self: "t \<in> parts env t"
| step: "u \<in> parts env t \<Longrightarrow> w \<in> comps (env u) \<Longrightarrow> w \<in> parts env t"

definition closed :: "('t \<Rightarrow> 't tdesc) \<Rightarrow> 't set \<Rightarrow> bool" where
  "closed env A \<longleftrightarrow> (\<forall>u \<in> A. comps (env u) \<subseteq> A)"

lemma parts_comp: "w \<in> comps (env t) \<Longrightarrow> parts env w \<subseteq> parts env t"
proof
  fix u assume w: "w \<in> comps (env t)" and "u \<in> parts env w"
  from this(2) show "u \<in> parts env t"
  proof induction
    case self
    show ?case by (rule parts.step [of t]) (simp_all add: parts.self w)
  next
    case (step u v)
    then show ?case by (blast intro: parts.step)
  qed
qed

lemma parts_closed: "closed env A \<Longrightarrow> t \<in> A \<Longrightarrow> parts env t \<subseteq> A"
proof
  fix u assume "closed env A" "t \<in> A" "u \<in> parts env t"
  from this(3,1,2) show "u \<in> A" by induction (auto simp: closed_def)
qed

text \<open>What a call that starts in \<open>g\<close> has done when it ends in \<open>g'\<close>, with \<open>T\<close> the types it was
  to visit and \<open>k\<close> the lower-case fields it saw itself.\<close>

definition visited :: "(string \<Rightarrow> bool) \<Rightarrow> ('t \<Rightarrow> 't tdesc) \<Rightarrow> 't set \<Rightarrow> nat \<Rightarrow> 't lg \<Rightarrow> 't lg \<Rightarrow> bool" where
  "visited up env T k g g' \<longleftrightarrow>
     checked g \<subseteq> checked g' \<and> T \<subseteq> checked g' \<and>
     checked g' - checked g \<subseteq> (\<Union>t \<in> T. parts env t) \<and>
     (\<forall>u \<in> checked g' - checked g. comps (env u) \<subseteq> checked g') \<and>
     errorCount g' = errorCount g + int k + (\<Sum>u \<in> checked g' - checked g. int (lower_count up (env u)))"

lemma visited_refl: "visited up env {} 0 g g"
  by (simp add: visited_def)

lemma visited_trans:
  assumes "visited up env T k g g'" and "visited up env T' k' g' g''" and "finite (checked g'')"
  shows "visited up env (T \<union> T') (k + k') g g''"
proof -
  have d: "checked g'' - checked g = (checked g' - checked g) \<union> (checked g'' - checked g')"
    "(checked g' - checked g) \<inter> (checked g'' - checked g') = {}"
    using assms(1,2) by (auto simp: visited_def)
  have "finite (checked g')" using assms(2,3) by (auto simp: visited_def intro: finite_subset)
  then have "(\<Sum>u \<in> checked g'' - checked g. int (lower_count up (env u))) =
      (\<Sum>u \<in> checked g' - checked g. int (lower_count up (env u))) + (\<Sum>u \<in> checked g'' - checked g'. int (lower_count up (env u)))"
    using assms(3) unfolding d(1) by (intro sum.union_disjoint) (use d(2) in auto)
  moreover have "comps (env u) \<subseteq> checked g''" if "u \<in> checked g'' - checked g" for u
    using that assms(1,2) unfolding visited_def by (cases "u \<in> checked g'") blast+
  moreover have "checked g'' - checked g \<subseteq> (\<Union>t \<in> T \<union> T'. parts env t)" using assms(1,2) by (auto simp: visited_def)
  ultimately show ?thesis using assms(1,2) by (auto simp: visited_def)
qed

text \<open>Marking a type and visiting its components is visiting the type.\<close>

lemma visited_self:
  assumes "t \<notin> checked g" and "visited up env (comps (env t)) (lower_count up (env t)) (g\<lparr>checked := insert t (checked g)\<rparr>) g'"
    and "finite (checked g')"
  shows "visited up env {t} 0 g g'"
proof -
  let ?f = "\<lambda>u. int (lower_count up (env u))"
  have v: "insert t (checked g) \<subseteq> checked g'" "comps (env t) \<subseteq> checked g'"
    "checked g' - insert t (checked g) \<subseteq> (\<Union>u \<in> comps (env t). parts env u)"
    "\<forall>u \<in> checked g' - insert t (checked g). comps (env u) \<subseteq> checked g'"
    "errorCount g' = errorCount g + ?f t + sum ?f (checked g' - insert t (checked g))"
    using assms(2) by (simp_all add: visited_def)
  have new: "checked g' - checked g = insert t (checked g' - insert t (checked g))" using v(1) assms(1) by blast
  have "sum ?f (insert t (checked g' - insert t (checked g))) = ?f t + sum ?f (checked g' - insert t (checked g))"
    using assms(3) by (intro sum.insert) auto
  then have "sum ?f (checked g' - checked g) = ?f t + sum ?f (checked g' - insert t (checked g))" by (simp only: new)
  then have "errorCount g' = errorCount g + int 0 + sum ?f (checked g' - checked g)" using v(5) by linarith
  moreover have "checked g' - checked g \<subseteq> (\<Union>u \<in> {t}. parts env u)"
    using v(3) parts_comp [of _ env t] parts.self [of t env] by blast
  moreover have "\<forall>u \<in> checked g' - checked g. comps (env u) \<subseteq> checked g'" using v(2,4) by blast
  ultimately show ?thesis using v(1) unfolding visited_def by blast
qed

lemma check_fields_visits:
  assumes "\<And>t g. t \<in> U \<Longrightarrow> checked g \<subseteq> U \<Longrightarrow> m \<subseteq> checked g \<Longrightarrow> \<exists>g'. check t g = Some g' \<and> checked g' \<subseteq> U \<and> visited up env {t} 0 g g'"
    and "finite U" and "snd ` set fs \<subseteq> U" and "checked g \<subseteq> U" and "m \<subseteq> checked g"
  shows "\<exists>g'. check_fields check up tname fs g = Some g' \<and> checked g' \<subseteq> U \<and> visited up env (snd ` set fs) (lower_fields up fs) g g'"
  using assms(3,4,5)
proof (induction fs arbitrary: g)
  case Nil
  then show ?case by (simp add: lower_fields_def visited_refl)
next
  case (Cons f fs)
  obtain fname ftype where f: "f = (fname, ftype)" by force
  let ?g1 = "if up fname = False then complain (lower_case_message fname tname) g else g"
  let ?k = "if up fname then 0 else 1 :: nat"
  have v1: "checked ?g1 = checked g" "visited up env {} ?k g ?g1" by (simp_all add: complain_def visited_def)
  obtain g2 where g2: "check ftype ?g1 = Some g2" "checked g2 \<subseteq> U" "visited up env {ftype} 0 ?g1 g2"
    using assms(1) [of ftype ?g1] Cons.prems v1(1) f by auto
  have "m \<subseteq> checked g2" using g2(3) Cons.prems(3) v1(1) by (auto simp: visited_def)
  then obtain g3 where g3: "check_fields check up tname fs g2 = Some g3" "checked g3 \<subseteq> U"
      "visited up env (snd ` set fs) (lower_fields up fs) g2 g3"
    using Cons.IH [of g2] Cons.prems(1) g2(2) by auto
  have fin: "finite (checked g2)" "finite (checked g3)" using g2(2) g3(2) assms(2) by (auto intro: finite_subset)
  have "visited up env (({} \<union> {ftype}) \<union> snd ` set fs) ((?k + 0) + lower_fields up fs) g g3"
    by (rule visited_trans [OF visited_trans [OF v1(2) g2(3) fin(1)] g3(3) fin(2)])
  then show ?case using g2 g3 f by (intro exI [of _ g3]) (cases "up fname"; simp add: lower_fields_def Let_def)
qed

lemma checkType_visits:
  assumes "finite U" and "closed env U"
  shows "t \<in> U \<Longrightarrow> checked g \<subseteq> U \<Longrightarrow> card (U - checked g) < fuel \<Longrightarrow>
    \<exists>g'. checkType fuel up env t g = Some g' \<and> checked g' \<subseteq> U \<and> visited up env {t} 0 g g'"
proof (induction fuel arbitrary: t g)
  case (Suc fuel)
  show ?case
  proof (cases "t \<in> checked g")
    case True
    then show ?thesis using Suc.prems by (intro exI [of _ g]) (simp add: visited_def)
  next
    case False
    let ?g1 = "g\<lparr>checked := insert t (checked g)\<rparr>"
    have sub: "checked ?g1 \<subseteq> U" "comps (env t) \<subseteq> U" using Suc.prems assms(2) by (auto simp: closed_def)
    have fewer: "card (U - checked g') < fuel" if "checked ?g1 \<subseteq> checked g'" for g' :: "'a lg"
    proof -
      have "U - checked g' \<subset> U - checked g" using that False Suc.prems(1) by auto
      then have "card (U - checked g') < card (U - checked g)" using assms(1) by (intro psubset_card_mono) auto
      then show ?thesis using Suc.prems(3) by linarith
    qed
    have rec: "\<exists>g'. checkType fuel up env u h = Some g' \<and> checked g' \<subseteq> U \<and> visited up env {u} 0 h g'"
      if "u \<in> U" "checked h \<subseteq> U" "checked ?g1 \<subseteq> checked h" for u h
      using Suc.IH [OF that(1,2) fewer [OF that(3)]] .
    have "\<exists>g'. checkType (Suc fuel) up env t g = Some g' \<and> checked g' \<subseteq> U \<and> visited up env (comps (env t)) (lower_count up (env t)) ?g1 g'"
    proof (cases "env t")
      case (Struct tname fs)
      then show ?thesis
        using check_fields_visits [of U "checked ?g1" "checkType fuel up env" up env fs ?g1 tname, OF rec assms(1)] sub False by simp
    next
      case (Map k e)
      then obtain g2 where g2: "checkType fuel up env e ?g1 = Some g2" "checked g2 \<subseteq> U" "visited up env {e} 0 ?g1 g2"
        using rec [of e ?g1] sub by auto
      moreover obtain g3 where g3: "checkType fuel up env k g2 = Some g3" "checked g3 \<subseteq> U" "visited up env {k} 0 g2 g3"
        using rec [of k g2] sub Map g2(2,3) by (auto simp: visited_def)
      moreover have "visited up env ({e} \<union> {k}) (0 + 0) ?g1 g3"
        using visited_trans [OF g2(3) g3(3)] g3(2) assms(1) by (meson finite_subset)
      ultimately show ?thesis using Map False by (intro exI [of _ g3]) (simp add: insert_commute)
    next
      case Basic
      then show ?thesis using False sub by (auto simp: visited_def)
    next
      case (Slice e)
      then show ?thesis using rec [of e ?g1] sub False by simp
    next
      case (Array e)
      then show ?thesis using rec [of e ?g1] sub False by simp
    next
      case (Ptr e)
      then show ?thesis using rec [of e ?g1] sub False by simp
    qed
    then obtain g' where g': "checkType (Suc fuel) up env t g = Some g'" "checked g' \<subseteq> U"
        "visited up env (comps (env t)) (lower_count up (env t)) ?g1 g'" by blast
    then have "visited up env {t} 0 g g'" using visited_self [OF False] finite_subset [OF g'(2) assms(1)] by blast
    then show ?thesis using g' by blast
  qed
qed simp

subsection \<open>Values that are not at their default\<close>

text \<open>Every field on the way to a value is exported; the basic values that are not zero, down to
  the depth at which the check stops.\<close>

fun exported :: "(string \<Rightarrow> bool) \<Rightarrow> gvalue \<Rightarrow> bool" where
  "exported up (VStruct fs) \<longleftrightarrow> (\<forall>f \<in> set fs. up (fst f) \<and> exported up (snd f))"
| "exported up (VPtr (Some w)) \<longleftrightarrow> exported up w"
| "exported up _ \<longleftrightarrow> True"

fun non_default :: "int \<Rightarrow> gvalue \<Rightarrow> nat" where
  "non_default depth (VStruct fs) = (if depth > 3 then 0 else sum_list (map (\<lambda>f. non_default (depth + 1) (snd f)) fs))"
| "non_default depth (VPtr (Some w)) = (if depth > 3 then 0 else non_default (depth + 1) w)"
| "non_default depth (VBasic tname zero) = (if depth > 3 \<or> zero then 0 else 1)"
| "non_default depth _ = 0"

definition counted :: "nat \<Rightarrow> 't lg \<Rightarrow> 't lg \<Rightarrow> bool" where
  "counted k g g' \<longleftrightarrow>
     checked g' = checked g \<and> errorCount g' = errorCount g + int k \<and>
     length (printed g') = length (printed g) + min k (nat (1 - errorCount g))"

lemma counted_trans: "counted k g g' \<Longrightarrow> counted k' g' g'' \<Longrightarrow> counted (k + k') g g''"
  by (auto simp: counted_def min_def split: if_splits)

lemma checkDefault1_counts:
  "\<not> ro \<Longrightarrow> exported up v \<Longrightarrow> \<exists>g'. checkDefault1 up ro v depth name g = Inr g' \<and> counted (non_default depth v) g g'"
  "\<not> ro \<Longrightarrow> (\<forall>f \<in> set fs. up (fst f) \<and> exported up (snd f)) \<Longrightarrow>
     \<exists>g'. check_default_fields up ro fs depth name g = Inr g' \<and>
       counted (sum_list (map (\<lambda>f. non_default (depth + 1) (snd f)) fs)) g g'"
proof (induction up ro v depth name g and up ro fs depth name g rule: checkDefault1_check_default_fields.induct)
  case (1 up ro v depth name g)
  note s = checkDefault1.simps [of up False v depth name g]
  have "ro = False" using "1.prems"(1) by simp
  note IH = "1.IH" [unfolded this] and [simp] = this
  show ?case
  proof (cases "depth > 3")
    case True
    have "non_default depth v = 0" by (cases "(depth, v)" rule: non_default.cases) (use True in auto)
    then show ?thesis using True by (simp add: counted_def s)
  next
    case False
    show ?thesis
    proof (cases v)
      case (VStruct fs)
      then show ?thesis using IH(1) [OF False VStruct] "1.prems" False by (simp add: s [unfolded VStruct])
    next
      case (VPtr p)
      show ?thesis
      proof (cases p)
        case None
        then show ?thesis using VPtr False by (simp add: counted_def s [unfolded VPtr None])
      next
        case (Some w)
        then show ?thesis using IH(2) [OF False VPtr] "1.prems" VPtr False by (simp add: s [unfolded VPtr Some])
      qed
    next
      case (VBasic tname zero)
      then show ?thesis using False "1.prems"(1) by (auto simp: counted_def complain_def s [unfolded VBasic])
    next
      case VOther
      then show ?thesis using False by (simp add: counted_def s [unfolded VOther])
    qed
  qed
next
  case (2 up ro depth name g)
  then show ?case by (simp add: counted_def)
next
  case (3 up ro fname w fs depth name g)
  let ?name1 = "if name \<noteq> '''' then name @ ''.'' @ fname else fname"
  obtain g1 where g1: "checkDefault1 up (ro \<or> \<not> up fname) w (depth + 1) ?name1 g = Inr g1" "counted (non_default (depth + 1) w) g g1"
    using "3.IH"(1) [OF refl] "3.prems" by auto
  obtain g2 where g2: "check_default_fields up ro fs depth name g1 = Inr g2"
      "counted (sum_list (map (\<lambda>f. non_default (depth + 1) (snd f)) fs)) g1 g2"
    using "3.IH"(2) [of _ g1] "3.prems" by auto
  show ?case using g1 g2 counted_trans [OF g1(2) g2(2)] by (simp add: Let_def)
qed

subsection \<open>Basic values in lower-case fields\<close>







lemma checkType_counts:
  assumes "finite (parts env t)" and "finite (checked g)" and "closed env (checked g)"
    and "card (parts env t - checked g) < fuel"
  shows "\<exists>g'. checkType fuel up env t g = Some g' \<and> checked g' = checked g \<union> parts env t \<and> closed env (checked g') \<and>
    errorCount g' = errorCount g + (\<Sum>u \<in> parts env t - checked g. int (lower_count up (env u)))"
proof -
  let ?U = "parts env t \<union> checked g"
  have U: "finite ?U" "closed env ?U" "t \<in> ?U" "checked g \<subseteq> ?U" "?U - checked g = parts env t - checked g"
    using assms(1,2,3) by (auto simp: closed_def intro: parts.intros)
  obtain g' where g': "checkType fuel up env t g = Some g'" "checked g' \<subseteq> ?U" "visited up env {t} 0 g g'"
    using checkType_visits [OF U(1,2,3,4), of fuel up] U(5) assms(4) by auto
  have cl: "closed env (checked g')" using g'(3) assms(3) unfolding closed_def visited_def by blast
  have "parts env t \<subseteq> checked g'" using g'(3) parts_closed [OF cl] by (simp add: visited_def)
  then have eq: "checked g' = checked g \<union> parts env t" using g'(2,3) by (auto simp: visited_def)
  then have "checked g' - checked g = parts env t - checked g" by blast
  then show ?thesis using g' cl eq by (simp add: visited_def)
qed

subsection \<open>Properties\<close>

text \<open>
  C29: The check of a type ends, on recursive types too, and complains once about each lower-case
  field. Started with a set of checked types that is closed under components (as every earlier call
  leaves it), \<open>checkType\<close> returns with the parts of the type added to the set, which is closed
  again, and with the error count raised by the number of lower-case fields in those parts that had
  not been checked before; more fuel than there are such parts is enough.
\<close>

theorem checkType_complains_once:
  assumes "finite (parts env t)" and "finite (checked g)" and "closed env (checked g)"
    and "card (parts env t - checked g) < fuel"
  shows "\<exists>g'. checkType fuel up env t g = Some g' \<and> checked g' = checked g \<union> parts env t \<and> closed env (checked g') \<and>
    errorCount g' = errorCount g + (\<Sum>u \<in> parts env t - checked g. int (lower_count up (env u)))"
  by (rule checkType_counts [OF assms])

text \<open>A list type, \<open>type T struct { val int; Next *T }\<close>.\<close>

datatype ltype = ListT | PtrT | IntT

fun list_env :: "ltype \<Rightarrow> ltype tdesc" where
  "list_env ListT = Struct ''T'' [(''val'', IntT), (''Next'', PtrT)]"
| "list_env PtrT = Ptr ListT"
| "list_env IntT = Basic"

definition capital :: "string \<Rightarrow> bool" where
  "capital s = (case s of [] \<Rightarrow> False | c # _ \<Rightarrow> 65 \<le> (of_char c :: nat) \<and> (of_char c :: nat) \<le> 90)"

definition fresh_lg :: "'t lg" where
  "fresh_lg = \<lparr>errorCount = 0, checked = {}, printed = []\<rparr>"

lemma list_parts: "parts list_env PtrT = {ListT, PtrT, IntT}"
proof (intro equalityI subsetI)
  fix u assume "u \<in> parts list_env PtrT"
  then show "u \<in> {ListT, PtrT, IntT}" by (cases u rule: ltype.exhaust) auto
next
  have l: "ListT \<in> parts list_env PtrT" by (rule parts.step [OF parts.self]) simp
  have "IntT \<in> parts list_env PtrT" by (rule parts.step [OF l]) simp
  then show "u \<in> parts list_env PtrT" if "u \<in> {ListT, PtrT, IntT}" for u using that l parts.self [of PtrT list_env] by auto
qed

theorem checkType_complains_once_witness:
  "\<exists>g'. checkType 4 capital list_env PtrT fresh_lg = Some g' \<and> checked g' = {ListT, PtrT, IntT} \<and> errorCount g' = 1"
  using checkType_complains_once [of list_env PtrT fresh_lg 4 capital]
  by (auto simp: list_parts fresh_lg_def closed_def lower_fields_def capital_def)

text \<open>
  Decoding into used variables is noticed, three levels deep. For a value without unexported
  fields \<open>checkDefault\<close> returns; it raises the error count by the number of basic values that are
  not zero and lie at most three levels below the argument, and it prints a warning only while the
  error count is below one.
\<close>

theorem checkDefault_counts:
  assumes "exported up w"
  shows "\<exists>g'. checkDefault up (Some (t, w)) g = Inr g' \<and> checked g' = checked g \<and>
    errorCount g' = errorCount g + int (non_default 1 w) \<and>
    length (printed g') = length (printed g) + min (non_default 1 w) (nat (1 - errorCount g))"
  using checkDefault1_counts(1) [of False up w 1 "''''" g] assms by (auto simp: checkDefault_def counted_def)

theorem checkDefault_counts_witness:
  "\<exists>g'. checkDefault capital (Some (PtrT, VPtr (Some (VStruct [(''Next'', VPtr None), (''Val'', VBasic ''int'' False)])))) fresh_lg = Inr g' \<and>
     errorCount g' = 1"
  using checkDefault_counts [of capital "VPtr (Some (VStruct [(''Next'', VPtr None), (''Val'', VBasic ''int'' False)]))" PtrT fresh_lg]
  by (auto simp: capital_def fresh_lg_def)





end
