(* ===== verification/Persister.thy ===== *)
theory Persister
  imports Go_Prelude
begin

section \<open>The persister (raft/persister.go) and its contract\<close>

text \<open>
  A persister keeps two byte slices, the encoded Raft state and the service's snapshot; \<open>nil\<close>
  is \<open>None\<close>. Its mutex makes each method atomic, so each method is one function of the
  persister. The byte type is a parameter: what the bytes mean is the client's business. The
  locale \<open>stable_store\<close> states the contract Raft relies on: what was saved last is what is
  read back, through the client's encoding.
\<close>

record 'b Persister =
  raftstate :: "'b list option"
  snapshot :: "'b list option"

definition MakePersister :: "'b Persister" where
  "MakePersister = \<lparr>raftstate = None, snapshot = None\<rparr>"

definition Copy :: "'b Persister \<Rightarrow> 'b Persister" where
  "Copy ps = MakePersister\<lparr>raftstate := raftstate ps, snapshot := snapshot ps\<rparr>"

definition SaveRaftState :: "'b Persister \<Rightarrow> 'b list option \<Rightarrow> 'b Persister" where
  "SaveRaftState ps st = ps\<lparr>raftstate := st\<rparr>"

definition ReadRaftState :: "'b Persister \<Rightarrow> 'b list option" where
  "ReadRaftState ps = raftstate ps"

definition RaftStateSize :: "'b Persister \<Rightarrow> int" where
  "RaftStateSize ps = (case raftstate ps of None \<Rightarrow> 0 | Some b \<Rightarrow> go_len b)"

definition SaveStateAndSnapshot ::
  "'b Persister \<Rightarrow> 'b list option \<Rightarrow> 'b list option \<Rightarrow> 'b Persister" where
  "SaveStateAndSnapshot ps st sn = ps\<lparr>raftstate := st, snapshot := sn\<rparr>"

definition ReadSnapshot :: "'b Persister \<Rightarrow> 'b list option" where
  "ReadSnapshot ps = snapshot ps"

definition SnapshotSize :: "'b Persister \<Rightarrow> int" where
  "SnapshotSize ps = (case snapshot ps of None \<Rightarrow> 0 | Some b \<Rightarrow> go_len b)"

text \<open>What a crash leaves to the next instance: a fresh persister with the Raft state, without the snapshot
  (\<open>crash1\<close> of raft/config.go).\<close>

definition kept :: "'b Persister \<Rightarrow> 'b Persister" where
  "kept ps = SaveRaftState MakePersister (ReadRaftState (Copy ps))"

lemma Copy_id: "Copy ps = (ps :: 'b Persister)"
  by (simp add: Copy_def MakePersister_def)

lemma persister_reads [simp]:
  "ReadRaftState (SaveRaftState ps st) = st"
  "ReadSnapshot (SaveRaftState ps st) = ReadSnapshot ps"
  "ReadRaftState (SaveStateAndSnapshot ps st sn) = st"
  "ReadSnapshot (SaveStateAndSnapshot ps st sn) = sn"
  "ReadRaftState MakePersister = None"
  by (simp_all add: ReadRaftState_def SaveRaftState_def ReadSnapshot_def SaveStateAndSnapshot_def
      MakePersister_def)

subsection \<open>What a client of stable storage may rely on\<close>

locale stable_store =
  fixes save :: "'p \<Rightarrow> 'b list option \<Rightarrow> 'p"
    and load :: "'p \<Rightarrow> 'b list option"
    and encode :: "'v \<Rightarrow> 'b list"
    and decode :: "'b list \<Rightarrow> 'v res"
  assumes load_save: "load (save p b) = b"
    and encode_nonempty: "encode v \<noteq> []"
    and decode_encode: "decode (encode v) = Inr v"
begin

text \<open>Reading back: nothing saved (or an empty slice) leaves the default in place.\<close>

definition restore :: "'p \<Rightarrow> 'v \<Rightarrow> 'v res" where
  "restore p d = (case load p of None \<Rightarrow> Inr d | Some b \<Rightarrow> if b = [] then Inr d else decode b)"

definition holds :: "'p \<Rightarrow> 'v \<Rightarrow> bool" where
  "holds p v \<longleftrightarrow> load p = Some (encode v)"

lemma holds_save: "holds (save p (Some (encode v))) v"
  by (simp add: holds_def load_save)

lemma restore_holds: "holds p v \<Longrightarrow> restore p d = Inr v"
  by (simp add: restore_def holds_def encode_nonempty decode_encode)

lemma restore_save: "restore (save p (Some (encode v))) d = Inr v"
  by (rule restore_holds [OF holds_save])

lemma holds_unique: "holds p v \<Longrightarrow> holds p w \<Longrightarrow> v = w"
  by (metis decode_encode holds_def option.inject sum.inject(2))

lemma restore_empty: "load p = None \<Longrightarrow> restore p d = Inr d"
  by (simp add: restore_def)

end

end
