(* ===== verification/Raft.thy ===== *)
theory Raft
  imports Persister
begin

section \<open>One Raft peer (raft/raft.go)\<close>

text \<open>
  The state of a peer, its persistent encoding, the two RPC handlers and the code of its
  goroutines, each critical section (from \<open>rf.mu.Lock()\<close> to \<open>rf.mu.Unlock()\<close>) one
  function of the peer's state. The command type \<open>'c\<close> is Go's \<open>interface\<close> type, with
  \<open>nil\<close> as \<open>None\<close>. A run-time panic is a value of \<open>go_error\<close>. The clock and the
  random number generator are arguments. Of \<open>peers\<close> only the length is used here; sending is
  in the theory of the cluster.
\<close>

subsection \<open>Data\<close>

record 'c ApplyMsg =
  CommandValid :: bool
  am_Command :: "'c option"
  CommandIndex :: int

record 'c Entry =
  Term :: int
  Command :: "'c option"
  Index :: int

text \<open>
  The buffer that \<open>persist\<close> writes is the stream of values that a \<open>labgob\<close> encoder was
  given, in order; a decoder takes them off one by one and fails on a missing value or on one of
  another type.
\<close>

datatype 'c gob_item = GobEntries "'c Entry list" | GobInt int

abbreviation (input) Follower :: int where "Follower \<equiv> 0"
abbreviation (input) Candidate :: int where "Candidate \<equiv> 1"
abbreviation (input) Leader :: int where "Leader \<equiv> 2"

definition HeartBeatInterval :: int where "HeartBeatInterval = 100"
definition ElectionTimeout :: int where "ElectionTimeout = 500"
definition ElectionTimeoutRandomRange :: int where "ElectionTimeoutRandomRange = 100"

text \<open>Times and durations are in nanoseconds, as in package \<open>time\<close>.\<close>

definition Millisecond :: int where "Millisecond = 1000000"

text \<open>
  A goroutine started by \<open>sendApplyMsg\<close> either has entries left to put on \<open>applyCh\<close>, or
  has just delivered the entry of an index and has not yet updated \<open>lastApplied\<close>.
\<close>

datatype 'c applier = Sending "'c Entry list" | Delivered int "'c Entry list"

record 'c Raft =
  npeers :: nat
  persister :: "'c gob_item Persister"
  me :: int
  dead :: int
  currentTerm :: int
  votedFor :: int
  log :: "'c Entry list"
  commitIndex :: int
  lastApplied :: int
  nextIndex :: "int list"
  matchIndex :: "int list"
  state :: int
  voteCount :: int
  timestamp :: int
  electionTimeout :: int
  appliers :: "'c applier list"

record RequestVoteArgs =
  rv_Term :: int
  rv_CandidateId :: int
  rv_LastLogIndex :: int
  rv_LastLogTerm :: int

record RequestVoteReply =
  rvr_Term :: int
  rvr_VoteGranted :: bool

record 'c AppendEntriesArgs =
  ae_Term :: int
  ae_LeaderId :: int
  ae_PrevLogIndex :: int
  ae_PrevLogTerm :: int
  ae_LeaderCommit :: int
  ae_Entries :: "'c Entry list"

record AppendEntriesReply =
  aer_Term :: int
  aer_Success :: bool
  aer_XTerm :: int
  aer_XIndex :: int

definition GetState :: "'c Raft \<Rightarrow> int \<times> bool" where
  "GetState rf = (currentTerm rf, state rf = Leader)"

subsection \<open>Persistent state\<close>

type_synonym 'c pstate = "'c Entry list \<times> int \<times> int"

definition Encode :: "'v list \<Rightarrow> 'v \<Rightarrow> 'v list" where
  "Encode w v = w @ [v]"

definition encode_state :: "'c pstate \<Rightarrow> 'c gob_item list" where
  "encode_state v =
     (case v of (lg, term, vote) \<Rightarrow>
        Encode (Encode (Encode [] (GobEntries lg)) (GobInt term)) (GobInt vote))"

fun Decode_entries :: "'c gob_item list \<Rightarrow> ('c Entry list \<times> 'c gob_item list) option" where
  "Decode_entries (GobEntries lg # r) = Some (lg, r)"
| "Decode_entries _ = None"

fun Decode_int :: "'c gob_item list \<Rightarrow> (int \<times> 'c gob_item list) option" where
  "Decode_int (GobInt i # r) = Some (i, r)"
| "Decode_int _ = None"

definition decode_state :: "'c gob_item list \<Rightarrow> 'c pstate res" where
  "decode_state d =
     (case Decode_entries d of None \<Rightarrow> Inl (Panic ''Decode error'') | Some (lg, d1) \<Rightarrow>
     (case Decode_int d1 of None \<Rightarrow> Inl (Panic ''Decode error'') | Some (term, d2) \<Rightarrow>
     (case Decode_int d2 of None \<Rightarrow> Inl (Panic ''Decode error'') | Some (vote, d3) \<Rightarrow>
        Inr (lg, term, vote))))"

definition pstate_of :: "'c Raft \<Rightarrow> 'c pstate" where
  "pstate_of rf = (log rf, currentTerm rf, votedFor rf)"

definition persist :: "'c Raft \<Rightarrow> 'c Raft" where
  "persist rf = rf\<lparr>persister := SaveRaftState (persister rf) (Some (encode_state (pstate_of rf)))\<rparr>"

definition readPersist :: "'c Raft \<Rightarrow> 'c gob_item list option \<Rightarrow> 'c Raft res" where
  "readPersist rf data =
     (case data of None \<Rightarrow> Inr rf
      | Some d \<Rightarrow>
          if go_len d < 1 then Inr rf
          else bind_res (decode_state d) (\<lambda>(lg, term, vote).
                 Inr (rf\<lparr>log := lg, currentTerm := term, votedFor := vote\<rparr>)))"

subsection \<open>Changing role\<close>

definition convertTo :: "int \<Rightarrow> 'c Raft \<Rightarrow> 'c Raft" where
  "convertTo st rf =
     (if st = Follower then rf\<lparr>state := Follower, votedFor := -1\<rparr>
      else if st = Leader then rf\<lparr>state := Leader\<rparr>
      else if st = Candidate then rf\<lparr>state := Candidate\<rparr>
      else rf)"

subsection \<open>The RequestVote handler\<close>

definition moreUpToDate :: "RequestVoteArgs \<Rightarrow> 'c Raft \<Rightarrow> bool res" where
  "moreUpToDate args rf =
     bind_res (go_index (log rf) (go_len (log rf) - 1)) (\<lambda>lst.
       Inr (rv_LastLogTerm args > Term lst \<or>
            (rv_LastLogTerm args = Term lst \<and> rv_LastLogIndex args \<ge> Index lst)))"

definition RequestVote ::
  "int \<Rightarrow> 'c Raft \<Rightarrow> RequestVoteArgs \<Rightarrow> ('c Raft \<times> RequestVoteReply) res" where
  "RequestVote now rf args =
     (let granted0 = False;
          granted1 = (if rv_Term args < currentTerm rf then False else granted0);
          rf1 = (if rv_Term args > currentTerm rf
                 then convertTo Follower (rf\<lparr>currentTerm := rv_Term args\<rparr>) else rf)
      in bind_res
           (if votedFor rf1 = -1 \<or> votedFor rf1 = rv_CandidateId args
            then moreUpToDate args rf1 else Inr False)
           (\<lambda>vote.
             let rf2 = (if vote then rf1\<lparr>votedFor := rv_CandidateId args, timestamp := now\<rparr> else rf1);
                 granted2 = (if vote then True else granted1)
             in Inr (persist rf2, \<lparr>rvr_Term = currentTerm rf2, rvr_VoteGranted = granted2\<rparr>)))"

subsection \<open>The AppendEntries handler\<close>

text \<open>The backward scan for the first entry of the conflicting term.\<close>

function scan_XIndex :: "'c Entry list \<Rightarrow> int \<Rightarrow> int \<Rightarrow> int res" where
  "scan_XIndex lg xterm x =
     (case go_index lg (x - 1) of
        Inl e \<Rightarrow> Inl e
      | Inr en \<Rightarrow> if Term en = xterm then scan_XIndex lg xterm (x - 1) else Inr x)"
  by pat_completeness auto
termination
  by (relation "measure (\<lambda>(lg, xterm, x). nat x)") (auto simp: go_index_Inr)

declare scan_XIndex.simps [simp del]

fun append_loop :: "'c Entry list \<Rightarrow> 'c Entry list \<Rightarrow> 'c Entry list res" where
  "append_loop lg [] = Inr lg"
| "append_loop lg (entry # es) =
     (if Index entry < go_len lg
      then bind_res (go_index lg (Index entry)) (\<lambda>old.
             if Term old \<noteq> Term entry
             then bind_res (go_slice_to lg (Index entry)) (\<lambda>lg1. append_loop (lg1 @ [entry]) es)
             else append_loop lg es)
      else append_loop (lg @ [entry]) es)"

definition sendApplyMsg :: "'c Raft \<Rightarrow> 'c Raft res" where
  "sendApplyMsg rf =
     (if commitIndex rf > lastApplied rf
      then bind_res (go_slice (log rf) (lastApplied rf + 1) (commitIndex rf + 1)) (\<lambda>entries.
             Inr (rf\<lparr>appliers := appliers rf @ [Sending entries]\<rparr>))
      else Inr rf)"

text \<open>The branch in which the previous entry matches: store the entries, follow the commit index.\<close>

definition AppendEntries_accept :: "'c Raft \<Rightarrow> 'c AppendEntriesArgs \<Rightarrow> 'c Raft res" where
  "AppendEntries_accept rf args =
     bind_res
       (if go_len (ae_Entries args) > 0
        then bind_res (append_loop (log rf) (ae_Entries args)) (\<lambda>lg.
             bind_res (go_update (nextIndex rf) (me rf) (go_len lg)) (\<lambda>ni.
             bind_res (go_update (matchIndex rf) (me rf) (go_len lg - 1)) (\<lambda>mi.
               Inr (rf\<lparr>log := lg, nextIndex := ni, matchIndex := mi\<rparr>))))
        else Inr rf)
       (\<lambda>rf1. Inr (if ae_LeaderCommit args > commitIndex rf1
                    then (if ae_LeaderCommit args < go_len (log rf1) - 1
                          then rf1\<lparr>commitIndex := ae_LeaderCommit args\<rparr>
                          else rf1\<lparr>commitIndex := go_len (log rf1) - 1\<rparr>)
                    else rf1))"

text \<open>The consistency check: the new state and the fields Success, XTerm and XIndex of the reply.\<close>

definition AppendEntries_check ::
  "'c Raft \<Rightarrow> 'c AppendEntriesArgs \<Rightarrow> ('c Raft \<times> bool \<times> int \<times> int) res" where
  "AppendEntries_check rf args =
     (if ae_PrevLogIndex args \<ge> go_len (log rf) then Inr (rf, False, -1, go_len (log rf))
      else bind_res (go_index (log rf) (ae_PrevLogIndex args)) (\<lambda>prev.
        if Term prev \<noteq> ae_PrevLogTerm args
        then bind_res (scan_XIndex (log rf) (Term prev) (ae_PrevLogIndex args)) (\<lambda>x.
               Inr (rf, False, Term prev, x))
        else bind_res (AppendEntries_accept rf args) (\<lambda>rf1. Inr (rf1, True, 0, 0))))"

definition AppendEntries ::
  "int \<Rightarrow> 'c Raft \<Rightarrow> 'c AppendEntriesArgs \<Rightarrow> ('c Raft \<times> AppendEntriesReply) res" where
  "AppendEntries now rf args =
     (if ae_Term args < currentTerm rf
      then Inr (persist rf,
                \<lparr>aer_Term = currentTerm rf, aer_Success = False, aer_XTerm = 0, aer_XIndex = 0\<rparr>)
      else bind_res (AppendEntries_check rf args) (\<lambda>(rf1, succ, xterm, xindex).
           let rf2 = (if ae_Term args > currentTerm rf1
                      then convertTo Follower (rf1\<lparr>currentTerm := ae_Term args\<rparr>) else rf1)
           in bind_res (if commitIndex rf2 > lastApplied rf2 then sendApplyMsg rf2 else Inr rf2)
                (\<lambda>rf3. Inr (persist (rf3\<lparr>timestamp := now\<rparr>),
                   \<lparr>aer_Term = currentTerm rf3, aer_Success = succ,
                    aer_XTerm = xterm, aer_XIndex = xindex\<rparr>))))"

text \<open>
  The goroutine of \<open>sendApplyMsg\<close>: deliver the next entry on \<open>applyCh\<close>; then, under the
  lock, raise \<open>lastApplied\<close>.
\<close>

fun applier_send :: "'c applier \<Rightarrow> ('c applier \<times> 'c ApplyMsg) option" where
  "applier_send (Sending (e # es)) =
     Some (Delivered (Index e) es,
           \<lparr>CommandValid = True, am_Command = Command e, CommandIndex = Index e\<rparr>)"
| "applier_send _ = None"

fun applier_update :: "'c applier \<Rightarrow> 'c Raft \<Rightarrow> ('c applier \<times> 'c Raft) option" where
  "applier_update (Delivered i es) rf =
     Some (Sending es, if lastApplied rf < i then rf\<lparr>lastApplied := i\<rparr> else rf)"
| "applier_update _ rf = None"

subsection \<open>Start, Kill, timeouts\<close>

text \<open>
  \<open>Start\<close> reads the term and the role in one critical section (\<open>GetState\<close>) and appends in
  another; \<open>Start_append\<close> is the second one, with the term read before.
\<close>

definition Start_append :: "int \<Rightarrow> 'c option \<Rightarrow> 'c Raft \<Rightarrow> ('c Raft \<times> int) res" where
  "Start_append term command rf =
     (let index = go_len (log rf);
          entry = \<lparr>Term = term, Command = command, Index = index\<rparr>;
          rf1 = persist (rf\<lparr>log := log rf @ [entry]\<rparr>)
      in bind_res (go_update (nextIndex rf1) (me rf1) (go_len (log rf1))) (\<lambda>ni.
         bind_res (go_update (matchIndex rf1) (me rf1) (go_len (log rf1) - 1)) (\<lambda>mi.
           Inr (rf1\<lparr>nextIndex := ni, matchIndex := mi\<rparr>, index))))"

definition Start :: "'c option \<Rightarrow> 'c Raft \<Rightarrow> ('c Raft \<times> int \<times> int \<times> bool) res" where
  "Start command rf =
     (let (term, isLeader) = GetState rf
      in if isLeader
         then bind_res (Start_append term command rf) (\<lambda>(rf1, index). Inr (rf1, index, term, isLeader))
         else Inr (rf, -1, term, isLeader))"

definition Kill :: "'c Raft \<Rightarrow> 'c Raft" where
  "Kill rf = rf\<lparr>dead := 1\<rparr>"

definition killed :: "'c Raft \<Rightarrow> bool" where
  "killed rf \<longleftrightarrow> dead rf = 1"

definition isElectionTimeout :: "int \<Rightarrow> 'c Raft \<Rightarrow> bool" where
  "isElectionTimeout now rf \<longleftrightarrow> now - timestamp rf > electionTimeout rf"

subsection \<open>Heartbeats\<close>

text \<open>First critical section of a heartbeat goroutine: build the arguments (nothing if not leader).\<close>

definition sendHearbeat_args :: "'c Raft \<Rightarrow> int \<Rightarrow> 'c AppendEntriesArgs option res" where
  "sendHearbeat_args rf index =
     (if state rf \<noteq> Leader then Inr None
      else bind_res (go_index (nextIndex rf) index) (\<lambda>ni.
           let prevLogIndex = ni - 1
           in bind_res (go_index (log rf) prevLogIndex) (\<lambda>prev.
              bind_res (go_slice_from (log rf) (prevLogIndex + 1)) (\<lambda>entries.
                Inr (Some \<lparr>ae_Term = currentTerm rf, ae_LeaderId = me rf,
                           ae_PrevLogIndex = prevLogIndex, ae_PrevLogTerm = Term prev,
                           ae_LeaderCommit = commitIndex rf, ae_Entries = entries\<rparr>)))))"

text \<open>The leader's search for the last entry of the conflicting term.\<close>

function find_XTerm :: "'c Entry list \<Rightarrow> int \<Rightarrow> int \<Rightarrow> int option res" where
  "find_XTerm lg xterm i =
     (if i \<ge> 1
      then bind_res (go_index lg (i - 1)) (\<lambda>en.
             if Term en = xterm then Inr (Some i) else find_XTerm lg xterm (i - 1))
      else Inr None)"
  by pat_completeness auto
termination
  by (relation "measure (\<lambda>(lg, xterm, i). nat i)") auto

declare find_XTerm.simps [simp del]

text \<open>Second critical section: digest the reply.\<close>

definition sendHearbeat_reply ::
  "'c Raft \<Rightarrow> int \<Rightarrow> 'c AppendEntriesArgs \<Rightarrow> AppendEntriesReply \<Rightarrow> 'c Raft res" where
  "sendHearbeat_reply rf index args reply =
     (if state rf \<noteq> Leader then Inr rf
      else if aer_Term reply > currentTerm rf
      then Inr (persist (convertTo Follower (rf\<lparr>currentTerm := aer_Term reply\<rparr>)))
      else if \<not> aer_Success reply
      then bind_res (go_update (nextIndex rf) index (aer_XIndex reply)) (\<lambda>ni.
           if aer_XTerm reply \<noteq> -1
           then bind_res (find_XTerm (log rf) (aer_XTerm reply) (ae_PrevLogIndex args)) (\<lambda>found.
                case found of
                  None \<Rightarrow> Inr (rf\<lparr>nextIndex := ni\<rparr>)
                | Some i \<Rightarrow> bind_res (go_update ni index i) (\<lambda>ni2. Inr (rf\<lparr>nextIndex := ni2\<rparr>)))
           else Inr (rf\<lparr>nextIndex := ni\<rparr>))
      else (let m = ae_PrevLogIndex args + go_len (ae_Entries args)
            in bind_res (go_update (matchIndex rf) index m) (\<lambda>mi.
               bind_res (go_update (nextIndex rf) index (m + 1)) (\<lambda>ni.
                 Inr (rf\<lparr>matchIndex := mi, nextIndex := ni\<rparr>)))))"

text \<open>The last critical section of \<open>sendHearbeat\<close>: advance the commit index.\<close>

definition count_match :: "int list \<Rightarrow> int \<Rightarrow> nat \<Rightarrow> int \<times> int \<Rightarrow> (int \<times> int) res" where
  "count_match mi ci i acc =
     bind_res (go_index mi (int i)) (\<lambda>m.
       if m > ci then Inr (fst acc + 1, if m < snd acc then m else snd acc) else Inr acc)"

definition sendHearbeat_commit :: "'c Raft \<Rightarrow> 'c Raft res" where
  "sendHearbeat_commit rf =
     bind_res (go_index (matchIndex rf) (me rf)) (\<lambda>mine.
       if commitIndex rf < mine
       then bind_res (fold_res (count_match (matchIndex rf) (commitIndex rf)) [0..<npeers rf] (0, mine))
              (\<lambda>(counter, minN).
                 if counter > int (npeers rf) div 2
                 then bind_res (go_index (log rf) minN) (\<lambda>en.
                        if Term en = currentTerm rf
                        then sendApplyMsg (rf\<lparr>commitIndex := minN\<rparr>) else Inr rf)
                 else Inr rf)
       else Inr rf)"

subsection \<open>Elections\<close>

definition startElection_begin :: "int \<Rightarrow> 'c Raft \<Rightarrow> 'c Raft" where
  "startElection_begin now rf =
     persist (rf\<lparr>currentTerm := currentTerm rf + 1, votedFor := me rf, timestamp := now, voteCount := 1\<rparr>)"

definition startElection_args :: "'c Raft \<Rightarrow> RequestVoteArgs res" where
  "startElection_args rf =
     bind_res (go_index (log rf) (go_len (log rf) - 1)) (\<lambda>lst.
       Inr \<lparr>rv_Term = currentTerm rf, rv_CandidateId = me rf,
            rv_LastLogIndex = go_len (log rf) - 1, rv_LastLogTerm = Term lst\<rparr>)"

definition startElection_reply :: "'c Raft \<Rightarrow> RequestVoteReply \<Rightarrow> 'c Raft" where
  "startElection_reply rf reply =
     (if rvr_VoteGranted reply then rf\<lparr>voteCount := voteCount rf + 1\<rparr>
      else if rvr_Term reply > currentTerm rf
      then persist (convertTo Follower (rf\<lparr>currentTerm := rvr_Term reply\<rparr>))
      else rf)"

definition runFollower_convert :: "'c Raft \<Rightarrow> 'c Raft" where
  "runFollower_convert rf = convertTo Candidate rf"

definition runCandidate_check :: "'c Raft \<Rightarrow> 'c Raft" where
  "runCandidate_check rf =
     (if voteCount rf > int (npeers rf) div 2 then convertTo Leader rf else rf)"

subsection \<open>Creating a peer\<close>

definition Make :: "int \<Rightarrow> int \<Rightarrow> nat \<Rightarrow> int \<Rightarrow> 'c gob_item Persister \<Rightarrow> 'c Raft res" where
  "Make now rnd peers i ps =
     readPersist
       \<lparr>npeers = peers, persister = ps, me = i, dead = 0, currentTerm = 0, votedFor = -1,
        log = [\<lparr>Term = 0, Command = None, Index = 0\<rparr>],
        commitIndex = 0, lastApplied = 0,
        nextIndex = replicate peers 1, matchIndex = replicate peers 0,
        state = Follower, voteCount = 0, timestamp = now,
        electionTimeout = (rnd + ElectionTimeout) * Millisecond, appliers = []\<rparr>
       (ReadRaftState ps)"

end
