(* ===== verification/Raft_Log.thy ===== *)
theory Raft_Log
  imports Raft
begin

section \<open>Logs: well-formedness, conflict resolution, fast backup\<close>

text \<open>
  What the loops of \<open>AppendEntries\<close> and \<open>sendHearbeat\<close> compute on logs. \<open>merge_from\<close>
  is the abstract rule of the Raft paper (keep what agrees, cut at the first conflict, append the
  rest); \<open>append_loop\<close> refines it. \<open>logs_match\<close> is the Log Matching Property between two
  logs: an entry of the same index and term makes everything up to it equal.
\<close>

definition log_wf :: "'c Entry list \<Rightarrow> bool" where
  "log_wf lg \<longleftrightarrow> lg \<noteq> [] \<and> Term (lg ! 0) = 0 \<and>
     (\<forall>i < length lg. Index (lg ! i) = int i) \<and>
     (\<forall>i < length lg. 0 < i \<longrightarrow> 1 \<le> Term (lg ! i))"

definition entries_at :: "nat \<Rightarrow> 'c Entry list \<Rightarrow> bool" where
  "entries_at n es \<longleftrightarrow> (\<forall>k < length es. Index (es ! k) = int (n + k) \<and> 1 \<le> Term (es ! k))"

fun merge_from :: "'c Entry list \<Rightarrow> nat \<Rightarrow> 'c Entry list \<Rightarrow> 'c Entry list" where
  "merge_from lg n [] = lg"
| "merge_from lg n (e # es) =
     (if n < length lg \<and> Term (lg ! n) = Term e then merge_from lg (Suc n) es
      else take n lg @ (e # es))"

definition logs_match :: "'c Entry list \<Rightarrow> 'c Entry list \<Rightarrow> bool" where
  "logs_match l1 l2 \<longleftrightarrow>
     (\<forall>i. i < length l1 \<and> i < length l2 \<and> Term (l1 ! i) = Term (l2 ! i) \<longrightarrow>
          take (Suc i) l1 = take (Suc i) l2)"

subsection \<open>Well-formed logs\<close>

lemma log_wf_nonempty [simp]: "log_wf lg \<Longrightarrow> lg \<noteq> []"
  by (simp add: log_wf_def)

lemma log_wf_len: "log_wf lg \<Longrightarrow> 1 \<le> go_len lg"
  by (cases lg) (simp_all add: log_wf_def)

lemma log_wf_take: "log_wf lg \<Longrightarrow> 0 < n \<Longrightarrow> log_wf (take n lg)"
  by (auto simp: log_wf_def)

lemma log_wf_append:
  "log_wf lg \<Longrightarrow> entries_at (length lg) es \<Longrightarrow> log_wf (lg @ es)"
  unfolding log_wf_def entries_at_def
  by (auto simp: nth_append)

lemma log_wf_initial: "log_wf [\<lparr>Term = 0, Command = c, Index = 0\<rparr>]"
  by (simp add: log_wf_def)

lemma entries_at_Nil [simp]: "entries_at n []"
  by (simp add: entries_at_def)

lemma entries_at_Cons [simp]:
  "entries_at n (e # es) \<longleftrightarrow> Index e = int n \<and> 1 \<le> Term e \<and> entries_at (Suc n) es"
  by (auto simp: entries_at_def less_Suc_eq_0_disj nth_Cons split: nat.splits)

lemma entries_at_drop: "log_wf lg \<Longrightarrow> 0 < n \<Longrightarrow> entries_at n (drop n lg)"
  by (auto simp: entries_at_def log_wf_def)

lemma last_Index: "log_wf lg \<Longrightarrow> Index (last lg) = go_len lg - 1"
  by (cases lg rule: rev_cases) (auto simp: log_wf_def go_len_def nth_append)

subsection \<open>The append loop refines the merge rule\<close>

lemma append_loop_at_end:
  "entries_at (length lg) es \<Longrightarrow> append_loop lg es = Inr (lg @ es)"
  by (induction es arbitrary: lg) (auto simp: go_len_def)

lemma append_loop_merge:
  assumes "entries_at n es" and "n \<le> length lg"
  shows "append_loop lg es = Inr (merge_from lg n es)"
  using assms
proof (induction es arbitrary: n)
  case Nil
  then show ?case by simp
next
  case (Cons e es)
  have tl: "entries_at (length (take n lg @ [e])) es" if "n \<le> length lg"
    using Cons.prems(1) that by (simp add: min_def)
  show ?case
    using Cons.prems Cons.IH [of "Suc n"] append_loop_at_end [OF tl]
    by (auto simp: go_len_def go_index_ok go_slice_to_ok)
qed

lemma length_merge_from: "n \<le> length lg \<Longrightarrow> n + length es \<le> length (merge_from lg n es)"
proof (induction es arbitrary: n)
  case (Cons e es)
  then show ?case using Cons.IH [of "Suc n"] by auto
qed simp

lemma take_merge_from: "n \<le> length lg \<Longrightarrow> take n (merge_from lg n es) = take n lg"
proof (induction es arbitrary: n)
  case (Cons e es)
  then show ?case
    using Cons.IH [of "Suc n"] by (auto simp: min_def) (metis Suc_leI take_take_le le_SucI order_refl)
qed simp

lemma merge_from_Term:
  "n \<le> length lg \<Longrightarrow> k < length es \<Longrightarrow> Term (merge_from lg n es ! (n + k)) = Term (es ! k)"
proof (induction es arbitrary: n k)
  case (Cons e es)
  show ?case
  proof (cases "n < length lg \<and> Term (lg ! n) = Term e")
    case True
    then have fst: "merge_from lg (Suc n) es ! n = lg ! n"
      using take_merge_from [of "Suc n" lg es]
      by (metis Suc_leI lessI nth_take)
    show ?thesis
      using True Cons.prems Cons.IH [of "Suc n" "k - 1"] fst by (cases k) auto
  next
    case False
    then show ?thesis using Cons.prems by (auto simp: nth_append min_def)
  qed
qed simp

lemma log_wf_merge_from:
  assumes "log_wf lg" and "entries_at n es" and "0 < n" and "n \<le> length lg"
  shows "log_wf (merge_from lg n es)"
  using assms
proof (induction es arbitrary: n)
  case (Cons e es)
  have "log_wf (take n lg @ e # es)"
    by (rule log_wf_append) (use Cons.prems in \<open>auto simp: log_wf_take min_def\<close>)
  then show ?case using Cons by auto
qed simp

lemma merge_from_agree:
  assumes "\<forall>k < length es. n + k < length lg \<and> Term (lg ! (n + k)) = Term (es ! k)"
  shows "merge_from lg n es = lg"
  using assms
proof (induction es arbitrary: n)
  case (Cons e es)
  have "n < length lg \<and> Term (lg ! n) = Term e" using Cons.prems by force
  moreover have "\<forall>k < length es. Suc n + k < length lg \<and> Term (lg ! (Suc n + k)) = Term (es ! k)"
    using Cons.prems by force
  ultimately show ?case using Cons.IH by simp
qed simp

lemma merge_from_idem:
  assumes "n \<le> length lg"
  shows "merge_from (merge_from lg n es) n es = merge_from lg n es"
  using assms merge_from_Term [OF assms] length_merge_from [OF assms, of es]
  by (intro merge_from_agree) auto

subsection \<open>Log matching\<close>

lemma logs_match_refl [simp]: "logs_match l l"
  by (simp add: logs_match_def)

lemma logs_match_sym: "logs_match l1 l2 \<Longrightarrow> logs_match l2 l1"
  by (simp add: logs_match_def)

lemma logs_match_take:
  "logs_match l1 l2 \<Longrightarrow> i < length l1 \<Longrightarrow> i < length l2 \<Longrightarrow> Term (l1 ! i) = Term (l2 ! i) \<Longrightarrow>
     take (Suc i) l1 = take (Suc i) l2"
  by (simp add: logs_match_def)

text \<open>
  The follower that accepts the tail of the leader's log ends with the leader's log, or keeps its
  own longer log of which the leader's is a prefix.
\<close>

lemma merge_from_leader:
  assumes match: "logs_match lg L" and "n \<le> length lg" and "n \<le> length L"
    and pre: "take n lg = take n L"
  shows "merge_from lg n (drop n L) =
    (if length L \<le> length lg \<and> take (length L) lg = L then lg else L)"
  using assms(2-4)
proof (induction "length L - n" arbitrary: n)
  case 0
  then show ?case by simp
next
  case (Suc m)
  then have n: "n < length L" by simp
  then have dropL: "drop n L = L ! n # drop (Suc n) L" by (simp add: Cons_nth_drop_Suc)
  show ?case
  proof (cases "n < length lg \<and> Term (lg ! n) = Term (L ! n)")
    case True
    then have "take (Suc n) lg = take (Suc n) L"
      using logs_match_take [OF match] n by blast
    then show ?thesis using Suc.hyps(1) [of "Suc n"] Suc.hyps(2) True n dropL by simp
  next
    case False
    have res: "merge_from lg n (drop n L) = L"
      using False dropL Suc.prems(3) id_take_nth_drop [OF n] by auto
    have "\<not> (length L \<le> length lg \<and> take (length L) lg = L)"
      using False n by (metis nth_take order_less_le_trans)
    then show ?thesis using res by auto
  qed
qed

subsection \<open>The backward scan of the follower\<close>

lemma scan_XIndex_spec:
  assumes "log_wf lg" and "1 \<le> xterm" and "1 \<le> p" and "p \<le> go_len lg"
  shows "\<exists>x. scan_XIndex lg xterm p = Inr x \<and> 1 \<le> x \<and> x \<le> p \<and>
    Term (lg ! nat (x - 1)) \<noteq> xterm \<and> (\<forall>j. x \<le> j \<and> j < p \<longrightarrow> Term (lg ! nat j) = xterm)"
  using assms(3,4)
proof (induction "nat p" arbitrary: p)
  case 0
  then show ?case by simp
next
  case (Suc m)
  have idx: "go_index lg (p - 1) = Inr (lg ! nat (p - 1))"
    using Suc.prems by (simp add: go_index_ok)
  show ?case
  proof (cases "Term (lg ! nat (p - 1)) = xterm")
    case True
    have "p \<noteq> 1" using True assms(1,2) by (auto simp: log_wf_def)
    have m: "m = nat (p - 1)" using Suc.hyps(2) by simp
    with \<open>p \<noteq> 1\<close> obtain x where x: "scan_XIndex lg xterm (p - 1) = Inr x" "1 \<le> x" "x \<le> p - 1"
        "Term (lg ! nat (x - 1)) \<noteq> xterm" "\<forall>j. x \<le> j \<and> j < p - 1 \<longrightarrow> Term (lg ! nat j) = xterm"
      using Suc.hyps(1) [OF m] Suc.prems by auto
    have "\<forall>j. x \<le> j \<and> j < p \<longrightarrow> Term (lg ! nat j) = xterm"
    proof (intro allI impI)
      fix j assume "x \<le> j \<and> j < p"
      then show "Term (lg ! nat j) = xterm" using x(5) True by (cases "j = p - 1") auto
    qed
    moreover have "scan_XIndex lg xterm p = Inr x"
      using idx True x(1) by (subst scan_XIndex.simps) simp
    ultimately show ?thesis using x by auto
  next
    case False
    then have "scan_XIndex lg xterm p = Inr p"
      using idx by (subst scan_XIndex.simps) simp
    then show ?thesis using False Suc.prems by auto
  qed
qed

subsection \<open>The leader's search\<close>

lemma find_XTerm_total:
  assumes "i \<le> go_len lg"
  shows "\<exists>r. find_XTerm lg xterm i = Inr r \<and>
    (case r of None \<Rightarrow> \<forall>j. 1 \<le> j \<and> j \<le> i \<longrightarrow> Term (lg ! nat (j - 1)) \<noteq> xterm
     | Some j \<Rightarrow> 1 \<le> j \<and> j \<le> i \<and> Term (lg ! nat (j - 1)) = xterm \<and>
                 (\<forall>k. j < k \<and> k \<le> i \<longrightarrow> Term (lg ! nat (k - 1)) \<noteq> xterm))"
  using assms
proof (induction "nat i" arbitrary: i)
  case 0
  then have "find_XTerm lg xterm i = Inr None" by (subst find_XTerm.simps) simp
  then show ?case using 0 by auto
next
  case (Suc m)
  have idx: "go_index lg (i - 1) = Inr (lg ! nat (i - 1))"
    using Suc by (simp add: go_index_ok)
  show ?case
  proof (cases "Term (lg ! nat (i - 1)) = xterm")
    case True
    then have "find_XTerm lg xterm i = Inr (Some i)"
      using idx Suc by (subst find_XTerm.simps) simp
    then show ?thesis using True Suc by auto
  next
    case False
    then have eq: "find_XTerm lg xterm i = find_XTerm lg xterm (i - 1)"
      using idx Suc.hyps(2) by (subst find_XTerm.simps) auto
    have m: "m = nat (i - 1)" using Suc.hyps(2) by simp
    obtain r where r: "find_XTerm lg xterm (i - 1) = Inr r"
      and P: "case r of None \<Rightarrow> \<forall>j. 1 \<le> j \<and> j \<le> i - 1 \<longrightarrow> Term (lg ! nat (j - 1)) \<noteq> xterm
       | Some j \<Rightarrow> 1 \<le> j \<and> j \<le> i - 1 \<and> Term (lg ! nat (j - 1)) = xterm \<and>
                   (\<forall>k. j < k \<and> k \<le> i - 1 \<longrightarrow> Term (lg ! nat (k - 1)) \<noteq> xterm)"
      using Suc.hyps(1) [OF m] Suc.prems by auto
    have "k \<le> i \<longleftrightarrow> k \<le> i - 1 \<or> k = i" for k by auto
    then show ?thesis using P False eq r by (auto split: option.splits)
  qed
qed

end
