(* ===== verification/Raft_Peer.thy ===== *)
theory Raft_Peer
  imports Raft_Log
begin

section \<open>What the critical sections of one peer keep true\<close>

text \<open>
  The type invariant of a peer (\<open>peer_wf\<close>), the durability of its persistent fields
  (\<open>saved\<close>), and for each critical section: that it does not panic, what it changes, and that
  it keeps both. The store contract of theory \<open>Persister\<close> is interpreted here on the code's
  own encoding.
\<close>

subsection \<open>Stable storage\<close>

lemma decode_encode_state: "decode_state (encode_state v) = Inr v"
  by (cases v) (simp add: decode_state_def encode_state_def Encode_def)

lemma encode_state_nonempty: "encode_state v \<noteq> []"
  by (cases v) (simp add: encode_state_def Encode_def)

interpretation raft_store: stable_store SaveRaftState ReadRaftState encode_state decode_state
  by unfold_locales (simp_all add: encode_state_nonempty decode_encode_state)

definition initial_pstate :: "'c pstate" where
  "initial_pstate = ([\<lparr>Term = 0, Command = None, Index = 0\<rparr>], 0, -1)"

text \<open>A restart from the persister would find exactly the persistent fields as they are now.\<close>

definition saved :: "'c Raft \<Rightarrow> bool" where
  "saved rf \<longleftrightarrow> raft_store.restore (persister rf) initial_pstate = Inr (pstate_of rf)"

lemma restore_kept: "raft_store.restore (kept ps) d = raft_store.restore ps d"
  by (simp add: raft_store.restore_def kept_def Copy_id)

lemma saved_persist [simp]: "saved (persist rf)"
  by (simp add: saved_def persist_def pstate_of_def raft_store.restore_save)

lemma saved_frame:
  "saved rf \<Longrightarrow> persister rf' = persister rf \<Longrightarrow> pstate_of rf' = pstate_of rf \<Longrightarrow> saved rf'"
  by (simp add: saved_def)

lemma pstate_of_persist [simp]: "pstate_of (persist rf) = pstate_of rf"
  by (simp add: persist_def pstate_of_def)

lemma persist_simps [simp]:
  "npeers (persist rf) = npeers rf" "me (persist rf) = me rf" "dead (persist rf) = dead rf"
  "currentTerm (persist rf) = currentTerm rf" "votedFor (persist rf) = votedFor rf"
  "log (persist rf) = log rf" "commitIndex (persist rf) = commitIndex rf"
  "lastApplied (persist rf) = lastApplied rf" "nextIndex (persist rf) = nextIndex rf"
  "matchIndex (persist rf) = matchIndex rf" "state (persist rf) = state rf"
  "voteCount (persist rf) = voteCount rf" "timestamp (persist rf) = timestamp rf"
  "appliers (persist rf) = appliers rf"
  by (simp_all add: persist_def)

subsection \<open>The type invariant\<close>

definition peer_wf :: "'c Raft \<Rightarrow> bool" where
  "peer_wf rf \<longleftrightarrow>
     log_wf (log rf) \<and> (\<forall>e \<in> set (log rf). Term e \<le> currentTerm rf) \<and> 0 \<le> currentTerm rf \<and>
     length (nextIndex rf) = npeers rf \<and> length (matchIndex rf) = npeers rf \<and>
     0 \<le> me rf \<and> me rf < int (npeers rf) \<and>
     -1 \<le> votedFor rf \<and> votedFor rf < int (npeers rf) \<and>
     state rf \<in> {Follower, Candidate, Leader} \<and> 0 \<le> commitIndex rf \<and> 0 \<le> lastApplied rf"

definition rv_wf :: "nat \<Rightarrow> RequestVoteArgs \<Rightarrow> bool" where
  "rv_wf n args \<longleftrightarrow> 0 \<le> rv_CandidateId args \<and> rv_CandidateId args < int n \<and> 0 \<le> rv_Term args"

definition ae_wf :: "'c AppendEntriesArgs \<Rightarrow> bool" where
  "ae_wf args \<longleftrightarrow>
     0 \<le> ae_PrevLogIndex args \<and> (ae_PrevLogIndex args = 0 \<longrightarrow> ae_PrevLogTerm args = 0) \<and>
     entries_at (nat (ae_PrevLogIndex args + 1)) (ae_Entries args) \<and>
     (\<forall>e \<in> set (ae_Entries args). Term e \<le> ae_Term args) \<and>
     0 \<le> ae_LeaderCommit args \<and> 0 \<le> ae_Term args"

lemma peer_wf_persist [simp]: "peer_wf (persist rf) \<longleftrightarrow> peer_wf rf"
  by (simp add: peer_wf_def)

lemma convertTo_simps [simp]:
  "convertTo Follower rf = rf\<lparr>state := Follower, votedFor := -1\<rparr>"
  "convertTo Leader rf = rf\<lparr>state := Leader\<rparr>"
  "convertTo Candidate rf = rf\<lparr>state := Candidate\<rparr>"
  by (simp_all add: convertTo_def)

lemma peer_wf_newer_term:
  "peer_wf rf \<Longrightarrow> currentTerm rf \<le> t \<Longrightarrow>
     peer_wf (rf\<lparr>currentTerm := t, state := Follower, votedFor := -1\<rparr>)"
  by (auto simp: peer_wf_def)

lemma peer_wf_log: "peer_wf rf \<Longrightarrow> log_wf (log rf)"
  by (simp add: peer_wf_def)

subsection \<open>RequestVote\<close>

lemma moreUpToDate_ok:
  "log rf \<noteq> [] \<Longrightarrow> moreUpToDate args rf =
     Inr (rv_LastLogTerm args > Term (last (log rf)) \<or>
          rv_LastLogTerm args = Term (last (log rf)) \<and> rv_LastLogIndex args \<ge> Index (last (log rf)))"
  by (simp add: moreUpToDate_def go_index_last)

text \<open>The decision of the handler, in one place.\<close>

definition grants :: "'c Raft \<Rightarrow> RequestVoteArgs \<Rightarrow> bool" where
  "grants rf args \<longleftrightarrow>
     (rv_Term args > currentTerm rf \<or> votedFor rf = -1 \<or> votedFor rf = rv_CandidateId args) \<and>
     (rv_LastLogTerm args > Term (last (log rf)) \<or>
      rv_LastLogTerm args = Term (last (log rf)) \<and> rv_LastLogIndex args \<ge> Index (last (log rf)))"

definition vote_result :: "int \<Rightarrow> 'c Raft \<Rightarrow> RequestVoteArgs \<Rightarrow> 'c Raft" where
  "vote_result now rf args =
     (let rf1 = (if rv_Term args > currentTerm rf
                 then rf\<lparr>currentTerm := rv_Term args, state := Follower, votedFor := -1\<rparr> else rf)
      in if grants rf args then rf1\<lparr>votedFor := rv_CandidateId args, timestamp := now\<rparr> else rf1)"

lemma RequestVote_eq:
  assumes "log rf \<noteq> []"
  shows "RequestVote now rf args =
    Inr (persist (vote_result now rf args),
         \<lparr>rvr_Term = max (rv_Term args) (currentTerm rf), rvr_VoteGranted = grants rf args\<rparr>)"
  using assms
  by (auto simp: RequestVote_def vote_result_def grants_def moreUpToDate_ok Let_def max_def)

lemma vote_result_wf:
  "peer_wf rf \<Longrightarrow> rv_wf (npeers rf) args \<Longrightarrow> peer_wf (vote_result now rf args)"
  by (auto simp: vote_result_def Let_def peer_wf_def rv_wf_def)

lemma RequestVote_wf:
  assumes "peer_wf rf" and "rv_wf (npeers rf) args" and "RequestVote now rf args = Inr (rf', rep)"
  shows "peer_wf rf' \<and> saved rf'"
proof -
  have "rf' = persist (vote_result now rf args)"
    using assms(1,3) RequestVote_eq [of rf now args] by (simp add: peer_wf_def)
  then show ?thesis using vote_result_wf [OF assms(1,2)] by simp
qed

subsection \<open>AppendEntries\<close>

definition commit_after :: "int \<Rightarrow> int \<Rightarrow> int \<Rightarrow> int" where
  "commit_after ci lc n = (if lc > ci then (if lc < n - 1 then lc else n - 1) else ci)"

text \<open>The state after the accepting branch.\<close>

definition accept_result :: "'c Raft \<Rightarrow> 'c AppendEntriesArgs \<Rightarrow> 'c Raft" where
  "accept_result rf args =
     (let lg = merge_from (log rf) (nat (ae_PrevLogIndex args + 1)) (ae_Entries args);
          rf1 = (if ae_Entries args = [] then rf
                 else rf\<lparr>log := lg,
                         nextIndex := (nextIndex rf)[nat (me rf) := go_len lg],
                         matchIndex := (matchIndex rf)[nat (me rf) := go_len lg - 1]\<rparr>)
      in rf1\<lparr>commitIndex := commit_after (commitIndex rf) (ae_LeaderCommit args) (go_len lg)\<rparr>)"

lemma AppendEntries_accept_eq:
  assumes "peer_wf rf" and "ae_wf args" and "ae_PrevLogIndex args < go_len (log rf)"
  shows "AppendEntries_accept rf args = Inr (accept_result rf args)"
proof -
  have n: "nat (ae_PrevLogIndex args + 1) \<le> length (log rf)"
    using assms(2,3) by (simp add: go_len_def ae_wf_def)
  have loop: "append_loop (log rf) (ae_Entries args) =
      Inr (merge_from (log rf) (nat (ae_PrevLogIndex args + 1)) (ae_Entries args))"
    by (rule append_loop_merge) (use assms(2) n in \<open>simp_all add: ae_wf_def\<close>)
  have me: "0 \<le> me rf" "me rf < go_len (nextIndex rf)" "me rf < go_len (matchIndex rf)"
    using assms(1) by (simp_all add: peer_wf_def go_len_def)
  show ?thesis
    using loop me
    by (cases "ae_Entries args")
      (simp_all add: AppendEntries_accept_def accept_result_def Let_def go_update_ok commit_after_def)
qed

definition prev_matches :: "'c Raft \<Rightarrow> 'c AppendEntriesArgs \<Rightarrow> bool" where
  "prev_matches rf args \<longleftrightarrow> ae_PrevLogIndex args < go_len (log rf) \<and>
     Term (log rf ! nat (ae_PrevLogIndex args)) = ae_PrevLogTerm args"

lemma AppendEntries_check_accept:
  assumes "peer_wf rf" and "ae_wf args" and "prev_matches rf args"
  shows "AppendEntries_check rf args = Inr (accept_result rf args, True, 0, 0)"
  using assms AppendEntries_accept_eq [OF assms(1,2)]
  by (simp add: AppendEntries_check_def prev_matches_def go_index_ok ae_wf_def)

lemma AppendEntries_check_short:
  assumes "go_len (log rf) \<le> ae_PrevLogIndex args"
  shows "AppendEntries_check rf args = Inr (rf, False, -1, go_len (log rf))"
  using assms by (simp add: AppendEntries_check_def)

lemma AppendEntries_check_conflict:
  assumes "peer_wf rf" and "ae_wf args" and "ae_PrevLogIndex args < go_len (log rf)"
    and "Term (log rf ! nat (ae_PrevLogIndex args)) \<noteq> ae_PrevLogTerm args"
  shows "\<exists>x. AppendEntries_check rf args =
      Inr (rf, False, Term (log rf ! nat (ae_PrevLogIndex args)), x) \<and>
    1 \<le> x \<and> x \<le> ae_PrevLogIndex args \<and> 1 \<le> Term (log rf ! nat (ae_PrevLogIndex args)) \<and>
    Term (log rf ! nat (x - 1)) \<noteq> Term (log rf ! nat (ae_PrevLogIndex args)) \<and>
    (\<forall>j. x \<le> j \<and> j \<le> ae_PrevLogIndex args \<longrightarrow>
         Term (log rf ! nat j) = Term (log rf ! nat (ae_PrevLogIndex args)))"
proof -
  let ?p = "ae_PrevLogIndex args" and ?lg = "log rf"
  have wf: "log_wf ?lg" using assms(1) by (rule peer_wf_log)
  have p: "0 \<le> ?p" "?p \<noteq> 0"
    using assms(2,4) wf by (auto simp: ae_wf_def log_wf_def)
  have t: "1 \<le> Term (?lg ! nat ?p)"
    using wf p assms(3) by (auto simp: log_wf_def go_len_def)
  obtain x where x: "scan_XIndex ?lg (Term (?lg ! nat ?p)) ?p = Inr x" "1 \<le> x" "x \<le> ?p"
      "Term (?lg ! nat (x - 1)) \<noteq> Term (?lg ! nat ?p)"
      "\<forall>j. x \<le> j \<and> j < ?p \<longrightarrow> Term (?lg ! nat j) = Term (?lg ! nat ?p)"
    using scan_XIndex_spec [OF wf t, of ?p] p assms(3) by auto
  have "AppendEntries_check rf args = Inr (rf, False, Term (?lg ! nat ?p), x)"
    using x(1) p assms(3,4) by (simp add: AppendEntries_check_def go_index_ok)
  moreover have "j \<le> ?p \<longleftrightarrow> j < ?p \<or> j = ?p" for j by auto
  ultimately show ?thesis using x t by auto
qed

definition step_down :: "int \<Rightarrow> 'c Raft \<Rightarrow> 'c Raft" where
  "step_down t rf =
     (if t > currentTerm rf then rf\<lparr>currentTerm := t, state := Follower, votedFor := -1\<rparr> else rf)"

lemma step_down_simps [simp]:
  "npeers (step_down t rf) = npeers rf" "me (step_down t rf) = me rf"
  "log (step_down t rf) = log rf" "commitIndex (step_down t rf) = commitIndex rf"
  "lastApplied (step_down t rf) = lastApplied rf" "nextIndex (step_down t rf) = nextIndex rf"
  "matchIndex (step_down t rf) = matchIndex rf" "appliers (step_down t rf) = appliers rf"
  "currentTerm (step_down t rf) = max t (currentTerm rf)"
  by (simp_all add: step_down_def)

lemma accept_result_simps [simp]:
  "npeers (accept_result rf args) = npeers rf" "me (accept_result rf args) = me rf"
  "currentTerm (accept_result rf args) = currentTerm rf"
  "votedFor (accept_result rf args) = votedFor rf" "state (accept_result rf args) = state rf"
  "lastApplied (accept_result rf args) = lastApplied rf"
  "length (nextIndex (accept_result rf args)) = length (nextIndex rf)"
  "length (matchIndex (accept_result rf args)) = length (matchIndex rf)"
  "log (accept_result rf args) =
     merge_from (log rf) (nat (ae_PrevLogIndex args + 1)) (ae_Entries args)"
  "commitIndex (accept_result rf args) =
     commit_after (commitIndex rf) (ae_LeaderCommit args)
       (go_len (merge_from (log rf) (nat (ae_PrevLogIndex args + 1)) (ae_Entries args)))"
  by (simp_all add: accept_result_def Let_def)

lemma set_merge_from: "set (merge_from lg n es) \<subseteq> set lg \<union> set es"
  by (induction es arbitrary: n) (auto dest: in_set_takeD)

lemma commit_after_nonneg: "0 \<le> ci \<Longrightarrow> 1 \<le> n \<Longrightarrow> 0 \<le> lc \<Longrightarrow> 0 \<le> commit_after ci lc n"
  by (simp add: commit_after_def)

lemma accept_result_wf:
  assumes "peer_wf rf" and "ae_wf args" and "ae_PrevLogIndex args < go_len (log rf)"
    and "currentTerm rf \<le> ae_Term args"
  shows "peer_wf (step_down (ae_Term args) (accept_result rf args))"
proof -
  let ?lg = "merge_from (log rf) (nat (ae_PrevLogIndex args + 1)) (ae_Entries args)"
  have "log_wf ?lg"
    by (rule log_wf_merge_from)
      (use assms in \<open>auto simp: peer_wf_def ae_wf_def go_len_def\<close>)
  moreover have "\<forall>e \<in> set ?lg. Term e \<le> ae_Term args"
    using assms set_merge_from [of "log rf" _ "ae_Entries args"]
    by (fastforce simp: peer_wf_def ae_wf_def)
  ultimately show ?thesis
    using assms log_wf_len [of ?lg]
    by (auto simp: peer_wf_def ae_wf_def step_down_def commit_after_nonneg)
qed

lemma step_down_wf: "peer_wf rf \<Longrightarrow> peer_wf (step_down t rf)"
  by (auto simp: step_down_def intro: peer_wf_newer_term)

lemma appliers_eta: "rf = rf\<lparr>appliers := appliers rf\<rparr>" for rf :: "'c Raft"
  by simp

lemma sendApplyMsg_frame:
  assumes "sendApplyMsg rf = Inr rf'"
  obtains ap where "rf' = rf\<lparr>appliers := ap\<rparr>"
proof (cases "commitIndex rf > lastApplied rf")
  case True
  then show ?thesis using assms that by (auto simp: sendApplyMsg_def)
next
  case False
  then show ?thesis using assms that [of "appliers rf"] by (simp add: sendApplyMsg_def)
qed

lemma AppendEntries_stale:
  "ae_Term args < currentTerm rf \<Longrightarrow> AppendEntries now rf args =
     Inr (persist rf, \<lparr>aer_Term = currentTerm rf, aer_Success = False, aer_XTerm = 0, aer_XIndex = 0\<rparr>)"
  by (simp add: AppendEntries_def)

lemma sendApplyMsg_guard:
  "(if commitIndex rf > lastApplied rf then sendApplyMsg rf else Inr rf) = sendApplyMsg rf"
  by (simp add: sendApplyMsg_def)

lemma AppendEntries_unfold:
  assumes "currentTerm rf \<le> ae_Term args"
    and "AppendEntries_check rf args = Inr (rf1, succ, xt, xi)"
  shows "AppendEntries now rf args =
    bind_res (sendApplyMsg (step_down (ae_Term args) rf1)) (\<lambda>rf3.
      Inr (persist (rf3\<lparr>timestamp := now\<rparr>),
           \<lparr>aer_Term = currentTerm rf3, aer_Success = succ, aer_XTerm = xt, aer_XIndex = xi\<rparr>))"
  using assms unfolding AppendEntries_def
  by (simp add: sendApplyMsg_guard Let_def step_down_def)

lemma AppendEntries_check_cases:
  assumes "peer_wf rf" and "ae_wf args"
  shows "\<exists>xt xi. AppendEntries_check rf args =
    Inr (if prev_matches rf args then accept_result rf args else rf, prev_matches rf args, xt, xi)"
proof (cases "prev_matches rf args")
  case True
  then show ?thesis using AppendEntries_check_accept [OF assms] by simp
next
  case False
  then show ?thesis
    using AppendEntries_check_short [of rf args] AppendEntries_check_conflict [OF assms]
    by (cases "go_len (log rf) \<le> ae_PrevLogIndex args") (auto simp: prev_matches_def)
qed

text \<open>What the handler returns when it returns, up to the new apply goroutines.\<close>

lemma AppendEntries_result:
  assumes "peer_wf rf" and "ae_wf args" and "currentTerm rf \<le> ae_Term args"
    and "AppendEntries now rf args = Inr (rf', rep)"
  obtains ap where
    "rf' = persist ((step_down (ae_Term args)
            (if prev_matches rf args then accept_result rf args else rf))
              \<lparr>appliers := ap, timestamp := now\<rparr>)"
    and "aer_Success rep = prev_matches rf args" and "aer_Term rep = ae_Term args"
proof -
  let ?rf1 = "if prev_matches rf args then accept_result rf args else rf"
  obtain xt xi where chk: "AppendEntries_check rf args = Inr (?rf1, prev_matches rf args, xt, xi)"
    using AppendEntries_check_cases [OF assms(1,2)] by blast
  obtain rf3 where rf3: "sendApplyMsg (step_down (ae_Term args) ?rf1) = Inr rf3"
    and res: "rf' = persist (rf3\<lparr>timestamp := now\<rparr>)"
      "rep = \<lparr>aer_Term = currentTerm rf3, aer_Success = prev_matches rf args, aer_XTerm = xt, aer_XIndex = xi\<rparr>"
    using assms(4) unfolding AppendEntries_unfold [OF assms(3) chk]
    by (auto simp only: bind_res_eq_Inr sum.inject prod.inject)
  obtain ap where ap: "rf3 = (step_down (ae_Term args) ?rf1)\<lparr>appliers := ap\<rparr>"
    using rf3 by (rule sendApplyMsg_frame)
  show thesis
  proof (rule that)
    show "rf' = persist ((step_down (ae_Term args) ?rf1)\<lparr>appliers := ap, timestamp := now\<rparr>)"
      unfolding res(1) ap ..
    show "aer_Success rep = prev_matches rf args" by (simp add: res(2))
    show "aer_Term rep = ae_Term args" using assms(3) by (simp add: res(2) ap)
  qed
qed

lemma AppendEntries_wf:
  assumes "peer_wf rf" and "ae_wf args" and "AppendEntries now rf args = Inr (rf', rep)"
  shows "peer_wf rf' \<and> saved rf'"
proof (cases "ae_Term args < currentTerm rf")
  case True
  then show ?thesis using assms(1,3) by (simp add: AppendEntries_stale) (metis peer_wf_persist saved_persist)
next
  case False
  have frame: "peer_wf (r\<lparr>appliers := ap, timestamp := now\<rparr>) = peer_wf r" for r :: "'a Raft" and ap
    by (simp add: peer_wf_def)
  have "peer_wf (step_down (ae_Term args) (if prev_matches rf args then accept_result rf args else rf))"
    using False accept_result_wf [OF assms(1,2)] step_down_wf [OF assms(1)]
    by (auto simp: prev_matches_def)
  moreover obtain ap where "rf' = persist ((step_down (ae_Term args)
      (if prev_matches rf args then accept_result rf args else rf))\<lparr>appliers := ap, timestamp := now\<rparr>)"
    using AppendEntries_result [OF assms(1,2) _ assms(3)] False by (metis not_le_imp_less)
  ultimately show ?thesis using frame by simp
qed

text \<open>
  The handler does not panic when the committed part of the log is there and the leader does not
  contradict it; then the commit index never decreases and what was committed stays.
\<close>

definition respects_commit :: "'c Raft \<Rightarrow> 'c AppendEntriesArgs \<Rightarrow> bool" where
  "respects_commit rf args \<longleftrightarrow>
     commitIndex rf < go_len (log rf) \<and>
     (\<forall>k < length (ae_Entries args).
        ae_PrevLogIndex args + 1 + int k \<le> commitIndex rf \<longrightarrow>
        Term (log rf ! nat (ae_PrevLogIndex args + 1 + int k)) = Term (ae_Entries args ! k))"

lemma merge_from_keeps:
  assumes "n \<le> length lg" and "m \<le> length lg"
    and "\<forall>k < length es. n + k < m \<longrightarrow> Term (lg ! (n + k)) = Term (es ! k)"
  shows "take m (merge_from lg n es) = take m lg \<and> m \<le> length (merge_from lg n es)"
  using assms
proof (induction es arbitrary: n)
  case Nil
  then show ?case by simp
next
  case (Cons e es)
  have hd: "n < m \<Longrightarrow> Term (lg ! n) = Term e" using Cons.prems(3) by force
  have tl: "\<forall>k < length es. Suc n + k < m \<longrightarrow> Term (lg ! (Suc n + k)) = Term (es ! k)"
    using Cons.prems(3) by force
  show ?case
  proof (cases "n < length lg \<and> Term (lg ! n) = Term e")
    case True
    then show ?thesis using Cons.IH [of "Suc n"] Cons.prems(2) tl by simp
  next
    case False
    then have "m \<le> n" using hd Cons.prems(2) by (cases "n < m") auto
    then show ?thesis using False Cons.prems(1) by (auto simp: min_def)
  qed
qed

lemma accept_result_commit:
  assumes "peer_wf rf" and "ae_wf args" and "prev_matches rf args" and "respects_commit rf args"
  shows "commitIndex rf \<le> commitIndex (accept_result rf args) \<and>
    commitIndex (accept_result rf args) < go_len (log (accept_result rf args)) \<and>
    take (nat (commitIndex rf + 1)) (log (accept_result rf args)) =
      take (nat (commitIndex rf + 1)) (log rf)"
proof -
  let ?n = "nat (ae_PrevLogIndex args + 1)" and ?m = "nat (commitIndex rf + 1)"
  have ci: "0 \<le> commitIndex rf" and p: "0 \<le> ae_PrevLogIndex args"
    using assms(1,2) by (simp_all add: peer_wf_def ae_wf_def)
  have keep: "take ?m (merge_from (log rf) ?n (ae_Entries args)) = take ?m (log rf) \<and>
      ?m \<le> length (merge_from (log rf) ?n (ae_Entries args))"
  proof (rule merge_from_keeps)
    show "?n \<le> length (log rf)" using assms(3) p by (auto simp: prev_matches_def go_len_def)
    show "?m \<le> length (log rf)" using assms(4) ci by (auto simp: respects_commit_def go_len_def)
    show "\<forall>k < length (ae_Entries args). ?n + k < ?m \<longrightarrow>
        Term (log rf ! (?n + k)) = Term (ae_Entries args ! k)"
    proof (intro allI impI)
      fix k assume k: "k < length (ae_Entries args)" "?n + k < ?m"
      then have "ae_PrevLogIndex args + 1 + int k \<le> commitIndex rf" using p ci by linarith
      moreover have "nat (ae_PrevLogIndex args + 1 + int k) = ?n + k" using p by linarith
      ultimately show "Term (log rf ! (?n + k)) = Term (ae_Entries args ! k)"
        using assms(4) k(1) by (metis respects_commit_def)
    qed
  qed
  moreover have "commitIndex rf + 1 \<le> go_len (merge_from (log rf) ?n (ae_Entries args))"
    using keep ci unfolding go_len_def by linarith
  ultimately show ?thesis by (auto simp: commit_after_def)
qed

lemma sendApplyMsg_ok:
  assumes "0 \<le> lastApplied rf" and "commitIndex rf < go_len (log rf)"
  shows "\<exists>ap. sendApplyMsg rf = Inr (rf\<lparr>appliers := ap\<rparr>)"
proof (cases "commitIndex rf > lastApplied rf")
  case True
  then show ?thesis using assms by (auto simp: sendApplyMsg_def go_slice_def)
next
  case False
  then show ?thesis using appliers_eta [of rf] by (metis sendApplyMsg_def)
qed

lemma AppendEntries_ok:
  assumes "peer_wf rf" and "ae_wf args" and "respects_commit rf args"
  shows "\<exists>rf' rep. AppendEntries now rf args = Inr (rf', rep) \<and>
    commitIndex rf \<le> commitIndex rf' \<and> commitIndex rf' < go_len (log rf') \<and>
    take (nat (commitIndex rf + 1)) (log rf') = take (nat (commitIndex rf + 1)) (log rf)"
proof (cases "ae_Term args < currentTerm rf")
  case True
  then show ?thesis using assms(3) by (simp add: AppendEntries_stale respects_commit_def)
next
  case False
  let ?rf1 = "if prev_matches rf args then accept_result rf args else rf"
  have rf1: "commitIndex rf \<le> commitIndex ?rf1 \<and> commitIndex ?rf1 < go_len (log ?rf1) \<and>
      take (nat (commitIndex rf + 1)) (log ?rf1) = take (nat (commitIndex rf + 1)) (log rf)"
    using accept_result_commit [OF assms(1,2) _ assms(3)] assms(3)
    by (simp add: respects_commit_def)
  have la: "0 \<le> lastApplied ?rf1" using assms(1) by (simp add: peer_wf_def)
  obtain xt xi where chk: "AppendEntries_check rf args = Inr (?rf1, prev_matches rf args, xt, xi)"
    using AppendEntries_check_cases [OF assms(1,2)] by blast
  obtain ap where ap: "sendApplyMsg (step_down (ae_Term args) ?rf1) =
      Inr ((step_down (ae_Term args) ?rf1)\<lparr>appliers := ap\<rparr>)"
    using sendApplyMsg_ok [of "step_down (ae_Term args) ?rf1"] rf1 la by auto
  show ?thesis
    using rf1 False unfolding AppendEntries_unfold [OF leI [OF False] chk] ap by simp
qed

subsection \<open>Start\<close>

lemma Start_append_ok:
  assumes "peer_wf rf"
  shows "Start_append t c rf =
    Inr ((persist (rf\<lparr>log := log rf @ [\<lparr>Term = t, Command = c, Index = go_len (log rf)\<rparr>]\<rparr>))
           \<lparr>nextIndex := (nextIndex rf)[nat (me rf) := go_len (log rf) + 1],
            matchIndex := (matchIndex rf)[nat (me rf) := go_len (log rf)]\<rparr>, go_len (log rf))"
  using assms by (simp add: Start_append_def Let_def go_update_ok peer_wf_def go_len_def add.commute)

lemma Start_append_wf:
  assumes "peer_wf rf" and "1 \<le> t" and "t \<le> currentTerm rf" and "Start_append t c rf = Inr (rf', i)"
  shows "peer_wf rf' \<and> saved rf'"
proof -
  have "log_wf (log rf @ [\<lparr>Term = t, Command = c, Index = go_len (log rf)\<rparr>])"
    by (rule log_wf_append) (use assms in \<open>simp_all add: peer_wf_def go_len_def\<close>)
  then show ?thesis
    using assms unfolding Start_append_ok [OF assms(1)]
    by (auto simp: peer_wf_def intro: saved_frame [OF saved_persist] simp: pstate_of_def)
qed

subsection \<open>Heartbeats\<close>

lemma sendHearbeat_args_wf:
  assumes "peer_wf rf" and "sendHearbeat_args rf j = Inr (Some args)"
  shows "ae_wf args \<and> ae_Term args = currentTerm rf \<and> state rf = Leader"
proof -
  obtain ni where ni: "state rf = Leader" "1 \<le> ni" "ni - 1 < go_len (log rf)"
      "args = \<lparr>ae_Term = currentTerm rf, ae_LeaderId = me rf, ae_PrevLogIndex = ni - 1,
         ae_PrevLogTerm = Term (log rf ! nat (ni - 1)), ae_LeaderCommit = commitIndex rf,
         ae_Entries = drop (nat ni) (log rf)\<rparr>"
    using assms(2)
    by (auto simp: sendHearbeat_args_def Let_def bind_res_eq_Inr go_index_Inr go_slice_from_Inr
        split: if_splits)
  have "entries_at (nat ni) (drop (nat ni) (log rf))"
    by (rule entries_at_drop) (use assms(1) ni in \<open>simp_all add: peer_wf_def\<close>)
  then show ?thesis
    using assms(1) ni by (auto simp: ae_wf_def peer_wf_def log_wf_def dest: in_set_dropD)
qed

lemma sendHearbeat_reply_wf:
  assumes "peer_wf rf" and "saved rf" and "sendHearbeat_reply rf j args rep = Inr rf'"
  shows "peer_wf rf' \<and> saved rf'"
proof -
  have upd: "peer_wf (rf\<lparr>nextIndex := ni\<rparr>) \<and> saved (rf\<lparr>nextIndex := ni\<rparr>)"
    if "length ni = npeers rf" for ni
    using assms(1) that saved_frame [OF assms(2)] by (simp add: peer_wf_def pstate_of_def)
  have upd2: "peer_wf (rf\<lparr>matchIndex := mi, nextIndex := ni\<rparr>) \<and> saved (rf\<lparr>matchIndex := mi, nextIndex := ni\<rparr>)"
    if "length ni = npeers rf" "length mi = npeers rf" for ni mi
    using assms(1) that saved_frame [OF assms(2)] by (simp add: peer_wf_def pstate_of_def)
  have len: "length (nextIndex rf) = npeers rf" "length (matchIndex rf) = npeers rf"
    using assms(1) by (simp_all add: peer_wf_def)
  show ?thesis
    using assms upd upd2 len unfolding sendHearbeat_reply_def
    by (auto simp: bind_res_eq_Inr Let_def go_update_Inr split: if_splits option.splits
        intro: peer_wf_newer_term [OF _ less_imp_le])
qed

lemma sendApplyMsg_wf:
  assumes "sendApplyMsg rf = Inr rf'"
  shows "peer_wf rf' = peer_wf rf" and "saved rf' = saved rf"
proof -
  obtain ap where "rf' = rf\<lparr>appliers := ap\<rparr>" using assms by (rule sendApplyMsg_frame)
  then show "peer_wf rf' = peer_wf rf" "saved rf' = saved rf"
    by (simp_all add: peer_wf_def saved_def pstate_of_def)
qed

text \<open>
  The count of \<open>sendHearbeat\<close>: how many peers are past the commit index, and the least of
  their match indices (and of the leader's own).
\<close>

definition ahead :: "int list \<Rightarrow> int \<Rightarrow> nat \<Rightarrow> nat list" where
  "ahead mi ci n = filter (\<lambda>i. mi ! i > ci) [0..<n]"

lemma count_match_fold:
  assumes "n \<le> length mi"
  shows "fold_res (count_match mi ci) [0..<n] (c, m) =
    Inr (c + int (length (ahead mi ci n)), Min (insert m ((\<lambda>i. mi ! i) ` set (ahead mi ci n))))"
proof -
  have "fold_res (count_match mi ci) is (c, m) =
      Inr (c + int (length (filter (\<lambda>i. mi ! i > ci) is)),
           Min (insert m ((\<lambda>i. mi ! i) ` set (filter (\<lambda>i. mi ! i > ci) is))))"
    if "\<forall>i \<in> set is. i < length mi" for "is"
    using that
  proof (induction "is" arbitrary: c m)
    case (Cons i "is")
    then have "count_match mi ci i (c, m) =
        Inr (if mi ! i > ci then (c + 1, min (mi ! i) m) else (c, m))"
      by (simp add: count_match_def min_def)
    moreover have "Min (insert (min (mi ! i) m) S) = Min (insert m (insert (mi ! i) S))"
      if "finite S" for S :: "int set"
      using that by (cases "S = {}") (simp_all add: min.commute min.left_commute)
    ultimately show ?case using Cons by (auto simp: insert_commute)
  qed simp
  from this [of "[0..<n]"] show ?thesis using assms by (simp add: ahead_def)
qed

lemma sendHearbeat_commit_cases:
  assumes "peer_wf rf" and "sendHearbeat_commit rf = Inr rf'"
  obtains (same) "rf' = rf"
  | (advance) N ap where "rf' = rf\<lparr>commitIndex := N, appliers := ap\<rparr>"
      and "commitIndex rf < N" and "N < go_len (log rf)" and "Term (log rf ! nat N) = currentTerm rf"
      and "card {i. i < npeers rf \<and> N \<le> matchIndex rf ! i} > npeers rf div 2"
proof -
  let ?mi = "matchIndex rf" and ?ci = "commitIndex rf" and ?n = "npeers rf"
  let ?A = "ahead ?mi ?ci ?n" and ?mine = "?mi ! nat (me rf)"
  define N where "N = Min (insert ?mine ((\<lambda>i. ?mi ! i) ` set ?A))"
  have len: "length ?mi = ?n" and me: "0 \<le> me rf" "me rf < int ?n"
    using assms(1) by (simp_all add: peer_wf_def)
  have idx: "go_index ?mi (me rf) = Inr ?mine"
    using len me by (simp add: go_index_ok go_len_def)
  have fold: "fold_res (count_match ?mi ?ci) [0..<?n] (0, ?mine) = Inr (int (length ?A), N)"
    using count_match_fold [of ?n ?mi ?ci 0 ?mine] len by (simp add: N_def)
  show thesis
  proof (cases "rf' = rf")
    case True
    then show ?thesis by (rule same)
  next
    case False
    then have g: "?ci < ?mine" "int (length ?A) > int ?n div 2" "0 \<le> N" "N < go_len (log rf)"
        "Term (log rf ! nat N) = currentTerm rf"
        "sendApplyMsg (rf\<lparr>commitIndex := N\<rparr>) = Inr rf'"
      using assms(2) unfolding sendHearbeat_commit_def
      by (auto simp: idx fold bind_res_eq_Inr go_index_Inr split: if_splits)
    obtain ap where ap: "rf' = rf\<lparr>commitIndex := N, appliers := ap\<rparr>"
      using sendApplyMsg_frame [OF g(6)] by metis
    have lt: "?ci < N"
      using g(1) by (auto simp: N_def ahead_def)
    have sub: "set ?A \<subseteq> {i. i < ?n \<and> N \<le> ?mi ! i}"
      by (auto simp: ahead_def N_def intro: Min_le)
    have "length ?A = card (set ?A)" by (simp add: ahead_def distinct_card [symmetric])
    also have "\<dots> \<le> card {i. i < ?n \<and> N \<le> ?mi ! i}" by (rule card_mono) (use sub in auto)
    finally have "card {i. i < ?n \<and> N \<le> ?mi ! i} > ?n div 2" using g(2) by linarith
    then show ?thesis using advance ap lt g by blast
  qed
qed

lemma sendHearbeat_commit_wf:
  assumes "peer_wf rf" and "saved rf" and "sendHearbeat_commit rf = Inr rf'"
  shows "peer_wf rf' \<and> saved rf'"
  using assms(1,3)
proof (cases rule: sendHearbeat_commit_cases)
  case same
  then show ?thesis using assms by simp
next
  case (advance N ap)
  then show ?thesis using assms(1,2) by (auto simp: peer_wf_def saved_def pstate_of_def)
qed

subsection \<open>Elections\<close>

lemma startElection_begin_wf:
  "peer_wf rf \<Longrightarrow> peer_wf (startElection_begin now rf) \<and> saved (startElection_begin now rf)"
  by (auto simp: startElection_begin_def peer_wf_def)

lemma startElection_args_ok:
  assumes "peer_wf rf"
  shows "startElection_args rf =
    Inr \<lparr>rv_Term = currentTerm rf, rv_CandidateId = me rf,
         rv_LastLogIndex = go_len (log rf) - 1, rv_LastLogTerm = Term (last (log rf))\<rparr>"
  using assms by (simp add: startElection_args_def go_index_last peer_wf_def)

lemma startElection_args_wf:
  "peer_wf rf \<Longrightarrow> startElection_args rf = Inr args \<Longrightarrow> rv_wf (npeers rf) args"
  by (auto simp: startElection_args_ok rv_wf_def peer_wf_def)

lemma startElection_reply_wf:
  "peer_wf rf \<Longrightarrow> saved rf \<Longrightarrow>
     peer_wf (startElection_reply rf rep) \<and> saved (startElection_reply rf rep)"
  by (auto simp: startElection_reply_def intro: peer_wf_newer_term [OF _ less_imp_le])
     (auto simp: peer_wf_def saved_def pstate_of_def)

lemma runFollower_convert_wf:
  "peer_wf rf \<Longrightarrow> saved rf \<Longrightarrow>
     peer_wf (runFollower_convert rf) \<and> saved (runFollower_convert rf)"
  by (auto simp: runFollower_convert_def peer_wf_def saved_def pstate_of_def)

lemma runCandidate_check_wf:
  "peer_wf rf \<Longrightarrow> saved rf \<Longrightarrow>
     peer_wf (runCandidate_check rf) \<and> saved (runCandidate_check rf)"
  by (auto simp: runCandidate_check_def peer_wf_def saved_def pstate_of_def)

lemma applier_update_wf:
  "peer_wf rf \<Longrightarrow> saved rf \<Longrightarrow> applier_update a rf = Some (a', rf') \<Longrightarrow> peer_wf rf' \<and> saved rf'"
  by (cases a) (auto simp: peer_wf_def saved_def pstate_of_def split: if_splits)

subsection \<open>Restart\<close>

lemma Make_restores:
  assumes "raft_store.restore ps initial_pstate = Inr (lg, t, v)"
  shows "\<exists>rf. Make now rnd n i ps = Inr rf \<and> pstate_of rf = (lg, t, v) \<and> persister rf = ps \<and>
    npeers rf = n \<and> me rf = i \<and> state rf = Follower \<and> commitIndex rf = 0 \<and> lastApplied rf = 0 \<and>
    nextIndex rf = replicate n 1 \<and> matchIndex rf = replicate n 0 \<and> appliers rf = [] \<and> dead rf = 0"
  using assms
  by (auto simp: Make_def readPersist_def raft_store.restore_def initial_pstate_def pstate_of_def
      go_len_def bind_res_eq_Inr split: option.splits if_splits list.splits)

lemma Make_saved:
  assumes "saved rf" and "peer_wf rf"
  shows "\<exists>rf'. Make now rnd (npeers rf) (me rf) (persister rf) = Inr rf' \<and>
    pstate_of rf' = pstate_of rf \<and> peer_wf rf' \<and> saved rf'"
proof -
  have "raft_store.restore (persister rf) initial_pstate = Inr (log rf, currentTerm rf, votedFor rf)"
    using assms(1) by (simp add: saved_def pstate_of_def)
  from Make_restores [OF this, of now rnd "npeers rf" "me rf"]
  obtain rf' where "Make now rnd (npeers rf) (me rf) (persister rf) = Inr rf'"
    and "pstate_of rf' = pstate_of rf" "persister rf' = persister rf" "npeers rf' = npeers rf"
      "me rf' = me rf" "state rf' = Follower" "commitIndex rf' = 0" "lastApplied rf' = 0"
      "nextIndex rf' = replicate (npeers rf) 1" "matchIndex rf' = replicate (npeers rf) 0"
    by (auto simp: pstate_of_def)
  then show ?thesis using assms by (auto simp: peer_wf_def saved_def pstate_of_def)
qed

lemma Make_fresh:
  assumes "i < n"
  shows "\<exists>rf. Make now rnd n (int i) MakePersister = Inr rf \<and> peer_wf rf \<and> saved rf \<and>
    npeers rf = n \<and> me rf = int i \<and> pstate_of rf = initial_pstate"
proof -
  have "raft_store.restore (MakePersister :: 'a gob_item Persister) initial_pstate = Inr initial_pstate"
    by (simp add: raft_store.restore_empty)
  then show ?thesis
    using assms Make_restores [of MakePersister _ 0 "-1" now rnd n "int i"] log_wf_initial [of None]
    by (fastforce simp: initial_pstate_def peer_wf_def saved_def pstate_of_def)
qed

end
