(* ===== verification/Raft_Replication.thy ===== *)
theory Raft_Replication
  imports Raft_Peer
begin

section \<open>Replication between a leader and a follower\<close>

text \<open>
  One delivered heartbeat is the composition of the leader's first critical section, the
  follower's handler and the leader's second critical section. The lemmas show what one exchange
  does to the two peers and that repeated exchanges bring the follower's log in line.
\<close>

definition exchange :: "int \<Rightarrow> int \<Rightarrow> 'c Raft \<times> 'c Raft \<Rightarrow> ('c Raft \<times> 'c Raft) res" where
  "exchange now j p =
     (case p of (ld, fo) \<Rightarrow>
        bind_res (sendHearbeat_args ld j) (\<lambda>ao.
          case ao of
            None \<Rightarrow> Inr (ld, fo)
          | Some args \<Rightarrow>
              bind_res (AppendEntries now fo args) (\<lambda>(fo', rep).
                bind_res (sendHearbeat_reply ld j args rep) (\<lambda>ld'. Inr (ld', fo')))))"

fun exchanges :: "nat \<Rightarrow> int \<Rightarrow> int \<Rightarrow> 'c Raft \<times> 'c Raft \<Rightarrow> ('c Raft \<times> 'c Raft) res" where
  "exchanges 0 now j p = Inr p"
| "exchanges (Suc k) now j p = bind_res (exchange now j p) (exchanges k now j)"

text \<open>The two peers as the exchange needs them.\<close>

definition repl_inv :: "nat \<Rightarrow> 'c Raft \<Rightarrow> 'c Raft \<Rightarrow> bool" where
  "repl_inv j ld fo \<longleftrightarrow>
     peer_wf ld \<and> peer_wf fo \<and> state ld = Leader \<and> currentTerm fo \<le> currentTerm ld \<and>
     logs_match (log fo) (log ld) \<and> j < npeers ld \<and>
     1 \<le> nextIndex ld ! j \<and> nextIndex ld ! j \<le> go_len (log ld) \<and>
     commitIndex fo < go_len (log fo) \<and> commitIndex fo < go_len (log ld) \<and>
     take (nat (commitIndex fo + 1)) (log fo) = take (nat (commitIndex fo + 1)) (log ld)"

definition heartbeat :: "'c Raft \<Rightarrow> nat \<Rightarrow> 'c AppendEntriesArgs" where
  "heartbeat ld j =
     \<lparr>ae_Term = currentTerm ld, ae_LeaderId = me ld, ae_PrevLogIndex = nextIndex ld ! j - 1,
      ae_PrevLogTerm = Term (log ld ! nat (nextIndex ld ! j - 1)), ae_LeaderCommit = commitIndex ld,
      ae_Entries = drop (nat (nextIndex ld ! j)) (log ld)\<rparr>"

lemma heartbeat_simps [simp]:
  "ae_Term (heartbeat ld j) = currentTerm ld"
  "ae_PrevLogIndex (heartbeat ld j) = nextIndex ld ! j - 1"
  "ae_PrevLogTerm (heartbeat ld j) = Term (log ld ! nat (nextIndex ld ! j - 1))"
  "ae_LeaderCommit (heartbeat ld j) = commitIndex ld"
  "ae_Entries (heartbeat ld j) = drop (nat (nextIndex ld ! j)) (log ld)"
  by (simp_all add: heartbeat_def)

text \<open>
  The committed entries of a follower are also the leader's: the part of the leader completeness
  property that one exchange relies on and restores.
\<close>

definition commits_agree :: "'c Raft \<Rightarrow> 'c Raft \<Rightarrow> bool" where
  "commits_agree fo ld \<longleftrightarrow>
     commitIndex fo < go_len (log fo) \<and> commitIndex fo < go_len (log ld) \<and>
     take (nat (commitIndex fo + 1)) (log fo) = take (nat (commitIndex fo + 1)) (log ld)"

lemma take_eq_nth:
  assumes "take n xs = take n ys" and "i < n" and "i < length xs" and "i < length ys"
  shows "xs ! i = ys ! i"
  using assms by (metis nth_take)

lemma commits_agree_respects:
  assumes "commits_agree fo ld" and "1 \<le> nextIndex ld ! j"
  shows "respects_commit fo (heartbeat ld j)"
  unfolding respects_commit_def
proof (intro conjI allI impI)
  show "commitIndex fo < go_len (log fo)" using assms(1) by (simp add: commits_agree_def)
  fix k assume k: "k < length (ae_Entries (heartbeat ld j))"
    and le: "ae_PrevLogIndex (heartbeat ld j) + 1 + int k \<le> commitIndex fo"
  let ?i = "nat (nextIndex ld ! j) + k"
  have i: "?i < nat (commitIndex fo + 1)" "nat (ae_PrevLogIndex (heartbeat ld j) + 1 + int k) = ?i"
    using le assms(2) by simp_all
  then have "log fo ! ?i = log ld ! ?i"
    using assms(1) by (intro take_eq_nth [of "nat (commitIndex fo + 1)"])
      (auto simp: commits_agree_def go_len_def)
  then show "Term (log fo ! nat (ae_PrevLogIndex (heartbeat ld j) + 1 + int k)) =
      Term (ae_Entries (heartbeat ld j) ! k)"
    using i k by simp
qed

lemma repl_inv_args:
  assumes "repl_inv j ld fo"
  shows "sendHearbeat_args ld (int j) = Inr (Some (heartbeat ld j))"
    and "ae_wf (heartbeat ld j)" and "respects_commit fo (heartbeat ld j)"
proof -
  have ni: "1 \<le> nextIndex ld ! j" "nextIndex ld ! j \<le> go_len (log ld)" and j: "j < length (nextIndex ld)"
    and wf: "peer_wf ld" and ld: "state ld = Leader"
    using assms by (simp_all add: repl_inv_def peer_wf_def)
  show args: "sendHearbeat_args ld (int j) = Inr (Some (heartbeat ld j))"
    using ni j ld by (simp add: sendHearbeat_args_def heartbeat_def go_index_ok go_slice_from_ok Let_def)
  show "ae_wf (heartbeat ld j)"
    using sendHearbeat_args_wf [OF wf args] by simp
  show "respects_commit fo (heartbeat ld j)"
    using commits_agree_respects [OF _ ni(1)] assms by (simp add: repl_inv_def commits_agree_def)
qed

text \<open>An accepted heartbeat: the follower has the leader's log, the leader knows it.\<close>

lemma accepted_log:
  assumes ni: "1 \<le> nextIndex ld ! j" "nextIndex ld ! j \<le> go_len (log ld)"
    and lm: "logs_match (log fo) (log ld)" and pm: "prev_matches fo (heartbeat ld j)"
  shows "log (accept_result fo (heartbeat ld j)) =
    (if length (log ld) \<le> length (log fo) \<and> take (length (log ld)) (log fo) = log ld
     then log fo else log ld)"
proof -
  let ?n = "nat (nextIndex ld ! j)"
  have n: "Suc (nat (nextIndex ld ! j - 1)) = ?n" "?n \<le> length (log ld)"
    using ni by (auto simp: go_len_def)
  have lt: "nextIndex ld ! j - 1 < go_len (log fo)"
    and tm: "Term (log fo ! nat (nextIndex ld ! j - 1)) = Term (log ld ! nat (nextIndex ld ! j - 1))"
    using pm by (simp_all add: prev_matches_def)
  have "take ?n (log fo) = take ?n (log ld)"
    using logs_match_take [OF lm _ _ tm] lt n ni by (simp add: go_len_def)
  moreover have "?n \<le> length (log fo)" using lt ni by (simp add: go_len_def)
  ultimately show ?thesis
    using merge_from_leader [OF lm, of ?n] n by simp
qed

lemma heartbeat_of_args:
  assumes "sendHearbeat_args ld (int j) = Inr (Some args)"
  shows "args = heartbeat ld j" and "1 \<le> nextIndex ld ! j" and "nextIndex ld ! j \<le> go_len (log ld)"
  using assms
  by (auto simp: sendHearbeat_args_def heartbeat_def Let_def bind_res_eq_Inr go_index_Inr
      go_slice_from_Inr split: if_splits)

text \<open>An accepted heartbeat commits what the leader has committed, and only that.\<close>

lemma accepted_commit:
  assumes ni: "1 \<le> nextIndex ld ! j" "nextIndex ld ! j \<le> go_len (log ld)"
    and lm: "logs_match (log fo) (log ld)" and pm: "prev_matches fo (heartbeat ld j)"
    and ca: "commits_agree fo ld" and lc: "commitIndex ld < go_len (log ld)"
  shows "commitIndex (accept_result fo (heartbeat ld j)) = max (commitIndex fo) (commitIndex ld)"
    and "commits_agree (accept_result fo (heartbeat ld j)) ld"
proof -
  let ?r = "accept_result fo (heartbeat ld j)"
  have lg: "take (length (log ld)) (log ?r) = log ld" and len: "length (log ld) \<le> length (log ?r)"
    using accepted_log [OF ni lm pm] by (auto split: if_splits)
  have "commitIndex ?r = commit_after (commitIndex fo) (commitIndex ld) (go_len (log ?r))"
    by (simp add: accept_result_def Let_def)
  then show ci: "commitIndex ?r = max (commitIndex fo) (commitIndex ld)"
    using len lc by (auto simp: commit_after_def go_len_def)
  have "commitIndex ?r < go_len (log ld)" using ci lc ca by (simp add: commits_agree_def)
  moreover have "take n (log ?r) = take n (log ld)" if "n \<le> length (log ld)" for n
    using lg that by (metis min.absorb1 take_take)
  ultimately show "commits_agree ?r ld"
    using len by (auto simp: commits_agree_def go_len_def)
qed

lemma heartbeat_commits:
  assumes wf: "peer_wf ld" "peer_wf fo" and lm: "logs_match (log fo) (log ld)"
    and args: "sendHearbeat_args ld (int j) = Inr (Some args)"
    and ca: "commits_agree fo ld" and lc: "commitIndex ld < go_len (log ld)"
  shows "\<exists>fo' rep. AppendEntries now fo args = Inr (fo', rep) \<and>
    take (nat (commitIndex fo + 1)) (log fo') = take (nat (commitIndex fo + 1)) (log fo) \<and>
    commitIndex fo' =
      (if aer_Success rep then max (commitIndex fo) (commitIndex ld) else commitIndex fo) \<and>
    commits_agree fo' ld"
proof -
  note h = heartbeat_of_args [OF args]
  have awf: "ae_wf args" using sendHearbeat_args_wf [OF wf(1) args] by simp
  have rc: "respects_commit fo args" using commits_agree_respects [OF ca h(2)] by (simp add: h(1))
  obtain fo' rep where ae: "AppendEntries now fo args = Inr (fo', rep)"
    and keep: "take (nat (commitIndex fo + 1)) (log fo') = take (nat (commitIndex fo + 1)) (log fo)"
    using AppendEntries_ok [OF wf(2) awf rc] by blast
  have "commitIndex fo' =
      (if aer_Success rep then max (commitIndex fo) (commitIndex ld) else commitIndex fo) \<and>
    commits_agree fo' ld"
  proof (cases "ae_Term args < currentTerm fo")
    case True
    then show ?thesis using ae ca by (auto simp: AppendEntries_stale commits_agree_def)
  next
    case False
    obtain ap where fo': "fo' = persist ((step_down (ae_Term args)
        (if prev_matches fo args then accept_result fo args else fo))\<lparr>appliers := ap, timestamp := now\<rparr>)"
      and rep: "aer_Success rep = prev_matches fo args"
      using AppendEntries_result [OF wf(2) awf leI [OF False] ae] by metis
    have same: "commitIndex fo' = commitIndex r" "log fo' = log r"
      if "r = (if prev_matches fo args then accept_result fo args else fo)" for r
      by (simp_all add: fo' that del: accept_result_simps)
    show ?thesis
    proof (cases "prev_matches fo args")
      case True
      note c = accepted_commit [OF h(2,3) lm True [unfolded h(1)] ca lc]
      show ?thesis
        using c same [OF refl] rep True unfolding h(1) by (simp add: commits_agree_def del: accept_result_simps)
    next
      case False
      then show ?thesis using same [OF refl] rep ca by (simp add: commits_agree_def)
    qed
  qed
  then show ?thesis using ae keep by blast
qed

lemma exchange_accept:
  assumes inv: "repl_inv j ld fo" and pm: "prev_matches fo (heartbeat ld j)"
  shows "\<exists>ld' fo'. exchange now (int j) (ld, fo) = Inr (ld', fo') \<and>
    log ld' = log ld \<and> take (length (log ld)) (log fo') = log ld \<and>
    matchIndex ld' ! j = go_len (log ld) - 1 \<and> nextIndex ld' ! j = go_len (log ld)"
proof -
  let ?args = "heartbeat ld j"
  have wf: "peer_wf fo" "peer_wf ld" "state ld = Leader" "currentTerm fo \<le> currentTerm ld" "j < npeers ld"
    using inv by (simp_all add: repl_inv_def)
  note a = repl_inv_args [OF inv]
  obtain fo' rep where ae: "AppendEntries now fo ?args = Inr (fo', rep)"
    using AppendEntries_ok [OF wf(1) a(2,3)] by blast
  obtain ap where fo': "fo' = persist ((step_down (currentTerm ld) (accept_result fo ?args))
        \<lparr>appliers := ap, timestamp := now\<rparr>)"
      and rep: "aer_Success rep" "aer_Term rep = currentTerm ld"
    using AppendEntries_result [OF wf(1) a(2) _ ae] wf(4) pm by auto
  have m: "ae_PrevLogIndex ?args + go_len (ae_Entries ?args) = go_len (log ld) - 1"
    using inv by (auto simp: repl_inv_def go_len_def)
  have len: "length (matchIndex ld) = npeers ld" "length (nextIndex ld) = npeers ld"
    using wf(2) by (simp_all add: peer_wf_def)
  define ld' where "ld' = ld\<lparr>matchIndex := (matchIndex ld)[j := go_len (log ld) - 1],
      nextIndex := (nextIndex ld)[j := go_len (log ld)]\<rparr>"
  have "sendHearbeat_reply ld (int j) ?args rep = Inr ld'"
    unfolding sendHearbeat_reply_def m
    using wf(3,5) rep len by (simp add: Let_def go_update_ok go_len_def ld'_def)
  then have "exchange now (int j) (ld, fo) = Inr (ld', fo')"
    by (simp add: exchange_def a(1) ae)
  moreover have "take (length (log ld)) (log fo') = log ld"
    using accepted_log [OF _ _ _ pm] inv by (auto simp: fo' repl_inv_def)
  ultimately show ?thesis using wf(5) len by (auto simp: ld'_def)
qed

text \<open>A rejected heartbeat: the logs stay, and the next index moves strictly back, but not below 1.\<close>

lemma exchange_reject:
  assumes inv: "repl_inv j ld fo" and pm: "\<not> prev_matches fo (heartbeat ld j)"
  shows "\<exists>ld' fo'. exchange now (int j) (ld, fo) = Inr (ld', fo') \<and> repl_inv j ld' fo' \<and>
    log ld' = log ld \<and> log fo' = log fo \<and> nextIndex ld' ! j < nextIndex ld ! j"
proof -
  let ?args = "heartbeat ld j"
  have wf: "peer_wf fo" "peer_wf ld" "state ld = Leader" "currentTerm fo \<le> currentTerm ld" "j < npeers ld"
    using inv by (simp_all add: repl_inv_def)
  have ni: "1 \<le> nextIndex ld ! j" "nextIndex ld ! j \<le> go_len (log ld)"
    using inv by (simp_all add: repl_inv_def)
  have len: "length (nextIndex ld) = npeers ld" using wf(2) by (simp add: peer_wf_def)
  note a = repl_inv_args [OF inv]
  obtain xt xi where chk: "AppendEntries_check fo ?args = Inr (fo, False, xt, xi)"
    and xi: "1 \<le> xi" "xi \<le> nextIndex ld ! j - 1"
  proof (cases "go_len (log fo) \<le> ae_PrevLogIndex ?args")
    case True
    then show thesis
      using AppendEntries_check_short [OF True] that log_wf_len [OF peer_wf_log [OF wf(1)]] by simp
  next
    case False
    then show thesis
      using AppendEntries_check_conflict [OF wf(1) a(2)] pm that by (auto simp: prev_matches_def)
  qed
  define fo1 where "fo1 = step_down (currentTerm ld) fo"
  obtain ap where ap: "sendApplyMsg fo1 = Inr (fo1\<lparr>appliers := ap\<rparr>)"
    using sendApplyMsg_ok [of fo1] inv wf(1) by (auto simp: fo1_def repl_inv_def peer_wf_def)
  define fo' where "fo' = persist (fo1\<lparr>appliers := ap, timestamp := now\<rparr>)"
  have ae: "AppendEntries now fo ?args = Inr (fo',
      \<lparr>aer_Term = currentTerm ld, aer_Success = False, aer_XTerm = xt, aer_XIndex = xi\<rparr>)"
    using AppendEntries_unfold [of fo ?args, OF _ chk] wf(4) ap by (simp add: fo1_def fo'_def)
  have fo'wf: "peer_wf fo'" using AppendEntries_wf [OF wf(1) a(2) ae] by simp
  obtain x where rp: "sendHearbeat_reply ld (int j) ?args
      \<lparr>aer_Term = currentTerm ld, aer_Success = False, aer_XTerm = xt, aer_XIndex = xi\<rparr> =
      Inr (ld\<lparr>nextIndex := (nextIndex ld)[j := x]\<rparr>)"
    and x: "1 \<le> x" "x < nextIndex ld ! j"
  proof (cases "xt = -1")
    case True
    then show thesis
      using that [of xi] xi wf(3,5) len
      by (simp add: sendHearbeat_reply_def go_update_ok go_len_def)
  next
    case False
    obtain r where "find_XTerm (log ld) xt (nextIndex ld ! j - 1) = Inr r"
      and "case r of None \<Rightarrow> True | Some i \<Rightarrow> 1 \<le> i \<and> i \<le> nextIndex ld ! j - 1"
      using find_XTerm_total [of "nextIndex ld ! j - 1" "log ld" xt] ni by (auto split: option.splits)
    then show thesis
      using that [of "case r of None \<Rightarrow> xi | Some i \<Rightarrow> i"] xi wf(3,5) len False
      by (auto simp: sendHearbeat_reply_def go_update_ok go_len_def split: option.splits)
  qed
  define ld' where "ld' = ld\<lparr>nextIndex := (nextIndex ld)[j := x]\<rparr>"
  have "exchange now (int j) (ld, fo) = Inr (ld', fo')"
    by (simp add: exchange_def a(1) ae rp ld'_def)
  moreover have "repl_inv j ld' fo'"
    using inv fo'wf x wf(2,5) ni len
    by (auto simp: repl_inv_def ld'_def fo'_def fo1_def peer_wf_def)
  ultimately show ?thesis using x wf(5) len by (auto simp: ld'_def fo'_def fo1_def)
qed

lemma exchanges_converge:
  assumes "repl_inv j ld fo"
  shows "\<exists>k ld' fo'. k \<le> nat (nextIndex ld ! j) \<and> exchanges k now (int j) (ld, fo) = Inr (ld', fo') \<and>
    log ld' = log ld \<and> take (length (log ld)) (log fo') = log ld \<and>
    matchIndex ld' ! j = go_len (log ld) - 1"
  using assms
proof (induction "nat (nextIndex ld ! j)" arbitrary: ld fo rule: less_induct)
  case less
  show ?case
  proof (cases "prev_matches fo (heartbeat ld j)")
    case True
    have "1 \<le> nat (nextIndex ld ! j)" using less.prems by (auto simp: repl_inv_def)
    then show ?thesis
      using exchange_accept [OF less.prems True, of now] by (intro exI [of _ 1]) auto
  next
    case False
    obtain ld1 fo1 where one: "exchange now (int j) (ld, fo) = Inr (ld1, fo1)" "repl_inv j ld1 fo1"
      "log ld1 = log ld" "nextIndex ld1 ! j < nextIndex ld ! j"
      using exchange_reject [OF less.prems False, of now] by blast
    have lt: "nat (nextIndex ld1 ! j) < nat (nextIndex ld ! j)"
      using one(2,4) by (simp add: repl_inv_def)
    obtain k ld' fo' where "k \<le> nat (nextIndex ld1 ! j)" "exchanges k now (int j) (ld1, fo1) = Inr (ld', fo')"
      "log ld' = log ld1" "take (length (log ld1)) (log fo') = log ld1"
      "matchIndex ld' ! j = go_len (log ld1) - 1"
      using less.hyps [OF lt one(2)] by blast
    then show ?thesis
      using one lt by (intro exI [of _ "Suc k"]) auto
  qed
qed

subsection \<open>Sample peers\<close>

definition sample_entry :: "int \<Rightarrow> int \<Rightarrow> nat Entry" where
  "sample_entry t i = \<lparr>Term = t, Command = Some (nat (10 * t + i)), Index = i\<rparr>"

definition sample_peer :: "int \<Rightarrow> int \<Rightarrow> nat Entry list \<Rightarrow> nat Raft" where
  "sample_peer i t es =
     persist \<lparr>npeers = 3, persister = MakePersister, me = i, dead = 0, currentTerm = t, votedFor = -1,
        log = \<lparr>Term = 0, Command = None, Index = 0\<rparr> # es, commitIndex = 0, lastApplied = 0,
        nextIndex = [1, 1, 1], matchIndex = [0, 0, 0], state = Follower, voteCount = 0,
        timestamp = 0, electionTimeout = 0, appliers = []\<rparr>"

definition sample_leader :: "nat Raft" where
  "sample_leader = (sample_peer 0 3 [sample_entry 1 1, sample_entry 3 2])
     \<lparr>state := Leader, nextIndex := [3, 3, 3], matchIndex := [2, 0, 0]\<rparr>"

definition sample_follower :: "nat Raft" where
  "sample_follower = sample_peer 1 2 [sample_entry 1 1, sample_entry 2 2, sample_entry 2 3]"

lemmas sample_defs = sample_leader_def sample_follower_def sample_peer_def sample_entry_def

lemma sample_leader_wf: "peer_wf sample_leader"
  by (simp add: sample_defs peer_wf_def log_wf_def All_less_Suc)

lemma sample_follower_wf: "peer_wf sample_follower"
  by (simp add: sample_defs peer_wf_def log_wf_def All_less_Suc)

lemma sample_repl_inv: "repl_inv 1 sample_leader sample_follower"
  unfolding repl_inv_def
  by (simp add: sample_leader_wf sample_follower_wf)
     (auto simp: sample_defs logs_match_def less_Suc_eq)

text \<open>The same leader after it has moved its next index for peer 1 back to the agreement point.\<close>

definition sample_leader2 :: "nat Raft" where
  "sample_leader2 = sample_leader\<lparr>nextIndex := [3, 2, 3]\<rparr>"

lemma sample_repl_inv2: "repl_inv 1 sample_leader2 sample_follower"
  using sample_repl_inv sample_leader_wf
  by (auto simp: repl_inv_def sample_leader2_def peer_wf_def sample_defs)

lemma sample_prev_matches2: "prev_matches sample_follower (heartbeat sample_leader2 1)"
  by (simp add: prev_matches_def heartbeat_def sample_leader2_def sample_defs)

lemma sample_accept:
  obtains fo' rep where "AppendEntries 7 sample_follower (heartbeat sample_leader2 1) = Inr (fo', rep)"
    and "aer_Success rep"
proof -
  note a = repl_inv_args [OF sample_repl_inv2]
  obtain fo' rep where ae: "AppendEntries 7 sample_follower (heartbeat sample_leader2 1) = Inr (fo', rep)"
    using AppendEntries_ok [OF sample_follower_wf a(2,3)] by blast
  have "currentTerm sample_follower \<le> ae_Term (heartbeat sample_leader2 1)"
    by (simp add: sample_leader2_def sample_defs)
  then show thesis
    using AppendEntries_result [OF sample_follower_wf a(2) _ ae] sample_prev_matches2 that ae by metis
qed

end
