(* ===== verification/Raft_Properties.thy ===== *)
theory Raft_Properties
  imports Raft_Replication
begin

section \<open>Properties of the Raft peer\<close>

text \<open>
  The properties of the handlers and of the replication exchange, each with a witness on the
  sample peers of theory \<open>Raft_Replication\<close>.
\<close>

subsection \<open>Replication\<close>

text \<open>
  C1: when a follower accepts a heartbeat built by a leader, and the Log Matching Property held
  between the two logs, then afterwards the follower's log is the leader's log, or its own longer
  log if the leader's log is a prefix of it: nothing that agrees is cut, everything that conflicts
  is replaced.
\<close>

theorem AppendEntries_adopts_leader_log:
  assumes "peer_wf ld" and "peer_wf fo" and "logs_match (log fo) (log ld)"
    and "sendHearbeat_args ld (int j) = Inr (Some args)"
    and "AppendEntries now fo args = Inr (fo', rep)" and "aer_Success rep"
  shows "log fo' =
    (if length (log ld) \<le> length (log fo) \<and> take (length (log ld)) (log fo) = log ld
     then log fo else log ld)"
proof -
  have wf: "ae_wf args" using sendHearbeat_args_wf [OF assms(1,4)] by simp
  note h = heartbeat_of_args [OF assms(4)]
  have le: "currentTerm fo \<le> ae_Term args"
    using assms(5,6) by (cases "ae_Term args < currentTerm fo") (auto simp: AppendEntries_stale)
  obtain ap where "prev_matches fo args" and "fo' = persist ((step_down (ae_Term args)
        (accept_result fo args))\<lparr>appliers := ap, timestamp := now\<rparr>)"
    using AppendEntries_result [OF assms(2) wf le assms(5)] assms(6) by metis
  then show ?thesis
    using accepted_log [OF h(2,3) assms(3)] by (simp add: h(1))
qed

theorem AppendEntries_adopts_leader_log_witness:
  "\<exists>fo' rep. AppendEntries 7 sample_follower (heartbeat sample_leader2 1) = Inr (fo', rep) \<and>
     aer_Success rep \<and> log fo' = log sample_leader2"
proof -
  obtain fo' rep where ae: "AppendEntries 7 sample_follower (heartbeat sample_leader2 1) = Inr (fo', rep)"
    and ok: "aer_Success rep"
    by (rule sample_accept)
  have "peer_wf sample_leader2" "logs_match (log sample_follower) (log sample_leader2)"
    using sample_repl_inv2 by (simp_all add: repl_inv_def)
  then have "log fo' = log sample_leader2"
    using AppendEntries_adopts_leader_log
      [OF _ sample_follower_wf _ repl_inv_args(1) [OF sample_repl_inv2] ae ok]
    by (simp add: sample_leader2_def sample_defs)
  then show ?thesis using ae ok by blast
qed

text \<open>
  C2: repeated heartbeats bring a follower in line. From any pair of well-formed peers whose logs
  satisfy the Log Matching Property and whose committed prefix agrees, after at most
  \<open>nextIndex[j]\<close> exchanges the leader's log is a prefix of the follower's and the leader has
  recorded it in \<open>matchIndex[j]\<close>; none of the exchanges panics.
\<close>

theorem log_repair_converges:
  assumes "repl_inv j ld fo"
  shows "\<exists>k ld' fo'. k \<le> nat (nextIndex ld ! j) \<and> exchanges k now (int j) (ld, fo) = Inr (ld', fo') \<and>
    log ld' = log ld \<and> take (length (log ld)) (log fo') = log ld \<and>
    matchIndex ld' ! j = go_len (log ld) - 1"
  by (rule exchanges_converge [OF assms])

theorem log_repair_converges_witness:
  "repl_inv 1 sample_leader sample_follower \<and>
   (\<exists>k ld' fo'. k \<le> nat (nextIndex sample_leader ! 1) \<and>
      exchanges k 7 (int 1) (sample_leader, sample_follower) = Inr (ld', fo') \<and>
      log ld' = log sample_leader \<and>
      take (length (log sample_leader)) (log fo') = log sample_leader \<and>
      matchIndex ld' ! 1 = go_len (log sample_leader) - 1)"
  using sample_repl_inv log_repair_converges [OF sample_repl_inv, of 7] by blast

text \<open>
  C3: a leader moves its commit index only forward, only to an entry of its own term, and only
  when more than half of the peers have a match index at least as large.
\<close>

theorem commit_needs_majority:
  assumes "peer_wf rf" and "sendHearbeat_commit rf = Inr rf'" and "commitIndex rf' \<noteq> commitIndex rf"
  shows "commitIndex rf < commitIndex rf' \<and> commitIndex rf' < go_len (log rf) \<and>
    Term (log rf ! nat (commitIndex rf')) = currentTerm rf \<and> log rf' = log rf \<and>
    card {i. i < npeers rf \<and> commitIndex rf' \<le> matchIndex rf ! i} > npeers rf div 2"
  using assms(1,2)
proof (cases rule: sendHearbeat_commit_cases)
  case same
  then show ?thesis using assms(3) by simp
next
  case (advance N ap)
  then show ?thesis by simp
qed

theorem commit_needs_majority_witness:
  "\<exists>rf'. sendHearbeat_commit (sample_leader\<lparr>matchIndex := [2, 2, 0]\<rparr>) = Inr rf' \<and>
     commitIndex rf' = 2 \<and>
     card {i. i < 3 \<and> commitIndex rf' \<le> [2, 2, 0::int] ! i} > 1"
proof -
  let ?rf = "sample_leader\<lparr>matchIndex := [2, 2, 0]\<rparr>"
  have wf: "peer_wf ?rf" using sample_leader_wf by (simp add: peer_wf_def sample_defs)
  obtain rf' where r: "sendHearbeat_commit ?rf = Inr rf'" and ci: "commitIndex rf' = 2"
    by (simp add: sendHearbeat_commit_def sendApplyMsg_def count_match_def go_index_def go_slice_def
        sample_defs upt_rec)
  have "commitIndex rf' \<noteq> commitIndex ?rf" using ci by (simp add: sample_defs)
  from commit_needs_majority [OF wf r this] show ?thesis
    using r ci by (simp add: sample_defs)
qed

subsection \<open>Votes\<close>

text \<open>
  C4: the vote rule on every branch: the reply carries the larger of the two terms; the vote is
  granted exactly when the peer has not voted for another candidate in the term it is then in and
  the candidate's last entry is at least as up to date as its own; a granted vote is recorded.
\<close>

theorem RequestVote_decides:
  assumes "log rf \<noteq> []" and "RequestVote now rf args = Inr (rf', rep)"
  shows "rvr_Term rep = max (rv_Term args) (currentTerm rf) \<and>
    currentTerm rf' = rvr_Term rep \<and> log rf' = log rf \<and>
    (rvr_VoteGranted rep \<longleftrightarrow>
      (rv_Term args > currentTerm rf \<or> votedFor rf = -1 \<or> votedFor rf = rv_CandidateId args) \<and>
      (Term (last (log rf)) < rv_LastLogTerm args \<or>
       Term (last (log rf)) = rv_LastLogTerm args \<and> Index (last (log rf)) \<le> rv_LastLogIndex args)) \<and>
    (rvr_VoteGranted rep \<longrightarrow> votedFor rf' = rv_CandidateId args)"
  using assms by (auto simp: RequestVote_eq vote_result_def grants_def Let_def)

theorem RequestVote_decides_witness:
  "\<exists>rf' rep. RequestVote 7 sample_follower \<lparr>rv_Term = 3, rv_CandidateId = 0, rv_LastLogIndex = 2, rv_LastLogTerm = 3\<rparr>
       = Inr (rf', rep) \<and> rvr_VoteGranted rep \<and> votedFor rf' = 0 \<and> rvr_Term rep = 3"
proof -
  let ?args = "\<lparr>rv_Term = 3, rv_CandidateId = 0, rv_LastLogIndex = 2, rv_LastLogTerm = 3\<rparr>"
  have ne: "log sample_follower \<noteq> []" by (simp add: sample_defs)
  obtain rf' rep where r: "RequestVote 7 sample_follower ?args = Inr (rf', rep)"
    using RequestVote_eq [OF ne] by blast
  show ?thesis
    using r RequestVote_decides [OF ne r] by (auto simp: sample_defs)
qed

text \<open>
  a peer votes for at most one candidate per term: of two requests it serves one after the
  other, both granted in the same term, both name the same candidate.
\<close>

theorem RequestVote_single_vote:
  assumes "log rf \<noteq> []" and "rv_CandidateId a1 \<noteq> -1"
    and "RequestVote now1 rf a1 = Inr (rf1, r1)" and "rvr_VoteGranted r1"
    and "RequestVote now2 rf1 a2 = Inr (rf2, r2)" and "rvr_VoteGranted r2"
    and "rvr_Term r1 = rvr_Term r2"
  shows "rv_CandidateId a1 = rv_CandidateId a2"
proof -
  have rf1: "rf1 = persist (vote_result now1 rf a1)" and r1: "grants rf a1"
      "rvr_Term r1 = max (rv_Term a1) (currentTerm rf)"
    using assms(1,3,4) by (auto simp: RequestVote_eq)
  have log1: "log rf1 \<noteq> []" using assms(1) by (simp add: rf1 vote_result_def Let_def)
  have t1: "currentTerm rf1 = max (rv_Term a1) (currentTerm rf)" and v1: "votedFor rf1 = rv_CandidateId a1"
    using r1 by (auto simp: rf1 vote_result_def Let_def)
  have "grants rf1 a2" and "rvr_Term r2 = max (rv_Term a2) (currentTerm rf1)"
    using log1 assms(5,6) by (auto simp: RequestVote_eq)
  then show ?thesis using t1 v1 r1(2) assms(2,7) by (auto simp: grants_def)
qed

theorem RequestVote_single_vote_witness:
  "\<exists>rf1 r1 rf2 r2.
     RequestVote 7 sample_follower \<lparr>rv_Term = 3, rv_CandidateId = 0, rv_LastLogIndex = 2, rv_LastLogTerm = 3\<rparr> = Inr (rf1, r1) \<and>
     RequestVote 8 rf1 \<lparr>rv_Term = 3, rv_CandidateId = 0, rv_LastLogIndex = 2, rv_LastLogTerm = 3\<rparr> = Inr (rf2, r2) \<and>
     rvr_VoteGranted r1 \<and> rvr_VoteGranted r2 \<and> (0::int) = 0"
proof -
  let ?a = "\<lparr>rv_Term = 3, rv_CandidateId = 0, rv_LastLogIndex = 2, rv_LastLogTerm = 3\<rparr>"
  have ne: "log sample_follower \<noteq> []" by (simp add: sample_defs)
  define rf1 where "rf1 = persist (vote_result 7 sample_follower ?a)"
  have g1: "grants sample_follower ?a" by (simp add: grants_def sample_defs)
  have one: "RequestVote 7 sample_follower ?a = Inr (rf1, \<lparr>rvr_Term = 3, rvr_VoteGranted = True\<rparr>)"
    using RequestVote_eq [OF ne, of 7 ?a] g1 by (simp add: rf1_def sample_defs)
  have rf1: "log rf1 = log sample_follower" "currentTerm rf1 = 3" "votedFor rf1 = 0"
    using g1 by (simp_all add: rf1_def vote_result_def Let_def sample_defs)
  have two: "RequestVote 8 rf1 ?a = Inr (persist (vote_result 8 rf1 ?a), \<lparr>rvr_Term = 3, rvr_VoteGranted = True\<rparr>)"
    using RequestVote_eq [of rf1 8 ?a] g1 rf1 ne by (simp add: grants_def)
  have "rv_CandidateId ?a = rv_CandidateId ?a"
    by (rule RequestVote_single_vote [OF ne _ one _ two]) simp_all
  then show ?thesis using one two by auto
qed

subsection \<open>Rejections, errors, idempotence\<close>

text \<open>
  the hint of a rejected AppendEntries. Too short a log: \<open>XTerm = -1\<close> and \<open>XIndex\<close> is
  the length of the log. A conflicting entry at the previous index: \<open>XTerm\<close> is its term and
  \<open>XIndex\<close> the first index of the unbroken run of that term, at least 1 and at most the
  previous index. The backward scan terminates without panicking and the log is left alone.
\<close>

theorem AppendEntries_conflict_hint:
  assumes "peer_wf rf" and "ae_wf args" and "\<not> prev_matches rf args"
  shows "\<exists>x. AppendEntries_check rf args =
      Inr (rf, False,
           if go_len (log rf) \<le> ae_PrevLogIndex args then -1
           else Term (log rf ! nat (ae_PrevLogIndex args)), x) \<and>
    (if go_len (log rf) \<le> ae_PrevLogIndex args then x = go_len (log rf)
     else 1 \<le> x \<and> x \<le> ae_PrevLogIndex args \<and>
       Term (log rf ! nat (x - 1)) \<noteq> Term (log rf ! nat (ae_PrevLogIndex args)) \<and>
       (\<forall>j. x \<le> j \<and> j \<le> ae_PrevLogIndex args \<longrightarrow>
          Term (log rf ! nat j) = Term (log rf ! nat (ae_PrevLogIndex args))))"
proof (cases "go_len (log rf) \<le> ae_PrevLogIndex args")
  case True
  then show ?thesis using AppendEntries_check_short [OF True] by simp
next
  case False
  then show ?thesis
    using AppendEntries_check_conflict [OF assms(1,2)] assms(3) by (auto simp: prev_matches_def)
qed

theorem AppendEntries_conflict_hint_witness:
  "\<exists>x. AppendEntries_check sample_follower (heartbeat sample_leader 1) =
      Inr (sample_follower, False, 2, x) \<and> x = 2"
proof -
  have npm: "\<not> prev_matches sample_follower (heartbeat sample_leader 1)"
    by (simp add: prev_matches_def heartbeat_def sample_defs)
  obtain x where x: "AppendEntries_check sample_follower (heartbeat sample_leader 1) =
      Inr (sample_follower, False, 2, x)" "1 \<le> x" "x \<le> 2" "Term (log sample_follower ! nat (x - 1)) \<noteq> 2"
    using AppendEntries_conflict_hint
      [OF sample_follower_wf repl_inv_args(2) [OF sample_repl_inv] npm]
    by (auto simp: sample_defs)
  have "x \<noteq> 1"
  proof
    assume "x = 1"
    with x(1) show False
      by (simp add: AppendEntries_check_def heartbeat_def sample_defs go_index_def scan_XIndex.simps)
  qed
  then have "x = 2" using x(2,3) by linarith
  then show ?thesis using x(1) by blast
qed

text \<open>
  C5: a follower that handles a heartbeat built by a leader of the code, when the two logs satisfy
  the Log Matching Property and the follower's committed entries are the leader's, does not panic
  (neither on an index nor on the slice handed to the apply goroutine) and keeps its committed
  entries. Its commit index becomes the larger of the two commit indices when it accepts and stays
  when it refuses; and afterwards its committed entries are again entries of the leader, although
  the code bounds the commit index by the length of the follower's log and not, as the notes say,
  by the last new entry: a heartbeat always carries the whole rest of the leader's log.
\<close>

theorem AppendEntries_no_panic:
  assumes "peer_wf ld" and "peer_wf fo" and "logs_match (log fo) (log ld)"
    and "sendHearbeat_args ld (int j) = Inr (Some args)"
    and "commits_agree fo ld" and "commitIndex ld < go_len (log ld)"
  shows "\<exists>fo' rep. AppendEntries now fo args = Inr (fo', rep) \<and>
    take (nat (commitIndex fo + 1)) (log fo') = take (nat (commitIndex fo + 1)) (log fo) \<and>
    commitIndex fo' =
      (if aer_Success rep then max (commitIndex fo) (commitIndex ld) else commitIndex fo) \<and>
    commits_agree fo' ld"
  by (rule heartbeat_commits [OF assms])

text \<open>
  The witness: the follower has committed entry 1, holds a conflicting entry 2, and the leader has
  committed its own entry 2; the heartbeat is accepted, the conflict replaced and entry 2 committed.
\<close>

theorem AppendEntries_no_panic_witness:
  "\<exists>fo' rep. AppendEntries 7 (sample_follower\<lparr>commitIndex := 1\<rparr>)
       (heartbeat (sample_leader2\<lparr>commitIndex := 2\<rparr>) 1) = Inr (fo', rep) \<and>
     aer_Success rep \<and> commitIndex fo' = 2 \<and> commits_agree fo' (sample_leader2\<lparr>commitIndex := 2\<rparr>) \<and>
     take 2 (log fo') = take 2 (log sample_follower) \<and> log fo' ! 2 \<noteq> log sample_follower ! 2"
proof -
  let ?fo = "sample_follower\<lparr>commitIndex := 1\<rparr>" and ?ld = "sample_leader2\<lparr>commitIndex := 2\<rparr>"
  note inv = sample_repl_inv2 [unfolded repl_inv_def]
  have wf: "peer_wf ?ld" "peer_wf ?fo" using inv by (simp_all add: peer_wf_def)
  have lm: "logs_match (log ?fo) (log ?ld)" using inv by simp
  have args: "sendHearbeat_args ?ld (int 1) = Inr (Some (heartbeat ?ld 1))"
    by (simp add: sendHearbeat_args_def heartbeat_def go_index_def go_slice_from_def go_slice_def
        sample_leader2_def sample_defs)
  have ca: "commits_agree ?fo ?ld" and lc: "commitIndex ?ld < go_len (log ?ld)"
    by (simp_all add: commits_agree_def sample_leader2_def sample_defs)
  obtain fo' rep where r: "AppendEntries 7 ?fo (heartbeat ?ld 1) = Inr (fo', rep)"
    "take 2 (log fo') = take 2 (log ?fo)"
    "commitIndex fo' = (if aer_Success rep then 2 else 1)" "commits_agree fo' ?ld"
    using AppendEntries_no_panic [OF wf lm args ca lc, of 7] by auto
  have awf: "ae_wf (heartbeat ?ld 1)" using sendHearbeat_args_wf [OF wf(1) args] by simp
  have pm: "prev_matches ?fo (heartbeat ?ld 1)"
    by (simp add: prev_matches_def heartbeat_def sample_leader2_def sample_defs)
  have le: "currentTerm ?fo \<le> ae_Term (heartbeat ?ld 1)"
    by (simp add: sample_leader2_def sample_defs)
  have ok: "aer_Success rep" using AppendEntries_result [OF wf(2) awf le r(1)] pm by metis
  then have ci: "commitIndex fo' = 2" using r(3) by simp
  have "log fo' ! 2 = log ?ld ! 2"
    using r(4) by (intro take_eq_nth [of 3]) (auto simp: commits_agree_def ci go_len_def)
  then have "log fo' ! 2 \<noteq> log sample_follower ! 2"
    by (simp add: sample_leader2_def sample_defs)
  then show ?thesis using r ok ci by auto
qed

text \<open>
  A repeated or late AppendEntries does no harm: handling the same message again leaves the
  log as the first handling left it.
\<close>

theorem AppendEntries_idempotent:
  assumes "peer_wf rf" and "ae_wf args"
    and "AppendEntries now1 rf args = Inr (rf1, r1)" and "AppendEntries now2 rf1 args = Inr (rf2, r2)"
    and "aer_Success r1"
  shows "log rf2 = log rf1"
proof -
  have le: "currentTerm rf \<le> ae_Term args"
    using assms(3,5) by (cases "ae_Term args < currentTerm rf") (auto simp: AppendEntries_stale)
  let ?n = "nat (ae_PrevLogIndex args + 1)"
  obtain ap where pm: "prev_matches rf args" and rf1: "rf1 = persist ((step_down (ae_Term args)
        (accept_result rf args))\<lparr>appliers := ap, timestamp := now1\<rparr>)"
    using AppendEntries_result [OF assms(1,2) le assms(3)] assms(5) by metis
  have n: "?n \<le> length (log rf)"
    using pm assms(2) by (auto simp: prev_matches_def ae_wf_def go_len_def)
  have log1: "log rf1 = merge_from (log rf) ?n (ae_Entries args)" by (simp add: rf1)
  have le1: "currentTerm rf1 \<le> ae_Term args" using le by (simp add: rf1)
  have wf1: "peer_wf rf1" using AppendEntries_wf [OF assms(1-3)] by simp
  obtain ap2 where "rf2 = persist ((step_down (ae_Term args)
        (if prev_matches rf1 args then accept_result rf1 args else rf1))\<lparr>appliers := ap2, timestamp := now2\<rparr>)"
    using AppendEntries_result [OF wf1 assms(2) le1 assms(4)] by metis
  then show ?thesis
    by (auto simp: log1 merge_from_idem [OF n])
qed

theorem AppendEntries_idempotent_witness:
  "\<exists>rf1 r1 rf2 r2.
     AppendEntries 7 sample_follower (heartbeat sample_leader2 1) = Inr (rf1, r1) \<and> aer_Success r1 \<and>
     AppendEntries 8 rf1 (heartbeat sample_leader2 1) = Inr (rf2, r2) \<and> log rf2 = log rf1"
proof -
  let ?h = "heartbeat sample_leader2 1"
  have hwf: "ae_wf ?h" using repl_inv_args(2) [OF sample_repl_inv2] .
  obtain rf1 r1 where one: "AppendEntries 7 sample_follower ?h = Inr (rf1, r1)" and ok: "aer_Success r1"
    by (rule sample_accept)
  have wf1: "peer_wf rf1" using AppendEntries_wf [OF sample_follower_wf hwf one] by simp
  have le: "currentTerm sample_follower \<le> ae_Term ?h"
    by (simp add: sample_leader2_def sample_defs)
  obtain ap where "rf1 = persist ((step_down (ae_Term ?h) (accept_result sample_follower ?h))
      \<lparr>appliers := ap, timestamp := 7\<rparr>)"
    using AppendEntries_result [OF sample_follower_wf hwf le one] sample_prev_matches2 by metis
  then have "commitIndex rf1 = 0"
    by (simp add: commit_after_def) (simp add: sample_leader2_def sample_defs)
  moreover have "log rf1 \<noteq> []" using wf1 by (simp add: peer_wf_def)
  ultimately have rc: "respects_commit rf1 ?h"
    by (simp add: respects_commit_def go_len_pos) (simp add: sample_leader2_def sample_defs)
  obtain rf2 r2 where two: "AppendEntries 8 rf1 ?h = Inr (rf2, r2)"
    using AppendEntries_ok [OF wf1 hwf rc] by blast
  show ?thesis
    using AppendEntries_idempotent [OF sample_follower_wf hwf one two ok] one two ok by blast
qed

end
