(* ===== verification/Raft_Flaws.thy ===== *)
theory Raft_Flaws
  imports Raft_Properties
begin

section \<open>Behaviours of the Raft peer that differ from the protocol\<close>

text \<open>
  Runs of the handlers, on well-formed peers, that the protocol of the Raft paper (and the
  repository's own notes) exclude. Each is a statement about the code as it is.
\<close>

text \<open>
  C9: a request of an older term is not refused. The test \<open>args.Term < rf.currentTerm\<close> only
  clears a flag and does not return: a peer that has not voted in its current term grants its vote
  to an up-to-date candidate of any earlier term, and the vote is recorded in the current term.
\<close>

theorem RequestVote_grants_stale_term:
  assumes "log rf \<noteq> []" and "rv_Term args < currentTerm rf" and "votedFor rf = -1"
    and "Term (last (log rf)) < rv_LastLogTerm args \<or>
       Term (last (log rf)) = rv_LastLogTerm args \<and> Index (last (log rf)) \<le> rv_LastLogIndex args"
  shows "\<exists>rf' rep. RequestVote now rf args = Inr (rf', rep) \<and> rvr_VoteGranted rep \<and>
    rvr_Term rep = currentTerm rf \<and> currentTerm rf' = currentTerm rf \<and>
    votedFor rf' = rv_CandidateId args"
  using assms by (auto simp: RequestVote_eq grants_def vote_result_def Let_def)

theorem RequestVote_grants_stale_term_witness:
  "rv_Term \<lparr>rv_Term = 1, rv_CandidateId = 2, rv_LastLogIndex = 5, rv_LastLogTerm = 2\<rparr> < currentTerm sample_follower \<and>
   (\<exists>rf' rep. RequestVote 7 sample_follower
       \<lparr>rv_Term = 1, rv_CandidateId = 2, rv_LastLogIndex = 5, rv_LastLogTerm = 2\<rparr> = Inr (rf', rep) \<and>
     rvr_VoteGranted rep \<and> votedFor rf' = 2)"
proof -
  let ?a = "\<lparr>rv_Term = 1, rv_CandidateId = 2, rv_LastLogIndex = 5, rv_LastLogTerm = 2\<rparr>"
  have h: "log sample_follower \<noteq> []" "rv_Term ?a < currentTerm sample_follower" "votedFor sample_follower = -1"
    "Term (last (log sample_follower)) < rv_LastLogTerm ?a \<or>
     Term (last (log sample_follower)) = rv_LastLogTerm ?a \<and> Index (last (log sample_follower)) \<le> rv_LastLogIndex ?a"
    by (simp_all add: sample_defs)
  show ?thesis using RequestVote_grants_stale_term [OF h, of 7] h(2) by auto
qed

definition cut_args :: "nat AppendEntriesArgs" where
  "cut_args = \<lparr>ae_Term = 4, ae_LeaderId = 1, ae_PrevLogIndex = 0, ae_PrevLogTerm = 0,
     ae_LeaderCommit = 0, ae_Entries = [sample_entry 2 1]\<rparr>"

text \<open>
  C10: a peer that becomes leader again after its log was cut crashes on its next heartbeat.
  \<open>nextIndex\<close> is set once, by \<open>Make\<close>, and never on winning an election, so it can point
  past the end of the log; reading the previous entry then panics.
\<close>

theorem sendHearbeat_panics_after_cut:
  "\<exists>rf0 rf1 rep. peer_wf rf0 \<and> state rf0 = Leader \<and>
     AppendEntries 7 rf0 cut_args = Inr (rf1, rep) \<and> peer_wf rf1 \<and>
     sendHearbeat_args
       (runCandidate_check (startElection_reply (startElection_begin 9 (runFollower_convert rf1))
          \<lparr>rvr_Term = 5, rvr_VoteGranted = True\<rparr>)) 1 = Inl IndexOutOfRange"
proof -
  let ?rf = sample_leader
  have wf: "peer_wf ?rf" "ae_wf cut_args"
    by (simp_all add: sample_leader_wf cut_args_def ae_wf_def sample_entry_def)
  have rc: "respects_commit ?rf cut_args"
    by (simp add: respects_commit_def cut_args_def sample_defs)
  have pm: "prev_matches ?rf cut_args" and le: "currentTerm ?rf \<le> ae_Term cut_args"
    by (simp_all add: prev_matches_def cut_args_def sample_defs)
  obtain rf1 rep where ae: "AppendEntries 7 ?rf cut_args = Inr (rf1, rep)"
    using AppendEntries_ok [OF wf rc] by blast
  obtain ap where rf1: "rf1 = persist ((step_down (ae_Term cut_args)
      (accept_result ?rf cut_args))\<lparr>appliers := ap, timestamp := 7\<rparr>)"
    using AppendEntries_result [OF wf le ae] pm by metis
  have facts: "length (log rf1) = 2" "nextIndex rf1 = [2, 3, 3]" "npeers rf1 = 3" "me rf1 = 0"
    by (simp_all add: rf1) (simp_all add: accept_result_def Let_def cut_args_def sample_defs)
  have "sendHearbeat_args
       (runCandidate_check (startElection_reply (startElection_begin 9 (runFollower_convert rf1))
          \<lparr>rvr_Term = 5, rvr_VoteGranted = True\<rparr>)) 1 = Inl IndexOutOfRange"
    using facts
    by (simp add: sendHearbeat_args_def runCandidate_check_def startElection_reply_def
        startElection_begin_def runFollower_convert_def go_index_def go_len_def Let_def)
  moreover have "state ?rf = Leader" by (simp add: sample_leader_def)
  ultimately show ?thesis using wf ae AppendEntries_wf [OF wf ae] by blast
qed

text \<open>
  a reply to an old heartbeat can set \<open>nextIndex\<close> to 0, after which every heartbeat to
  that peer panics. A follower in a newer term answers with \<open>XIndex = 0\<close>; the leader, by then
  re-elected in that term, does not compare the reply's term with that of its request.
\<close>

theorem stale_reply_breaks_heartbeats:
  "\<exists>rf :: nat Raft. \<exists>fo args fo' rep rf'.
     peer_wf rf \<and> peer_wf fo \<and> state rf = Leader \<and> ae_wf args \<and> ae_Term args < currentTerm fo \<and>
     AppendEntries 7 fo args = Inr (fo', rep) \<and>
     sendHearbeat_reply rf 1 args rep = Inr rf' \<and> sendHearbeat_args rf' 1 = Inl IndexOutOfRange"
proof -
  let ?args = "\<lparr>ae_Term = 1, ae_LeaderId = 0, ae_PrevLogIndex = 0, ae_PrevLogTerm = 0,
     ae_LeaderCommit = 0, ae_Entries = []\<rparr> :: nat AppendEntriesArgs"
  let ?rep = "\<lparr>aer_Term = 2, aer_Success = False, aer_XTerm = 0, aer_XIndex = 0\<rparr>"
  let ?rf' = "sample_leader\<lparr>nextIndex := [3, 0, 3]\<rparr>"
  have "ae_wf ?args" "ae_Term ?args < currentTerm sample_follower" "state sample_leader = Leader"
    by (simp_all add: ae_wf_def sample_defs)
  moreover have "AppendEntries 7 sample_follower ?args = Inr (persist sample_follower, ?rep)"
    using AppendEntries_stale [of ?args sample_follower 7] by (simp add: sample_defs)
  moreover have "sendHearbeat_reply sample_leader 1 ?args ?rep = Inr ?rf'"
    by (simp add: sendHearbeat_reply_def go_update_def find_XTerm.simps sample_defs)
  moreover have "sendHearbeat_args ?rf' 1 = Inl IndexOutOfRange"
    by (simp add: sendHearbeat_args_def go_index_def Let_def sample_defs)
  ultimately show ?thesis using sample_leader_wf sample_follower_wf by blast
qed

end
