(* ===== verification/Raft_Cluster.thy ===== *)
theory Raft_Cluster
  imports Raft_Flaws
begin

section \<open>A cluster of Raft peers as a state machine\<close>

text \<open>
  The goroutines of all peers interleave at the granularity of their critical sections. For each
  peer there is the main loop (\<open>Run\<close> and the functions it calls) with its program point, the
  apply goroutines (in the peer's record), the goroutines of heartbeats and vote requests, and
  calls of \<open>Start\<close>. A goroutine that has been started but has not yet built its arguments, a
  request on its way, and a reply on its way are elements of \<open>net\<close>; the network may lose and
  reorder them, as \<open>labrpc\<close> does. A restart replaces the peer by what \<open>Make\<close> builds from
  a copy of its persister and starts a new epoch; goroutines and replies of an older epoch belong
  to the dead instance. A panic ends the run: the event is then not enabled.

  \<open>ballots\<close> is a history variable: every vote given, with the voter and the voter's term.
\<close>

datatype run_pc =
    Top | AtLeader | CommitSection
  | AtFollower | FollowerTimedOut
  | AtCandidate | CandidateCheck
  | ElectBegin bool | ElectLoop bool nat

datatype 'c rpc =
    VoteGo nat nat nat
  | VoteReq nat nat nat RequestVoteArgs
  | VoteRep nat nat nat RequestVoteReply
  | BeatGo nat nat nat
  | BeatReq nat nat nat "'c AppendEntriesArgs"
  | BeatRep nat nat nat "'c AppendEntriesArgs" AppendEntriesReply
  | StartGo nat nat int "'c option"

record 'c cluster =
  rafts :: "'c Raft list"
  pcs :: "run_pc list"
  epochs :: "nat list"
  net :: "'c rpc list"
  applied :: "'c ApplyMsg list list"
  ballots :: "(nat \<times> int \<times> int) list"

datatype 'c event =
    LoopTop nat
  | LeaderBeat nat
  | LeaderCommit nat
  | FollowerCheck nat int
  | FollowerConvert nat
  | CandidateTimer nat int
  | CandidateWin nat
  | ElectStart nat int
  | ElectNext nat
  | Deliver nat int
  | Drop nat
  | StartCall nat "'c option"
  | ApplySend nat nat
  | ApplyDone nat nat
  | Restart nat int int
  | KillPeer nat

definition remove_nth :: "nat \<Rightarrow> 'a list \<Rightarrow> 'a list" where
  "remove_nth k xs = take k xs @ drop (Suc k) xs"

definition set_peer :: "nat \<Rightarrow> 'c Raft \<Rightarrow> run_pc \<Rightarrow> 'c cluster \<Rightarrow> 'c cluster" where
  "set_peer i rf pc c = c\<lparr>rafts := (rafts c)[i := rf], pcs := (pcs c)[i := pc]\<rparr>"

text \<open>The main loop of peer \<open>i\<close>: \<open>Run\<close>, \<open>runLeader\<close>, \<open>runFollower\<close>, \<open>runCandidate\<close>,
  \<open>startElection\<close>. The flag of an election says whether it was started by \<open>runCandidate\<close>.\<close>

definition after_election :: "bool \<Rightarrow> run_pc" where
  "after_election cand = (if cand then CandidateCheck else Top)"

definition loop_step :: "'c event \<Rightarrow> nat \<Rightarrow> 'c cluster \<Rightarrow> 'c cluster option" where
  "loop_step ev i c =
     (let rf = rafts c ! i; n = length (rafts c) in
      case (ev, pcs c ! i) of
        (LoopTop _, Top) \<Rightarrow>
          if killed rf then None
          else if state rf = Leader then Some (set_peer i rf AtLeader c)
          else if state rf = Follower then Some (set_peer i rf AtFollower c)
          else if state rf = Candidate then Some (set_peer i rf AtCandidate c)
          else None
      | (LeaderBeat _, AtLeader) \<Rightarrow>
          Some ((set_peer i rf CommitSection c)
            \<lparr>net := net c @ map (\<lambda>j. BeatGo i (epochs c ! i) j) (filter (\<lambda>j. int j \<noteq> me rf) [0..<n])\<rparr>)
      | (LeaderCommit _, CommitSection) \<Rightarrow>
          (case sendHearbeat_commit rf of
             Inl _ \<Rightarrow> None
           | Inr rf' \<Rightarrow> Some (set_peer i rf' Top c))
      | (FollowerCheck _ now, AtFollower) \<Rightarrow>
          Some (set_peer i rf (if isElectionTimeout now rf then FollowerTimedOut else Top) c)
      | (FollowerConvert _, FollowerTimedOut) \<Rightarrow>
          Some (set_peer i (runFollower_convert rf) (ElectBegin False) c)
      | (CandidateTimer _ now, AtCandidate) \<Rightarrow>
          Some (set_peer i rf (if isElectionTimeout now rf then ElectBegin True else CandidateCheck) c)
      | (CandidateWin _, CandidateCheck) \<Rightarrow>
          Some (set_peer i (runCandidate_check rf) Top c)
      | (ElectStart _ now, ElectBegin cand) \<Rightarrow>
          Some ((set_peer i (startElection_begin now rf) (ElectLoop cand 0) c)
            \<lparr>ballots := (i, currentTerm rf + 1, me rf) # ballots c\<rparr>)
      | (ElectNext _, ElectLoop cand j) \<Rightarrow>
          if n \<le> j then Some (set_peer i rf (after_election cand) c)
          else if int j = me rf then Some (set_peer i rf (ElectLoop cand (Suc j)) c)
          else if state rf \<noteq> Candidate then Some (set_peer i rf (after_election cand) c)
          else Some ((set_peer i rf (ElectLoop cand (Suc j)) c)\<lparr>net := net c @ [VoteGo i (epochs c ! i) j]\<rparr>)
      | _ \<Rightarrow> None)"

text \<open>One element of the net takes its next step.\<close>

definition put_raft :: "nat \<Rightarrow> 'c Raft \<Rightarrow> 'c cluster \<Rightarrow> 'c cluster" where
  "put_raft i rf c = c\<lparr>rafts := (rafts c)[i := rf]\<rparr>"

definition deliver :: "'c rpc \<Rightarrow> int \<Rightarrow> 'c cluster \<Rightarrow> 'c cluster option" where
  "deliver msg now c =
     (let live = (\<lambda>i e. i < length (rafts c) \<and> epochs c ! i = e) in
      case msg of
        VoteGo i e j \<Rightarrow>
          if live i e
          then (case startElection_args (rafts c ! i) of
                  Inl _ \<Rightarrow> None
                | Inr args \<Rightarrow> Some (c\<lparr>net := net c @ [VoteReq i e j args]\<rparr>))
          else None
      | VoteReq i e j args \<Rightarrow>
          if j < length (rafts c)
          then (case RequestVote now (rafts c ! j) args of
                  Inl _ \<Rightarrow> None
                | Inr (rf', rep) \<Rightarrow>
                    Some ((put_raft j rf' c)
                      \<lparr>net := net c @ [VoteRep i e j rep],
                       ballots := (if rvr_VoteGranted rep
                                   then (j, rvr_Term rep, rv_CandidateId args) # ballots c
                                   else ballots c)\<rparr>))
          else None
      | VoteRep i e j rep \<Rightarrow>
          if live i e then Some (put_raft i (startElection_reply (rafts c ! i) rep) c) else None
      | BeatGo i e j \<Rightarrow>
          if live i e
          then (case sendHearbeat_args (rafts c ! i) (int j) of
                  Inl _ \<Rightarrow> None
                | Inr None \<Rightarrow> Some c
                | Inr (Some args) \<Rightarrow> Some (c\<lparr>net := net c @ [BeatReq i e j args]\<rparr>))
          else None
      | BeatReq i e j args \<Rightarrow>
          if j < length (rafts c)
          then (case AppendEntries now (rafts c ! j) args of
                  Inl _ \<Rightarrow> None
                | Inr (rf', rep) \<Rightarrow>
                    Some ((put_raft j rf' c)\<lparr>net := net c @ [BeatRep i e j args rep]\<rparr>))
          else None
      | BeatRep i e j args rep \<Rightarrow>
          if live i e
          then (case sendHearbeat_reply (rafts c ! i) (int j) args rep of
                  Inl _ \<Rightarrow> None
                | Inr rf' \<Rightarrow> Some (put_raft i rf' c))
          else None
      | StartGo i e term command \<Rightarrow>
          if live i e
          then (case Start_append term command (rafts c ! i) of
                  Inl _ \<Rightarrow> None
                | Inr (rf', index) \<Rightarrow> Some (put_raft i rf' c))
          else None)"

definition applier_step :: "nat \<Rightarrow> nat \<Rightarrow> bool \<Rightarrow> 'c cluster \<Rightarrow> 'c cluster option" where
  "applier_step i k sending c =
     (let rf = rafts c ! i in
      if k < length (appliers rf)
      then (if sending
            then (case applier_send (appliers rf ! k) of
                    None \<Rightarrow> None
                  | Some (a, msg) \<Rightarrow>
                      Some ((put_raft i (rf\<lparr>appliers := (appliers rf)[k := a]\<rparr>) c)
                        \<lparr>applied := (applied c)[i := applied c ! i @ [msg]]\<rparr>))
            else (case applier_update (appliers rf ! k) rf of
                    None \<Rightarrow> None
                  | Some (a, rf') \<Rightarrow>
                      Some (put_raft i (rf'\<lparr>appliers := (appliers rf')[k := a]\<rparr>) c)))
      else None)"

definition restart :: "nat \<Rightarrow> int \<Rightarrow> int \<Rightarrow> 'c cluster \<Rightarrow> 'c cluster option" where
  "restart i now rnd c =
     (case Make now rnd (length (rafts c)) (int i) (Copy (kept (persister (rafts c ! i)))) of
        Inl _ \<Rightarrow> None
      | Inr rf' \<Rightarrow> Some ((set_peer i rf' Top c)\<lparr>epochs := (epochs c)[i := Suc (epochs c ! i)]\<rparr>))"

fun cstep :: "'c event \<Rightarrow> 'c cluster \<Rightarrow> 'c cluster option" where
  "cstep (Deliver k now) c =
     (if k < length (net c) then deliver (net c ! k) now (c\<lparr>net := remove_nth k (net c)\<rparr>) else None)"
| "cstep (Drop k) c =
     (if k < length (net c) then Some (c\<lparr>net := remove_nth k (net c)\<rparr>) else None)"
| "cstep (StartCall i command) c =
     (if i < length (rafts c)
      then (let (term, isLeader) = GetState (rafts c ! i)
            in if isLeader then Some (c\<lparr>net := net c @ [StartGo i (epochs c ! i) term command]\<rparr>) else Some c)
      else None)"
| "cstep (ApplySend i k) c = (if i < length (rafts c) then applier_step i k True c else None)"
| "cstep (ApplyDone i k) c = (if i < length (rafts c) then applier_step i k False c else None)"
| "cstep (Restart i now rnd) c = (if i < length (rafts c) then restart i now rnd c else None)"
| "cstep (KillPeer i) c =
     (if i < length (rafts c) then Some (put_raft i (Kill (rafts c ! i)) c) else None)"
| "cstep (LoopTop i) c = (if i < length (rafts c) then loop_step (LoopTop i) i c else None)"
| "cstep (LeaderBeat i) c = (if i < length (rafts c) then loop_step (LeaderBeat i) i c else None)"
| "cstep (LeaderCommit i) c = (if i < length (rafts c) then loop_step (LeaderCommit i) i c else None)"
| "cstep (FollowerCheck i now) c =
     (if i < length (rafts c) then loop_step (FollowerCheck i now) i c else None)"
| "cstep (FollowerConvert i) c = (if i < length (rafts c) then loop_step (FollowerConvert i) i c else None)"
| "cstep (CandidateTimer i now) c =
     (if i < length (rafts c) then loop_step (CandidateTimer i now) i c else None)"
| "cstep (CandidateWin i) c = (if i < length (rafts c) then loop_step (CandidateWin i) i c else None)"
| "cstep (ElectStart i now) c = (if i < length (rafts c) then loop_step (ElectStart i now) i c else None)"
| "cstep (ElectNext i) c = (if i < length (rafts c) then loop_step (ElectNext i) i c else None)"

fun crun :: "'c event list \<Rightarrow> 'c cluster \<Rightarrow> 'c cluster option" where
  "crun [] c = Some c"
| "crun (ev # evs) c = (case cstep ev c of None \<Rightarrow> None | Some c' \<Rightarrow> crun evs c')"

text \<open>A new cluster of \<open>n\<close> peers, all made at time 0 with empty persisters.\<close>

definition cinit :: "nat \<Rightarrow> 'c cluster res" where
  "cinit n =
     bind_res (fold_res (\<lambda>i rs. bind_res (Make 0 0 n (int i) MakePersister) (\<lambda>rf. Inr (rs @ [rf]))) [0..<n] [])
       (\<lambda>rs. Inr \<lparr>rafts = rs, pcs = replicate n Top, epochs = replicate n 0, net = [],
                  applied = replicate n [], ballots = []\<rparr>)"

inductive creachable :: "nat \<Rightarrow> 'c cluster \<Rightarrow> bool" for n where
  init: "cinit n = Inr c \<Longrightarrow> creachable n c"
| step: "creachable n c \<Longrightarrow> cstep ev c = Some c' \<Longrightarrow> creachable n c'"

lemma crun_reachable: "creachable n c \<Longrightarrow> crun evs c = Some c' \<Longrightarrow> creachable n c'"
  by (induction evs arbitrary: c) (auto split: option.splits intro: creachable.step)

subsection \<open>Two leaders in one term\<close>

definition election :: "nat \<Rightarrow> int \<Rightarrow> nat event list" where
  "election i now = [LoopTop i, FollowerCheck i now, FollowerConvert i, ElectStart i now,
     ElectNext i, ElectNext i, ElectNext i, ElectNext i]"

definition re_election :: "nat \<Rightarrow> int \<Rightarrow> nat event list" where
  "re_election i now = [LoopTop i, CandidateTimer i now, ElectStart i now,
     ElectNext i, ElectNext i, ElectNext i, ElectNext i]"

definition split_vote_run :: "nat event list" where
  "split_vote_run =
     election 2 1000000000 @ [Deliver 1 0, Deliver 1 0] @
     election 0 1000000000 @ re_election 2 2000000000 @ re_election 0 2000000000 @
     [Deliver 1 0, CandidateWin 2, Deliver 5 0, Deliver 6 0, Deliver 6 0, CandidateWin 0]"

definition same_term_leaders :: "'c cluster \<Rightarrow> bool" where
  "same_term_leaders c \<longleftrightarrow>
     (\<exists>i < length (rafts c). \<exists>j < length (rafts c). i \<noteq> j \<and>
        state (rafts c ! i) = Leader \<and> state (rafts c ! j) = Leader \<and>
        currentTerm (rafts c ! i) = currentTerm (rafts c ! j))"

end
