(* ===== verification/Raft_Invariants.thy ===== *)
theory Raft_Invariants
  imports Raft_Cluster
begin

section \<open>Invariants of the cluster\<close>

text \<open>
  What holds in every reachable state of a cluster, under any interleaving, loss, reordering and
  restart: every peer is well formed, its persister holds its persistent fields, messages are well
  formed, and no peer ever votes for two candidates in one of its terms. Each critical section
  changes role, term and vote only in the ways of \<open>rf_step\<close>; the invariant proof needs nothing
  else of the handlers.
\<close>

subsection \<open>How a critical section may change a peer\<close>

definition rf_step :: "'c Raft \<Rightarrow> 'c Raft \<Rightarrow> bool" where
  "rf_step rf rf' \<longleftrightarrow>
     npeers rf' = npeers rf \<and> me rf' = me rf \<and> (state rf' = state rf \<or> state rf' = Follower) \<and>
     (currentTerm rf < currentTerm rf' \<or>
      currentTerm rf' = currentTerm rf \<and> (votedFor rf' = votedFor rf \<or> votedFor rf = -1))"

lemma rf_step_refl [simp]: "rf_step rf rf"
  by (simp add: rf_step_def)

lemma rf_step_persist [simp]: "rf_step rf (persist rf') \<longleftrightarrow> rf_step rf rf'"
  by (simp add: rf_step_def)

lemma rf_step_term: "rf_step rf rf' \<Longrightarrow> currentTerm rf \<le> currentTerm rf'"
  by (auto simp: rf_step_def)

lemma rf_step_newer:
  "currentTerm rf < t \<Longrightarrow> rf_step rf (rf\<lparr>currentTerm := t, state := Follower, votedFor := -1\<rparr>)"
  by (simp add: rf_step_def)

lemma RequestVote_rf_step:
  "log rf \<noteq> [] \<Longrightarrow> RequestVote now rf args = Inr (rf', rep) \<Longrightarrow> rf_step rf rf'"
  by (auto simp: RequestVote_eq rf_step_def vote_result_def grants_def Let_def split: if_splits)

lemma RequestVote_ballot:
  "log rf \<noteq> [] \<Longrightarrow> RequestVote now rf args = Inr (rf', rep) \<Longrightarrow> rvr_VoteGranted rep \<Longrightarrow>
     rvr_Term rep = currentTerm rf' \<and> rv_CandidateId args = votedFor rf'"
  by (auto simp: RequestVote_eq vote_result_def Let_def)

lemma step_down_rf_step: "rf_step rf rf1 \<Longrightarrow> currentTerm rf1 = currentTerm rf \<Longrightarrow> rf_step rf (step_down t rf1)"
  by (auto simp: rf_step_def step_down_def)

lemma AppendEntries_rf_step:
  assumes "peer_wf rf" and "ae_wf args" and "AppendEntries now rf args = Inr (rf', rep)"
  shows "rf_step rf rf'"
proof (cases "ae_Term args < currentTerm rf")
  case True
  then show ?thesis using assms(3) by (auto simp: AppendEntries_stale)
next
  case False
  obtain ap where rf': "rf' = persist ((step_down (ae_Term args)
      (if prev_matches rf args then accept_result rf args else rf))\<lparr>appliers := ap, timestamp := now\<rparr>)"
    using AppendEntries_result [OF assms(1,2) leI [OF False] assms(3)] by metis
  have "rf_step rf (step_down (ae_Term args) (if prev_matches rf args then accept_result rf args else rf))"
    by (rule step_down_rf_step) (simp_all add: rf_step_def)
  then show ?thesis by (simp add: rf' rf_step_def)
qed

lemma sendHearbeat_reply_rf_step:
  "sendHearbeat_reply rf j args rep = Inr rf' \<Longrightarrow> rf_step rf rf'"
  by (auto simp: sendHearbeat_reply_def bind_res_eq_Inr Let_def rf_step_newer
      split: if_splits option.splits) (auto simp: rf_step_def)

lemma startElection_reply_rf_step: "rf_step rf (startElection_reply rf rep)"
  by (auto simp: startElection_reply_def rf_step_def)

lemma Start_append_rf_step:
  "peer_wf rf \<Longrightarrow> Start_append t cmd rf = Inr (rf', i) \<Longrightarrow> rf_step rf rf'"
  by (auto simp: Start_append_ok rf_step_def)

lemma sendHearbeat_commit_rf_step:
  assumes "peer_wf rf" and "sendHearbeat_commit rf = Inr rf'"
  shows "rf_step rf rf'"
  using assms by (cases rule: sendHearbeat_commit_cases) (auto simp: rf_step_def)

subsection \<open>The invariant\<close>

definition pc_ok :: "run_pc \<Rightarrow> 'c Raft \<Rightarrow> bool" where
  "pc_ok pc rf \<longleftrightarrow>
     (case pc of
        Top \<Rightarrow> state rf \<noteq> Follower \<longrightarrow> 1 \<le> currentTerm rf
      | AtFollower \<Rightarrow> state rf = Follower
      | FollowerTimedOut \<Rightarrow> state rf = Follower
      | ElectBegin _ \<Rightarrow> state rf = Leader \<longrightarrow> 1 \<le> currentTerm rf
      | _ \<Rightarrow> 1 \<le> currentTerm rf)"

text \<open>The invariant is relative to lower bounds \<open>lo\<close> of the terms: that every event keeps it for
  every \<open>lo\<close> is what makes terms monotone.\<close>

definition peer_ok :: "(nat \<Rightarrow> int) \<Rightarrow> nat \<Rightarrow> nat \<Rightarrow> run_pc \<Rightarrow> 'c Raft \<Rightarrow> bool" where
  "peer_ok lo n i pc rf \<longleftrightarrow>
     peer_wf rf \<and> saved rf \<and> npeers rf = n \<and> me rf = int i \<and> pc_ok pc rf \<and> lo i \<le> currentTerm rf"

fun msg_ok :: "'c Raft list \<Rightarrow> 'c rpc \<Rightarrow> bool" where
  "msg_ok rs (VoteReq i e j args) = rv_wf (length rs) args"
| "msg_ok rs (BeatReq i e j args) = ae_wf args"
| "msg_ok rs (StartGo i e t cmd) = (1 \<le> t \<and> (i < length rs \<longrightarrow> t \<le> currentTerm (rs ! i)))"
| "msg_ok rs _ = True"

definition ballot_ok :: "'c Raft list \<Rightarrow> nat \<times> int \<times> int \<Rightarrow> bool" where
  "ballot_ok rs b \<longleftrightarrow>
     (case b of (i, t, d) \<Rightarrow> i < length rs \<and> d \<noteq> -1 \<and> t \<le> currentTerm (rs ! i) \<and>
        (t = currentTerm (rs ! i) \<longrightarrow> votedFor (rs ! i) = d))"

definition single_votes :: "(nat \<times> int \<times> int) list \<Rightarrow> bool" where
  "single_votes bs \<longleftrightarrow> (\<forall>i t d d'. (i, t, d) \<in> set bs \<and> (i, t, d') \<in> set bs \<longrightarrow> d = d')"

definition ballots_ok :: "'c Raft list \<Rightarrow> (nat \<times> int \<times> int) list \<Rightarrow> bool" where
  "ballots_ok rs bs \<longleftrightarrow> (\<forall>b \<in> set bs. ballot_ok rs b) \<and> single_votes bs"

definition cluster_inv :: "(nat \<Rightarrow> int) \<Rightarrow> nat \<Rightarrow> 'c cluster \<Rightarrow> bool" where
  "cluster_inv lo n c \<longleftrightarrow>
     length (rafts c) = n \<and> length (pcs c) = n \<and> length (epochs c) = n \<and>
     (\<forall>i < n. peer_ok lo n i (pcs c ! i) (rafts c ! i)) \<and>
     (\<forall>m \<in> set (net c). msg_ok (rafts c) m) \<and> ballots_ok (rafts c) (ballots c)"

lemma pc_ok_rf_step: "pc_ok pc rf \<Longrightarrow> rf_step rf rf' \<Longrightarrow> pc_ok pc rf'"
  by (auto simp: pc_ok_def rf_step_def split: run_pc.splits)

lemma pc_ok_leader: "pc_ok pc rf \<Longrightarrow> state rf = Leader \<Longrightarrow> 1 \<le> currentTerm rf"
  by (cases pc) (auto simp: pc_ok_def)

text \<open>Changing one peer keeps what the invariant says of messages and of ballots.\<close>

lemma msg_ok_update:
  "msg_ok rs m \<Longrightarrow> currentTerm (rs ! i) \<le> currentTerm rf' \<Longrightarrow> msg_ok (rs[i := rf']) m"
  by (cases m) (auto simp: nth_update_if)

lemma ballots_ok_update:
  assumes "ballots_ok rs bs"
    and "currentTerm (rs ! i) < currentTerm rf' \<or>
      currentTerm rf' = currentTerm (rs ! i) \<and> (votedFor rf' = votedFor (rs ! i) \<or> votedFor (rs ! i) = -1)"
  shows "ballots_ok (rs[i := rf']) bs"
proof -
  have "ballot_ok (rs[i := rf']) b" if "ballot_ok rs b" for b
    using that assms(2) by (cases b) (auto simp: ballot_ok_def nth_update_if)
  then show ?thesis using assms(1) by (simp add: ballots_ok_def)
qed

lemma ballots_ok_rf_step: "ballots_ok rs bs \<Longrightarrow> rf_step (rs ! i) rf' \<Longrightarrow> ballots_ok (rs[i := rf']) bs"
  by (rule ballots_ok_update) (auto simp: rf_step_def)

lemma ballots_ok_Cons:
  assumes ok: "ballots_ok rs bs" and "i < length rs" and "votedFor (rs ! i) \<noteq> -1"
  shows "ballots_ok rs ((i, currentTerm (rs ! i), votedFor (rs ! i)) # bs)"
proof -
  have old: "d = votedFor (rs ! i)" if "(i, currentTerm (rs ! i), d) \<in> set bs" for d
    using ok that by (auto simp: ballots_ok_def ballot_ok_def)
  have "single_votes ((i, currentTerm (rs ! i), votedFor (rs ! i)) # bs)"
    using ok old unfolding ballots_ok_def single_votes_def by (metis prod.inject set_ConsD)
  then show ?thesis using assms by (simp add: ballots_ok_def ballot_ok_def)
qed

text \<open>The general step: one peer takes a critical section, messages and ballots are added.\<close>

lemma cluster_invI:
  assumes "length (rafts c) = n" "length (pcs c) = n" "length (epochs c) = n"
    and "\<And>i. i < n \<Longrightarrow> peer_ok lo n i (pcs c ! i) (rafts c ! i)"
    and "\<And>m. m \<in> set (net c) \<Longrightarrow> msg_ok (rafts c) m" and "ballots_ok (rafts c) (ballots c)"
  shows "cluster_inv lo n c"
  using assms by (simp add: cluster_inv_def)

lemma cluster_inv_step:
  assumes inv: "cluster_inv lo n c" and i: "i < n"
    and ok: "peer_ok lo n i pc rf'" and tm: "currentTerm (rafts c ! i) \<le> currentTerm rf'"
    and bal: "ballots_ok ((rafts c)[i := rf']) (ballots c')"
    and c': "rafts c' = (rafts c)[i := rf']" "pcs c' = (pcs c)[i := pc]" "length (epochs c') = n"
    and net: "\<And>m. m \<in> set (net c') \<Longrightarrow> m \<in> set (net c) \<or> msg_ok ((rafts c)[i := rf']) m"
  shows "cluster_inv lo n c'"
proof (rule cluster_invI)
  show "length (rafts c') = n" "length (pcs c') = n" "length (epochs c') = n"
    using inv c' by (simp_all add: cluster_inv_def)
  show "peer_ok lo n k (pcs c' ! k) (rafts c' ! k)" if "k < n" for k
    using that inv ok c' by (auto simp: cluster_inv_def nth_update_if)
  show "msg_ok (rafts c') m" if "m \<in> set (net c')" for m
    using net [OF that] inv msg_ok_update [OF _ tm] by (auto simp: cluster_inv_def c')
  show "ballots_ok (rafts c') (ballots c')" using bal by (simp add: c')
qed


lemma cluster_inv_peer:
  assumes "cluster_inv lo n c" and "i < n"
  shows "peer_wf (rafts c ! i)" "saved (rafts c ! i)" "npeers (rafts c ! i) = n"
    "me (rafts c ! i) = int i" "pc_ok (pcs c ! i) (rafts c ! i)" "log (rafts c ! i) \<noteq> []"
    "0 \<le> currentTerm (rafts c ! i)" "length (rafts c) = n" "lo i \<le> currentTerm (rafts c ! i)"
proof -
  show wf: "peer_wf (rafts c ! i)" "saved (rafts c ! i)" "npeers (rafts c ! i) = n"
    "me (rafts c ! i) = int i" "pc_ok (pcs c ! i) (rafts c ! i)" "length (rafts c) = n" "lo i \<le> currentTerm (rafts c ! i)"
    using assms by (auto simp: cluster_inv_def peer_ok_def)
  show "log (rafts c ! i) \<noteq> []" "0 \<le> currentTerm (rafts c ! i)"
    using wf(1) by (auto simp: peer_wf_def log_wf_def)
qed

text \<open>A critical section outside the main loop: the program point stays.\<close>

lemma cluster_inv_handler:
  assumes inv: "cluster_inv lo n c" and i: "i < n"
    and rs: "rf_step (rafts c ! i) rf'" and wf: "peer_wf rf' \<and> saved rf'"
    and c': "rafts c' = (rafts c)[i := rf']" "pcs c' = pcs c" "epochs c' = epochs c"
    and bal: "ballots c' = ballots c \<or>
      ballots c' = (i, currentTerm rf', votedFor rf') # ballots c \<and> votedFor rf' \<noteq> -1"
    and net: "\<And>m. m \<in> set (net c') \<Longrightarrow> m \<in> set (net c) \<or> msg_ok ((rafts c)[i := rf']) m"
  shows "cluster_inv lo n c'"
proof (rule cluster_inv_step [OF inv i])
  have ok: "ballots_ok ((rafts c)[i := rf']) (ballots c)"
    using inv rs by (auto simp: cluster_inv_def intro: ballots_ok_rf_step)
  show "ballots_ok ((rafts c)[i := rf']) (ballots c')"
    using bal ok ballots_ok_Cons [OF ok, of i] i cluster_inv_peer(8) [OF inv i] by auto
  show "peer_ok lo n i (pcs c ! i) rf'"
    using cluster_inv_peer [OF inv i] wf rs pc_ok_rf_step [OF _ rs] rf_step_term [OF rs] by (simp add: peer_ok_def rf_step_def)
  show "currentTerm (rafts c ! i) \<le> currentTerm rf'" using rs by (rule rf_step_term)
  show "pcs c' = (pcs c)[i := pcs c ! i]" "length (epochs c') = n" 
    using c' inv by (simp_all add: cluster_inv_def)
qed (use c' net in simp_all)

lemma cluster_inv_net:
  assumes "cluster_inv lo n c" and "\<And>m. m \<in> set ms \<Longrightarrow> m \<in> set (net c) \<or> msg_ok (rafts c) m"
  shows "cluster_inv lo n (c\<lparr>net := ms\<rparr>)"
  using assms by (auto simp: cluster_inv_def)

subsection \<open>Every event keeps the invariant\<close>

lemma cluster_inv_loop:
  assumes inv: "cluster_inv lo n c" and i: "i < n" and wf: "peer_wf rf' \<and> saved rf'"
    and pst: "currentTerm rf' = currentTerm (rafts c ! i)" "votedFor rf' = votedFor (rafts c ! i)"
      "npeers rf' = npeers (rafts c ! i)" "me rf' = me (rafts c ! i)"
    and pc: "pc_ok pc rf'"
    and ms: "\<And>m. m \<in> set ms \<Longrightarrow> m \<in> set (net c) \<or> (\<forall>rs. msg_ok rs m)"
  shows "cluster_inv lo n ((set_peer i rf' pc c)\<lparr>net := ms\<rparr>)"
proof (rule cluster_inv_step [OF inv i, where pc = pc and rf' = rf'])
  show "peer_ok lo n i pc rf'"
    using cluster_inv_peer [OF inv i] wf pst pc by (simp add: peer_ok_def)
  have "ballots_ok ((rafts c)[i := rf']) (ballots c)"
    by (rule ballots_ok_update) (use inv pst in \<open>auto simp: cluster_inv_def\<close>)
  then show "ballots_ok ((rafts c)[i := rf']) (ballots ((set_peer i rf' pc c)\<lparr>net := ms\<rparr>))"
    by (simp add: set_peer_def)
  show "m \<in> set (net c) \<or> msg_ok ((rafts c)[i := rf']) m"
    if "m \<in> set (net ((set_peer i rf' pc c)\<lparr>net := ms\<rparr>))" for m
    using ms [of m] that by auto
qed (use pst inv in \<open>simp_all add: set_peer_def cluster_inv_def\<close>)

lemma cluster_inv_loop_same_net:
  assumes "cluster_inv lo n c" and "i < n" and "peer_wf rf' \<and> saved rf'"
    and "currentTerm rf' = currentTerm (rafts c ! i)" "votedFor rf' = votedFor (rafts c ! i)"
      "npeers rf' = npeers (rafts c ! i)" "me rf' = me (rafts c ! i)"
    and "pc_ok pc rf'"
  shows "cluster_inv lo n (set_peer i rf' pc c)"
proof -
  have "(set_peer i rf' pc c)\<lparr>net := net c\<rparr> = set_peer i rf' pc c" by (simp add: set_peer_def)
  then show ?thesis using cluster_inv_loop [OF assms, of "net c"] by simp
qed

lemma cluster_inv_move:
  assumes "cluster_inv lo n c" and "i < n" and "pc_ok pc (rafts c ! i)"
  shows "cluster_inv lo n (set_peer i (rafts c ! i) pc c)"
  using cluster_inv_peer [OF assms(1,2)] assms
  by (intro cluster_inv_loop_same_net) auto

lemma cluster_inv_elect:
  assumes inv: "cluster_inv lo n c" and i: "i < n"
  shows "cluster_inv lo n ((set_peer i (startElection_begin now (rafts c ! i)) (ElectLoop cand 0) c)
    \<lparr>ballots := (i, currentTerm (rafts c ! i) + 1, me (rafts c ! i)) # ballots c\<rparr>)"
proof (rule cluster_inv_step [OF inv i, where pc = "ElectLoop cand 0" and rf' = "startElection_begin now (rafts c ! i)"])
  let ?rf = "startElection_begin now (rafts c ! i)"
  note p = cluster_inv_peer [OF inv i]
  have f: "currentTerm ?rf = currentTerm (rafts c ! i) + 1" "votedFor ?rf = me (rafts c ! i)"
    "npeers ?rf = npeers (rafts c ! i)" "me ?rf = me (rafts c ! i)"
    by (simp_all add: startElection_begin_def)
  show "peer_ok lo n i (ElectLoop cand 0) ?rf"
    using p startElection_begin_wf [OF p(1)] by (simp add: peer_ok_def f pc_ok_def)
  have "ballots_ok ((rafts c)[i := ?rf]) (ballots c)"
    by (rule ballots_ok_update) (use inv f in \<open>auto simp: cluster_inv_def\<close>)
  then show "ballots_ok ((rafts c)[i := ?rf]) (ballots ((set_peer i ?rf (ElectLoop cand 0) c)
    \<lparr>ballots := (i, currentTerm (rafts c ! i) + 1, me (rafts c ! i)) # ballots c\<rparr>))"
    using ballots_ok_Cons [of "(rafts c)[i := ?rf]" "ballots c" i] p i f by simp
qed (use inv i in \<open>simp_all add: set_peer_def cluster_inv_def startElection_begin_def\<close>)

lemma cluster_inv_commit:
  assumes inv: "cluster_inv lo n c" and i: "i < n" and "pcs c ! i = CommitSection"
    and r: "sendHearbeat_commit (rafts c ! i) = Inr rf'"
  shows "cluster_inv lo n (set_peer i rf' Top c)"
proof -
  note p = cluster_inv_peer [OF inv i]
  have "pc_ok Top rf'" if "currentTerm rf' = currentTerm (rafts c ! i)"
    using p(5) that assms(3) by (simp add: pc_ok_def)
  moreover have "currentTerm rf' = currentTerm (rafts c ! i) \<and> votedFor rf' = votedFor (rafts c ! i) \<and>
      npeers rf' = npeers (rafts c ! i) \<and> me rf' = me (rafts c ! i)"
    using p(1) r by (cases rule: sendHearbeat_commit_cases) simp_all
  ultimately show ?thesis
    using sendHearbeat_commit_wf [OF p(1,2) r] by (intro cluster_inv_loop_same_net [OF inv i]) auto
qed

lemma pc_ok_loop:
  assumes "pc_ok pc rf"
  shows "pc = Top \<Longrightarrow> state rf \<noteq> Follower \<Longrightarrow> pc_ok AtLeader rf \<and> pc_ok AtCandidate rf"
    and "pc = Top \<Longrightarrow> state rf = Follower \<Longrightarrow> pc_ok AtFollower rf"
    and "pc = AtLeader \<Longrightarrow> pc_ok CommitSection rf"
    and "pc = AtFollower \<Longrightarrow> pc_ok FollowerTimedOut rf \<and> pc_ok Top rf"
    and "pc = AtCandidate \<Longrightarrow> pc_ok (ElectBegin b) rf \<and> pc_ok CandidateCheck rf"
    and "pc = ElectLoop b j \<Longrightarrow> pc_ok (after_election b) rf \<and> pc_ok (ElectLoop b k) rf"
    and "pc = FollowerTimedOut \<Longrightarrow> pc_ok (ElectBegin b) (runFollower_convert rf)"
    and "pc = CandidateCheck \<Longrightarrow> pc_ok Top (runCandidate_check rf)"
  using assms by (auto simp: pc_ok_def after_election_def runFollower_convert_def runCandidate_check_def)

lemma loop_step_inv:
  assumes inv: "cluster_inv lo n c" and i: "i < n" and st: "loop_step ev i c = Some c'"
  shows "cluster_inv lo n c'"
proof -
  let ?rf = "rafts c ! i"
  note p = cluster_inv_peer [OF inv i]
  note mv = cluster_inv_move [OF inv i] and lp = cluster_inv_loop [OF inv i]
  note pcl = pc_ok_loop [OF p(5)]
  note d = loop_step_def Let_def p(8)
  show ?thesis
  proof (cases "pcs c ! i")
    case Top
    then show ?thesis using st mv pcl(1,2) by (cases ev) (auto simp: d split: if_splits)
  next
    case AtLeader
    have "cluster_inv lo n ((set_peer i ?rf CommitSection c)
        \<lparr>net := net c @ map (\<lambda>j. BeatGo i (epochs c ! i) j) (filter (\<lambda>j. int j \<noteq> me ?rf) [0..<n])\<rparr>)"
      by (rule lp) (use p pcl(3) AtLeader in auto)
    then show ?thesis using st AtLeader by (cases ev) (auto simp: d)
  next
    case CommitSection
    then show ?thesis using st cluster_inv_commit [OF inv i]
      by (cases ev) (auto simp: d split: sum.splits)
  next
    case AtFollower
    then show ?thesis using st mv pcl(4) by (cases ev) (auto simp: d)
  next
    case FollowerTimedOut
    have "cluster_inv lo n (set_peer i (runFollower_convert ?rf) (ElectBegin False) c)"
      by (rule cluster_inv_loop_same_net [OF inv i])
        (use runFollower_convert_wf [OF p(1,2)] pcl(7) FollowerTimedOut in \<open>auto simp: runFollower_convert_def\<close>)
    then show ?thesis using st FollowerTimedOut by (cases ev) (auto simp: d)
  next
    case AtCandidate
    then show ?thesis using st mv pcl(5) by (cases ev) (auto simp: d)
  next
    case CandidateCheck
    have "cluster_inv lo n (set_peer i (runCandidate_check ?rf) Top c)"
      by (rule cluster_inv_loop_same_net [OF inv i])
        (use runCandidate_check_wf [OF p(1,2)] pcl(8) CandidateCheck in \<open>auto simp: runCandidate_check_def\<close>)
    then show ?thesis using st CandidateCheck by (cases ev) (auto simp: d)
  next
    case (ElectBegin cand)
    then show ?thesis using st cluster_inv_elect [OF inv i] by (cases ev) (auto simp: d)
  next
    case (ElectLoop cand j)
    note pcl6 = pcl(6) [OF ElectLoop]
    have "cluster_inv lo n ((set_peer i ?rf (ElectLoop cand (Suc j)) c)\<lparr>net := net c @ [VoteGo i (epochs c ! i) j]\<rparr>)"
      by (rule lp) (use p pcl6 in auto)
    then show ?thesis using st ElectLoop mv pcl6 by (cases ev) (auto simp: d split: if_splits)
  qed
qed

lemma msg_ok_StartGo: "msg_ok rs (StartGo i e t cmd) \<Longrightarrow> i < length rs \<Longrightarrow> 1 \<le> t \<and> t \<le> currentTerm (rs ! i)"
  by simp

lemma deliver_request_inv:
  assumes inv: "cluster_inv lo n c" and j: "j < n"
  shows "rv_wf n args \<Longrightarrow> deliver (VoteReq i e j args) now c = Some c' \<Longrightarrow> cluster_inv lo n c'"
    and "ae_wf aargs \<Longrightarrow> deliver (BeatReq i e j aargs) now c = Some c' \<Longrightarrow> cluster_inv lo n c'"
proof -
  note p = cluster_inv_peer [OF inv j]
  show "cluster_inv lo n c'" if wf: "rv_wf n args" and d: "deliver (VoteReq i e j args) now c = Some c'"
  proof -
    obtain rf' rep where r: "RequestVote now (rafts c ! j) args = Inr (rf', rep)"
      and c': "c' = (put_raft j rf' c)\<lparr>net := net c @ [VoteRep i e j rep],
        ballots := (if rvr_VoteGranted rep then (j, rvr_Term rep, rv_CandidateId args) # ballots c else ballots c)\<rparr>"
      using d by (auto simp: deliver_def Let_def split: if_splits sum.splits)
    have w: "peer_wf rf' \<and> saved rf'" using RequestVote_wf [OF p(1) _ r] wf p(3) by simp
    have v: "rv_CandidateId args \<noteq> -1" using wf by (simp add: rv_wf_def)
    show ?thesis
      by (rule cluster_inv_handler [OF inv j RequestVote_rf_step [OF p(6) r] w])
        (use c' v RequestVote_ballot [OF p(6) r] in \<open>auto simp: put_raft_def\<close>)
  qed
  show "cluster_inv lo n c'" if wf: "ae_wf aargs" and d: "deliver (BeatReq i e j aargs) now c = Some c'"
  proof -
    obtain rf' rep where r: "AppendEntries now (rafts c ! j) aargs = Inr (rf', rep)"
      and c': "c' = (put_raft j rf' c)\<lparr>net := net c @ [BeatRep i e j aargs rep]\<rparr>"
      using d by (auto simp: deliver_def Let_def split: if_splits sum.splits)
    have w: "peer_wf rf' \<and> saved rf'" by (rule AppendEntries_wf [OF p(1) wf r])
    show ?thesis
      by (rule cluster_inv_handler [OF inv j AppendEntries_rf_step [OF p(1) wf r] w])
        (use c' in \<open>auto simp: put_raft_def\<close>)
  qed
qed


lemma deliver_own_inv:
  assumes inv: "cluster_inv lo n c" and d: "deliver m now c = Some c'" and m: "msg_ok (rafts c) m"
    and own: "case m of VoteReq _ _ _ _ \<Rightarrow> False | BeatReq _ _ _ _ \<Rightarrow> False | _ \<Rightarrow> True"
  shows "cluster_inv lo n c'"
proof -
  have len: "length (rafts c) = n" using inv by (simp add: cluster_inv_def)
  have upd: "cluster_inv lo n (put_raft i rf' c)"
    if "i < n" "rf_step (rafts c ! i) rf'" "peer_wf rf' \<and> saved rf'" for i rf'
    by (rule cluster_inv_handler [OF inv that]) (simp_all add: put_raft_def)
  show ?thesis
  proof (cases m)
    case (VoteGo i e j)
    then obtain args where a: "i < n" "startElection_args (rafts c ! i) = Inr args"
        "c' = c\<lparr>net := net c @ [VoteReq i e j args]\<rparr>"
      using d len by (auto simp: deliver_def Let_def split: if_splits sum.splits)
    show ?thesis unfolding a(3)
      by (rule cluster_inv_net [OF inv])
        (use startElection_args_wf [OF _ a(2)] cluster_inv_peer [OF inv a(1)] in auto)
  next
    case (BeatGo i e j)
    then have a: "i < n" "c' = c \<or> (\<exists>args. sendHearbeat_args (rafts c ! i) (int j) = Inr (Some args) \<and>
        c' = c\<lparr>net := net c @ [BeatReq i e j args]\<rparr>)"
      using d len by (auto simp: deliver_def Let_def split: if_splits sum.splits option.splits)
    have "cluster_inv lo n (c\<lparr>net := net c @ [BeatReq i e j args]\<rparr>)"
      if "sendHearbeat_args (rafts c ! i) (int j) = Inr (Some args)" for args
      by (rule cluster_inv_net [OF inv])
        (use sendHearbeat_args_wf [OF _ that] cluster_inv_peer [OF inv a(1)] in auto)
    then show ?thesis using a(2) inv by auto
  next
    case (VoteRep i e j rep)
    then have a: "i < n" "c' = put_raft i (startElection_reply (rafts c ! i) rep) c"
      using d len by (auto simp: deliver_def Let_def split: if_splits)
    show ?thesis unfolding a(2)
      by (rule upd [OF a(1) startElection_reply_rf_step startElection_reply_wf])
        (use cluster_inv_peer [OF inv a(1)] in auto)
  next
    case (BeatRep i e j args rep)
    then obtain rf' where a: "i < n" "sendHearbeat_reply (rafts c ! i) (int j) args rep = Inr rf'"
        "c' = put_raft i rf' c"
      using d len by (auto simp: deliver_def Let_def split: if_splits sum.splits)
    show ?thesis unfolding a(3)
      by (rule upd [OF a(1) sendHearbeat_reply_rf_step [OF a(2)] sendHearbeat_reply_wf [OF _ _ a(2)]])
        (use cluster_inv_peer [OF inv a(1)] in auto)
  next
    case (StartGo i e t cmd)
    then obtain rf' k where a: "i < n" "Start_append t cmd (rafts c ! i) = Inr (rf', k)"
        "c' = put_raft i rf' c"
      using d len by (auto simp: deliver_def Let_def split: if_splits sum.splits)
    have t: "1 \<le> t \<and> t \<le> currentTerm (rafts c ! i)" using m StartGo a(1) len by simp
    note p = cluster_inv_peer [OF inv a(1)]
    show ?thesis unfolding a(3)
      by (rule upd [OF a(1) Start_append_rf_step [OF p(1) a(2)] Start_append_wf [OF p(1) _ _ a(2)]])
        (use t in auto)
  qed (use own in auto)
qed

lemma deliver_inv:
  assumes inv: "cluster_inv lo n c" and d: "deliver m now c = Some c'" and m: "msg_ok (rafts c) m"
  shows "cluster_inv lo n c'"
proof -
  have len: "length (rafts c) = n" using inv by (simp add: cluster_inv_def)
  consider (vote) i e j args where "m = VoteReq i e j args"
    | (beat) i e j args where "m = BeatReq i e j args"
    | (own) "case m of VoteReq _ _ _ _ \<Rightarrow> False | BeatReq _ _ _ _ \<Rightarrow> False | _ \<Rightarrow> True"
    by (cases m) auto
  then show ?thesis
  proof cases
    case vote
    then have "j < n" using d len by (auto simp: deliver_def split: if_splits)
    then show ?thesis using deliver_request_inv(1) [OF inv] m d vote len by auto
  next
    case beat
    then have "j < n" using d len by (auto simp: deliver_def split: if_splits)
    then show ?thesis using deliver_request_inv(2) [OF inv] m d beat by auto
  next
    case own
    then show ?thesis using deliver_own_inv [OF inv d m] by blast
  qed
qed

lemma applier_step_inv:
  assumes inv: "cluster_inv lo n c" and i: "i < n" and st: "applier_step i k b c = Some c'"
  shows "cluster_inv lo n c'"
proof -
  let ?rf = "rafts c ! i"
  note p = cluster_inv_peer [OF inv i]
  have "\<exists>rf' ap. rafts c' = (rafts c)[i := rf'\<lparr>appliers := ap\<rparr>] \<and>
      (rf' = ?rf \<or> (\<exists>a a'. applier_update a ?rf = Some (a', rf')))"
    and c': "pcs c' = pcs c" "epochs c' = epochs c" "net c' = net c" "ballots c' = ballots c"
    using st unfolding applier_step_def Let_def put_raft_def
    by (auto split: if_splits option.splits) blast+
  then obtain rf' ap where r: "rafts c' = (rafts c)[i := rf'\<lparr>appliers := ap\<rparr>]"
    and rf': "rf' = ?rf \<or> (\<exists>a a'. applier_update a ?rf = Some (a', rf'))" by blast
  have "peer_wf rf' \<and> saved rf'" using rf' applier_update_wf [OF p(1,2)] p(1,2) by blast
  then have w: "peer_wf (rf'\<lparr>appliers := ap\<rparr>) \<and> saved (rf'\<lparr>appliers := ap\<rparr>)"
    by (simp add: peer_wf_def saved_def pstate_of_def)
  have "rf_step ?rf rf'" if "applier_update a ?rf = Some (a', rf')" for a a'
    using that by (cases a) (auto simp: rf_step_def)
  then have "rf_step ?rf (rf'\<lparr>appliers := ap\<rparr>)" using rf' by (auto simp: rf_step_def)
  from cluster_inv_handler [OF inv i this w r c'(1,2)] show ?thesis using c'(3,4) by simp
qed

lemma restart_restores:
  assumes inv: "cluster_inv lo n c" and i: "i < n"
  shows "\<exists>rf'. restart i now rnd c =
      Some ((set_peer i rf' Top c)\<lparr>epochs := (epochs c)[i := Suc (epochs c ! i)]\<rparr>) \<and>
    pstate_of rf' = pstate_of (rafts c ! i) \<and> peer_wf rf' \<and> saved rf' \<and> npeers rf' = n \<and> me rf' = int i \<and>
    state rf' = Follower \<and> commitIndex rf' = 0 \<and> lastApplied rf' = 0 \<and>
    nextIndex rf' = replicate n 1 \<and> matchIndex rf' = replicate n 0 \<and> appliers rf' = [] \<and> dead rf' = 0"
proof -
  note p = cluster_inv_peer [OF inv i]
  let ?rf = "(rafts c ! i)\<lparr>persister := kept (persister (rafts c ! i))\<rparr>"
  have rest: "raft_store.restore (persister ?rf) initial_pstate =
      Inr (log (rafts c ! i), currentTerm (rafts c ! i), votedFor (rafts c ! i))"
    using p(2) by (simp add: saved_def pstate_of_def restore_kept)
  have "saved ?rf" "peer_wf ?rf" using p(1,2) rest by (simp_all add: saved_def pstate_of_def peer_wf_def)
  from Make_restores [OF rest, of now rnd n "int i"] Make_saved [OF this, of now rnd]
  show ?thesis
    using p(3,4,8) by (auto simp: restart_def Copy_id pstate_of_def)
qed

lemma restart_inv:
  assumes inv: "cluster_inv lo n c" and i: "i < n" and st: "restart i now rnd c = Some c'"
  shows "cluster_inv lo n c'"
proof -
  note p = cluster_inv_peer [OF inv i]
  obtain rf' where c': "c' = (set_peer i rf' Top c)\<lparr>epochs := (epochs c)[i := Suc (epochs c ! i)]\<rparr>"
    and ps: "pstate_of rf' = pstate_of (rafts c ! i)"
    and w: "peer_wf rf'" "saved rf'" "npeers rf' = n" "me rf' = int i" "state rf' = Follower"
    using restart_restores [OF inv i, of now rnd] st by auto
  have tv: "currentTerm rf' = currentTerm (rafts c ! i)" "votedFor rf' = votedFor (rafts c ! i)"
    using ps by (simp_all add: pstate_of_def)
  have ok: "peer_ok lo n i Top rf'" using w tv p(9) by (simp add: peer_ok_def pc_ok_def)
  have bal: "ballots_ok ((rafts c)[i := rf']) (ballots c)"
    by (rule ballots_ok_update) (use inv tv in \<open>auto simp: cluster_inv_def\<close>)
  show ?thesis
    by (rule cluster_inv_step [OF inv i ok])
      (use tv bal c' inv in \<open>auto simp: set_peer_def cluster_inv_def\<close>)
qed

lemma set_remove_nth: "set (remove_nth k xs) \<subseteq> set xs"
  by (auto simp: remove_nth_def dest: in_set_takeD in_set_dropD)

lemma cluster_inv_remove: "cluster_inv lo n c \<Longrightarrow> cluster_inv lo n (c\<lparr>net := remove_nth k (net c)\<rparr>)"
  by (rule cluster_inv_net) (auto dest: subsetD [OF set_remove_nth])

lemma StartCall_inv:
  assumes inv: "cluster_inv lo n c" and i: "i < n" and l: "state (rafts c ! i) = Leader"
  shows "cluster_inv lo n (c\<lparr>net := net c @ [StartGo i e (currentTerm (rafts c ! i)) cmd]\<rparr>)"
  by (rule cluster_inv_net [OF inv])
    (use pc_ok_leader [OF cluster_inv_peer(5) [OF inv i] l] in auto)

lemma Kill_inv:
  assumes inv: "cluster_inv lo n c" and i: "i < n"
  shows "cluster_inv lo n (put_raft i (Kill (rafts c ! i)) c)"
proof (rule cluster_inv_handler [OF inv i])
  show "peer_wf (Kill (rafts c ! i)) \<and> saved (Kill (rafts c ! i))"
    using cluster_inv_peer(1,2) [OF inv i] by (simp add: Kill_def peer_wf_def saved_def pstate_of_def)
qed (simp_all add: put_raft_def rf_step_def Kill_def)

lemma cstep_inv:
  assumes inv: "cluster_inv lo n c" and st: "cstep ev c = Some c'"
  shows "cluster_inv lo n c'"
proof -
  have len: "length (rafts c) = n" using inv by (simp add: cluster_inv_def)
  note loop = loop_step_inv [OF inv]
  show ?thesis
  proof (cases ev)
    case (Deliver k now)
    then have k: "k < length (net c)" "deliver (net c ! k) now (c\<lparr>net := remove_nth k (net c)\<rparr>) = Some c'"
      using st by (auto split: if_splits)
    have "msg_ok (rafts c) (net c ! k)" using inv k(1) by (simp add: cluster_inv_def)
    then show ?thesis using deliver_inv [OF cluster_inv_remove [OF inv] k(2)] by simp
  next
    case (Drop k)
    then show ?thesis using st cluster_inv_remove [OF inv] by (auto split: if_splits)
  next
    case (StartCall i cmd)
    then show ?thesis using st StartCall_inv [OF inv] inv len
      by (auto simp: GetState_def Let_def split: if_splits)
  next
    case (Restart i now rnd)
    then show ?thesis using st restart_inv [OF inv] len by (auto split: if_splits)
  next
    case (KillPeer i)
    then show ?thesis using st Kill_inv [OF inv] len by (auto split: if_splits)
  next
    case (ApplySend i k)
    then show ?thesis using st applier_step_inv [OF inv] len by (auto split: if_splits)
  next
    case (ApplyDone i k)
    then show ?thesis using st applier_step_inv [OF inv] len by (auto split: if_splits)
  qed (use st loop len in \<open>auto split: if_splits\<close>)
qed

lemma cinit_fold:
  fixes rs0 :: "'c Raft list"
  shows "k \<le> n \<Longrightarrow> \<exists>rs. fold_res (\<lambda>i rs. bind_res (Make 0 0 n (int i) MakePersister) (\<lambda>rf. Inr (rs @ [rf])))
     [j..<k] rs0 = Inr (rs0 @ rs) \<and> length rs = k - j \<and>
     (\<forall>i < length rs. peer_ok (\<lambda>_. 0) n (j + i) Top (rs ! i) \<and> state (rs ! i) = Follower)"
proof (induction "k - j" arbitrary: j rs0)
  case 0
  then show ?case by simp
next
  case (Suc d)
  then have j: "j < k" "j < n" and d: "d = k - Suc j" by auto
  obtain rf :: "'c Raft" where rf: "Make 0 0 n (int j) MakePersister = Inr rf" "peer_wf rf" "saved rf"
      "npeers rf = n" "me rf = int j" "state rf = Follower"
    using Make_fresh [OF j(2), of 0 0] by (auto simp: Make_def readPersist_def)
  obtain rs where rs: "fold_res (\<lambda>i rs. bind_res (Make 0 0 n (int i) MakePersister) (\<lambda>rf. Inr (rs @ [rf])))
     [Suc j..<k] (rs0 @ [rf]) = Inr ((rs0 @ [rf]) @ rs)" "length rs = k - Suc j"
     "\<forall>i < length rs. peer_ok (\<lambda>_. 0) n (Suc j + i) Top (rs ! i) \<and> state (rs ! i) = Follower"
    using Suc.hyps(1) [OF d Suc.prems, of "rs0 @ [rf]"] by blast
  have "peer_ok (\<lambda>_. 0) n (j + i) Top ((rf # rs) ! i) \<and> state ((rf # rs) ! i) = Follower"
    if "i < length (rf # rs)" for i
    using that rs(3) rf by (cases i) (auto simp: peer_ok_def pc_ok_def peer_wf_def)
  then show ?case using j rf(1) rs(1,2)
    by (intro exI [of _ "rf # rs"]) (auto simp: upt_conv_Cons)
qed

lemma cinit_ok: "\<exists>c :: 'c cluster. cinit n = Inr c \<and> cluster_inv (\<lambda>_. 0) n c"
proof -
  obtain rs :: "'c Raft list" where rs: "fold_res (\<lambda>i rs. bind_res (Make 0 0 n (int i) MakePersister) (\<lambda>rf. Inr (rs @ [rf])))
     [0..<n] [] = Inr ([] @ rs)" "length rs = n" "\<forall>i < length rs. peer_ok (\<lambda>_. 0) n (0 + i) Top (rs ! i)"
    using cinit_fold [OF le_refl, of n 0 "[]"] by fastforce
  then show ?thesis
    by (simp add: cinit_def cluster_inv_def ballots_ok_def single_votes_def)
qed

lemma creachable_inv: "creachable n c \<Longrightarrow> cluster_inv (\<lambda>_. 0) n c"
proof (induction rule: creachable.induct)
  case (init c)
  then show ?case using cinit_ok [of n, where 'c = 'a] by auto
next
  case (step c ev c')
  then show ?case using cstep_inv by blast
qed


lemma cluster_inv_terms: "cluster_inv lo n c \<Longrightarrow> cluster_inv (\<lambda>i. currentTerm (rafts c ! i)) n c"
  by (simp add: cluster_inv_def peer_ok_def)

lemma crun_inv: "cluster_inv lo n c \<Longrightarrow> crun evs c = Some c' \<Longrightarrow> cluster_inv lo n c'"
  by (induction evs arbitrary: c) (auto split: option.splits dest: cstep_inv)

end
