(* ===== verification/Raft_Safety.thy ===== *)
theory Raft_Safety
  imports Raft_Invariants
begin

section \<open>What every run of a cluster guarantees, and what it does not\<close>

text \<open>
  Properties of all reachable states of the cluster of theory \<open>Raft_Cluster\<close>, with runs of
  three peers as witnesses, and a run that elects two leaders of the same term.
\<close>

definition three_peers :: "nat cluster" where
  "three_peers = projr (cinit 3)"

lemma three_peers_reachable: "creachable 3 three_peers"
  using cinit_ok [of 3, where 'c = nat] by (auto simp: three_peers_def intro: creachable.init)

text \<open>Peer 2 starts an election and peer 0 votes for it.\<close>

definition first_vote_run :: "nat event list" where
  "first_vote_run = election 2 1000000000 @ [Deliver 0 0, Deliver 1 0]"

definition first_vote :: "nat cluster" where
  "first_vote = the (crun first_vote_run three_peers)"

lemma first_vote_run_ok: "crun first_vote_run three_peers \<noteq> None"
  by code_simp


lemma first_vote_reachable: "creachable 3 first_vote"
  using first_vote_run_ok crun_reachable [OF three_peers_reachable] by (auto simp: first_vote_def)

lemma first_vote_values:
  "(map currentTerm (rafts first_vote), map votedFor (rafts first_vote), ballots first_vote) =
     ([1, 0, 1], [2, -1, 2], [(0, 1, 2), (2, 1, 2)])"
  by code_simp

text \<open>
  C7: Invariant of the cluster. In every state a cluster of peers can reach, through elections,
  heartbeats, lost and reordered messages, client commands, applier goroutines, kills and restarts
  in any order, every peer is well formed (entries numbered by their position, terms sorted and at
  most the current term, index vectors of the cluster's size) and its persister holds exactly its
  current log, term and vote, so that a crash at any moment loses none of them.
\<close>

theorem cluster_peers_durable:
  assumes "creachable n c" and "i < n"
  shows "peer_wf (rafts c ! i) \<and> saved (rafts c ! i)"
  using cluster_inv_peer(1,2) [OF creachable_inv [OF assms(1)] assms(2)] by simp

theorem cluster_peers_durable_witness: "peer_wf (rafts first_vote ! 0) \<and> saved (rafts first_vote ! 0)"
  by (rule cluster_peers_durable [OF first_vote_reachable]) simp

text \<open>
  C6: One vote per term, across crashes. Along every run of the cluster no peer gives its vote (a
  granted \<open>RequestVote\<close> or its own candidacy) to two different candidates while it is in one
  term, whatever messages are lost or reordered and whenever peers restart from their persisters.
\<close>

theorem cluster_one_vote_per_term:
  assumes "creachable n c" and "(i, t, d) \<in> set (ballots c)" and "(i, t, d') \<in> set (ballots c)"
  shows "d = d'"
  using creachable_inv [OF assms(1)] assms(2,3)
  unfolding cluster_inv_def ballots_ok_def single_votes_def by blast

theorem cluster_one_vote_per_term_witness:
  "(0, 1, 2) \<in> set (ballots first_vote) \<and> (\<forall>d. (0, 1, d) \<in> set (ballots first_vote) \<longleftrightarrow> d = 2)"
  using cluster_one_vote_per_term [OF first_vote_reachable, of 0 1 2] first_vote_values by auto

text \<open>
  Terms never go back. Along any run, restarts included, the current term of every peer is
  non-decreasing.
\<close>

theorem cluster_terms_monotone:
  assumes "creachable n c" and "crun evs c = Some c'" and "i < n"
  shows "currentTerm (rafts c ! i) \<le> currentTerm (rafts c' ! i)"
proof -
  have "cluster_inv (\<lambda>i. currentTerm (rafts c ! i)) n c'"
    using crun_inv [OF cluster_inv_terms assms(2)] creachable_inv [OF assms(1)] by blast
  then show ?thesis using cluster_inv_peer(9) assms(3) by blast
qed

theorem cluster_terms_monotone_witness:
  "currentTerm (rafts three_peers ! 2) \<le> currentTerm (rafts first_vote ! 2)"
proof (rule cluster_terms_monotone [OF three_peers_reachable])
  show "crun first_vote_run three_peers = Some first_vote"
    using first_vote_run_ok by (auto simp: first_vote_def)
qed simp

text \<open>
  Recovery. In any reachable state any peer can crash and restart: \<open>Make\<close> does not panic on
  its persister, the new instance has the log, the term and the vote of the old one, its volatile
  fields (role, commit index, applied index, next and match indices) are the initial ones, and the
  other peers and the messages in flight are untouched.
\<close>

theorem cluster_restart_recovers:
  assumes "creachable n c" and "i < n"
  shows "\<exists>c' rf'. cstep (Restart i now rnd) c = Some c' \<and> rafts c' = (rafts c)[i := rf'] \<and> net c' = net c \<and>
    log rf' = log (rafts c ! i) \<and> currentTerm rf' = currentTerm (rafts c ! i) \<and>
    votedFor rf' = votedFor (rafts c ! i) \<and> state rf' = Follower \<and> commitIndex rf' = 0 \<and>
    lastApplied rf' = 0 \<and> nextIndex rf' = replicate n 1 \<and> matchIndex rf' = replicate n 0"
proof -
  note inv = creachable_inv [OF assms(1)]
  obtain rf' where "restart i now rnd c =
      Some ((set_peer i rf' Top c)\<lparr>epochs := (epochs c)[i := Suc (epochs c ! i)]\<rparr>)"
    and "pstate_of rf' = pstate_of (rafts c ! i)" "state rf' = Follower" "commitIndex rf' = 0"
      "lastApplied rf' = 0" "nextIndex rf' = replicate n 1" "matchIndex rf' = replicate n 0"
    using restart_restores [OF inv assms(2)] by metis
  then show ?thesis
    using assms(2) cluster_inv_peer(8) [OF inv assms(2)]
    by (intro exI [of _ "(set_peer i rf' Top c)\<lparr>epochs := (epochs c)[i := Suc (epochs c ! i)]\<rparr>"] exI [of _ rf'])
      (simp add: set_peer_def pstate_of_def)
qed

theorem cluster_restart_recovers_witness:
  "\<exists>c' rf'. cstep (Restart 0 0 0) first_vote = Some c' \<and> rafts c' = (rafts first_vote)[0 := rf'] \<and>
     currentTerm rf' = 1 \<and> votedFor rf' = 2 \<and> state rf' = Follower"
proof -
  have "currentTerm (rafts first_vote ! 0) = 1 \<and> votedFor (rafts first_vote ! 0) = 2"
    by code_simp
  then show ?thesis
    using cluster_restart_recovers [OF first_vote_reachable, of 0 0 0] by auto
qed

text \<open>
  C8: Election safety can fail. A cluster of three peers can reach a state with two leaders of the
  same term: \<open>startElection\<close> counts a granted vote without looking at the term of the reply, so
  a vote that peer 1 gave peer 2 in term 1 and that is delivered late makes peer 2 leader of term 2,
  in which peer 1 has voted for peer 0.
\<close>

theorem two_leaders_in_one_term: "\<exists>c :: nat cluster. creachable 3 c \<and> same_term_leaders c"
proof -
  have "case crun split_vote_run three_peers of None \<Rightarrow> False | Some c \<Rightarrow> same_term_leaders c"
    by code_simp
  then obtain c where "crun split_vote_run three_peers = Some c" "same_term_leaders c"
    by (auto split: option.splits)
  then show ?thesis using crun_reachable [OF three_peers_reachable] by blast
qed

end
