(* ===== verification/Labrpc.thy ===== *)
theory Labrpc
  imports Go_Prelude
begin

section \<open>The simulated network (labrpc/labrpc.go)\<close>

text \<open>
  Client ends, servers and services, the network operations of the test harness, and the life of one
  request in \<open>processReq\<close>. Names of ends and servers are of types \<open>'e\<close> and \<open>'n\<close>, nil being
  \<open>None\<close>; a pointer to a server is a number. Receivers live in a world \<open>'w\<close> on which the
  methods act; arguments and replies are of types \<open>'a\<close> and \<open>'r\<close> and travel as bytes, through the
  encoding and decoding functions \<open>enc\<close> and \<open>dec\<close> that stand for \<open>labgob\<close>. Random
  numbers are arguments.
\<close>

record 'e reqMsg =
  req_endname :: 'e
  svcMeth :: string
  req_args :: string

record replyMsg =
  rep_ok :: bool
  reply :: string

abbreviation (input) no_reply :: replyMsg where "no_reply \<equiv> \<lparr>rep_ok = False, reply = []\<rparr>"

subsection \<open>Services and servers\<close>

type_synonym ('a, 'r, 'w) func = "'a \<Rightarrow> 'w \<Rightarrow> 'r \<times> 'w"

text \<open>What \<open>reflect\<close> says of a method.\<close>

record ('a, 'r, 'w) method_info =
  m_name :: string
  PkgPath :: string
  NumIn :: int
  In2_is_Ptr :: bool
  NumOut :: int
  Func :: "('a, 'r, 'w) func"

record ('a, 'r, 'w) Service =
  svc_name :: string
  methods :: "string \<Rightarrow> ('a, 'r, 'w) func option"

definition MakeService :: "string \<Rightarrow> ('a, 'r, 'w) method_info list \<Rightarrow> ('a, 'r, 'w) Service" where
  "MakeService tname ms =
     \<lparr>svc_name = tname,
      methods = fold (\<lambda>m acc.
        if PkgPath m \<noteq> '''' \<or> NumIn m \<noteq> 3 \<or> \<not> In2_is_Ptr m \<or> NumOut m \<noteq> 0 then acc
        else acc(m_name m \<mapsto> Func m)) ms (\<lambda>_. None)\<rparr>"

definition Service_dispatch :: "(string \<Rightarrow> 'a) \<Rightarrow> ('r \<Rightarrow> string) \<Rightarrow> ('a, 'r, 'w) Service \<Rightarrow> string \<Rightarrow> 'e reqMsg \<Rightarrow> 'w \<Rightarrow>
  (replyMsg \<times> 'w) res" where
  "Service_dispatch dec enc svc methname req w =
     (case methods svc methname of
        Some f \<Rightarrow> (let args = dec (req_args req); (replyv, w') = f args w
                   in Inr (\<lparr>rep_ok = True, reply = enc replyv\<rparr>, w'))
      | None \<Rightarrow> Inl (LogFatal ''labrpc.Service.dispatch(): unknown method''))"

record ('a, 'r, 'w) Server =
  services :: "string \<Rightarrow> ('a, 'r, 'w) Service option"
  srv_count :: int

definition MakeServer :: "('a, 'r, 'w) Server" where
  "MakeServer = \<lparr>services = (\<lambda>_. None), srv_count = 0\<rparr>"

definition AddService :: "('a, 'r, 'w) Service \<Rightarrow> ('a, 'r, 'w) Server \<Rightarrow> ('a, 'r, 'w) Server" where
  "AddService svc rs = rs\<lparr>services := (services rs)(svc_name svc \<mapsto> svc)\<rparr>"

text \<open>\<open>strings.LastIndex(s, ".")\<close>\<close>

definition LastIndex :: "string \<Rightarrow> int" where
  "LastIndex s =
     (if CHR ''.'' \<in> set s then go_len s - 1 - int (length (takeWhile (\<lambda>c. c \<noteq> CHR ''.'') (rev s))) else -1)"

definition Server_dispatch :: "(string \<Rightarrow> 'a) \<Rightarrow> ('r \<Rightarrow> string) \<Rightarrow> ('a, 'r, 'w) Server \<Rightarrow> 'e reqMsg \<Rightarrow> 'w \<Rightarrow>
  (replyMsg \<times> ('a, 'r, 'w) Server \<times> 'w) res" where
  "Server_dispatch dec enc rs req w =
     (let rs' = rs\<lparr>srv_count := srv_count rs + 1\<rparr>; dot = LastIndex (svcMeth req) in
      bind_res (go_slice_to (svcMeth req) dot) (\<lambda>serviceName.
      bind_res (go_slice_from (svcMeth req) (dot + 1)) (\<lambda>methodName.
        case services rs' serviceName of
          Some service \<Rightarrow> bind_res (Service_dispatch dec enc service methodName req w) (\<lambda>(r, w'). Inr (r, rs', w'))
        | None \<Rightarrow> Inl (LogFatal ''labrpc.Server.dispatch(): unknown service''))))"

definition Server_GetCount :: "('a, 'r, 'w) Server \<Rightarrow> int" where
  "Server_GetCount rs = srv_count rs"

subsection \<open>The network\<close>

record ('e, 'n) Network =
  reliable :: bool
  longDelays :: bool
  longReordering :: bool
  ends :: "'e set"
  enabled :: "'e \<Rightarrow> bool"
  servers :: "'n \<Rightarrow> nat option"
  connections :: "'e \<Rightarrow> 'n option"
  net_count :: "32 word"
  net_bytes :: "64 word"
  net_done :: bool

definition MakeNetwork :: "('e, 'n) Network" where
  "MakeNetwork =
     \<lparr>reliable = True, longDelays = False, longReordering = False, ends = {}, enabled = (\<lambda>_. False),
      servers = (\<lambda>_. None), connections = (\<lambda>_. None), net_count = 0, net_bytes = 0, net_done = False\<rparr>"

text \<open>The goroutine of \<open>MakeNetwork\<close> takes a request from \<open>endCh\<close> and starts \<open>processReq\<close>.\<close>

definition take_request :: "'e reqMsg \<Rightarrow> ('e, 'n) Network \<Rightarrow> ('e, 'n) Network" where
  "take_request xreq rn =
     rn\<lparr>net_count := net_count rn + 1, net_bytes := net_bytes rn + of_nat (length (req_args xreq))\<rparr>"

definition Cleanup :: "('e, 'n) Network \<Rightarrow> ('e, 'n) Network res" where
  "Cleanup rn = (if net_done rn then Inl (Panic ''close of closed channel'') else Inr (rn\<lparr>net_done := True\<rparr>))"

definition Reliable :: "bool \<Rightarrow> ('e, 'n) Network \<Rightarrow> ('e, 'n) Network" where
  "Reliable yes rn = rn\<lparr>reliable := yes\<rparr>"

definition LongReordering :: "bool \<Rightarrow> ('e, 'n) Network \<Rightarrow> ('e, 'n) Network" where
  "LongReordering yes rn = rn\<lparr>longReordering := yes\<rparr>"

definition LongDelays :: "bool \<Rightarrow> ('e, 'n) Network \<Rightarrow> ('e, 'n) Network" where
  "LongDelays yes rn = rn\<lparr>longDelays := yes\<rparr>"

definition readEndnameInfo :: "'e \<Rightarrow> ('e, 'n) Network \<Rightarrow> bool \<times> 'n option \<times> nat option \<times> bool \<times> bool" where
  "readEndnameInfo endname rn =
     (enabled rn endname, connections rn endname,
      (case connections rn endname of None \<Rightarrow> None | Some servername \<Rightarrow> servers rn servername),
      reliable rn, longReordering rn)"

definition isServerDead :: "'e \<Rightarrow> 'n \<Rightarrow> nat \<Rightarrow> ('e, 'n) Network \<Rightarrow> bool" where
  "isServerDead endname servername server rn \<longleftrightarrow>
     enabled rn endname = False \<or> servers rn servername \<noteq> Some server"

definition MakeEnd :: "'e \<Rightarrow> ('e, 'n) Network \<Rightarrow> ('e, 'n) Network res" where
  "MakeEnd endname rn =
     (if endname \<in> ends rn then Inl (LogFatal ''MakeEnd: already exists'')
      else Inr (rn\<lparr>ends := insert endname (ends rn), enabled := (enabled rn)(endname := False),
                   connections := (connections rn)(endname := None)\<rparr>))"

definition AddServer :: "'n \<Rightarrow> nat \<Rightarrow> ('e, 'n) Network \<Rightarrow> ('e, 'n) Network" where
  "AddServer servername rs rn = rn\<lparr>servers := (servers rn)(servername := Some rs)\<rparr>"

definition DeleteServer :: "'n \<Rightarrow> ('e, 'n) Network \<Rightarrow> ('e, 'n) Network" where
  "DeleteServer servername rn = rn\<lparr>servers := (servers rn)(servername := None)\<rparr>"

definition Connect :: "'e \<Rightarrow> 'n \<Rightarrow> ('e, 'n) Network \<Rightarrow> ('e, 'n) Network" where
  "Connect endname servername rn = rn\<lparr>connections := (connections rn)(endname := Some servername)\<rparr>"

definition Enable :: "'e \<Rightarrow> bool \<Rightarrow> ('e, 'n) Network \<Rightarrow> ('e, 'n) Network" where
  "Enable endname e rn = rn\<lparr>enabled := (enabled rn)(endname := e)\<rparr>"

definition GetCount :: "'n \<Rightarrow> (nat \<Rightarrow> ('a, 'r, 'w) Server) \<Rightarrow> ('e, 'n) Network \<Rightarrow> int res" where
  "GetCount servername heap rn =
     (case servers rn servername of None \<Rightarrow> Inl NilDereference | Some p \<Rightarrow> Inr (Server_GetCount (heap p)))"

definition GetTotalCount :: "('e, 'n) Network \<Rightarrow> int" where
  "GetTotalCount rn = sint (net_count rn)"

definition GetTotalBytes :: "('e, 'n) Network \<Rightarrow> int" where
  "GetTotalBytes rn = sint (net_bytes rn)"

subsection \<open>The life of a request\<close>

text \<open>
  Where \<open>processReq\<close> is: at its beginning; before the request is given to the server; in the loop
  that waits for the handler; after the loop, with the reply or without; and at the send on the
  reply channel, which a timer may delay. The handler runs in a goroutine of its own, which is not
  stopped when the server is found dead.
\<close>

datatype 'n ppoint =
    PRead
  | PSend 'n nat bool bool
  | PWait 'n nat bool bool
  | PDecide 'n nat bool bool "replyMsg option"
  | PLate replyMsg
  | PReplied replyMsg

datatype hpoint = HNone | HRunning nat | HDone replyMsg

text \<open>The state: the network, the servers, the world, the two goroutines, and as a history variable
  the executions of the handler.\<close>

record ('e, 'n, 'a, 'r, 'w) rpc =
  net :: "('e, 'n) Network"
  heap :: "nat \<Rightarrow> ('a, 'r, 'w) Server"
  world :: 'w
  point :: "'n ppoint"
  handler :: hpoint
  executed :: "(nat \<times> replyMsg) list"

datatype paction = Read | Send nat | Handle | Receive | Timer | Decide nat nat | Deliver

fun processReq_step :: "(string \<Rightarrow> 'a) \<Rightarrow> ('r \<Rightarrow> string) \<Rightarrow> 'e reqMsg \<Rightarrow> paction \<Rightarrow> ('e, 'n, 'a, 'r, 'w) rpc \<Rightarrow>
  ('e, 'n, 'a, 'r, 'w) rpc res option" where
  "processReq_step dec enc req Read s =
     (case point s of
        PRead \<Rightarrow>
          (case readEndnameInfo (req_endname req) (net s) of
             (True, Some servername, Some server, rel, lreo) \<Rightarrow> Some (Inr (s\<lparr>point := PSend servername server rel lreo\<rparr>))
           | _ \<Rightarrow> Some (Inr (s\<lparr>point := PLate no_reply\<rparr>)))
      | _ \<Rightarrow> None)"
| "processReq_step dec enc req (Send rnd) s =
     (case point s of
        PSend n p rel lreo \<Rightarrow>
          if rel = False \<and> rnd mod 1000 < 100 then Some (Inr (s\<lparr>point := PReplied no_reply\<rparr>))
          else Some (Inr (s\<lparr>point := PWait n p rel lreo, handler := HRunning p\<rparr>))
      | _ \<Rightarrow> None)"
| "processReq_step dec enc req Handle s =
     (case handler s of
        HRunning p \<Rightarrow>
          Some (bind_res (Server_dispatch dec enc (heap s p) req (world s)) (\<lambda>(r, rs', w').
            Inr (s\<lparr>heap := (heap s)(p := rs'), world := w', handler := HDone r, executed := executed s @ [(p, r)]\<rparr>)))
      | _ \<Rightarrow> None)"
| "processReq_step dec enc req Receive s =
     (case (point s, handler s) of
        (PWait n p rel lreo, HDone r) \<Rightarrow> Some (Inr (s\<lparr>point := PDecide n p rel lreo (Some r)\<rparr>))
      | _ \<Rightarrow> None)"
| "processReq_step dec enc req Timer s =
     (case point s of
        PWait n p rel lreo \<Rightarrow>
          if isServerDead (req_endname req) n p (net s) then Some (Inr (s\<lparr>point := PDecide n p rel lreo None\<rparr>))
          else Some (Inr s)
      | _ \<Rightarrow> None)"
| "processReq_step dec enc req (Decide rnd1 rnd2) s =
     (case point s of
        PDecide n p rel lreo got \<Rightarrow>
          (let serverDead = isServerDead (req_endname req) n p (net s) in
           case got of
             None \<Rightarrow> Some (Inr (s\<lparr>point := PReplied no_reply\<rparr>))
           | Some r \<Rightarrow>
               if serverDead then Some (Inr (s\<lparr>point := PReplied no_reply\<rparr>))
               else if rel = False \<and> rnd1 mod 1000 < 100 then Some (Inr (s\<lparr>point := PReplied no_reply\<rparr>))
               else if lreo \<and> rnd2 mod 900 < 600 then Some (Inr (s\<lparr>point := PLate r\<rparr>))
               else Some (Inr (s\<lparr>net := (net s)\<lparr>net_bytes := net_bytes (net s) + of_nat (length (reply r))\<rparr>, point := PReplied r\<rparr>)))
      | _ \<Rightarrow> None)"
| "processReq_step dec enc req Deliver s =
     (case point s of
        PLate r \<Rightarrow> Some (Inr (s\<lparr>net := (net s)\<lparr>net_bytes := net_bytes (net s) + of_nat (length (reply r))\<rparr>, point := PReplied r\<rparr>))
      | _ \<Rightarrow> None)"

text \<open>What \<open>Call\<close> returns once the reply is there: nothing when no reply came, or the decoded reply.\<close>

definition Call_result :: "(string \<Rightarrow> 'v option) \<Rightarrow> replyMsg \<Rightarrow> 'v option res" where
  "Call_result decr rep =
     (if rep_ok rep then (case decr (reply rep) of None \<Rightarrow> Inl (LogFatal ''ClientEnd.Call(): decode reply'') | Some v \<Rightarrow> Inr (Some v))
      else Inr None)"

text \<open>Everything that can happen while a request is under way: its own steps, and whatever the rest
  of the system does to the network, the servers and the world.\<close>

definition rpc_start :: "('e, 'n) Network \<Rightarrow> (nat \<Rightarrow> ('a, 'r, 'w) Server) \<Rightarrow> 'w \<Rightarrow> ('e, 'n, 'a, 'r, 'w) rpc" where
  "rpc_start rn hp w = \<lparr>net = rn, heap = hp, world = w, point = PRead, handler = HNone, executed = []\<rparr>"

inductive rpc_run :: "(('e, 'n) Network \<Rightarrow> bool) \<Rightarrow> (string \<Rightarrow> 'a) \<Rightarrow> ('r \<Rightarrow> string) \<Rightarrow> 'e reqMsg \<Rightarrow>
    ('e, 'n, 'a, 'r, 'w) rpc \<Rightarrow> ('e, 'n, 'a, 'r, 'w) rpc \<Rightarrow> bool"
  for Q dec enc req s0 where
  start: "rpc_run Q dec enc req s0 s0"
| own: "rpc_run Q dec enc req s0 s \<Longrightarrow> processReq_step dec enc req act s = Some (Inr s') \<Longrightarrow> rpc_run Q dec enc req s0 s'"
| others: "rpc_run Q dec enc req s0 s \<Longrightarrow> Q rn \<Longrightarrow> rpc_run Q dec enc req s0 (s\<lparr>net := rn, heap := hp, world := w\<rparr>)"

text \<open>A fixed sequence of own steps.\<close>

fun processReq_steps :: "(string \<Rightarrow> 'a) \<Rightarrow> ('r \<Rightarrow> string) \<Rightarrow> 'e reqMsg \<Rightarrow> paction list \<Rightarrow> ('e, 'n, 'a, 'r, 'w) rpc \<Rightarrow>
  ('e, 'n, 'a, 'r, 'w) rpc res option" where
  "processReq_steps dec enc req [] s = Some (Inr s)"
| "processReq_steps dec enc req (act # acts) s =
     (case processReq_step dec enc req act s of
        Some (Inr s') \<Rightarrow> processReq_steps dec enc req acts s'
      | r \<Rightarrow> r)"

subsection \<open>Invariant of a request\<close>

definition rpc_inv :: "('e, 'n, 'a, 'r, 'w) rpc \<Rightarrow> bool" where
  "rpc_inv s \<longleftrightarrow>
     (case handler s of
        HNone \<Rightarrow> executed s = [] \<and> (point s = PRead \<or> (\<exists>n p a b. point s = PSend n p a b) \<or> point s = PLate no_reply \<or> point s = PReplied no_reply)
      | HRunning p \<Rightarrow> executed s = [] \<and> ((\<exists>n a b. point s = PWait n p a b) \<or> (\<exists>n a b. point s = PDecide n p a b None) \<or> point s = PReplied no_reply)
      | HDone r \<Rightarrow> (\<exists>p. executed s = [(p, r)] \<and>
          ((\<exists>n a b. point s = PWait n p a b) \<or> (\<exists>n a b got. point s = PDecide n p a b got \<and> (got = None \<or> got = Some r)) \<or>
           point s = PLate r \<or> point s = PReplied r \<or> point s = PReplied no_reply)))"

lemma rpc_inv_step:
  "processReq_step dec enc req act s = Some (Inr s') \<Longrightarrow> rpc_inv s \<Longrightarrow> rpc_inv s'"
  by (cases act) (auto simp: rpc_inv_def Let_def bind_res_eq_Inr split: ppoint.splits hpoint.splits prod.splits option.splits bool.splits if_splits)

lemma rpc_inv_run: "rpc_run Q dec enc req s0 s \<Longrightarrow> rpc_inv s0 \<Longrightarrow> rpc_inv s"
proof (induction rule: rpc_run.induct)
  case (own s act s')
  then show ?case using rpc_inv_step by blast
next
  case (others s rn hp w)
  then show ?case by (auto simp: rpc_inv_def split: hpoint.splits)
qed simp

lemma rpc_start_inv: "rpc_inv (rpc_start rn hp w)"
  by (simp add: rpc_inv_def rpc_start_def)

subsection \<open>A request to a dead server\<close>

fun aimed :: "'n \<Rightarrow> nat \<Rightarrow> 'n ppoint \<Rightarrow> bool" where
  "aimed n p (PSend m q a b) \<longleftrightarrow> m = n \<and> q = p"
| "aimed n p (PWait m q a b) \<longleftrightarrow> m = n \<and> q = p"
| "aimed n p (PDecide m q a b got) \<longleftrightarrow> m = n \<and> q = p"
| "aimed n p _ \<longleftrightarrow> False"

lemma own_step_servers:
  "processReq_step dec enc req act s = Some (Inr s') \<Longrightarrow> servers (net s') = servers (net s)"
  by (cases act) (auto simp: Let_def bind_res_eq_Inr split: ppoint.splits hpoint.splits prod.splits option.splits bool.splits if_splits)

lemma dead_step:
  assumes "processReq_step dec enc req act s = Some (Inr s')" and "servers (net s) n \<noteq> Some p"
    and "aimed n p (point s) \<or> point s = PReplied no_reply"
  shows "aimed n p (point s') \<or> point s' = PReplied no_reply"
  using assms by (cases act)
    (auto simp: Let_def isServerDead_def bind_res_eq_Inr split: ppoint.splits hpoint.splits prod.splits option.splits bool.splits if_splits)

lemma dead_run:
  assumes "rpc_run (\<lambda>rn. servers rn n \<noteq> Some p) dec enc req s0 s" and "aimed n p (point s0)" and "servers (net s0) n \<noteq> Some p"
  shows "servers (net s) n \<noteq> Some p \<and> (aimed n p (point s) \<or> point s = PReplied no_reply)"
  using assms
proof (induction rule: rpc_run.induct)
  case (own s act s')
  then show ?case using dead_step [OF own.hyps(2)] own_step_servers [OF own.hyps(2)] by simp
qed simp_all

subsection \<open>Names of services and methods\<close>

lemma LastIndex_dot:
  assumes "CHR ''.'' \<notin> set meth"
  shows "LastIndex (svc @ ''.'' @ meth) = go_len svc"
proof -
  have "takeWhile (\<lambda>c. c \<noteq> CHR ''.'') (rev (svc @ ''.'' @ meth)) = rev meth"
    using assms by (simp add: takeWhile_append takeWhile_eq_all_conv)
  then show ?thesis by (simp add: LastIndex_def go_len_def)
qed

lemma LastIndex_none: "CHR ''.'' \<notin> set s \<Longrightarrow> LastIndex s = -1"
  by (simp add: LastIndex_def)

definition suitable :: "('a, 'r, 'w) method_info \<Rightarrow> bool" where
  "suitable m \<longleftrightarrow> PkgPath m = '''' \<and> NumIn m = 3 \<and> In2_is_Ptr m \<and> NumOut m = 0"

lemma MakeService_methods:
  assumes "distinct (map m_name ms)" and "m \<in> set ms"
  shows "methods (MakeService tname ms) (m_name m) = (if suitable m then Some (Func m) else None)"
proof -
  let ?f = "\<lambda>m acc. if PkgPath m \<noteq> '''' \<or> NumIn m \<noteq> 3 \<or> \<not> In2_is_Ptr m \<or> NumOut m \<noteq> 0 then acc else acc(m_name m \<mapsto> Func m)"
  have other: "fold ?f ms acc x = acc x" if "x \<notin> m_name ` set ms" for acc x and ms :: "('a, 'b, 'c) method_info list"
    using that by (induction ms arbitrary: acc) auto
  have "fold ?f ms acc (m_name m) = (if suitable m then Some (Func m) else acc (m_name m))" for acc
    using assms
  proof (induction ms arbitrary: acc)
    case (Cons a ms)
    show ?case
    proof (cases "a = m")
      case True
      then show ?thesis using Cons.prems other [of "m_name m" ms] by (auto simp: suitable_def)
    next
      case False
      then show ?thesis using Cons by (auto simp: image_iff)
    qed
  qed simp
  then show ?thesis by (simp add: MakeService_def)
qed

subsection \<open>Properties\<close>

text \<open>
  C26: A remote call is executed at most once, and success means that it was. Whatever else happens
  in the system while the request is under way (ends disabled, servers deleted and replaced, messages
  dropped or delayed), the handler runs at most once; and when the caller gets a reply that is marked
  ok, the handler has run exactly once and the reply is what it returned.
\<close>

theorem rpc_at_most_once:
  assumes "rpc_run Q dec enc req (rpc_start rn hp w) s"
  shows "length (executed s) \<le> 1 \<and> (\<forall>r. point s = PReplied r \<and> rep_ok r \<longrightarrow> (\<exists>p. executed s = [(p, r)]))"
  using rpc_inv_run [OF assms rpc_start_inv] by (auto simp: rpc_inv_def split: hpoint.splits)

text \<open>
  A deleted server gives no positive reply. Once a request is on its way to a server, if the
  server has been removed from its name (\<open>DeleteServer\<close>, or another server added there) and stays
  so, then however the request goes on the caller is never told that it succeeded.
\<close>

theorem rpc_dead_server_silent:
  assumes "rpc_run (\<lambda>rn. servers rn n \<noteq> Some p) dec enc req s0 s" and "aimed n p (point s0)"
    and "servers (net s0) n \<noteq> Some p"
  shows "\<not> (\<exists>r. point s = PReplied r \<and> rep_ok r)"
  using dead_run [OF assms] by auto

text \<open>The specification of the dispatch.\<close>

definition routed :: "(string \<Rightarrow> 'a) \<Rightarrow> ('r \<Rightarrow> string) \<Rightarrow> ('a, 'r, 'w) Server \<Rightarrow> string \<Rightarrow> string \<Rightarrow> string \<Rightarrow> 'w \<Rightarrow>
  (replyMsg \<times> ('a, 'r, 'w) Server \<times> 'w) res" where
  "routed dec enc rs svc meth args w =
     (case services rs svc of
        None \<Rightarrow> Inl (LogFatal ''labrpc.Server.dispatch(): unknown service'')
      | Some service \<Rightarrow>
          (case methods service meth of
             None \<Rightarrow> Inl (LogFatal ''labrpc.Service.dispatch(): unknown method'')
           | Some f \<Rightarrow> (case f (dec args) w of (v, w') \<Rightarrow>
               Inr (\<lparr>rep_ok = True, reply = enc v\<rparr>, rs\<lparr>srv_count := srv_count rs + 1\<rparr>, w'))))"

text \<open>
  Remote calls are routed by name. A request for \<open>svc.meth\<close>, where the method name has no
  dot, is executed by the method of that name of the service of that name: its argument is the decoded
  request, the reply is encoded and marked ok, and the server's count goes up by one. An unknown
  service or method ends the program, and a name without a dot is a panic.
\<close>

theorem dispatch_routes:
  assumes "CHR ''.'' \<notin> set meth"
  shows "(svcMeth req = svc @ ''.'' @ meth \<longrightarrow>
      Server_dispatch dec enc rs req w = routed dec enc rs svc meth (req_args req) w) \<and>
    (svcMeth req = meth \<longrightarrow> Server_dispatch dec enc rs req w = Inl IndexOutOfRange)"
proof (intro conjI impI)
  show "Server_dispatch dec enc rs req w = Inl IndexOutOfRange" if "svcMeth req = meth"
    using that LastIndex_none [OF assms] by (simp add: Server_dispatch_def Let_def go_slice_to_def go_slice_def)
  show "Server_dispatch dec enc rs req w = routed dec enc rs svc meth (req_args req) w" if "svcMeth req = svc @ ''.'' @ meth"
    using LastIndex_dot [OF assms, of svc] that
    by (auto simp: routed_def Server_dispatch_def Service_dispatch_def Let_def go_slice_to_def go_slice_from_def go_slice_def go_len_def
        nat_add_distrib split: option.splits prod.splits)
qed

text \<open>
  On a quiet network a call goes through. With a reliable network and an end that is enabled and
  connected to a live server, and nothing else happening meanwhile, the request is given to the
  server, executed there and answered with the handler's reply, whatever the random numbers (the
  answer may be delayed when replies are reordered); a request on an end that is disabled, or not
  connected, or connected to a deleted server, is answered with a failure and is not executed.
\<close>

theorem rpc_quiet_network:
  assumes "reliable rn" and "Server_dispatch dec enc (hp p) req w = Inr (r, rs', w')"
  shows "(enabled rn (req_endname req) \<and> connections rn (req_endname req) = Some n \<and> servers rn n = Some p \<longrightarrow>
      (\<exists>late s. processReq_steps dec enc req ([Read, Send a, Handle, Receive, Decide b c] @ late) (rpc_start rn hp w) = Some (Inr s) \<and>
         (late = [] \<or> late = [Deliver] \<and> longReordering rn) \<and> point s = PReplied r \<and> world s = w' \<and> executed s = [(p, r)])) \<and>
    (\<not> enabled rn (req_endname req) \<or> connections rn (req_endname req) = None \<or>
       connections rn (req_endname req) = Some n \<and> servers rn n = None \<longrightarrow>
      (\<exists>s. processReq_steps dec enc req [Read, Deliver] (rpc_start rn hp w) = Some (Inr s) \<and>
         point s = PReplied no_reply \<and> world s = w \<and> executed s = []))"
proof (intro conjI impI)
  assume up: "enabled rn (req_endname req) \<and> connections rn (req_endname req) = Some n \<and> servers rn n = Some p"
  let ?acts = "[Read, Send a, Handle, Receive, Decide b c]"
  show "\<exists>late s. processReq_steps dec enc req (?acts @ late) (rpc_start rn hp w) = Some (Inr s) \<and>
         (late = [] \<or> late = [Deliver] \<and> longReordering rn) \<and> point s = PReplied r \<and> world s = w' \<and> executed s = [(p, r)]"
  proof (cases "longReordering rn \<and> c mod 900 < 600")
    case True
    then show ?thesis
      using up assms by (intro exI [of _ "[Deliver]"]) (simp add: rpc_start_def readEndnameInfo_def isServerDead_def Let_def)
  next
    case False
    then show ?thesis
      using up assms by (intro exI [of _ "[]"]) (auto simp: rpc_start_def readEndnameInfo_def isServerDead_def Let_def)
  qed
next
  assume "\<not> enabled rn (req_endname req) \<or> connections rn (req_endname req) = None \<or>
       connections rn (req_endname req) = Some n \<and> servers rn n = None"
  then show "\<exists>s. processReq_steps dec enc req [Read, Deliver] (rpc_start rn hp w) = Some (Inr s) \<and>
         point s = PReplied no_reply \<and> world s = w \<and> executed s = []"
    by (cases "enabled rn (req_endname req)") (auto simp: rpc_start_def readEndnameInfo_def split: option.splits)
qed

text \<open>
  A request is never stuck. In every state that a request can reach and in which it is not
  answered there is a step it can take other than waiting once more: reading the connection, sending,
  running or receiving the handler's result, deciding, or delivering.
\<close>

theorem rpc_progress:
  assumes "rpc_run Q dec enc req (rpc_start rn hp w) s" and "\<not> (\<exists>r. point s = PReplied r)"
  shows "\<exists>act r. act \<noteq> Timer \<and> processReq_step dec enc req act s = Some r"
proof -
  have inv: "rpc_inv s" by (rule rpc_inv_run [OF assms(1) rpc_start_inv])
  show ?thesis
  proof (cases "point s")
    case PRead
    then show ?thesis by (intro exI [of _ Read]) (auto split: bool.splits option.splits prod.splits)
  next
    case (PSend n p a b)
    then show ?thesis by (intro exI [of _ "Send 500"]) simp
  next
    case (PWait n p a b)
    then consider (run) q where "handler s = HRunning q" | (fin) r where "handler s = HDone r"
      using inv by (auto simp: rpc_inv_def split: hpoint.splits)
    then show ?thesis
    proof cases
      case run
      then show ?thesis by (intro exI [of _ Handle]) simp
    next
      case fin
      then show ?thesis using PWait by (intro exI [of _ Receive]) simp
    qed
  next
    case (PDecide n p a b got)
    then show ?thesis by (intro exI [of _ "Decide 0 0"]) (auto simp: Let_def split: option.splits)
  next
    case (PLate r)
    then show ?thesis by (intro exI [of _ Deliver]) simp
  next
    case (PReplied r)
    then show ?thesis using assms(2) by simp
  qed
qed

text \<open>
  C27: The statistics count modulo the width of their counters: after \<open>k\<close> requests from a new
  network \<open>GetTotalCount\<close> is \<open>k\<close> as long as \<open>k\<close> is below \<open>2 ^ 31\<close>, and negative for the
  next \<open>2 ^ 31\<close> requests.
\<close>

theorem GetTotalCount_wraps:
  fixes reqs :: "'e reqMsg list"
  shows "let rn = fold take_request reqs (MakeNetwork :: ('e, 'n) Network) in
     (length reqs < 2 ^ 31 \<longrightarrow> GetTotalCount rn = int (length reqs)) \<and>
     (2 ^ 31 \<le> length reqs \<and> length reqs < 2 ^ 32 \<longrightarrow> GetTotalCount rn = int (length reqs) - 2 ^ 32)"
proof -
  have "net_count (fold take_request reqs rn) = net_count rn + of_nat (length reqs)" for rn :: "('e, 'n) Network"
    by (induction reqs arbitrary: rn) (simp_all add: take_request_def)
  then have c: "GetTotalCount (fold take_request reqs (MakeNetwork :: ('e, 'n) Network)) = sint (word_of_int (int (length reqs)) :: 32 word)"
    by (simp add: GetTotalCount_def MakeNetwork_def)
  have s: "sint (word_of_int k :: 32 word) = (k + 2147483648) mod 4294967296 - 2147483648" for k
    by (simp add: sint_sbintrunc' signed_take_bit_eq_take_bit_shift take_bit_eq_mod)
  have lo: "(k + 2147483648) mod 4294967296 - 2147483648 = k" if "0 \<le> k" "k < 2147483648" for k :: int
    using that by (simp add: mod_pos_pos_trivial)
  have hi: "(k + 2147483648) mod 4294967296 - 2147483648 = k - 4294967296" if "2147483648 \<le> k" "k < 4294967296" for k :: int
  proof -
    have "(k + 2147483648) mod 4294967296 = (k + 2147483648 - 4294967296) mod 4294967296"
      by (simp only: minus_mod_self2)
    also have "\<dots> = k + 2147483648 - 4294967296" using that by (intro mod_pos_pos_trivial) auto
    finally show ?thesis by simp
  qed
  show ?thesis unfolding Let_def c s using lo [of "int (length reqs)"] hi [of "int (length reqs)"] by simp
qed

subsection \<open>A small system\<close>

text \<open>One server with a service \<open>C\<close> whose method \<open>Inc\<close> adds to a counter and returns it.\<close>

definition sample_service :: "(nat, nat, nat) Service" where
  "sample_service = MakeService ''C''
     [\<lparr>m_name = ''Inc'', PkgPath = '''', NumIn = 3, In2_is_Ptr = True, NumOut = 0, Func = (\<lambda>a w. (a + w, a + w))\<rparr>]"

definition sample_server :: "(nat, nat, nat) Server" where
  "sample_server = AddService sample_service MakeServer"

definition sample_net :: "(nat, nat) Network" where
  "sample_net = Enable 2 True (Connect 2 7 (AddServer 7 3 MakeNetwork))"

definition sample_req :: "nat reqMsg" where
  "sample_req = \<lparr>req_endname = 2, svcMeth = ''C.Inc'', req_args = ''ab''\<rparr>"

definition enc0 :: "nat \<Rightarrow> string" where
  "enc0 n = replicate n (CHR ''x'')"

abbreviation sample_start :: "(nat, nat, nat, nat, nat) rpc" where
  "sample_start \<equiv> rpc_start sample_net (\<lambda>_. sample_server) 5"

theorem dispatch_routes_witness:
  "Server_dispatch length enc0 sample_server sample_req 5 =
     Inr (\<lparr>rep_ok = True, reply = enc0 7\<rparr>, sample_server\<lparr>srv_count := 1\<rparr>, 7)"
  using dispatch_routes [of "''Inc''" sample_req "''C''" length enc0 sample_server 5]
  by (simp add: routed_def sample_req_def sample_server_def sample_service_def AddService_def MakeServer_def MakeService_def)

lemma sample_dispatch:
  "Server_dispatch length enc0 sample_server sample_req 5 =
     Inr (\<lparr>rep_ok = True, reply = enc0 7\<rparr>, sample_server\<lparr>srv_count := 1\<rparr>, 7)"
  by (simp add: Server_dispatch_def Service_dispatch_def Let_def LastIndex_def go_slice_to_def go_slice_from_def go_slice_def
      sample_req_def sample_server_def sample_service_def AddService_def MakeServer_def MakeService_def)

lemma sample_net_simps: "reliable sample_net" "enabled sample_net 2" "connections sample_net 2 = Some 7" "servers sample_net 7 = Some 3"
  "\<not> longReordering sample_net" "req_endname sample_req = 2"
  by (simp_all add: sample_net_def sample_req_def Enable_def Connect_def AddServer_def MakeNetwork_def)

theorem rpc_quiet_network_witness:
  "\<exists>s. processReq_steps length enc0 sample_req [Read, Send 0, Handle, Receive, Decide 0 0] sample_start = Some (Inr s) \<and>
     point s = PReplied \<lparr>rep_ok = True, reply = enc0 7\<rparr> \<and> world s = 7"
  using rpc_quiet_network [OF sample_net_simps(1), of length enc0 "\<lambda>_. sample_server" 3 sample_req 5, OF sample_dispatch, of 7 0 0 0]
    sample_net_simps by auto

text \<open>The request on its way to the server, before and after the server is deleted.\<close>

abbreviation sample_sending :: "(nat, nat, nat, nat, nat) rpc" where
  "sample_sending \<equiv> sample_start\<lparr>point := PSend 7 3 True False\<rparr>"

lemma sample_read: "rpc_run Q length enc0 sample_req sample_start sample_sending"
  by (rule rpc_run.own [OF rpc_run.start, where act = Read]) (simp add: rpc_start_def readEndnameInfo_def sample_net_simps)

text \<open>
  The witness for at most once: the request is read, sent, handled and answered, and while the answer
  is on its way somebody else replaces the server and the world changes. The caller gets a positive
  reply, and by the theorem it is the reply of the one execution of the handler.
\<close>

lemma steps_run:
  "rpc_run Q dec enc req s0 s \<Longrightarrow> processReq_steps dec enc req acts s = Some (Inr s') \<Longrightarrow> rpc_run Q dec enc req s0 s'"
proof (induction acts arbitrary: s)
  case (Cons act acts)
  then show ?case by (auto split: option.splits sum.splits intro: rpc_run.own)
qed simp

lemma sample_answered_run:
  "\<exists>s. rpc_run (\<lambda>_. True) length enc0 sample_req sample_start s \<and> point s = PReplied \<lparr>rep_ok = True, reply = enc0 7\<rparr> \<and>
     world s = 40"
proof -
  obtain s1 where s1: "processReq_steps length enc0 sample_req [Read, Send 0, Handle, Receive] sample_start = Some (Inr s1)"
    "point s1 = PDecide 7 3 True False (Some \<lparr>rep_ok = True, reply = enc0 7\<rparr>)"
    using sample_dispatch sample_net_simps by (simp add: rpc_start_def readEndnameInfo_def)
  define s2 where "s2 = s1\<lparr>net := sample_net, heap := (\<lambda>_. MakeServer), world := 40\<rparr>"
  have r2: "rpc_run (\<lambda>_. True) length enc0 sample_req sample_start s2"
    unfolding s2_def by (rule rpc_run.others [OF steps_run [OF rpc_run.start s1(1)]]) simp
  have "\<exists>s3. processReq_steps length enc0 sample_req [Decide 0 0] s2 = Some (Inr s3) \<and>
      point s3 = PReplied \<lparr>rep_ok = True, reply = enc0 7\<rparr> \<and> world s3 = 40"
    using s1(2) sample_net_simps by (simp add: s2_def isServerDead_def Let_def)
  then show ?thesis using steps_run [OF r2] by blast
qed

theorem rpc_at_most_once_witness:
  "\<exists>s p. rpc_run (\<lambda>_. True) length enc0 sample_req sample_start s \<and> world s = 40 \<and>
     point s = PReplied \<lparr>rep_ok = True, reply = enc0 7\<rparr> \<and> executed s = [(p, \<lparr>rep_ok = True, reply = enc0 7\<rparr>)]"
proof -
  obtain s where s: "rpc_run (\<lambda>_. True) length enc0 sample_req sample_start s"
    "point s = PReplied \<lparr>rep_ok = True, reply = enc0 7\<rparr>" "world s = 40"
    using sample_answered_run by blast
  then show ?thesis using rpc_at_most_once [OF s(1)] by auto
qed

theorem rpc_progress_witness: "\<exists>act r. act \<noteq> Timer \<and> processReq_step length enc0 sample_req act sample_sending = Some r"
  by (rule rpc_progress [OF sample_read [of "\<lambda>_. True"]]) simp

theorem rpc_dead_server_silent_witness:
  "let s = sample_sending\<lparr>net := DeleteServer 7 sample_net\<rparr> in \<not> (\<exists>r. point s = PReplied r \<and> rep_ok r)"
  unfolding Let_def
  by (rule rpc_dead_server_silent [OF rpc_run.start, of 7 3]) (simp_all add: DeleteServer_def)

theorem GetTotalCount_wraps_witness:
  "GetTotalCount (fold take_request [sample_req, sample_req, sample_req] (MakeNetwork :: (nat, nat) Network)) = 3"
  using GetTotalCount_wraps [of "[sample_req, sample_req, sample_req]", where 'n = nat] by simp

end
