(* ===== verification/Raft_Service.thy ===== *)
theory Raft_Service
  imports Raft_Peer Labrpc
begin

section \<open>Objects behind services, and the service of a Raft peer\<close>

text \<open>
  \<open>labrpc.MakeService(rcvr)\<close> serves the exported methods of one object. The objects that servers
  are made for are numbered in the order of their creation; the world in which the handlers act is
  the clock and the contents of all objects, \<open>Inl\<close> once a panic has ended the program. A service
  belongs to the number of its object, so the service of an instance that was replaced still acts on
  the old instance. Arguments and replies are of the types \<open>'a\<close> and \<open>'r\<close>; calling a method with
  an argument of another type is a panic of \<open>reflect\<close>.
\<close>

type_synonym 'o objects = "(int \<times> (nat \<Rightarrow> 'o)) res"

definition obj_method :: "('a \<Rightarrow> 'x option) \<Rightarrow> ('y \<Rightarrow> 'r) \<Rightarrow> 'y \<Rightarrow> (int \<Rightarrow> 'x \<Rightarrow> 'o \<Rightarrow> ('o \<times> 'y) res) \<Rightarrow> nat \<Rightarrow> ('a, 'r, 'o objects) func" where
  "obj_method args_of reply_as zero body p a w =
     (case w of
        Inl e \<Rightarrow> (reply_as zero, Inl e)
      | Inr (now, objs) \<Rightarrow>
          (case args_of a of
             None \<Rightarrow> (reply_as zero, Inl (Panic ''reflect: Call using a value of another type''))
           | Some x \<Rightarrow>
               (case body now x (objs p) of
                  Inl e \<Rightarrow> (reply_as zero, Inl e)
                | Inr (ob, y) \<Rightarrow> (reply_as y, Inr (now, objs(p := ob))))))"

text \<open>A method that has the form of a handler, and an exported method that has not; the network does not serve the latter, and its function is never called.\<close>

definition handler_method :: "string \<Rightarrow> ('a, 'r, 'w) func \<Rightarrow> ('a, 'r, 'w) method_info" where
  "handler_method mname f = \<lparr>m_name = mname, PkgPath = '''', NumIn = 3, In2_is_Ptr = True, NumOut = 0, Func = f\<rparr>"

definition other_method :: "string \<Rightarrow> int \<Rightarrow> int \<Rightarrow> ('a, 'r, 'w) func \<Rightarrow> ('a, 'r, 'w) method_info" where
  "other_method mname nin nout f = \<lparr>m_name = mname, PkgPath = '''', NumIn = nin, In2_is_Ptr = False, NumOut = nout, Func = f\<rparr>"

subsection \<open>The Raft service\<close>

datatype 'c rpc_args = VoteArgs RequestVoteArgs | EntriesArgs "'c AppendEntriesArgs"

datatype rpc_reply = VoteReply RequestVoteReply | EntriesReply AppendEntriesReply

fun vote_args :: "'c rpc_args \<Rightarrow> RequestVoteArgs option" where
  "vote_args (VoteArgs a) = Some a"
| "vote_args (EntriesArgs a) = None"

fun entries_args :: "'c rpc_args \<Rightarrow> 'c AppendEntriesArgs option" where
  "entries_args (VoteArgs a) = None"
| "entries_args (EntriesArgs a) = Some a"

text \<open>
  The peer is the object itself, or a part of it that \<open>get\<close> reads and \<open>put\<close> writes; the arguments
  and replies of Raft may be some among others. The exported methods of \<open>*Raft\<close> are listed as
  \<open>reflect\<close> does.
\<close>

definition raft_methods :: "('a \<Rightarrow> 'c rpc_args option) \<Rightarrow> (rpc_reply \<Rightarrow> 'r) \<Rightarrow> ('o \<Rightarrow> 'c Raft) \<Rightarrow> ('c Raft \<Rightarrow> 'o \<Rightarrow> 'o) \<Rightarrow> nat \<Rightarrow>
  ('a, 'r, 'o objects) method_info list" where
  "raft_methods args_of reply_as get put p =
     (let vote = obj_method (\<lambda>a. Option.bind (args_of a) vote_args) (\<lambda>r. reply_as (VoteReply r)) \<lparr>rvr_Term = 0, rvr_VoteGranted = False\<rparr>
                   (\<lambda>now x ob. bind_res (RequestVote now (get ob) x) (\<lambda>(rf, r). Inr (put rf ob, r))) p;
          entries = obj_method (\<lambda>a. Option.bind (args_of a) entries_args) (\<lambda>r. reply_as (EntriesReply r))
                   \<lparr>aer_Term = 0, aer_Success = False, aer_XTerm = 0, aer_XIndex = 0\<rparr>
                   (\<lambda>now x ob. bind_res (AppendEntries now (get ob) x) (\<lambda>(rf, r). Inr (put rf ob, r))) p
      in [handler_method ''AppendEntries'' entries, other_method ''GetState'' 1 2 vote, other_method ''Kill'' 1 0 vote,
          handler_method ''RequestVote'' vote, other_method ''Run'' 1 0 vote, other_method ''Start'' 2 3 vote])"

definition raft_service :: "('a \<Rightarrow> 'c rpc_args option) \<Rightarrow> (rpc_reply \<Rightarrow> 'r) \<Rightarrow> ('o \<Rightarrow> 'c Raft) \<Rightarrow> ('c Raft \<Rightarrow> 'o \<Rightarrow> 'o) \<Rightarrow> nat \<Rightarrow>
  ('a, 'r, 'o objects) Service" where
  "raft_service args_of reply_as get put p = MakeService ''Raft'' (raft_methods args_of reply_as get put p)"

text \<open>The server of a peer that is run on its own (\<open>raft/config.go\<close>).\<close>

definition raft_server :: "nat \<Rightarrow> ('c rpc_args, rpc_reply, 'c Raft objects) Server" where
  "raft_server p = AddService (raft_service Some id id (\<lambda>rf _. rf) p) MakeServer"

subsection \<open>What the Raft service does\<close>

fun raft_handle :: "int \<Rightarrow> 'c Raft \<Rightarrow> 'c rpc_args \<Rightarrow> ('c Raft \<times> rpc_reply) res" where
  "raft_handle now rf (VoteArgs a) = bind_res (RequestVote now rf a) (\<lambda>(rf1, r). Inr (rf1, VoteReply r))"
| "raft_handle now rf (EntriesArgs a) = bind_res (AppendEntries now rf a) (\<lambda>(rf1, r). Inr (rf1, EntriesReply r))"

fun method_of :: "'c rpc_args \<Rightarrow> string" where
  "method_of (VoteArgs a) = ''RequestVote''"
| "method_of (EntriesArgs a) = ''AppendEntries''"

lemma svc_name_raft [simp]: "svc_name (raft_service args_of reply_as get put p) = ''Raft''"
  by (simp add: raft_service_def MakeService_def)

lemma services_AddService [simp]: "services (AddService svc rs) = (services rs)(svc_name svc \<mapsto> svc)"
  by (simp add: AddService_def)

lemma services_MakeServer [simp]: "services MakeServer = (\<lambda>_. None)"
  by (simp add: MakeServer_def)

text \<open>Only the two handlers are served.\<close>

lemma raft_service_methods:
  "methods (raft_service args_of reply_as get put p) mname \<noteq> None \<longleftrightarrow> mname \<in> {''RequestVote'', ''AppendEntries''}"
  by (simp add: raft_service_def MakeService_def raft_methods_def handler_method_def other_method_def Let_def)

text \<open>The method a request names runs the handler of the object and returns its reply.\<close>

lemma raft_service_handles:
  assumes "args_of b = Some a" and "raft_handle now (get (objs p)) a = Inr (rf', r)"
  shows "\<exists>f. methods (raft_service args_of reply_as get put p) (method_of a) = Some f \<and>
    f b (Inr (now, objs)) = (reply_as r, Inr (now, objs(p := put rf' (objs p))))"
  using assms
  by (cases a) (auto simp: raft_service_def MakeService_def raft_methods_def handler_method_def other_method_def Let_def
      obj_method_def bind_res_eq_Inr split: prod.splits)

subsection \<open>Registered servers\<close>

text \<open>
  What the harnesses keep of the servers they made: a server that the network knows under a name has
  a number that was given out, the services it was made with (\<open>made\<close> says which, for the name and
  the number), and no other name.
\<close>

definition registered :: "('n \<Rightarrow> nat \<Rightarrow> ('a, 'r, 'w) Server) \<Rightarrow> ('n \<Rightarrow> nat option) \<Rightarrow> (nat \<Rightarrow> ('a, 'r, 'w) Server) \<Rightarrow> nat \<Rightarrow> bool" where
  "registered made srvs table nx \<longleftrightarrow>
     (\<forall>n p. srvs n = Some p \<longrightarrow> p < nx \<and> services (table p) = services (made n p)) \<and>
     (\<forall>m n p. srvs m = Some p \<and> srvs n = Some p \<longrightarrow> m = n)"

lemma registered_none: "registered made (\<lambda>_. None) table nx"
  by (simp add: registered_def)

lemma registered_add:
  "registered made srvs table nx \<Longrightarrow> registered made (srvs(n := Some nx)) (table(nx := made n nx)) (nx + 1)"
  by (auto simp: registered_def less_Suc_eq split: if_splits)

lemma registered_delete: "registered made srvs table nx \<Longrightarrow> registered made (srvs(n := None)) table nx"
  by (auto simp: registered_def)

lemma registered_count:
  "registered made srvs table nx \<Longrightarrow> services rs = services (table p) \<Longrightarrow> registered made srvs (table(p := rs)) nx"
  by (auto simp: registered_def)

end
