(* ===== verification/Harness_Raft.thy ===== *)
theory Harness_Raft
  imports Raft_Service
begin

section \<open>The Raft test harness (raft/config.go)\<close>

text \<open>
  The harness wires \<open>n\<close> peers through the simulated network, crashes and restarts them, and reads
  what they commit. Ends are named by strings, servers by their number. A nil slice, map entry or
  pointer is \<open>None\<close>. The random strings that name the ends, the clock and the random timeout of
  \<open>Make\<close> are arguments. A peer's persister is the object \<open>saved[i]\<close>; while the peer runs its
  content is the one in the peer's record. A failed test is the error \<open>LogFatal\<close>. The
  servers made so far are in \<open>csrvs\<close>, by number; the server that is made for an instance and the
  instance as an object of the services have the same number.
\<close>

record 'c config =
  cnet :: "(string, int) Network"
  cn :: nat
  crafts :: "'c Raft option list"
  applyErr :: "string list"
  connected :: "bool list"
  csaved :: "'c gob_item Persister option list"
  endnames :: "string list option list"
  logs :: "(int \<Rightarrow> 'c option option) list"
  start :: int
  t0 :: int
  rpcs0 :: int
  cmds0 :: int
  bytes0 :: int
  maxIndex :: int
  maxIndex0 :: int
  nextsrv :: nat
  csrvs :: "nat \<Rightarrow> ('c rpc_args, rpc_reply, 'c Raft objects) Server"

definition end_at :: "int \<Rightarrow> int \<Rightarrow> 'c config \<Rightarrow> string res" where
  "end_at i j cfg =
     bind_res (go_index (endnames cfg) i) (\<lambda>es. case es of None \<Rightarrow> Inl IndexOutOfRange | Some l \<Rightarrow> go_index l j)"

definition set_end :: "int \<Rightarrow> int \<Rightarrow> bool \<Rightarrow> 'c config \<Rightarrow> 'c config res" where
  "set_end i j b cfg = bind_res (end_at i j cfg) (\<lambda>endname. Inr (cfg\<lparr>cnet := Enable endname b (cnet cfg)\<rparr>))"

definition peer_list :: "'c config \<Rightarrow> int list" where
  "peer_list cfg = map int [0..<cn cfg]"

definition connect :: "int \<Rightarrow> 'c config \<Rightarrow> 'c config res" where
  "connect i cfg =
     bind_res (go_update (connected cfg) i True) (\<lambda>cs.
     bind_res (fold_res (\<lambda>j c. bind_res (go_index (connected c) j) (\<lambda>b. if b then set_end i j True c else Inr c))
         (peer_list cfg) (cfg\<lparr>connected := cs\<rparr>)) (\<lambda>cfg1.
       fold_res (\<lambda>j c. bind_res (go_index (connected c) j) (\<lambda>b. if b then set_end j i True c else Inr c)) (peer_list cfg) cfg1))"

definition disconnect :: "int \<Rightarrow> 'c config \<Rightarrow> 'c config res" where
  "disconnect i cfg =
     bind_res (go_update (connected cfg) i False) (\<lambda>cs.
     bind_res (fold_res (\<lambda>j c. bind_res (go_index (endnames c) i) (\<lambda>es. if es \<noteq> None then set_end i j False c else Inr c))
         (peer_list cfg) (cfg\<lparr>connected := cs\<rparr>)) (\<lambda>cfg1.
       fold_res (\<lambda>j c. bind_res (go_index (endnames c) j) (\<lambda>es. if es \<noteq> None then set_end j i False c else Inr c)) (peer_list cfg) cfg1))"

text \<open>What \<open>cfg.saved[i]\<close> points to at the moment.\<close>

definition saved_now :: "int \<Rightarrow> 'c config \<Rightarrow> 'c gob_item Persister option res" where
  "saved_now i cfg =
     bind_res (go_index (crafts cfg) i) (\<lambda>rf.
     bind_res (go_index (csaved cfg) i) (\<lambda>ps.
       Inr (case (rf, ps) of (Some r, Some _) \<Rightarrow> Some (persister r) | _ \<Rightarrow> ps)))"

definition crash1 :: "int \<Rightarrow> 'c config \<Rightarrow> 'c config res" where
  "crash1 i cfg =
     bind_res (disconnect i cfg) (\<lambda>cfg0.
     let cfg1 = cfg0\<lparr>cnet := DeleteServer i (cnet cfg0)\<rparr> in
     bind_res (saved_now i cfg1) (\<lambda>ps0.
     let ps1 = map_option Copy ps0;
         ps2 = map_option (\<lambda>ps. SaveRaftState MakePersister (ReadRaftState ps)) ps1 in
     bind_res (go_update (csaved cfg1) i ps2) (\<lambda>sv.
     bind_res (go_update (crafts cfg1) i None) (\<lambda>rs.
       Inr (cfg1\<lparr>csaved := sv, crafts := rs\<rparr>)))))"

text \<open>The ends of a new instance, named by the strings \<open>names\<close>; \<open>randstring j\<close> is the \<open>j\<close>th
  random string that \<open>start1\<close> draws.\<close>

definition new_ends :: "string list \<Rightarrow> (string, int) Network \<Rightarrow> (string, int) Network res" where
  "new_ends names net0 =
     fold_res (\<lambda>j rn. bind_res (MakeEnd (names ! j) rn) (\<lambda>rn1. Inr (Connect (names ! j) (int j) rn1))) [0..<length names] net0"

definition start1 :: "(nat \<Rightarrow> string) \<Rightarrow> int \<Rightarrow> int \<Rightarrow> int \<Rightarrow> 'c config \<Rightarrow> 'c config res" where
  "start1 randstring now rnd i cfg =
     bind_res (crash1 i cfg) (\<lambda>cfg1.
     let names = map randstring [0..<cn cfg1] in
     bind_res (go_update (endnames cfg1) i (Some names)) (\<lambda>es.
     bind_res (new_ends names (cnet cfg1)) (\<lambda>rn.
     bind_res (go_index (csaved cfg1) i) (\<lambda>ps0.
     let ps = (case ps0 of Some p \<Rightarrow> Copy p | None \<Rightarrow> MakePersister) in
     bind_res (go_update (csaved cfg1) i (Some ps)) (\<lambda>sv.
     bind_res (Make now rnd (cn cfg1) i ps) (\<lambda>rf.
     bind_res (go_update (crafts cfg1) i (Some rf)) (\<lambda>rs.
     let svc = raft_service Some id id (\<lambda>rf _. rf) (nextsrv cfg1);
         srv = AddService svc MakeServer in
       Inr (cfg1\<lparr>endnames := es, csaved := sv, crafts := rs, cnet := AddServer i (nextsrv cfg1) rn, nextsrv := nextsrv cfg1 + 1,
                 csrvs := (csrvs cfg1)(nextsrv cfg1 := srv)\<rparr>))))))))"

definition setunreliable :: "bool \<Rightarrow> 'c config \<Rightarrow> 'c config" where
  "setunreliable unrel cfg = cfg\<lparr>cnet := Reliable (\<not> unrel) (cnet cfg)\<rparr>"

definition setlongreordering :: "bool \<Rightarrow> 'c config \<Rightarrow> 'c config" where
  "setlongreordering longrel cfg = cfg\<lparr>cnet := LongReordering longrel (cnet cfg)\<rparr>"

definition rpcTotal :: "'c config \<Rightarrow> int" where
  "rpcTotal cfg = GetTotalCount (cnet cfg)"

definition bytesTotal :: "'c config \<Rightarrow> int" where
  "bytesTotal cfg = GetTotalBytes (cnet cfg)"

text \<open>\<open>randstring i\<close>, \<open>now i\<close> and \<open>rnd i\<close> are what \<open>start1(i)\<close> gets from the random source and the clock.\<close>

definition make_config :: "int \<Rightarrow> (nat \<Rightarrow> nat \<Rightarrow> string) \<Rightarrow> (nat \<Rightarrow> int) \<Rightarrow> (nat \<Rightarrow> int) \<Rightarrow> nat \<Rightarrow> bool \<Rightarrow> 'c config res" where
  "make_config now0 randstring now rnd n unreliable =
     (let cfg0 = \<lparr>cnet = MakeNetwork, cn = n, crafts = replicate n None, applyErr = replicate n '''', connected = replicate n False,
                  csaved = replicate n None, endnames = replicate n None, logs = replicate n (\<lambda>_. None),
                  start = now0, t0 = 0, rpcs0 = 0, cmds0 = 0, bytes0 = 0, maxIndex = 0, maxIndex0 = 0, nextsrv = 0,
                  csrvs = (\<lambda>_. MakeServer)\<rparr>;
          cfg1 = setunreliable unreliable cfg0;
          cfg2 = cfg1\<lparr>cnet := LongDelays True (cnet cfg1)\<rparr>
      in bind_res (fold_res (\<lambda>i c. start1 (randstring i) (now i) (rnd i) (int i) c) [0..<n] cfg2)
           (fold_res (\<lambda>i c. connect (int i) c) [0..<n]))"

definition checkTimeout :: "int \<Rightarrow> bool \<Rightarrow> 'c config \<Rightarrow> unit res" where
  "checkTimeout now failed cfg =
     (if \<not> failed \<and> now - start cfg > 120 * 1000 * Millisecond then Inl (LogFatal ''test took longer than 120 seconds'') else Inr ())"

definition cleanup :: "int \<Rightarrow> bool \<Rightarrow> 'c config \<Rightarrow> 'c config res" where
  "cleanup now failed cfg =
     (let cfg1 = cfg\<lparr>crafts := map (map_option Kill) (crafts cfg)\<rparr> in
      bind_res (Cleanup (cnet cfg1)) (\<lambda>rn.
      bind_res (checkTimeout now failed cfg1) (\<lambda>_. Inr (cfg1\<lparr>cnet := rn\<rparr>))))"

definition rpcCount :: "int \<Rightarrow> 'c config \<Rightarrow> int res" where
  "rpcCount server cfg = GetCount server (csrvs cfg) (cnet cfg)"

text \<open>The reader of the apply channel of peer \<open>i\<close>; \<open>log.Fatalf\<close> ends the program.\<close>

definition read_apply :: "int \<Rightarrow> 'c ApplyMsg \<Rightarrow> 'c config \<Rightarrow> 'c config res" where
  "read_apply i m cfg =
     (if CommandValid m = False then Inr cfg
      else (let v = am_Command m; idx = CommandIndex m;
                clash = list_ex (\<lambda>lg. case lg idx of None \<Rightarrow> False | Some old \<Rightarrow> old \<noteq> v) (logs cfg)
            in bind_res (go_index (logs cfg) i) (\<lambda>lg.
               let prevok = (lg (idx - 1) \<noteq> None) in
               bind_res (go_update (logs cfg) i (lg(idx \<mapsto> v))) (\<lambda>lgs.
               let cfg1 = cfg\<lparr>logs := lgs, maxIndex := (if idx > maxIndex cfg then idx else maxIndex cfg)\<rparr> in
               if clash \<or> idx > 1 \<and> prevok = False then Inl (LogFatal ''apply error'') else Inr cfg1))))"

subsection \<open>Checks of the tests\<close>

text \<open>\<open>obs i\<close> is what \<open>cfg.rafts[i].GetState()\<close> returns at the moment it is called.\<close>

definition state_of :: "(int \<Rightarrow> int \<times> bool) \<Rightarrow> int \<Rightarrow> 'c config \<Rightarrow> (int \<times> bool) res" where
  "state_of obs i cfg =
     bind_res (go_index (crafts cfg) i) (\<lambda>rf. case rf of None \<Rightarrow> Inl NilDereference | Some _ \<Rightarrow> Inr (obs i))"

text \<open>The map \<open>leaders\<close> as an association list, in the order of its first insertions; the order of a
  range over it does not matter, as every branch of the loop body but the fatal one commutes.\<close>

fun add_leader :: "int \<Rightarrow> int \<Rightarrow> (int \<times> int list) list \<Rightarrow> (int \<times> int list) list" where
  "add_leader term i [] = [(term, [i])]"
| "add_leader term i ((t, is) # ls) = (if t = term then (t, is @ [i]) # ls else (t, is) # add_leader term i ls)"

definition collect_leaders :: "(int \<Rightarrow> int \<times> bool) \<Rightarrow> 'c config \<Rightarrow> (int \<times> int list) list res" where
  "collect_leaders obs cfg =
     fold_res (\<lambda>i leaders. bind_res (go_index (connected cfg) i) (\<lambda>b.
        if b then bind_res (state_of obs i cfg) (\<lambda>(term, leader). Inr (if leader then add_leader term i leaders else leaders))
        else Inr leaders)) (peer_list cfg) []"

definition lastTermWithLeader :: "(int \<times> int list) list \<Rightarrow> int res" where
  "lastTermWithLeader leaders =
     fold_res (\<lambda>(term, ls) last.
        if length ls > 1 then Inl (LogFatal ''term has more than one leader'') else Inr (if term > last then term else last)) leaders (-1)"

text \<open>The elements of \<open>looks\<close> are the observations of the iterations; the code makes ten.\<close>

fun checkOneLeader :: "(int \<Rightarrow> int \<times> bool) list \<Rightarrow> 'c config \<Rightarrow> int res" where
  "checkOneLeader [] cfg = Inl (LogFatal ''expected one leader, got none'')"
| "checkOneLeader (obs # looks) cfg =
     bind_res (collect_leaders obs cfg) (\<lambda>leaders.
     bind_res (lastTermWithLeader leaders) (\<lambda>last.
       if leaders \<noteq> []
       then (case map_of leaders last of Some ls \<Rightarrow> go_index ls 0 | None \<Rightarrow> Inl IndexOutOfRange)
       else checkOneLeader looks cfg))"

definition checkTerms :: "(int \<Rightarrow> int \<times> bool) \<Rightarrow> 'c config \<Rightarrow> int res" where
  "checkTerms obs cfg =
     fold_res (\<lambda>i term. bind_res (go_index (connected cfg) i) (\<lambda>b.
        if b then bind_res (state_of obs i cfg) (\<lambda>(xterm, _).
               if term = -1 then Inr xterm
               else if term \<noteq> xterm then Inl (LogFatal ''servers disagree on term'') else Inr term)
        else Inr term)) (peer_list cfg) (-1)"

definition checkNoLeader :: "(int \<Rightarrow> int \<times> bool) \<Rightarrow> 'c config \<Rightarrow> unit res" where
  "checkNoLeader obs cfg =
     fold_res (\<lambda>i u. bind_res (go_index (connected cfg) i) (\<lambda>b.
        if b then bind_res (state_of obs i cfg) (\<lambda>(_, is_leader).
               if is_leader then Inl (LogFatal ''expected no leader'') else Inr ())
        else Inr ())) (peer_list cfg) ()"

definition nCommitted :: "int \<Rightarrow> 'c config \<Rightarrow> (int \<times> 'c option) res" where
  "nCommitted idx cfg =
     fold_res (\<lambda>i (cnt, cmd).
        bind_res (go_index (applyErr cfg) (int i)) (\<lambda>err.
        if err \<noteq> '''' then Inl (LogFatal err)
        else bind_res (go_index (logs cfg) (int i)) (\<lambda>lg.
          case lg idx of
            None \<Rightarrow> Inr (cnt, cmd)
          | Some cmd1 \<Rightarrow> if cnt > 0 \<and> cmd \<noteq> cmd1 then Inl (LogFatal ''committed values do not match'')
                           else Inr (cnt + 1, cmd1))))
       [0..<length (crafts cfg)] (0, None)"

text \<open>
  In \<open>wait\<close> and \<open>one\<close> the other goroutines run between the steps of the test: each element of a
  list is one iteration, with what happens to the configuration meanwhile. The clock decides the
  length of the lists (30 iterations in \<open>wait\<close>).
\<close>

fun moved_on :: "(int \<Rightarrow> int \<times> bool) \<Rightarrow> int \<Rightarrow> int list \<Rightarrow> 'c config \<Rightarrow> bool res" where
  "moved_on obs startTerm [] cfg = Inr False"
| "moved_on obs startTerm (i # is) cfg =
     bind_res (state_of obs i cfg) (\<lambda>(t, _). if t > startTerm then Inr True else moved_on obs startTerm is cfg)"

fun wait_loop :: "int \<Rightarrow> int \<Rightarrow> int \<Rightarrow> (('c config \<Rightarrow> 'c config) \<times> (int \<Rightarrow> int \<times> bool)) list \<Rightarrow> 'c config \<Rightarrow> ('c config \<times> bool) res" where
  "wait_loop idx n startTerm [] cfg = Inr (cfg, False)"
| "wait_loop idx n startTerm ((env, obs) # iters) cfg =
     bind_res (nCommitted idx cfg) (\<lambda>(nd, _).
       if nd \<ge> n then Inr (cfg, False)
       else (let cfg1 = env cfg in
         bind_res (if startTerm > -1 then moved_on obs startTerm (map int [0..<length (crafts cfg1)]) cfg1 else Inr False) (\<lambda>gone.
           if gone then Inr (cfg1, True) else wait_loop idx n startTerm iters cfg1)))"

text \<open>The result \<open>None\<close> is \<open>-1\<close>: somebody has moved on to a later term.\<close>

definition wait :: "int \<Rightarrow> int \<Rightarrow> int \<Rightarrow> (('c config \<Rightarrow> 'c config) \<times> (int \<Rightarrow> int \<times> bool)) list \<Rightarrow> 'c config \<Rightarrow> ('c config \<times> 'c option option) res" where
  "wait idx n startTerm iters cfg =
     bind_res (wait_loop idx n startTerm iters cfg) (\<lambda>(cfg1, gone).
       if gone then Inr (cfg1, None)
       else bind_res (nCommitted idx cfg1) (\<lambda>(nd, cmd).
         if nd < n then Inl (LogFatal ''not enough servers decided'') else Inr (cfg1, Some cmd)))"

text \<open>\<open>k\<close> iterations of the loop over the servers.\<close>

fun try_servers :: "'c option \<Rightarrow> nat \<Rightarrow> int \<Rightarrow> 'c config \<Rightarrow> ('c config \<times> int \<times> int) res" where
  "try_servers cmd 0 starts cfg = Inr (cfg, starts, -1)"
| "try_servers cmd (Suc k) starts cfg =
     bind_res (go_mod (starts + 1) (int (cn cfg))) (\<lambda>starts1.
     bind_res (go_index (connected cfg) starts1) (\<lambda>b.
     bind_res (if b then go_index (crafts cfg) starts1 else Inr None) (\<lambda>rf.
       case rf of
         None \<Rightarrow> try_servers cmd k starts1 cfg
       | Some r \<Rightarrow>
           bind_res (Start cmd r) (\<lambda>(r', index1, _, ok).
           bind_res (go_update (crafts cfg) starts1 (Some r')) (\<lambda>rs.
             if ok then Inr (cfg\<lparr>crafts := rs\<rparr>, starts1, index1) else try_servers cmd k starts1 (cfg\<lparr>crafts := rs\<rparr>))))))"

fun agree_loop :: "'c option \<Rightarrow> int \<Rightarrow> int \<Rightarrow> ('c config \<Rightarrow> 'c config) list \<Rightarrow> 'c config \<Rightarrow> ('c config \<times> bool) res" where
  "agree_loop cmd expectedServers idx [] cfg = Inr (cfg, False)"
| "agree_loop cmd expectedServers idx (env # polls) cfg =
     bind_res (nCommitted idx cfg) (\<lambda>(nd, cmd1).
       if nd > 0 \<and> nd \<ge> expectedServers \<and> cmd1 = cmd then Inr (cfg, True)
       else agree_loop cmd expectedServers idx polls (env cfg))"

fun one_loop :: "'c option \<Rightarrow> int \<Rightarrow> bool \<Rightarrow> (('c config \<Rightarrow> 'c config) list \<times> ('c config \<Rightarrow> 'c config)) list \<Rightarrow> int \<Rightarrow> 'c config \<Rightarrow>
  ('c config \<times> int) res" where
  "one_loop cmd expectedServers retry [] starts cfg = Inl (LogFatal ''failed to reach agreement'')"
| "one_loop cmd expectedServers retry ((polls, env) # rounds) starts cfg =
     bind_res (try_servers cmd (cn cfg) starts cfg) (\<lambda>(cfg1, starts1, index).
       if index \<noteq> -1
       then bind_res (agree_loop cmd expectedServers index polls cfg1) (\<lambda>(cfg2, ok).
              if ok then Inr (cfg2, index)
              else if retry = False then Inl (LogFatal ''failed to reach agreement'')
              else one_loop cmd expectedServers retry rounds starts1 (env cfg2))
       else one_loop cmd expectedServers retry rounds starts1 (env cfg1))"

definition one :: "'c option \<Rightarrow> int \<Rightarrow> bool \<Rightarrow> (('c config \<Rightarrow> 'c config) list \<times> ('c config \<Rightarrow> 'c config)) list \<Rightarrow> 'c config \<Rightarrow>
  ('c config \<times> int) res" where
  "one cmd expectedServers retry rounds cfg = one_loop cmd expectedServers retry rounds 0 cfg"

definition begin_test :: "int \<Rightarrow> 'c config \<Rightarrow> 'c config" where
  "begin_test now cfg =
     cfg\<lparr>t0 := now, rpcs0 := rpcTotal cfg, bytes0 := bytesTotal cfg, cmds0 := 0, maxIndex0 := maxIndex cfg\<rparr>"

text \<open>The numbers that are printed, when the test has not failed.\<close>

definition end_test :: "int \<Rightarrow> bool \<Rightarrow> 'c config \<Rightarrow> (int \<times> nat \<times> int \<times> int \<times> int) option res" where
  "end_test now failed cfg =
     bind_res (checkTimeout now failed cfg) (\<lambda>_.
       Inr (if failed = False
            then Some (now - t0 cfg, cn cfg, rpcTotal cfg - rpcs0 cfg, bytesTotal cfg - bytes0 cfg, maxIndex cfg - maxIndex0 cfg)
            else None))"

end
