(* ===== verification/Harness_Wiring.thy ===== *)
theory Harness_Wiring
  imports Harness_Raft
begin

section \<open>How the harness wires the network\<close>

text \<open>
  What connecting, disconnecting, crashing and starting peers does to the ends of the simulated
  network, in every run of the harness.
\<close>

subsection \<open>Enabling and disabling ends\<close>

definition has_ends :: "'c config \<Rightarrow> nat \<Rightarrow> bool" where
  "has_ends cfg i \<longleftrightarrow> i < cn cfg \<and> endnames cfg ! i \<noteq> None"

definition name :: "'c config \<Rightarrow> nat \<Rightarrow> nat \<Rightarrow> string" where
  "name cfg i j = the (endnames cfg ! i) ! j"

definition shaped :: "'c config \<Rightarrow> bool" where
  "shaped cfg \<longleftrightarrow>
     length (connected cfg) = cn cfg \<and> length (endnames cfg) = cn cfg \<and> length (crafts cfg) = cn cfg \<and> length (csaved cfg) = cn cfg \<and>
     (\<forall>i < cn cfg. \<forall>l. endnames cfg ! i = Some l \<longrightarrow> length l = cn cfg)"

definition enable_all :: "string set \<Rightarrow> bool \<Rightarrow> (string, int) Network \<Rightarrow> (string, int) Network" where
  "enable_all S b rn = rn\<lparr>enabled := (\<lambda>e. if e \<in> S then b else enabled rn e)\<rparr>"

lemma enable_all_simps [simp]:
  "ends (enable_all S b rn) = ends rn" "connections (enable_all S b rn) = connections rn" "servers (enable_all S b rn) = servers rn"
  "enabled (enable_all S b rn) e = (if e \<in> S then b else enabled rn e)"
  by (simp_all add: enable_all_def)

lemma enabled_all_cases:
  "enabled (enable_all S True rn) e \<longleftrightarrow> e \<in> S \<or> enabled rn e" "enabled (enable_all S False rn) e \<longleftrightarrow> e \<notin> S \<and> enabled rn e"
  by (auto simp: enable_all_def)

lemma enable_all_twice [simp]: "enable_all T b (enable_all S b rn) = enable_all (S \<union> T) b rn"
  by (rule Network.equality) (auto simp: enable_all_def fun_eq_iff)

lemma Enable_all: "Enable e b rn = enable_all {e} b rn"
  by (auto simp: Enable_def enable_all_def fun_eq_iff)

lemma enable_none [simp]: "enable_all {} b rn = rn"
  by (simp add: enable_all_def)

lemma set_end_ok:
  assumes "shaped cfg" and "has_ends cfg i" and "j < cn cfg"
  shows "set_end (int i) (int j) b (cfg\<lparr>cnet := rn\<rparr>) = Inr (cfg\<lparr>cnet := enable_all {name cfg i j} b rn\<rparr>)"
  using assms by (auto simp: set_end_def end_at_def shaped_def has_ends_def name_def Enable_all)

text \<open>A loop that sets the ends \<open>f j\<close> of the peers with \<open>P j\<close>.\<close>

lemma set_loop:
  assumes "\<And>j rn. j < n \<Longrightarrow> step (int j) (cfg\<lparr>cnet := rn\<rparr>) = Inr (if P j then cfg\<lparr>cnet := enable_all {f j} b rn\<rparr> else cfg\<lparr>cnet := rn\<rparr>)"
  shows "fold_res step (map int [0..<n]) (cfg\<lparr>cnet := rn\<rparr>) = Inr (cfg\<lparr>cnet := enable_all {f j |j. j < n \<and> P j} b rn\<rparr>)"
  using assms
proof (induction n)
  case (Suc n)
  have "{f j |j. j < Suc n \<and> P j} = {f j |j. j < n \<and> P j} \<union> (if P n then {f n} else {})" by (auto simp: less_Suc_eq)
  then show ?case using Suc by (simp add: fold_res_snoc)
qed simp

lemma connect_ok:
  assumes sh: "shaped cfg" and "has_ends cfg i" and up: "\<And>j. j < cn cfg \<Longrightarrow> connected cfg ! j \<Longrightarrow> has_ends cfg j"
  shows "connect (int i) cfg = Inr (cfg\<lparr>connected := (connected cfg)[i := True],
    cnet := enable_all ({name cfg i j |j. j < cn cfg \<and> (connected cfg)[i := True] ! j} \<union>
                        {name cfg j i |j. j < cn cfg \<and> (connected cfg)[i := True] ! j}) True (cnet cfg)\<rparr>)"
proof -
  let ?cs = "(connected cfg)[i := True]"
  let ?c = "cfg\<lparr>connected := ?cs\<rparr>"
  have i: "i < cn cfg" using assms(2) by (simp add: has_ends_def)
  have c: "shaped ?c" "has_ends ?c i" "cn ?c = cn cfg" "name ?c = name cfg" using sh assms(2)
    by (auto simp: shaped_def has_ends_def name_def fun_eq_iff)
  have hj: "has_ends ?c j" if "j < cn cfg" "?cs ! j" for j
    using up [of j] that assms(2) sh i by (cases "j = i") (auto simp: has_ends_def shaped_def)
  have len: "length ?cs = cn cfg" using sh by (simp add: shaped_def)
  let ?S = "{name cfg i j |j. j < cn cfg \<and> ?cs ! j}" and ?T = "{name cfg j i |j. j < cn cfg \<and> ?cs ! j}"
  let ?out = "\<lambda>j c. bind_res (go_index (connected c) j) (\<lambda>b. if b then set_end (int i) j True c else Inr c)"
  let ?inc = "\<lambda>j c. bind_res (go_index (connected c) j) (\<lambda>b. if b then set_end j (int i) True c else Inr c)"
  have "fold_res ?out (map int [0..<cn cfg]) (?c\<lparr>cnet := cnet cfg\<rparr>) = Inr (?c\<lparr>cnet := enable_all ?S True (cnet cfg)\<rparr>)"
    by (rule set_loop) (use set_end_ok [OF c(1,2)] c(3,4) len in simp)
  moreover have "fold_res ?inc (map int [0..<cn cfg]) (?c\<lparr>cnet := rn\<rparr>) = Inr (?c\<lparr>cnet := enable_all ?T True rn\<rparr>)" for rn
    by (rule set_loop) (use set_end_ok [OF c(1) hj] c(3,4) len i in simp)
  moreover have "?c\<lparr>cnet := cnet cfg\<rparr> = ?c" by simp
  ultimately show ?thesis
    using sh i by (simp add: connect_def peer_list_def go_update_def go_len_def shaped_def)
qed

lemma disconnect_ok:
  assumes sh: "shaped cfg" and i: "i < cn cfg"
  shows "disconnect (int i) cfg = Inr (cfg\<lparr>connected := (connected cfg)[i := False],
    cnet := enable_all ({name cfg i j |j. j < cn cfg \<and> has_ends cfg i} \<union> {name cfg j i |j. j < cn cfg \<and> has_ends cfg j}) False (cnet cfg)\<rparr>)"
proof -
  let ?c = "cfg\<lparr>connected := (connected cfg)[i := False]\<rparr>"
  have c: "shaped ?c" "cn ?c = cn cfg" "name ?c = name cfg" "has_ends ?c = has_ends cfg" "endnames ?c = endnames cfg" using sh
    by (auto simp: shaped_def has_ends_def name_def fun_eq_iff)
  have len: "length (endnames cfg) = cn cfg" using sh by (simp add: shaped_def)
  let ?S = "{name cfg i j |j. j < cn cfg \<and> has_ends cfg i}" and ?T = "{name cfg j i |j. j < cn cfg \<and> has_ends cfg j}"
  let ?out = "\<lambda>j c. bind_res (go_index (endnames c) (int i)) (\<lambda>es. if es \<noteq> None then set_end (int i) j False c else Inr c)"
  let ?inc = "\<lambda>j c. bind_res (go_index (endnames c) j) (\<lambda>es. if es \<noteq> None then set_end j (int i) False c else Inr c)"
  have he: "has_ends cfg j \<longleftrightarrow> endnames cfg ! j \<noteq> None" if "j < cn cfg" for j using that by (simp add: has_ends_def)
  have "fold_res ?out (map int [0..<cn cfg]) (?c\<lparr>cnet := cnet cfg\<rparr>) = Inr (?c\<lparr>cnet := enable_all ?S False (cnet cfg)\<rparr>)"
    by (rule set_loop) (use set_end_ok [OF c(1), of i] c len i he [OF i] in simp)
  moreover have "fold_res ?inc (map int [0..<cn cfg]) (?c\<lparr>cnet := rn\<rparr>) = Inr (?c\<lparr>cnet := enable_all ?T False rn\<rparr>)" for rn
    by (rule set_loop) (use set_end_ok [OF c(1)] c len i he in simp)
  moreover have "?c\<lparr>cnet := cnet cfg\<rparr> = ?c" by simp
  ultimately show ?thesis
    using sh i by (simp add: disconnect_def peer_list_def go_update_def go_len_def shaped_def)
qed

subsection \<open>New ends\<close>

lemma new_ends_ok:
  assumes "new_ends names rn = Inr rn'"
  shows "distinct names \<and> set names \<inter> ends rn = {} \<and> ends rn' = ends rn \<union> set names \<and> servers rn' = servers rn \<and>
    (\<forall>e. enabled rn' e \<longleftrightarrow> e \<notin> set names \<and> enabled rn e) \<and>
    (\<forall>j < length names. connections rn' (names ! j) = Some (int j)) \<and> (\<forall>e. e \<notin> set names \<longrightarrow> connections rn' e = connections rn e)"
proof -
  let ?step = "\<lambda>j rn. bind_res (MakeEnd (names ! j) rn) (\<lambda>rn1. Inr (Connect (names ! j) (int j) rn1))"
  have "distinct (take k names) \<and> set (take k names) \<inter> ends rn = {} \<and> ends r = ends rn \<union> set (take k names) \<and> servers r = servers rn \<and>
      (\<forall>e. enabled r e \<longleftrightarrow> e \<notin> set (take k names) \<and> enabled rn e) \<and>
      (\<forall>j < k. connections r (names ! j) = Some (int j)) \<and> (\<forall>e. e \<notin> set (take k names) \<longrightarrow> connections r e = connections rn e)"
    if "k \<le> length names" "fold_res ?step [0..<k] rn = Inr r" for k r
    using that
  proof (induction k arbitrary: r)
    case (Suc k)
    obtain r1 where r1: "fold_res ?step [0..<k] rn = Inr r1" "?step k r1 = Inr r"
      using Suc.prems(2) by (auto simp: fold_res_snoc bind_res_eq_Inr)
    note IH = Suc.IH [OF _ r1(1)]
    have r: "names ! k \<notin> ends r1" "ends r = insert (names ! k) (ends r1)" "servers r = servers r1"
      "enabled r = (enabled r1)(names ! k := False)" "connections r = (connections r1)(names ! k := Some (int k))"
      using r1(2) by (auto simp: MakeEnd_def Connect_def bind_res_eq_Inr split: if_splits)
    have tk: "take (Suc k) names = take k names @ [names ! k]" using Suc.prems(1) by (simp add: take_Suc_conv_app_nth)
    have fresh: "names ! k \<notin> set (take k names)" "names ! k \<notin> ends rn" using IH r(1) Suc.prems(1) by auto
    have "names ! j \<noteq> names ! k" if "j < k" for j using fresh(1) that Suc.prems(1) by (metis in_set_conv_nth length_take min.absorb2 nth_take Suc_leD)
    then show ?case using IH Suc.prems(1) fresh unfolding tk r by (auto simp: less_Suc_eq)
  qed simp
  from this [of "length names" rn'] assms show ?thesis by (simp add: new_ends_def)
qed

subsection \<open>The wiring of the network\<close>

text \<open>
  Every running instance of a peer has its own ends, one to each peer; exactly the ends between two
  connected peers are enabled; a peer is reachable exactly while it runs.
\<close>

definition wired :: "'c config \<Rightarrow> bool" where
  "wired cfg \<longleftrightarrow>
     shaped cfg \<and>
     (\<forall>i j i' j'. has_ends cfg i \<longrightarrow> has_ends cfg i' \<longrightarrow> j < cn cfg \<longrightarrow> j' < cn cfg \<longrightarrow> name cfg i j = name cfg i' j' \<longrightarrow> i = i' \<and> j = j') \<and>
     (\<forall>i j. has_ends cfg i \<longrightarrow> j < cn cfg \<longrightarrow> name cfg i j \<in> ends (cnet cfg) \<and> connections (cnet cfg) (name cfg i j) = Some (int j)) \<and>
     (\<forall>e. enabled (cnet cfg) e \<longleftrightarrow> (\<exists>i < cn cfg. \<exists>j < cn cfg. connected cfg ! i \<and> connected cfg ! j \<and> e = name cfg i j)) \<and>
     (\<forall>i < cn cfg. connected cfg ! i \<longrightarrow> has_ends cfg i) \<and>
     (\<forall>i < cn cfg. crafts cfg ! i \<noteq> None \<longleftrightarrow> servers (cnet cfg) (int i) \<noteq> None) \<and>
     (\<forall>i < cn cfg. crafts cfg ! i \<noteq> None \<longrightarrow> csaved cfg ! i \<noteq> None)"

lemma wired_shaped: "wired cfg \<Longrightarrow> shaped cfg"
  by (simp add: wired_def)

lemma wiredI:
  assumes "shaped cfg"
    and "\<And>i j i' j'. has_ends cfg i \<Longrightarrow> has_ends cfg i' \<Longrightarrow> j < cn cfg \<Longrightarrow> j' < cn cfg \<Longrightarrow> name cfg i j = name cfg i' j' \<Longrightarrow> i = i' \<and> j = j'"
    and "\<And>i j. has_ends cfg i \<Longrightarrow> j < cn cfg \<Longrightarrow> name cfg i j \<in> ends (cnet cfg) \<and> connections (cnet cfg) (name cfg i j) = Some (int j)"
    and "\<And>e. enabled (cnet cfg) e \<longleftrightarrow> (\<exists>i < cn cfg. \<exists>j < cn cfg. connected cfg ! i \<and> connected cfg ! j \<and> e = name cfg i j)"
    and "\<And>i. i < cn cfg \<Longrightarrow> connected cfg ! i \<Longrightarrow> has_ends cfg i"
    and "\<And>i. i < cn cfg \<Longrightarrow> crafts cfg ! i \<noteq> None \<longleftrightarrow> servers (cnet cfg) (int i) \<noteq> None"
    and "\<And>i. i < cn cfg \<Longrightarrow> crafts cfg ! i \<noteq> None \<Longrightarrow> csaved cfg ! i \<noteq> None"
  shows "wired cfg"
  unfolding wired_def using assms by simp

lemma wiredD:
  assumes "wired cfg"
  shows "has_ends cfg i \<Longrightarrow> has_ends cfg i' \<Longrightarrow> j < cn cfg \<Longrightarrow> j' < cn cfg \<Longrightarrow> name cfg i j = name cfg i' j' \<Longrightarrow> i = i' \<and> j = j'"
    and "has_ends cfg i \<Longrightarrow> j < cn cfg \<Longrightarrow> name cfg i j \<in> ends (cnet cfg)"
    and "has_ends cfg i \<Longrightarrow> j < cn cfg \<Longrightarrow> connections (cnet cfg) (name cfg i j) = Some (int j)"
    and "enabled (cnet cfg) e \<longleftrightarrow> (\<exists>i < cn cfg. \<exists>j < cn cfg. connected cfg ! i \<and> connected cfg ! j \<and> e = name cfg i j)"
    and "i < cn cfg \<Longrightarrow> connected cfg ! i \<Longrightarrow> has_ends cfg i"
    and "i < cn cfg \<Longrightarrow> crafts cfg ! i \<noteq> None \<longleftrightarrow> servers (cnet cfg) (int i) \<noteq> None"
    and "i < cn cfg \<Longrightarrow> crafts cfg ! i \<noteq> None \<Longrightarrow> csaved cfg ! i \<noteq> None"
  using assms unfolding wired_def by simp_all

definition same_ends :: "'c config \<Rightarrow> 'c config \<Rightarrow> bool" where
  "same_ends cfg cfg' \<longleftrightarrow> cn cfg' = cn cfg \<and> endnames cfg' = endnames cfg \<and> ends (cnet cfg') = ends (cnet cfg)"

text \<open>Operations that only switch ends and connections.\<close>

lemma wired_switch:
  assumes w: "wired cfg" and len: "length cs = cn cfg"
    and en: "\<And>e. enabled rn e \<longleftrightarrow> (\<exists>i < cn cfg. \<exists>j < cn cfg. cs ! i \<and> cs ! j \<and> e = name cfg i j)"
    and rn: "ends rn = ends (cnet cfg)" "connections rn = connections (cnet cfg)" "servers rn = servers (cnet cfg)"
    and up: "\<And>i. i < cn cfg \<Longrightarrow> cs ! i \<Longrightarrow> has_ends cfg i"
  shows "wired (cfg\<lparr>connected := cs, cnet := rn\<rparr>)"
proof -
  let ?c = "cfg\<lparr>connected := cs, cnet := rn\<rparr>"
  have "shaped ?c" "has_ends ?c = has_ends cfg" "name ?c = name cfg"
    using wired_shaped [OF w] len by (auto simp: shaped_def has_ends_def name_def fun_eq_iff)
  then show ?thesis using w en up unfolding wired_def by (simp add: rn)
qed

lemma pairs_join:
  assumes "\<And>j. j < n \<Longrightarrow> Q j \<longleftrightarrow> j = i \<or> P j" and "i < n"
  shows "e \<in> {f i j |j. j < n \<and> Q j} \<union> {f j i |j. j < n \<and> Q j} \<or> (\<exists>k < n. \<exists>l < n. P k \<and> P l \<and> e = f k l) \<longleftrightarrow>
    (\<exists>k < n. \<exists>l < n. Q k \<and> Q l \<and> e = f k l)"
  (is "?l \<longleftrightarrow> ?r")
proof
  assume ?r
  then obtain k l where kl: "k < n" "l < n" "Q k" "Q l" "e = f k l" by blast
  show ?l
  proof (cases "k = i \<or> l = i")
    case True
    then show ?thesis using kl by blast
  next
    case False
    then have "P k" "P l" using assms(1) kl by auto
    then show ?thesis using kl by blast
  qed
next
  assume ?l
  then show ?r using assms by blast
qed

lemma pairs_leave:
  assumes "\<And>j. j < n \<Longrightarrow> Q j \<longleftrightarrow> j \<noteq> i \<and> P j" and "\<And>k l. k < n \<Longrightarrow> l < n \<Longrightarrow> P k \<Longrightarrow> e = f k l \<Longrightarrow> M \<longleftrightarrow> k = i \<or> l = i"
  shows "\<not> M \<and> (\<exists>k < n. \<exists>l < n. P k \<and> P l \<and> e = f k l) \<longleftrightarrow> (\<exists>k < n. \<exists>l < n. Q k \<and> Q l \<and> e = f k l)"
  (is "?l \<longleftrightarrow> ?r")
proof
  assume ?l
  then obtain k l where kl: "k < n" "l < n" "P k" "P l" "e = f k l" and "\<not> M" by blast
  then have "k \<noteq> i" "l \<noteq> i" using assms(2) by blast+
  then have "Q k" "Q l" using assms(1) kl by auto
  then show ?r using kl by blast
next
  assume ?r
  then obtain k l where kl: "k < n" "l < n" "Q k" "Q l" "e = f k l" by blast
  then have p: "P k" "P l" "k \<noteq> i" "l \<noteq> i" using assms(1) by auto
  then have "\<not> M" using assms(2) kl by blast
  then show ?l using kl p by blast
qed

lemma wired_connect:
  assumes w: "wired cfg" and i: "has_ends cfg i"
  shows "\<exists>cfg'. connect (int i) cfg = Inr cfg' \<and> wired cfg' \<and> same_ends cfg cfg'"
proof -
  have sh: "shaped cfg" and ic: "i < cn cfg" using w i by (auto simp: wired_def has_ends_def)
  have up: "has_ends cfg j" if "j < cn cfg" "connected cfg ! j" for j using w that by (simp add: wired_def)
  let ?cs = "(connected cfg)[i := True]"
  let ?S = "{name cfg i j |j. j < cn cfg \<and> ?cs ! j} \<union> {name cfg j i |j. j < cn cfg \<and> ?cs ! j}"
  have cs: "?cs ! j \<longleftrightarrow> j = i \<or> connected cfg ! j" if "j < cn cfg" for j
    using that ic sh by (auto simp: shaped_def nth_list_update)
  have "wired (cfg\<lparr>connected := ?cs, cnet := enable_all ?S True (cnet cfg)\<rparr>)"
  proof (rule wired_switch [OF w])
    fix e
    have "enabled (cnet cfg) e \<longleftrightarrow> (\<exists>i < cn cfg. \<exists>j < cn cfg. connected cfg ! i \<and> connected cfg ! j \<and> e = name cfg i j)"
      using w by (simp add: wired_def)
    with pairs_join [of "cn cfg" "(!) ?cs" i "(!) (connected cfg)" e "name cfg", OF cs ic]
    show "enabled (enable_all ?S True (cnet cfg)) e \<longleftrightarrow> (\<exists>i < cn cfg. \<exists>j < cn cfg. ?cs ! i \<and> ?cs ! j \<and> e = name cfg i j)"
      by (simp only: enabled_all_cases)
  qed (use sh up i cs in \<open>auto simp: shaped_def\<close>)
  then show ?thesis using connect_ok [OF sh i up] by (simp add: same_ends_def)
qed

lemma wired_disconnect:
  assumes w: "wired cfg" and ic: "i < cn cfg"
  shows "\<exists>cfg'. disconnect (int i) cfg = Inr cfg' \<and> wired cfg' \<and> same_ends cfg cfg'"
proof -
  have sh: "shaped cfg" using w by (rule wired_shaped)
  have up: "has_ends cfg j" if "j < cn cfg" "connected cfg ! j" for j using w that by (simp add: wired_def)
  have inj: "i1 = i2 \<and> j1 = j2" if "has_ends cfg i1" "has_ends cfg i2" "j1 < cn cfg" "j2 < cn cfg" "name cfg i1 j1 = name cfg i2 j2" for i1 i2 j1 j2
    using w that by (auto simp: wired_def)
  let ?cs = "(connected cfg)[i := False]"
  let ?S = "{name cfg i j |j. j < cn cfg \<and> has_ends cfg i} \<union> {name cfg j i |j. j < cn cfg \<and> has_ends cfg j}"
  have cs: "?cs ! j \<longleftrightarrow> j \<noteq> i \<and> connected cfg ! j" if "j < cn cfg" for j
    using that ic sh by (auto simp: shaped_def nth_list_update)
  have "wired (cfg\<lparr>connected := ?cs, cnet := enable_all ?S False (cnet cfg)\<rparr>)"
  proof (rule wired_switch [OF w])
    fix e
    have en: "enabled (cnet cfg) e \<longleftrightarrow> (\<exists>i < cn cfg. \<exists>j < cn cfg. connected cfg ! i \<and> connected cfg ! j \<and> e = name cfg i j)"
      using w by (simp add: wired_def)
    have S: "e \<in> ?S \<longleftrightarrow> k = i \<or> l = i" if "k < cn cfg" "l < cn cfg" "connected cfg ! k" "e = name cfg k l" for k l
    proof
      assume "e \<in> ?S"
      then consider j where "j < cn cfg" "has_ends cfg i" "e = name cfg i j" | j where "has_ends cfg j" "e = name cfg j i" by blast
      then show "k = i \<or> l = i"
      proof cases
        case (1 j)
        then show ?thesis using inj [of k i l j] up [of k] that by simp
      next
        case (2 j)
        then show ?thesis using inj [of k j l i] up [of k] that ic by simp
      qed
    next
      assume "k = i \<or> l = i"
      then show "e \<in> ?S" using up [of k] that by blast
    qed
    from pairs_leave [of "cn cfg" "(!) ?cs" i "(!) (connected cfg)" e "name cfg" "e \<in> ?S", OF cs S] en
    show "enabled (enable_all ?S False (cnet cfg)) e \<longleftrightarrow> (\<exists>i < cn cfg. \<exists>j < cn cfg. ?cs ! i \<and> ?cs ! j \<and> e = name cfg i j)"
      by (simp only: enabled_all_cases)
  qed (use sh up cs in \<open>auto simp: shaped_def\<close>)
  then show ?thesis using disconnect_ok [OF sh ic] by (simp add: same_ends_def)
qed

subsection \<open>Crashes and restarts\<close>

lemma disconnect_frame:
  assumes "shaped cfg" and "i < cn cfg" and "disconnect (int i) cfg = Inr cfg'"
  shows "crafts cfg' = crafts cfg" "csaved cfg' = csaved cfg" "logs cfg' = logs cfg" "maxIndex cfg' = maxIndex cfg"
    "servers (cnet cfg') = servers (cnet cfg)" "connected cfg' = (connected cfg)[i := False]" "applyErr cfg' = applyErr cfg"
  using disconnect_ok [OF assms(1,2)] assms(3) by auto

lemma crash1_ok:
  assumes w: "wired cfg" and i: "i < cn cfg"
  obtains cfg1 cfg' where "disconnect (int i) cfg = Inr cfg1" "crash1 (int i) cfg = Inr cfg'"
    "cfg' = cfg1\<lparr>cnet := DeleteServer (int i) (cnet cfg1),
       csaved := (csaved cfg)[i := map_option kept (case crafts cfg ! i of Some rf \<Rightarrow> Some (persister rf) | None \<Rightarrow> csaved cfg ! i)],
       crafts := (crafts cfg)[i := None]\<rparr>"
    "wired cfg1" "wired cfg'" "same_ends cfg cfg'"
proof -
  obtain cfg1 where c1: "disconnect (int i) cfg = Inr cfg1" "wired cfg1" "same_ends cfg cfg1"
    using wired_disconnect [OF w i] by blast
  have sh: "shaped cfg" using w by (rule wired_shaped)
  note fr = disconnect_frame [OF sh i c1(1)]
  have len: "length (crafts cfg) = cn cfg" "length (csaved cfg) = cn cfg" "length (connected cfg) = cn cfg" using sh by (simp_all add: shaped_def)
  define ps where "ps = (case crafts cfg ! i of Some rf \<Rightarrow> Some (persister rf) | None \<Rightarrow> csaved cfg ! i)"
  define cfg' where "cfg' = cfg1\<lparr>cnet := DeleteServer (int i) (cnet cfg1),
    csaved := (csaved cfg)[i := map_option kept ps], crafts := (crafts cfg)[i := None]\<rparr>"
  have sv: "crafts cfg ! i \<noteq> None \<longrightarrow> csaved cfg ! i \<noteq> None" using w i by (simp add: wired_def)
  have "saved_now (int i) (cfg1\<lparr>cnet := DeleteServer (int i) (cnet cfg1)\<rparr>) = Inr ps"
    using fr len i sv by (auto simp: saved_now_def ps_def split: option.splits)
  then have crash: "crash1 (int i) cfg = Inr cfg'"
    using c1(1) fr len i
    by (simp add: crash1_def cfg'_def go_update_def go_len_def option.map_comp comp_def kept_def [abs_def])
  have n: "cn cfg1 = cn cfg" using c1(3) by (simp add: same_ends_def)
  have sh': "shaped cfg'" and nm: "has_ends cfg' = has_ends cfg1" "name cfg' = name cfg1"
    using wired_shaped [OF c1(2)] len n by (auto simp: cfg'_def shaped_def has_ends_def name_def fun_eq_iff)
  note d = wiredD [OF c1(2)]
  have net: "ends (cnet cfg') = ends (cnet cfg1)" "connections (cnet cfg') = connections (cnet cfg1)" "enabled (cnet cfg') = enabled (cnet cfg1)"
    "servers (cnet cfg') = (servers (cnet cfg1))(int i := None)" "connected cfg' = connected cfg1" "cn cfg' = cn cfg1"
    "crafts cfg' = (crafts cfg1)[i := None]" "csaved cfg' = (csaved cfg1)[i := map_option kept ps]"
    by (simp_all add: cfg'_def DeleteServer_def fr)
  have "wired cfg'"
  proof (rule wiredI [OF sh'], unfold nm net)
    fix k assume k: "k < cn cfg1"
    show "(crafts cfg1)[i := None] ! k \<noteq> None \<longleftrightarrow> ((servers (cnet cfg1))(int i := None)) (int k) \<noteq> None"
      using d(6) [OF k] fr(1) len n k by (simp add: nth_list_update)
    show "(csaved cfg1)[i := map_option kept ps] ! k \<noteq> None" if "(crafts cfg1)[i := None] ! k \<noteq> None"
      using d(7) [OF k] that fr(1,2) len n k by (cases "k = i") simp_all
  qed (use d(1) in blast, use d(2,3) in blast, rule d(4), rule d(5))
  moreover have "same_ends cfg cfg'" using c1(3) by (simp add: same_ends_def cfg'_def DeleteServer_def)
  ultimately show ?thesis using that [OF c1(1) crash] c1(2) by (simp add: cfg'_def ps_def)
qed

text \<open>A restart: the ends of the new instance are new, disabled, and lead to the peers.\<close>

lemma start1_ok:
  assumes w: "wired cfg" and i: "i < cn cfg" and st: "start1 randstring now rnd (int i) cfg = Inr cfg'"
  obtains cfg1 rn rf where "crash1 (int i) cfg = Inr cfg1" "wired cfg1" "same_ends cfg cfg1"
    "new_ends (map randstring [0..<cn cfg]) (cnet cfg1) = Inr rn"
    "Make now rnd (cn cfg) (int i) (case csaved cfg1 ! i of Some p \<Rightarrow> Copy p | None \<Rightarrow> MakePersister) = Inr rf"
    "cfg' = cfg1\<lparr>endnames := (endnames cfg)[i := Some (map randstring [0..<cn cfg])],
       csaved := (csaved cfg1)[i := Some (case csaved cfg1 ! i of Some p \<Rightarrow> Copy p | None \<Rightarrow> MakePersister)],
       crafts := (crafts cfg1)[i := Some rf], cnet := AddServer (int i) (nextsrv cfg1) rn, nextsrv := nextsrv cfg1 + 1,
       csrvs := (csrvs cfg1)(nextsrv cfg1 := raft_server (nextsrv cfg1))\<rparr>"
    "connected cfg1 ! i = False"
proof -
  obtain cfg0 cfg1 where c: "disconnect (int i) cfg = Inr cfg0" "crash1 (int i) cfg = Inr cfg1" "wired cfg1" "same_ends cfg cfg1"
    and con: "connected cfg1 = connected cfg0"
    by (rule crash1_ok [OF w i]) simp
  have n: "cn cfg1 = cn cfg" "endnames cfg1 = endnames cfg" using c(4) by (simp_all add: same_ends_def)
  have len: "length (connected cfg) = cn cfg" "length (endnames cfg) = cn cfg" using wired_shaped [OF w] by (auto simp: shaped_def)
  have len1: "length (csaved cfg1) = cn cfg" "length (crafts cfg1) = cn cfg" using wired_shaped [OF c(3)] n by (auto simp: shaped_def)
  have off: "connected cfg1 ! i = False" using con disconnect_frame(6) [OF wired_shaped [OF w] i c(1)] len i by simp
  obtain rn where rn: "new_ends (map randstring [0..<cn cfg]) (cnet cfg1) = Inr rn"
    using st c(2) n len i by (cases "new_ends (map randstring [0..<cn cfg]) (cnet cfg1)") (auto simp: start1_def Let_def go_update_def go_len_def)
  define ps where "ps = (case csaved cfg1 ! i of Some p \<Rightarrow> Copy p | None \<Rightarrow> MakePersister)"
  obtain rf where rf: "Make now rnd (cn cfg) (int i) ps = Inr rf"
    using st c(2) n len len1 i rn by (cases "Make now rnd (cn cfg) (int i) ps") (auto simp: start1_def Let_def go_update_def go_len_def ps_def)
  have "cfg' = cfg1\<lparr>endnames := (endnames cfg)[i := Some (map randstring [0..<cn cfg])], csaved := (csaved cfg1)[i := Some ps],
       crafts := (crafts cfg1)[i := Some rf], cnet := AddServer (int i) (nextsrv cfg1) rn, nextsrv := nextsrv cfg1 + 1,
       csrvs := (csrvs cfg1)(nextsrv cfg1 := raft_server (nextsrv cfg1))\<rparr>"
    using st c(2) n len len1 i rn rf by (simp add: start1_def Let_def go_update_def go_len_def ps_def raft_server_def)
  then show ?thesis using that [OF c(2,3,4) rn _ _ off] rf by (simp add: ps_def)
qed

text \<open>The ends a configuration uses at the moment.\<close>

definition current_ends :: "'c config \<Rightarrow> string set" where
  "current_ends cfg = {name cfg i j |i j. has_ends cfg i \<and> j < cn cfg}"

lemma wired_start1:
  assumes w: "wired cfg" and i: "i < cn cfg" and st: "start1 randstring now rnd (int i) cfg = Inr cfg'"
  shows "wired cfg' \<and> cn cfg' = cn cfg \<and> ends (cnet cfg') = ends (cnet cfg) \<union> set (map randstring [0..<cn cfg]) \<and>
    current_ends cfg' = {name cfg k j |k j. has_ends cfg k \<and> k \<noteq> i \<and> j < cn cfg} \<union> set (map randstring [0..<cn cfg]) \<and>
    set (map randstring [0..<cn cfg]) \<inter> ends (cnet cfg) = {} \<and> has_ends cfg' i \<and> (\<forall>k. has_ends cfg k \<longrightarrow> has_ends cfg' k)"
proof -
  let ?names = "map randstring [0..<cn cfg]"
  obtain cfg1 rn rf where c1: "wired cfg1" "same_ends cfg cfg1" and rn: "new_ends ?names (cnet cfg1) = Inr rn"
    and cfg': "cfg' = cfg1\<lparr>endnames := (endnames cfg)[i := Some ?names],
       csaved := (csaved cfg1)[i := Some (case csaved cfg1 ! i of Some p \<Rightarrow> Copy p | None \<Rightarrow> MakePersister)],
       crafts := (crafts cfg1)[i := Some rf], cnet := AddServer (int i) (nextsrv cfg1) rn, nextsrv := nextsrv cfg1 + 1,
       csrvs := (csrvs cfg1)(nextsrv cfg1 := raft_server (nextsrv cfg1))\<rparr>"
    and off: "connected cfg1 ! i = False"
    by (rule start1_ok [OF w i st])
  have n: "cn cfg1 = cn cfg" "endnames cfg1 = endnames cfg" "ends (cnet cfg1) = ends (cnet cfg)" using c1(2) by (simp_all add: same_ends_def)
  note ne = new_ends_ok [OF rn]
  have len: "length (endnames cfg) = cn cfg" using wired_shaped [OF w] by (auto simp: shaped_def)
  have len1: "length (csaved cfg1) = cn cfg" "length (crafts cfg1) = cn cfg" "length (connected cfg1) = cn cfg"
    using wired_shaped [OF c1(1)] n by (auto simp: shaped_def)
  have he: "has_ends cfg' k \<longleftrightarrow> k = i \<or> has_ends cfg1 k" for k using i len n by (auto simp: has_ends_def cfg' nth_list_update)
  have nm: "name cfg' k j = (if k = i then randstring j else name cfg1 k j)" if "j < cn cfg" for k j
    using i len n that by (auto simp: name_def cfg' nth_list_update)
  have old: "name cfg1 k j \<in> ends (cnet cfg)" "connections (cnet cfg1) (name cfg1 k j) = Some (int j)" if "has_ends cfg1 k" "j < cn cfg" for k j
    using c1(1) n that by (auto simp: wired_def)
  have disj: "set ?names \<inter> ends (cnet cfg) = {}" using ne n(3) by simp
  have new: "randstring j \<in> set ?names" if "j < cn cfg" for j using that by simp
  have inj: "j = j'" if "randstring j = randstring j'" "j < cn cfg" "j' < cn cfg" for j j'
    using ne that by (auto simp: distinct_conv_nth)
  have sh: "shaped cfg'" using wired_shaped [OF c1(1)] n len len1 i by (auto simp: shaped_def cfg' nth_list_update split: if_splits)
  note d = wiredD [OF c1(1)]
  have net: "ends (cnet cfg') = ends (cnet cfg) \<union> set ?names"  "servers (cnet cfg') = (servers (cnet cfg1))(int i := Some (nextsrv cfg1))"
    "cn cfg' = cn cfg" "connected cfg' = connected cfg1" "crafts cfg' = (crafts cfg1)[i := Some rf]" "csaved cfg' ! i \<noteq> None"
    using conjunct1 [OF conjunct2 [OF conjunct2 [OF ne]]] conjunct1 [OF conjunct2 [OF conjunct2 [OF conjunct2 [OF ne]]]] i len1 n
    by (simp_all add: cfg' AddServer_def)
  have en: "enabled (cnet cfg') e \<longleftrightarrow> e \<notin> set ?names \<and> enabled (cnet cfg1) e" for e using ne by (simp add: cfg' AddServer_def)
  have cnn: "connections (cnet cfg') e = (if e \<in> set ?names then connections rn e else connections (cnet cfg1) e)" for e
    using ne by (simp add: cfg' AddServer_def)
  have cnew: "connections rn (randstring j) = Some (int j)" if "j < cn cfg" for j using ne that by simp
  have fresh: "name cfg1 k j \<notin> set ?names" if "has_ends cfg1 k" "j < cn cfg" for k j using old(1) [OF that] disj by blast
  have "wired cfg'"
  proof (rule wiredI [OF sh], unfold net(3-5))
    fix k j k' j' assume "has_ends cfg' k" "has_ends cfg' k'" and j: "j < cn cfg" "j' < cn cfg" and eq: "name cfg' k j = name cfg' k' j'"
    then show "k = k' \<and> j = j'"
      using inj [OF _ j] d(1) [of k k' j j'] fresh new n unfolding nm [OF j(1)] nm [OF j(2)] he by (metis (full_types))
  next
    fix k j assume k: "has_ends cfg' k" and j: "j < cn cfg"
    show "name cfg' k j \<in> ends (cnet cfg') \<and> connections (cnet cfg') (name cfg' k j) = Some (int j)"
      using k old [of k j] fresh [of k j] new [OF j] cnew [OF j] j unfolding nm [OF j] he net(1) cnn by auto
  next
    fix e
    have "name cfg' k j = name cfg1 k j" if "connected cfg1 ! k" "j < cn cfg" for k j using nm [OF that(2)] off that(1) by auto
    moreover have "name cfg1 k j \<notin> set ?names" if "k < cn cfg" "connected cfg1 ! k" "j < cn cfg" for k j
      using d(5) [of k] fresh [of k j] n that by simp
    ultimately show "enabled (cnet cfg') e \<longleftrightarrow> (\<exists>k < cn cfg. \<exists>j < cn cfg. connected cfg1 ! k \<and> connected cfg1 ! j \<and> e = name cfg' k j)"
      unfolding en d(4) n(1) by metis
  next
    fix k assume k: "k < cn cfg"
    show "has_ends cfg' k" if "connected cfg1 ! k" using d(5) [of k] k n that he by simp
    show "(crafts cfg1)[i := Some rf] ! k \<noteq> None \<longleftrightarrow> servers (cnet cfg') (int k) \<noteq> None"
      using d(6) [of k] k n len1 net(2) by (cases "k = i") simp_all
    show "csaved cfg' ! k \<noteq> None" if "(crafts cfg1)[i := Some rf] ! k \<noteq> None"
      using d(7) [of k] net(6) k n len1 that by (cases "k = i") (simp_all add: cfg')
  qed
  moreover have "has_ends cfg1 = has_ends cfg" "name cfg1 = name cfg" using n by (auto simp: has_ends_def name_def fun_eq_iff)
  moreover from this have "current_ends cfg' = {name cfg k j |k j. has_ends cfg k \<and> k \<noteq> i \<and> j < cn cfg} \<union> set ?names"
    unfolding current_ends_def net(3) using he nm by (auto; metis)
  ultimately show ?thesis using net disj he by simp
qed

subsection \<open>Starting succeeds\<close>

lemma new_ends_total:
  assumes "distinct names" and "set names \<inter> ends rn = {}"
  shows "\<exists>rn'. new_ends names rn = Inr rn'"
proof -
  let ?step = "\<lambda>j rn. bind_res (MakeEnd (names ! j) rn) (\<lambda>rn1. Inr (Connect (names ! j) (int j) rn1))"
  have "\<exists>r. fold_res ?step [0..<k] rn = Inr r \<and> ends r = ends rn \<union> set (take k names)" if "k \<le> length names" for k
    using that
  proof (induction k)
    case (Suc k)
    then obtain r where r: "fold_res ?step [0..<k] rn = Inr r" "ends r = ends rn \<union> set (take k names)" by auto
    have tk: "take (Suc k) names = take k names @ [names ! k]" using Suc.prems by (simp add: take_Suc_conv_app_nth)
    have "distinct (take (Suc k) names)" using assms(1) by simp
    then have "names ! k \<notin> set (take k names)" unfolding tk by simp
    moreover have "names ! k \<notin> ends rn" using assms(2) Suc.prems nth_mem [of k names] by (auto simp: disjoint_iff)
    ultimately show ?case using r by (auto simp: fold_res_snoc MakeEnd_def Connect_def tk)
  qed simp
  then show ?thesis by (auto simp: new_ends_def)
qed

text \<open>What the persister of a peer restores, from the one in use or the one that was saved.\<close>

lemma start1_total:
  assumes w: "wired cfg" and i: "i < cn cfg"
    and fresh: "distinct (map randstring [0..<cn cfg])" "set (map randstring [0..<cn cfg]) \<inter> ends (cnet cfg) = {}"
    and ps: "(case crafts cfg ! i of Some rf \<Rightarrow> Some (persister rf) | None \<Rightarrow> csaved cfg ! i) = ps"
    and v: "raft_store.restore (case ps of None \<Rightarrow> MakePersister | Some p \<Rightarrow> kept p) initial_pstate = Inr v"
  shows "\<exists>cfg' rf. start1 randstring now rnd (int i) cfg = Inr cfg' \<and> crafts cfg' = (crafts cfg)[i := Some rf] \<and> pstate_of rf = v \<and>
    connected cfg' = (connected cfg)[i := False] \<and> logs cfg' = logs cfg \<and> applyErr cfg' = applyErr cfg \<and>
    persister rf = (case ps of None \<Rightarrow> MakePersister | Some p \<Rightarrow> kept p) \<and> (\<forall>k. k \<noteq> i \<longrightarrow> csaved cfg' ! k = csaved cfg ! k) \<and>
    npeers rf = cn cfg \<and> me rf = int i \<and> state rf = Follower \<and> commitIndex rf = 0 \<and> lastApplied rf = 0 \<and> dead rf = 0"
proof -
  obtain cfg0 cfg1 where c: "disconnect (int i) cfg = Inr cfg0" "crash1 (int i) cfg = Inr cfg1"
    and cfg1: "cfg1 = cfg0\<lparr>cnet := DeleteServer (int i) (cnet cfg0), csaved := (csaved cfg)[i := map_option kept ps], crafts := (crafts cfg)[i := None]\<rparr>"
    and w1: "wired cfg1" "same_ends cfg cfg1"
    by (rule crash1_ok [OF w i]) (simp add: ps)
  note fr = disconnect_frame [OF wired_shaped [OF w] i c(1)]
  have n: "cn cfg1 = cn cfg" "endnames cfg1 = endnames cfg" "ends (cnet cfg1) = ends (cnet cfg)" using w1(2) by (simp_all add: same_ends_def)
  have len: "length (endnames cfg) = cn cfg" "length (csaved cfg) = cn cfg" "length (crafts cfg) = cn cfg" using wired_shaped [OF w] by (auto simp: shaped_def)
  obtain rn where rn: "new_ends (map randstring [0..<cn cfg]) (cnet cfg1) = Inr rn"
    using new_ends_total [OF fresh(1), of "cnet cfg1"] fresh(2) n by auto
  let ?p = "case ps of None \<Rightarrow> MakePersister | Some p \<Rightarrow> kept p"
  obtain lg t vt where v': "v = (lg, t, vt)" by (cases v)
  obtain rf where rf: "Make now rnd (cn cfg) (int i) ?p = Inr rf" "pstate_of rf = v" "persister rf = ?p" "npeers rf = cn cfg"
    "me rf = int i" "state rf = Follower" "commitIndex rf = 0" "lastApplied rf = 0" "dead rf = 0"
    using Make_restores [OF v [unfolded v'], of now rnd "cn cfg" "int i"] v' by auto
  have sv: "csaved cfg1 ! i = map_option kept ps" "(case csaved cfg1 ! i of Some p \<Rightarrow> Copy p | None \<Rightarrow> MakePersister) = ?p"
    using i len by (simp_all add: cfg1 Copy_id split: option.splits)
  have l1: "length (csaved cfg1) = cn cfg" "length (crafts cfg1) = cn cfg" using len by (simp_all add: cfg1)
  show ?thesis
    using c(2) n len l1 i rn rf sv fr by (auto simp: start1_def Let_def go_update_def go_len_def cfg1)
qed

subsection \<open>Runs of the harness\<close>

text \<open>
  The operations of a test, and between them the peers running, messages on the network and what
  the apply channels deliver.
\<close>

inductive hstep :: "'c config \<Rightarrow> 'c config \<Rightarrow> bool" where
  connect: "connect i cfg = Inr cfg' \<Longrightarrow> hstep cfg cfg'"
| disconnect: "disconnect i cfg = Inr cfg' \<Longrightarrow> hstep cfg cfg'"
| crash: "crash1 i cfg = Inr cfg' \<Longrightarrow> hstep cfg cfg'"
| start: "start1 randstring now rnd i cfg = Inr cfg' \<Longrightarrow> hstep cfg cfg'"
| unreliable: "hstep cfg (setunreliable unrel cfg)"
| reordering: "hstep cfg (setlongreordering longrel cfg)"
| deliver: "read_apply i m cfg = Inr cfg' \<Longrightarrow> hstep cfg cfg'"
| peer: "k < cn cfg \<Longrightarrow> crafts cfg ! k \<noteq> None \<Longrightarrow> hstep cfg (cfg\<lparr>crafts := (crafts cfg)[k := Some rf]\<rparr>)"
| traffic: "hstep cfg (cfg\<lparr>cnet := take_request xreq (cnet cfg)\<rparr>)"
| dispatched: "hstep cfg (cfg\<lparr>csrvs := (csrvs cfg)(p := (csrvs cfg p)\<lparr>srv_count := srv_count (csrvs cfg p) + 1\<rparr>)\<rparr>)"

inductive hreach :: "'c config \<Rightarrow> 'c config \<Rightarrow> bool" for cfg0 where
  here: "hreach cfg0 cfg0"
| step: "hreach cfg0 cfg \<Longrightarrow> hstep cfg cfg' \<Longrightarrow> hreach cfg0 cfg'"

definition harness_inv :: "nat \<Rightarrow> 'c config \<Rightarrow> bool" where
  "harness_inv n cfg \<longleftrightarrow> wired cfg \<and> cn cfg = n \<and> (\<forall>i < n. has_ends cfg i)"

text \<open>Changes that leave the wiring alone.\<close>

lemma wired_cong:
  assumes "wired cfg" and "same_ends cfg cfg'" and "connected cfg' = connected cfg" "enabled (cnet cfg') = enabled (cnet cfg)"
    "connections (cnet cfg') = connections (cnet cfg)" "servers (cnet cfg') = servers (cnet cfg)" "csaved cfg' = csaved cfg"
    "length (crafts cfg') = length (crafts cfg)" "\<And>i. i < cn cfg \<Longrightarrow> crafts cfg' ! i = None \<longleftrightarrow> crafts cfg ! i = None"
  shows "wired cfg'"
proof -
  have "shaped cfg'" "has_ends cfg' = has_ends cfg" "name cfg' = name cfg" "cn cfg' = cn cfg" "ends (cnet cfg') = ends (cnet cfg)"
    using wired_shaped [OF assms(1)] assms(2-8) by (auto simp: same_ends_def shaped_def has_ends_def name_def fun_eq_iff)
  then show ?thesis using assms(1,9) unfolding wired_def assms(3-7) by simp
qed

lemma same_ends_current: "same_ends cfg cfg' \<Longrightarrow> current_ends cfg' = current_ends cfg \<and> has_ends cfg' = has_ends cfg"
  by (auto simp: same_ends_def current_ends_def has_ends_def name_def)

lemma read_apply_Inr:
  assumes "CommandValid m"
  shows "read_apply i m cfg = Inr cfg' \<longleftrightarrow>
    0 \<le> i \<and> i < go_len (logs cfg) \<and>
    (\<forall>lg \<in> set (logs cfg). \<forall>old. lg (CommandIndex m) = Some old \<longrightarrow> old = am_Command m) \<and>
    (CommandIndex m > 1 \<longrightarrow> (logs cfg ! nat i) (CommandIndex m - 1) \<noteq> None) \<and>
    cfg' = cfg\<lparr>logs := (logs cfg)[nat i := (logs cfg ! nat i)(CommandIndex m \<mapsto> am_Command m)],
      maxIndex := (if CommandIndex m > maxIndex cfg then CommandIndex m else maxIndex cfg)\<rparr>"
proof -
  have "list_ex (\<lambda>lg. case lg (CommandIndex m) of None \<Rightarrow> False | Some old \<Rightarrow> old \<noteq> am_Command m) (logs cfg) \<longleftrightarrow>
      \<not> (\<forall>lg \<in> set (logs cfg). \<forall>old. lg (CommandIndex m) = Some old \<longrightarrow> old = am_Command m)"
    by (auto simp: list_ex_iff split: option.splits)
  then show ?thesis using assms
    by (simp add: read_apply_def Let_def bind_res_eq_Inr go_index_Inr go_update_Inr) (blast dest: sym)
qed

lemma read_apply_frame:
  assumes "read_apply i m cfg = Inr cfg'"
  obtains lgs mx where "cfg' = cfg\<lparr>logs := lgs, maxIndex := mx\<rparr>"
proof (cases "CommandValid m")
  case True
  show ?thesis by (rule that) (use assms in \<open>unfold read_apply_Inr [OF True], blast\<close>)
next
  case False
  then have "cfg' = cfg\<lparr>logs := logs cfg, maxIndex := maxIndex cfg\<rparr>" using assms by (simp add: read_apply_def)
  then show ?thesis by (rule that)
qed

lemma hstep_wired:
  assumes st: "hstep cfg cfg'" and inv: "harness_inv n cfg"
  shows "harness_inv n cfg' \<and> ends (cnet cfg) \<subseteq> ends (cnet cfg') \<and> current_ends cfg' \<inter> ends (cnet cfg) \<subseteq> current_ends cfg"
proof -
  have w: "wired cfg" and n: "cn cfg = n" and he: "\<And>i. i < n \<Longrightarrow> has_ends cfg i" using inv by (auto simp: harness_inv_def)
  have len: "length (connected cfg) = n" using wired_shaped [OF w] n by (simp add: shaped_def)
  have same: ?thesis if "wired cfg'" "same_ends cfg cfg'"
    using that same_ends_current [OF that(2)] he n by (auto simp: harness_inv_def same_ends_def)
  have off: "0 \<le> i \<and> i < int n" if "disconnect i cfg = Inr d" for i d
    using that len by (auto simp: disconnect_def bind_res_eq_Inr go_update_Inr go_len_def)
  show ?thesis
    using st
  proof cases
    case (connect i)
    then have "0 \<le> i" "i < int n" using len by (auto simp: connect_def bind_res_eq_Inr go_update_Inr go_len_def)
    then show ?thesis using wired_connect [OF w he, of "nat i"] connect same by auto
  next
    case (disconnect i)
    then show ?thesis using wired_disconnect [OF w, of "nat i"] off [OF disconnect] n same by auto
  next
    case (crash i)
    then obtain d where "disconnect i cfg = Inr d" by (auto simp: crash1_def bind_res_eq_Inr)
    from off [OF this] have "0 \<le> i" "nat i < cn cfg" using n by auto
    then show ?thesis using crash crash1_ok [OF w, of "nat i"] same by (metis int_nat_eq sum.inject(2))
  next
    case (start randstring now rnd i)
    then obtain c d where "disconnect i cfg = Inr d" by (auto simp: start1_def crash1_def bind_res_eq_Inr)
    from off [OF this] have i: "0 \<le> i" "nat i < cn cfg" using n by auto
    have s: "start1 randstring now rnd (int (nat i)) cfg = Inr cfg'" using start i(1) by simp
    note s1 = wired_start1 [OF w i(2) s]
    have "current_ends cfg' \<inter> ends (cnet cfg) \<subseteq> {name cfg k j |k j. has_ends cfg k \<and> k \<noteq> nat i \<and> j < cn cfg}" using s1 by blast
    also have "\<dots> \<subseteq> current_ends cfg" unfolding current_ends_def by blast
    finally show ?thesis using s1 he n unfolding harness_inv_def by blast
  next
    case (deliver i m)
    then obtain lgs mx where "cfg' = cfg\<lparr>logs := lgs, maxIndex := mx\<rparr>" by (rule read_apply_frame)
    then show ?thesis using wired_cong [OF w, of cfg'] same by (simp add: same_ends_def)
  next
    case (peer k rf)
    have "(crafts cfg)[k := Some rf] ! i = None \<longleftrightarrow> crafts cfg ! i = None" if "i < cn cfg" for i
      using peer(3) that wired_shaped [OF w] by (cases "i = k") (auto simp: shaped_def)
    then show ?thesis using wired_cong [OF w, of cfg'] same peer(1) by (simp add: same_ends_def)
  qed (use wired_cong [OF w, of cfg'] same in \<open>auto simp: same_ends_def setunreliable_def setlongreordering_def Reliable_def LongReordering_def take_request_def\<close>)
qed

subsection \<open>The initial configuration\<close>

definition blank :: "int \<Rightarrow> nat \<Rightarrow> bool \<Rightarrow> 'c config" where
  "blank now0 n unreliable =
     (let cfg1 = setunreliable unreliable
        \<lparr>cnet = MakeNetwork, cn = n, crafts = replicate n None, applyErr = replicate n '''', connected = replicate n False,
         csaved = replicate n None, endnames = replicate n None, logs = replicate n (\<lambda>_. None), start = now0, t0 = 0, rpcs0 = 0,
         cmds0 = 0, bytes0 = 0, maxIndex = 0, maxIndex0 = 0, nextsrv = 0, csrvs = (\<lambda>_. MakeServer)\<rparr>
      in cfg1\<lparr>cnet := LongDelays True (cnet cfg1)\<rparr>)"

abbreviation (input) start_all :: "(nat \<Rightarrow> nat \<Rightarrow> string) \<Rightarrow> (nat \<Rightarrow> int) \<Rightarrow> (nat \<Rightarrow> int) \<Rightarrow> nat list \<Rightarrow> 'c config \<Rightarrow> 'c config res" where
  "start_all randstring now rnd \<equiv> fold_res (\<lambda>i c. start1 (randstring i) (now i) (rnd i) (int i) c)"

lemma make_config_blank:
  "make_config now0 randstring now rnd n unreliable =
     bind_res (start_all randstring now rnd [0..<n] (blank now0 n unreliable)) (fold_res (\<lambda>i c. connect (int i) c) [0..<n])"
  by (simp add: make_config_def blank_def Let_def)

lemma blank_simps [simp]:
  "cn (blank now0 n u) = n" "crafts (blank now0 n u) = replicate n None" "connected (blank now0 n u) = replicate n False"
  "csaved (blank now0 n u) = replicate n None" "endnames (blank now0 n u) = replicate n None" "ends (cnet (blank now0 n u)) = {}"
  "logs (blank now0 n u) = replicate n (\<lambda>_. None)" "applyErr (blank now0 n u) = replicate n ''''"
  by (simp_all add: blank_def setunreliable_def MakeNetwork_def LongDelays_def Reliable_def Let_def)

lemma wired_blank: "wired (blank now0 n u)"
  by (rule wiredI)
    (auto simp: shaped_def has_ends_def, auto simp: blank_def setunreliable_def MakeNetwork_def LongDelays_def Reliable_def Let_def)

lemma start_all_wired:
  assumes "start_all randstring now rnd [0..<k] (blank now0 n u) = Inr c" and "k \<le> n"
  shows "wired c \<and> cn c = n \<and> (\<forall>j < k. has_ends c j)"
  using assms
proof (induction k arbitrary: c)
  case 0
  then show ?case using wired_blank by auto
next
  case (Suc k)
  obtain c1 where c1: "start_all randstring now rnd [0..<k] (blank now0 n u) = Inr c1" "start1 (randstring k) (now k) (rnd k) (int k) c1 = Inr c"
    using Suc.prems(1) by (auto simp: fold_res_snoc bind_res_eq_Inr)
  have IH: "wired c1" "cn c1 = n" "\<And>j. j < k \<Longrightarrow> has_ends c1 j" using Suc.IH [OF c1(1)] Suc.prems(2) by auto
  from wired_start1 [OF IH(1) _ c1(2)] IH(2) Suc.prems(2) have "wired c \<and> cn c = n \<and> has_ends c k \<and> (\<forall>j. has_ends c1 j \<longrightarrow> has_ends c j)" by simp
  then show ?case using IH(3) by (auto simp: less_Suc_eq)
qed

lemma make_config_inv:
  assumes "make_config now0 randstring now rnd n u = Inr cfg"
  shows "harness_inv n cfg"
proof -
  obtain c where c: "start_all randstring now rnd [0..<n] (blank now0 n u) = Inr c" "fold_res (\<lambda>i c. connect (int i) c) [0..<n] c = Inr cfg"
    using assms by (auto simp: make_config_blank bind_res_eq_Inr)
  from start_all_wired [OF c(1)] have "harness_inv n c" by (simp add: harness_inv_def)
  with c(2) show ?thesis by (rule fold_res_invariant) (use hstep_wired [OF hstep.connect] in blast)
qed

lemma hreach_inv:
  assumes "hreach cfg cfg'" and "harness_inv n cfg"
  shows "harness_inv n cfg' \<and> ends (cnet cfg) \<subseteq> ends (cnet cfg') \<and> current_ends cfg' \<inter> ends (cnet cfg) \<subseteq> current_ends cfg"
  using assms
proof (induction rule: hreach.induct)
  case (step c c')
  from hstep_wired [OF step.hyps(2), of n] step.IH [OF step.prems] show ?case by blast
qed auto

text \<open>With different random strings the harness comes up: everybody runs and is connected.\<close>

definition started :: "nat \<Rightarrow> nat \<Rightarrow> 'c config \<Rightarrow> bool" where
  "started k n c \<longleftrightarrow>
     (\<forall>j. k \<le> j \<longrightarrow> j < n \<longrightarrow> crafts c ! j = None \<and> csaved c ! j = None) \<and>
     (\<forall>j < k. \<exists>rf. crafts c ! j = Some rf \<and> pstate_of rf = initial_pstate \<and> saved rf \<and> me rf = int j) \<and>
     logs c = replicate n (\<lambda>_. None) \<and> applyErr c = replicate n ''''"

lemma replicate_update: "(replicate n x)[k := x] = replicate n x"
  using list_update_id [of "replicate n x" k] by (cases "k < n") (simp_all add: list_update_beyond)

lemma start_all_total:
  assumes inj: "inj_on (\<lambda>(i, j). randstring i j) ({..<n} \<times> {..<n})" and "k \<le> n"
  shows "\<exists>c :: 'c config. start_all randstring now rnd [0..<k] (blank now0 n u) = Inr c \<and> ends (cnet c) = (\<lambda>(i, j). randstring i j) ` ({..<k} \<times> {..<n}) \<and>
    started k n c \<and> connected c = replicate n False"
  using \<open>k \<le> n\<close>
proof (induction k)
  case 0
  then show ?case by (simp add: started_def)
next
  case (Suc k)
  then obtain c :: "'c config" where c: "start_all randstring now rnd [0..<k] (blank now0 n u) = Inr c" "ends (cnet c) = (\<lambda>(i, j). randstring i j) ` ({..<k} \<times> {..<n})"
    "started k n c" "connected c = replicate n False" by auto
  have w: "wired c" "cn c = n" using start_all_wired [OF c(1)] Suc.prems by auto
  have neq: "randstring k j \<noteq> randstring i j'" if "j < n" "j' < n" "i < n" "(i, j') \<noteq> (k, j)" for i j j'
    using inj_onD [OF inj, of "(k, j)" "(i, j')"] that Suc.prems by auto
  have fresh: "distinct (map (randstring k) [0..<cn c])" "set (map (randstring k) [0..<cn c]) \<inter> ends (cnet c) = {}"
    using neq Suc.prems by (auto simp: w(2) c(2) distinct_map inj_on_def) (metis Suc_le_lessD)
  have rest: "raft_store.restore (case None of None \<Rightarrow> MakePersister | Some p \<Rightarrow> kept p) initial_pstate = Inr initial_pstate"
    by (simp add: raft_store.restore_empty)
  have none: "(case crafts c ! k of Some rf \<Rightarrow> Some (persister rf) | None \<Rightarrow> csaved c ! k) = None" using c(3) Suc.prems by (simp add: started_def)
  obtain c' rf where c': "start1 (randstring k) (now k) (rnd k) (int k) c = Inr c'" "crafts c' = (crafts c)[k := Some rf]" "pstate_of rf = initial_pstate"
    "connected c' = (connected c)[k := False]" "logs c' = logs c" "applyErr c' = applyErr c" "\<And>j. j \<noteq> k \<Longrightarrow> csaved c' ! j = csaved c ! j"
    and rf: "persister rf = MakePersister" "me rf = int k"
    using start1_total [OF w(1) _ fresh none rest, of "now k" "rnd k"] Suc.prems w(2) by auto
  have len: "length (crafts c) = n" using wired_shaped [OF w(1)] w(2) by (simp add: shaped_def)
  have "saved rf" using rf(1) c'(3) by (simp add: saved_def raft_store.restore_empty)
  moreover have "ends (cnet c') = (\<lambda>(i, j). randstring i j) ` ({..<Suc k} \<times> {..<n})"
  proof -
    have "{..<Suc k} \<times> {..<n} = {..<k} \<times> {..<n} \<union> {k} \<times> {..<n}" by auto
    moreover have "(\<lambda>(i, j). randstring i j) ` ({k} \<times> {..<n}) = set (map (randstring k) [0..<n])" by (auto simp: image_iff)
    moreover have "ends (cnet c') = ends (cnet c) \<union> set (map (randstring k) [0..<n])" using wired_start1 [OF w(1) _ c'(1)] Suc.prems w(2) by simp
    ultimately show ?thesis by (simp only: image_Un c(2))
  qed
  ultimately show ?case
    using c(1,3,4) c' rf(2) Suc.prems len by (auto simp: started_def fold_res_snoc less_Suc_eq nth_list_update replicate_update)
qed

lemma connect_all_total:
  assumes inv: "harness_inv n c" and off: "connected c = replicate n False" and "k \<le> n"
  shows "\<exists>c'. fold_res (\<lambda>i c. connect (int i) c) [0..<k] c = Inr c' \<and> harness_inv n c' \<and> crafts c' = crafts c \<and> logs c' = logs c \<and>
    applyErr c' = applyErr c \<and> ends (cnet c') = ends (cnet c) \<and> length (connected c') = n \<and> (\<forall>j < n. connected c' ! j \<longleftrightarrow> j < k)"
  using \<open>k \<le> n\<close>
proof (induction k)
  case 0
  then show ?case using assms by simp
next
  case (Suc k)
  then obtain c1 where c1: "fold_res (\<lambda>i c. connect (int i) c) [0..<k] c = Inr c1" "harness_inv n c1" "crafts c1 = crafts c" "logs c1 = logs c"
    "applyErr c1 = applyErr c" "ends (cnet c1) = ends (cnet c)" "length (connected c1) = n" "\<forall>j < n. connected c1 ! j \<longleftrightarrow> j < k" by auto
  have w: "wired c1" "cn c1 = n" "has_ends c1 k" using c1(2) Suc.prems by (auto simp: harness_inv_def)
  from connect_ok [OF wired_shaped [OF w(1)] w(3)] wiredD(5) [OF w(1)]
  obtain c2 where c2: "connect (int k) c1 = Inr c2" "connected c2 = (connected c1)[k := True]" "crafts c2 = crafts c1" "logs c2 = logs c1" "applyErr c2 = applyErr c1" "ends (cnet c2) = ends (cnet c1)"
    by auto
  have "harness_inv n c2" using hstep_wired [OF hstep.connect [OF c2(1)] c1(2)] by simp
  then show ?case using c1 c2 Suc.prems by (auto simp: fold_res_snoc nth_list_update)
qed

lemma make_config_total:
  assumes inj: "inj_on (\<lambda>(i, j). randstring i j) ({..<n} \<times> {..<n})"
  shows "\<exists>cfg :: 'c config. make_config now0 randstring now rnd n u = Inr cfg \<and> harness_inv n cfg \<and> started n n cfg \<and> (\<forall>j < n. connected cfg ! j) \<and>
    ends (cnet cfg) = (\<lambda>(i, j). randstring i j) ` ({..<n} \<times> {..<n})"
proof -
  obtain c :: "'c config" where c: "start_all randstring now rnd [0..<n] (blank now0 n u) = Inr c" "ends (cnet c) = (\<lambda>(i, j). randstring i j) ` ({..<n} \<times> {..<n})"
    "started n n c" "connected c = replicate n False"
    using start_all_total [OF inj order.refl, of now rnd now0 u] by blast
  have inv: "harness_inv n c" using start_all_wired [OF c(1)] by (simp add: harness_inv_def)
  obtain c' where c': "fold_res (\<lambda>i c. connect (int i) c) [0..<n] c = Inr c'" "harness_inv n c'" "crafts c' = crafts c" "logs c' = logs c"
    "applyErr c' = applyErr c" "ends (cnet c') = ends (cnet c)" "\<forall>j < n. connected c' ! j \<longleftrightarrow> j < n"
    using connect_all_total [OF inv c(4) order.refl] by blast
  then show ?thesis using c(1,2,3) by (auto simp: make_config_blank started_def)
qed

subsection \<open>Properties\<close>

lemma end_at_name: "harness_inv n cfg \<Longrightarrow> i < n \<Longrightarrow> j < n \<Longrightarrow> end_at (int i) (int j) cfg = Inr e \<longleftrightarrow> e = name cfg i j"
  using wired_shaped [of cfg] by (auto simp: harness_inv_def shaped_def has_ends_def end_at_def name_def)

lemma harness_routes:
  assumes inv: "harness_inv n cfg" and i: "i < n" and j: "j < n" and e: "end_at (int i) (int j) cfg = Inr e"
  shows "readEndnameInfo e (cnet cfg) =
    (connected cfg ! i \<and> connected cfg ! j, Some (int j), servers (cnet cfg) (int j), reliable (cnet cfg), longReordering (cnet cfg)) \<and>
    (servers (cnet cfg) (int j) = None \<longleftrightarrow> crafts cfg ! j = None)"
proof -
  have w: "wired cfg" "cn cfg = n" "has_ends cfg i" "\<And>k. k < n \<Longrightarrow> has_ends cfg k" using inv i by (auto simp: harness_inv_def)
  note d = wiredD [OF w(1)]
  have e': "e = name cfg i j" using e end_at_name [OF inv i j] by simp
  have "k = i \<and> l = j" if "k < n" "l < n" "e = name cfg k l" for k l using d(1) [of k i l j] that w(2-4) i j e' by simp
  then have "enabled (cnet cfg) e \<longleftrightarrow> connected cfg ! i \<and> connected cfg ! j"
    unfolding d(4) w(2) using i j e' by blast
  then show ?thesis using d(3) [of i j] d(6) [of j] w i j e' by (auto simp: readEndnameInfo_def)
qed

definition sample_names :: "nat \<Rightarrow> nat \<Rightarrow> string" where
  "sample_names i j = replicate i CHR ''a'' @ replicate j CHR ''b''"

lemma sample_names_inj: "inj_on (\<lambda>(i, j). sample_names i j) S"
proof (rule inj_onI, clarify)
  fix i j i' j' assume eq: "sample_names i j = sample_names i' j'"
  have "length (filter (\<lambda>c. c = CHR ''a'') (sample_names i j)) = i" "length (filter (\<lambda>c. c = CHR ''b'') (sample_names i j)) = j" for i j
    by (simp_all add: sample_names_def)
  with eq show "i = i' \<and> j = j'" by metis
qed

text \<open>
  C31: In every run of the harness exactly the ends between two connected peers carry requests: the end
  that peer \<open>i\<close> holds for peer \<open>j\<close> leads to \<open>j\<close>, is enabled exactly when both are connected, and finds a
  server exactly when \<open>j\<close> runs; no other end is enabled.
\<close>

theorem harness_wiring:
  assumes "make_config now0 randstring now rnd n unreliable = Inr cfg0" and "hreach cfg0 cfg"
  shows "(\<forall>i j e. i < n \<longrightarrow> j < n \<longrightarrow> end_at (int i) (int j) cfg = Inr e \<longrightarrow>
      readEndnameInfo e (cnet cfg) =
        (connected cfg ! i \<and> connected cfg ! j, Some (int j), servers (cnet cfg) (int j), reliable (cnet cfg), longReordering (cnet cfg)) \<and>
      (servers (cnet cfg) (int j) = None \<longleftrightarrow> crafts cfg ! j = None)) \<and>
    (\<forall>e. enabled (cnet cfg) e \<longrightarrow> (\<exists>i j. i < n \<and> j < n \<and> end_at (int i) (int j) cfg = Inr e))"
proof -
  have inv: "harness_inv n cfg" using hreach_inv [OF assms(2) make_config_inv [OF assms(1)]] by simp
  then have "\<exists>i j. i < n \<and> j < n \<and> end_at (int i) (int j) cfg = Inr e" if "enabled (cnet cfg) e" for e
    using that wiredD(4) [of cfg e] end_at_name [OF inv] by (auto simp: harness_inv_def) blast
  then show ?thesis using harness_routes [OF inv] by blast
qed

lemma sample_harness:
  "\<exists>cfg :: nat config. make_config 0 sample_names (\<lambda>_. 0) (\<lambda>_. 0) 3 False = Inr cfg \<and> harness_inv 3 cfg \<and> started 3 3 cfg \<and> (\<forall>j < 3. connected cfg ! j) \<and>
    ends (cnet cfg) = (\<lambda>(i, j). sample_names i j) ` ({..<3} \<times> {..<3})"
  by (rule make_config_total [OF sample_names_inj])

theorem harness_wiring_witness:
  "\<exists>(cfg0 :: nat config) cfg e f. make_config 0 sample_names (\<lambda>_. 0) (\<lambda>_. 0) 3 False = Inr cfg0 \<and> disconnect 2 cfg0 = Inr cfg \<and>
     end_at 0 1 cfg = Inr e \<and> fst (readEndnameInfo e (cnet cfg)) \<and> end_at 0 2 cfg = Inr f \<and> \<not> fst (readEndnameInfo f (cnet cfg))"
proof -
  obtain cfg0 :: "nat config" where c0: "make_config 0 sample_names (\<lambda>_. 0) (\<lambda>_. 0) 3 False = Inr cfg0" "harness_inv 3 cfg0" "\<forall>j < 3. connected cfg0 ! j"
    using sample_harness by blast
  have w: "wired cfg0" "cn cfg0 = 3" using c0(2) by (simp_all add: harness_inv_def)
  obtain cfg where c: "disconnect (int 2) cfg0 = Inr cfg" using wired_disconnect [OF w(1), of 2] w(2) by auto
  have r: "hreach cfg0 cfg" by (rule hreach.step [OF hreach.here hstep.disconnect [OF c]])
  have inv: "harness_inv 3 cfg" using hstep_wired [OF hstep.disconnect [OF c] c0(2)] by simp
  have con: "connected cfg = (connected cfg0)[2 := False]" "length (connected cfg0) = 3"
    using disconnect_frame(6) [OF wired_shaped [OF w(1)] _ c] wired_shaped [OF w(1)] w(2) by (simp_all add: shaped_def)
  have e: "end_at (int 0) (int 1) cfg = Inr (name cfg 0 1)" "end_at (int 0) (int 2) cfg = Inr (name cfg 0 2)"
    using end_at_name [OF inv, of 0 1] end_at_name [OF inv, of 0 2] by auto
  have "fst (readEndnameInfo (name cfg 0 1) (cnet cfg))" "\<not> fst (readEndnameInfo (name cfg 0 2) (cnet cfg))"
    using harness_wiring [OF c0(1) r, THEN conjunct1, rule_format, OF _ _ e(1)] harness_wiring [OF c0(1) r, THEN conjunct1, rule_format, OF _ _ e(2)]
      con c0(3) by simp_all
  then show ?thesis using c0(1) c e by auto
qed

text \<open>
  A restarted peer is isolated from its previous instance: an end of the instance that ran before
  \<open>start1\<close> is disabled ever after, whatever the test does.
\<close>

theorem old_instance_isolated:
  assumes "make_config now0 randstring now rnd n unreliable = Inr cfg0" and "hreach cfg0 cfg"
    and "end_at i j cfg = Inr e" and "start1 names now1 rnd1 i cfg = Inr cfg1" and "hreach cfg1 cfg2"
  shows "enabled (cnet cfg2) e = False"
proof -
  have inv: "harness_inv n cfg" using hreach_inv [OF assms(2) make_config_inv [OF assms(1)]] by simp
  then have w: "wired cfg" and n: "cn cfg = n" by (simp_all add: harness_inv_def)
  have len: "length (endnames cfg) = n" "\<And>l. k < n \<Longrightarrow> endnames cfg ! k = Some l \<Longrightarrow> length l = n" for k
    using wired_shaped [OF w] n by (auto simp: shaped_def)
  have i: "0 \<le> i" "nat i < n" using assms(3) len by (auto simp: end_at_def bind_res_eq_Inr go_index_Inr go_len_def)
  have j: "0 \<le> j" "nat j < n"
    using assms(3) len i by (auto simp: end_at_def bind_res_eq_Inr go_index_Inr go_len_def split: option.splits)
  have e: "e = name cfg (nat i) (nat j)" using end_at_name [OF inv i(2) j(2), of e] assms(3) i j by simp
  have he: "has_ends cfg (nat i)" using inv i by (simp add: harness_inv_def)
  have s1: "start1 names now1 rnd1 (int (nat i)) cfg = Inr cfg1" using assms(4) i by simp
  note st = wired_start1 [OF w _ s1, unfolded n, OF i(2)]
  have e_end: "e \<in> ends (cnet cfg)" using wiredD(2) [OF w he, of "nat j"] e j n by simp
  have "k = nat i" if "has_ends cfg k" "l < n" "e = name cfg k l" for k l using wiredD(1) [OF w that(1) he, of l "nat j"] that e j(2) n by simp
  then have "e \<notin> current_ends cfg1" using st e_end by blast
  moreover have "harness_inv n cfg1" using hstep_wired [OF hstep.start [OF assms(4)] inv] by simp
  moreover have "e \<in> ends (cnet cfg1)" using st e_end by simp
  ultimately have "e \<notin> current_ends cfg2" and inv2: "harness_inv n cfg2" using hreach_inv [OF assms(5)] by blast+
  then have w2: "wired cfg2" "\<And>i. i < cn cfg2 \<Longrightarrow> has_ends cfg2 i" by (auto simp: harness_inv_def)
  have "\<not> (\<exists>i<cn cfg2. \<exists>j<cn cfg2. connected cfg2 ! i \<and> connected cfg2 ! j \<and> e = name cfg2 i j)"
    using \<open>e \<notin> current_ends cfg2\<close> w2(2) unfolding current_ends_def by blast
  then show ?thesis using wiredD(4) [OF w2(1), of e] by blast
qed

definition sample_names2 :: "nat \<Rightarrow> string" where
  "sample_names2 j = replicate j CHR ''a'' @ ''c''"

lemma sample_names2_fresh:
  "distinct (map sample_names2 [0..<3]) \<and> set (map sample_names2 [0..<3]) \<inter> (\<lambda>(i, j). sample_names i j) ` ({..<3} \<times> {..<3}) = {}"
proof -
  have "sample_names2 k \<noteq> sample_names i j" for i j k
  proof
    assume eq: "sample_names2 k = sample_names i j"
    have "CHR ''c'' \<in> set (sample_names2 k)" by (simp add: sample_names2_def)
    moreover have "CHR ''c'' \<notin> set (sample_names i j)" by (auto simp: sample_names_def)
    ultimately show False using eq by simp
  qed
  then show ?thesis by (auto simp: distinct_map inj_on_def) (simp add: sample_names2_def)
qed

lemma sample_restart:
  "\<exists>(cfg0 :: nat config) rf cfg1. make_config 0 sample_names (\<lambda>_. 0) (\<lambda>_. 0) 3 False = Inr cfg0 \<and> harness_inv 3 cfg0 \<and>
     crafts cfg0 ! 2 = Some rf \<and> saved rf \<and> pstate_of rf = initial_pstate \<and>
     set (map sample_names2 [0..<3]) \<inter> ends (cnet cfg0) = {} \<and> start1 sample_names2 0 0 2 cfg0 = Inr cfg1"
proof -
  obtain cfg0 :: "nat config" where c0: "make_config 0 sample_names (\<lambda>_. 0) (\<lambda>_. 0) 3 False = Inr cfg0" "harness_inv 3 cfg0" "started 3 3 cfg0"
      "ends (cnet cfg0) = (\<lambda>(i, j). sample_names i j) ` ({..<3} \<times> {..<3})"
    using sample_harness by blast
  obtain rf where rf: "crafts cfg0 ! 2 = Some rf" "saved rf" "pstate_of rf = initial_pstate" using c0(3) [unfolded started_def] by (metis lessI numeral_2_eq_2 numeral_3_eq_3)
  have w: "wired cfg0" "cn cfg0 = 3" using c0(2) by (simp_all add: harness_inv_def)
  have fresh: "distinct (map sample_names2 [0..<cn cfg0])" "set (map sample_names2 [0..<cn cfg0]) \<inter> ends (cnet cfg0) = {}"
    unfolding w(2) c0(4) using sample_names2_fresh by (rule conjunct1, rule conjunct2)
  have "\<exists>cfg1. start1 sample_names2 0 0 (int 2) cfg0 = Inr cfg1"
    using start1_total [OF w(1) _ fresh, of 2 _ "pstate_of rf" 0 0] rf w(2) by (simp add: restore_kept saved_def) blast
  then show ?thesis using c0(1,2) rf fresh(2) w(2) by auto
qed

theorem old_instance_isolated_witness:
  "\<exists>(cfg0 :: nat config) cfg1 e. make_config 0 sample_names (\<lambda>_. 0) (\<lambda>_. 0) 3 False = Inr cfg0 \<and> end_at 2 0 cfg0 = Inr e \<and>
     start1 sample_names2 0 0 2 cfg0 = Inr cfg1 \<and> enabled (cnet cfg1) e = False"
proof -
  obtain cfg0 :: "nat config" and cfg1 where c: "make_config 0 sample_names (\<lambda>_. 0) (\<lambda>_. 0) 3 False = Inr cfg0" "harness_inv 3 cfg0"
    "start1 sample_names2 0 0 2 cfg0 = Inr cfg1" using sample_restart by blast
  have e: "end_at 2 0 cfg0 = Inr (name cfg0 2 0)" using end_at_name [OF c(2), of 2 0] by simp
  show ?thesis using old_instance_isolated [OF c(1) hreach.here e c(3) hreach.here] c e by blast
qed

text \<open>
  A restart gives the new instance what the old one had saved: with unused names for its ends, and
  an old instance whose persister held its fields, \<open>start1\<close> succeeds, the new instance has the log,
  the term and the vote of the old one and the volatile fields of a new peer; it is disconnected, and the
  snapshot is dropped.
\<close>

theorem harness_restart_recovers:
  assumes "make_config now0 randstring now rnd n unreliable = Inr cfg0" and "hreach cfg0 cfg"
    and "i < n" and "crafts cfg ! i = Some rf" and "saved rf"
    and "distinct (map names [0..<n])" and "set (map names [0..<n]) \<inter> ends (cnet cfg) = {}"
  shows "\<exists>cfg' rf'. start1 names now1 rnd1 (int i) cfg = Inr cfg' \<and> crafts cfg' = (crafts cfg)[i := Some rf'] \<and>
    log rf' = log rf \<and> currentTerm rf' = currentTerm rf \<and> votedFor rf' = votedFor rf \<and> state rf' = Follower \<and> commitIndex rf' = 0 \<and>
    lastApplied rf' = 0 \<and> dead rf' = 0 \<and> me rf' = int i \<and> connected cfg' = (connected cfg)[i := False] \<and> ReadSnapshot (persister rf') = None"
proof -
  have "harness_inv n cfg" using hreach_inv [OF assms(2) make_config_inv [OF assms(1)]] by simp
  then have w: "wired cfg" and n: "cn cfg = n" by (simp_all add: harness_inv_def)
  have ps: "(case crafts cfg ! i of Some rf \<Rightarrow> Some (persister rf) | None \<Rightarrow> csaved cfg ! i) = Some (persister rf)" using assms(4) by simp
  have v: "raft_store.restore (case Some (persister rf) of None \<Rightarrow> MakePersister | Some p \<Rightarrow> kept p) initial_pstate = Inr (pstate_of rf)"
    using assms(5) by (simp add: saved_def restore_kept)
  obtain cfg' rf' where st: "start1 names now1 rnd1 (int i) cfg = Inr cfg'" "crafts cfg' = (crafts cfg)[i := Some rf']" "pstate_of rf' = pstate_of rf"
    "connected cfg' = (connected cfg)[i := False]" "persister rf' = kept (persister rf)"
    and "me rf' = int i" "state rf' = Follower" "commitIndex rf' = 0" "lastApplied rf' = 0" "dead rf' = 0"
    using start1_total [OF w _ _ _ ps v, of names now1 rnd1] assms(3,6,7) n by auto
  then show ?thesis
    by (intro exI [of _ cfg'] exI [of _ rf'])
      (simp add: pstate_of_def kept_def MakePersister_def SaveRaftState_def ReadSnapshot_def)
qed

theorem harness_restart_recovers_witness:
  "\<exists>(cfg0 :: nat config) rf cfg1 rf1. make_config 0 sample_names (\<lambda>_. 0) (\<lambda>_. 0) 3 False = Inr cfg0 \<and> crafts cfg0 ! 2 = Some rf \<and>
     start1 sample_names2 7 9 2 cfg0 = Inr cfg1 \<and> crafts cfg1 = (crafts cfg0)[2 := Some rf1] \<and> log rf1 = log rf \<and> votedFor rf1 = -1"
proof -
  obtain cfg0 :: "nat config" and rf where c: "make_config 0 sample_names (\<lambda>_. 0) (\<lambda>_. 0) 3 False = Inr cfg0"
    "crafts cfg0 ! 2 = Some rf" "saved rf" "pstate_of rf = initial_pstate" "set (map sample_names2 [0..<3]) \<inter> ends (cnet cfg0) = {}"
    using sample_restart by blast
  have "votedFor rf = -1" using c(4) by (simp add: pstate_of_def initial_pstate_def)
  then show ?thesis
    using harness_restart_recovers [OF c(1) hreach.here _ c(2,3) conjunct1 [OF sample_names2_fresh] c(5), of 7 9] c(1,2) by auto
qed

end
