(* ===== verification/Raft_Rpc.thy ===== *)
theory Raft_Rpc
  imports Harness_Wiring
begin

section \<open>Raft over the simulated network\<close>

text \<open>
  How a peer calls another: \<open>sendRequestVote\<close> and \<open>sendAppendEntries\<close> send a request on the end
  that the harness gave the peer, the network finds the server of the other peer, the server finds
  the method of its Raft service, and the caller decodes the reply. The servers are those that
  \<open>start1\<close> made and registered; the objects behind their services are the instances of the peers,
  those of replaced instances included. The functions \<open>enca\<close>, \<open>dec\<close>, \<open>encr\<close> and \<open>decr\<close> stand for
  labgob.
\<close>

subsection \<open>Calls\<close>

text \<open>The request that \<open>ClientEnd.Call\<close> sends.\<close>

definition Call_request :: "('a \<Rightarrow> string) \<Rightarrow> 'e \<Rightarrow> string \<Rightarrow> 'a \<Rightarrow> 'e reqMsg" where
  "Call_request enca endname meth args = \<lparr>req_endname = endname, svcMeth = meth, req_args = enca args\<rparr>"

definition sendRequestVote :: "('c rpc_args \<Rightarrow> string) \<Rightarrow> 'e list \<Rightarrow> int \<Rightarrow> RequestVoteArgs \<Rightarrow> 'e reqMsg res" where
  "sendRequestVote enca peers server args =
     bind_res (go_index peers server) (\<lambda>e. Inr (Call_request enca e ''Raft.RequestVote'' (VoteArgs args)))"

definition sendAppendEntries :: "('c rpc_args \<Rightarrow> string) \<Rightarrow> 'e list \<Rightarrow> int \<Rightarrow> 'c AppendEntriesArgs \<Rightarrow> 'e reqMsg res" where
  "sendAppendEntries enca peers server args =
     bind_res (go_index peers server) (\<lambda>e. Inr (Call_request enca e ''Raft.AppendEntries'' (EntriesArgs args)))"

definition send_rpc :: "('c rpc_args \<Rightarrow> string) \<Rightarrow> 'e list \<Rightarrow> int \<Rightarrow> 'c rpc_args \<Rightarrow> 'e reqMsg res" where
  "send_rpc enca peers server a = (case a of VoteArgs v \<Rightarrow> sendRequestVote enca peers server v | EntriesArgs v \<Rightarrow> sendAppendEntries enca peers server v)"

lemma send_rpc_ok:
  assumes "j < length peers"
  shows "send_rpc enca peers (int j) a = Inr (Call_request enca (peers ! j) (''Raft.'' @ method_of a) a)"
  using assms by (cases a) (simp_all add: send_rpc_def sendRequestVote_def sendAppendEntries_def)

subsection \<open>The registered servers\<close>

text \<open>In every run each peer that has a server has the one that was made for its own instance.\<close>

definition served :: "'c config \<Rightarrow> bool" where
  "served cfg \<longleftrightarrow> registered (\<lambda>_. raft_server) (servers (cnet cfg)) (csrvs cfg) (nextsrv cfg)"

definition same_servers :: "'c config \<Rightarrow> 'c config \<Rightarrow> bool" where
  "same_servers cfg cfg' \<longleftrightarrow> servers (cnet cfg') = servers (cnet cfg) \<and> csrvs cfg' = csrvs cfg \<and> nextsrv cfg' = nextsrv cfg"

lemma served_cong: "same_servers cfg cfg' \<Longrightarrow> served cfg \<Longrightarrow> served cfg'"
  by (simp add: same_servers_def served_def)

lemma same_servers_refl: "same_servers cfg cfg"
  by (simp add: same_servers_def)

lemma same_servers_trans: "same_servers a b \<Longrightarrow> same_servers b c \<Longrightarrow> same_servers a c"
  by (simp add: same_servers_def)

lemma set_end_servers: "set_end i j b cfg = Inr cfg' \<Longrightarrow> same_servers cfg cfg'"
  by (auto simp: set_end_def same_servers_def Enable_def bind_res_eq_Inr)

text \<open>A loop over peers that sets ends leaves the servers alone.\<close>

lemma ends_loop_servers:
  assumes "fold_res (\<lambda>j c. bind_res (g j c) (\<lambda>x. if P x then set_end (a j) (b j) v c else Inr c)) js cfg = Inr cfg'"
  shows "same_servers cfg cfg'"
  using assms
proof (rule fold_res_invariant)
  show "same_servers cfg c'" if "same_servers cfg c" "bind_res (g j c) (\<lambda>x. if P x then set_end (a j) (b j) v c else Inr c) = Inr c'" for j c c'
    using that by (auto simp: bind_res_eq_Inr intro: same_servers_trans [OF _ set_end_servers] split: if_splits)
qed (rule same_servers_refl)

lemma connect_servers:
  assumes "connect i cfg = Inr cfg'"
  shows "same_servers cfg cfg'"
proof -
  obtain cs c1 where "fold_res (\<lambda>j c. bind_res (go_index (connected c) j) (\<lambda>b. if b then set_end i j True c else Inr c)) (peer_list cfg) (cfg\<lparr>connected := cs\<rparr>) = Inr c1"
    "fold_res (\<lambda>j c. bind_res (go_index (connected c) j) (\<lambda>b. if b then set_end j i True c else Inr c)) (peer_list cfg) c1 = Inr cfg'"
    using assms by (auto simp: connect_def bind_res_eq_Inr)
  from ends_loop_servers [OF this(1)] ends_loop_servers [OF this(2)] show ?thesis by (simp add: same_servers_def)
qed

lemma disconnect_servers:
  assumes "disconnect i cfg = Inr cfg'"
  shows "same_servers cfg cfg'"
proof -
  obtain cs c1 where "fold_res (\<lambda>j c. bind_res (go_index (endnames c) i) (\<lambda>es. if es \<noteq> None then set_end i j False c else Inr c)) (peer_list cfg) (cfg\<lparr>connected := cs\<rparr>) = Inr c1"
    "fold_res (\<lambda>j c. bind_res (go_index (endnames c) j) (\<lambda>es. if es \<noteq> None then set_end j i False c else Inr c)) (peer_list cfg) c1 = Inr cfg'"
    using assms by (auto simp: disconnect_def bind_res_eq_Inr)
  from ends_loop_servers [OF this(1)] ends_loop_servers [OF this(2)] show ?thesis by (simp add: same_servers_def)
qed

lemma crash1_served:
  assumes "crash1 i cfg = Inr cfg'" and "served cfg"
  shows "served cfg'"
proof -
  obtain c where c: "disconnect i cfg = Inr c" using assms(1) by (auto simp: crash1_def bind_res_eq_Inr)
  have "servers (cnet cfg') = (servers (cnet c))(i := None)" "csrvs cfg' = csrvs c" "nextsrv cfg' = nextsrv c"
    using assms(1) c by (auto simp: crash1_def bind_res_eq_Inr Let_def DeleteServer_def)
  then show ?thesis using served_cong [OF disconnect_servers [OF c] assms(2)] registered_delete by (simp add: served_def)
qed

lemma start1_served:
  assumes "start1 randstring now rnd i cfg = Inr cfg'" and "served cfg"
  shows "served cfg'"
proof -
  obtain c where c: "crash1 i cfg = Inr c" using assms(1) by (auto simp: start1_def bind_res_eq_Inr)
  obtain rn where rn: "new_ends (map randstring [0..<cn c]) (cnet c) = Inr rn" "servers (cnet cfg') = (servers rn)(i := Some (nextsrv c))"
    "csrvs cfg' = (csrvs c)(nextsrv c := raft_server (nextsrv c))" "nextsrv cfg' = nextsrv c + 1"
    using assms(1) c by (auto simp: start1_def bind_res_eq_Inr Let_def AddServer_def raft_server_def)
  have "servers rn = servers (cnet c)"
    using rn(1) unfolding new_ends_def
    by (rule fold_res_invariant) (auto simp: MakeEnd_def Connect_def bind_res_eq_Inr split: if_splits)
  then show ?thesis using crash1_served [OF c assms(2)] rn(2-4) registered_add [of "\<lambda>_. raft_server" _ _ "nextsrv c" i] by (simp add: served_def)
qed

lemma hstep_served:
  assumes "hstep cfg cfg'" and "served cfg"
  shows "served cfg'"
  using assms(1)
proof cases
  case (connect i)
  then show ?thesis by (rule served_cong [OF connect_servers assms(2)])
next
  case (disconnect i)
  then show ?thesis by (rule served_cong [OF disconnect_servers assms(2)])
next
  case (deliver i m)
  then obtain lgs mx where "cfg' = cfg\<lparr>logs := lgs, maxIndex := mx\<rparr>" by (rule read_apply_frame)
  then show ?thesis using assms(2) by (simp add: served_def)
next
  case (dispatched p)
  then show ?thesis using assms(2) by (auto simp: served_def intro: registered_count)
qed (use assms(2) crash1_served start1_served in \<open>auto simp: served_def setunreliable_def setlongreordering_def Reliable_def LongReordering_def take_request_def\<close>)

lemma make_config_served:
  assumes "make_config now0 randstring now rnd n u = Inr cfg"
  shows "served cfg"
proof -
  obtain c where c: "start_all randstring now rnd [0..<n] (blank now0 n u) = Inr c" "fold_res (\<lambda>i c. connect (int i) c) [0..<n] c = Inr cfg"
    using assms by (auto simp: make_config_blank bind_res_eq_Inr)
  have "served (blank now0 n u)"
    by (simp add: served_def blank_def setunreliable_def Reliable_def LongDelays_def MakeNetwork_def Let_def registered_none)
  with c(1) have "served c" by (rule fold_res_invariant) (use start1_served in blast)
  with c(2) show ?thesis by (rule fold_res_invariant) (use served_cong connect_servers in blast)
qed

lemma hreach_served: "hreach cfg cfg' \<Longrightarrow> served cfg \<Longrightarrow> served cfg'"
  by (induction rule: hreach.induct) (auto intro: hstep_served)

subsection \<open>A call between two peers of the harness\<close>

lemma raft_dispatch:
  assumes "services rs = services (raft_server p)" and codec: "dec (enca a) = a"
    and "raft_handle now (objs p) a = Inr (rf', r)"
  shows "\<exists>rs'. Server_dispatch dec encr rs (Call_request enca e (''Raft.'' @ method_of a) a) (Inr (now, objs)) =
    Inr (\<lparr>rep_ok = True, reply = encr r\<rparr>, rs', Inr (now, objs(p := rf')))"
proof -
  have nodot: "CHR ''.'' \<notin> set (method_of a)" by (cases a) simp_all
  obtain f where f: "methods (raft_service Some id id (\<lambda>rf _. rf) p) (method_of a) = Some f" "f a (Inr (now, objs)) = (r, Inr (now, objs(p := rf')))"
    using raft_service_handles [of Some a a now id objs p rf' r id "\<lambda>rf _. rf"] assms(3) by auto
  have "services rs ''Raft'' = Some (raft_service Some id id (\<lambda>rf _. rf) p)" using assms(1) by (simp add: raft_server_def)
  moreover have "Server_dispatch dec encr rs (Call_request enca e (''Raft.'' @ method_of a) a) (Inr (now, objs)) = routed dec encr rs ''Raft'' (method_of a) (enca a) (Inr (now, objs))"
    using dispatch_routes [OF nodot, of "Call_request enca e (''Raft.'' @ method_of a) a" "''Raft''" dec encr rs "Inr (now, objs)"] by (simp add: Call_request_def)
  ultimately show ?thesis using f by (simp add: routed_def codec)
qed

text \<open>The contents of the objects agree with the configuration: the object of the server of a running peer is that peer.\<close>

definition live_objects :: "'c config \<Rightarrow> (nat \<Rightarrow> 'c Raft) \<Rightarrow> bool" where
  "live_objects cfg objs \<longleftrightarrow>
     (\<forall>j < cn cfg. \<forall>rf p. crafts cfg ! j = Some rf \<and> servers (cnet cfg) (int j) = Some p \<longrightarrow> objs p = rf)"

lemma live_objects_update:
  assumes "live_objects cfg objs" and "served cfg" and "servers (cnet cfg) (int j) = Some p" and "j < length (crafts cfg)"
  shows "live_objects (cfg\<lparr>crafts := (crafts cfg)[j := Some rf']\<rparr>) (objs(p := rf'))"
  unfolding live_objects_def
proof (intro allI impI, elim conjE)
  fix k rf q assume k: "k < cn (cfg\<lparr>crafts := (crafts cfg)[j := Some rf']\<rparr>)" and rf: "crafts (cfg\<lparr>crafts := (crafts cfg)[j := Some rf']\<rparr>) ! k = Some rf"
    and q: "servers (cnet (cfg\<lparr>crafts := (crafts cfg)[j := Some rf']\<rparr>)) (int k) = Some q"
  show "(objs(p := rf')) q = rf"
  proof (cases "k = j")
    case True
    then show ?thesis using rf q assms(3,4) by simp
  next
    case False
    have "q \<noteq> p" using assms(2,3) q False unfolding served_def registered_def by fastforce
    then show ?thesis using assms(1) k rf q False by (simp add: live_objects_def)
  qed
qed

lemma raft_call:
  assumes inv: "harness_inv n cfg" and sv: "served cfg" and i: "i < n" and j: "j < n"
    and peers: "endnames cfg ! i = Some peers" and rel: "reliable (cnet cfg)" and lo: "live_objects cfg objs"
    and codec: "dec (enca args) = args"
  shows "\<exists>req. send_rpc enca peers (int j) args = Inr req \<and>
    (connected cfg ! i \<and> connected cfg ! j \<longrightarrow> (\<forall>rf rf' r. crafts cfg ! j = Some rf \<and> raft_handle t rf args = Inr (rf', r) \<and> decr (encr r) = Some r \<longrightarrow>
      (\<exists>late s rep p. processReq_steps dec encr req ([Read, Send a, Handle, Receive, Decide b c] @ late) (rpc_start (cnet cfg) (csrvs cfg) (Inr (t, objs))) = Some (Inr s) \<and>
         (late = [] \<or> late = [Deliver]) \<and> point s = PReplied rep \<and> Call_result decr rep = Inr (Some r) \<and> executed s = [(p, rep)] \<and>
         servers (cnet cfg) (int j) = Some p \<and> world s = Inr (t, objs(p := rf')) \<and> live_objects (cfg\<lparr>crafts := (crafts cfg)[j := Some rf']\<rparr>) (objs(p := rf'))))) \<and>
    (\<not> (connected cfg ! i \<and> connected cfg ! j) \<or> crafts cfg ! j = None \<longrightarrow>
      (\<exists>s rep. processReq_steps dec encr req [Read, Deliver] (rpc_start (cnet cfg) (csrvs cfg) (Inr (t, objs))) = Some (Inr s) \<and>
         point s = PReplied rep \<and> Call_result decr rep = Inr None \<and> executed s = [] \<and> world s = Inr (t, objs)))"
proof -
  have sh: "shaped cfg" "cn cfg = n" using inv wired_shaped by (auto simp: harness_inv_def)
  then have len: "length peers = n" "length (endnames cfg) = n" using i peers by (auto simp: shaped_def)
  let ?req = "Call_request enca (peers ! j) (''Raft.'' @ method_of args) args"
  have req: "send_rpc enca peers (int j) args = Inr ?req" using send_rpc_ok len j by blast
  have at: "end_at (int i) (int j) cfg = Inr (peers ! j)"
    using i j peers len by (simp add: end_at_def)
  have route: "enabled (cnet cfg) (peers ! j) = (connected cfg ! i \<and> connected cfg ! j)" "connections (cnet cfg) (peers ! j) = Some (int j)"
    "servers (cnet cfg) (int j) = None \<longleftrightarrow> crafts cfg ! j = None"
    using harness_routes [OF inv i j at] by (auto simp: readEndnameInfo_def)
  have e: "req_endname ?req = peers ! j" by (simp add: Call_request_def)
  have up: "\<exists>late s rep p. processReq_steps dec encr ?req ([Read, Send a, Handle, Receive, Decide b c] @ late) (rpc_start (cnet cfg) (csrvs cfg) (Inr (t, objs))) = Some (Inr s) \<and>
         (late = [] \<or> late = [Deliver]) \<and> point s = PReplied rep \<and> Call_result decr rep = Inr (Some r) \<and> executed s = [(p, rep)] \<and>
         servers (cnet cfg) (int j) = Some p \<and> world s = Inr (t, objs(p := rf')) \<and> live_objects (cfg\<lparr>crafts := (crafts cfg)[j := Some rf']\<rparr>) (objs(p := rf'))"
    if con: "connected cfg ! i \<and> connected cfg ! j" and rf: "crafts cfg ! j = Some rf" "raft_handle t rf args = Inr (rf', r)" "decr (encr r) = Some r" for rf rf' r
  proof -
    obtain p where p: "servers (cnet cfg) (int j) = Some p" using route(3) rf(1) by auto
    have obj: "objs p = rf" using lo p rf(1) j sh(2) by (simp add: live_objects_def)
    have "services (csrvs cfg p) = services (raft_server p)" using sv p by (simp add: served_def registered_def)
    from raft_dispatch [where dec = dec and encr = encr and e = "peers ! j" and enca = enca and a = args and now = t and objs = objs, OF this codec, of rf' r]
    obtain rs' where d: "Server_dispatch dec encr (csrvs cfg p) ?req (Inr (t, objs)) = Inr (\<lparr>rep_ok = True, reply = encr r\<rparr>, rs', Inr (t, objs(p := rf')))"
      using rf(2) obj by auto
    have res: "Call_result decr \<lparr>rep_ok = True, reply = encr r\<rparr> = Inr (Some r)" using rf(3) by (simp add: Call_result_def)
    have "enabled (cnet cfg) (req_endname ?req) \<and> connections (cnet cfg) (req_endname ?req) = Some (int j) \<and> servers (cnet cfg) (int j) = Some p"
      using con route p e by simp
    from conjunct1 [OF rpc_quiet_network [where hp = "csrvs cfg" and p = p and w = "Inr (t, objs)", OF rel d, of "int j" a b c], rule_format, OF this]
    obtain late s where "processReq_steps dec encr ?req ([Read, Send a, Handle, Receive, Decide b c] @ late) (rpc_start (cnet cfg) (csrvs cfg) (Inr (t, objs))) = Some (Inr s)"
      "late = [] \<or> late = [Deliver]" "point s = PReplied \<lparr>rep_ok = True, reply = encr r\<rparr>" "world s = Inr (t, objs(p := rf'))"
      "executed s = [(p, \<lparr>rep_ok = True, reply = encr r\<rparr>)]" by blast
    then show ?thesis using res live_objects_update [OF lo sv p, of rf'] j sh p by (auto simp: shaped_def)
  qed
  have down: "\<exists>s rep. processReq_steps dec encr ?req [Read, Deliver] (rpc_start (cnet cfg) (csrvs cfg) (Inr (t, objs))) = Some (Inr s) \<and>
         point s = PReplied rep \<and> Call_result decr rep = Inr None \<and> executed s = [] \<and> world s = Inr (t, objs)"
    if "\<not> (connected cfg ! i \<and> connected cfg ! j) \<or> crafts cfg ! j = None"
    using that route by (cases "enabled (cnet cfg) (peers ! j)")
      (auto simp: rpc_start_def readEndnameInfo_def Call_request_def Call_result_def split: option.splits)
  show ?thesis using req up down by (intro exI [of _ ?req]) simp
qed

text \<open>Contents of the objects that agree with a configuration always exist.\<close>

lemma live_objects_exist:
  assumes "served cfg"
  shows "\<exists>objs. live_objects cfg objs"
proof -
  define objs where "objs p = (SOME rf. \<exists>j < cn cfg. crafts cfg ! j = Some rf \<and> servers (cnet cfg) (int j) = Some p)" for p
  have "objs p = rf" if "j < cn cfg" "crafts cfg ! j = Some rf" "servers (cnet cfg) (int j) = Some p" for j rf p
    unfolding objs_def
  proof (rule some_equality)
    show "rf' = rf" if "\<exists>k < cn cfg. crafts cfg ! k = Some rf' \<and> servers (cnet cfg) (int k) = Some p" for rf'
      using that \<open>crafts cfg ! j = Some rf\<close> \<open>servers (cnet cfg) (int j) = Some p\<close> assms unfolding served_def registered_def by fastforce
  qed (use that in blast)
  then show ?thesis by (intro exI [of _ objs]) (simp add: live_objects_def)
qed

subsection \<open>The property\<close>

text \<open>
  C28: In every run of the harness a call from peer \<open>i\<close> to peer \<open>j\<close> on a reliable network that is
  otherwise quiet does what the code of Raft means it to do. When both are connected and \<open>j\<close> runs, the
  handler of the current instance of \<open>j\<close> is executed once, on the arguments that were sent, and the
  caller gets exactly its reply; no other instance changes. When one of them is disconnected or
  \<open>j\<close> is down the call fails and no instance changes. The servers are those that \<open>start1\<close> made and
  the network has registered; that labgob decodes what it encoded is a hypothesis.
\<close>

theorem raft_call_through_network:
  assumes "make_config now0 randstring now rnd n unreliable = Inr cfg0" and "hreach cfg0 cfg" and "i < n" and "j < n"
    and "endnames cfg ! i = Some peers" and "reliable (cnet cfg)" and "live_objects cfg objs"
    and "dec (enca args) = args"
  shows "\<exists>req. send_rpc enca peers (int j) args = Inr req \<and>
    (connected cfg ! i \<and> connected cfg ! j \<longrightarrow> (\<forall>rf rf' r. crafts cfg ! j = Some rf \<and> raft_handle t rf args = Inr (rf', r) \<and> decr (encr r) = Some r \<longrightarrow>
      (\<exists>late s rep p. processReq_steps dec encr req ([Read, Send a, Handle, Receive, Decide b c] @ late) (rpc_start (cnet cfg) (csrvs cfg) (Inr (t, objs))) = Some (Inr s) \<and>
         (late = [] \<or> late = [Deliver]) \<and> point s = PReplied rep \<and> Call_result decr rep = Inr (Some r) \<and> executed s = [(p, rep)] \<and>
         servers (cnet cfg) (int j) = Some p \<and> world s = Inr (t, objs(p := rf')) \<and> live_objects (cfg\<lparr>crafts := (crafts cfg)[j := Some rf']\<rparr>) (objs(p := rf'))))) \<and>
    (\<not> (connected cfg ! i \<and> connected cfg ! j) \<or> crafts cfg ! j = None \<longrightarrow>
      (\<exists>s rep. processReq_steps dec encr req [Read, Deliver] (rpc_start (cnet cfg) (csrvs cfg) (Inr (t, objs))) = Some (Inr s) \<and>
         point s = PReplied rep \<and> Call_result decr rep = Inr None \<and> executed s = [] \<and> world s = Inr (t, objs)))"
proof -
  have "harness_inv n cfg" using hreach_inv [OF assms(2) make_config_inv [OF assms(1)]] by simp
  then show ?thesis by (rule raft_call [OF _ hreach_served [OF assms(2) make_config_served [OF assms(1)]] assms(3-7)]) (rule assms(8))
qed

subsection \<open>A vote, just after the start\<close>

text \<open>A codec for votes: an integer is its sign and its value in unary.\<close>

definition enc_int :: "int \<Rightarrow> string" where
  "enc_int z = (if z < 0 then ''-'' else ''+'') @ replicate (nat \<bar>z\<bar>) (CHR ''x'')"

definition dec_int :: "string \<Rightarrow> int \<times> string" where
  "dec_int s = (let k = int (length (takeWhile (\<lambda>c. c = CHR ''x'') (tl s)))
     in (if hd s = CHR ''-'' then - k else k, dropWhile (\<lambda>c. c = CHR ''x'') (tl s)))"

lemma dec_enc_int:
  assumes "t = [] \<or> hd t \<noteq> CHR ''x''"
  shows "dec_int (enc_int z @ t) = (z, t)"
proof -
  have a: "takeWhile (\<lambda>c. c = CHR ''x'') (replicate n (CHR ''x'') @ t) = replicate n (CHR ''x'')"
    "dropWhile (\<lambda>c. c = CHR ''x'') (replicate n (CHR ''x'') @ t) = t" for n
    using assms by (cases t; simp add: takeWhile_append dropWhile_append)+
  show ?thesis using a by (simp add: enc_int_def dec_int_def Let_def)
qed

lemma hd_enc_int: "hd (enc_int z @ t) \<noteq> CHR ''x''"
  by (simp add: enc_int_def)

fun enc_args :: "nat rpc_args \<Rightarrow> string" where
  "enc_args (VoteArgs a) = enc_int (rv_Term a) @ enc_int (rv_CandidateId a) @ enc_int (rv_LastLogIndex a) @ enc_int (rv_LastLogTerm a)"
| "enc_args (EntriesArgs a) = ''''"

definition dec_args :: "string \<Rightarrow> nat rpc_args" where
  "dec_args s = (let (t, s1) = dec_int s; (i, s2) = dec_int s1; (l, s3) = dec_int s2; (k, s4) = dec_int s3
     in VoteArgs \<lparr>rv_Term = t, rv_CandidateId = i, rv_LastLogIndex = l, rv_LastLogTerm = k\<rparr>)"

fun enc_reply :: "rpc_reply \<Rightarrow> string" where
  "enc_reply (VoteReply r) = enc_int (rvr_Term r) @ (if rvr_VoteGranted r then ''1'' else ''0'')"
| "enc_reply (EntriesReply r) = ''''"

definition dec_reply :: "string \<Rightarrow> rpc_reply option" where
  "dec_reply s = (if s = '''' then None else let (t, s1) = dec_int s in Some (VoteReply \<lparr>rvr_Term = t, rvr_VoteGranted = (s1 = ''1'')\<rparr>))"

lemma dec_enc_args: "dec_args (enc_args (VoteArgs a)) = VoteArgs a"
  using dec_enc_int [of "''''" "rv_LastLogTerm a"] hd_enc_int [of _ "''''"] by (simp add: dec_args_def dec_enc_int hd_enc_int Let_def)

lemma dec_enc_reply: "dec_reply (enc_reply (VoteReply r)) = Some (VoteReply r)"
proof -
  have "enc_int z @ t \<noteq> ''''" for z t by (simp add: enc_int_def)
  then show ?thesis using dec_enc_int [of "''1''" "rvr_Term r"] dec_enc_int [of "''0''" "rvr_Term r"] by (simp add: dec_reply_def Let_def)
qed

definition sample_vote :: "nat rpc_args" where
  "sample_vote = VoteArgs \<lparr>rv_Term = 1, rv_CandidateId = 0, rv_LastLogIndex = 0, rv_LastLogTerm = 0\<rparr>"

text \<open>Peer 0 asks peer 1 for its vote and gets it; the servers are those of the new configuration.\<close>

theorem raft_call_through_network_witness:
  "\<exists>(cfg0 :: nat config) objs peers req late s rep p rf'. make_config 0 sample_names (\<lambda>_. 0) (\<lambda>_. 0) 3 False = Inr cfg0 \<and>
     endnames (setunreliable False cfg0) ! 0 = Some peers \<and> send_rpc enc_args peers (int 1) sample_vote = Inr req \<and>
     processReq_steps dec_args enc_reply req ([Read, Send 7, Handle, Receive, Decide 8 700] @ late)
       (rpc_start (cnet (setunreliable False cfg0)) (csrvs (setunreliable False cfg0)) (Inr (5, objs))) = Some (Inr s) \<and> point s = PReplied rep \<and>
     Call_result dec_reply rep = Inr (Some (VoteReply \<lparr>rvr_Term = 1, rvr_VoteGranted = True\<rparr>)) \<and> executed s = [(p, rep)] \<and>
     world s = Inr (5, objs(p := rf')) \<and> votedFor rf' = 0"
proof -
  let ?r = "VoteReply \<lparr>rvr_Term = 1, rvr_VoteGranted = True\<rparr>"
  obtain cfg0 :: "nat config" where c0: "make_config 0 sample_names (\<lambda>_. 0) (\<lambda>_. 0) 3 False = Inr cfg0" "harness_inv 3 cfg0" "started 3 3 cfg0" "\<forall>j < 3. connected cfg0 ! j"
    using sample_harness by blast
  obtain rf where rf: "crafts cfg0 ! 1 = Some rf" "pstate_of rf = initial_pstate" using c0(3) unfolding started_def by (meson one_less_numeral_iff semiring_norm(77))
  have "has_ends cfg0 0" using c0(2) by (simp add: harness_inv_def)
  then obtain peers where peers: "endnames cfg0 ! 0 = Some peers" by (auto simp: has_ends_def)
  define cfg where "cfg = setunreliable False cfg0"
  have same: "crafts cfg = crafts cfg0" "endnames cfg = endnames cfg0" "connected cfg = connected cfg0" "reliable (cnet cfg)"
    by (simp_all add: cfg_def setunreliable_def Reliable_def)
  have reach: "hreach cfg0 cfg" unfolding cfg_def by (rule hreach.step [OF hreach.here hstep.unreliable])
  obtain objs where lo: "live_objects cfg objs" using live_objects_exist [OF hreach_served [OF reach make_config_served [OF c0(1)]]] by blast
  have log: "log rf = [\<lparr>Term = 0, Command = None, Index = 0\<rparr>]" "currentTerm rf = 0" "votedFor rf = -1" using rf(2) by (simp_all add: pstate_of_def initial_pstate_def)
  obtain rf' where h: "raft_handle 5 rf sample_vote = Inr (rf', ?r)" "votedFor rf' = 0"
    using log by (auto simp: sample_vote_def RequestVote_def moreUpToDate_def convertTo_def Let_def go_index_def go_len_def persist_def)
  have p0: "endnames cfg ! 0 = Some peers" "0 < (3 :: nat)" "1 < (3 :: nat)" using peers same(2) by simp_all
  have codec: "dec_args (enc_args sample_vote) = sample_vote" unfolding sample_vote_def by (rule dec_enc_args)
  have on: "connected cfg ! 0 \<and> connected cfg ! 1" "crafts cfg ! 1 = Some rf \<and> raft_handle 5 rf sample_vote = Inr (rf', ?r) \<and> dec_reply (enc_reply ?r) = Some ?r"
    using c0(4) rf(1) h(1) same dec_enc_reply [of "\<lparr>rvr_Term = 1, rvr_VoteGranted = True\<rparr>"] by simp_all
  obtain req where q: "send_rpc enc_args peers (int 1) sample_vote = Inr req"
    and all: "connected cfg ! 0 \<and> connected cfg ! 1 \<longrightarrow> (\<forall>rf rf' r. crafts cfg ! 1 = Some rf \<and> raft_handle 5 rf sample_vote = Inr (rf', r) \<and> dec_reply (enc_reply r) = Some r \<longrightarrow>
      (\<exists>late s rep p. processReq_steps dec_args enc_reply req ([Read, Send 7, Handle, Receive, Decide 8 700] @ late) (rpc_start (cnet cfg) (csrvs cfg) (Inr (5, objs))) = Some (Inr s) \<and>
         (late = [] \<or> late = [Deliver]) \<and> point s = PReplied rep \<and> Call_result dec_reply rep = Inr (Some r) \<and> executed s = [(p, rep)] \<and>
         servers (cnet cfg) (int 1) = Some p \<and> world s = Inr (5, objs(p := rf')) \<and> live_objects (cfg\<lparr>crafts := (crafts cfg)[1 := Some rf']\<rparr>) (objs(p := rf'))))"
    using raft_call_through_network [where dec = dec_args and enca = enc_args and args = sample_vote and encr = enc_reply and decr = dec_reply
        and a = 7 and b = 8 and c = 700 and t = 5, OF c0(1) reach p0(2,3,1) same(4) lo codec]
    by (elim exE conjE) (rule that)
  from all [rule_format, OF on]
  obtain late s rep p where "processReq_steps dec_args enc_reply req ([Read, Send 7, Handle, Receive, Decide 8 700] @ late) (rpc_start (cnet cfg) (csrvs cfg) (Inr (5, objs))) = Some (Inr s)"
    "point s = PReplied rep" "Call_result dec_reply rep = Inr (Some ?r)" "executed s = [(p, rep)]" "world s = Inr (5, objs(p := rf'))"
    by (elim exE conjE) (rule that; assumption)
  then show ?thesis using c0(1) p0(1) q h(2) unfolding cfg_def
    by - (rule exI [of _ cfg0], rule exI [of _ objs], rule exI [of _ peers], rule exI [of _ req], rule exI [of _ late],
        rule exI [of _ s], rule exI [of _ rep], rule exI [of _ p], rule exI [of _ rf'], intro conjI; assumption)
qed

end
