(* ===== verification/Harness_Checks.thy ===== *)
theory Harness_Checks
  imports Harness_Wiring
begin

section \<open>What the checks of the Raft tests establish\<close>

text \<open>
  The readers of the apply channels keep the logs of the peers in agreement, \<open>nCommitted\<close> counts
  the peers that committed an entry, \<open>checkOneLeader\<close> finds the leader of the latest term, and
  \<open>one\<close> returns only after enough peers committed the command.
\<close>

subsection \<open>Committed entries\<close>

definition committers :: "int \<Rightarrow> 'c config \<Rightarrow> nat set" where
  "committers idx cfg = {k. k < length (crafts cfg) \<and> (logs cfg ! k) idx \<noteq> None}"

lemma card_count_Suc: "card {k. k < Suc n \<and> P k} = (if P n then Suc (card {k. k < n \<and> P k}) else card {k. k < n \<and> P k})"
proof -
  have "{k. k < Suc n \<and> P k} = (if P n then insert n {k. k < n \<and> P k} else {k. k < n \<and> P k})" by (auto simp: less_Suc_eq)
  then show ?thesis by simp
qed

abbreviation (input) count_step :: "int \<Rightarrow> 'c config \<Rightarrow> nat \<Rightarrow> int \<times> 'c option \<Rightarrow> (int \<times> 'c option) res" where
  "count_step idx cfg \<equiv> \<lambda>i (cnt, cmd).
        bind_res (go_index (applyErr cfg) (int i)) (\<lambda>err.
        if err \<noteq> '''' then Inl (LogFatal err)
        else bind_res (go_index (logs cfg) (int i)) (\<lambda>lg.
          case lg idx of
            None \<Rightarrow> Inr (cnt, cmd)
          | Some cmd1 \<Rightarrow> if cnt > 0 \<and> cmd \<noteq> cmd1 then Inl (LogFatal ''committed values do not match'')
                           else Inr (cnt + 1, cmd1)))"

lemma all_less_Suc: "(\<forall>k < Suc n. P k) \<longleftrightarrow> P n \<and> (\<forall>k < n. P k)"
  by (auto simp: less_Suc_eq)

lemma count_step_sound:
  assumes "fold_res (count_step idx cfg) [0..<n] (0, None) = Inr (nd, cmd)"
  shows "nd = int (card {k. k < n \<and> (logs cfg ! k) idx \<noteq> None}) \<and> (\<forall>k < n. \<forall>v. (logs cfg ! k) idx = Some v \<longrightarrow> v = cmd)"
  using assms
proof (induction n arbitrary: nd cmd)
  case (Suc n)
  obtain nd1 cmd1 where 1: "fold_res (count_step idx cfg) [0..<n] (0, None) = Inr (nd1, cmd1)" "count_step idx cfg n (nd1, cmd1) = Inr (nd, cmd)"
    using Suc.prems by (auto simp: fold_res_snoc bind_res_eq_Inr)
  note IH = Suc.IH [OF 1(1)]
  have none: "(logs cfg ! k) idx = None" if "nd1 \<le> 0" "k < n" for k
  proof -
    have "{k. k < n \<and> (logs cfg ! k) idx \<noteq> None} = {}" using IH that(1) by simp
    then show ?thesis using that(2) by blast
  qed
  show ?case
  proof (cases "(logs cfg ! n) idx")
    case None
    then have "nd = nd1" "cmd = cmd1" using 1(2) by (auto simp: bind_res_eq_Inr go_index_Inr split: if_splits)
    then show ?thesis using IH None by (simp add: card_count_Suc all_less_Suc)
  next
    case (Some v)
    then have r: "nd = nd1 + 1" "cmd = v" "nd1 > 0 \<longrightarrow> cmd1 = v" using 1(2) by (auto simp: bind_res_eq_Inr go_index_Inr split: if_splits)
    have "w = v" if k: "k < n" "(logs cfg ! k) idx = Some w" for k w
    proof (cases "nd1 > 0")
      case True
      then show ?thesis using conjunct2 [OF IH] r(3) k by simp
    next
      case False
      then show ?thesis using none [of k] k by simp
    qed
    then show ?thesis using IH r Some by (simp add: card_count_Suc all_less_Suc)
  qed
qed simp

lemma nCommitted_sound:
  assumes "nCommitted idx cfg = Inr (nd, cmd)"
  shows "nd = int (card (committers idx cfg)) \<and> (\<forall>k < length (crafts cfg). \<forall>v. (logs cfg ! k) idx = Some v \<longrightarrow> v = cmd)"
  unfolding committers_def by (rule count_step_sound) (use assms in \<open>simp add: nCommitted_def\<close>)

text \<open>The logs agree, and have no gaps above the first index.\<close>

definition logs_ok :: "nat \<Rightarrow> 'c config \<Rightarrow> bool" where
  "logs_ok n cfg \<longleftrightarrow>
     length (logs cfg) = n \<and> applyErr cfg = replicate n '''' \<and>
     (\<forall>k < n. \<forall>l < n. \<forall>idx v w. (logs cfg ! k) idx = Some v \<longrightarrow> (logs cfg ! l) idx = Some w \<longrightarrow> v = w) \<and>
     (\<forall>k < n. \<forall>idx > 1. (logs cfg ! k) idx \<noteq> None \<longrightarrow> (logs cfg ! k) (idx - 1) \<noteq> None)"

lemma logs_okD:
  assumes "logs_ok n cfg"
  shows "k < n \<Longrightarrow> l < n \<Longrightarrow> (logs cfg ! k) idx = Some v \<Longrightarrow> (logs cfg ! l) idx = Some w \<Longrightarrow> v = w"
    and "k < n \<Longrightarrow> 1 < idx \<Longrightarrow> (logs cfg ! k) idx \<noteq> None \<Longrightarrow> (logs cfg ! k) (idx - 1) \<noteq> None"
  using assms unfolding logs_ok_def by blast+

lemma count_step_total:
  assumes ok: "logs_ok m cfg" and "n \<le> m"
  shows "\<exists>r. fold_res (count_step idx cfg) [0..<n] (0, None) = Inr r"
  using \<open>n \<le> m\<close>
proof (induction n)
  case (Suc n)
  then obtain nd cmd where r: "fold_res (count_step idx cfg) [0..<n] (0, None) = Inr (nd, cmd)" by auto
  note s = count_step_sound [OF r]
  have len: "n < length (logs cfg)" "n < length (applyErr cfg)" "applyErr cfg ! n = ''''" using ok Suc.prems by (auto simp: logs_ok_def)
  have "cmd = v" if "nd > 0" "(logs cfg ! n) idx = Some v" for v
  proof -
    have "card {k. k < n \<and> (logs cfg ! k) idx \<noteq> None} \<noteq> 0" using s that(1) by linarith
    then have "{k. k < n \<and> (logs cfg ! k) idx \<noteq> None} \<noteq> {}" by (metis card.empty)
    then obtain k w where k: "k < n" "(logs cfg ! k) idx = Some w" by auto
    have "w = cmd" using s k by blast
    moreover have "w = v" by (rule logs_okD(1) [OF ok _ _ k(2) that(2)]) (use k Suc.prems in simp_all)
    ultimately show ?thesis by simp
  qed
  then show ?case using r len by (auto simp: fold_res_snoc split: option.splits)
qed simp

lemma read_apply_logs_ok:
  assumes ok: "logs_ok n cfg" and st: "read_apply i m cfg = Inr cfg'"
  shows "logs_ok n cfg'"
proof (cases "CommandValid m")
  case True
  note a = st [unfolded read_apply_Inr [OF True]]
  have i: "nat i < n" using a ok by (auto simp: logs_ok_def go_len_def)
  let ?l = "logs cfg ! nat i" and ?x = "CommandIndex m" and ?v = "am_Command m"
  have lg: "logs cfg' ! k = (if k = nat i then ?l(?x \<mapsto> ?v) else logs cfg ! k)" if "k < n" for k
    using a ok that i by (auto simp: logs_ok_def)
  have fr: "length (logs cfg') = n" "applyErr cfg' = replicate n ''''" using a ok by (auto simp: logs_ok_def)
  have old: "old = ?v" if "k < n" "(logs cfg ! k) ?x = Some old" for k old using a that ok by (auto simp: logs_ok_def)
  have at: "(logs cfg' ! k) idx = Some v \<Longrightarrow> (if idx = ?x then v = ?v else (logs cfg ! k) idx = Some v)" if "k < n" for k idx v
    using lg [OF that] old [OF that] by (auto split: if_splits)
  have "v = w" if "k < n" "l < n" "(logs cfg' ! k) idx = Some v" "(logs cfg' ! l) idx = Some w" for k l idx v w
    using at [OF that(1,3)] at [OF that(2,4)] logs_okD(1) [OF ok that(1,2), of idx v w] by (cases "idx = ?x") simp_all
  moreover have "(logs cfg' ! k) (idx - 1) \<noteq> None" if "k < n" "1 < idx" "(logs cfg' ! k) idx \<noteq> None" for k idx
  proof (cases "k = nat i \<and> idx = ?x")
    case True
    then show ?thesis using a that(2) lg [OF that(1)] by (cases "idx - 1 = ?x") auto
  next
    case False
    then have "(logs cfg ! k) idx \<noteq> None" using that(3) lg [OF that(1)] by (auto split: if_splits)
    then show ?thesis using logs_okD(2) [OF ok that(1,2)] lg [OF that(1)] by auto
  qed
  ultimately show ?thesis using fr unfolding logs_ok_def by blast
next
  case False
  then show ?thesis using st ok by (simp add: read_apply_def)
qed

text \<open>The other operations leave the logs alone.\<close>

lemma connect_logs:
  assumes "harness_inv n cfg" and "connect i cfg = Inr cfg'"
  shows "logs cfg' = logs cfg \<and> applyErr cfg' = applyErr cfg"
proof -
  have w: "wired cfg" "cn cfg = n" "\<And>k. k < n \<Longrightarrow> has_ends cfg k" using assms(1) by (auto simp: harness_inv_def)
  have "0 \<le> i" "nat i < n" using assms(2) wired_shaped [OF w(1)] w(2)
    by (auto simp: connect_def bind_res_eq_Inr go_update_Inr go_len_def shaped_def)
  then show ?thesis using connect_ok [OF wired_shaped [OF w(1)] w(3), of "nat i"] wiredD(5) [OF w(1)] assms(2) by auto
qed

lemma disconnect_logs:
  assumes "wired cfg" and "disconnect i cfg = Inr cfg'"
  shows "logs cfg' = logs cfg \<and> applyErr cfg' = applyErr cfg \<and> 0 \<le> i \<and> nat i < cn cfg"
proof -
  have i: "0 \<le> i" "nat i < cn cfg" using assms wired_shaped [OF assms(1)]
    by (auto simp: disconnect_def bind_res_eq_Inr go_update_Inr go_len_def shaped_def)
  then show ?thesis using disconnect_frame [OF wired_shaped [OF assms(1)] i(2), of cfg'] assms(2) by simp
qed

lemma crash1_logs:
  assumes w: "wired cfg" and "crash1 i cfg = Inr cfg'"
  shows "logs cfg' = logs cfg \<and> applyErr cfg' = applyErr cfg \<and> 0 \<le> i \<and> nat i < cn cfg"
proof -
  obtain d where d: "disconnect i cfg = Inr d" using assms(2) by (auto simp: crash1_def bind_res_eq_Inr)
  note l = disconnect_logs [OF w d]
  have i: "nat i < cn cfg" "0 \<le> i" using l by auto
  show ?thesis
    by (rule crash1_ok [OF w i(1)]) (use l assms(2) d in \<open>auto simp: i(2)\<close>)
qed

lemma start1_logs:
  assumes w: "wired cfg" and st: "start1 names now rnd i cfg = Inr cfg'"
  shows "logs cfg' = logs cfg \<and> applyErr cfg' = applyErr cfg"
proof -
  obtain c where c: "crash1 i cfg = Inr c" using st by (auto simp: start1_def bind_res_eq_Inr)
  note l = crash1_logs [OF w c]
  have "start1 names now rnd (int (nat i)) cfg = Inr cfg'" using st l by simp
  from this show ?thesis
    by (rule start1_ok [OF w conjunct2 [OF conjunct2 [OF conjunct2 [OF l]]]]) (use l c in simp)
qed

lemma make_config_logs:
  assumes "make_config now0 randstring now rnd n u = Inr cfg"
  shows "logs cfg = replicate n (\<lambda>_. None) \<and> applyErr cfg = replicate n ''''"
proof -
  obtain c where c: "start_all randstring now rnd [0..<n] (blank now0 n u) = Inr c" "fold_res (\<lambda>i c. connect (int i) c) [0..<n] c = Inr cfg"
    using assms by (auto simp: make_config_blank bind_res_eq_Inr)
  have "logs c' = replicate n (\<lambda>_. None) \<and> applyErr c' = replicate n ''''"
    if "start_all randstring now rnd [0..<k] (blank now0 n u) = Inr c'" "k \<le> n" for k and c' :: "'a config"
    using that
  proof (induction k arbitrary: c')
    case (Suc k)
    obtain c1 where c1: "start_all randstring now rnd [0..<k] (blank now0 n u) = Inr c1" "start1 (randstring k) (now k) (rnd k) (int k) c1 = Inr c'"
      using Suc.prems(1) by (auto simp: fold_res_snoc bind_res_eq_Inr)
    have "wired c1" using start_all_wired [OF c1(1)] Suc.prems(2) by simp
    from start1_logs [OF this c1(2)] Suc.IH [OF c1(1)] Suc.prems(2) show ?case by simp
  qed auto
  from this [OF c(1)] have l: "logs c = replicate n (\<lambda>_. None) \<and> applyErr c = replicate n ''''" by simp
  have inv: "harness_inv n c" using start_all_wired [OF c(1)] by (simp add: harness_inv_def)
  let ?P = "\<lambda>c. harness_inv n c \<and> logs c = replicate n (\<lambda>_. None) \<and> applyErr c = replicate n ''''"
  have "?P cfg"
  proof (rule fold_res_invariant [OF c(2)])
    show "?P c" using inv l by simp
    show "?P s'" if "?P s" "connect (int x) s = Inr s'" for x s s'
      using that connect_logs [of n s "int x" s'] hstep_wired [OF hstep.connect [OF that(2)], of n] by simp
  qed
  then show ?thesis by simp
qed

lemma hstep_logs_ok:
  assumes st: "hstep cfg cfg'" and inv: "harness_inv n cfg" and ok: "logs_ok n cfg"
  shows "logs_ok n cfg'"
proof -
  have w: "wired cfg" using inv by (simp add: harness_inv_def)
  have same: ?thesis if "logs cfg' = logs cfg \<and> applyErr cfg' = applyErr cfg" using that ok by (simp add: logs_ok_def)
  show ?thesis
    using st
  proof cases
    case (deliver i m)
    then show ?thesis using read_apply_logs_ok [OF ok] by blast
  qed (use same connect_logs [OF inv] disconnect_logs [OF w] crash1_logs [OF w] start1_logs [OF w]
      in \<open>auto simp: setunreliable_def setlongreordering_def\<close>)
qed

lemma reach_logs_ok:
  assumes "make_config now0 randstring now rnd n u = Inr cfg0" and "hreach cfg0 cfg"
  shows "harness_inv n cfg \<and> logs_ok n cfg"
  using assms(2)
proof (induction rule: hreach.induct)
  case here
  show ?case using make_config_inv [OF assms(1)] make_config_logs [OF assms(1)] by (simp add: logs_ok_def)
next
  case (step c c')
  then show ?case using hstep_logs_ok hstep_wired by blast
qed

text \<open>
  C32: As long as the harness does not stop the program, the commands the peers applied agree: in every
  run, \<open>nCommitted\<close> returns, for every index, the number of peers that applied an entry there, with the
  one command they all applied; and no peer skipped an index after the first.
\<close>

theorem applied_logs_agree:
  assumes "make_config now0 randstring now rnd n unreliable = Inr cfg0" and "hreach cfg0 cfg"
  shows "(\<forall>idx. \<exists>cmd. nCommitted idx cfg = Inr (int (card {k. k < n \<and> (logs cfg ! k) idx \<noteq> None}), cmd) \<and>
      (\<forall>k < n. (logs cfg ! k) idx = None \<or> (logs cfg ! k) idx = Some cmd)) \<and>
    (\<forall>k < n. \<forall>idx > 1. (logs cfg ! k) idx \<noteq> None \<longrightarrow> (logs cfg ! k) (idx - 1) \<noteq> None)"
proof -
  have inv: "harness_inv n cfg" and ok: "logs_ok n cfg" using reach_logs_ok [OF assms] by auto
  then have len: "length (crafts cfg) = n" using wired_shaped [of cfg] by (auto simp: harness_inv_def shaped_def)
  have "\<exists>cmd. nCommitted idx cfg = Inr (int (card {k. k < n \<and> (logs cfg ! k) idx \<noteq> None}), cmd) \<and>
      (\<forall>k < n. (logs cfg ! k) idx = None \<or> (logs cfg ! k) idx = Some cmd)" for idx
  proof -
    obtain nd cmd where r: "nCommitted idx cfg = Inr (nd, cmd)" using count_step_total [OF ok order.refl, of idx] len by (auto simp: nCommitted_def)
    note s = nCommitted_sound [OF r, unfolded committers_def len]
    have "(logs cfg ! k) idx = None \<or> (logs cfg ! k) idx = Some cmd" if "k < n" for k
      using s that by (cases "(logs cfg ! k) idx") auto
    then show ?thesis using r conjunct1 [OF s] by blast
  qed
  then show ?thesis using logs_okD(2) [OF ok] by blast
qed

theorem applied_logs_agree_witness:
  "\<exists>(cfg0 :: nat config) cfg. make_config 0 sample_names (\<lambda>_. 0) (\<lambda>_. 0) 3 False = Inr cfg0 \<and>
     read_apply 2 \<lparr>CommandValid = True, am_Command = Some 7, CommandIndex = 1\<rparr> cfg0 = Inr cfg \<and> nCommitted 1 cfg = Inr (1, Some 7)"
proof -
  let ?m = "\<lparr>CommandValid = True, am_Command = Some 7, CommandIndex = 1\<rparr> :: nat ApplyMsg"
  obtain cfg0 :: "nat config" where c0: "make_config 0 sample_names (\<lambda>_. 0) (\<lambda>_. 0) 3 False = Inr cfg0" using sample_harness by blast
  note l = make_config_logs [OF c0]
  obtain cfg where c: "read_apply 2 ?m cfg0 = Inr cfg" "logs cfg = (logs cfg0)[2 := (logs cfg0 ! 2)(1 \<mapsto> Some 7)]"
    using read_apply_Inr [of ?m 2 cfg0] l by (auto simp: go_len_def)
  have r: "hreach cfg0 cfg" by (rule hreach.step [OF hreach.here hstep.deliver [OF c(1)]])
  obtain cmd where n: "nCommitted 1 cfg = Inr (int (card {k. k < 3 \<and> (logs cfg ! k) 1 \<noteq> None}), cmd)"
    "\<forall>k < 3. (logs cfg ! k) 1 = None \<or> (logs cfg ! k) 1 = Some cmd" using applied_logs_agree [OF c0 r, THEN conjunct1] by blast
  have at: "(logs cfg ! k) 1 \<noteq> None \<longleftrightarrow> k = 2" if "k < 3" for k using that c(2) l by (auto simp: nth_list_update split: if_splits)
  have "{k. k < 3 \<and> (logs cfg ! k) 1 \<noteq> None} = {2}" using at by auto
  moreover have "cmd = Some 7" using n(2) [rule_format, of 2] c(2) l by simp
  ultimately show ?thesis using c0 c(1) n(1) by auto
qed

subsection \<open>Leaders\<close>

text \<open>The peers that are connected and said to be leaders of a term, in order.\<close>

definition claims :: "(int \<Rightarrow> int \<times> bool) \<Rightarrow> 'c config \<Rightarrow> nat \<Rightarrow> int \<Rightarrow> int list" where
  "claims obs cfg k t = filter (\<lambda>i. connected cfg ! nat i \<and> obs i = (t, True)) (map int [0..<k])"

lemma add_leader_keys: "set (map fst (add_leader t i ls)) = insert t (set (map fst ls))"
  by (induction t i ls rule: add_leader.induct) auto

lemma add_leader_distinct: "distinct (map fst ls) \<Longrightarrow> distinct (map fst (add_leader t i ls))"
  by (induction t i ls rule: add_leader.induct) (use add_leader_keys in \<open>auto simp: image_iff\<close>)

lemma add_leader_get:
  "map_of (add_leader t i ls) u = (if u = t then Some ((case map_of ls t of Some is \<Rightarrow> is | None \<Rightarrow> []) @ [i]) else map_of ls u)"
  by (induction t i ls rule: add_leader.induct) auto

lemma collect_sound:
  assumes "collect_leaders obs cfg = Inr leaders" and "length (connected cfg) = cn cfg"
  shows "distinct (map fst leaders) \<and> (\<forall>t. map_of leaders t = (if claims obs cfg (cn cfg) t = [] then None else Some (claims obs cfg (cn cfg) t)))"
proof -
  let ?step = "\<lambda>i leaders. bind_res (go_index (connected cfg) i) (\<lambda>b.
        if b then bind_res (state_of obs i cfg) (\<lambda>(term, leader). Inr (if leader then add_leader term i leaders else leaders))
        else Inr leaders)"
  have "distinct (map fst ls) \<and> (\<forall>t. map_of ls t = (if claims obs cfg k t = [] then None else Some (claims obs cfg k t)))"
    if "k \<le> cn cfg" "fold_res ?step (map int [0..<k]) [] = Inr ls" for k ls
    using that
  proof (induction k arbitrary: ls)
    case 0
    then show ?case by (simp add: claims_def)
  next
    case (Suc k)
    obtain l1 where l1: "fold_res ?step (map int [0..<k]) [] = Inr l1" "?step (int k) l1 = Inr ls"
      using Suc.prems(2) by (auto simp: fold_res_snoc bind_res_eq_Inr)
    note IH = Suc.IH [OF _ l1(1)]
    have k: "go_index (connected cfg) (int k) = Inr (connected cfg ! k)" using Suc.prems(1) assms(2) by simp
    have cl: "claims obs cfg (Suc k) t = claims obs cfg k t @ (if connected cfg ! k \<and> obs (int k) = (t, True) then [int k] else [])" for t
      by (simp add: claims_def)
    show ?case
    proof (cases "connected cfg ! k \<and> snd (obs (int k))")
      case True
      then have "ls = add_leader (fst (obs (int k))) (int k) l1"
        using l1(2) k by (auto simp: state_of_def bind_res_eq_Inr split: option.splits prod.splits)
      moreover have "obs (int k) = (t, True) \<longleftrightarrow> t = fst (obs (int k))" for t using True by (metis eq_fst_iff prod.collapse)
      ultimately show ?thesis using IH Suc.prems(1) True by (simp add: cl add_leader_distinct add_leader_get)
    next
      case False
      then have "ls = l1" using l1(2) k by (auto simp: state_of_def bind_res_eq_Inr split: option.splits prod.splits if_splits)
      moreover have "\<not> (connected cfg ! k \<and> obs (int k) = (t, True))" for t using False by (metis snd_conv)
      ultimately show ?thesis using IH Suc.prems(1) by (simp add: cl)
    qed
  qed
  from this [of "cn cfg" leaders] assms(1) show ?thesis by (simp add: collect_leaders_def peer_list_def)
qed

lemma last_term_sound:
  assumes "lastTermWithLeader leaders = Inr l"
  shows "(\<forall>(t, ls) \<in> set leaders. length ls \<le> 1 \<and> t \<le> l)"
proof -
  let ?step = "\<lambda>(term, ls) last. if length ls > 1 then Inl (LogFatal ''term has more than one leader'') else Inr (if term > last then term else last)"
  have "m0 \<le> m \<and> (\<forall>(t, ls) \<in> set leaders. length ls \<le> 1 \<and> t \<le> m)" if "fold_res ?step leaders m0 = Inr m" for m0 m :: int
    using that
  proof (induction leaders arbitrary: m0)
    case (Cons x xs)
    then show ?case by (cases x) (force split: if_splits)
  qed simp
  from this [of "-1" l] assms show ?thesis by (simp add: lastTermWithLeader_def)
qed

text \<open>
  \<open>checkOneLeader\<close> returns a peer only when one look at the peers, the looks before it having found no
  leader, showed it connected and leader, nobody connected as leader of a later term, and no term
  with two leaders.
\<close>

theorem checkOneLeader_finds:
  assumes "checkOneLeader looks cfg = Inr l" and "length (connected cfg) = cn cfg"
  shows "\<exists>obs \<in> set looks. 0 \<le> l \<and> nat l < cn cfg \<and> connected cfg ! nat l \<and> snd (obs l) \<and>
    (\<forall>j < cn cfg. connected cfg ! j \<longrightarrow> snd (obs (int j)) \<longrightarrow>
       fst (obs (int j)) \<le> fst (obs l) \<and> (fst (obs (int j)) = fst (obs l) \<longrightarrow> int j = l)) \<and>
    (\<forall>i < cn cfg. \<forall>j < cn cfg. connected cfg ! i \<longrightarrow> connected cfg ! j \<longrightarrow> snd (obs (int i)) \<longrightarrow> obs (int i) = obs (int j) \<longrightarrow> i = j)"
  using assms(1)
proof (induction looks)
  case (Cons obs looks)
  obtain leaders m where c: "collect_leaders obs cfg = Inr leaders" "lastTermWithLeader leaders = Inr m"
    using Cons.prems by (auto simp: bind_res_eq_Inr)
  show ?case
  proof (cases "leaders = []")
    case True
    then show ?thesis using Cons c by auto
  next
    case False
    note col = collect_sound [OF c(1) assms(2)] and last = last_term_sound [OF c(2)]
    let ?cl = "claims obs cfg (cn cfg)"
    obtain ls where ls: "map_of leaders m = Some ls" "go_index ls 0 = Inr l" using Cons.prems c False by (auto split: option.splits)
    have ls': "ls = ?cl m" "ls \<noteq> []" using col ls(1) by (auto split: if_splits)
    have mem: "i \<in> set (?cl t) \<longleftrightarrow> 0 \<le> i \<and> nat i < cn cfg \<and> connected cfg ! nat i \<and> obs i = (t, True)" for i t
      by (auto simp: claims_def image_iff intro!: bexI [of _ "nat i"])
    have short: "length (?cl t) \<le> 1 \<and> t \<le> m" if "?cl t \<noteq> []" for t
      using col that last by (metis (mono_tags, lifting) case_prodD map_of_SomeD)
    have same: "i = j" if "i \<in> set (?cl t)" "j \<in> set (?cl t)" for i j t
      using short [of t] that by (cases "?cl t" rule: list.exhaust) (auto simp: le_Suc_eq length_Suc_conv)
    have l: "l \<in> set (?cl m)" using ls(2) ls' by (auto simp: go_index_Inr)
    have ob: "obs l = (m, True)" using l mem by blast
    have cl: "int j \<in> set (?cl t)" if "j < cn cfg" "connected cfg ! j" "obs (int j) = (t, True)" for j t using that mem by simp
    have A: "fst (obs (int j)) \<le> fst (obs l) \<and> (fst (obs (int j)) = fst (obs l) \<longrightarrow> int j = l)" if j: "j < cn cfg" "connected cfg ! j" "snd (obs (int j))" for j
    proof -
      have o: "obs (int j) = (fst (obs (int j)), True)" using j(3) by (simp add: prod_eq_iff)
      note jc = cl [OF j(1,2) o]
      then have "?cl (fst (obs (int j))) \<noteq> []" by auto
      from short [OF this] have "fst (obs (int j)) \<le> m" by simp
      moreover have "int j = l" if "fst (obs (int j)) = m" using same [of "int j" m l] jc l that by simp
      ultimately show ?thesis by (simp add: ob)
    qed
    have B: "i = j" if "i < cn cfg" "j < cn cfg" "connected cfg ! i" "connected cfg ! j" "snd (obs (int i))" "obs (int i) = obs (int j)" for i j
    proof -
      have o: "obs (int i) = (fst (obs (int i)), True)" using that(5) by (simp add: prod_eq_iff)
      from same [OF cl [OF that(1,3) o] cl [OF that(2,4)]] o that(6) show ?thesis by simp
    qed
    have C: "0 \<le> l \<and> nat l < cn cfg \<and> connected cfg ! nat l \<and> snd (obs l)" using l mem [of l m] ob by simp
    show ?thesis
      by (rule bexI [of _ obs]) (use A B C in blast, simp)
  qed
qed simp

theorem checkOneLeader_finds_witness:
  "\<exists>(cfg :: nat config) obs. checkOneLeader [\<lambda>_. (0, False), obs] cfg = Inr 1 \<and> length (connected cfg) = cn cfg \<and> connected cfg ! 1 \<and> snd (obs 1)"
proof -
  let ?obs = "\<lambda>i. if i = 1 then (4, True) else (3, i = (2::int))"
  obtain cfg :: "nat config" where c: "harness_inv 3 cfg" "started 3 3 cfg" "\<forall>j < 3. connected cfg ! j" using sample_harness by blast
  have len: "length (connected cfg) = 3" "length (crafts cfg) = 3" "cn cfg = 3"
    using c(1) wired_shaped [of cfg] by (auto simp: harness_inv_def shaped_def)
  have up: "go_index (connected cfg) (int k) = Inr True" "state_of obs (int k) cfg = Inr (obs (int k))" if "k < 3" for k obs
    using that len c(2,3) by (auto simp: state_of_def started_def)
  have col: "collect_leaders obs cfg = Inr (fold (\<lambda>i ls. if snd (obs i) then add_leader (fst (obs i)) i ls else ls) [0, 1, 2] [])" for obs
    using up(1) [of 0] up(1) [of 1] up(1) [of 2] up(2) [of 0 obs] up(2) [of 1 obs] up(2) [of 2 obs] by (auto simp: collect_leaders_def peer_list_def len(3) upt_rec split: prod.splits)
  have r: "checkOneLeader [\<lambda>_. (0, False), ?obs] cfg = Inr 1" by (simp add: col lastTermWithLeader_def go_index_def)
  have "connected cfg ! nat 1" "\<exists>obs \<in> {\<lambda>_. (0, False), ?obs}. snd (obs (1::int))"
    using checkOneLeader_finds [OF r] len by auto
  then show ?thesis using r len by (intro exI [of _ cfg] exI [of _ ?obs]) simp
qed

subsection \<open>Reaching agreement\<close>

text \<open>The first connected peer after \<open>starts\<close> that is a leader takes the command.\<close>

definition is_target :: "'c config \<Rightarrow> nat \<Rightarrow> bool" where
  "is_target cfg k \<longleftrightarrow> connected cfg ! k \<and> (case crafts cfg ! k of Some rf \<Rightarrow> state rf = Leader | None \<Rightarrow> False)"

definition ready :: "'c config \<Rightarrow> bool" where
  "ready cfg \<longleftrightarrow> length (connected cfg) = cn cfg \<and> length (crafts cfg) = cn cfg \<and> (\<forall>k < cn cfg. \<forall>rf. crafts cfg ! k = Some rf \<longrightarrow> peer_wf rf)"

lemma Start_ok:
  assumes "peer_wf rf"
  shows "if state rf = Leader
    then \<exists>rf'. Start cmd rf = Inr (rf', go_len (log rf), currentTerm rf, True) \<and>
      log rf' = log rf @ [\<lparr>Term = currentTerm rf, Command = cmd, Index = go_len (log rf)\<rparr>]
    else Start cmd rf = Inr (rf, -1, currentTerm rf, False)"
  using Start_append_ok [OF assms, of "currentTerm rf" cmd] by (simp add: Start_def GetState_def)

lemma try_servers_ok:
  assumes rd: "ready cfg" and s: "s < cn cfg"
  shows "\<exists>cfg' s' index. try_servers cmd m (int s) cfg = Inr (cfg', s', index) \<and>
    (if \<exists>j \<in> {1..m}. is_target cfg ((s + j) mod cn cfg)
     then \<exists>k rf rf'. k < cn cfg \<and> is_target cfg k \<and> crafts cfg ! k = Some rf \<and> index = go_len (log rf) \<and>
       cfg' = cfg\<lparr>crafts := (crafts cfg)[k := Some rf']\<rparr> \<and> log rf' = log rf @ [\<lparr>Term = currentTerm rf, Command = cmd, Index = index\<rparr>]
     else index = -1 \<and> cfg' = cfg)"
  using s
proof (induction m arbitrary: s)
  case (Suc m)
  let ?n = "cn cfg" and ?t = "(s + 1) mod cn cfg"
  have t: "?t < ?n" using Suc.prems by simp
  have md: "go_mod (int s + 1) (int ?n) = Inr (int ?t)" using Suc.prems by (simp add: go_mod_nonneg zmod_int add.commute)
  have len: "go_index (connected cfg) (int ?t) = Inr (connected cfg ! ?t)" "go_index (crafts cfg) (int ?t) = Inr (crafts cfg ! ?t)"
    using rd t by (simp_all add: ready_def)
  have up: "go_update (crafts cfg) (int ?t) x = Inr ((crafts cfg)[?t := x])" for x using rd t by (simp add: ready_def go_update_def go_len_def)
  have ex: "(\<exists>j \<in> {1..Suc m}. is_target cfg ((s + j) mod ?n)) \<longleftrightarrow> is_target cfg ?t \<or> (\<exists>j \<in> {1..m}. is_target cfg ((?t + j) mod ?n))"
  proof -
    have "{1..Suc m} = insert 1 (Suc ` {1..m})" by (auto simp: image_iff)
    then have "(\<exists>j \<in> {1..Suc m}. P j) \<longleftrightarrow> P 1 \<or> (\<exists>j \<in> {1..m}. P (Suc j))" for P by (simp only: bex_simps)
    from this [of "\<lambda>j. is_target cfg ((s + j) mod ?n)"] show ?thesis by (simp add: mod_add_left_eq)
  qed
  note IH = Suc.IH [OF t]
  show ?case
  proof (cases "is_target cfg ?t")
    case True
    then obtain rf where rf: "crafts cfg ! ?t = Some rf" "state rf = Leader" "connected cfg ! ?t" by (auto simp: is_target_def split: option.splits)
    have "peer_wf rf" using rd rf(1) t by (auto simp: ready_def)
    from Start_ok [OF this, of cmd] rf(2) obtain rf' where st: "Start cmd rf = Inr (rf', go_len (log rf), currentTerm rf, True)"
      "log rf' = log rf @ [\<lparr>Term = currentTerm rf, Command = cmd, Index = go_len (log rf)\<rparr>]" by auto
    have "try_servers cmd (Suc m) (int s) cfg = Inr (cfg\<lparr>crafts := (crafts cfg)[?t := Some rf']\<rparr>, int ?t, go_len (log rf))"
      using md len up rf st(1) by simp
    then show ?thesis unfolding ex using True t rf(1) st(2) by auto
  next
    case False
    have "try_servers cmd (Suc m) (int s) cfg = try_servers cmd m (int ?t) cfg"
    proof (cases "connected cfg ! ?t \<and> crafts cfg ! ?t \<noteq> None")
      case True
      then obtain rf where rf: "crafts cfg ! ?t = Some rf" "connected cfg ! ?t" by auto
      have "peer_wf rf" using rd rf(1) t by (auto simp: ready_def)
      moreover have "state rf \<noteq> Leader" using False rf by (simp add: is_target_def)
      ultimately have "Start cmd rf = Inr (rf, -1, currentTerm rf, False)" using Start_ok [of rf cmd] by simp
      moreover have "cfg\<lparr>crafts := (crafts cfg)[?t := Some rf]\<rparr> = cfg" using rf(1) by (metis config.surjective config.update_convs(3) list_update_id)
      ultimately show ?thesis using md len up rf by simp
    next
      case none: False
      then show ?thesis using md len by auto
    qed
    then show ?thesis unfolding ex using False IH by simp
  qed
qed simp

text \<open>
  A round of \<open>one\<close> submits the command exactly when some connected peer is a leader, whatever peer it
  starts after: that leader appends the command to its log, at the index that is reported, and nothing
  else changes.
\<close>

theorem round_finds_leader:
  assumes "ready cfg" and "s < cn cfg"
  shows "\<exists>cfg' s' index. try_servers cmd (cn cfg) (int s) cfg = Inr (cfg', s', index) \<and>
    (if \<exists>k < cn cfg. is_target cfg k
     then \<exists>k rf rf'. k < cn cfg \<and> is_target cfg k \<and> crafts cfg ! k = Some rf \<and> index = go_len (log rf) \<and>
       cfg' = cfg\<lparr>crafts := (crafts cfg)[k := Some rf']\<rparr> \<and> log rf' = log rf @ [\<lparr>Term = currentTerm rf, Command = cmd, Index = index\<rparr>]
     else index = -1 \<and> cfg' = cfg)"
proof -
  let ?n = "cn cfg"
  have "(\<exists>j \<in> {1..?n}. is_target cfg ((s + j) mod ?n)) \<longleftrightarrow> (\<exists>k < ?n. is_target cfg k)" (is "?l \<longleftrightarrow> ?r")
  proof
    assume ?r
    then obtain k where k: "k < ?n" "is_target cfg k" by blast
    define j where "j = (if k > s then k - s else k + ?n - s)"
    have "(s + j) mod ?n = k" "j \<in> {1..?n}" using k(1) assms(2) by (auto simp: j_def)
    then show ?l using k(2) by blast
  next
    assume ?l
    then show ?r using assms(2) by (elim bexE) (rule exI, erule conjI [rotated], simp)
  qed
  then show ?thesis using try_servers_ok [OF assms, of cmd ?n] by simp
qed

lemma agree_loop_True:
  assumes "agree_loop cmd expected idx polls cfg = Inr (cfg', True)"
  shows "\<exists>nd. nCommitted idx cfg' = Inr (nd, cmd) \<and> nd > 0 \<and> nd \<ge> expected"
  using assms
proof (induction polls arbitrary: cfg)
  case (Cons env polls)
  then show ?case by (auto simp: bind_res_eq_Inr split: if_splits)
qed simp

lemma one_loop_Inr:
  assumes "one_loop cmd expected retry rounds starts cfg = Inr (cfg', index)"
  shows "\<exists>nd. nCommitted index cfg' = Inr (nd, cmd) \<and> nd > 0 \<and> nd \<ge> expected"
  using assms
proof (induction rounds arbitrary: starts cfg)
  case (Cons r rounds)
  obtain polls env where r: "r = (polls, env)" by (cases r)
  obtain cfg1 starts1 i where t: "try_servers cmd (cn cfg) starts cfg = Inr (cfg1, starts1, i)"
    using Cons.prems by (auto simp: r bind_res_eq_Inr)
  show ?case
  proof (cases "i = -1")
    case True
    then show ?thesis using Cons t by (simp add: r)
  next
    case False
    then obtain cfg2 ok where a: "agree_loop cmd expected i polls cfg1 = Inr (cfg2, ok)" using Cons.prems t by (auto simp: r bind_res_eq_Inr)
    show ?thesis using Cons.prems Cons.IH t a False agree_loop_True [of cmd expected i polls cfg1 cfg2]
      by (cases ok) (auto simp: r split: if_splits)
  qed
qed simp

text \<open>
  C33: \<open>one\<close> returns an index only when at least \<open>expectedServers\<close> peers, and at least one, have applied the
  submitted command at that index, and no peer has applied anything else there.
\<close>

theorem one_commits:
  assumes "one cmd expectedServers retry rounds cfg = Inr (cfg', index)"
  shows "let S = {k. k < length (crafts cfg') \<and> (logs cfg' ! k) index = Some cmd} in
    expectedServers \<le> int (card S) \<and> S \<noteq> {} \<and> (\<forall>k < length (crafts cfg'). k \<in> S \<or> (logs cfg' ! k) index = None)"
proof -
  obtain nd where nd: "nCommitted index cfg' = Inr (nd, cmd)" "nd > 0" "nd \<ge> expectedServers"
    using one_loop_Inr [OF assms [unfolded one_def]] by blast
  note s = nCommitted_sound [OF nd(1)]
  have eq: "{k. k < length (crafts cfg') \<and> (logs cfg' ! k) index = Some cmd} = committers index cfg'"
    using s by (auto simp: committers_def)
  have "card (committers index cfg') \<noteq> 0" using s nd(2) by linarith
  then have "committers index cfg' \<noteq> {}" by (metis card.empty)
  then show ?thesis unfolding Let_def eq using s nd(3) by (auto simp: committers_def)
qed

text \<open>A configuration of three peers with a leader, and two peers that apply a command.\<close>

definition sample_raft :: "nat Raft" where
  "sample_raft = \<lparr>npeers = 3, persister = MakePersister, me = 0, dead = 0, currentTerm = 2, votedFor = 0,
     log = [\<lparr>Term = 0, Command = None, Index = 0\<rparr>], commitIndex = 0, lastApplied = 0, nextIndex = [1, 1, 1], matchIndex = [0, 0, 0],
     state = Leader, voteCount = 2, timestamp = 0, electionTimeout = 0, appliers = []\<rparr>"

definition sample_config :: "nat config" where
  "sample_config = (blank 0 3 False)\<lparr>connected := [True, True, True], crafts := [Some sample_raft, None, None]\<rparr>"

definition sample_progress :: "nat config \<Rightarrow> nat config" where
  "sample_progress cfg = cfg\<lparr>logs := [Map.empty(1 \<mapsto> Some 7), Map.empty(1 \<mapsto> Some 7), Map.empty]\<rparr>"

lemma sample_raft_wf: "peer_wf sample_raft"
  by (simp add: sample_raft_def peer_wf_def log_wf_initial)

lemma sample_ready: "ready sample_config"
  by (auto simp: ready_def sample_config_def sample_raft_wf less_Suc_eq numeral_3_eq_3)

theorem round_finds_leader_witness:
  "ready sample_config \<and> is_target sample_config 0 \<and> (\<exists>cfg' s'. try_servers (Some 7) 3 2 sample_config = Inr (cfg', s', 1))"
proof -
  have t: "is_target sample_config 0" by (simp add: is_target_def sample_config_def sample_raft_def)
  have c: "cn sample_config = 3" by (simp add: sample_config_def)
  have only: "k = 0" if "k < 3" "is_target sample_config k" for k
    using that by (auto simp: is_target_def sample_config_def less_Suc_eq numeral_3_eq_3)
  have ex: "\<exists>k < cn sample_config. is_target sample_config k" using t c by (intro exI [of _ 0]) simp
  obtain cfg' s' index k rf where r: "try_servers (Some 7) (cn sample_config) (int 2) sample_config = Inr (cfg', s', index)"
    "k < cn sample_config" "is_target sample_config k" "crafts sample_config ! k = Some rf" "index = go_len (log rf)"
    using round_finds_leader [OF sample_ready, of 2 "Some 7"] ex c by auto
  have "rf = sample_raft" using only [of k] r(2-4) c by (simp add: sample_config_def)
  then show ?thesis using sample_ready t r c by (auto simp: sample_raft_def)
qed

theorem one_commits_witness:
  "\<exists>cfg'. one (Some 7) 2 False [([sample_progress, id], id)] sample_config = Inr (cfg', 1) \<and>
     2 \<le> card {k. k < length (crafts cfg') \<and> (logs cfg' ! k) 1 = Some (Some 7)}"
proof -
  have "\<exists>cfg'. one (Some 7) 2 False [([sample_progress, id], id)] sample_config = Inr (cfg', 1)"
    by (simp add: one_def sample_config_def go_mod_def go_index_def go_update_def go_len_def Start_def Start_append_def GetState_def
        sample_raft_def sample_progress_def nCommitted_def upt_rec Let_def numeral_3_eq_3 persist_def)
  then obtain cfg' where r: "one (Some 7) 2 False [([sample_progress, id], id)] sample_config = Inr (cfg', 1)" by blast
  show ?thesis using one_commits [OF r] r by (auto simp: Let_def)
qed

end
