(* ===== verification/Clerks.thy ===== *)
theory Clerks
  imports Raft_Peer
begin

section \<open>The clerks and servers of the shard master and the sharded store (shardmaster, shardkv, kvraft)\<close>

text \<open>
  The clients retry until a server gives a usable answer. The network is the parameter \<open>call\<close>: a
  remote call on an end, with a method name and arguments, gives whether a reply came, the reply, and the
  world after the call. \<open>sleep\<close> is what happens in the pause between two rounds and \<open>make_end\<close>
  the function the test harness gives the clerk. The loops have no bound, so they are partial
  functions: \<open>None\<close> is a loop that never ends.

  The services are the skeletons of the labs: their handlers return without touching the reply.
\<close>

type_synonym ('e, 'a, 'r, 'w) call = "'e \<Rightarrow> string \<Rightarrow> 'a \<Rightarrow> 'w \<Rightarrow> bool \<times> 'r \<times> 'w"

subsection \<open>The shard master (shardmaster/common.go, client.go, server.go)\<close>

definition NShards :: int where
  "NShards = 10"

record Config =
  Num :: int
  Shards :: "int list"
  Groups :: "int \<Rightarrow> string list option"

text \<open>The zero value: the map is nil, which reads as empty.\<close>

definition zero_Config :: Config where
  "zero_Config = \<lparr>Num = 0, Shards = replicate (nat NShards) 0, Groups = (\<lambda>_. None)\<rparr>"

record JoinArgs =
  Servers :: "int \<Rightarrow> string list option"

record JoinReply =
  jr_WrongLeader :: bool
  jr_Err :: string

record LeaveArgs =
  GIDs :: "int list"

record LeaveReply =
  lr_WrongLeader :: bool
  lr_Err :: string

record MoveArgs =
  Shard :: int
  GID :: int

record MoveReply =
  mr_WrongLeader :: bool
  mr_Err :: string

record QueryArgs =
  qa_Num :: int

record QueryReply =
  qr_WrongLeader :: bool
  qr_Err :: string
  qr_Config :: Config

record 'e sm_Clerk =
  sm_servers :: "'e list"

definition sm_MakeClerk :: "'e list \<Rightarrow> 'e sm_Clerk" where
  "sm_MakeClerk servers = \<lparr>sm_servers = servers\<rparr>"

text \<open>The loop that the four methods share: a round over the servers, then a pause.\<close>

fun ask_round :: "('e \<Rightarrow> 'w \<Rightarrow> bool \<times> 'r \<times> 'w) \<Rightarrow> ('r \<Rightarrow> bool) \<Rightarrow> 'e list \<Rightarrow> 'w \<Rightarrow> 'r option \<times> 'w" where
  "ask_round ask good [] w = (None, w)"
| "ask_round ask good (srv # servers) w =
     (case ask srv w of (ok, reply, w1) \<Rightarrow> if ok \<and> good reply then (Some reply, w1) else ask_round ask good servers w1)"

partial_function (option) ask_until :: "('e \<Rightarrow> 'w \<Rightarrow> bool \<times> 'r \<times> 'w) \<Rightarrow> ('r \<Rightarrow> bool) \<Rightarrow> ('w \<Rightarrow> 'w) \<Rightarrow> 'e list \<Rightarrow> 'w \<Rightarrow> ('r \<times> 'w) option" where
  "ask_until ask good sleep servers w =
     (case ask_round ask good servers w of
        (Some reply, w1) \<Rightarrow> Some (reply, w1)
      | (None, w1) \<Rightarrow> ask_until ask good sleep servers (sleep w1))"

definition Query :: "('e, QueryArgs, QueryReply, 'w) call \<Rightarrow> ('w \<Rightarrow> 'w) \<Rightarrow> 'e sm_Clerk \<Rightarrow> int \<Rightarrow> 'w \<Rightarrow> (Config \<times> 'w) option" where
  "Query call sleep ck num w =
     map_option (map_prod qr_Config id)
       (ask_until (\<lambda>srv. call srv ''ShardMaster.Query'' \<lparr>qa_Num = num\<rparr>) (\<lambda>r. qr_WrongLeader r = False) sleep (sm_servers ck) w)"

definition ck_Join :: "('e, JoinArgs, JoinReply, 'w) call \<Rightarrow> ('w \<Rightarrow> 'w) \<Rightarrow> 'e sm_Clerk \<Rightarrow> (int \<Rightarrow> string list option) \<Rightarrow> 'w \<Rightarrow> 'w option" where
  "ck_Join call sleep ck servers w =
     map_option snd (ask_until (\<lambda>srv. call srv ''ShardMaster.Join'' \<lparr>Servers = servers\<rparr>) (\<lambda>r. jr_WrongLeader r = False) sleep (sm_servers ck) w)"

definition Leave :: "('e, LeaveArgs, LeaveReply, 'w) call \<Rightarrow> ('w \<Rightarrow> 'w) \<Rightarrow> 'e sm_Clerk \<Rightarrow> int list \<Rightarrow> 'w \<Rightarrow> 'w option" where
  "Leave call sleep ck gids w =
     map_option snd (ask_until (\<lambda>srv. call srv ''ShardMaster.Leave'' \<lparr>GIDs = gids\<rparr>) (\<lambda>r. lr_WrongLeader r = False) sleep (sm_servers ck) w)"

definition Move :: "('e, MoveArgs, MoveReply, 'w) call \<Rightarrow> ('w \<Rightarrow> 'w) \<Rightarrow> 'e sm_Clerk \<Rightarrow> int \<Rightarrow> int \<Rightarrow> 'w \<Rightarrow> 'w option" where
  "Move call sleep ck shard gid w =
     map_option snd
       (ask_until (\<lambda>srv. call srv ''ShardMaster.Move'' \<lparr>Shard = shard, GID = gid\<rparr>) (\<lambda>r. mr_WrongLeader r = False) sleep (sm_servers ck) w)"

record ShardMaster =
  sm_me :: int
  sm_rf :: "unit Raft"
  configs :: "Config list"

text \<open>The handlers get the zero value of the reply, as \<open>Service.dispatch\<close> allocates it, and leave it.\<close>

definition sm_Join :: "JoinArgs \<Rightarrow> JoinReply \<Rightarrow> ShardMaster \<Rightarrow> JoinReply \<times> ShardMaster" where
  "sm_Join args reply sm = (reply, sm)"

definition sm_Leave :: "LeaveArgs \<Rightarrow> LeaveReply \<Rightarrow> ShardMaster \<Rightarrow> LeaveReply \<times> ShardMaster" where
  "sm_Leave args reply sm = (reply, sm)"

definition sm_Move :: "MoveArgs \<Rightarrow> MoveReply \<Rightarrow> ShardMaster \<Rightarrow> MoveReply \<times> ShardMaster" where
  "sm_Move args reply sm = (reply, sm)"

definition sm_Query :: "QueryArgs \<Rightarrow> QueryReply \<Rightarrow> ShardMaster \<Rightarrow> QueryReply \<times> ShardMaster" where
  "sm_Query args reply sm = (reply, sm)"

definition sm_Kill :: "ShardMaster \<Rightarrow> ShardMaster" where
  "sm_Kill sm = sm\<lparr>sm_rf := Kill (sm_rf sm)\<rparr>"

definition sm_Raft :: "ShardMaster \<Rightarrow> unit Raft" where
  "sm_Raft sm = sm_rf sm"

definition sm_StartServer :: "int \<Rightarrow> int \<Rightarrow> nat \<Rightarrow> int \<Rightarrow> unit gob_item Persister \<Rightarrow> ShardMaster res" where
  "sm_StartServer now rnd servers i ps =
     bind_res (Make now rnd servers i ps) (\<lambda>rf.
       Inr \<lparr>sm_me = i, sm_rf = rf, configs = [zero_Config\<lparr>Groups := (\<lambda>_. None)\<rparr>]\<rparr>)"

subsection \<open>The sharded store (shardkv/common.go, client.go, server.go)\<close>

abbreviation (input) OK :: string where "OK \<equiv> ''OK''"

abbreviation (input) ErrNoKey :: string where "ErrNoKey \<equiv> ''ErrNoKey''"

abbreviation (input) ErrWrongGroup :: string where "ErrWrongGroup \<equiv> ''ErrWrongGroup''"

abbreviation (input) ErrWrongLeader :: string where "ErrWrongLeader \<equiv> ''ErrWrongLeader''"

record PutAppendArgs =
  pa_Key :: string
  pa_Value :: string
  pa_Op :: string

record PutAppendReply =
  pr_Err :: string

record GetArgs =
  ga_Key :: string

record GetReply =
  gr_Err :: string
  gr_Value :: string

definition key2shard :: "string \<Rightarrow> int" where
  "key2shard key = (let shard = (if go_len key > 0 then int (of_char (hd key)) else 0) in shard mod NShards)"

record 'e kv_Clerk =
  kv_sm :: "'e sm_Clerk"
  kv_config :: Config

definition kv_MakeClerk :: "'e list \<Rightarrow> 'e kv_Clerk" where
  "kv_MakeClerk masters = \<lparr>kv_sm = sm_MakeClerk masters, kv_config = zero_Config\<rparr>"

text \<open>The servers of the group in turn; the result \<open>None\<close> is the end of the loop or its break.\<close>

fun get_round :: "('e, GetArgs, GetReply, 'w) call \<Rightarrow> (string \<Rightarrow> 'w \<Rightarrow> 'e \<times> 'w) \<Rightarrow> GetArgs \<Rightarrow> string list \<Rightarrow> 'w \<Rightarrow> string option \<times> 'w" where
  "get_round call make_end args [] w = (None, w)"
| "get_round call make_end args (s # servers) w =
     (case make_end s w of (srv, w1) \<Rightarrow>
      case call srv ''ShardKV.Get'' args w1 of (ok, reply, w2) \<Rightarrow>
        if ok \<and> (gr_Err reply = OK \<or> gr_Err reply = ErrNoKey) then (Some (gr_Value reply), w2)
        else if ok \<and> gr_Err reply = ErrWrongGroup then (None, w2)
        else get_round call make_end args servers w2)"

partial_function (option) Get_loop :: "('e, GetArgs, GetReply, 'w) call \<Rightarrow> ('e, QueryArgs, QueryReply, 'w) call \<Rightarrow> (string \<Rightarrow> 'w \<Rightarrow> 'e \<times> 'w) \<Rightarrow> ('w \<Rightarrow> 'w) \<Rightarrow>
  string \<Rightarrow> 'e kv_Clerk \<Rightarrow> 'w \<Rightarrow> (string \<times> 'e kv_Clerk \<times> 'w) res option" where
  "Get_loop call query make_end sleep key ck w =
     (case go_index (Shards (kv_config ck)) (key2shard key) of
        Inl e \<Rightarrow> Some (Inl e)
      | Inr gid \<Rightarrow>
          (case (case Groups (kv_config ck) gid of
                   Some servers \<Rightarrow> get_round call make_end \<lparr>ga_Key = key\<rparr> servers w
                 | None \<Rightarrow> (None, w)) of
             (Some v, w1) \<Rightarrow> Some (Inr (v, ck, w1))
           | (None, w1) \<Rightarrow>
               Option.bind (Query query sleep (kv_sm ck) (-1) (sleep w1)) (\<lambda>(cfg, w2).
                 Get_loop call query make_end sleep key (ck\<lparr>kv_config := cfg\<rparr>) w2)))"

definition Get :: "('e, GetArgs, GetReply, 'w) call \<Rightarrow> ('e, QueryArgs, QueryReply, 'w) call \<Rightarrow> (string \<Rightarrow> 'w \<Rightarrow> 'e \<times> 'w) \<Rightarrow> ('w \<Rightarrow> 'w) \<Rightarrow>
  string \<Rightarrow> 'e kv_Clerk \<Rightarrow> 'w \<Rightarrow> (string \<times> 'e kv_Clerk \<times> 'w) res option" where
  "Get = Get_loop"

fun put_round :: "('e, PutAppendArgs, PutAppendReply, 'w) call \<Rightarrow> (string \<Rightarrow> 'w \<Rightarrow> 'e \<times> 'w) \<Rightarrow> PutAppendArgs \<Rightarrow> string list \<Rightarrow> 'w \<Rightarrow> bool \<times> 'w" where
  "put_round call make_end args [] w = (False, w)"
| "put_round call make_end args (s # servers) w =
     (case make_end s w of (srv, w1) \<Rightarrow>
      case call srv ''ShardKV.PutAppend'' args w1 of (ok, reply, w2) \<Rightarrow>
        if ok \<and> pr_Err reply = OK then (True, w2)
        else if ok \<and> pr_Err reply = ErrWrongGroup then (False, w2)
        else put_round call make_end args servers w2)"

partial_function (option) PutAppend_loop :: "('e, PutAppendArgs, PutAppendReply, 'w) call \<Rightarrow> ('e, QueryArgs, QueryReply, 'w) call \<Rightarrow>
  (string \<Rightarrow> 'w \<Rightarrow> 'e \<times> 'w) \<Rightarrow> ('w \<Rightarrow> 'w) \<Rightarrow> PutAppendArgs \<Rightarrow> 'e kv_Clerk \<Rightarrow> 'w \<Rightarrow> ('e kv_Clerk \<times> 'w) res option" where
  "PutAppend_loop call query make_end sleep args ck w =
     (case go_index (Shards (kv_config ck)) (key2shard (pa_Key args)) of
        Inl e \<Rightarrow> Some (Inl e)
      | Inr gid \<Rightarrow>
          (case (case Groups (kv_config ck) gid of
                   Some servers \<Rightarrow> put_round call make_end args servers w
                 | None \<Rightarrow> (False, w)) of
             (fin, w1) \<Rightarrow>
               if fin then Some (Inr (ck, w1))
               else Option.bind (Query query sleep (kv_sm ck) (-1) (sleep w1)) (\<lambda>(cfg, w2).
                 PutAppend_loop call query make_end sleep args (ck\<lparr>kv_config := cfg\<rparr>) w2)))"

definition PutAppend :: "('e, PutAppendArgs, PutAppendReply, 'w) call \<Rightarrow> ('e, QueryArgs, QueryReply, 'w) call \<Rightarrow>
  (string \<Rightarrow> 'w \<Rightarrow> 'e \<times> 'w) \<Rightarrow> ('w \<Rightarrow> 'w) \<Rightarrow> string \<Rightarrow> string \<Rightarrow> string \<Rightarrow> 'e kv_Clerk \<Rightarrow> 'w \<Rightarrow> ('e kv_Clerk \<times> 'w) res option" where
  "PutAppend call query make_end sleep key val opn =
     PutAppend_loop call query make_end sleep \<lparr>pa_Key = key, pa_Value = val, pa_Op = opn\<rparr>"

definition Put :: "('e, PutAppendArgs, PutAppendReply, 'w) call \<Rightarrow> ('e, QueryArgs, QueryReply, 'w) call \<Rightarrow>
  (string \<Rightarrow> 'w \<Rightarrow> 'e \<times> 'w) \<Rightarrow> ('w \<Rightarrow> 'w) \<Rightarrow> string \<Rightarrow> string \<Rightarrow> 'e kv_Clerk \<Rightarrow> 'w \<Rightarrow> ('e kv_Clerk \<times> 'w) res option" where
  "Put call query make_end sleep key val = PutAppend call query make_end sleep key val ''Put''"

definition Append :: "('e, PutAppendArgs, PutAppendReply, 'w) call \<Rightarrow> ('e, QueryArgs, QueryReply, 'w) call \<Rightarrow>
  (string \<Rightarrow> 'w \<Rightarrow> 'e \<times> 'w) \<Rightarrow> ('w \<Rightarrow> 'w) \<Rightarrow> string \<Rightarrow> string \<Rightarrow> 'e kv_Clerk \<Rightarrow> 'w \<Rightarrow> ('e kv_Clerk \<times> 'w) res option" where
  "Append call query make_end sleep key val = PutAppend call query make_end sleep key val ''Append''"

record ShardKV =
  skv_me :: int
  skv_rf :: "unit Raft"
  skv_gid :: int
  skv_masters :: nat
  skv_maxraftstate :: int

definition skv_Get :: "GetArgs \<Rightarrow> GetReply \<Rightarrow> ShardKV \<Rightarrow> GetReply \<times> ShardKV" where
  "skv_Get args reply kv = (reply, kv)"

definition skv_PutAppend :: "PutAppendArgs \<Rightarrow> PutAppendReply \<Rightarrow> ShardKV \<Rightarrow> PutAppendReply \<times> ShardKV" where
  "skv_PutAppend args reply kv = (reply, kv)"

definition skv_Kill :: "ShardKV \<Rightarrow> ShardKV" where
  "skv_Kill kv = kv\<lparr>skv_rf := Kill (skv_rf kv)\<rparr>"

definition skv_StartServer :: "int \<Rightarrow> int \<Rightarrow> nat \<Rightarrow> int \<Rightarrow> unit gob_item Persister \<Rightarrow> int \<Rightarrow> int \<Rightarrow> nat \<Rightarrow> ShardKV res" where
  "skv_StartServer now rnd servers i ps maxraftstate gid masters =
     bind_res (Make now rnd servers i ps) (\<lambda>rf.
       Inr \<lparr>skv_me = i, skv_rf = rf, skv_gid = gid, skv_masters = masters, skv_maxraftstate = maxraftstate\<rparr>)"

subsection \<open>The replicated store (kvraft/client.go, server.go)\<close>

record 'e kvr_Clerk =
  kvr_servers :: "'e list"

definition kvr_MakeClerk :: "'e list \<Rightarrow> 'e kvr_Clerk" where
  "kvr_MakeClerk servers = \<lparr>kvr_servers = servers\<rparr>"

definition kvr_Get :: "string \<Rightarrow> 'e kvr_Clerk \<Rightarrow> string" where
  "kvr_Get key ck = ''''"

definition kvr_PutAppend :: "string \<Rightarrow> string \<Rightarrow> string \<Rightarrow> 'e kvr_Clerk \<Rightarrow> 'e kvr_Clerk" where
  "kvr_PutAppend key val opn ck = ck"

definition kvr_Put :: "string \<Rightarrow> string \<Rightarrow> 'e kvr_Clerk \<Rightarrow> 'e kvr_Clerk" where
  "kvr_Put key val ck = kvr_PutAppend key val ''Put'' ck"

definition kvr_Append :: "string \<Rightarrow> string \<Rightarrow> 'e kvr_Clerk \<Rightarrow> 'e kvr_Clerk" where
  "kvr_Append key val ck = kvr_PutAppend key val ''Append'' ck"

record KVServer =
  kvs_me :: int
  kvs_rf :: "unit Raft"
  kvs_dead :: int
  kvs_maxraftstate :: int

definition kvs_Get :: "GetArgs \<Rightarrow> GetReply \<Rightarrow> KVServer \<Rightarrow> GetReply \<times> KVServer" where
  "kvs_Get args reply kv = (reply, kv)"

definition kvs_PutAppend :: "PutAppendArgs \<Rightarrow> PutAppendReply \<Rightarrow> KVServer \<Rightarrow> PutAppendReply \<times> KVServer" where
  "kvs_PutAppend args reply kv = (reply, kv)"

definition kvs_Kill :: "KVServer \<Rightarrow> KVServer" where
  "kvs_Kill kv = kv\<lparr>kvs_dead := 1, kvs_rf := Kill (kvs_rf kv)\<rparr>"

definition kvs_killed :: "KVServer \<Rightarrow> bool" where
  "kvs_killed kv \<longleftrightarrow> kvs_dead kv = 1"

definition StartKVServer :: "int \<Rightarrow> int \<Rightarrow> nat \<Rightarrow> int \<Rightarrow> unit gob_item Persister \<Rightarrow> int \<Rightarrow> KVServer res" where
  "StartKVServer now rnd servers i ps maxraftstate =
     bind_res (Make now rnd servers i ps) (\<lambda>rf. Inr \<lparr>kvs_me = i, kvs_rf = rf, kvs_dead = 0, kvs_maxraftstate = maxraftstate\<rparr>)"

subsection \<open>Rounds of the retry loops\<close>

text \<open>The world in which round \<open>k\<close> begins, if no earlier round succeeds.\<close>

fun round_start :: "('e \<Rightarrow> 'w \<Rightarrow> bool \<times> 'r \<times> 'w) \<Rightarrow> ('r \<Rightarrow> bool) \<Rightarrow> ('w \<Rightarrow> 'w) \<Rightarrow> 'e list \<Rightarrow> 'w \<Rightarrow> nat \<Rightarrow> 'w" where
  "round_start ask good sleep servers w 0 = w"
| "round_start ask good sleep servers w (Suc k) = round_start ask good sleep servers (sleep (snd (ask_round ask good servers w))) k"

lemma ask_round_sound:
  assumes "ask_round ask good servers w = (Some r, w')"
  shows "\<exists>srv \<in> set servers. \<exists>w0. ask srv w0 = (True, r, w') \<and> good r"
  using assms
proof (induction servers arbitrary: w)
  case (Cons s servers)
  then show ?case by (cases "ask s w") (fastforce split: if_splits)
qed simp

lemma ask_until_sound:
  assumes "ask_until ask good sleep servers w = Some (r, w')"
  shows "\<exists>k. ask_round ask good servers (round_start ask good sleep servers w k) = (Some r, w') \<and>
    (\<forall>i < k. fst (ask_round ask good servers (round_start ask good sleep servers w i)) = None)"
proof -
  let ?P = "\<lambda>ask good sleep servers w res. \<exists>k. ask_round ask good servers (round_start ask good sleep servers w k) = (Some (fst res), snd res) \<and>
    (\<forall>i < k. fst (ask_round ask good servers (round_start ask good sleep servers w i)) = None)"
  have "?P ask good sleep servers w (r, w')"
  proof (rule ask_until.raw_induct [of ?P, OF _ assms])
    fix f ask good sleep servers w y
    assume IH: "\<And>ask good sleep servers w y. f ask good sleep servers w = Some y \<Longrightarrow> ?P ask good sleep servers w y"
      and st: "(case ask_round ask good servers w of (None, w1) \<Rightarrow> f ask good sleep servers (sleep w1) | (Some reply, w1) \<Rightarrow> Some (reply, w1)) = Some y"
    obtain o1 w1 where r: "ask_round ask good servers w = (o1, w1)" by fastforce
    show "?P ask good sleep servers w y"
    proof (cases o1)
      case None
      then have "f ask good sleep servers (sleep w1) = Some y" using st r by simp
      from IH [OF this] obtain k where k: "ask_round ask good servers (round_start ask good sleep servers (sleep w1) k) = (Some (fst y), snd y)"
        "\<forall>i < k. fst (ask_round ask good servers (round_start ask good sleep servers (sleep w1) i)) = None" by blast
      show ?thesis by (rule exI [of _ "Suc k"]) (use k r None in \<open>auto simp: less_Suc_eq_0_disj\<close>)
    next
      case (Some x)
      then show ?thesis using st r by (intro exI [of _ 0]) auto
    qed
  qed
  then show ?thesis by simp
qed

lemma ask_until_complete:
  assumes "fst (ask_round ask good servers (round_start ask good sleep servers w k)) \<noteq> None"
  shows "\<exists>r. ask_until ask good sleep servers w = Some r"
  using assms
proof (induction k arbitrary: w)
  case 0
  then show ?case by (subst ask_until.simps) (auto split: prod.splits option.splits)
next
  case (Suc k)
  obtain o1 w1 where r: "ask_round ask good servers w = (o1, w1)" by fastforce
  then show ?case using Suc by (subst ask_until.simps) (auto split: option.splits)
qed

subsection \<open>Properties\<close>

abbreviation (input) query_ask :: "('e, QueryArgs, QueryReply, 'w) call \<Rightarrow> int \<Rightarrow> 'e \<Rightarrow> 'w \<Rightarrow> bool \<times> QueryReply \<times> 'w" where
  "query_ask call num \<equiv> \<lambda>srv. call srv ''ShardMaster.Query'' \<lparr>qa_Num = num\<rparr>"

abbreviation (input) query_good :: "QueryReply \<Rightarrow> bool" where
  "query_good \<equiv> \<lambda>r. qr_WrongLeader r = False"

text \<open>
  C34: \<open>Query\<close> returns exactly when some round of it gets a reply that is not "wrong leader", and what it
  returns is the configuration of such a reply, from one of the servers it knows, to the query for the
  number it was asked; with a network that never gives such a reply it never returns.
\<close>

theorem Query_retries:
  "((\<exists>r. Query call sleep ck num w = Some r) \<longleftrightarrow>
      (\<exists>k. fst (ask_round (query_ask call num) query_good (sm_servers ck) (round_start (query_ask call num) query_good sleep (sm_servers ck) w k)) \<noteq> None)) \<and>
    (\<forall>cfg w'. Query call sleep ck num w = Some (cfg, w') \<longrightarrow>
      (\<exists>srv \<in> set (sm_servers ck). \<exists>w0 reply. call srv ''ShardMaster.Query'' \<lparr>qa_Num = num\<rparr> w0 = (True, reply, w') \<and>
         qr_WrongLeader reply = False \<and> cfg = qr_Config reply))"
proof (intro conjI allI impI iffI)
  let ?U = "ask_until (query_ask call num) query_good sleep (sm_servers ck) w"
  have Q: "Query call sleep ck num w = map_option (map_prod qr_Config id) ?U" by (simp add: Query_def)
  show "\<exists>k. fst (ask_round (query_ask call num) query_good (sm_servers ck) (round_start (query_ask call num) query_good sleep (sm_servers ck) w k)) \<noteq> None"
    if "\<exists>r. Query call sleep ck num w = Some r"
  proof -
    from that Q obtain r w' where "?U = Some (r, w')" by auto
    from ask_until_sound [OF this] show ?thesis by (metis fst_conv option.distinct(1))
  qed
  show "\<exists>r. Query call sleep ck num w = Some r"
    if "\<exists>k. fst (ask_round (query_ask call num) query_good (sm_servers ck) (round_start (query_ask call num) query_good sleep (sm_servers ck) w k)) \<noteq> None"
    using that unfolding Q by (elim exE) (drule ask_until_complete, auto)
  fix cfg w' assume "Query call sleep ck num w = Some (cfg, w')"
  then obtain r where r: "?U = Some (r, w')" "cfg = qr_Config r" using Q by auto
  from ask_until_sound [OF r(1)] obtain srv w0 where
    "srv \<in> set (sm_servers ck)" "call srv ''ShardMaster.Query'' \<lparr>qa_Num = num\<rparr> w0 = (True, r, w')" "qr_WrongLeader r = False"
    by (elim exE conjE) (drule ask_round_sound, blast)
  then show "\<exists>srv \<in> set (sm_servers ck). \<exists>w0 reply. call srv ''ShardMaster.Query'' \<lparr>qa_Num = num\<rparr> w0 = (True, reply, w') \<and>
         qr_WrongLeader reply = False \<and> cfg = qr_Config reply"
    using r(2) by blast
qed

lemma get_round_sound:
  assumes "get_round call make_end args servers w = (Some v, w')"
  shows "\<exists>s \<in> set servers. \<exists>w0 w1 srv reply. make_end s w0 = (srv, w1) \<and> call srv ''ShardKV.Get'' args w1 = (True, reply, w') \<and>
    gr_Err reply \<in> {OK, ErrNoKey} \<and> v = gr_Value reply"
  using assms
proof (induction servers arbitrary: w)
  case (Cons s servers)
  obtain srv w1 ok reply w2 where c: "make_end s w = (srv, w1)" "call srv ''ShardKV.Get'' args w1 = (ok, reply, w2)"
    by (metis prod_cases3 surj_pair)
  show ?case
  proof (cases "ok \<and> (gr_Err reply = OK \<or> gr_Err reply = ErrNoKey)")
    case True
    then show ?thesis using Cons.prems c by (intro bexI [of _ s] exI [of _ w] exI [of _ w1] exI [of _ srv] exI [of _ reply]) auto
  next
    case False
    then have "get_round call make_end args servers w2 = (Some v, w')" using Cons.prems c by (auto split: if_splits)
    from Cons.IH [OF this] show ?thesis by (meson list.set_intros(2))
  qed
qed simp

lemma put_round_sound:
  assumes "put_round call make_end args servers w = (True, w')"
  shows "\<exists>s \<in> set servers. \<exists>w0 w1 srv reply. make_end s w0 = (srv, w1) \<and> call srv ''ShardKV.PutAppend'' args w1 = (True, reply, w') \<and> pr_Err reply = OK"
  using assms
proof (induction servers arbitrary: w)
  case (Cons s servers)
  obtain srv w1 ok reply w2 where c: "make_end s w = (srv, w1)" "call srv ''ShardKV.PutAppend'' args w1 = (ok, reply, w2)"
    by (metis prod_cases3 surj_pair)
  show ?case
  proof (cases "ok \<and> pr_Err reply = OK")
    case True
    then show ?thesis using Cons.prems c by (intro bexI [of _ s] exI [of _ w] exI [of _ w1] exI [of _ srv] exI [of _ reply]) auto
  next
    case False
    then have "put_round call make_end args servers w2 = (True, w')" using Cons.prems c by (auto split: if_splits)
    from Cons.IH [OF this] show ?thesis by (meson list.set_intros(2))
  qed
qed simp

lemma key2shard_range: "0 \<le> key2shard key \<and> key2shard key < NShards"
  by (simp add: key2shard_def NShards_def Let_def)

lemma go_index_shard: "length (Shards cfg) = nat NShards \<Longrightarrow> go_index (Shards cfg) (key2shard key) = Inr (Shards cfg ! nat (key2shard key))"
  using key2shard_range [of key] by (simp add: go_index_def go_len_def)

text \<open>What \<open>Query\<close> returns, when every reply has a property.\<close>

lemma Query_reply:
  assumes "Query call sleep ck num w = Some (cfg, w')" and "\<And>srv w. P (qr_Config (fst (snd (call srv ''ShardMaster.Query'' \<lparr>qa_Num = num\<rparr> w))))"
  shows "P cfg"
proof -
  obtain r where r: "ask_until (\<lambda>srv. call srv ''ShardMaster.Query'' \<lparr>qa_Num = num\<rparr>) (\<lambda>r. qr_WrongLeader r = False) sleep (sm_servers ck) w = Some (r, w')" "cfg = qr_Config r"
    using assms(1) by (auto simp: Query_def)
  from ask_until_sound [OF r(1)] obtain srv w0 where "call srv ''ShardMaster.Query'' \<lparr>qa_Num = num\<rparr> w0 = (True, r, w')"
    by (elim exE conjE) (drule ask_round_sound, blast)
  then show ?thesis using assms(2) [of srv w0] r(2) by simp
qed

text \<open>The shape that Go's array type gives every configuration.\<close>

definition replies_wf :: "('e, QueryArgs, QueryReply, 'w) call \<Rightarrow> bool" where
  "replies_wf query \<longleftrightarrow> (\<forall>srv m a w. length (Shards (qr_Config (fst (snd (query srv m a w))))) = nat NShards)"

definition owner_answered :: "('e, GetArgs, GetReply, 'w) call \<Rightarrow> (string \<Rightarrow> 'w \<Rightarrow> 'e \<times> 'w) \<Rightarrow> string \<Rightarrow> string \<Rightarrow> Config \<Rightarrow> 'w \<Rightarrow> bool" where
  "owner_answered call make_end key v cfg w' \<longleftrightarrow>
     (\<exists>servers. Groups cfg (Shards cfg ! nat (key2shard key)) = Some servers \<and>
       (\<exists>s \<in> set servers. \<exists>w0 w1 srv reply. make_end s w0 = (srv, w1) \<and> call srv ''ShardKV.Get'' \<lparr>ga_Key = key\<rparr> w1 = (True, reply, w') \<and>
         gr_Err reply \<in> {OK, ErrNoKey} \<and> v = gr_Value reply))"

lemma Get_loop_sound:
  assumes "Get_loop call query make_end sleep key ck w = Some res"
  shows "replies_wf query \<longrightarrow> length (Shards (kv_config ck)) = nat NShards \<longrightarrow>
    (\<exists>v ck' w'. res = Inr (v, ck', w') \<and> owner_answered call make_end key v (kv_config ck') w')"
proof (rule Get_loop.raw_induct [OF _ assms])
  fix f call query make_end sleep key ck w res
  assume IH: "\<And>call query make_end sleep key ck w res. f call query make_end sleep key ck w = Some res \<Longrightarrow>
      replies_wf query \<longrightarrow> length (Shards (kv_config ck)) = nat NShards \<longrightarrow>
      (\<exists>v ck' w'. res = Inr (v, ck', w') \<and> owner_answered call make_end key v (kv_config ck') w')"
    and st: "(case go_index (Shards (kv_config ck)) (key2shard key) of Inl e \<Rightarrow> Some (Inl e)
      | Inr gid \<Rightarrow> (case (case Groups (kv_config ck) gid of None \<Rightarrow> (None, w) | Some servers \<Rightarrow> get_round call make_end \<lparr>ga_Key = key\<rparr> servers w) of
             (None, w1) \<Rightarrow> Option.bind (Query query sleep (kv_sm ck) (-1) (sleep w1)) (\<lambda>(cfg, w2). f call query make_end sleep key (ck\<lparr>kv_config := cfg\<rparr>) w2)
           | (Some v, w1) \<Rightarrow> Some (Inr (v, ck, w1)))) = Some res"
  let ?r = "case Groups (kv_config ck) (Shards (kv_config ck) ! nat (key2shard key)) of None \<Rightarrow> (None, w)
      | Some servers \<Rightarrow> get_round call make_end \<lparr>ga_Key = key\<rparr> servers w"
  obtain o1 w1 where r: "?r = (o1, w1)" by fastforce
  show "replies_wf query \<longrightarrow> length (Shards (kv_config ck)) = nat NShards \<longrightarrow>
    (\<exists>v ck' w'. res = Inr (v, ck', w') \<and> owner_answered call make_end key v (kv_config ck') w')"
  proof (intro impI)
    assume wf: "replies_wf query" and len: "length (Shards (kv_config ck)) = nat NShards"
    show "\<exists>v ck' w'. res = Inr (v, ck', w') \<and> owner_answered call make_end key v (kv_config ck') w'"
    proof (cases o1)
      case (Some v)
      then have "res = Inr (v, ck, w1)" using st r by (simp add: go_index_shard [OF len])
      moreover obtain servers where "Groups (kv_config ck) (Shards (kv_config ck) ! nat (key2shard key)) = Some servers"
        "get_round call make_end \<lparr>ga_Key = key\<rparr> servers w = (Some v, w1)" using r Some by (auto split: option.splits)
      ultimately show ?thesis using get_round_sound [of call make_end _ servers w v w1] by (auto simp: owner_answered_def)
    next
      case None
      then obtain cfg w2 where q: "Query query sleep (kv_sm ck) (-1) (sleep w1) = Some (cfg, w2)" "f call query make_end sleep key (ck\<lparr>kv_config := cfg\<rparr>) w2 = Some res"
        using st r by (auto simp: go_index_shard [OF len] bind_eq_Some_conv)
      have "length (Shards cfg) = nat NShards" by (rule Query_reply [OF q(1)]) (use wf in \<open>simp add: replies_wf_def\<close>)
      then show ?thesis using IH [OF q(2)] wf by simp
    qed
  qed
qed

definition owner_acknowledged :: "('e, PutAppendArgs, PutAppendReply, 'w) call \<Rightarrow> (string \<Rightarrow> 'w \<Rightarrow> 'e \<times> 'w) \<Rightarrow> PutAppendArgs \<Rightarrow> Config \<Rightarrow> 'w \<Rightarrow> bool" where
  "owner_acknowledged call make_end args cfg w' \<longleftrightarrow>
     (\<exists>servers. Groups cfg (Shards cfg ! nat (key2shard (pa_Key args))) = Some servers \<and>
       (\<exists>s \<in> set servers. \<exists>w0 w1 srv reply. make_end s w0 = (srv, w1) \<and> call srv ''ShardKV.PutAppend'' args w1 = (True, reply, w') \<and> pr_Err reply = OK))"

lemma PutAppend_loop_sound:
  assumes "PutAppend_loop call query make_end sleep args ck w = Some res"
  shows "replies_wf query \<longrightarrow> length (Shards (kv_config ck)) = nat NShards \<longrightarrow>
    (\<exists>ck' w'. res = Inr (ck', w') \<and> owner_acknowledged call make_end args (kv_config ck') w')"
proof (rule PutAppend_loop.raw_induct [OF _ assms])
  fix f call query make_end sleep args ck w res
  assume IH: "\<And>call query make_end sleep args ck w res. f call query make_end sleep args ck w = Some res \<Longrightarrow>
      replies_wf query \<longrightarrow> length (Shards (kv_config ck)) = nat NShards \<longrightarrow>
      (\<exists>ck' w'. res = Inr (ck', w') \<and> owner_acknowledged call make_end args (kv_config ck') w')"
    and st: "(case go_index (Shards (kv_config ck)) (key2shard (pa_Key args)) of Inl e \<Rightarrow> Some (Inl e)
      | Inr gid \<Rightarrow> (case (case Groups (kv_config ck) gid of None \<Rightarrow> (False, w) | Some servers \<Rightarrow> put_round call make_end args servers w) of
             (fin, w1) \<Rightarrow> if fin then Some (Inr (ck, w1))
               else Option.bind (Query query sleep (kv_sm ck) (-1) (sleep w1)) (\<lambda>(cfg, w2). f call query make_end sleep args (ck\<lparr>kv_config := cfg\<rparr>) w2))) = Some res"
  let ?r = "case Groups (kv_config ck) (Shards (kv_config ck) ! nat (key2shard (pa_Key args))) of None \<Rightarrow> (False, w)
      | Some servers \<Rightarrow> put_round call make_end args servers w"
  obtain fin w1 where r: "?r = (fin, w1)" by fastforce
  show "replies_wf query \<longrightarrow> length (Shards (kv_config ck)) = nat NShards \<longrightarrow>
    (\<exists>ck' w'. res = Inr (ck', w') \<and> owner_acknowledged call make_end args (kv_config ck') w')"
  proof (intro impI)
    assume wf: "replies_wf query" and len: "length (Shards (kv_config ck)) = nat NShards"
    show "\<exists>ck' w'. res = Inr (ck', w') \<and> owner_acknowledged call make_end args (kv_config ck') w'"
    proof (cases fin)
      case True
      then have "res = Inr (ck, w1)" using st r by (simp add: go_index_shard [OF len])
      moreover obtain servers where "Groups (kv_config ck) (Shards (kv_config ck) ! nat (key2shard (pa_Key args))) = Some servers"
        "put_round call make_end args servers w = (True, w1)" using r True by (auto split: option.splits)
      ultimately show ?thesis using put_round_sound [of call make_end args servers w w1] by (auto simp: owner_acknowledged_def)
    next
      case False
      then obtain cfg w2 where q: "Query query sleep (kv_sm ck) (-1) (sleep w1) = Some (cfg, w2)" "f call query make_end sleep args (ck\<lparr>kv_config := cfg\<rparr>) w2 = Some res"
        using st r by (auto simp: go_index_shard [OF len] bind_eq_Some_conv)
      have "length (Shards cfg) = nat NShards" by (rule Query_reply [OF q(1)]) (use wf in \<open>simp add: replies_wf_def\<close>)
      then show ?thesis using IH [OF q(2)] wf by simp
    qed
  qed
qed

text \<open>
  C35: A \<open>Get\<close> that returns has not panicked, and its value is what a server of the group that owns the key's
  shard, in the configuration the clerk has then, replied with \<open>OK\<close> or \<open>ErrNoKey\<close>. Configurations have
  \<open>NShards\<close> entries, as their type says.
\<close>

theorem Get_answered_by_owner:
  assumes "Get call query make_end sleep key ck w = Some res" and "replies_wf query" and "length (Shards (kv_config ck)) = nat NShards"
  shows "\<exists>v ck' w' servers s srv w0 w1 reply. res = Inr (v, ck', w') \<and>
    Groups (kv_config ck') (Shards (kv_config ck') ! nat (key2shard key)) = Some servers \<and> s \<in> set servers \<and>
    make_end s w0 = (srv, w1) \<and> call srv ''ShardKV.Get'' \<lparr>ga_Key = key\<rparr> w1 = (True, reply, w') \<and>
    (gr_Err reply = ''OK'' \<or> gr_Err reply = ''ErrNoKey'') \<and> v = gr_Value reply"
proof -
  obtain v ck' w' where r: "res = Inr (v, ck', w')" "owner_answered call make_end key v (kv_config ck') w'"
    using Get_loop_sound [OF assms(1) [unfolded Get_def]] assms(2,3) by blast
  from r(2) obtain servers s w0 w1 srv reply where "Groups (kv_config ck') (Shards (kv_config ck') ! nat (key2shard key)) = Some servers" "s \<in> set servers"
    "make_end s w0 = (srv, w1)" "call srv ''ShardKV.Get'' \<lparr>ga_Key = key\<rparr> w1 = (True, reply, w')" "gr_Err reply \<in> {OK, ErrNoKey}" "v = gr_Value reply"
    unfolding owner_answered_def by (elim exE conjE bexE) (rule that)
  with r(1) show ?thesis by blast
qed

text \<open>
  A \<open>Put\<close> or \<open>Append\<close> that returns has not panicked, and was acknowledged with \<open>OK\<close> by a server of the
  group that owns the key's shard in the configuration the clerk has then.
\<close>

theorem PutAppend_acknowledged_by_owner:
  assumes "PutAppend call query make_end sleep key val opn ck w = Some res" and "replies_wf query" and "length (Shards (kv_config ck)) = nat NShards"
  shows "\<exists>ck' w' servers s srv w0 w1 reply. res = Inr (ck', w') \<and>
    Groups (kv_config ck') (Shards (kv_config ck') ! nat (key2shard key)) = Some servers \<and> s \<in> set servers \<and>
    make_end s w0 = (srv, w1) \<and> call srv ''ShardKV.PutAppend'' \<lparr>pa_Key = key, pa_Value = val, pa_Op = opn\<rparr> w1 = (True, reply, w') \<and> pr_Err reply = ''OK''"
proof -
  obtain ck' w' where r: "res = Inr (ck', w')" "owner_acknowledged call make_end \<lparr>pa_Key = key, pa_Value = val, pa_Op = opn\<rparr> (kv_config ck') w'"
    using PutAppend_loop_sound [OF assms(1) [unfolded PutAppend_def]] assms(2,3) by blast
  from r(2) obtain servers s w0 w1 srv reply where "Groups (kv_config ck') (Shards (kv_config ck') ! nat (key2shard key)) = Some servers" "s \<in> set servers"
    "make_end s w0 = (srv, w1)" "call srv ''ShardKV.PutAppend'' \<lparr>pa_Key = key, pa_Value = val, pa_Op = opn\<rparr> w1 = (True, reply, w')" "pr_Err reply = OK"
    unfolding owner_acknowledged_def PutAppendArgs.simps by (elim exE conjE bexE) (rule that)
  with r(1) show ?thesis by blast
qed

subsection \<open>The skeletons\<close>

text \<open>A call to a server of the repository: the link decides whether a reply comes; the reply is what
  the handler makes of the zero value.\<close>

definition skeleton_query :: "('e \<Rightarrow> 'w \<Rightarrow> bool \<times> 'w) \<Rightarrow> ('e \<Rightarrow> 'w \<Rightarrow> ShardMaster) \<Rightarrow> ('e, QueryArgs, QueryReply, 'w) call" where
  "skeleton_query link sm = (\<lambda>srv m args w. case link srv w of (ok, w') \<Rightarrow>
     (ok, fst (sm_Query args \<lparr>qr_WrongLeader = False, qr_Err = '''', qr_Config = zero_Config\<rparr> (sm srv w)), w'))"

definition skeleton_get :: "('e \<Rightarrow> 'w \<Rightarrow> bool \<times> 'w) \<Rightarrow> ('e \<Rightarrow> 'w \<Rightarrow> ShardKV) \<Rightarrow> ('e, GetArgs, GetReply, 'w) call" where
  "skeleton_get link kv = (\<lambda>srv m args w. case link srv w of (ok, w') \<Rightarrow>
     (ok, fst (skv_Get args \<lparr>gr_Err = '''', gr_Value = ''''\<rparr> (kv srv w)), w'))"

lemma skeleton_Get_loop:
  assumes "Get_loop (skeleton_get link kv) (skeleton_query qlink sm) make_end sleep key ck w = Some res" and "kv_config ck = zero_Config"
  shows False
proof -
  have "call = skeleton_get link kv \<longrightarrow> query = skeleton_query qlink sm \<longrightarrow> kv_config ck \<noteq> zero_Config"
    if "Get_loop call query make_end sleep key ck w = Some res" for call query make_end sleep key ck w res
  proof (rule Get_loop.raw_induct [OF _ that], intro impI notI)
    fix f call query make_end sleep key ck w res
    assume IH: "\<And>call query make_end sleep key ck w res. f call query make_end sleep key ck w = Some res \<Longrightarrow>
        call = skeleton_get link kv \<longrightarrow> query = skeleton_query qlink sm \<longrightarrow> kv_config ck \<noteq> zero_Config"
      and eq: "call = skeleton_get link kv" "query = skeleton_query qlink sm" and z: "kv_config ck = zero_Config"
      and st: "(case go_index (Shards (kv_config ck)) (key2shard key) of Inl e \<Rightarrow> Some (Inl e)
        | Inr gid \<Rightarrow> (case (case Groups (kv_config ck) gid of None \<Rightarrow> (None, w) | Some servers \<Rightarrow> get_round call make_end \<lparr>ga_Key = key\<rparr> servers w) of
               (None, w1) \<Rightarrow> Option.bind (Query query sleep (kv_sm ck) (-1) (sleep w1)) (\<lambda>(cfg, w2). f call query make_end sleep key (ck\<lparr>kv_config := cfg\<rparr>) w2)
             | (Some v, w1) \<Rightarrow> Some (Inr (v, ck, w1)))) = Some res"
    have len: "length (Shards (kv_config ck)) = nat NShards" by (simp add: z zero_Config_def)
    have "Groups (kv_config ck) gid = None" for gid by (simp add: z zero_Config_def)
    then obtain cfg w2 where q: "Query query sleep (kv_sm ck) (-1) (sleep w) = Some (cfg, w2)" "f call query make_end sleep key (ck\<lparr>kv_config := cfg\<rparr>) w2 = Some res"
      using st by (auto simp: go_index_shard [OF len] bind_eq_Some_conv)
    have "cfg = zero_Config" by (rule Query_reply [OF q(1)]) (simp add: eq skeleton_query_def sm_Query_def split: prod.splits)
    then show False using IH [OF q(2)] eq by simp
  qed
  from this [OF assms(1)] assms(2) show False by simp
qed

text \<open>
  With the servers of the repository, whose handlers are still empty, a new clerk's \<open>Get\<close> never returns,
  whatever the network does: the shard master answers with a configuration without groups.
\<close>

theorem skeleton_Get_never_returns:
  "Get (skeleton_get link kv) (skeleton_query qlink sm) make_end sleep key (kv_MakeClerk masters) w = None"
proof (rule ccontr)
  assume "Get (skeleton_get link kv) (skeleton_query qlink sm) make_end sleep key (kv_MakeClerk masters) w \<noteq> None"
  then obtain res where "Get_loop (skeleton_get link kv) (skeleton_query qlink sm) make_end sleep key (kv_MakeClerk masters) w = Some res"
    by (auto simp: Get_def)
  then show False by (rule skeleton_Get_loop) (simp add: kv_MakeClerk_def)
qed

subsection \<open>A small network\<close>

text \<open>One group of two servers, of which the second is the leader, and one shard master; the world counts the calls.\<close>

definition sample_shards :: Config where
  "sample_shards = \<lparr>Num = 1, Shards = replicate (nat NShards) 100, Groups = Map.empty(100 \<mapsto> [''s0'', ''s1''])\<rparr>"

definition sample_query :: "(string, QueryArgs, QueryReply, nat) call" where
  "sample_query srv m args w = (True, \<lparr>qr_WrongLeader = False, qr_Err = ''OK'', qr_Config = sample_shards\<rparr>, w + 1)"

definition sample_get :: "(string, GetArgs, GetReply, nat) call" where
  "sample_get srv m args w = (True, \<lparr>gr_Err = (if srv = ''s1'' then ''OK'' else ''ErrWrongLeader''), gr_Value = ga_Key args @ ''!''\<rparr>, w + 1)"

definition sample_put :: "(string, PutAppendArgs, PutAppendReply, nat) call" where
  "sample_put srv m args w = (True, \<lparr>pr_Err = (if srv = ''s1'' then ''OK'' else ''ErrWrongLeader'')\<rparr>, w + 1)"

lemma sample_shard: "go_index (Shards zero_Config) (key2shard key) = Inr 0" "go_index (Shards sample_shards) (key2shard key) = Inr 100"
  using key2shard_range [of key] by (simp_all add: go_index_def go_len_def zero_Config_def sample_shards_def)

lemma sample_Query: "sm_servers ck \<noteq> [] \<Longrightarrow> Query sample_query Suc ck num w = Some (sample_shards, w + 1)"
  unfolding Query_def by (subst ask_until.simps) (auto simp: sample_query_def neq_Nil_conv)

lemma sample_first:
  "kv_config (kv_MakeClerk [''m'']) = zero_Config" "Groups zero_Config gid = None"
  "Query sample_query Suc (kv_sm (kv_MakeClerk [''m''])) (-1) (Suc 0) = Some (sample_shards, 2)"
  by (simp_all add: kv_MakeClerk_def sm_MakeClerk_def zero_Config_def sample_Query numeral_2_eq_2)

lemma sample_Get:
  "Get_loop sample_get sample_query (\<lambda>s w. (s, w)) Suc ''k'' (kv_MakeClerk [''m'']) 0 =
     Some (Inr (''k!'', (kv_MakeClerk [''m''])\<lparr>kv_config := sample_shards\<rparr>, 4))"
proof -
  have 2: "Get_loop sample_get sample_query (\<lambda>s w. (s, w)) Suc ''k'' ((kv_MakeClerk [''m''])\<lparr>kv_config := sample_shards\<rparr>) 2 =
      Some (Inr (''k!'', (kv_MakeClerk [''m''])\<lparr>kv_config := sample_shards\<rparr>, 4))"
    by (subst Get_loop.simps) (simp add: sample_shard, simp add: sample_shards_def sample_get_def)
  show ?thesis
    by (subst Get_loop.simps)
      (simp add: sample_first sample_shard 2)
qed

lemma sample_Put:
  "PutAppend_loop sample_put sample_query (\<lambda>s w. (s, w)) Suc args (kv_MakeClerk [''m'']) 0 =
     Some (Inr ((kv_MakeClerk [''m''])\<lparr>kv_config := sample_shards\<rparr>, 4))"
proof -
  have 2: "PutAppend_loop sample_put sample_query (\<lambda>s w. (s, w)) Suc args ((kv_MakeClerk [''m''])\<lparr>kv_config := sample_shards\<rparr>) 2 =
      Some (Inr ((kv_MakeClerk [''m''])\<lparr>kv_config := sample_shards\<rparr>, 4))"
    by (subst PutAppend_loop.simps) (simp add: sample_shard, simp add: sample_shards_def sample_put_def)
  show ?thesis
    by (subst PutAppend_loop.simps)
      (simp add: sample_first sample_shard 2)
qed

lemma sample_clerk_wf: "replies_wf sample_query" "length (Shards (kv_config (kv_MakeClerk [''m'']))) = nat NShards"
  by (simp_all add: replies_wf_def sample_query_def sample_shards_def kv_MakeClerk_def zero_Config_def)

theorem Query_retries_witness:
  "Query sample_query Suc \<lparr>sm_servers = [''m'']\<rparr> 7 5 = Some (sample_shards, 6) \<and>
   (\<exists>srv \<in> set [''m'']. \<exists>w0 reply. sample_query srv ''ShardMaster.Query'' \<lparr>qa_Num = 7\<rparr> w0 = (True, reply, 6) \<and>
      qr_WrongLeader reply = False \<and> sample_shards = qr_Config reply)"
proof -
  have q: "Query sample_query Suc \<lparr>sm_servers = [''m'']\<rparr> 7 5 = Some (sample_shards, 6)" by (simp add: sample_Query)
  from Query_retries [of sample_query Suc "\<lparr>sm_servers = [''m'']\<rparr>" 7 5, THEN conjunct2, rule_format, OF q] q
  show ?thesis unfolding sm_Clerk.simps by blast
qed

theorem Get_answered_by_owner_witness:
  "\<exists>v ck' w' servers s w0 reply. Get sample_get sample_query (\<lambda>s w. (s, w)) Suc ''k'' (kv_MakeClerk [''m'']) 0 = Some (Inr (v, ck', w')) \<and>
     Groups (kv_config ck') (Shards (kv_config ck') ! nat (key2shard ''k'')) = Some servers \<and> s \<in> set servers \<and>
     sample_get s ''ShardKV.Get'' \<lparr>ga_Key = ''k''\<rparr> w0 = (True, reply, w') \<and> v = gr_Value reply"
proof -
  have g: "Get sample_get sample_query (\<lambda>s w. (s, w)) Suc ''k'' (kv_MakeClerk [''m'']) 0 = Some (Inr (''k!'', (kv_MakeClerk [''m''])\<lparr>kv_config := sample_shards\<rparr>, 4))"
    by (simp add: Get_def sample_Get)
  from Get_answered_by_owner [OF g sample_clerk_wf] g show ?thesis by auto
qed

theorem PutAppend_acknowledged_by_owner_witness:
  "\<exists>ck' w' servers s w0 reply. PutAppend sample_put sample_query (\<lambda>s w. (s, w)) Suc ''k'' ''v'' ''Put'' (kv_MakeClerk [''m'']) 0 = Some (Inr (ck', w')) \<and>
     Groups (kv_config ck') (Shards (kv_config ck') ! nat (key2shard ''k'')) = Some servers \<and> s \<in> set servers \<and>
     sample_put s ''ShardKV.PutAppend'' \<lparr>pa_Key = ''k'', pa_Value = ''v'', pa_Op = ''Put''\<rparr> w0 = (True, reply, w') \<and> pr_Err reply = ''OK''"
proof -
  have g: "PutAppend sample_put sample_query (\<lambda>s w. (s, w)) Suc ''k'' ''v'' ''Put'' (kv_MakeClerk [''m'']) 0 = Some (Inr ((kv_MakeClerk [''m''])\<lparr>kv_config := sample_shards\<rparr>, 4))"
    by (simp add: PutAppend_def sample_Put)
  from PutAppend_acknowledged_by_owner [OF g sample_clerk_wf] g show ?thesis by auto
qed

end
