(* ===== verification/Kv_Services.thy ===== *)
theory Kv_Services
  imports Raft_Service Clerks
begin

section \<open>The services of the replicated servers\<close>

text \<open>
  A server of \<open>kvraft\<close>, \<open>shardmaster\<close> or \<open>shardkv\<close> is registered with two services: its own and that
  of the Raft peer it runs. The arguments and replies of all methods are two sums. The handlers of the
  three services are those of \<open>Clerks\<close>; they get the zero value of the reply.
\<close>

datatype 'c svc_args = RaftReq "'c rpc_args" | GetReq GetArgs | PutAppendReq PutAppendArgs
  | JoinReq JoinArgs | LeaveReq LeaveArgs | MoveReq MoveArgs | QueryReq QueryArgs

datatype svc_reply = RaftRep rpc_reply | GetRep GetReply | PutAppendRep PutAppendReply
  | JoinRep JoinReply | LeaveRep LeaveReply | MoveRep MoveReply | QueryRep QueryReply

fun raft_req :: "'c svc_args \<Rightarrow> 'c rpc_args option" where
  "raft_req (RaftReq a) = Some a"
| "raft_req _ = None"

fun get_req :: "'c svc_args \<Rightarrow> GetArgs option" where
  "get_req (GetReq a) = Some a"
| "get_req _ = None"

fun put_append_req :: "'c svc_args \<Rightarrow> PutAppendArgs option" where
  "put_append_req (PutAppendReq a) = Some a"
| "put_append_req _ = None"

fun join_req :: "'c svc_args \<Rightarrow> JoinArgs option" where
  "join_req (JoinReq a) = Some a"
| "join_req _ = None"

fun leave_req :: "'c svc_args \<Rightarrow> LeaveArgs option" where
  "leave_req (LeaveReq a) = Some a"
| "leave_req _ = None"

fun move_req :: "'c svc_args \<Rightarrow> MoveArgs option" where
  "move_req (MoveReq a) = Some a"
| "move_req _ = None"

fun query_req :: "'c svc_args \<Rightarrow> QueryArgs option" where
  "query_req (QueryReq a) = Some a"
| "query_req _ = None"

text \<open>
  The store of an object holds the server itself, or a value of a larger type that \<open>get\<close> reads and
  \<open>put\<close> writes; a store that holds a server of another kind cannot be reached by this service, and
  \<open>get\<close> then gives \<open>None\<close>.
\<close>

definition part_method :: "('a \<Rightarrow> 'x option) \<Rightarrow> ('y \<Rightarrow> 'r) \<Rightarrow> 'y \<Rightarrow> ('o \<Rightarrow> 's option) \<Rightarrow> ('s \<Rightarrow> 'o) \<Rightarrow> ('x \<Rightarrow> 'y \<Rightarrow> 's \<Rightarrow> 'y \<times> 's) \<Rightarrow> nat \<Rightarrow>
  ('a, 'r, 'o objects) func" where
  "part_method args_of reply_as zero get put h p =
     obj_method args_of reply_as zero
       (\<lambda>_ x ob. case get ob of None \<Rightarrow> Inl NilDereference | Some s \<Rightarrow> (case h x zero s of (y, s') \<Rightarrow> Inr (put s', y))) p"

subsection \<open>The methods of the three servers, as \<open>reflect\<close> lists them\<close>

definition store_methods :: "('o \<Rightarrow> 's option) \<Rightarrow> ('s \<Rightarrow> 'o) \<Rightarrow> (GetArgs \<Rightarrow> GetReply \<Rightarrow> 's \<Rightarrow> GetReply \<times> 's) \<Rightarrow>
  (PutAppendArgs \<Rightarrow> PutAppendReply \<Rightarrow> 's \<Rightarrow> PutAppendReply \<times> 's) \<Rightarrow> nat \<Rightarrow> ('c svc_args, svc_reply, 'o objects) method_info list" where
  "store_methods get put h_get h_put p =
     (let m_get = part_method get_req GetRep \<lparr>gr_Err = '''', gr_Value = ''''\<rparr> get put h_get p;
          m_put = part_method put_append_req PutAppendRep \<lparr>pr_Err = ''''\<rparr> get put h_put p
      in [handler_method ''Get'' m_get, other_method ''Kill'' 1 0 m_get, handler_method ''PutAppend'' m_put])"

definition KVServer_methods :: "('o \<Rightarrow> KVServer option) \<Rightarrow> (KVServer \<Rightarrow> 'o) \<Rightarrow> nat \<Rightarrow> ('c svc_args, svc_reply, 'o objects) method_info list" where
  "KVServer_methods get put p = store_methods get put kvs_Get kvs_PutAppend p"

definition ShardKV_methods :: "('o \<Rightarrow> ShardKV option) \<Rightarrow> (ShardKV \<Rightarrow> 'o) \<Rightarrow> nat \<Rightarrow> ('c svc_args, svc_reply, 'o objects) method_info list" where
  "ShardKV_methods get put p = store_methods get put skv_Get skv_PutAppend p"

definition ShardMaster_methods :: "('o \<Rightarrow> ShardMaster option) \<Rightarrow> (ShardMaster \<Rightarrow> 'o) \<Rightarrow> nat \<Rightarrow> ('c svc_args, svc_reply, 'o objects) method_info list" where
  "ShardMaster_methods get put p =
     (let m_join = part_method join_req JoinRep \<lparr>jr_WrongLeader = False, jr_Err = ''''\<rparr> get put sm_Join p;
          m_leave = part_method leave_req LeaveRep \<lparr>lr_WrongLeader = False, lr_Err = ''''\<rparr> get put sm_Leave p;
          m_move = part_method move_req MoveRep \<lparr>mr_WrongLeader = False, mr_Err = ''''\<rparr> get put sm_Move p;
          m_query = part_method query_req QueryRep \<lparr>qr_WrongLeader = False, qr_Err = '''', qr_Config = zero_Config\<rparr> get put sm_Query p
      in [handler_method ''Join'' m_join, other_method ''Kill'' 1 0 m_join, handler_method ''Leave'' m_leave,
          handler_method ''Move'' m_move, handler_method ''Query'' m_query, other_method ''Raft'' 1 1 m_join])"

text \<open>The server that the harnesses make: \<open>srv.AddService(kvsvc)\<close>, then \<open>srv.AddService(rfsvc)\<close>.\<close>

definition two_services :: "string \<Rightarrow> ('c svc_args, svc_reply, 'o objects) method_info list \<Rightarrow> ('o \<Rightarrow> 'c Raft) \<Rightarrow> ('c Raft \<Rightarrow> 'o \<Rightarrow> 'o) \<Rightarrow> nat \<Rightarrow>
  ('c svc_args, svc_reply, 'o objects) Server" where
  "two_services tname ms get_rf put_rf p =
     (let kvsvc = MakeService tname ms;
          rfsvc = raft_service raft_req RaftRep get_rf put_rf p
      in AddService rfsvc (AddService kvsvc MakeServer))"

subsection \<open>What the servers answer\<close>

lemma svc_name_MakeService [simp]: "svc_name (MakeService tname ms) = tname"
  by (simp add: MakeService_def)

lemma services_two [simp]:
  "services (two_services tname ms get_rf put_rf p) =
     [tname \<mapsto> MakeService tname ms, ''Raft'' \<mapsto> raft_service raft_req RaftRep get_rf put_rf p]"
  by (simp add: two_services_def Let_def)

text \<open>A request for the Raft service runs the handler of the peer inside the server.\<close>

lemma two_services_raft:
  assumes "services rs = services (two_services tname ms get_rf put_rf p)"
    and "raft_handle now (get_rf (objs p)) a = Inr (rf', r)"
  shows "\<exists>svc f. services rs ''Raft'' = Some svc \<and> methods svc (method_of a) = Some f \<and>
    f (RaftReq a) (Inr (now, objs)) = (RaftRep r, Inr (now, objs(p := put_rf rf' (objs p))))"
  using raft_service_handles [of raft_req "RaftReq a" a now get_rf objs p rf' r RaftRep put_rf] assms by auto

text \<open>The stores answer \<open>Get\<close> and \<open>PutAppend\<close> and no other method; the handlers are still empty.\<close>

lemma store_methods_served:
  "methods (MakeService tname (store_methods get put h_get h_put p)) mname \<noteq> None \<longleftrightarrow> mname \<in> {''Get'', ''PutAppend''}"
  by (simp add: MakeService_def store_methods_def handler_method_def other_method_def Let_def)

lemma ShardMaster_methods_served:
  "methods (MakeService tname (ShardMaster_methods get put p)) mname \<noteq> None \<longleftrightarrow> mname \<in> {''Join'', ''Leave'', ''Move'', ''Query''}"
  by (simp add: MakeService_def ShardMaster_methods_def handler_method_def other_method_def Let_def)

lemma store_serves_Get:
  assumes "get (objs p) = Some s" and "h_get args \<lparr>gr_Err = '''', gr_Value = ''''\<rparr> s = (r, s')"
  shows "\<exists>f. methods (MakeService tname (store_methods get put h_get h_put p)) ''Get'' = Some f \<and>
    f (GetReq args) (Inr (now, objs)) = (GetRep r, Inr (now, objs(p := put s')))"
  using assms by (simp add: MakeService_def store_methods_def handler_method_def other_method_def Let_def part_method_def obj_method_def)

lemma store_serves_PutAppend:
  assumes "get (objs p) = Some s" and "h_put args \<lparr>pr_Err = ''''\<rparr> s = (r, s')"
  shows "\<exists>f. methods (MakeService tname (store_methods get put h_get h_put p)) ''PutAppend'' = Some f \<and>
    f (PutAppendReq args) (Inr (now, objs)) = (PutAppendRep r, Inr (now, objs(p := put s')))"
  using assms by (simp add: MakeService_def store_methods_def handler_method_def other_method_def Let_def part_method_def obj_method_def)

lemma master_serves_Query:
  assumes "get (objs p) = Some s"
  shows "\<exists>f. methods (MakeService tname (ShardMaster_methods get put p)) ''Query'' = Some f \<and>
    f (QueryReq args) (Inr (now, objs)) =
      (QueryRep \<lparr>qr_WrongLeader = False, qr_Err = '''', qr_Config = zero_Config\<rparr>, Inr (now, objs(p := put s)))"
  using assms
  by (simp add: MakeService_def ShardMaster_methods_def handler_method_def other_method_def Let_def part_method_def obj_method_def sm_Query_def)

end
