(* ===== verification/Harness_Kv.thy ===== *)
theory Harness_Kv
  imports Harness_Wiring Kv_Services
begin

section \<open>The test harnesses of the replicated services (kvraft/config.go, shardmaster/config.go)\<close>

text \<open>
  The two harnesses have the same code around two services. A service is given by its operations
  (\<open>service\<close>): the Raft peer a server runs, \<open>Kill\<close>, the function that starts a server, and for
  \<open>labrpc.MakeService\<close> the name and the methods of its type. Servers made so far are in \<open>ksrvs\<close>, by
  number; the number is also that of the instance behind the services. Names of ends, the clock and
  random numbers are arguments; a pointer to a clerk is a number, and an end is known by its name. A
  failed test is the error \<open>LogFatal\<close>.
\<close>

record ('s, 'c) service =
  srv_rf :: "'s \<Rightarrow> 'c Raft"
  srv_kill :: "'s \<Rightarrow> 's"
  srv_start :: "int \<Rightarrow> int \<Rightarrow> nat \<Rightarrow> int \<Rightarrow> 'c gob_item Persister \<Rightarrow> int \<Rightarrow> 's res"
  srv_put_rf :: "'c Raft \<Rightarrow> 's \<Rightarrow> 's"
  srv_tname :: string
  srv_methods :: "nat \<Rightarrow> ('c svc_args, svc_reply, 's objects) method_info list"

definition kv_service :: "(KVServer, unit) service" where
  "kv_service = \<lparr>srv_rf = kvs_rf, srv_kill = kvs_Kill, srv_start = StartKVServer,
     srv_put_rf = (\<lambda>rf kv. kv\<lparr>kvs_rf := rf\<rparr>), srv_tname = ''KVServer'', srv_methods = KVServer_methods Some id\<rparr>"

definition sm_service :: "(ShardMaster, unit) service" where
  "sm_service = \<lparr>srv_rf = sm_rf, srv_kill = sm_Kill, srv_start = (\<lambda>now rnd servers i ps _. sm_StartServer now rnd servers i ps),
     srv_put_rf = (\<lambda>rf sm. sm\<lparr>sm_rf := rf\<rparr>), srv_tname = ''ShardMaster'', srv_methods = ShardMaster_methods Some id\<rparr>"

record ('s, 'c) kvconfig =
  knet :: "(string, int) Network"
  kn :: nat
  kvservers :: "'s option list"
  ksaved :: "'c gob_item Persister option list"
  kendnames :: "string list option list"
  clerks :: "nat \<Rightarrow> string list option"
  nextClientId :: int
  maxraftstate :: int
  kstart :: int
  kt0 :: int
  krpcs0 :: int
  kops :: "32 word"
  knextsrv :: nat
  ksrvs :: "nat \<Rightarrow> ('c svc_args, svc_reply, 's objects) Server"

text \<open>\<open>rs i\<close> is what \<open>rand.Intn(i + 1)\<close> returns.\<close>

definition random_handles :: "(nat \<Rightarrow> nat) \<Rightarrow> 'e list \<Rightarrow> 'e list" where
  "random_handles rs kvh = fold (\<lambda>i sa. let j = rs i in sa[i := sa ! j, j := sa ! i]) [0..<length kvh] kvh"

subsection \<open>Connections\<close>

definition kend_at :: "int \<Rightarrow> int \<Rightarrow> ('s, 'c) kvconfig \<Rightarrow> string res" where
  "kend_at i j cfg =
     bind_res (go_index (kendnames cfg) i) (\<lambda>es. case es of None \<Rightarrow> Inl IndexOutOfRange | Some l \<Rightarrow> go_index l j)"

definition kset_end :: "int \<Rightarrow> int \<Rightarrow> bool \<Rightarrow> ('s, 'c) kvconfig \<Rightarrow> ('s, 'c) kvconfig res" where
  "kset_end i j b cfg = bind_res (kend_at i j cfg) (\<lambda>endname. Inr (cfg\<lparr>knet := Enable endname b (knet cfg)\<rparr>))"

definition connectUnlocked :: "int \<Rightarrow> int list \<Rightarrow> ('s, 'c) kvconfig \<Rightarrow> ('s, 'c) kvconfig res" where
  "connectUnlocked i tos cfg =
     bind_res (fold_res (\<lambda>t c. kset_end i t True c) tos cfg) (fold_res (\<lambda>t c. kset_end t i True c) tos)"

text \<open>The second loop tests \<open>cfg.endnames[j]\<close>, where \<open>j\<close> is a position in \<open>from\<close>.\<close>

definition disconnectUnlocked :: "int \<Rightarrow> int list \<Rightarrow> ('s, 'c) kvconfig \<Rightarrow> ('s, 'c) kvconfig res" where
  "disconnectUnlocked i froms cfg =
     bind_res (fold_res (\<lambda>f c. bind_res (go_index (kendnames c) i) (\<lambda>es. if es \<noteq> None then kset_end i f False c else Inr c)) froms cfg)
       (fold_res (\<lambda>(j, f) c. bind_res (go_index (kendnames c) j) (\<lambda>es. if es \<noteq> None then kset_end f i False c else Inr c))
          (zip (map int [0..<length froms]) froms))"

definition kconnect :: "int \<Rightarrow> int list \<Rightarrow> ('s, 'c) kvconfig \<Rightarrow> ('s, 'c) kvconfig res" where
  "kconnect i tos cfg = connectUnlocked i tos cfg"

definition kdisconnect :: "int \<Rightarrow> int list \<Rightarrow> ('s, 'c) kvconfig \<Rightarrow> ('s, 'c) kvconfig res" where
  "kdisconnect i froms cfg = disconnectUnlocked i froms cfg"

definition All_servers :: "('s, 'c) kvconfig \<Rightarrow> int list" where
  "All_servers cfg = map int [0..<kn cfg]"

definition ConnectAll :: "('s, 'c) kvconfig \<Rightarrow> ('s, 'c) kvconfig res" where
  "ConnectAll cfg = fold_res (\<lambda>i c. connectUnlocked i (All_servers c) c) (map int [0..<kn cfg]) cfg"

definition partition_net :: "int list \<Rightarrow> int list \<Rightarrow> ('s, 'c) kvconfig \<Rightarrow> ('s, 'c) kvconfig res" where
  "partition_net p1 p2 cfg =
     bind_res (fold_res (\<lambda>i c. bind_res (disconnectUnlocked i p2 c) (connectUnlocked i p1)) p1 cfg)
       (fold_res (\<lambda>i c. bind_res (disconnectUnlocked i p1 c) (connectUnlocked i p2)) p2)"

subsection \<open>Clerks\<close>

definition ConnectClientUnlocked :: "nat \<Rightarrow> int list \<Rightarrow> ('s, 'c) kvconfig \<Rightarrow> ('s, 'c) kvconfig res" where
  "ConnectClientUnlocked ck tos cfg =
     (let names = (case clerks cfg ck of None \<Rightarrow> [] | Some l \<Rightarrow> l) in
      fold_res (\<lambda>t c. bind_res (go_index names t) (\<lambda>s. Inr (c\<lparr>knet := Enable s True (knet c)\<rparr>))) tos cfg)"

definition DisconnectClientUnlocked :: "nat \<Rightarrow> int list \<Rightarrow> ('s, 'c) kvconfig \<Rightarrow> ('s, 'c) kvconfig res" where
  "DisconnectClientUnlocked ck froms cfg =
     (let names = (case clerks cfg ck of None \<Rightarrow> [] | Some l \<Rightarrow> l) in
      fold_res (\<lambda>f c. bind_res (go_index names f) (\<lambda>s. Inr (c\<lparr>knet := Enable s False (knet c)\<rparr>))) froms cfg)"

definition ConnectClient :: "nat \<Rightarrow> int list \<Rightarrow> ('s, 'c) kvconfig \<Rightarrow> ('s, 'c) kvconfig res" where
  "ConnectClient ck tos cfg = ConnectClientUnlocked ck tos cfg"

definition DisconnectClient :: "nat \<Rightarrow> int list \<Rightarrow> ('s, 'c) kvconfig \<Rightarrow> ('s, 'c) kvconfig res" where
  "DisconnectClient ck froms cfg = DisconnectClientUnlocked ck froms cfg"

text \<open>The new clerk is the pointer \<open>ck\<close>; \<open>MakeClerk\<close> is that of the service's client.\<close>

definition makeClient :: "(string list \<Rightarrow> 'k) \<Rightarrow> (nat \<Rightarrow> string) \<Rightarrow> (nat \<Rightarrow> nat) \<Rightarrow> nat \<Rightarrow> int list \<Rightarrow> ('s, 'c) kvconfig \<Rightarrow> ('k \<times> ('s, 'c) kvconfig) res" where
  "makeClient MakeClerk randstring rs ck tos cfg =
     (let names = map randstring [0..<kn cfg] in
      bind_res (new_ends names (knet cfg)) (\<lambda>rn.
      let clerk = MakeClerk (random_handles rs names) in
      bind_res (ConnectClientUnlocked ck tos (cfg\<lparr>knet := rn, clerks := (clerks cfg)(ck \<mapsto> names), nextClientId := nextClientId cfg + 1\<rparr>)) (\<lambda>cfg1.
        Inr (clerk, cfg1))))"

text \<open>The calls of \<open>os.Remove\<close> on the names of the ends are left out: they name no part of the state, only files.\<close>

definition deleteClient :: "nat \<Rightarrow> ('s, 'c) kvconfig \<Rightarrow> ('s, 'c) kvconfig" where
  "deleteClient ck cfg = cfg\<lparr>clerks := (clerks cfg)(ck := None)\<rparr>"

subsection \<open>Servers\<close>

text \<open>What \<open>cfg.saved[i]\<close> holds at the moment: the persister of the peer that runs with it.\<close>

definition ksaved_now :: "('s, 'c) service \<Rightarrow> int \<Rightarrow> ('s, 'c) kvconfig \<Rightarrow> 'c gob_item Persister option res" where
  "ksaved_now sv i cfg =
     bind_res (go_index (kvservers cfg) i) (\<lambda>s.
     bind_res (go_index (ksaved cfg) i) (\<lambda>ps.
       Inr (case (s, ps) of (Some s1, Some _) \<Rightarrow> Some (persister (srv_rf sv s1)) | _ \<Rightarrow> ps)))"

definition ShutdownServer :: "('s, 'c) service \<Rightarrow> int \<Rightarrow> ('s, 'c) kvconfig \<Rightarrow> ('s, 'c) kvconfig res" where
  "ShutdownServer sv i cfg =
     bind_res (disconnectUnlocked i (All_servers cfg) cfg) (\<lambda>cfg0.
     let cfg1 = cfg0\<lparr>knet := DeleteServer i (knet cfg0)\<rparr> in
     bind_res (ksaved_now sv i cfg1) (\<lambda>ps.
     bind_res (go_update (ksaved cfg1) i (map_option Copy ps)) (\<lambda>svd.
     bind_res (go_update (kvservers cfg1) i None) (\<lambda>ss.
       Inr (cfg1\<lparr>ksaved := svd, kvservers := ss\<rparr>)))))"

text \<open>The server for the new instance: its own service and that of its Raft peer.\<close>

definition made_server :: "('s, 'c) service \<Rightarrow> nat \<Rightarrow> ('c svc_args, svc_reply, 's objects) Server" where
  "made_server sv p = two_services (srv_tname sv) (srv_methods sv p) (srv_rf sv) (srv_put_rf sv) p"

definition StartServer :: "('s, 'c) service \<Rightarrow> (nat \<Rightarrow> string) \<Rightarrow> int \<Rightarrow> int \<Rightarrow> int \<Rightarrow> ('s, 'c) kvconfig \<Rightarrow> ('s, 'c) kvconfig res" where
  "StartServer sv randstring now rnd i cfg =
     (let names = map randstring [0..<kn cfg] in
      bind_res (go_update (kendnames cfg) i (Some names)) (\<lambda>es.
      bind_res (new_ends names (knet cfg)) (\<lambda>rn.
      bind_res (ksaved_now sv i cfg) (\<lambda>ps0.
      let ps = (case ps0 of Some p \<Rightarrow> Copy p | None \<Rightarrow> MakePersister) in
      bind_res (go_update (ksaved cfg) i (Some ps)) (\<lambda>svd.
      bind_res (srv_start sv now rnd (kn cfg) i ps (maxraftstate cfg)) (\<lambda>s.
      bind_res (go_update (kvservers cfg) i (Some s)) (\<lambda>ss.
        let srv = made_server sv (knextsrv cfg) in
        Inr (cfg\<lparr>kendnames := es, ksaved := svd, kvservers := ss, knet := AddServer i (knextsrv cfg) rn, knextsrv := knextsrv cfg + 1,
                 ksrvs := (ksrvs cfg)(knextsrv cfg := srv)\<rparr>))))))))"

text \<open>\<open>obs i\<close> says whether \<open>GetState\<close> reports server \<open>i\<close> as leader when it is called.\<close>

fun Leader_from :: "(int \<Rightarrow> bool) \<Rightarrow> int list \<Rightarrow> ('s, 'c) kvconfig \<Rightarrow> (bool \<times> int) res" where
  "Leader_from obs [] cfg = Inr (False, 0)"
| "Leader_from obs (i # is) cfg =
     bind_res (go_index (kvservers cfg) i) (\<lambda>s. case s of
        None \<Rightarrow> Inl NilDereference
      | Some _ \<Rightarrow> if obs i then Inr (True, i) else Leader_from obs is cfg)"

definition find_Leader :: "(int \<Rightarrow> bool) \<Rightarrow> ('s, 'c) kvconfig \<Rightarrow> (bool \<times> int) res" where
  "find_Leader obs cfg = Leader_from obs (map int [0..<kn cfg]) cfg"

definition fill_partition :: "int \<Rightarrow> int \<Rightarrow> int list \<times> int list \<times> int \<Rightarrow> (int list \<times> int list \<times> int) res" where
  "fill_partition l i st =
     (case st of (p1, p2, j) \<Rightarrow>
        if i \<noteq> l
        then (if j < go_len p1 then bind_res (go_update p1 j i) (\<lambda>p1'. Inr (p1', p2, j + 1))
              else bind_res (go_update p2 (j - go_len p1) i) (\<lambda>p2'. Inr (p1, p2', j + 1)))
        else Inr st)"

definition make_partition :: "(int \<Rightarrow> bool) \<Rightarrow> ('s, 'c) kvconfig \<Rightarrow> (int list \<times> int list) res" where
  "make_partition obs cfg =
     bind_res (find_Leader obs cfg) (\<lambda>(_, l).
     bind_res (fold_res (fill_partition l) (map int [0..<kn cfg]) (replicate (kn cfg div 2 + 1) 0, replicate (kn cfg div 2) 0, 0)) (\<lambda>(p1, p2, _).
     bind_res (go_update p2 (go_len p2 - 1) l) (\<lambda>p2'. Inr (p1, p2'))))"

definition kmake_config :: "('s, 'c) service \<Rightarrow> int \<Rightarrow> (nat \<Rightarrow> nat \<Rightarrow> string) \<Rightarrow> (nat \<Rightarrow> int) \<Rightarrow> (nat \<Rightarrow> int) \<Rightarrow> nat \<Rightarrow> bool \<Rightarrow> int \<Rightarrow> ('s, 'c) kvconfig res" where
  "kmake_config sv now0 randstring now rnd n unreliable maxr =
     (let cfg0 = \<lparr>knet = MakeNetwork, kn = n, kvservers = replicate n None, ksaved = replicate n None, kendnames = replicate n None,
                  clerks = (\<lambda>_. None), nextClientId = int n + 1000, maxraftstate = maxr, kstart = now0, kt0 = 0, krpcs0 = 0, kops = 0, knextsrv = 0, ksrvs = (\<lambda>_. MakeServer)\<rparr>
      in bind_res (fold_res (\<lambda>i c. StartServer sv (randstring i) (now i) (rnd i) (int i) c) [0..<n] cfg0) (\<lambda>cfg1.
         bind_res (ConnectAll cfg1) (\<lambda>cfg2. Inr (cfg2\<lparr>knet := Reliable (\<not> unreliable) (knet cfg2)\<rparr>))))"

subsection \<open>Sizes and statistics\<close>

definition max_size :: "('s, 'c) service \<Rightarrow> ('c gob_item Persister \<Rightarrow> int) \<Rightarrow> ('s, 'c) kvconfig \<Rightarrow> int res" where
  "max_size sv sz cfg =
     fold_res (\<lambda>i m. bind_res (ksaved_now sv i cfg) (\<lambda>ps. case ps of
        None \<Rightarrow> Inl NilDereference
      | Some p \<Rightarrow> Inr (let n = sz p in if n > m then n else m))) (map int [0..<kn cfg]) 0"

text \<open>A persister holds a list of encoded values; \<open>bytes\<close> says how long their encoding is.\<close>

definition state_bytes :: "('b list \<Rightarrow> int) \<Rightarrow> 'b Persister \<Rightarrow> int" where
  "state_bytes bytes ps = (case ReadRaftState ps of None \<Rightarrow> 0 | Some b \<Rightarrow> bytes b)"

definition snapshot_bytes :: "('b list \<Rightarrow> int) \<Rightarrow> 'b Persister \<Rightarrow> int" where
  "snapshot_bytes bytes ps = (case ReadSnapshot ps of None \<Rightarrow> 0 | Some b \<Rightarrow> bytes b)"

definition LogSize :: "('c gob_item list \<Rightarrow> int) \<Rightarrow> ('s, 'c) service \<Rightarrow> ('s, 'c) kvconfig \<Rightarrow> int res" where
  "LogSize bytes sv cfg = max_size sv (state_bytes bytes) cfg"

definition all_SnapshotSize :: "('c gob_item list \<Rightarrow> int) \<Rightarrow> ('s, 'c) service \<Rightarrow> ('s, 'c) kvconfig \<Rightarrow> int res" where
  "all_SnapshotSize bytes sv cfg = max_size sv (snapshot_bytes bytes) cfg"

definition kcheckTimeout :: "int \<Rightarrow> bool \<Rightarrow> ('s, 'c) kvconfig \<Rightarrow> unit res" where
  "kcheckTimeout now failed cfg =
     (if \<not> failed \<and> now - kstart cfg > 120 * 1000 * Millisecond then Inl (LogFatal ''test took longer than 120 seconds'') else Inr ())"

definition kcleanup :: "('s, 'c) service \<Rightarrow> int \<Rightarrow> bool \<Rightarrow> ('s, 'c) kvconfig \<Rightarrow> ('s, 'c) kvconfig res" where
  "kcleanup sv now failed cfg =
     (let cfg1 = cfg\<lparr>kvservers := map (map_option (srv_kill sv)) (kvservers cfg)\<rparr> in
      bind_res (Cleanup (knet cfg1)) (\<lambda>rn. bind_res (kcheckTimeout now failed cfg1) (\<lambda>_. Inr (cfg1\<lparr>knet := rn\<rparr>))))"

definition krpcTotal :: "('s, 'c) kvconfig \<Rightarrow> int" where
  "krpcTotal cfg = GetTotalCount (knet cfg)"

definition kbegin :: "int \<Rightarrow> ('s, 'c) kvconfig \<Rightarrow> ('s, 'c) kvconfig" where
  "kbegin now cfg = cfg\<lparr>kt0 := now, krpcs0 := krpcTotal cfg, kops := 0\<rparr>"

definition kop :: "('s, 'c) kvconfig \<Rightarrow> ('s, 'c) kvconfig" where
  "kop cfg = cfg\<lparr>kops := kops cfg + 1\<rparr>"

definition kend :: "int \<Rightarrow> bool \<Rightarrow> ('s, 'c) kvconfig \<Rightarrow> (int \<times> nat \<times> int \<times> int) option res" where
  "kend now failed cfg =
     bind_res (kcheckTimeout now failed cfg) (\<lambda>_.
       Inr (if failed = False then Some (now - kt0 cfg, kn cfg, krpcTotal cfg - krpcs0 cfg, sint (kops cfg)) else None))"

end
