(* ===== verification/Harness_Kv_Net.thy ===== *)
theory Harness_Kv_Net
  imports Harness_Kv
begin

section \<open>Who can talk to whom in the harnesses of the services\<close>

text \<open>
  The ends of the servers as a matrix of links, the operations of the harness as operations on the
  matrix, and what is true of the ends in every run of a harness.
\<close>

subsection \<open>The matrix of links\<close>

definition kname :: "('s, 'c) kvconfig \<Rightarrow> nat \<Rightarrow> nat \<Rightarrow> string" where
  "kname cfg i j = the (kendnames cfg ! i) ! j"

definition server_ends :: "('s, 'c) kvconfig \<Rightarrow> string set" where
  "server_ends cfg = {kname cfg i j |i j. i < kn cfg \<and> j < kn cfg}"

text \<open>Every server has its ends, all different, and each leads to its server.\<close>

definition knamed :: "('s, 'c) kvconfig \<Rightarrow> bool" where
  "knamed cfg \<longleftrightarrow>
     length (kendnames cfg) = kn cfg \<and> (\<forall>i < kn cfg. \<exists>l. kendnames cfg ! i = Some l \<and> length l = kn cfg) \<and>
     (\<forall>i < kn cfg. \<forall>j < kn cfg. \<forall>i' < kn cfg. \<forall>j' < kn cfg. kname cfg i j = kname cfg i' j' \<longrightarrow> i = i' \<and> j = j')"

definition links :: "('s, 'c) kvconfig \<Rightarrow> nat \<Rightarrow> nat \<Rightarrow> bool" where
  "links cfg i j \<longleftrightarrow> i < kn cfg \<and> j < kn cfg \<and> enabled (knet cfg) (kname cfg i j)"

definition m_set :: "bool \<Rightarrow> nat \<Rightarrow> nat set \<Rightarrow> (nat \<Rightarrow> nat \<Rightarrow> bool) \<Rightarrow> nat \<Rightarrow> nat \<Rightarrow> bool" where
  "m_set v i S m = (\<lambda>a b. if a = i \<and> b \<in> S \<or> b = i \<and> a \<in> S then v else m a b)"

text \<open>A change of the network that only switches ends of servers.\<close>

definition switched :: "('s, 'c) kvconfig \<Rightarrow> ('s, 'c) kvconfig \<Rightarrow> bool" where
  "switched cfg cfg' \<longleftrightarrow>
     (\<exists>en. cfg' = cfg\<lparr>knet := (knet cfg)\<lparr>enabled := en\<rparr>\<rparr> \<and> (\<forall>e. e \<notin> server_ends cfg \<longrightarrow> en e = enabled (knet cfg) e))"

lemma switched_simps:
  assumes "switched cfg cfg'"
  shows "kn cfg' = kn cfg" "kendnames cfg' = kendnames cfg" "kname cfg' = kname cfg" "server_ends cfg' = server_ends cfg"
    "kvservers cfg' = kvservers cfg" "ksaved cfg' = ksaved cfg" "clerks cfg' = clerks cfg" "maxraftstate cfg' = maxraftstate cfg"
    "ends (knet cfg') = ends (knet cfg)" "connections (knet cfg') = connections (knet cfg)" "servers (knet cfg') = servers (knet cfg)"
    "knamed cfg' = knamed cfg"
proof -
  obtain en where c: "cfg' = cfg\<lparr>knet := (knet cfg)\<lparr>enabled := en\<rparr>\<rparr>" using assms by (auto simp: switched_def)
  show k: "kn cfg' = kn cfg" "kendnames cfg' = kendnames cfg" "kvservers cfg' = kvservers cfg" "ksaved cfg' = ksaved cfg" "clerks cfg' = clerks cfg"
    "maxraftstate cfg' = maxraftstate cfg" "ends (knet cfg') = ends (knet cfg)" "connections (knet cfg') = connections (knet cfg)"
    "servers (knet cfg') = servers (knet cfg)" by (simp_all add: c)
  show n: "kname cfg' = kname cfg" by (simp add: fun_eq_iff kname_def k)
  show "server_ends cfg' = server_ends cfg" "knamed cfg' = knamed cfg" by (simp_all add: server_ends_def knamed_def n k)
qed

lemma switched_refl: "switched cfg cfg"
  unfolding switched_def by (rule exI [of _ "enabled (knet cfg)"]) simp

lemma switched_trans:
  assumes "switched a b" and "switched b c"
  shows "switched a c"
  using assms switched_simps(4) [OF assms(1)] unfolding switched_def by auto

lemma kset_end_ok:
  assumes nm: "knamed cfg" and i: "i < kn cfg" and j: "j < kn cfg"
  shows "\<exists>cfg'. kset_end (int i) (int j) v cfg = Inr cfg' \<and> switched cfg cfg' \<and>
    links cfg' = (\<lambda>a b. if a = i \<and> b = j then v else links cfg a b)"
proof -
  let ?c = "cfg\<lparr>knet := Enable (kname cfg i j) v (knet cfg)\<rparr>"
  obtain l where l: "kendnames cfg ! i = Some l" "length l = kn cfg" "length (kendnames cfg) = kn cfg" using nm i by (auto simp: knamed_def)
  have "kset_end (int i) (int j) v cfg = Inr ?c" using i j l by (simp add: kset_end_def kend_at_def kname_def)
  moreover have "switched cfg ?c"
    unfolding switched_def Enable_def using i j by (intro exI [of _ "(enabled (knet cfg))(kname cfg i j := v)"]) (auto simp: server_ends_def)
  moreover have "kname cfg a b = kname cfg i j \<longleftrightarrow> a = i \<and> b = j" if "a < kn cfg" "b < kn cfg" for a b
    using nm that i j unfolding knamed_def by blast
  then have "links ?c = (\<lambda>a b. if a = i \<and> b = j then v else links cfg a b)"
    using i j by (auto simp: fun_eq_iff links_def Enable_def kname_def)
  ultimately show ?thesis by blast
qed

text \<open>A loop that switches one end in each iteration.\<close>

lemma switch_loop:
  assumes nm: "knamed cfg"
    and body: "\<And>x c. x \<in> set xs \<Longrightarrow> switched cfg c \<Longrightarrow> f x c = kset_end (int (p x)) (int (q x)) v c"
    and rng: "\<And>x. x \<in> set xs \<Longrightarrow> p x < kn cfg \<and> q x < kn cfg"
  shows "\<exists>c'. fold_res f xs cfg = Inr c' \<and> switched cfg c' \<and> links c' = (\<lambda>a b. if \<exists>x \<in> set xs. a = p x \<and> b = q x then v else links cfg a b)"
  using body rng
proof (induction xs rule: rev_induct)
  case Nil
  then show ?case using switched_refl by auto
next
  case (snoc x xs)
  obtain c where c: "fold_res f xs cfg = Inr c" "switched cfg c" "links c = (\<lambda>a b. if \<exists>x \<in> set xs. a = p x \<and> b = q x then v else links cfg a b)"
    using snoc.IH snoc.prems by auto
  note s = switched_simps [OF c(2)]
  have "knamed c" "p x < kn c" "q x < kn c" using nm snoc.prems(2) [of x] s by auto
  from kset_end_ok [OF this, of v] obtain c' where c': "kset_end (int (p x)) (int (q x)) v c = Inr c'" "switched c c'"
    "links c' = (\<lambda>a b. if a = p x \<and> b = q x then v else links c a b)" by blast
  have "fold_res f (xs @ [x]) cfg = Inr c'" using c(1) c'(1) snoc.prems(1) [of x c] c(2) by (simp add: fold_res_snoc)
  moreover have "links c' = (\<lambda>a b. if \<exists>y \<in> set (xs @ [x]). a = p y \<and> b = q y then v else links cfg a b)"
    unfolding c'(3) c(3) by (auto simp: fun_eq_iff)
  ultimately show ?case using switched_trans [OF c(2) c'(2)] by blast
qed

lemma connectUnlocked_links:
  assumes nm: "knamed cfg" and i: "i < kn cfg" and ts: "\<And>t. t \<in> set ts \<Longrightarrow> t < kn cfg"
  shows "\<exists>cfg'. connectUnlocked (int i) (map int ts) cfg = Inr cfg' \<and> switched cfg cfg' \<and> links cfg' = m_set True i (set ts) (links cfg)"
proof -
  obtain c1 where c1: "fold_res (\<lambda>t c. kset_end (int i) t True c) (map int ts) cfg = Inr c1" "switched cfg c1"
    "links c1 = (\<lambda>a b. if \<exists>x \<in> set ts. a = i \<and> b = x then True else links cfg a b)"
    using switch_loop [OF nm, of ts "\<lambda>t c. kset_end (int i) (int t) True c" "\<lambda>_. i" "\<lambda>t. t" True] i ts unfolding fold_res_map by blast
  note s = switched_simps [OF c1(2)]
  obtain c2 where c2: "fold_res (\<lambda>t c. kset_end t (int i) True c) (map int ts) c1 = Inr c2" "switched c1 c2"
    "links c2 = (\<lambda>a b. if \<exists>x \<in> set ts. a = x \<and> b = i then True else links c1 a b)"
    using switch_loop [of c1 ts "\<lambda>t c. kset_end (int t) (int i) True c" "\<lambda>t. t" "\<lambda>_. i" True] nm i ts unfolding fold_res_map s(1,12) by blast
  have "links c2 = m_set True i (set ts) (links cfg)" unfolding c2(3) c1(3) m_set_def by (auto simp: fun_eq_iff)
  then show ?thesis using c1(1,2) c2(1,2) switched_trans [OF c1(2) c2(2)] by (simp add: connectUnlocked_def)
qed

lemma zip_positions: "zip (map int [0..<length ts]) (map int ts) = map (\<lambda>k. (int k, int (ts ! k))) [0..<length ts]"
  by (rule nth_equalityI) auto

lemma disconnectUnlocked_links:
  assumes nm: "knamed cfg" and i: "i < kn cfg" and ts: "\<And>t. t \<in> set ts \<Longrightarrow> t < kn cfg" and len: "length ts \<le> kn cfg"
  shows "\<exists>cfg'. disconnectUnlocked (int i) (map int ts) cfg = Inr cfg' \<and> switched cfg cfg' \<and> links cfg' = m_set False i (set ts) (links cfg)"
proof -
  have has: "go_index (kendnames c) (int k) = Inr (kendnames cfg ! k) \<and> kendnames cfg ! k \<noteq> None" if "switched cfg c" "k < kn cfg" for c k
    using nm that(2) switched_simps(2) [OF that(1)] by (auto simp: knamed_def)
  let ?out = "\<lambda>f c. bind_res (go_index (kendnames c) (int i)) (\<lambda>es. if es \<noteq> None then kset_end (int i) f False c else Inr c)"
  let ?inc = "\<lambda>(j, f) c. bind_res (go_index (kendnames c) j) (\<lambda>es. if es \<noteq> None then kset_end f (int i) False c else Inr c)"
  have "\<exists>c'. fold_res (\<lambda>t. ?out (int t)) ts cfg = Inr c' \<and> switched cfg c' \<and>
      links c' = (\<lambda>a b. if \<exists>x \<in> set ts. a = i \<and> b = x then False else links cfg a b)"
    by (rule switch_loop [OF nm]) (use has i ts in auto)
  then obtain c1 where c1: "fold_res ?out (map int ts) cfg = Inr c1" "switched cfg c1"
    "links c1 = (\<lambda>a b. if \<exists>x \<in> set ts. a = i \<and> b = x then False else links cfg a b)" unfolding fold_res_map by blast
  note s = switched_simps [OF c1(2)]
  have "\<exists>c'. fold_res (\<lambda>k. ?inc (int k, int (ts ! k))) [0..<length ts] c1 = Inr c' \<and> switched c1 c' \<and>
      links c' = (\<lambda>a b. if \<exists>k \<in> set [0..<length ts]. a = ts ! k \<and> b = i then False else links c1 a b)"
  proof (rule switch_loop)
    show "?inc (int k, int (ts ! k)) c = kset_end (int (ts ! k)) (int i) False c" if "k \<in> set [0..<length ts]" "switched c1 c" for k c
      using has [OF switched_trans [OF c1(2) that(2)], of k] that(1) len by auto
  qed (use nm s i ts in auto)
  then obtain c2 where c2: "fold_res ?inc (zip (map int [0..<length ts]) (map int ts)) c1 = Inr c2" "switched c1 c2"
    "links c2 = (\<lambda>a b. if \<exists>k \<in> set [0..<length ts]. a = ts ! k \<and> b = i then False else links c1 a b)"
    unfolding zip_positions fold_res_map by blast
  have "(\<exists>k \<in> set [0..<length ts]. a = ts ! k \<and> b = i) \<longleftrightarrow> a \<in> set ts \<and> b = i" for a b by (auto simp: in_set_conv_nth)
  then have "links c2 = m_set False i (set ts) (links cfg)" unfolding c2(3) c1(3) m_set_def by (auto simp: fun_eq_iff)
  then show ?thesis using c1(1,2) c2(1,2) switched_trans [OF c1(2) c2(2)] by (simp add: disconnectUnlocked_def)
qed

subsection \<open>Partitions\<close>

definition m_part :: "nat set \<Rightarrow> nat set \<Rightarrow> nat set \<Rightarrow> (nat \<Rightarrow> nat \<Rightarrow> bool) \<Rightarrow> nat \<Rightarrow> nat \<Rightarrow> bool" where
  "m_part X U V m = (\<lambda>a b. if a \<in> X \<and> b \<in> U \<or> b \<in> X \<and> a \<in> U then True else if a \<in> X \<and> b \<in> V \<or> b \<in> X \<and> a \<in> V then False else m a b)"

lemma m_part_step:
  assumes "x \<in> U" and "U \<inter> V = {}" and "X \<subseteq> U"
  shows "m_set True x U (m_set False x V (m_part X U V m)) = m_part (insert x X) U V m"
proof (intro ext)
  fix a b
  show "m_set True x U (m_set False x V (m_part X U V m)) a b = m_part (insert x X) U V m a b"
    using assms by (cases "a = x"; cases "b = x"; cases "a \<in> U"; cases "b \<in> U") (auto simp: m_set_def m_part_def)
qed

lemma part_loop:
  assumes nm: "knamed cfg" and us: "\<And>u. u \<in> set us \<Longrightarrow> u < kn cfg" and vs: "\<And>u. u \<in> set vs \<Longrightarrow> u < kn cfg" and len: "length vs \<le> kn cfg"
    and disj: "set us \<inter> set vs = {}" and xs: "set xs \<subseteq> set us"
  shows "\<exists>c'. fold_res (\<lambda>i c. bind_res (disconnectUnlocked i (map int vs) c) (connectUnlocked i (map int us))) (map int xs) cfg = Inr c' \<and>
    switched cfg c' \<and> links c' = m_part (set xs) (set us) (set vs) (links cfg)"
  using xs
proof (induction xs rule: rev_induct)
  case Nil
  then show ?case using switched_refl by (auto simp: m_part_def)
next
  case (snoc x xs)
  let ?body = "\<lambda>i c. bind_res (disconnectUnlocked i (map int vs) c) (connectUnlocked i (map int us))"
  obtain c where c: "fold_res ?body (map int xs) cfg = Inr c" "switched cfg c" "links c = m_part (set xs) (set us) (set vs) (links cfg)"
    using snoc by auto
  note s = switched_simps [OF c(2)]
  have x: "x \<in> set us" "x < kn cfg" using snoc.prems us by auto
  obtain d where d: "disconnectUnlocked (int x) (map int vs) c = Inr d" "switched c d" "links d = m_set False x (set vs) (links c)"
    using disconnectUnlocked_links [of c x vs] nm x vs len unfolding s(1,12) by blast
  note t = switched_simps [OF d(2)]
  obtain e where e: "connectUnlocked (int x) (map int us) d = Inr e" "switched d e" "links e = m_set True x (set us) (links d)"
    using connectUnlocked_links [of d x us] nm x us unfolding t(1,12) s(1,12) by blast
  have "links e = m_part (set (xs @ [x])) (set us) (set vs) (links cfg)"
    using m_part_step [OF x(1) disj, of "set xs" "links cfg"] snoc.prems unfolding e(3) d(3) c(3) by simp
  moreover have "switched cfg e" using switched_trans c(2) d(2) e(2) by blast
  ultimately show ?case using c(1) d(1) e(1) by (simp add: fold_res_snoc)
qed

lemma partition_links:
  assumes nm: "knamed cfg" and "set p1 \<union> set p2 \<subseteq> {..<kn cfg}" and "distinct p1" and "distinct p2" and disj: "set p1 \<inter> set p2 = {}"
  shows "\<exists>cfg'. partition_net (map int p1) (map int p2) cfg = Inr cfg' \<and> switched cfg cfg' \<and>
    links cfg' = (\<lambda>a b. if a \<in> set p1 \<union> set p2 \<and> b \<in> set p1 \<union> set p2 then (a \<in> set p1 \<longleftrightarrow> b \<in> set p1) else links cfg a b)"
proof -
  have len: "length p \<le> kn cfg" if "distinct p" "set p \<subseteq> {..<kn cfg}" for p
    using card_mono [OF _ that(2)] distinct_card [OF that(1)] by simp
  have r: "u < kn cfg" if "u \<in> set p1 \<or> u \<in> set p2" for u using assms(2) that by auto
  obtain c where c: "fold_res (\<lambda>i c. bind_res (disconnectUnlocked i (map int p2) c) (connectUnlocked i (map int p1))) (map int p1) cfg = Inr c"
    "switched cfg c" "links c = m_part (set p1) (set p1) (set p2) (links cfg)"
    using part_loop [OF nm, of p1 p2 p1] r len [of p2] assms(2,4) disj by auto
  note s = switched_simps [OF c(2)]
  have disj': "set p2 \<inter> set p1 = {}" using disj by blast
  obtain d where d: "fold_res (\<lambda>i c. bind_res (disconnectUnlocked i (map int p1) c) (connectUnlocked i (map int p2))) (map int p2) c = Inr d"
    "switched c d" "links d = m_part (set p2) (set p2) (set p1) (links c)"
    using part_loop [of c p2 p1 p2] nm r len [of p1] assms(2,3) disj' unfolding s(1,12) by auto
  have "links d a b = (if a \<in> set p1 \<union> set p2 \<and> b \<in> set p1 \<union> set p2 then (a \<in> set p1 \<longleftrightarrow> b \<in> set p1) else links cfg a b)" for a b
    using disj unfolding d(3) c(3) by (cases "a \<in> set p1"; cases "b \<in> set p1"; cases "a \<in> set p2"; cases "b \<in> set p2") (auto simp: m_part_def)
  then have l: "links d = (\<lambda>a b. if a \<in> set p1 \<union> set p2 \<and> b \<in> set p1 \<union> set p2 then (a \<in> set p1 \<longleftrightarrow> b \<in> set p1) else links cfg a b)" by (intro ext)
  have "partition_net (map int p1) (map int p2) cfg = Inr d" using c(1) d(1) by (simp add: partition_net_def)
  then show ?thesis using l switched_trans [OF c(2) d(2)] by blast
qed

lemma ConnectAll_links:
  assumes nm: "knamed cfg"
  shows "\<exists>cfg'. ConnectAll cfg = Inr cfg' \<and> switched cfg cfg' \<and> links cfg' = (\<lambda>a b. a < kn cfg \<and> b < kn cfg)"
proof -
  let ?n = "kn cfg"
  have "\<exists>c. fold_res (\<lambda>i c. connectUnlocked i (All_servers c) c) (map int [0..<k]) cfg = Inr c \<and> switched cfg c \<and>
      links c = (\<lambda>a b. a < ?n \<and> b < ?n \<and> (a < k \<or> b < k) \<or> links cfg a b)" if "k \<le> ?n" for k
    using that
  proof (induction k)
    case 0
    then show ?case using switched_refl by auto
  next
    case (Suc k)
    then obtain c where c: "fold_res (\<lambda>i c. connectUnlocked i (All_servers c) c) (map int [0..<k]) cfg = Inr c" "switched cfg c"
      "links c = (\<lambda>a b. a < ?n \<and> b < ?n \<and> (a < k \<or> b < k) \<or> links cfg a b)" by auto
    note s = switched_simps [OF c(2)]
    obtain d where d: "connectUnlocked (int k) (map int [0..<?n]) c = Inr d" "switched c d" "links d = m_set True k (set [0..<?n]) (links c)"
      using connectUnlocked_links [of c k "[0..<?n]"] nm Suc.prems unfolding s(1,12) by auto
    have "links d = (\<lambda>a b. a < ?n \<and> b < ?n \<and> (a < Suc k \<or> b < Suc k) \<or> links cfg a b)"
      using Suc.prems unfolding d(3) c(3) by (auto simp: fun_eq_iff m_set_def less_Suc_eq)
    then show ?case using c(1) d(1) switched_trans [OF c(2) d(2)] by (simp add: fold_res_snoc All_servers_def s(1))
  qed
  from this [OF order.refl] show ?thesis by (auto simp: ConnectAll_def fun_eq_iff links_def)
qed

subsection \<open>The groups of a partition\<close>

lemma Leader_from_found:
  assumes "\<And>i. i \<in> set is \<Longrightarrow> i < length (kvservers cfg) \<and> kvservers cfg ! i \<noteq> None"
  shows "Leader_from obs (map int is) cfg =
    Inr (case find (\<lambda>i. obs (int i)) is of None \<Rightarrow> (False, 0) | Some i \<Rightarrow> (True, int i))"
  using assms
proof (induction "is")
  case (Cons a "is")
  then obtain s where "a < length (kvservers cfg)" "kvservers cfg ! a = Some s" by auto
  then show ?case using Cons by simp
qed simp

lemma update_next: "m = length fs \<Longrightarrow> m < length v \<Longrightarrow> (fs @ drop m v)[m := x] = fs @ [x] @ drop (Suc m) v"
  by (simp add: list_update_append Cons_nth_drop_Suc [symmetric])

lemma fill_loop:
  assumes "length (filter (\<lambda>x. x \<noteq> l) xs) \<le> length p1 + length p2"
  shows "fold_res (fill_partition l) xs (p1, p2, 0) =
    (let fs = filter (\<lambda>x. x \<noteq> l) xs; q = fs @ drop (length fs) (p1 @ p2)
     in Inr (take (length p1) q, drop (length p1) q, int (length fs)))"
  using assms
proof (induction xs rule: rev_induct)
  case (snoc x xs)
  let ?fs = "filter (\<lambda>x. x \<noteq> l) xs"
  let ?m = "length ?fs"
  let ?q = "?fs @ drop ?m (p1 @ p2)"
  have IH: "fold_res (fill_partition l) xs (p1, p2, 0) = Inr (take (length p1) ?q, drop (length p1) ?q, int ?m)"
    using snoc by (simp add: Let_def split: if_splits)
  show ?case
  proof (cases "x = l")
    case True
    then have "fill_partition l x st = Inr st" for st by (cases st) (simp add: fill_partition_def)
    then show ?thesis using IH True by (simp add: fold_res_snoc Let_def)
  next
    case False
    then have m: "?m < length (p1 @ p2)" using snoc.prems by simp
    then have len: "length ?q = length p1 + length p2" by simp
    have q': "?q[?m := x] = ?fs @ [x] @ drop (Suc ?m) (p1 @ p2)" by (rule update_next [OF refl m])
    have "fill_partition l x (take (length p1) ?q, drop (length p1) ?q, int ?m) =
        Inr (take (length p1) (?q[?m := x]), drop (length p1) (?q[?m := x]), int ?m + 1)"
    proof (cases "?m < length p1")
      case True
      then show ?thesis using False len
        by (simp add: fill_partition_def go_update_def go_len_def take_update_swap drop_update_cancel)
    next
      case ge: False
      then have "nat (int ?m - int (length p1)) = ?m - length p1" by simp
      then show ?thesis using False ge len m
        by (simp add: fill_partition_def go_update_def go_len_def drop_update_swap take_update_cancel)
    qed
    moreover have "filter (\<lambda>x. x \<noteq> l) (xs @ [x]) = ?fs @ [x]" "int (length (?fs @ [x])) = int ?m + 1" "length (?fs @ [x]) = Suc ?m"
      using False by simp_all
    ultimately show ?thesis unfolding fold_res_snoc IH bind_res_Inr Let_def q' by (simp only: append_assoc)
  qed
qed simp

text \<open>The leader that \<open>Leader\<close> finds, or server 0 if it finds none.\<close>

definition leader_or_0 :: "(int \<Rightarrow> bool) \<Rightarrow> nat \<Rightarrow> nat" where
  "leader_or_0 obs n = (case find (\<lambda>i. obs (int i)) [0..<n] of None \<Rightarrow> 0 | Some i \<Rightarrow> i)"

lemma leader_or_0_leads:
  assumes "i < n" and "obs (int i)"
  shows "leader_or_0 obs n < n \<and> obs (int (leader_or_0 obs n))"
proof (cases "find (\<lambda>i. obs (int i)) [0..<n]")
  case None
  then show ?thesis using assms by (auto simp: find_None_iff)
next
  case (Some k)
  then have "leader_or_0 obs n = k" by (simp add: leader_or_0_def)
  then show ?thesis using Some by (auto simp: find_Some_iff)
qed

lemma leader_or_0_less: "0 < n \<Longrightarrow> leader_or_0 obs n < n"
  by (auto simp: leader_or_0_def find_Some_iff split: option.splits)

definition running_all :: "('s, 'c) kvconfig \<Rightarrow> bool" where
  "running_all cfg \<longleftrightarrow> length (kvservers cfg) = kn cfg \<and> (\<forall>i < kn cfg. kvservers cfg ! i \<noteq> None)"

lemma find_Leader_all:
  assumes "running_all cfg"
  shows "\<exists>b. find_Leader obs cfg = Inr (b, int (leader_or_0 obs (kn cfg)))"
  using Leader_from_found [of "[0..<kn cfg]" cfg obs] assms
  by (auto simp: find_Leader_def leader_or_0_def running_all_def split: option.splits)

lemma filter_neq_length: "distinct xs \<Longrightarrow> l \<in> set xs \<Longrightarrow> length (filter (\<lambda>x. x \<noteq> l) xs) = length xs - 1"
proof (induction xs)
  case (Cons a xs)
  show ?case
  proof (cases "a = l")
    case True
    then have "filter (\<lambda>x. x \<noteq> l) xs = xs" using Cons.prems by (intro filter_True) auto
    then show ?thesis using True by simp
  next
    case False
    then show ?thesis using Cons by (cases xs) auto
  qed
qed simp

definition others :: "nat \<Rightarrow> nat \<Rightarrow> nat list" where
  "others l n = filter (\<lambda>x. x \<noteq> l) [0..<n]"

lemma others_length: "l < n \<Longrightarrow> length (others l n) = n - 1"
  unfolding others_def by (subst filter_neq_length) auto

lemma make_partition_odd:
  assumes run: "running_all cfg" and n: "kn cfg = 2 * k + 1" and k: "0 < k"
  shows "make_partition obs cfg =
    (let l = leader_or_0 obs (kn cfg) in Inr (map int (take (k + 1) (others l (kn cfg))), map int (drop (k + 1) (others l (kn cfg)) @ [l])))"
proof -
  let ?n = "kn cfg" and ?l = "leader_or_0 obs (kn cfg)"
  obtain b where L: "find_Leader obs cfg = Inr (b, int ?l)" using find_Leader_all [OF run] by blast
  have l: "?l < ?n" using leader_or_0_less n by simp
  have fs: "filter (\<lambda>x. x \<noteq> int ?l) (map int [0..<?n]) = map int (others ?l ?n)"
    by (simp add: others_def filter_map comp_def)
  have len: "length (others ?l ?n) = 2 * k" using others_length [OF l] n by simp
  have dv: "?n div 2 = k" using n by simp
  have k0: "drop (2 * k) (0 # replicate k 0 @ replicate k 0) = [0 :: int]"
    using drop_replicate [of "2 * k" "Suc (k + k)" "0 :: int"] by (simp add: replicate_add)
  have loop: "fold_res (fill_partition (int ?l)) (map int [0..<?n]) (replicate (k + 1) 0, replicate k 0, 0) =
    Inr (map int (take (k + 1) (others ?l ?n)), map int (drop (k + 1) (others ?l ?n)) @ [0], 2 * int k)"
    using fill_loop [of "int ?l" "map int [0..<?n]" "replicate (k + 1) 0" "replicate k (0 :: int)"] k
    unfolding fs by (simp add: len Let_def take_map drop_map k0)
  have "go_update (map int (drop (k + 1) (others ?l ?n)) @ [0]) (go_len (map int (drop (k + 1) (others ?l ?n)) @ [0]) - 1) (int ?l) =
    Inr (map int (drop (k + 1) (others ?l ?n)) @ [int ?l])"
    by (simp add: go_update_def go_len_def list_update_append)
  then show ?thesis using L loop by (simp add: make_partition_def dv Let_def)
qed

lemma others_split:
  assumes "l < n" and "a \<le> n - 1"
  shows "length (take a (others l n)) = a" and "length (drop a (others l n) @ [l]) = n - a"
    and "distinct (take a (others l n))" and "distinct (drop a (others l n) @ [l])"
    and "set (take a (others l n)) \<inter> set (drop a (others l n) @ [l]) = {}"
    and "set (take a (others l n)) \<union> set (drop a (others l n) @ [l]) = {..<n}"
proof -
  note len = others_length [OF assms(1)]
  have o: "distinct (others l n)" "set (others l n) = {..<n} - {l}" by (auto simp: others_def)
  have s: "set (take a (others l n)) \<union> set (drop a (others l n)) = {..<n} - {l}"
    by (metis append_take_drop_id o(2) set_append)
  show "length (take a (others l n)) = a" "length (drop a (others l n) @ [l]) = n - a" using len assms by auto
  show "distinct (take a (others l n))" using o(1) by simp
  show "distinct (drop a (others l n) @ [l])" using o(1) s by auto
  show "set (take a (others l n)) \<inter> set (drop a (others l n) @ [l]) = {}"
    using s set_take_disj_set_drop_if_distinct [OF o(1) order.refl, of a] by auto
  show "set (take a (others l n)) \<union> set (drop a (others l n) @ [l]) = {..<n}" using s assms(1) by auto
qed

text \<open>With an odd number of servers a test splits them so that a majority goes on without the leader.\<close>

lemma leader_in_minority:
  assumes nm: "knamed cfg" and run: "running_all cfg" and n: "kn cfg = 2 * k + 1" and k: "0 < k"
  shows "\<exists>p1 p2 cfg'. make_partition obs cfg = Inr (map int p1, map int p2) \<and> length p1 = k + 1 \<and> length p2 = k \<and>
    set p1 \<union> set p2 = {..<kn cfg} \<and> set p1 \<inter> set p2 = {} \<and> leader_or_0 obs (kn cfg) \<in> set p2 \<and>
    partition_net (map int p1) (map int p2) cfg = Inr cfg' \<and> switched cfg cfg' \<and>
    links cfg' = (\<lambda>a b. a < kn cfg \<and> b < kn cfg \<and> (a \<in> set p1 \<longleftrightarrow> b \<in> set p1))"
proof -
  let ?l = "leader_or_0 obs (kn cfg)"
  define p1 p2 where "p1 = take (k + 1) (others ?l (kn cfg))" and "p2 = drop (k + 1) (others ?l (kn cfg)) @ [?l]"
  have l: "?l < kn cfg" using leader_or_0_less n by simp
  have kk: "k + 1 \<le> kn cfg - 1" using n k by simp
  note p = others_split [OF l kk, folded p1_def p2_def]
  obtain cfg' where c: "partition_net (map int p1) (map int p2) cfg = Inr cfg'" "switched cfg cfg'"
    "links cfg' = (\<lambda>a b. if a \<in> set p1 \<union> set p2 \<and> b \<in> set p1 \<union> set p2 then (a \<in> set p1 \<longleftrightarrow> b \<in> set p1) else links cfg a b)"
    using partition_links [OF nm _ p(3,4,5)] p(6) by blast
  have "links cfg' = (\<lambda>a b. a < kn cfg \<and> b < kn cfg \<and> (a \<in> set p1 \<longleftrightarrow> b \<in> set p1))"
    unfolding c(3) p(6) by (auto simp: fun_eq_iff links_def)
  moreover have "make_partition obs cfg = Inr (map int p1, map int p2)"
    using make_partition_odd [OF run n k, of obs] by (simp add: Let_def p1_def p2_def)
  moreover have "?l \<in> set p2" by (simp add: p2_def)
  moreover have "length p2 = k" using p(2) n by simp
  ultimately show ?thesis using c(1,2) p(1,5,6) by blast
qed

subsection \<open>The order in which a clerk uses its ends\<close>

lemma random_handles_perm:
  assumes "\<And>i. i < length kvh \<Longrightarrow> rs i \<le> i"
  shows "mset (random_handles rs kvh) = mset kvh"
proof -
  have "mset (fold (\<lambda>i sa. let j = rs i in sa[i := sa ! j, j := sa ! i]) [0..<k] kvh) = mset kvh \<and>
      length (fold (\<lambda>i sa. let j = rs i in sa[i := sa ! j, j := sa ! i]) [0..<k] kvh) = length kvh" if "k \<le> length kvh" for k
    using that
  proof (induction k)
    case (Suc k)
    then show ?case using assms [of k] by (simp add: Let_def mset_swap)
  qed simp
  then show ?thesis by (simp add: random_handles_def)
qed

end
