(* ===== verification/Harness_Kv_Runs.thy ===== *)
theory Harness_Kv_Runs
  imports Harness_Kv_Net
begin

section \<open>Runs of the harnesses of the services\<close>

text \<open>
  What is true of the ends and the servers in every run of a harness, and what a restart of a server
  restores, for any service whose servers run a Raft peer (\<open>raft_backed\<close>).
\<close>

subsection \<open>The ends of servers and clerks\<close>

text \<open>Who owns ends: server \<open>Inl i\<close>, or the clerk \<open>Inr ck\<close>.\<close>

definition row :: "('s, 'c) kvconfig \<Rightarrow> nat + nat \<Rightarrow> string list option" where
  "row cfg w = (case w of Inl i \<Rightarrow> if i < length (kendnames cfg) then kendnames cfg ! i else None | Inr ck \<Rightarrow> clerks cfg ck)"

lemma row_cong: "kendnames cfg' = kendnames cfg \<Longrightarrow> clerks cfg' = clerks cfg \<Longrightarrow> row cfg' = row cfg"
  by (rule ext) (auto simp: row_def split: sum.splits)

text \<open>
  Each owner has one end per server, which leads to it, and no two owners share an end; a server is known
  to the network exactly while it runs.
\<close>

definition rows_ok :: "(string, int) Network \<Rightarrow> nat \<Rightarrow> (nat + nat \<Rightarrow> string list option) \<Rightarrow> bool" where
  "rows_ok rn n rw \<longleftrightarrow>
     (\<forall>w l. rw w = Some l \<longrightarrow> length l = n \<and> distinct l \<and> set l \<subseteq> ends rn \<and> (\<forall>j < n. connections rn (l ! j) = Some (int j))) \<and>
     (\<forall>w w' l l'. rw w = Some l \<longrightarrow> rw w' = Some l' \<longrightarrow> w \<noteq> w' \<longrightarrow> set l \<inter> set l' = {})"

lemma rows_okD:
  assumes "rows_ok rn n rw" and "rw w = Some l"
  shows "length l = n" "distinct l" "set l \<subseteq> ends rn" "j < n \<Longrightarrow> connections rn (l ! j) = Some (int j)"
    "rw w' = Some l' \<Longrightarrow> w \<noteq> w' \<Longrightarrow> set l \<inter> set l' = {}"
  using assms unfolding rows_ok_def by blast+

lemma rows_ok_new:
  assumes ok: "rows_ok rn n rw" and ne: "new_ends names rn = Inr rn'" and len: "length names = n"
  shows "rows_ok rn' n (rw(w \<mapsto> names))"
proof -
  note e = new_ends_ok [OF ne]
  have disj: "set names \<inter> ends rn = {}" and ends: "ends rn' = ends rn \<union> set names" using e by simp_all
  have con: "connections rn' x = connections rn x" if "x \<in> ends rn" for x using e disj that by (metis disjoint_iff)
  have old: "set l \<subseteq> ends rn" "length l = n" "distinct l" "\<forall>j < n. connections rn' (l ! j) = Some (int j)" if "rw u = Some l" for u l
    using rows_okD [OF ok that] con [OF subsetD [OF rows_okD(3) [OF ok that] nth_mem]] by auto
  have "length l = n \<and> distinct l \<and> set l \<subseteq> ends rn' \<and> (\<forall>j < n. connections rn' (l ! j) = Some (int j))" if "(rw(w \<mapsto> names)) u = Some l" for u l
    using that old [of u l] e len ends by (cases "u = w") auto
  moreover have "set l \<inter> set l' = {}" if "(rw(w \<mapsto> names)) u = Some l" "(rw(w \<mapsto> names)) u' = Some l'" "u \<noteq> u'" for u u' l l'
    using that old(1) [of u l] old(1) [of u' l'] rows_okD(5) [OF ok, of u l u' l'] disj
    by (cases "u = w"; cases "u' = w") (auto dest: subsetD)
  ultimately show ?thesis unfolding rows_ok_def by blast
qed

lemma rows_ok_less:
  assumes "rows_ok rn n rw" and "\<And>w l. rw' w = Some l \<Longrightarrow> rw w = Some l" and "ends rn' = ends rn" and "connections rn' = connections rn"
  shows "rows_ok rn' n rw'"
  using assms(1) unfolding rows_ok_def assms(3,4) by (meson assms(2))

definition kinv :: "('s, 'c) kvconfig \<Rightarrow> bool" where
  "kinv cfg \<longleftrightarrow>
     length (kendnames cfg) = kn cfg \<and> length (kvservers cfg) = kn cfg \<and> length (ksaved cfg) = kn cfg \<and>
     rows_ok (knet cfg) (kn cfg) (row cfg) \<and>
     (\<forall>i < kn cfg. (servers (knet cfg) (int i) = None \<longleftrightarrow> kvservers cfg ! i = None) \<and> (kvservers cfg ! i \<noteq> None \<longrightarrow> ksaved cfg ! i \<noteq> None))"

definition all_rows :: "('s, 'c) kvconfig \<Rightarrow> bool" where
  "all_rows cfg \<longleftrightarrow> (\<forall>i < kn cfg. kendnames cfg ! i \<noteq> None)"

lemma kinv_knamed:
  assumes inv: "kinv cfg" and all: "all_rows cfg"
  shows "knamed cfg"
proof -
  have len: "length (kendnames cfg) = kn cfg" and ok: "rows_ok (knet cfg) (kn cfg) (row cfg)" using inv by (simp_all add: kinv_def)
  have r: "\<exists>l. kendnames cfg ! i = Some l \<and> row cfg (Inl i) = Some l" if "i < kn cfg" for i
    using that all len by (auto simp: all_rows_def row_def)
  have "i = i' \<and> j = j'" if lt: "i < kn cfg" "j < kn cfg" "i' < kn cfg" "j' < kn cfg" and eq: "kname cfg i j = kname cfg i' j'" for i j i' j'
  proof -
    obtain l where l: "kendnames cfg ! i = Some l" "row cfg (Inl i) = Some l" using r lt by blast
    obtain l' where l': "kendnames cfg ! i' = Some l'" "row cfg (Inl i') = Some l'" using r lt by blast
    have e: "l ! j = l' ! j'" using eq l l' by (simp add: kname_def)
    have m: "l ! j \<in> set l" "l' ! j' \<in> set l'" using rows_okD(1) [OF ok l(2)] rows_okD(1) [OF ok l'(2)] lt by auto
    have "i = i'" using rows_okD(5) [OF ok l(2) l'(2)] m e by auto
    then show ?thesis using e l l' rows_okD(1,2) [OF ok l(2)] lt by (simp add: nth_eq_iff_index_eq)
  qed
  then show ?thesis using len r rows_okD(1) [OF ok] unfolding knamed_def by blast
qed

subsection \<open>Runs\<close>

definition toggled :: "('s, 'c) kvconfig \<Rightarrow> ('s, 'c) kvconfig \<Rightarrow> bool" where
  "toggled cfg cfg' \<longleftrightarrow> (\<exists>en. cfg' = cfg\<lparr>knet := (knet cfg)\<lparr>enabled := en\<rparr>\<rparr>)"

lemma toggled_refl: "toggled cfg cfg"
  unfolding toggled_def by (rule exI [of _ "enabled (knet cfg)"]) simp

lemma toggled_trans: "toggled a b \<Longrightarrow> toggled b c \<Longrightarrow> toggled a c"
  by (auto simp: toggled_def)

lemma toggled_Enable: "toggled c (c\<lparr>knet := Enable e b (knet c)\<rparr>)"
  unfolding toggled_def Enable_def by blast

lemma toggled_fold:
  assumes "fold_res f xs cfg = Inr cfg'" and "\<And>x c c'. f x c = Inr c' \<Longrightarrow> toggled c c'"
  shows "toggled cfg cfg'"
  using assms(1) by (rule fold_res_invariant [where P = "toggled cfg"]) (auto intro: toggled_refl toggled_trans assms(2))

lemma toggled_bind:
  assumes "bind_res m g = Inr c'" and "\<And>c1. m = Inr c1 \<Longrightarrow> toggled c c1" and "\<And>c1. g c1 = Inr c' \<Longrightarrow> toggled c1 c'"
  shows "toggled c c'"
  using assms by (auto simp: bind_res_eq_Inr intro: toggled_trans)

lemma toggled_kset_end: "kset_end i j b c = Inr c' \<Longrightarrow> toggled c c'"
  by (auto simp: kset_end_def bind_res_eq_Inr intro: toggled_Enable)

lemma toggled_connect: "connectUnlocked i tos c = Inr c' \<Longrightarrow> toggled c c'"
  unfolding connectUnlocked_def by (erule toggled_bind) (erule toggled_fold, erule toggled_kset_end)+

lemma toggled_disconnect:
  assumes "disconnectUnlocked i froms c = Inr c'"
  shows "toggled c c'"
proof -
  have step: "toggled c c'" if "bind_res (go_index (kendnames c) j) (\<lambda>es. if es \<noteq> None then kset_end a b False c else Inr c) = Inr c'"
    for j a b and c c' :: "('a, 'b) kvconfig"
    using that by (auto simp: bind_res_eq_Inr intro: toggled_refl toggled_kset_end split: if_splits)
  show ?thesis
    using assms unfolding disconnectUnlocked_def
    by (rule toggled_bind) (erule toggled_fold, rule step, simp add: split_beta)+
qed

lemma toggled_partition: "partition_net p1 p2 c = Inr c' \<Longrightarrow> toggled c c'"
  unfolding partition_net_def
  by (erule toggled_bind) (erule toggled_fold, erule toggled_bind, erule toggled_disconnect, erule toggled_connect)+

lemma toggled_ConnectAll: "ConnectAll c = Inr c' \<Longrightarrow> toggled c c'"
  unfolding ConnectAll_def by (erule toggled_fold) (rule toggled_connect)

lemma toggled_ConnectClient: "ConnectClientUnlocked ck tos c = Inr c' \<Longrightarrow> toggled c c'"
  unfolding ConnectClientUnlocked_def Let_def by (erule toggled_fold) (auto simp: bind_res_eq_Inr intro: toggled_Enable)

lemma toggled_DisconnectClient: "DisconnectClientUnlocked ck froms c = Inr c' \<Longrightarrow> toggled c c'"
  unfolding DisconnectClientUnlocked_def Let_def by (erule toggled_fold) (auto simp: bind_res_eq_Inr intro: toggled_Enable)

text \<open>
  What a test may do, in any order: a server handles something, the network carries requests, the test
  switches ends, makes and drops clerks, stops and starts servers.
\<close>

inductive kstep :: "('s, 'c) service \<Rightarrow> ('s, 'c) kvconfig \<Rightarrow> ('s, 'c) kvconfig \<Rightarrow> bool" for sv where
  server: "i < kn cfg \<Longrightarrow> kvservers cfg ! i = Some s \<Longrightarrow> kstep sv cfg (cfg\<lparr>kvservers := (kvservers cfg)[i := Some s']\<rparr>)"
| traffic: "kstep sv cfg (cfg\<lparr>knet := (knet cfg)\<lparr>net_count := n, net_bytes := b\<rparr>\<rparr>)"
| reliable: "kstep sv cfg (cfg\<lparr>knet := Reliable b (knet cfg)\<rparr>)"
| reordering: "kstep sv cfg (cfg\<lparr>knet := LongReordering b (knet cfg)\<rparr>)"
| connect: "connectUnlocked j tos cfg = Inr cfg' \<Longrightarrow> kstep sv cfg cfg'"
| disconnect: "disconnectUnlocked j tos cfg = Inr cfg' \<Longrightarrow> kstep sv cfg cfg'"
| connect_all: "ConnectAll cfg = Inr cfg' \<Longrightarrow> kstep sv cfg cfg'"
| partition: "partition_net p1 p2 cfg = Inr cfg' \<Longrightarrow> kstep sv cfg cfg'"
| client: "makeClient (\<lambda>hs. hs) randstring rs ck tos cfg = Inr (clerk, cfg') \<Longrightarrow> kstep sv cfg cfg'"
| delete_client: "kstep sv cfg (deleteClient ck cfg)"
| connect_client: "ConnectClientUnlocked ck tos cfg = Inr cfg' \<Longrightarrow> kstep sv cfg cfg'"
| disconnect_client: "DisconnectClientUnlocked ck tos cfg = Inr cfg' \<Longrightarrow> kstep sv cfg cfg'"
| shutdown: "ShutdownServer sv j cfg = Inr cfg' \<Longrightarrow> kstep sv cfg cfg'"
| start: "StartServer sv randstring now rnd j cfg = Inr cfg' \<Longrightarrow> kstep sv cfg cfg'"
| dispatched: "kstep sv cfg (cfg\<lparr>ksrvs := (ksrvs cfg)(p := (ksrvs cfg p)\<lparr>srv_count := srv_count (ksrvs cfg p) + 1\<rparr>)\<rparr>)"
| begin_test: "kstep sv cfg (kbegin now cfg)"
| count_op: "kstep sv cfg (kop cfg)"

inductive kreach :: "('s, 'c) service \<Rightarrow> ('s, 'c) kvconfig \<Rightarrow> ('s, 'c) kvconfig \<Rightarrow> bool" for sv cfg0 where
  here: "kreach sv cfg0 cfg0"
| step: "kreach sv cfg0 cfg \<Longrightarrow> kstep sv cfg cfg' \<Longrightarrow> kreach sv cfg0 cfg'"

lemma kinv_toggled:
  assumes "toggled cfg cfg'" and "kinv cfg"
  shows "kinv cfg' \<and> kn cfg' = kn cfg \<and> kendnames cfg' = kendnames cfg"
proof -
  obtain en where c: "cfg' = cfg\<lparr>knet := (knet cfg)\<lparr>enabled := en\<rparr>\<rparr>" using assms(1) by (auto simp: toggled_def)
  have "row cfg' = row cfg" by (rule row_cong) (simp_all add: c)
  then show ?thesis using assms(2) rows_ok_less [of "knet cfg" "kn cfg" "row cfg" "row cfg'" "knet cfg'"] by (simp add: c kinv_def)
qed

lemma makeClient_ok:
  assumes "makeClient mk randstring rs ck tos cfg = Inr (clerk, cfg')"
  obtains rn where "new_ends (map randstring [0..<kn cfg]) (knet cfg) = Inr rn"
    "ConnectClientUnlocked ck tos (cfg\<lparr>knet := rn, clerks := (clerks cfg)(ck \<mapsto> map randstring [0..<kn cfg]), nextClientId := nextClientId cfg + 1\<rparr>) = Inr cfg'"
    "clerk = mk (random_handles rs (map randstring [0..<kn cfg]))"
  using assms by (auto simp: makeClient_def Let_def bind_res_eq_Inr)

lemma kinv_makeClient:
  assumes "makeClient mk randstring rs ck tos cfg = Inr (clerk, cfg')" and inv: "kinv cfg"
  shows "kinv cfg' \<and> kn cfg' = kn cfg \<and> kendnames cfg' = kendnames cfg"
proof -
  obtain rn where rn: "new_ends (map randstring [0..<kn cfg]) (knet cfg) = Inr rn"
    and c: "ConnectClientUnlocked ck tos (cfg\<lparr>knet := rn, clerks := (clerks cfg)(ck \<mapsto> map randstring [0..<kn cfg]), nextClientId := nextClientId cfg + 1\<rparr>) = Inr cfg'"
    using makeClient_ok [OF assms(1)] by blast
  let ?c = "cfg\<lparr>knet := rn, clerks := (clerks cfg)(ck \<mapsto> map randstring [0..<kn cfg]), nextClientId := nextClientId cfg + 1\<rparr>"
  have "row ?c = (row cfg)(Inr ck \<mapsto> map randstring [0..<kn cfg])" by (auto simp: row_def fun_eq_iff split: sum.splits)
  then have "kinv ?c" using inv rows_ok_new [OF _ rn, of "kn cfg" "row cfg" "Inr ck"] new_ends_ok [OF rn] by (simp add: kinv_def)
  from kinv_toggled [OF toggled_ConnectClient [OF c] this] show ?thesis by simp
qed

lemma row_deleteClient: "row (deleteClient ck cfg) w = Some l \<Longrightarrow> row cfg w = Some l"
  by (auto simp: row_def deleteClient_def split: sum.splits if_splits)

lemma kinv_deleteClient: "kinv cfg \<Longrightarrow> kinv (deleteClient ck cfg)"
  using rows_ok_less [OF _ row_deleteClient refl refl] by (auto simp: kinv_def) (simp_all add: deleteClient_def)

text \<open>What \<open>cfg.saved[i]\<close> holds, by position.\<close>

definition held :: "('s, 'c) service \<Rightarrow> ('s, 'c) kvconfig \<Rightarrow> nat \<Rightarrow> 'c gob_item Persister option" where
  "held sv cfg i = (case (kvservers cfg ! i, ksaved cfg ! i) of (Some s, Some _) \<Rightarrow> Some (persister (srv_rf sv s)) | _ \<Rightarrow> ksaved cfg ! i)"

lemma held_cong: "kvservers c = kvservers cfg \<Longrightarrow> ksaved c = ksaved cfg \<Longrightarrow> held sv c i = held sv cfg i"
  by (simp only: held_def)

lemma ksaved_now_held: "i < length (kvservers cfg) \<Longrightarrow> i < length (ksaved cfg) \<Longrightarrow> ksaved_now sv (int i) cfg = Inr (held sv cfg i)"
  by (simp add: ksaved_now_def held_def)

lemma ShutdownServer_ok:
  assumes "ShutdownServer sv j cfg = Inr cfg'" and inv: "kinv cfg"
  obtains i cfg0 where "j = int i" "i < kn cfg" "disconnectUnlocked j (All_servers cfg) cfg = Inr cfg0" "toggled cfg cfg0"
    "cfg' = cfg0\<lparr>knet := DeleteServer j (knet cfg0), ksaved := (ksaved cfg)[i := map_option Copy (held sv cfg i)], kvservers := (kvservers cfg)[i := None]\<rparr>"
proof -
  obtain cfg0 where c0: "disconnectUnlocked j (All_servers cfg) cfg = Inr cfg0"
    using assms(1) by (auto simp: ShutdownServer_def bind_res_eq_Inr)
  have t: "toggled cfg cfg0" by (rule toggled_disconnect [OF c0])
  let ?c1 = "cfg0\<lparr>knet := DeleteServer j (knet cfg0)\<rparr>"
  have same: "kvservers ?c1 = kvservers cfg" "ksaved ?c1 = ksaved cfg" "length (kvservers cfg) = kn cfg" "length (ksaved cfg) = kn cfg"
    using t inv by (auto simp: toggled_def kinv_def)
  obtain ps svd ss where u: "ksaved_now sv j ?c1 = Inr ps" "go_update (ksaved cfg) j (map_option Copy ps) = Inr svd" "go_update (kvservers cfg) j None = Inr ss"
    "cfg' = ?c1\<lparr>ksaved := svd, kvservers := ss\<rparr>"
    using assms(1) c0 t by (auto simp: ShutdownServer_def bind_res_eq_Inr Let_def toggled_def)
  obtain i where i: "i < kn cfg" "j = int i" "svd = (ksaved cfg)[i := map_option Copy ps]" using go_update_nat [OF u(2)] same by auto
  have "held sv ?c1 i = held sv cfg i" by (rule held_cong) (simp_all only: same)
  then have "ps = held sv cfg i" using u(1) ksaved_now_held [of i ?c1 sv] i same by simp
  moreover have "ss = (kvservers cfg)[i := None]" using go_update_nat [OF u(3)] i by auto
  ultimately show ?thesis using that [OF i(2,1) c0 t] u(4) i(3) by simp
qed

lemma kinv_ShutdownServer:
  assumes "ShutdownServer sv j cfg = Inr cfg'" and inv: "kinv cfg"
  shows "kinv cfg' \<and> kn cfg' = kn cfg \<and> kendnames cfg' = kendnames cfg"
proof -
  obtain i cfg0 where i: "j = int i" "i < kn cfg" "toggled cfg cfg0"
    and c': "cfg' = cfg0\<lparr>knet := DeleteServer j (knet cfg0), ksaved := (ksaved cfg)[i := map_option Copy (held sv cfg i)], kvservers := (kvservers cfg)[i := None]\<rparr>"
    using ShutdownServer_ok [OF assms] by metis
  note k = kinv_toggled [OF i(3) inv]
  have s0: "kvservers cfg0 = kvservers cfg" "ksaved cfg0 = ksaved cfg" using i(3) by (auto simp: toggled_def)
  have "row cfg' = row cfg0" by (rule row_cong) (simp_all add: c')
  then have "rows_ok (knet cfg') (kn cfg') (row cfg')"
    using conjunct1 [OF k] rows_ok_less [of "knet cfg0" "kn cfg0" "row cfg0" "row cfg'" "knet cfg'"] by (simp add: c' kinv_def DeleteServer_def)
  then show ?thesis using k s0 i by (auto simp: c' kinv_def DeleteServer_def nth_list_update)
qed

lemma StartServer_ok:
  assumes "StartServer sv randstring now rnd j cfg = Inr cfg'" and inv: "kinv cfg"
  obtains i rn s ps where "j = int i" "i < kn cfg" "new_ends (map randstring [0..<kn cfg]) (knet cfg) = Inr rn"
    "ps = (case held sv cfg i of Some p \<Rightarrow> Copy p | None \<Rightarrow> MakePersister)" "srv_start sv now rnd (kn cfg) j ps (maxraftstate cfg) = Inr s"
    "cfg' = cfg\<lparr>kendnames := (kendnames cfg)[i := Some (map randstring [0..<kn cfg])], ksaved := (ksaved cfg)[i := Some ps],
       kvservers := (kvservers cfg)[i := Some s], knet := AddServer j (knextsrv cfg) rn, knextsrv := knextsrv cfg + 1,
       ksrvs := (ksrvs cfg)(knextsrv cfg := made_server sv (knextsrv cfg))\<rparr>"
proof -
  have len: "length (kvservers cfg) = kn cfg" "length (ksaved cfg) = kn cfg" "length (kendnames cfg) = kn cfg" using inv by (auto simp: kinv_def)
  obtain es rn ps0 where u: "go_update (kendnames cfg) j (Some (map randstring [0..<kn cfg])) = Inr es"
    "new_ends (map randstring [0..<kn cfg]) (knet cfg) = Inr rn" "ksaved_now sv j cfg = Inr ps0"
    using assms(1) by (auto simp: StartServer_def bind_res_eq_Inr Let_def)
  define ps where "ps = (case ps0 of Some p \<Rightarrow> Copy p | None \<Rightarrow> MakePersister)"
  obtain svd s ss where v: "go_update (ksaved cfg) j (Some ps) = Inr svd" "srv_start sv now rnd (kn cfg) j ps (maxraftstate cfg) = Inr s"
    "go_update (kvservers cfg) j (Some s) = Inr ss"
    "cfg' = cfg\<lparr>kendnames := es, ksaved := svd, kvservers := ss, knet := AddServer j (knextsrv cfg) rn, knextsrv := knextsrv cfg + 1,
       ksrvs := (ksrvs cfg)(knextsrv cfg := made_server sv (knextsrv cfg))\<rparr>"
    using assms(1) u by (auto simp: StartServer_def bind_res_eq_Inr Let_def ps_def)
  obtain i where i: "i < kn cfg" "j = int i" "es = (kendnames cfg)[i := Some (map randstring [0..<kn cfg])]" using go_update_nat [OF u(1)] len by auto
  have "svd = (ksaved cfg)[i := Some ps]" "ss = (kvservers cfg)[i := Some s]" using go_update_nat [OF v(1)] go_update_nat [OF v(3)] i by auto
  moreover have "ps0 = held sv cfg i" using u(3) ksaved_now_held [of i cfg sv] i len by simp
  ultimately show ?thesis using that [OF i(2,1) u(2) _ v(2)] v(4) i(3) by (simp add: ps_def)
qed

lemma kinv_StartServer:
  assumes "StartServer sv randstring now rnd j cfg = Inr cfg'" and inv: "kinv cfg"
  shows "kinv cfg' \<and> kn cfg' = kn cfg \<and> (\<exists>i < kn cfg. j = int i \<and> kendnames cfg' = (kendnames cfg)[i := Some (map randstring [0..<kn cfg])])"
proof -
  let ?names = "map randstring [0..<kn cfg]"
  obtain i rn s ps where i: "j = int i" "i < kn cfg" and rn: "new_ends ?names (knet cfg) = Inr rn"
    and c': "cfg' = cfg\<lparr>kendnames := (kendnames cfg)[i := Some ?names], ksaved := (ksaved cfg)[i := Some ps],
       kvservers := (kvservers cfg)[i := Some s], knet := AddServer j (knextsrv cfg) rn, knextsrv := knextsrv cfg + 1,
       ksrvs := (ksrvs cfg)(knextsrv cfg := made_server sv (knextsrv cfg))\<rparr>"
    using StartServer_ok [OF assms] by metis
  have "row cfg' = (row cfg)(Inl i \<mapsto> ?names)" using i inv by (auto simp: c' row_def kinv_def fun_eq_iff split: sum.splits)
  moreover have "rows_ok rn (kn cfg) ((row cfg)(Inl i \<mapsto> ?names))" using rows_ok_new [OF _ rn, of "kn cfg" "row cfg" "Inl i"] inv by (simp add: kinv_def)
  ultimately have "rows_ok (knet cfg') (kn cfg') (row cfg')"
    using rows_ok_less [of rn "kn cfg" "row cfg'" "row cfg'" "knet cfg'"] by (simp add: c' AddServer_def)
  moreover have "servers rn = servers (knet cfg)" using new_ends_ok [OF rn] by simp
  ultimately show ?thesis using inv i by (auto simp: c' kinv_def AddServer_def nth_list_update)
qed

lemma kstep_inv:
  assumes "kstep sv cfg cfg'" and "kinv cfg" and "all_rows cfg"
  shows "kinv cfg' \<and> all_rows cfg' \<and> kn cfg' = kn cfg"
proof -
  have all: "all_rows c" if "kn c = kn cfg" "kendnames c = kendnames cfg" for c using assms(3) that by (simp add: all_rows_def)
  have net: "kinv c" if "row c = row cfg" "kn c = kn cfg" "kendnames c = kendnames cfg" "length (kvservers c) = length (kvservers cfg)" "ksaved c = ksaved cfg"
    "\<And>i. i < kn cfg \<Longrightarrow> kvservers c ! i = None \<longleftrightarrow> kvservers cfg ! i = None" "ends (knet c) = ends (knet cfg)"
    "connections (knet c) = connections (knet cfg)" "servers (knet c) = servers (knet cfg)" for c
    using assms(2) that(1-5,7-9) rows_ok_less [of "knet cfg" "kn cfg" "row cfg" "row c" "knet c"] that(6) unfolding kinv_def by auto
  from assms(1) show ?thesis
  proof cases
    case (server i s s')
    have "kinv cfg'" using server by (intro net row_cong) (auto simp: nth_list_update assms(2) [unfolded kinv_def])
    then show ?thesis using all [of cfg'] server(1) by simp
  next
    case (traffic n b)
    have "kinv cfg'" by (intro net row_cong) (simp_all add: traffic)
    then show ?thesis using all [of cfg'] traffic by simp
  next
    case (reliable b)
    have "kinv cfg'" by (intro net row_cong) (simp_all add: reliable Reliable_def)
    then show ?thesis using all [of cfg'] reliable by simp
  next
    case (reordering b)
    have "kinv cfg'" by (intro net row_cong) (simp_all add: reordering LongReordering_def)
    then show ?thesis using all [of cfg'] reordering by simp
  next
    case (dispatched p)
    have "kinv cfg'" by (intro net row_cong) (simp_all add: dispatched)
    then show ?thesis using all [of cfg'] dispatched by simp
  next
    case (begin_test now)
    have "kinv cfg'" by (intro net row_cong) (simp_all add: begin_test kbegin_def)
    then show ?thesis using all [of cfg'] begin_test by (simp add: kbegin_def)
  next
    case count_op
    have "kinv cfg'" by (intro net row_cong) (simp_all add: count_op kop_def)
    then show ?thesis using all [of cfg'] count_op by (simp add: kop_def)
  next
    case (delete_client ck)
    then show ?thesis using kinv_deleteClient [OF assms(2), of ck] all [of cfg'] by (simp add: deleteClient_def)
  next
    case (start randstring now rnd j)
    from kinv_StartServer [OF this assms(2)] obtain i where "kinv cfg'" "kn cfg' = kn cfg" "i < kn cfg"
      "kendnames cfg' = (kendnames cfg)[i := Some (map randstring [0..<kn cfg])]" by blast
    then show ?thesis using assms(2,3) by (auto simp: all_rows_def kinv_def nth_list_update)
  qed (use all assms(2) kinv_toggled toggled_connect toggled_disconnect toggled_ConnectAll toggled_partition toggled_ConnectClient
      toggled_DisconnectClient kinv_makeClient kinv_ShutdownServer in metis)+
qed

lemma kreach_inv:
  assumes "kreach sv cfg0 cfg" and "kinv cfg0" and "all_rows cfg0"
  shows "kinv cfg \<and> all_rows cfg \<and> kn cfg = kn cfg0"
  using assms by induction (auto dest: kstep_inv)

subsection \<open>The start of a harness\<close>

definition kblank :: "int \<Rightarrow> nat \<Rightarrow> int \<Rightarrow> ('s, 'c) kvconfig" where
  "kblank now0 n maxr =
     \<lparr>knet = MakeNetwork, kn = n, kvservers = replicate n None, ksaved = replicate n None, kendnames = replicate n None,
      clerks = (\<lambda>_. None), nextClientId = int n + 1000, maxraftstate = maxr, kstart = now0, kt0 = 0, krpcs0 = 0, kops = 0, knextsrv = 0, ksrvs = (\<lambda>_. MakeServer)\<rparr>"

lemma kmake_config_blank:
  "kmake_config sv now0 randstring now rnd n unreliable maxr =
     bind_res (fold_res (\<lambda>i c. StartServer sv (randstring i) (now i) (rnd i) (int i) c) [0..<n] (kblank now0 n maxr)) (\<lambda>cfg1.
     bind_res (ConnectAll cfg1) (\<lambda>cfg2. Inr (cfg2\<lparr>knet := Reliable (\<not> unreliable) (knet cfg2)\<rparr>)))"
  by (simp add: kmake_config_def kblank_def Let_def)

lemma kblank_inv:
  fixes cfg :: "('s, 'c) kvconfig"
  assumes c: "cfg = kblank now0 n maxr"
  shows "kinv cfg \<and> kn cfg = n"
proof -
  have "row cfg w = None" for w by (cases w) (simp_all add: row_def c kblank_def)
  then have "rows_ok (knet cfg) (kn cfg) (row cfg)" by (simp add: rows_ok_def)
  then show ?thesis by (simp add: kinv_def) (simp add: c kblank_def MakeNetwork_def)
qed

lemma start_all_inv:
  assumes "fold_res (\<lambda>i c. StartServer sv (randstring i) (now i) (rnd i) (int i) c) [0..<k] (kblank now0 n maxr) = Inr cfg" and "k \<le> n"
  shows "kinv cfg \<and> kn cfg = n \<and> (\<forall>i < k. kendnames cfg ! i \<noteq> None)"
  using assms
proof (induction k arbitrary: cfg)
  case 0
  then show ?case using kblank_inv [of cfg now0 n maxr] by simp
next
  case (Suc k)
  obtain c where c: "fold_res (\<lambda>i c. StartServer sv (randstring i) (now i) (rnd i) (int i) c) [0..<k] (kblank now0 n maxr) = Inr c"
    "StartServer sv (randstring k) (now k) (rnd k) (int k) c = Inr cfg"
    using Suc.prems(1) by (auto simp: fold_res_snoc bind_res_eq_Inr)
  have IH: "kinv c" "kn c = n" "\<forall>i < k. kendnames c ! i \<noteq> None" using Suc.IH [OF c(1)] Suc.prems by auto
  show ?case using kinv_StartServer [OF c(2) IH(1)] IH Suc.prems(2) by (auto simp: less_Suc_eq kinv_def nth_list_update)
qed

lemma kmake_config_inv:
  assumes "kmake_config sv now0 randstring now rnd n unreliable maxr = Inr cfg"
  shows "kinv cfg \<and> all_rows cfg \<and> kn cfg = n"
proof -
  obtain c1 c2 where c: "fold_res (\<lambda>i c. StartServer sv (randstring i) (now i) (rnd i) (int i) c) [0..<n] (kblank now0 n maxr) = Inr c1"
    "ConnectAll c1 = Inr c2" "cfg = c2\<lparr>knet := Reliable (\<not> unreliable) (knet c2)\<rparr>"
    using assms by (auto simp: kmake_config_blank bind_res_eq_Inr)
  have c1: "kinv c1" "kn c1 = n" "all_rows c1" using start_all_inv [OF c(1)] by (auto simp: all_rows_def)
  have "kinv c2 \<and> all_rows c2 \<and> kn c2 = kn c1" using kstep_inv [OF kstep.connect_all [OF c(2)] c1(1,3)] .
  then show ?thesis using kstep_inv [OF kstep.reliable [of sv c2 "\<not> unreliable"]] c1(2) c(3) by auto
qed

lemma run_inv:
  assumes "kmake_config sv now0 randstring now rnd n unreliable maxr = Inr cfg0" and "kreach sv cfg0 cfg"
  shows "kinv cfg \<and> all_rows cfg \<and> knamed cfg \<and> kn cfg = n"
  using kreach_inv [OF assms(2)] kmake_config_inv [OF assms(1)] kinv_knamed by metis

subsection \<open>The registered servers\<close>

text \<open>A server that the network knows has the two services of the instance it was made for.\<close>

definition kserved :: "('s, 'c) service \<Rightarrow> ('s, 'c) kvconfig \<Rightarrow> bool" where
  "kserved sv cfg \<longleftrightarrow> registered (\<lambda>_. made_server sv) (servers (knet cfg)) (ksrvs cfg) (knextsrv cfg)"

lemma kserved_toggled: "toggled cfg cfg' \<Longrightarrow> kserved sv cfg \<Longrightarrow> kserved sv cfg'"
  by (auto simp: toggled_def kserved_def)

lemma kserved_StartServer:
  assumes "StartServer sv randstring now rnd j cfg = Inr cfg'" and "kinv cfg" and "kserved sv cfg"
  shows "kserved sv cfg'"
proof -
  obtain i rn s ps where rn: "new_ends (map randstring [0..<kn cfg]) (knet cfg) = Inr rn"
    and c': "cfg' = cfg\<lparr>kendnames := (kendnames cfg)[i := Some (map randstring [0..<kn cfg])], ksaved := (ksaved cfg)[i := Some ps],
       kvservers := (kvservers cfg)[i := Some s], knet := AddServer j (knextsrv cfg) rn, knextsrv := knextsrv cfg + 1,
       ksrvs := (ksrvs cfg)(knextsrv cfg := made_server sv (knextsrv cfg))\<rparr>"
    using StartServer_ok [OF assms(1,2)] by metis
  have "servers rn = servers (knet cfg)" using new_ends_ok [OF rn] by simp
  then show ?thesis
    using assms(3) registered_add [of "\<lambda>_. made_server sv" "servers (knet cfg)" "ksrvs cfg" "knextsrv cfg" j]
    by (simp add: kserved_def c' AddServer_def)
qed

lemma kstep_served:
  assumes "kstep sv cfg cfg'" and "kinv cfg" and "kserved sv cfg"
  shows "kserved sv cfg'"
  using assms(1)
proof cases
  case (client randstring rs ck tos clerk)
  obtain rn where rn: "new_ends (map randstring [0..<kn cfg]) (knet cfg) = Inr rn"
    and c: "ConnectClientUnlocked ck tos (cfg\<lparr>knet := rn, clerks := (clerks cfg)(ck \<mapsto> map randstring [0..<kn cfg]), nextClientId := nextClientId cfg + 1\<rparr>) = Inr cfg'"
    using makeClient_ok [OF client] by blast
  have "servers rn = servers (knet cfg)" using new_ends_ok [OF rn] by simp
  then show ?thesis using kserved_toggled [OF toggled_ConnectClient [OF c], of sv] assms(3) by (simp add: kserved_def)
next
  case (shutdown j)
  obtain k c0 where k: "toggled cfg c0"
    "cfg' = c0\<lparr>knet := DeleteServer j (knet c0), ksaved := (ksaved cfg)[k := map_option Copy (held sv cfg k)], kvservers := (kvservers cfg)[k := None]\<rparr>"
    using ShutdownServer_ok [OF shutdown assms(2)] by metis
  show ?thesis using kserved_toggled [OF k(1) assms(3)] registered_delete by (auto simp: kserved_def k(2) DeleteServer_def)
next
  case (dispatched p)
  then show ?thesis using assms(3) by (auto simp: kserved_def intro: registered_count)
next
  case (start randstring now rnd j)
  then show ?thesis by (rule kserved_StartServer [OF _ assms(2,3)])
next
  case connect_all
  then show ?thesis using kserved_toggled [OF toggled_ConnectAll assms(3)] by simp
next
  case partition
  then show ?thesis using kserved_toggled [OF toggled_partition assms(3)] by simp
qed (use assms(3) kserved_toggled [OF toggled_connect] kserved_toggled [OF toggled_disconnect] kserved_toggled [OF toggled_ConnectClient]
    kserved_toggled [OF toggled_DisconnectClient] in
    \<open>auto simp: kserved_def Reliable_def LongReordering_def deleteClient_def kbegin_def kop_def\<close>)

lemma kmake_config_served:
  assumes "kmake_config sv now0 randstring now rnd n unreliable maxr = Inr cfg"
  shows "kserved sv cfg"
proof -
  obtain c1 c2 where c: "fold_res (\<lambda>i c. StartServer sv (randstring i) (now i) (rnd i) (int i) c) [0..<n] (kblank now0 n maxr) = Inr c1"
    "ConnectAll c1 = Inr c2" "cfg = c2\<lparr>knet := Reliable (\<not> unreliable) (knet c2)\<rparr>"
    using assms by (auto simp: kmake_config_blank bind_res_eq_Inr)
  have "kinv (kblank now0 n maxr) \<and> kserved sv (kblank now0 n maxr)"
    using kblank_inv [OF refl] by (auto simp: kserved_def kblank_def MakeNetwork_def registered_none)
  with c(1) have "kinv c1 \<and> kserved sv c1" by (rule fold_res_invariant) (use kinv_StartServer kserved_StartServer in blast)
  then have "kserved sv c2" using kserved_toggled [OF toggled_ConnectAll [OF c(2)]] by blast
  then show ?thesis by (simp add: c(3) kserved_def Reliable_def)
qed

lemma kreach_served:
  assumes "kreach sv cfg0 cfg" and "kinv cfg0" and "all_rows cfg0" and "kserved sv cfg0"
  shows "kserved sv cfg"
  using assms
proof (induction rule: kreach.induct)
  case (step cfg cfg')
  then show ?case using kreach_inv [OF step.hyps(1)] kstep_served [OF step.hyps(2)] by blast
qed

text \<open>
  In every run a server that the network knows, under the number \<open>p\<close>, has the service of the type and the Raft
  service, both of the instance \<open>p\<close>; a Raft request to it runs the handler of the peer of that instance.
\<close>

lemma run_serves_raft:
  assumes "kmake_config sv now0 randstring now rnd n unreliable maxr = Inr cfg0" and "kreach sv cfg0 cfg"
    and "servers (knet cfg) i = Some p" and "raft_handle t (srv_rf sv (objs p)) a = Inr (rf', r)"
  shows "\<exists>svc f. services (ksrvs cfg p) ''Raft'' = Some svc \<and> methods svc (method_of a) = Some f \<and>
    f (RaftReq a) (Inr (t, objs)) = (RaftRep r, Inr (t, objs(p := srv_put_rf sv rf' (objs p))))"
proof -
  have "kserved sv cfg" using kreach_served [OF assms(2)] kmake_config_inv [OF assms(1)] kmake_config_served [OF assms(1)] by blast
  then have "services (ksrvs cfg p) = services (made_server sv p)" using assms(3) by (simp add: kserved_def registered_def)
  then show ?thesis using two_services_raft [of "ksrvs cfg p" "srv_tname sv" "srv_methods sv p" "srv_rf sv" "srv_put_rf sv" p t objs a rf' r] assms(4) by (simp add: made_server_def)
qed

subsection \<open>Services over Raft\<close>

text \<open>
  What the harness relies on: starting a server makes a Raft peer on the persister it is given, and
  killing a server kills its peer.
\<close>

locale raft_backed =
  fixes sv :: "('s, 'c) service"
  assumes start_makes: "Make now rnd n i ps = Inr rf \<Longrightarrow> \<exists>s. srv_start sv now rnd n i ps mx = Inr s \<and> srv_rf sv s = rf"
    and start_made: "srv_start sv now rnd n i ps mx = Inr s \<Longrightarrow> Make now rnd n i ps = Inr (srv_rf sv s)"
    and kill_peer: "srv_rf sv (srv_kill sv s) = Kill (srv_rf sv s)"
begin

lemma server_total:
  assumes inv: "kinv cfg" and i: "i < kn cfg"
    and fresh: "distinct (map randstring [0..<kn cfg])" "set (map randstring [0..<kn cfg]) \<inter> ends (knet cfg) = {}"
    and v: "raft_store.restore (case held sv cfg i of Some p \<Rightarrow> p | None \<Rightarrow> MakePersister) initial_pstate = Inr v"
  shows "\<exists>cfg' s. StartServer sv randstring now rnd (int i) cfg = Inr cfg' \<and> kvservers cfg' = (kvservers cfg)[i := Some s] \<and>
    pstate_of (srv_rf sv s) = v \<and> persister (srv_rf sv s) = (case held sv cfg i of Some p \<Rightarrow> p | None \<Rightarrow> MakePersister) \<and>
    me (srv_rf sv s) = int i \<and> npeers (srv_rf sv s) = kn cfg \<and> state (srv_rf sv s) = Follower \<and> commitIndex (srv_rf sv s) = 0 \<and>
    lastApplied (srv_rf sv s) = 0 \<and> dead (srv_rf sv s) = 0 \<and>
    kendnames cfg' = (kendnames cfg)[i := Some (map randstring [0..<kn cfg])] \<and> ends (knet cfg') = ends (knet cfg) \<union> set (map randstring [0..<kn cfg])"
proof -
  let ?p = "case held sv cfg i of Some p \<Rightarrow> p | None \<Rightarrow> MakePersister"
  have p: "(case held sv cfg i of Some p \<Rightarrow> Copy p | None \<Rightarrow> MakePersister) = ?p" by (simp add: Copy_id split: option.splits)
  have len: "length (kvservers cfg) = kn cfg" "length (ksaved cfg) = kn cfg" "length (kendnames cfg) = kn cfg" using inv by (auto simp: kinv_def)
  obtain rn where rn: "new_ends (map randstring [0..<kn cfg]) (knet cfg) = Inr rn" using new_ends_total [OF fresh] by blast
  obtain lg t vt where vv: "v = (lg, t, vt)" by (cases v)
  obtain rf where rf: "Make now rnd (kn cfg) (int i) ?p = Inr rf" "pstate_of rf = v" "persister rf = ?p" "npeers rf = kn cfg"
    "me rf = int i" "state rf = Follower" "commitIndex rf = 0" "lastApplied rf = 0" "dead rf = 0"
    using Make_restores [OF v [unfolded vv], of now rnd "kn cfg" "int i"] vv by auto
  obtain s where s: "srv_start sv now rnd (kn cfg) (int i) ?p (maxraftstate cfg) = Inr s" "srv_rf sv s = rf" using start_makes [OF rf(1)] by blast
  have h: "ksaved_now sv (int i) cfg = Inr (held sv cfg i)" using ksaved_now_held i len by metis
  have "StartServer sv randstring now rnd (int i) cfg =
    Inr (cfg\<lparr>kendnames := (kendnames cfg)[i := Some (map randstring [0..<kn cfg])], ksaved := (ksaved cfg)[i := Some ?p],
       kvservers := (kvservers cfg)[i := Some s], knet := AddServer (int i) (knextsrv cfg) rn, knextsrv := knextsrv cfg + 1,
       ksrvs := (ksrvs cfg)(knextsrv cfg := made_server sv (knextsrv cfg))\<rparr>)"
    using i len by (simp add: StartServer_def Let_def rn h p s(1) go_update_def go_len_def)
  moreover have "ends rn = ends (knet cfg) \<union> set (map randstring [0..<kn cfg])" using new_ends_ok [OF rn] by blast
  ultimately show ?thesis using rf(2-9) unfolding s(2) [symmetric] by (intro exI conjI) (auto simp: AddServer_def)
qed

end

interpretation kv: raft_backed kv_service
  by unfold_locales (auto simp: kv_service_def StartKVServer_def kvs_Kill_def bind_res_eq_Inr)

interpretation sm: raft_backed sm_service
  by unfold_locales (auto simp: sm_service_def sm_StartServer_def sm_Kill_def bind_res_eq_Inr)

text \<open>The first \<open>k\<close> of \<open>n\<close> servers run, with nothing saved yet.\<close>

definition fresh_servers :: "('s, 'c) service \<Rightarrow> nat \<Rightarrow> nat \<Rightarrow> ('s, 'c) kvconfig \<Rightarrow> bool" where
  "fresh_servers sv k n c \<longleftrightarrow>
     (\<forall>j. k \<le> j \<longrightarrow> j < n \<longrightarrow> kvservers c ! j = None \<and> ksaved c ! j = None) \<and>
     (\<forall>j < k. \<exists>s. kvservers c ! j = Some s \<and> pstate_of (srv_rf sv s) = initial_pstate \<and> saved (srv_rf sv s) \<and> persister (srv_rf sv s) = MakePersister)"

text \<open>A run in which a server stays down.\<close>

inductive down_run :: "('s, 'c) service \<Rightarrow> nat \<Rightarrow> ('s, 'c) kvconfig \<Rightarrow> ('s, 'c) kvconfig \<Rightarrow> bool" for sv i c0 where
  here: "down_run sv i c0 c0"
| step: "down_run sv i c0 c \<Longrightarrow> kstep sv c c' \<Longrightarrow> kvservers c' ! i = None \<Longrightarrow> down_run sv i c0 c'"

lemma down_step_saved:
  assumes st: "kstep sv c c'" and inv: "kinv c" and i: "i < kn c" and down: "kvservers c ! i = None" "kvservers c' ! i = None"
  shows "ksaved c' ! i = ksaved c ! i"
proof -
  have tg: "ksaved d = ksaved c" if "toggled c d" for d using that by (auto simp: toggled_def)
  from st show ?thesis
  proof cases
    case (client randstring rs ck tos clerk)
    obtain rn where "ConnectClientUnlocked ck tos (c\<lparr>knet := rn, clerks := (clerks c)(ck \<mapsto> map randstring [0..<kn c]), nextClientId := nextClientId c + 1\<rparr>) = Inr c'"
      using makeClient_ok [OF client] by blast
    from toggled_ConnectClient [OF this] show ?thesis by (auto simp: toggled_def)
  next
    case (shutdown j)
    obtain k c0 where k: "k < kn c" "toggled c c0"
      "c' = c0\<lparr>knet := DeleteServer j (knet c0), ksaved := (ksaved c)[k := map_option Copy (held sv c k)], kvservers := (kvservers c)[k := None]\<rparr>"
      using ShutdownServer_ok [OF shutdown inv] by metis
    have "map_option Copy (held sv c i) = ksaved c ! i" using down(1) by (cases "ksaved c ! i") (simp_all add: held_def Copy_id)
    then show ?thesis using k i inv by (cases "k = i") (auto simp: kinv_def)
  next
    case (start randstring now rnd j)
    obtain k rn s ps where k: "k < kn c"
      "c' = c\<lparr>kendnames := (kendnames c)[k := Some (map randstring [0..<kn c])], ksaved := (ksaved c)[k := Some ps],
         kvservers := (kvservers c)[k := Some s], knet := AddServer j (knextsrv c) rn, knextsrv := knextsrv c + 1,
       ksrvs := (ksrvs c)(knextsrv c := made_server sv (knextsrv c))\<rparr>"
      using StartServer_ok [OF start inv] by metis
    then have "k \<noteq> i" using down(2) i inv by (auto simp: kinv_def)
    then show ?thesis using k by simp
  next
    case connect
    then show ?thesis using tg [OF toggled_connect] by simp
  next
    case disconnect
    then show ?thesis using tg [OF toggled_disconnect] by simp
  next
    case connect_all
    then show ?thesis using tg [OF toggled_ConnectAll] by simp
  next
    case partition
    then show ?thesis using tg [OF toggled_partition] by simp
  next
    case connect_client
    then show ?thesis using tg [OF toggled_ConnectClient] by simp
  next
    case disconnect_client
    then show ?thesis using tg [OF toggled_DisconnectClient] by simp
  qed (simp_all add: deleteClient_def kbegin_def kop_def)
qed

lemma down_run_saved:
  assumes "down_run sv i c0 c" and "kinv c0" and "all_rows c0" and "i < kn c0" and "kvservers c0 ! i = None"
  shows "kinv c \<and> all_rows c \<and> kn c = kn c0 \<and> kvservers c ! i = None \<and> ksaved c ! i = ksaved c0 ! i"
  using assms
proof induction
  case (step c c')
  then have IH: "kinv c" "all_rows c" "kn c = kn c0" "kvservers c ! i = None" "ksaved c ! i = ksaved c0 ! i" by auto
  show ?case using kstep_inv [OF step.hyps(2) IH(1,2)] down_step_saved [OF step.hyps(2) IH(1) _ IH(4) step.hyps(3)] step IH by simp
qed simp

context raft_backed
begin

lemma servers_total:
  assumes inj: "inj_on (\<lambda>(i, j). randstring i j) ({..<n} \<times> {..<n})" and "k \<le> n"
  shows "\<exists>c. fold_res (\<lambda>i c. StartServer sv (randstring i) (now i) (rnd i) (int i) c) [0..<k] (kblank now0 n maxr) = Inr c \<and>
    ends (knet c) = (\<lambda>(i, j). randstring i j) ` ({..<k} \<times> {..<n}) \<and> fresh_servers sv k n c"
  using \<open>k \<le> n\<close>
proof (induction k)
  case 0
  then show ?case by (simp add: fresh_servers_def kblank_def MakeNetwork_def)
next
  case (Suc k)
  then obtain c where c: "fold_res (\<lambda>i c. StartServer sv (randstring i) (now i) (rnd i) (int i) c) [0..<k] (kblank now0 n maxr) = Inr c"
    "ends (knet c) = (\<lambda>(i, j). randstring i j) ` ({..<k} \<times> {..<n})" "fresh_servers sv k n c" by auto
  have w: "kinv c" "kn c = n" using start_all_inv [OF c(1)] Suc.prems by auto
  have neq: "randstring k j \<noteq> randstring i j'" if "j < n" "j' < n" "i < n" "(i, j') \<noteq> (k, j)" for i j j'
    using inj_onD [OF inj, of "(k, j)" "(i, j')"] that Suc.prems by auto
  have fresh: "distinct (map (randstring k) [0..<kn c])" "set (map (randstring k) [0..<kn c]) \<inter> ends (knet c) = {}"
    using neq Suc.prems by (auto simp: w(2) c(2) distinct_map inj_on_def) (metis Suc_le_lessD)
  have none: "held sv c k = None" using c(3) Suc.prems by (simp add: fresh_servers_def held_def)
  have rest: "raft_store.restore (case held sv c k of Some p \<Rightarrow> p | None \<Rightarrow> MakePersister) initial_pstate = Inr initial_pstate"
    by (simp add: none raft_store.restore_empty)
  obtain c' s where c': "StartServer sv (randstring k) (now k) (rnd k) (int k) c = Inr c'" "kvservers c' = (kvservers c)[k := Some s]"
      "pstate_of (srv_rf sv s) = initial_pstate" "ends (knet c') = ends (knet c) \<union> set (map (randstring k) [0..<kn c])"
    and p: "persister (srv_rf sv s) = MakePersister"
    using server_total [OF w(1) _ fresh rest, of "now k" "rnd k"] Suc.prems w(2) none by auto
  have sd: "ksaved c' ! j = ksaved c ! j" if "j \<noteq> k" for j using StartServer_ok [OF c'(1) w(1)] that by fastforce
  have "saved (srv_rf sv s)" using p c'(3) by (simp add: saved_def raft_store.restore_empty)
  then have "fresh_servers sv (Suc k) n c'"
    using c(3) c'(2,3) p sd w Suc.prems by (auto simp: fresh_servers_def less_Suc_eq nth_list_update kinv_def)
  moreover have "ends (knet c') = (\<lambda>(i, j). randstring i j) ` ({..<Suc k} \<times> {..<n})"
  proof -
    have "{..<Suc k} \<times> {..<n} = {..<k} \<times> {..<n} \<union> {k} \<times> {..<n}" by auto
    moreover have "(\<lambda>(i, j). randstring i j) ` ({k} \<times> {..<n}) = set (map (randstring k) [0..<n])" by (auto simp: image_iff)
    ultimately show ?thesis by (simp only: image_Un c(2) c'(4) w(2))
  qed
  ultimately show ?case using c(1) c'(1) by (simp add: fold_res_snoc)
qed

lemma config_total:
  assumes inj: "inj_on (\<lambda>(i, j). randstring i j) ({..<n} \<times> {..<n})"
  shows "\<exists>cfg. kmake_config sv now0 randstring now rnd n unreliable maxr = Inr cfg \<and> fresh_servers sv n n cfg \<and> running_all cfg \<and>
    links cfg = (\<lambda>a b. a < n \<and> b < n) \<and> ends (knet cfg) = (\<lambda>(i, j). randstring i j) ` ({..<n} \<times> {..<n})"
proof -
  obtain c where c: "fold_res (\<lambda>i c. StartServer sv (randstring i) (now i) (rnd i) (int i) c) [0..<n] (kblank now0 n maxr) = Inr c"
    "ends (knet c) = (\<lambda>(i, j). randstring i j) ` ({..<n} \<times> {..<n})" "fresh_servers sv n n c"
    using servers_total [OF inj order.refl, of now rnd now0 maxr] by blast
  have i: "kinv c" "kn c = n" "all_rows c" using start_all_inv [OF c(1)] by (auto simp: all_rows_def)
  obtain d where d: "ConnectAll c = Inr d" "switched c d" "links d = (\<lambda>a b. a < kn c \<and> b < kn c)" using ConnectAll_links [OF kinv_knamed [OF i(1,3)]] by blast
  note s = switched_simps [OF d(2)]
  let ?e = "d\<lparr>knet := Reliable (\<not> unreliable) (knet d)\<rparr>"
  have "kmake_config sv now0 randstring now rnd n unreliable maxr = Inr ?e" using c(1) d(1) by (simp add: kmake_config_blank)
  moreover have "fresh_servers sv n n ?e" using c(3) s(5,6) by (simp add: fresh_servers_def)
  moreover have "running_all ?e" using c(3) s(1,5) i(1,2) by (auto simp: running_all_def fresh_servers_def kinv_def)
  moreover have "links ?e = links d" by (rule ext, rule ext) (simp add: links_def kname_def Reliable_def)
  moreover have "ends (knet ?e) = ends (knet c)" using s(9) by (simp add: Reliable_def)
  ultimately show ?thesis using c(2) d(3) i(2) by simp
qed

end

end
