(* ===== verification/Harness_Services.thy ===== *)
theory Harness_Services
  imports Harness_Kv_Runs
begin

section \<open>What the harnesses of the two services give a test\<close>

text \<open>
  The functions of kvraft/config.go and of shardmaster/config.go as instances of the common code, and the
  properties of their runs: partitions, clerks, restarts and sizes.
\<close>

type_synonym kv_config = "(KVServer, unit) kvconfig"

type_synonym sm_config = "(ShardMaster, unit) kvconfig"

subsection \<open>The harness of the shard master\<close>

text \<open>The shard master's harness has no statistics, and its servers no bound on the size of the log.\<close>

definition sm_make_config :: "int \<Rightarrow> (nat \<Rightarrow> nat \<Rightarrow> string) \<Rightarrow> (nat \<Rightarrow> int) \<Rightarrow> (nat \<Rightarrow> int) \<Rightarrow> nat \<Rightarrow> bool \<Rightarrow> sm_config res" where
  "sm_make_config now0 randstring now rnd n unreliable = kmake_config sm_service now0 randstring now rnd n unreliable 0"

definition smc_StartServer :: "(nat \<Rightarrow> string) \<Rightarrow> int \<Rightarrow> int \<Rightarrow> int \<Rightarrow> sm_config \<Rightarrow> sm_config res" where
  "smc_StartServer = StartServer sm_service"

definition smc_ShutdownServer :: "int \<Rightarrow> sm_config \<Rightarrow> sm_config res" where
  "smc_ShutdownServer = ShutdownServer sm_service"

definition smc_cleanup :: "int \<Rightarrow> bool \<Rightarrow> sm_config \<Rightarrow> sm_config res" where
  "smc_cleanup = kcleanup sm_service"

definition smc_checkTimeout :: "int \<Rightarrow> bool \<Rightarrow> sm_config \<Rightarrow> unit res" where
  "smc_checkTimeout = kcheckTimeout"

definition smc_LogSize :: "(unit gob_item list \<Rightarrow> int) \<Rightarrow> sm_config \<Rightarrow> int res" where
  "smc_LogSize bytes = LogSize bytes sm_service"

definition smc_connectUnlocked :: "int \<Rightarrow> int list \<Rightarrow> sm_config \<Rightarrow> sm_config res" where
  "smc_connectUnlocked = connectUnlocked"

definition smc_disconnectUnlocked :: "int \<Rightarrow> int list \<Rightarrow> sm_config \<Rightarrow> sm_config res" where
  "smc_disconnectUnlocked = disconnectUnlocked"

definition smc_connect :: "int \<Rightarrow> int list \<Rightarrow> sm_config \<Rightarrow> sm_config res" where
  "smc_connect = kconnect"

definition smc_disconnect :: "int \<Rightarrow> int list \<Rightarrow> sm_config \<Rightarrow> sm_config res" where
  "smc_disconnect = kdisconnect"

definition smc_All :: "sm_config \<Rightarrow> int list" where
  "smc_All = All_servers"

definition smc_random_handles :: "(nat \<Rightarrow> nat) \<Rightarrow> string list \<Rightarrow> string list" where
  "smc_random_handles = random_handles"

definition smc_ConnectAll :: "sm_config \<Rightarrow> sm_config res" where
  "smc_ConnectAll = ConnectAll"

definition smc_partition :: "int list \<Rightarrow> int list \<Rightarrow> sm_config \<Rightarrow> sm_config res" where
  "smc_partition = partition_net"

definition smc_makeClient :: "(nat \<Rightarrow> string) \<Rightarrow> (nat \<Rightarrow> nat) \<Rightarrow> nat \<Rightarrow> int list \<Rightarrow> sm_config \<Rightarrow> (string sm_Clerk \<times> sm_config) res" where
  "smc_makeClient = makeClient sm_MakeClerk"

definition smc_deleteClient :: "nat \<Rightarrow> sm_config \<Rightarrow> sm_config" where
  "smc_deleteClient = deleteClient"

definition smc_ConnectClientUnlocked :: "nat \<Rightarrow> int list \<Rightarrow> sm_config \<Rightarrow> sm_config res" where
  "smc_ConnectClientUnlocked = ConnectClientUnlocked"

definition smc_DisconnectClientUnlocked :: "nat \<Rightarrow> int list \<Rightarrow> sm_config \<Rightarrow> sm_config res" where
  "smc_DisconnectClientUnlocked = DisconnectClientUnlocked"

definition smc_ConnectClient :: "nat \<Rightarrow> int list \<Rightarrow> sm_config \<Rightarrow> sm_config res" where
  "smc_ConnectClient = ConnectClient"

definition smc_DisconnectClient :: "nat \<Rightarrow> int list \<Rightarrow> sm_config \<Rightarrow> sm_config res" where
  "smc_DisconnectClient = DisconnectClient"

definition smc_Leader :: "(int \<Rightarrow> bool) \<Rightarrow> sm_config \<Rightarrow> (bool \<times> int) res" where
  "smc_Leader = find_Leader"

definition smc_make_partition :: "(int \<Rightarrow> bool) \<Rightarrow> sm_config \<Rightarrow> (int list \<times> int list) res" where
  "smc_make_partition = make_partition"

subsection \<open>Partitions\<close>

lemma run_partition:
  assumes "kmake_config sv now0 randstring now rnd n unreliable maxr = Inr cfg0" and "kreach sv cfg0 cfg"
    and "n = 2 * k + 1" and "0 < k" and "\<forall>i < n. kvservers cfg ! i \<noteq> None"
  shows "\<exists>p1 p2 cfg'. make_partition obs cfg = Inr (map int p1, map int p2) \<and> length p1 = k + 1 \<and> length p2 = k \<and>
    set p1 \<union> set p2 = {..<n} \<and> set p1 \<inter> set p2 = {} \<and> leader_or_0 obs n \<in> set p2 \<and>
    partition_net (map int p1) (map int p2) cfg = Inr cfg' \<and> clerks cfg' = clerks cfg \<and> kvservers cfg' = kvservers cfg \<and>
    (\<forall>a < n. \<forall>b < n. \<exists>e. kend_at (int a) (int b) cfg' = Inr e \<and> fst (readEndnameInfo e (knet cfg')) = (a \<in> set p1 \<longleftrightarrow> b \<in> set p1)) \<and>
    (\<forall>e. (\<forall>a < n. \<forall>b < n. kend_at (int a) (int b) cfg \<noteq> Inr e) \<longrightarrow> enabled (knet cfg') e = enabled (knet cfg) e)"
proof -
  have inv: "kinv cfg" "knamed cfg" "kn cfg = n" using run_inv [OF assms(1,2)] by auto
  have run: "running_all cfg" using assms(5) inv by (auto simp: running_all_def kinv_def)
  have at: "kend_at (int a) (int b) c = Inr (kname c a b)" if "knamed c" "a < kn c" "b < kn c" for a b and c :: "('a, 'b) kvconfig"
    using that by (auto simp: kend_at_def kname_def knamed_def)
  obtain p1 p2 cfg' where p: "make_partition obs cfg = Inr (map int p1, map int p2)" "length p1 = k + 1" "length p2 = k"
    "set p1 \<union> set p2 = {..<n}" "set p1 \<inter> set p2 = {}" "leader_or_0 obs n \<in> set p2"
    and c: "partition_net (map int p1) (map int p2) cfg = Inr cfg'" "switched cfg cfg'"
    "links cfg' = (\<lambda>a b. a < n \<and> b < n \<and> (a \<in> set p1 \<longleftrightarrow> b \<in> set p1))"
    using leader_in_minority [OF inv(2) run, of k obs] assms(3,4) inv(3) by auto
  note s = switched_simps [OF c(2)]
  have "\<exists>e. kend_at (int a) (int b) cfg' = Inr e \<and> fst (readEndnameInfo e (knet cfg')) = (a \<in> set p1 \<longleftrightarrow> b \<in> set p1)" if "a < n" "b < n" for a b
    using at [of cfg' a b] fun_cong [OF fun_cong [OF c(3)], of a b] that inv s(1,12) by (simp add: links_def readEndnameInfo_def)
  moreover have "enabled (knet cfg') e = enabled (knet cfg) e" if "\<forall>a < n. \<forall>b < n. kend_at (int a) (int b) cfg \<noteq> Inr e" for e
  proof -
    have "e \<notin> server_ends cfg" using that at [OF inv(2)] inv(3) by (auto simp: server_ends_def)
    then show ?thesis using c(2) by (auto simp: switched_def)
  qed
  ultimately show ?thesis using p c(1) s(5,7) by blast
qed

text \<open>
  C36: In every run of the harness of the replicated store with an odd number of servers, all of them up,
  \<open>make_partition\<close> splits the servers into a majority without the leader that it sees and a minority with
  it, and \<open>partition\<close> then enables exactly the ends between two servers of the same side; it touches
  neither the clerks nor any other end.
\<close>

theorem partition_isolates_leader:
  assumes "kmake_config kv_service now0 randstring now rnd n unreliable maxr = Inr cfg0" and "kreach kv_service cfg0 cfg"
    and "n = 2 * k + 1" and "0 < k" and "\<forall>i < n. kvservers cfg ! i \<noteq> None" and "l < n" and "obs (int l)"
  shows "\<exists>p1 p2 cfg' l. make_partition obs cfg = Inr (map int p1, map int p2) \<and> length p1 = k + 1 \<and> length p2 = k \<and>
    set p1 \<union> set p2 = {..<n} \<and> set p1 \<inter> set p2 = {} \<and> l \<in> set p2 \<and> obs (int l) \<and>
    partition_net (map int p1) (map int p2) cfg = Inr cfg' \<and> clerks cfg' = clerks cfg \<and> kvservers cfg' = kvservers cfg \<and>
    (\<forall>a < n. \<forall>b < n. \<exists>e. kend_at (int a) (int b) cfg' = Inr e \<and> fst (readEndnameInfo e (knet cfg')) = (a \<in> set p1 \<longleftrightarrow> b \<in> set p1)) \<and>
    (\<forall>e. (\<forall>a < n. \<forall>b < n. kend_at (int a) (int b) cfg \<noteq> Inr e) \<longrightarrow> enabled (knet cfg') e = enabled (knet cfg) e)"
  using run_partition [OF assms(1-5), of obs] leader_or_0_leads [of l n obs, OF assms(6,7)] by blast

lemma sample_kv:
  "\<exists>cfg. kmake_config kv_service 0 sample_names (\<lambda>_. 0) (\<lambda>_. 0) 3 False (-1) = Inr cfg \<and> fresh_servers kv_service 3 3 cfg \<and> running_all cfg \<and>
    links cfg = (\<lambda>a b. a < 3 \<and> b < 3) \<and> ends (knet cfg) = (\<lambda>(i, j). sample_names i j) ` ({..<3} \<times> {..<3})"
  by (rule kv.config_total [OF sample_names_inj])

theorem partition_isolates_leader_witness:
  "\<exists>cfg p1 p2. kmake_config kv_service 0 sample_names (\<lambda>_. 0) (\<lambda>_. 0) 3 False (-1) = Inr cfg \<and>
     make_partition (\<lambda>i. i = 2) cfg = Inr (map int p1, map int p2) \<and> length p1 = 2 \<and> p2 = [2]"
proof -
  obtain cfg where c: "kmake_config kv_service 0 sample_names (\<lambda>_. 0) (\<lambda>_. 0) 3 False (-1) = Inr cfg" "running_all cfg" using sample_kv by blast
  have "kn cfg = 3" using kmake_config_inv [OF c(1)] by simp
  then have up: "\<forall>i < 3. kvservers cfg ! i \<noteq> None" using c(2) by (simp add: running_all_def)
  obtain p1 p2 l where "make_partition (\<lambda>i. i = 2) cfg = Inr (map int p1, map int p2)" "length p1 = 1 + 1" "length p2 = 1" "l \<in> set p2" "int l = 2"
    using partition_isolates_leader [OF c(1) kreach.here _ _ up, of 1 2 "\<lambda>i. i = 2"] by auto
  then show ?thesis using c(1) by (auto simp: length_Suc_conv)
qed

subsection \<open>Clerks\<close>

lemma ConnectClient_loop:
  assumes "\<And>t. t \<in> set tos \<Longrightarrow> t < length names"
  shows "fold_res (\<lambda>t c. bind_res (go_index names t) (\<lambda>s. Inr (c\<lparr>knet := Enable s b (knet c)\<rparr>))) (map int tos) cfg =
    Inr (cfg\<lparr>knet := enable_all ((\<lambda>t. names ! t) ` set tos) b (knet cfg)\<rparr>)"
  using assms
proof (induction tos rule: rev_induct)
  case (snoc t tos)
  then show ?case by (simp add: fold_res_snoc Enable_all)
qed simp

lemma run_client:
  assumes "kmake_config sv now0 randstring now rnd n unreliable maxr = Inr cfg0" and "kreach sv cfg0 cfg"
    and fresh: "distinct (map names [0..<n])" "set (map names [0..<n]) \<inter> ends (knet cfg) = {}"
    and rs: "\<forall>i < n. rs i \<le> i" and tos: "\<forall>t \<in> set tos. t < n"
  shows "\<exists>clerk cfg'. makeClient mk names rs ck (map int tos) cfg = Inr (mk clerk, cfg') \<and> mset clerk = mset (map names [0..<n]) \<and>
    (\<forall>j < n. readEndnameInfo (names j) (knet cfg') =
       (j \<in> set tos, Some (int j), servers (knet cfg) (int j), reliable (knet cfg'), longReordering (knet cfg')) \<and>
       (servers (knet cfg) (int j) = None \<longleftrightarrow> kvservers cfg ! j = None)) \<and>
    (\<forall>e. e \<in> ends (knet cfg) \<longrightarrow> enabled (knet cfg') e = enabled (knet cfg) e \<and> connections (knet cfg') e = connections (knet cfg) e) \<and>
    kvservers cfg' = kvservers cfg \<and> kendnames cfg' = kendnames cfg \<and> clerks cfg' = (clerks cfg)(ck \<mapsto> map names [0..<n])"
proof -
  let ?names = "map names [0..<n]"
  have inv: "kinv cfg" "kn cfg = n" using run_inv [OF assms(1,2)] by auto
  obtain rn where rn: "new_ends ?names (knet cfg) = Inr rn" using new_ends_total [OF fresh] by blast
  note ne = new_ends_ok [OF rn]
  let ?on = "(\<lambda>t. ?names ! t) ` set tos"
  let ?cfg' = "cfg\<lparr>knet := enable_all ?on True rn, clerks := (clerks cfg)(ck \<mapsto> ?names), nextClientId := nextClientId cfg + 1\<rparr>"
  have "ConnectClientUnlocked ck (map int tos) (cfg\<lparr>knet := rn, clerks := (clerks cfg)(ck \<mapsto> ?names), nextClientId := nextClientId cfg + 1\<rparr>) = Inr ?cfg'"
    using ConnectClient_loop [of tos ?names True "cfg\<lparr>knet := rn, clerks := (clerks cfg)(ck \<mapsto> ?names), nextClientId := nextClientId cfg + 1\<rparr>"] tos
    by (simp add: ConnectClientUnlocked_def)
  then have m: "makeClient mk names rs ck (map int tos) cfg = Inr (mk (random_handles rs ?names), ?cfg')"
    using rn inv(2) by (simp add: makeClient_def Let_def)
  have on: "names j \<in> ?on \<longleftrightarrow> j \<in> set tos" if "j < n" for j
  proof
    assume "names j \<in> ?on"
    then obtain t where "t \<in> set tos" "names j = ?names ! t" by blast
    then show "j \<in> set tos" using tos that nth_eq_iff_index_eq [OF fresh(1), of j t] by auto
  qed (use tos in \<open>force simp: image_iff\<close>)
  have route: "readEndnameInfo (names j) (knet ?cfg') =
      (j \<in> set tos, Some (int j), servers (knet cfg) (int j), reliable (knet ?cfg'), longReordering (knet ?cfg'))" if "j < n" for j
  proof -
    have "connections rn (names j) = Some (int j)" using ne that by (metis length_map diff_zero length_upt nth_map_upt add_0)
    moreover have "\<not> enabled rn (names j)" using ne that by auto
    ultimately show ?thesis using ne on [OF that] by (simp add: readEndnameInfo_def enabled_all_cases)
  qed
  have old: "enabled (knet ?cfg') e = enabled (knet cfg) e \<and> connections (knet ?cfg') e = connections (knet cfg) e" if "e \<in> ends (knet cfg)" for e
  proof -
    have out: "e \<notin> set ?names" using that fresh(2) by blast
    moreover have "?on \<subseteq> set ?names" using tos by auto
    ultimately show ?thesis using ne by (auto simp: enabled_all_cases)
  qed
  have "mset (random_handles rs ?names) = mset ?names" using random_handles_perm [of ?names rs] rs by simp
  then show ?thesis using m route old inv by (intro exI [of _ "random_handles rs ?names"] exI [of _ ?cfg']) (simp add: kinv_def)
qed

text \<open>
  In every run of the harness a new clerk has one end per server, in some order; the end to server
  \<open>j\<close> is enabled exactly when \<open>j\<close> is among the servers the test asks for, and finds a server exactly while
  \<open>j\<close> runs. No other end changes.
\<close>

theorem makeClient_wiring:
  assumes "kmake_config kv_service now0 randstring now rnd n unreliable maxr = Inr cfg0" and "kreach kv_service cfg0 cfg"
    and "distinct (map names [0..<n])" and "set (map names [0..<n]) \<inter> ends (knet cfg) = {}"
    and "\<forall>i < n. rs i \<le> i" and "\<forall>t \<in> set tos. t < n"
  shows "\<exists>clerk cfg'. makeClient kvr_MakeClerk names rs ck (map int tos) cfg = Inr (clerk, cfg') \<and> mset (kvr_servers clerk) = mset (map names [0..<n]) \<and>
    (\<forall>j < n. readEndnameInfo (names j) (knet cfg') =
       (j \<in> set tos, Some (int j), servers (knet cfg) (int j), reliable (knet cfg'), longReordering (knet cfg')) \<and>
       (servers (knet cfg) (int j) = None \<longleftrightarrow> kvservers cfg ! j = None)) \<and>
    (\<forall>e. e \<in> ends (knet cfg) \<longrightarrow> enabled (knet cfg') e = enabled (knet cfg) e \<and> connections (knet cfg') e = connections (knet cfg) e)"
proof -
  have "kvr_servers (kvr_MakeClerk hs) = hs" for hs :: "string list" by (simp add: kvr_MakeClerk_def)
  then show ?thesis using run_client [OF assms, of kvr_MakeClerk ck] by metis
qed

theorem makeClient_wiring_witness:
  "\<exists>cfg clerk cfg'. kmake_config kv_service 0 sample_names (\<lambda>_. 0) (\<lambda>_. 0) 3 False (-1) = Inr cfg \<and>
     makeClient kvr_MakeClerk sample_names2 (\<lambda>_. 0) 7 [0, 2] cfg = Inr (clerk, cfg') \<and>
     fst (readEndnameInfo (sample_names2 2) (knet cfg')) \<and> \<not> fst (readEndnameInfo (sample_names2 1) (knet cfg'))"
proof -
  obtain cfg where c: "kmake_config kv_service 0 sample_names (\<lambda>_. 0) (\<lambda>_. 0) 3 False (-1) = Inr cfg"
    "ends (knet cfg) = (\<lambda>(i, j). sample_names i j) ` ({..<3} \<times> {..<3})" using sample_kv by blast
  have f: "distinct (map sample_names2 [0..<3])" "set (map sample_names2 [0..<3]) \<inter> ends (knet cfg) = {}" using sample_names2_fresh c(2) by blast+
  obtain clerk cfg' where m: "makeClient kvr_MakeClerk sample_names2 (\<lambda>_. 0) 7 (map int [0, 2]) cfg = Inr (clerk, cfg')"
    "\<forall>j < 3. readEndnameInfo (sample_names2 j) (knet cfg') =
       (j \<in> set [0, 2], Some (int j), servers (knet cfg) (int j), reliable (knet cfg'), longReordering (knet cfg')) \<and>
       (servers (knet cfg) (int j) = None \<longleftrightarrow> kvservers cfg ! j = None)"
    using makeClient_wiring [OF c(1) kreach.here f, of "\<lambda>_. 0" "[0, 2]" 7] by auto
  have "fst (readEndnameInfo (sample_names2 2) (knet cfg'))" "\<not> fst (readEndnameInfo (sample_names2 1) (knet cfg'))" using m(2) by simp_all
  then show ?thesis using c(1) m(1) by auto
qed

subsection \<open>Stopping and starting servers\<close>

lemma shutdown_total:
  assumes inv: "kinv cfg" "all_rows cfg" and i: "i < kn cfg"
  shows "\<exists>cfg'. ShutdownServer sv (int i) cfg = Inr cfg' \<and> kvservers cfg' = (kvservers cfg)[i := None] \<and>
    ksaved cfg' = (ksaved cfg)[i := held sv cfg i] \<and> servers (knet cfg') (int i) = None \<and> ends (knet cfg') = ends (knet cfg) \<and>
    links cfg' = (\<lambda>a b. a \<noteq> i \<and> b \<noteq> i \<and> links cfg a b)"
proof -
  have len: "length (kvservers cfg) = kn cfg" "length (ksaved cfg) = kn cfg" using inv by (auto simp: kinv_def)
  obtain c where c: "disconnectUnlocked (int i) (map int [0..<kn cfg]) cfg = Inr c" "switched cfg c" "links c = m_set False i (set [0..<kn cfg]) (links cfg)"
    using disconnectUnlocked_links [OF kinv_knamed [OF inv] i, of "[0..<kn cfg]"] by auto
  note s = switched_simps [OF c(2)]
  let ?c1 = "c\<lparr>knet := DeleteServer (int i) (knet c)\<rparr>"
  have h: "held sv ?c1 i = held sv cfg i" using s(5,6) by (intro held_cong) simp_all
  have cp: "map_option Copy x = x" for x :: "'b gob_item Persister option" by (cases x) (simp_all add: Copy_id)
  have hn: "ksaved_now sv (int i) ?c1 = Inr (held sv cfg i)" using ksaved_now_held [of i ?c1 sv] h i len s(5,6) by simp
  have "links ?c1 = links c" by (rule ext, rule ext) (simp add: links_def kname_def DeleteServer_def)
  then have l: "links ?c1 = (\<lambda>a b. a \<noteq> i \<and> b \<noteq> i \<and> links cfg a b)" using c(3) i by (auto simp: fun_eq_iff m_set_def links_def)
  have "ShutdownServer sv (int i) cfg = Inr (?c1\<lparr>ksaved := (ksaved cfg)[i := held sv cfg i], kvservers := (kvservers cfg)[i := None]\<rparr>)"
    using c(1) hn i len s(5,6) by (simp add: ShutdownServer_def All_servers_def Let_def go_update_def go_len_def cp)
  moreover have "links (?c1\<lparr>ksaved := (ksaved cfg)[i := held sv cfg i], kvservers := (kvservers cfg)[i := None]\<rparr>) = links ?c1"
    by (rule ext, rule ext) (simp add: links_def kname_def)
  ultimately show ?thesis using l s(9) by (simp add: DeleteServer_def)
qed

context raft_backed
begin

lemma restart:
  assumes mk: "kmake_config sv now0 randstring now rnd n unreliable maxr = Inr cfg0" "kreach sv cfg0 cfg"
    and i: "i < n" and s: "kvservers cfg ! i = Some s" "saved (srv_rf sv s)"
  shows "\<exists>cfg1. ShutdownServer sv (int i) cfg = Inr cfg1 \<and> servers (knet cfg1) (int i) = None \<and>
    (\<forall>a < n. \<forall>e. kend_at (int i) (int a) cfg1 = Inr e \<or> kend_at (int a) (int i) cfg1 = Inr e \<longrightarrow> \<not> enabled (knet cfg1) e) \<and>
    (\<forall>cfg2 names now1 rnd1. down_run sv i cfg1 cfg2 \<longrightarrow> distinct (map names [0..<n]) \<longrightarrow> set (map names [0..<n]) \<inter> ends (knet cfg2) = {} \<longrightarrow>
      (\<exists>cfg3 s'. StartServer sv names now1 rnd1 (int i) cfg2 = Inr cfg3 \<and> kvservers cfg3 = (kvservers cfg2)[i := Some s'] \<and>
        log (srv_rf sv s') = log (srv_rf sv s) \<and> currentTerm (srv_rf sv s') = currentTerm (srv_rf sv s) \<and>
        votedFor (srv_rf sv s') = votedFor (srv_rf sv s) \<and> persister (srv_rf sv s') = persister (srv_rf sv s) \<and>
        state (srv_rf sv s') = Follower \<and> commitIndex (srv_rf sv s') = 0 \<and> lastApplied (srv_rf sv s') = 0 \<and> dead (srv_rf sv s') = 0))"
proof -
  have inv: "kinv cfg" "all_rows cfg" "kn cfg = n" using run_inv [OF mk] by auto
  obtain cfg1 where c1: "ShutdownServer sv (int i) cfg = Inr cfg1" "kvservers cfg1 = (kvservers cfg)[i := None]" "ksaved cfg1 = (ksaved cfg)[i := held sv cfg i]"
    "servers (knet cfg1) (int i) = None" "links cfg1 = (\<lambda>a b. a \<noteq> i \<and> b \<noteq> i \<and> links cfg a b)"
    using shutdown_total [OF inv(1,2), of i sv] i inv(3) by auto
  have inv1: "kinv cfg1" "all_rows cfg1" "kn cfg1 = n" using kstep_inv [OF kstep.shutdown [OF c1(1)] inv(1,2)] inv(3) by auto
  have h: "held sv cfg i = Some (persister (srv_rf sv s))" using inv i s(1) by (auto simp: held_def kinv_def split: option.splits)
  have at: "kend_at (int a) (int b) cfg1 = Inr (kname cfg1 a b)" if "a < n" "b < n" for a b
    using that kinv_knamed [OF inv1(1,2)] inv1(3) by (auto simp: kend_at_def kname_def knamed_def)
  have off: "\<not> enabled (knet cfg1) e" if "a < n" "kend_at (int i) (int a) cfg1 = Inr e \<or> kend_at (int a) (int i) cfg1 = Inr e" for a e
    using that at i c1(5) inv1(3) by (auto simp: links_def fun_eq_iff)
  have "\<exists>cfg3 s'. StartServer sv names now1 rnd1 (int i) cfg2 = Inr cfg3 \<and> kvservers cfg3 = (kvservers cfg2)[i := Some s'] \<and>
      pstate_of (srv_rf sv s') = pstate_of (srv_rf sv s) \<and> persister (srv_rf sv s') = persister (srv_rf sv s) \<and>
      state (srv_rf sv s') = Follower \<and> commitIndex (srv_rf sv s') = 0 \<and> lastApplied (srv_rf sv s') = 0 \<and> dead (srv_rf sv s') = 0"
    if d: "down_run sv i cfg1 cfg2" and f: "distinct (map names [0..<n])" "set (map names [0..<n]) \<inter> ends (knet cfg2) = {}" for cfg2 names now1 rnd1
  proof -
    have inv2: "kinv cfg2" "kn cfg2 = n" "kvservers cfg2 ! i = None" "ksaved cfg2 ! i = Some (persister (srv_rf sv s))"
      using down_run_saved [OF d inv1(1,2)] inv1(3) i c1(2,3) h inv by (auto simp: kinv_def)
    have h2: "held sv cfg2 i = Some (persister (srv_rf sv s))" using inv2 by (simp add: held_def)
    have rest: "raft_store.restore (case held sv cfg2 i of Some p \<Rightarrow> p | None \<Rightarrow> MakePersister) initial_pstate = Inr (pstate_of (srv_rf sv s))"
      using s(2) by (simp add: h2 saved_def)
    show ?thesis using server_total [OF inv2(1), of i names, OF _ _ _ rest, of now1 rnd1] i f inv2(2) h2 by (auto simp del: set_map)
  qed
  then show ?thesis using c1(1,4) off by (fastforce simp: pstate_of_def)
qed

end

text \<open>
  C37: A server of the replicated store that is shut down is out of reach, and however long the test goes
  on without it, starting it again, with unused names for its ends, gives it what it had saved: the new
  instance has the log, the term, the vote and the persister (with the snapshot) of the old one, and the
  volatile fields of a new peer.
\<close>

theorem kv_restart_recovers:
  assumes "kmake_config kv_service now0 randstring now rnd n unreliable maxr = Inr cfg0" and "kreach kv_service cfg0 cfg"
    and "i < n" and "kvservers cfg ! i = Some s" and "saved (kvs_rf s)"
    and "ShutdownServer kv_service (int i) cfg = Inr cfg1" and "down_run kv_service i cfg1 cfg2"
    and "distinct (map names [0..<n])" and "set (map names [0..<n]) \<inter> ends (knet cfg2) = {}"
  shows "servers (knet cfg1) (int i) = None \<and>
    (\<forall>a < n. \<forall>e. kend_at (int i) (int a) cfg1 = Inr e \<or> kend_at (int a) (int i) cfg1 = Inr e \<longrightarrow> \<not> enabled (knet cfg1) e) \<and>
    (\<exists>cfg3 s'. StartServer kv_service names now1 rnd1 (int i) cfg2 = Inr cfg3 \<and> kvservers cfg3 = (kvservers cfg2)[i := Some s'] \<and>
        log (kvs_rf s') = log (kvs_rf s) \<and> currentTerm (kvs_rf s') = currentTerm (kvs_rf s) \<and> votedFor (kvs_rf s') = votedFor (kvs_rf s) \<and>
        persister (kvs_rf s') = persister (kvs_rf s) \<and> state (kvs_rf s') = Follower \<and> commitIndex (kvs_rf s') = 0 \<and>
        lastApplied (kvs_rf s') = 0 \<and> dead (kvs_rf s') = 0)"
proof -
  have rf: "srv_rf kv_service = kvs_rf" by (simp add: kv_service_def)
  show ?thesis using kv.restart [OF assms(1-4), unfolded rf, OF assms(5)] assms(6-9) by fastforce
qed

lemma sample_shutdown:
  "\<exists>cfg s cfg1. kmake_config kv_service 0 sample_names (\<lambda>_. 0) (\<lambda>_. 0) 3 False (-1) = Inr cfg \<and> kvservers cfg ! 2 = Some s \<and> saved (kvs_rf s) \<and>
     ShutdownServer kv_service (int 2) cfg = Inr cfg1 \<and> set (map sample_names2 [0..<3]) \<inter> ends (knet cfg1) = {}"
proof -
  obtain cfg where c: "kmake_config kv_service 0 sample_names (\<lambda>_. 0) (\<lambda>_. 0) 3 False (-1) = Inr cfg" "fresh_servers kv_service 3 3 cfg"
    "ends (knet cfg) = (\<lambda>(i, j). sample_names i j) ` ({..<3} \<times> {..<3})" using sample_kv by blast
  obtain s where s: "kvservers cfg ! 2 = Some s" "saved (srv_rf kv_service s)" using c(2) unfolding fresh_servers_def by (metis lessI numeral_2_eq_2 numeral_3_eq_3)
  have i: "kinv cfg" "all_rows cfg" "kn cfg = 3" using kmake_config_inv [OF c(1)] by auto
  obtain cfg1 where c1: "ShutdownServer kv_service (int 2) cfg = Inr cfg1" "ends (knet cfg1) = ends (knet cfg)"
    using shutdown_total [OF i(1,2), of 2 kv_service] i(3) by auto
  have "set (map sample_names2 [0..<3]) \<inter> ends (knet cfg1) = {}" using sample_names2_fresh unfolding c1(2) c(3) by (rule conjunct2)
  then show ?thesis using c(1) s c1(1) by (auto simp: kv_service_def)
qed

theorem kv_restart_recovers_witness:
  "\<exists>cfg s cfg1 cfg3 s'. kmake_config kv_service 0 sample_names (\<lambda>_. 0) (\<lambda>_. 0) 3 False (-1) = Inr cfg \<and> kvservers cfg ! 2 = Some s \<and>
     ShutdownServer kv_service (int 2) cfg = Inr cfg1 \<and> StartServer kv_service sample_names2 7 9 (int 2) cfg1 = Inr cfg3 \<and>
     kvservers cfg3 = (kvservers cfg1)[2 := Some s'] \<and> log (kvs_rf s') = log (kvs_rf s)"
proof -
  obtain cfg s cfg1 where c: "kmake_config kv_service 0 sample_names (\<lambda>_. 0) (\<lambda>_. 0) 3 False (-1) = Inr cfg" "kvservers cfg ! 2 = Some s" "saved (kvs_rf s)"
    "ShutdownServer kv_service (int 2) cfg = Inr cfg1" "set (map sample_names2 [0..<3]) \<inter> ends (knet cfg1) = {}"
    using sample_shutdown by (elim exE conjE) (rule that)
  show ?thesis
    using kv_restart_recovers [OF c(1) kreach.here _ c(2-4) down_run.here conjunct1 [OF sample_names2_fresh] c(5), of 7 9] c(1,2,4) by auto
qed

text \<open>
  The same holds of the servers of the shard master in their harness.
\<close>

theorem sm_restart_recovers:
  assumes "sm_make_config now0 randstring now rnd n unreliable = Inr cfg0" and "kreach sm_service cfg0 cfg"
    and "i < n" and "kvservers cfg ! i = Some s" and "saved (sm_rf s)"
    and "smc_ShutdownServer (int i) cfg = Inr cfg1" and "down_run sm_service i cfg1 cfg2"
    and "distinct (map names [0..<n])" and "set (map names [0..<n]) \<inter> ends (knet cfg2) = {}"
  shows "servers (knet cfg1) (int i) = None \<and>
    (\<exists>cfg3 s'. smc_StartServer names now1 rnd1 (int i) cfg2 = Inr cfg3 \<and> kvservers cfg3 = (kvservers cfg2)[i := Some s'] \<and>
        log (sm_rf s') = log (sm_rf s) \<and> currentTerm (sm_rf s') = currentTerm (sm_rf s) \<and> votedFor (sm_rf s') = votedFor (sm_rf s) \<and>
        persister (sm_rf s') = persister (sm_rf s) \<and> state (sm_rf s') = Follower \<and> commitIndex (sm_rf s') = 0 \<and>
        lastApplied (sm_rf s') = 0 \<and> dead (sm_rf s') = 0)"
proof -
  have rf: "srv_rf sm_service = sm_rf" by (simp add: sm_service_def)
  show ?thesis
    using sm.restart [OF assms(1) [unfolded sm_make_config_def] assms(2-4), unfolded rf, OF assms(5)] assms(6-9)
    unfolding smc_ShutdownServer_def smc_StartServer_def by fastforce
qed

theorem sm_restart_recovers_witness:
  "\<exists>cfg s cfg1 cfg3 s'. sm_make_config 0 sample_names (\<lambda>_. 0) (\<lambda>_. 0) 3 False = Inr cfg \<and> kvservers cfg ! 2 = Some s \<and>
     smc_ShutdownServer (int 2) cfg = Inr cfg1 \<and> smc_StartServer sample_names2 7 9 (int 2) cfg1 = Inr cfg3 \<and>
     kvservers cfg3 = (kvservers cfg1)[2 := Some s'] \<and> log (sm_rf s') = log (sm_rf s)"
proof -
  obtain cfg where c: "kmake_config sm_service 0 sample_names (\<lambda>_. 0) (\<lambda>_. 0) 3 False 0 = Inr cfg" "fresh_servers sm_service 3 3 cfg"
    "ends (knet cfg) = (\<lambda>(i, j). sample_names i j) ` ({..<3} \<times> {..<3})" using sm.config_total [OF sample_names_inj] by blast
  obtain s where "kvservers cfg ! 2 = Some s" "saved (srv_rf sm_service s)" using c(2) unfolding fresh_servers_def by (metis lessI numeral_2_eq_2 numeral_3_eq_3)
  then have s: "kvservers cfg ! 2 = Some s" "saved (sm_rf s)" by (simp_all add: sm_service_def)
  have i: "kinv cfg" "all_rows cfg" "kn cfg = 3" using kmake_config_inv [OF c(1)] by auto
  obtain cfg1 where "ShutdownServer sm_service (int 2) cfg = Inr cfg1" and e: "ends (knet cfg1) = ends (knet cfg)"
    using shutdown_total [OF i(1,2), of 2 sm_service] i(3) by auto
  then have c1: "smc_ShutdownServer (int 2) cfg = Inr cfg1" by (simp add: smc_ShutdownServer_def)
  have f: "set (map sample_names2 [0..<3]) \<inter> ends (knet cfg1) = {}" using sample_names2_fresh unfolding e c(3) by (rule conjunct2)
  have m: "sm_make_config 0 sample_names (\<lambda>_. 0) (\<lambda>_. 0) 3 False = Inr cfg" using c(1) by (simp add: sm_make_config_def)
  show ?thesis
    using sm_restart_recovers [OF m kreach.here _ s c1 down_run.here conjunct1 [OF sample_names2_fresh] f, of 7 9] m s(1) c1 by auto
qed

subsection \<open>An even number of servers\<close>

lemma make_partition_even:
  assumes run: "running_all cfg" and n: "kn cfg = 2 * k" and k: "2 \<le> k"
  shows "make_partition obs cfg =
    (let l = leader_or_0 obs (kn cfg) in Inr (map int (take (k + 1) (others l (kn cfg))), map int (drop (k + 1) (others l (kn cfg)) @ [0, l])))"
proof -
  let ?n = "kn cfg" and ?l = "leader_or_0 obs (kn cfg)"
  let ?o = "others ?l ?n"
  obtain b where L: "find_Leader obs cfg = Inr (b, int ?l)" using find_Leader_all [OF run] by blast
  have l: "?l < ?n" using leader_or_0_less n k by simp
  have fs: "filter (\<lambda>x. x \<noteq> int ?l) (map int [0..<?n]) = map int ?o" by (simp add: others_def filter_map comp_def)
  have len: "length ?o = 2 * k - 1" using others_length [OF l] n by simp
  have dv: "?n div 2 = k" using n by simp
  have "replicate (k + 1) (0 :: int) @ replicate k 0 = replicate (2 * k + 1) 0" by (simp add: replicate_add [symmetric] mult_2)
  moreover have "2 * k + 1 - (2 * k - 1) = 2" using k by simp
  ultimately have k0: "drop (2 * k - 1) (replicate (k + 1) (0 :: int) @ replicate k 0) = [0, 0]"
    by (simp only: drop_replicate) (simp add: numeral_2_eq_2)
  have loop: "fold_res (fill_partition (int ?l)) (map int [0..<?n]) (replicate (k + 1) 0, replicate k 0, 0) =
    Inr (map int (take (k + 1) ?o), map int (drop (k + 1) ?o) @ [0, 0], int (2 * k - 1))"
    using fill_loop [of "int ?l" "map int [0..<?n]" "replicate (k + 1) 0" "replicate k (0 :: int)"] k
    unfolding fs length_map len k0 Let_def length_replicate by (simp add: take_map drop_map len)
  have "go_update (map int (drop (k + 1) ?o) @ [0, 0]) (go_len (map int (drop (k + 1) ?o) @ [0, 0]) - 1) (int ?l) =
    Inr (map int (drop (k + 1) ?o) @ [0, int ?l])"
    by (simp add: go_update_def go_len_def list_update_append nat_add_distrib)
  then show ?thesis using L loop by (simp add: make_partition_def dv Let_def)
qed

text \<open>
  With an even number of servers (four or more) the two groups of \<open>make_partition\<close> are not a
  partition: unless it leads, server 0 is in both of them.
\<close>

theorem make_partition_even_overlaps:
  assumes "length (kvservers cfg) = kn cfg" and "\<forall>i < kn cfg. kvservers cfg ! i \<noteq> None" and "kn cfg = 2 * k" and "2 \<le> k"
    and "0 < l" and "l < kn cfg" and "obs (int l)" and "\<not> obs 0"
  shows "\<exists>p1 p2. make_partition obs cfg = Inr (p1, p2) \<and> 0 \<in> set p1 \<and> 0 \<in> set p2"
proof -
  let ?l = "leader_or_0 obs (kn cfg)"
  have run: "running_all cfg" using assms(1,2) by (simp add: running_all_def)
  have ob: "obs (int ?l)" using leader_or_0_leads [of l "kn cfg" obs] assms(6,7) by simp
  have "?l \<noteq> 0"
  proof
    assume "?l = 0"
    then show False using ob assms(8) by simp
  qed
  then have "others ?l (kn cfg) ! 0 = 0" "others ?l (kn cfg) \<noteq> []" using assms(3,4) by (simp_all add: others_def upt_conv_Cons)
  then have "0 \<in> set (take (k + 1) (others ?l (kn cfg)))" by (cases "others ?l (kn cfg)") simp_all
  then show ?thesis using make_partition_even [OF run assms(3,4), of obs] by (simp add: Let_def)
qed

theorem make_partition_even_overlaps_witness:
  "\<exists>cfg p1 p2. kmake_config kv_service 0 sample_names (\<lambda>_. 0) (\<lambda>_. 0) 4 False (-1) = Inr cfg \<and>
     make_partition (\<lambda>i. i = 1) cfg = Inr (p1, p2) \<and> 0 \<in> set p1 \<and> 0 \<in> set p2"
proof -
  obtain cfg where c: "kmake_config kv_service 0 sample_names (\<lambda>_. 0) (\<lambda>_. 0) 4 False (-1) = Inr cfg" "running_all cfg"
    using kv.config_total [OF sample_names_inj] by blast
  have "kn cfg = 4" using kmake_config_inv [OF c(1)] by simp
  then show ?thesis using make_partition_even_overlaps [of cfg 2 1 "\<lambda>i. i = 1"] c by (auto simp: running_all_def)
qed

subsection \<open>Sizes\<close>

lemma max_size_all:
  assumes len: "length (kvservers cfg) = kn cfg" "length (ksaved cfg) = kn cfg" and some: "\<And>i. i < kn cfg \<Longrightarrow> held sv cfg i \<noteq> None"
  shows "max_size sv sz cfg = Inr (Max (insert 0 ((\<lambda>i. sz (the (held sv cfg i))) ` {..<kn cfg})))"
proof -
  have "fold_res (\<lambda>i m. bind_res (ksaved_now sv i cfg) (\<lambda>ps. case ps of
        None \<Rightarrow> Inl NilDereference | Some p \<Rightarrow> Inr (let n = sz p in if n > m then n else m))) (map int [0..<k]) 0 =
      Inr (Max (insert 0 ((\<lambda>i. sz (the (held sv cfg i))) ` {..<k})))" if "k \<le> kn cfg" for k
    using that
  proof (induction k)
    case (Suc k)
    obtain p where p: "held sv cfg k = Some p" using some [of k] Suc.prems by auto
    define m where "m = Max (insert 0 ((\<lambda>i. sz (the (held sv cfg i))) ` {..<k}))"
    have "insert 0 ((\<lambda>i. sz (the (held sv cfg i))) ` {..<Suc k}) = insert (sz p) (insert 0 ((\<lambda>i. sz (the (held sv cfg i))) ` {..<k}))"
      using p by (auto simp: lessThan_Suc)
    then have "Max (insert 0 ((\<lambda>i. sz (the (held sv cfg i))) ` {..<Suc k})) = max (sz p) m"
      by (simp only: m_def Max_insert finite_insert finite_imageI finite_lessThan insert_not_empty not_False_eq_True)
    then show ?case using Suc.IH Suc.prems p ksaved_now_held [of k cfg sv] len unfolding m_def [symmetric] by (simp add: fold_res_snoc Let_def max_def)
  qed simp
  from this [OF order.refl] show ?thesis by (simp add: max_size_def)
qed

end
