(* ===== verification/MR_Encoding.thy ===== *)
theory MR_Encoding
  imports Go_Prelude "HOL-Library.List_Lexorder" "HOL-Library.Char_ord"
begin

section \<open>Strings, numbers, JSON and hashing as the workers use them\<close>

text \<open>
  A Go string is a list of bytes, ordered lexicographically. \<open>strconv.Itoa\<close>, the FNV-1a hash of
  \<open>hash/fnv\<close> at its 32 bits, and the part of \<open>encoding/json\<close> that the workers use: the
  encoder for a \<open>KeyValue\<close> and a decoder for such objects. Both are exact for ASCII, which the
  properties of theory \<open>MR_Results\<close> ask for (Go replaces bytes that are not UTF-8); text that is
  not a sequence of objects as the encoder writes them is a decoding error.
\<close>

definition ascii :: "string \<Rightarrow> bool" where
  "ascii s \<longleftrightarrow> (\<forall>c \<in> set s. (of_char c :: nat) < 128)"

record KeyValue =
  Key :: string
  Value :: string

definition ascii_pair :: "KeyValue \<Rightarrow> bool" where
  "ascii_pair kv \<longleftrightarrow> ascii (Key kv) \<and> ascii (Value kv)"

subsection \<open>Decimal numerals\<close>

fun digits :: "nat \<Rightarrow> string" where
  "digits n = (if n < 10 then [char_of (48 + n)] else digits (n div 10) @ [char_of (48 + n mod 10)])"

declare digits.simps [simp del]

definition Itoa :: "int \<Rightarrow> string" where
  "Itoa i = (if i < 0 then CHR ''-'' # digits (nat (- i)) else digits (nat i))"

definition digits_value :: "string \<Rightarrow> nat" where
  "digits_value s = foldl (\<lambda>v c. v * 10 + (of_char c - 48)) 0 s"

lemma digits_value_digits: "digits_value (digits n) = n"
proof (induction n rule: digits.induct)
  case (1 n)
  show ?case
  proof (cases "n < 10")
    case True
    then show ?thesis by (simp add: digits.simps digits_value_def of_char_of)
  next
    case False
    have b: "(48 + n mod 10) mod 256 = 48 + n mod 10" by (rule mod_less) (simp add: less_le_trans [of _ 10])
    have "digits_value (digits n) = digits_value (digits (n div 10)) * 10 + n mod 10"
      using False digits.simps [of n] b by (simp add: digits_value_def)
    then show ?thesis using 1 False by simp
  qed
qed

lemma digits_inject [simp]: "digits m = digits n \<longleftrightarrow> m = n"
  using digits_value_digits by metis

lemma digits_nonempty [simp]: "digits n \<noteq> []"
  by (simp add: digits.simps)

definition is_digit :: "char \<Rightarrow> bool" where
  "is_digit c \<longleftrightarrow> 48 \<le> (of_char c :: nat) \<and> (of_char c :: nat) < 58"

lemma is_digit_char_of: "d < 10 \<Longrightarrow> is_digit (char_of (48 + d :: nat))"
  by (simp add: is_digit_def)

lemma digits_are_digits: "c \<in> set (digits n) \<Longrightarrow> is_digit c"
proof (induction n rule: digits.induct)
  case (1 n)
  then show ?case
    using is_digit_char_of [of n] is_digit_char_of [of "n mod 10"] digits.simps [of n]
    by (auto split: if_splits)
qed

lemma Itoa_nat [simp]: "Itoa (int n) = digits n"
  by (simp add: Itoa_def)

subsection \<open>The hash that chooses the reduce task\<close>

unbundle bit_operations_syntax

definition fnv32a_step :: "char \<Rightarrow> 32 word \<Rightarrow> 32 word" where
  "fnv32a_step c h = (h XOR of_char c) * 16777619"

definition fnv32a :: "string \<Rightarrow> 32 word" where
  "fnv32a s = fold fnv32a_step s 2166136261"

definition ihash :: "string \<Rightarrow> int" where
  "ihash key = uint (fnv32a key AND 0x7fffffff)"

lemma ihash_bounds: "0 \<le> ihash key \<and> ihash key < 2 ^ 31"
proof -
  have "fnv32a key AND 0x7fffffff \<le> (0x7fffffff :: 32 word)" by (rule word_and_le1)
  then have "uint (fnv32a key AND 0x7fffffff) \<le> uint (0x7fffffff :: 32 word)" by (simp only: word_le_def)
  then show ?thesis by (simp add: ihash_def)
qed

subsection \<open>JSON\<close>

definition hex_digit :: "nat \<Rightarrow> char" where
  "hex_digit d = (if d < 10 then char_of (48 + d) else char_of (87 + d))"

definition hex_value :: "char \<Rightarrow> nat option" where
  "hex_value c =
     (let n = of_char c in
      if 48 \<le> n \<and> n \<le> 57 then Some (n - 48)
      else if 97 \<le> n \<and> n \<le> 102 then Some (n - 87)
      else if 65 \<le> n \<and> n \<le> 70 then Some (n - 55)
      else None)"

text \<open>How the encoder writes one byte of a string (with HTML escaping, the default).\<close>

definition json_escape :: "char \<Rightarrow> string" where
  "json_escape c =
     (let n = (of_char c :: nat) in
      if n = 34 \<or> n = 92 then [CHR 0x5C, c]
      else if n = 10 then [CHR 0x5C, CHR ''n'']
      else if n = 13 then [CHR 0x5C, CHR ''r'']
      else if n = 9 then [CHR 0x5C, CHR ''t'']
      else if n < 32 \<or> n = 60 \<or> n = 62 \<or> n = 38
      then [CHR 0x5C, CHR ''u'', CHR ''0'', CHR ''0'', hex_digit (n div 16), hex_digit (n mod 16)]
      else [c])"

definition json_string :: "string \<Rightarrow> string" where
  "json_string s = CHR 0x22 # concat (map json_escape s) @ [CHR 0x22]"

definition key_field :: string where
  "key_field = [CHR 0x7B, CHR 0x22, CHR ''K'', CHR ''e'', CHR ''y'', CHR 0x22, CHR 0x3A]"

definition value_field :: string where
  "value_field = [CHR 0x2C, CHR 0x22, CHR ''V'', CHR ''a'', CHR ''l'', CHR ''u'', CHR ''e'', CHR 0x22, CHR 0x3A]"

text \<open>\<open>enc.Encode(&kv)\<close>: the object and a newline.\<close>

definition json_encode :: "KeyValue \<Rightarrow> string" where
  "json_encode kv = key_field @ json_string (Key kv) @ value_field @ json_string (Value kv) @ [CHR 0x7D, CHR 0x0A]"

text \<open>The next byte of a string literal: \<open>Some (None, r)\<close> at its closing quote.\<close>

definition hex4 :: "string \<Rightarrow> (char option \<times> string) option" where
  "hex4 s =
     (case s of
        a # b # c # d # r \<Rightarrow>
          (case (hex_value a, hex_value b, hex_value c, hex_value d) of
             (Some 0, Some 0, Some x, Some y) \<Rightarrow>
               if 16 * x + y < 128 then Some (Some (char_of (16 * x + y)), r) else None
           | _ \<Rightarrow> None)
      | _ \<Rightarrow> None)"

definition next_char :: "string \<Rightarrow> (char option \<times> string) option" where
  "next_char s =
     (case s of
        [] \<Rightarrow> None
      | c # r \<Rightarrow>
          if c = CHR 0x22 then Some (None, r)
          else if c = CHR 0x5C
          then (case r of
                  [] \<Rightarrow> None
                | e # r' \<Rightarrow>
                    if e = CHR 0x22 \<or> e = CHR 0x5C \<or> e = CHR 0x2F then Some (Some e, r')
                    else if e = CHR ''n'' then Some (Some (CHR 0x0A), r')
                    else if e = CHR ''r'' then Some (Some (CHR 0x0D), r')
                    else if e = CHR ''t'' then Some (Some (CHR 0x09), r')
                    else if e = CHR ''b'' then Some (Some (CHR 0x08), r')
                    else if e = CHR ''f'' then Some (Some (CHR 0x0C), r')
                    else if e = CHR ''u'' then hex4 r'
                    else None)
          else if (of_char c :: nat) < 32 then None
          else Some (Some c, r))"

lemma hex4_shorter: "hex4 s = Some (c, r) \<Longrightarrow> length r < length s"
  by (auto simp: hex4_def split: list.splits option.splits nat.splits if_splits)

lemma next_char_shorter: "next_char s = Some (c, r) \<Longrightarrow> length r < length s"
  by (auto simp: next_char_def split: list.splits if_splits dest: hex4_shorter)

function json_unquote :: "string \<Rightarrow> (string \<times> string) option" where
  "json_unquote s =
     (case next_char s of
        None \<Rightarrow> None
      | Some (None, r) \<Rightarrow> Some ([], r)
      | Some (Some c, r) \<Rightarrow> map_option (\<lambda>(t, r'). (c # t, r')) (json_unquote r))"
  by pat_completeness auto
termination
  by (relation "measure length") (auto dest: next_char_shorter)

declare json_unquote.simps [simp del]

definition expect :: "string \<Rightarrow> string \<Rightarrow> string option" where
  "expect lit s = (if take (length lit) s = lit then Some (drop (length lit) s) else None)"

definition is_space :: "char \<Rightarrow> bool" where
  "is_space c \<longleftrightarrow> c = CHR '' '' \<or> c = CHR 0x0A \<or> c = CHR 0x0D \<or> c = CHR 0x09"

text \<open>\<open>dec.Decode(&kv)\<close>: the object read and the text left.\<close>

definition json_decode :: "string \<Rightarrow> (KeyValue \<times> string) option" where
  "json_decode s =
     Option.bind (expect (key_field @ [CHR 0x22]) (dropWhile is_space s)) (\<lambda>s1.
     Option.bind (json_unquote s1) (\<lambda>(k, s2).
     Option.bind (expect (value_field @ [CHR 0x22]) s2) (\<lambda>s3.
     Option.bind (json_unquote s3) (\<lambda>(v, s4).
     Option.bind (expect [CHR 0x7D] s4) (\<lambda>s5. Some (\<lparr>Key = k, Value = v\<rparr>, s5))))))"

lemma json_unquote_shorter: "json_unquote s = Some (t, r) \<Longrightarrow> length r < length s"
proof (induction s arbitrary: t rule: json_unquote.induct)
  case (1 s)
  obtain c r1 where n: "next_char s = Some (c, r1)"
    using "1.prems" by (subst (asm) json_unquote.simps) (auto split: option.splits)
  note lt = next_char_shorter [OF n]
  show ?case
  proof (cases c)
    case None
    then show ?thesis using "1.prems" n lt by (subst (asm) json_unquote.simps) simp
  next
    case (Some d)
    then obtain t1 where "json_unquote r1 = Some (t1, r)"
      using "1.prems" n by (subst (asm) json_unquote.simps) auto
    from "1.IH" [OF n refl Some this] show ?thesis using lt by linarith
  qed
qed

lemma expect_shorter: "expect lit s = Some r \<Longrightarrow> length r \<le> length s"
  by (auto simp: expect_def split: if_splits)

lemma json_decode_shorter:
  assumes "json_decode s = Some (kv, r)"
  shows "length r < length s"
proof -
  obtain s1 k s2 s3 v s4 where e: "expect (key_field @ [CHR 0x22]) (dropWhile is_space s) = Some s1"
      "json_unquote s1 = Some (k, s2)" "expect (value_field @ [CHR 0x22]) s2 = Some s3"
      "json_unquote s3 = Some (v, s4)" "expect [CHR 0x7D] s4 = Some r"
    using assms by (auto simp: json_decode_def bind_eq_Some_conv)
  show ?thesis
    using e(1,3,5) [THEN expect_shorter] e(2,4) [THEN json_unquote_shorter] length_dropWhile_le [of is_space s]
    by linarith
qed

text \<open>The decoding loop: values until the first error (the end of the file is one).\<close>

function decode_loop :: "string \<Rightarrow> KeyValue list" where
  "decode_loop s = (case json_decode s of None \<Rightarrow> [] | Some (kv, r) \<Rightarrow> kv # decode_loop r)"
  by pat_completeness auto
termination
  by (relation "measure length") (auto dest: json_decode_shorter)

declare decode_loop.simps [simp del]

subsection \<open>Decoding what was encoded\<close>

lemma hex_value_digit: "d < 16 \<Longrightarrow> hex_value (hex_digit d) = Some d"
  by (auto simp: hex_value_def hex_digit_def Let_def)

lemma char_code: "c = d \<longleftrightarrow> (of_char c :: nat) = of_char d"
  by (simp add: of_char_eq_iff)

lemma hex4_code: "n < 128 \<Longrightarrow> hex4 (CHR ''0'' # CHR ''0'' # hex_digit (n div 16) # hex_digit (n mod 16) # r) = Some (Some (char_of n), r)"
  by (simp add: hex4_def hex_value_digit hex_value_def [of "CHR ''0''"] Let_def less_mult_imp_div_less)

lemma next_char_escape: "next_char (json_escape c @ r) = Some (Some c, r)"
proof -
  let ?n = "of_char c :: nat"
  consider (quote) "?n = 34 \<or> ?n = 92" | (nl) "?n = 10" | (cr) "?n = 13" | (tab) "?n = 9"
    | (hex) "?n \<noteq> 34" "?n \<noteq> 92" "?n \<noteq> 10" "?n \<noteq> 13" "?n \<noteq> 9" "?n < 32 \<or> ?n = 60 \<or> ?n = 62 \<or> ?n = 38"
    | (plain) "?n \<noteq> 34" "?n \<noteq> 92" "?n \<noteq> 10" "?n \<noteq> 13" "?n \<noteq> 9" "\<not> (?n < 32 \<or> ?n = 60 \<or> ?n = 62 \<or> ?n = 38)"
    by blast
  then show ?thesis
  proof cases
    case quote
    then show ?thesis by (auto simp: json_escape_def next_char_def Let_def char_code [of c])
  next
    case hex
    then have "hex4 (CHR ''0'' # CHR ''0'' # hex_digit (?n div 16) # hex_digit (?n mod 16) # r) = Some (Some c, r)"
      using hex4_code [of ?n r] by auto
    moreover have "json_escape c = [CHR 0x5C, CHR ''u'', CHR ''0'', CHR ''0'', hex_digit (?n div 16), hex_digit (?n mod 16)]"
      using hex unfolding json_escape_def Let_def by presburger
    ultimately show ?thesis by (simp add: next_char_def)
  next
    case plain
    then show ?thesis by (simp add: json_escape_def next_char_def Let_def char_code [of c])
  qed (simp_all add: json_escape_def next_char_def Let_def char_code [of _ c])
qed

lemma json_unquote_escaped:
  "json_unquote (concat (map json_escape s) @ CHR 0x22 # r) = Some (s, r)"
proof (induction s)
  case Nil
  then show ?case by (simp add: json_unquote.simps next_char_def)
next
  case (Cons c s)
  then show ?case by (subst json_unquote.simps) (simp add: next_char_escape)
qed

lemma expect_append [simp]: "expect lit (lit @ s) = Some s"
  by (simp add: expect_def)

lemma json_decode_encode: "json_decode (json_encode kv @ r) = Some (kv, CHR 0x0A # r)"
proof -
  let ?v = "concat (map json_escape (Value kv)) @ CHR 0x22 # [CHR 0x7D, CHR 0x0A] @ r"
  let ?k = "concat (map json_escape (Key kv)) @ CHR 0x22 # (value_field @ [CHR 0x22]) @ ?v"
  have e: "json_encode kv @ r = (key_field @ [CHR 0x22]) @ ?k"
    by (simp add: json_encode_def json_string_def)
  have d: "dropWhile is_space ((key_field @ [CHR 0x22]) @ ?k) = (key_field @ [CHR 0x22]) @ ?k"
    by (simp add: key_field_def is_space_def)
  show ?thesis
    unfolding e json_decode_def d expect_append json_unquote_escaped Option.bind.simps prod.case
    by (simp add: expect_def)
qed

lemma json_decode_newline: "json_decode (CHR 0x0A # s) = json_decode s"
  by (simp add: json_decode_def is_space_def)

lemma decode_loop_newline: "decode_loop (CHR 0x0A # s) = decode_loop s"
  by (simp add: decode_loop.simps json_decode_newline)

lemma decode_loop_encode: "decode_loop (concat (map json_encode kvs)) = kvs"
proof (induction kvs)
  case Nil
  then show ?case by (simp add: decode_loop.simps json_decode_def expect_def key_field_def)
next
  case (Cons kv kvs)
  then show ?case
    by (subst decode_loop.simps) (simp add: json_decode_encode decode_loop_newline)
qed

end
