(* ===== verification/Harness_Shard.thy ===== *)
theory Harness_Shard
  imports Harness_Services MR_Encoding
begin

section \<open>The test harness of the sharded store (shardkv/config.go)\<close>

text \<open>
  Three shard masters and three groups of servers on one network whose servers are known by strings.
  Names of ends, the clock and random numbers are arguments; a pointer to a clerk is a number, and an end
  is known by its name. A nil group is \<open>None\<close>. Servers made so far are in \<open>ssrvs\<close>, by number; the number
  is also that of the instance behind the services, a server of a group or a shard master. A failed test is the
  error \<open>LogFatal\<close>.
\<close>

record group =
  gg_gid :: int
  gg_servers :: "ShardKV option list"
  gg_saved :: "unit gob_item Persister option list"
  gg_endnames :: "string list option list"
  gg_mendnames :: "string list option list"

datatype shard_object = StoreObj ShardKV | MasterObj ShardMaster

record skconfig =
  snet :: "(string, string) Network"
  sstart :: int
  nmasters :: nat
  masterservers :: "ShardMaster option list"
  mck :: "string sm_Clerk option"
  ngroups :: nat
  sn :: nat
  groups :: "group option list"
  sclerks :: "nat \<Rightarrow> string list option"
  snextClientId :: int
  smaxraftstate :: int
  snextsrv :: nat
  ssrvs :: "nat \<Rightarrow> (unit svc_args, svc_reply, shard_object objects) Server"

definition scheckTimeout :: "int \<Rightarrow> bool \<Rightarrow> skconfig \<Rightarrow> unit res" where
  "scheckTimeout now failed cfg =
     (if \<not> failed \<and> now - sstart cfg > 120 * 1000 * Millisecond then Inl (LogFatal ''test took longer than 120 seconds'') else Inr ())"

definition mastername :: "int \<Rightarrow> string" where
  "mastername i = ''master'' @ Itoa i"

definition servername :: "int \<Rightarrow> int \<Rightarrow> string" where
  "servername gid i = ''server-'' @ Itoa gid @ ''-'' @ Itoa i"

subsection \<open>Ends\<close>

text \<open>The three calls every new end goes through; this is also the function that clerks and servers get to make ends.\<close>

definition make_end :: "string \<Rightarrow> string \<Rightarrow> (string, string) Network \<Rightarrow> (string, string) Network res" where
  "make_end nm server rn = bind_res (MakeEnd nm rn) (\<lambda>rn1. Inr (Enable nm True (Connect nm server rn1)))"

definition make_ends :: "(nat \<Rightarrow> string) \<Rightarrow> (nat \<Rightarrow> string) \<Rightarrow> nat \<Rightarrow> (string, string) Network \<Rightarrow> (string, string) Network res" where
  "make_ends names dest m rn = fold_res (\<lambda>j. make_end (names j) (dest j)) [0..<m] rn"

text \<open>The slice of names has \<open>cfg.n\<close> elements, the loop runs over the masters.\<close>

definition smakeClient :: "(nat \<Rightarrow> string) \<Rightarrow> nat \<Rightarrow> skconfig \<Rightarrow> (string kv_Clerk \<times> skconfig) res" where
  "smakeClient randstring ck cfg =
     bind_res (fold_res (\<lambda>j (endnames, rn). bind_res (go_update endnames (int j) (randstring j)) (\<lambda>endnames1.
                 bind_res (make_end (randstring j) (mastername (int j)) rn) (\<lambda>rn1. Inr (endnames1, rn1))))
               [0..<nmasters cfg] (replicate (sn cfg) '''', snet cfg)) (\<lambda>(endnames, rn).
       Inr (kv_MakeClerk (map randstring [0..<nmasters cfg]),
            cfg\<lparr>snet := rn, sclerks := (sclerks cfg)(ck \<mapsto> endnames), snextClientId := snextClientId cfg + 1\<rparr>))"

text \<open>The calls of \<open>os.Remove\<close> on the names of the ends are left out: they name no part of the state, only files.\<close>

definition sdeleteClient :: "nat \<Rightarrow> skconfig \<Rightarrow> skconfig" where
  "sdeleteClient ck cfg = cfg\<lparr>sclerks := (sclerks cfg)(ck := None)\<rparr>"

subsection \<open>Servers\<close>

text \<open>The Raft peer of an instance, and the services of the two kinds of instances.\<close>

fun store_of :: "shard_object \<Rightarrow> ShardKV option" where
  "store_of (StoreObj kv) = Some kv"
| "store_of (MasterObj sm) = None"

fun master_of :: "shard_object \<Rightarrow> ShardMaster option" where
  "master_of (StoreObj kv) = None"
| "master_of (MasterObj sm) = Some sm"

fun obj_rf :: "shard_object \<Rightarrow> unit Raft" where
  "obj_rf (StoreObj kv) = skv_rf kv"
| "obj_rf (MasterObj sm) = sm_Raft sm"

fun put_obj_rf :: "unit Raft \<Rightarrow> shard_object \<Rightarrow> shard_object" where
  "put_obj_rf rf (StoreObj kv) = StoreObj (kv\<lparr>skv_rf := rf\<rparr>)"
| "put_obj_rf rf (MasterObj sm) = MasterObj (sm\<lparr>sm_rf := rf\<rparr>)"

definition store_server :: "nat \<Rightarrow> (unit svc_args, svc_reply, shard_object objects) Server" where
  "store_server p = two_services ''ShardKV'' (ShardKV_methods store_of StoreObj p) obj_rf put_obj_rf p"

definition master_server :: "nat \<Rightarrow> (unit svc_args, svc_reply, shard_object objects) Server" where
  "master_server p = two_services ''ShardMaster'' (ShardMaster_methods master_of MasterObj p) obj_rf put_obj_rf p"

definition the_group :: "int \<Rightarrow> skconfig \<Rightarrow> group res" where
  "the_group gi cfg = bind_res (go_index (groups cfg) gi) (\<lambda>g. case g of None \<Rightarrow> Inl NilDereference | Some gg \<Rightarrow> Inr gg)"

text \<open>What \<open>gg.saved[i]\<close> holds at the moment: the persister of the peer that runs with it.\<close>

definition gsaved_now :: "int \<Rightarrow> group \<Rightarrow> unit gob_item Persister option res" where
  "gsaved_now i gg =
     bind_res (go_index (gg_servers gg) i) (\<lambda>s.
     bind_res (go_index (gg_saved gg) i) (\<lambda>ps.
       Inr (case (s, ps) of (Some s1, Some _) \<Rightarrow> Some (persister (skv_rf s1)) | _ \<Rightarrow> ps)))"

text \<open>Indexing a nil slice is out of range; its length is 0.\<close>

definition nil_slice :: "'a list option \<Rightarrow> 'a list" where
  "nil_slice xs = (case xs of None \<Rightarrow> [] | Some l \<Rightarrow> l)"

definition disable :: "string list option \<Rightarrow> nat \<Rightarrow> (string, string) Network \<Rightarrow> (string, string) Network res" where
  "disable names m rn = fold_res (\<lambda>j r. bind_res (go_index (nil_slice names) (int j)) (\<lambda>nm. Inr (Enable nm False r))) [0..<m] rn"

definition sShutdownServer :: "int \<Rightarrow> int \<Rightarrow> skconfig \<Rightarrow> skconfig res" where
  "sShutdownServer gi i cfg =
     bind_res (the_group gi cfg) (\<lambda>gg.
     bind_res (fold_res (\<lambda>j r. bind_res (go_index (gg_endnames gg) i) (\<lambda>ns. bind_res (go_index (nil_slice ns) (int j)) (\<lambda>nm. Inr (Enable nm False r))))
        [0..<length (gg_servers gg)] (snet cfg)) (\<lambda>rn1.
     bind_res (go_index (gg_mendnames gg) i) (\<lambda>ms.
     bind_res (disable ms (length (nil_slice ms)) rn1) (\<lambda>rn2.
     let rn3 = DeleteServer (servername (gg_gid gg) i) rn2 in
     bind_res (gsaved_now i gg) (\<lambda>ps.
     bind_res (go_update (gg_saved gg) i (map_option Copy ps)) (\<lambda>svd.
     bind_res (go_update (gg_servers gg) i None) (\<lambda>ss.
     bind_res (go_update (groups cfg) gi (Some (gg\<lparr>gg_servers := ss, gg_saved := svd\<rparr>))) (\<lambda>gs.
       Inr (cfg\<lparr>snet := rn3, groups := gs\<rparr>)))))))))"

definition ShutdownGroup :: "int \<Rightarrow> skconfig \<Rightarrow> skconfig res" where
  "ShutdownGroup gi cfg = fold_res (\<lambda>i c. sShutdownServer gi (int i) c) [0..<sn cfg] cfg"

text \<open>\<open>names\<close> are the random names of the ends to the group, \<open>mnames\<close> of those to the masters.\<close>

definition sStartServer :: "(nat \<Rightarrow> string) \<Rightarrow> (nat \<Rightarrow> string) \<Rightarrow> int \<Rightarrow> int \<Rightarrow> int \<Rightarrow> int \<Rightarrow> skconfig \<Rightarrow> skconfig res" where
  "sStartServer names mnames now rnd gi i cfg =
     bind_res (the_group gi cfg) (\<lambda>gg.
     bind_res (go_update (gg_endnames gg) i (Some (map names [0..<sn cfg]))) (\<lambda>es.
     bind_res (make_ends names (\<lambda>j. servername (gg_gid gg) (int j)) (sn cfg) (snet cfg)) (\<lambda>rn1.
     bind_res (go_update (gg_mendnames gg) i (Some (map mnames [0..<nmasters cfg]))) (\<lambda>ms.
     bind_res (make_ends mnames (\<lambda>j. mastername (int j)) (nmasters cfg) rn1) (\<lambda>rn2.
     bind_res (gsaved_now i gg) (\<lambda>ps0.
     let ps = (case ps0 of Some p \<Rightarrow> Copy p | None \<Rightarrow> MakePersister) in
     bind_res (go_update (gg_saved gg) i (Some ps)) (\<lambda>svd.
     bind_res (skv_StartServer now rnd (sn cfg) i ps (smaxraftstate cfg) (gg_gid gg) (nmasters cfg)) (\<lambda>s.
     bind_res (go_update (gg_servers gg) i (Some s)) (\<lambda>ss.
     bind_res (go_update (groups cfg) gi (Some (gg\<lparr>gg_servers := ss, gg_saved := svd, gg_endnames := es, gg_mendnames := ms\<rparr>))) (\<lambda>gs.
       Inr (cfg\<lparr>snet := AddServer (servername (gg_gid gg) i) (snextsrv cfg) rn2, groups := gs, snextsrv := snextsrv cfg + 1,
                ssrvs := (ssrvs cfg)(snextsrv cfg := store_server (snextsrv cfg))\<rparr>)))))))))))"

definition StartGroup :: "(nat \<Rightarrow> nat \<Rightarrow> string) \<Rightarrow> (nat \<Rightarrow> nat \<Rightarrow> string) \<Rightarrow> (nat \<Rightarrow> int) \<Rightarrow> (nat \<Rightarrow> int) \<Rightarrow> int \<Rightarrow> skconfig \<Rightarrow> skconfig res" where
  "StartGroup names mnames now rnd gi cfg = fold_res (\<lambda>i c. sStartServer (names i) (mnames i) (now i) (rnd i) gi (int i) c) [0..<sn cfg] cfg"

definition StartMasterServer :: "(nat \<Rightarrow> string) \<Rightarrow> int \<Rightarrow> int \<Rightarrow> int \<Rightarrow> skconfig \<Rightarrow> skconfig res" where
  "StartMasterServer names now rnd i cfg =
     bind_res (make_ends names (\<lambda>j. mastername (int j)) (nmasters cfg) (snet cfg)) (\<lambda>rn.
     bind_res (sm_StartServer now rnd (nmasters cfg) i MakePersister) (\<lambda>s.
     bind_res (go_update (masterservers cfg) i (Some s)) (\<lambda>ms.
       Inr (cfg\<lparr>snet := AddServer (mastername i) (snextsrv cfg) rn, masterservers := ms, snextsrv := snextsrv cfg + 1,
                ssrvs := (ssrvs cfg)(snextsrv cfg := master_server (snextsrv cfg))\<rparr>))))"

definition shardclerk :: "(nat \<Rightarrow> string) \<Rightarrow> skconfig \<Rightarrow> (string sm_Clerk \<times> skconfig) res" where
  "shardclerk names cfg =
     bind_res (make_ends names (\<lambda>j. mastername (int j)) (nmasters cfg) (snet cfg)) (\<lambda>rn.
       Inr (sm_MakeClerk (map names [0..<nmasters cfg]), cfg\<lparr>snet := rn\<rparr>))"

subsection \<open>Joining and leaving\<close>

text \<open>The argument that \<open>joinm\<close> gives to \<open>Join\<close>.\<close>

definition join_map :: "int list \<Rightarrow> skconfig \<Rightarrow> (int \<Rightarrow> string list option) res" where
  "join_map gis cfg =
     fold_res (\<lambda>g m. bind_res (the_group g cfg) (\<lambda>gg. Inr (m(gg_gid gg \<mapsto> map (\<lambda>i. servername (gg_gid gg) (int i)) [0..<sn cfg])))) gis (\<lambda>_. None)"

definition joinm :: "(string, JoinArgs, JoinReply, 'w) call \<Rightarrow> ('w \<Rightarrow> 'w) \<Rightarrow> int list \<Rightarrow> skconfig \<Rightarrow> 'w \<Rightarrow> 'w option res" where
  "joinm call sleep gis cfg w =
     bind_res (join_map gis cfg) (\<lambda>m. case mck cfg of None \<Rightarrow> Inl NilDereference | Some ck \<Rightarrow> Inr (ck_Join call sleep ck m w))"

definition join_group :: "(string, JoinArgs, JoinReply, 'w) call \<Rightarrow> ('w \<Rightarrow> 'w) \<Rightarrow> int \<Rightarrow> skconfig \<Rightarrow> 'w \<Rightarrow> 'w option res" where
  "join_group call sleep gi cfg w = joinm call sleep [gi] cfg w"

definition leave_gids :: "int list \<Rightarrow> skconfig \<Rightarrow> int list res" where
  "leave_gids gis cfg = fold_res (\<lambda>g gids. bind_res (the_group g cfg) (\<lambda>gg. Inr (gids @ [gg_gid gg]))) gis []"

definition leavem :: "(string, LeaveArgs, LeaveReply, 'w) call \<Rightarrow> ('w \<Rightarrow> 'w) \<Rightarrow> int list \<Rightarrow> skconfig \<Rightarrow> 'w \<Rightarrow> 'w option res" where
  "leavem call sleep gis cfg w =
     bind_res (leave_gids gis cfg) (\<lambda>gids. case mck cfg of None \<Rightarrow> Inl NilDereference | Some ck \<Rightarrow> Inr (Leave call sleep ck gids w))"

definition leave_group :: "(string, LeaveArgs, LeaveReply, 'w) call \<Rightarrow> ('w \<Rightarrow> 'w) \<Rightarrow> int \<Rightarrow> skconfig \<Rightarrow> 'w \<Rightarrow> 'w option res" where
  "leave_group call sleep gi cfg w = leavem call sleep [gi] cfg w"

subsection \<open>Making, checking and ending\<close>

text \<open>The random choices of \<open>make_config\<close>: for the masters, their clerk, and the servers of the groups.\<close>

record choices =
  ch_master :: "nat \<Rightarrow> nat \<Rightarrow> string"
  ch_clerk :: "nat \<Rightarrow> string"
  ch_server :: "nat \<Rightarrow> nat \<Rightarrow> nat \<Rightarrow> string"
  ch_smaster :: "nat \<Rightarrow> nat \<Rightarrow> nat \<Rightarrow> string"
  ch_now :: "nat \<Rightarrow> int"
  ch_rnd :: "nat \<Rightarrow> int"

definition new_group :: "nat \<Rightarrow> nat \<Rightarrow> nat \<Rightarrow> group" where
  "new_group n nm gi =
     \<lparr>gg_gid = 100 + int gi, gg_servers = replicate n None, gg_saved = replicate n None, gg_endnames = replicate n None, gg_mendnames = replicate nm None\<rparr>"

definition smake_config :: "int \<Rightarrow> choices \<Rightarrow> nat \<Rightarrow> bool \<Rightarrow> int \<Rightarrow> skconfig res" where
  "smake_config now0 ch n unreliable maxr =
     (let cfg0 = \<lparr>snet = MakeNetwork, sstart = now0, nmasters = 3, masterservers = replicate 3 None, mck = None, ngroups = 0, sn = 0, groups = [],
                  sclerks = (\<lambda>_. None), snextClientId = 0, smaxraftstate = maxr, snextsrv = 0, ssrvs = (\<lambda>_. MakeServer)\<rparr>
      in bind_res (fold_res (\<lambda>i c. StartMasterServer (ch_master ch i) (ch_now ch i) (ch_rnd ch i) (int i) c) [0..<nmasters cfg0] cfg0) (\<lambda>cfg1.
         bind_res (shardclerk (ch_clerk ch) cfg1) (\<lambda>(ck, cfg2).
         let cfg3 = cfg2\<lparr>mck := Some ck, ngroups := 3, sn := n, groups := replicate 3 None\<rparr> in
         bind_res (fold_res (\<lambda>gi c. bind_res (go_update (groups c) (int gi) (Some (new_group (sn c) (nmasters c) gi))) (\<lambda>gs.
             StartGroup (ch_server ch gi) (ch_smaster ch gi) (ch_now ch) (ch_rnd ch) (int gi) (c\<lparr>groups := gs\<rparr>))) [0..<ngroups cfg3] cfg3) (\<lambda>cfg4.
           Inr (cfg4\<lparr>snextClientId := int (sn cfg4) + 1000, snet := Reliable (\<not> unreliable) (snet cfg4)\<rparr>)))))"

text \<open>\<open>bytes\<close> is the length of the encoding of what a persister holds.\<close>

definition check_server :: "(unit gob_item list \<Rightarrow> int) \<Rightarrow> int \<Rightarrow> unit gob_item Persister option \<Rightarrow> unit res" where
  "check_server bytes maxr ps =
     (case ps of None \<Rightarrow> Inl NilDereference | Some p \<Rightarrow>
        let raft = state_bytes bytes p; snap = snapshot_bytes bytes p in
        if maxr \<ge> 0 \<and> raft > 8 * maxr then Inl (LogFatal ''persister.RaftStateSize() too big'')
        else if maxr < 0 \<and> snap > 0 then Inl (LogFatal ''maxraftstate is -1, but snapshot is non-empty!'')
        else Inr ())"

definition checklogs :: "(unit gob_item list \<Rightarrow> int) \<Rightarrow> skconfig \<Rightarrow> unit res" where
  "checklogs bytes cfg =
     fold_res (\<lambda>gi _. bind_res (the_group (int gi) cfg) (\<lambda>gg.
       fold_res (\<lambda>i _. bind_res (gsaved_now (int i) gg) (check_server bytes (smaxraftstate cfg))) [0..<sn cfg] ())) [0..<ngroups cfg] ()"

definition scleanup :: "int \<Rightarrow> bool \<Rightarrow> skconfig \<Rightarrow> skconfig res" where
  "scleanup now failed cfg =
     bind_res (fold_res (\<lambda>gi c. ShutdownGroup (int gi) c) [0..<ngroups cfg] cfg) (\<lambda>cfg1.
     bind_res (Cleanup (snet cfg1)) (\<lambda>rn. bind_res (scheckTimeout now failed cfg1) (\<lambda>_. Inr (cfg1\<lparr>snet := rn\<rparr>))))"

end
