(* ===== verification/Harness_Shard_Runs.thy ===== *)
theory Harness_Shard_Runs
  imports Harness_Shard
begin

section \<open>Runs of the harness of the sharded store\<close>

text \<open>
  The names of servers are all different, so every end leads to one server; what is true of the ends
  of the servers in every run of a test; joining, restarts, and the sizes for which the harness fails.
\<close>

subsection \<open>Names\<close>

lemma digits_no_dash: "CHR ''-'' \<notin> set (digits n)"
  using digits_are_digits [of "CHR ''-''" n] by (auto simp: is_digit_def)

lemma split_at_dash:
  assumes "a @ CHR ''-'' # b = a' @ CHR ''-'' # b'" and "CHR ''-'' \<notin> set a" and "CHR ''-'' \<notin> set a'"
  shows "a = a' \<and> b = b'"
  using assms
proof (induction a arbitrary: a')
  case Nil
  then show ?case by (cases a') auto
next
  case (Cons x a)
  then show ?case by (cases a') auto
qed

lemma servername_inject [simp]: "servername (int g) (int i) = servername (int g') (int i') \<longleftrightarrow> g = g' \<and> i = i'"
  using split_at_dash [of "digits g" "digits i" "digits g'" "digits i'"] digits_no_dash by (auto simp: servername_def)

lemma mastername_inject [simp]: "mastername (int i) = mastername (int i') \<longleftrightarrow> i = i'"
  by (simp add: mastername_def)

lemma master_not_server [simp]: "mastername i \<noteq> servername g j" "servername g j \<noteq> mastername i"
  by (simp_all add: mastername_def servername_def)

lemma gid_name: "servername (100 + int gi) (int i) = servername (int (100 + gi)) (int i)"
  by simp

lemma servername_gid [simp]: "servername (100 + int gi) (int i) = servername (100 + int gj) (int j) \<longleftrightarrow> gi = gj \<and> i = j"
  unfolding gid_name servername_inject by auto

subsection \<open>New ends\<close>

lemma make_end_ok:
  assumes "make_end nm d rn = Inr rn'"
  shows "nm \<notin> ends rn" "ends rn' = insert nm (ends rn)" "servers rn' = servers rn" "enabled rn' = (enabled rn)(nm := True)"
    "connections rn' = (connections rn)(nm \<mapsto> d)" "reliable rn' = reliable rn" "longReordering rn' = longReordering rn"
  using assms by (auto simp: make_end_def bind_res_eq_Inr MakeEnd_def Connect_def Enable_def split: if_splits)

lemma make_end_fresh: "nm \<notin> ends rn \<Longrightarrow> \<exists>rn'. make_end nm d rn = Inr rn'"
  by (simp add: make_end_def MakeEnd_def)

lemma make_ends_ok:
  assumes "make_ends names dest m rn = Inr rn'"
  shows "inj_on names {..<m} \<and> names ` {..<m} \<inter> ends rn = {} \<and> ends rn' = ends rn \<union> names ` {..<m} \<and> servers rn' = servers rn \<and>
    (\<forall>e. enabled rn' e \<longleftrightarrow> e \<in> names ` {..<m} \<or> enabled rn e) \<and> (\<forall>j < m. connections rn' (names j) = Some (dest j)) \<and>
    (\<forall>e. e \<notin> names ` {..<m} \<longrightarrow> connections rn' e = connections rn e)"
  using assms
proof (induction m arbitrary: rn')
  case 0
  then show ?case by (simp add: make_ends_def)
next
  case (Suc m)
  obtain r where r: "make_ends names dest m rn = Inr r" "make_end (names m) (dest m) r = Inr rn'"
    using Suc.prems by (auto simp: make_ends_def fold_res_snoc bind_res_eq_Inr)
  note IH = Suc.IH [OF r(1)] and e = make_end_ok [OF r(2)]
  have new: "names m \<notin> names ` {..<m}" "names m \<notin> ends rn" using IH e(1) by auto
  have im: "names ` {..<Suc m} = insert (names m) (names ` {..<m})" by (auto simp: lessThan_Suc)
  have "inj_on names {..<Suc m}" using IH new by (auto simp: lessThan_Suc)
  moreover have "names j \<noteq> names m" if "j < m" for j using new(1) that by (metis imageI lessThan_iff)
  ultimately show ?case unfolding im using IH e new by (auto simp: less_Suc_eq)
qed

lemma make_ends_total:
  assumes "inj_on names {..<m}" and "names ` {..<m} \<inter> ends rn = {}"
  shows "\<exists>rn'. make_ends names dest m rn = Inr rn'"
  using assms
proof (induction m)
  case 0
  then show ?case by (simp add: make_ends_def)
next
  case (Suc m)
  have im: "names ` {..<Suc m} = insert (names m) (names ` {..<m})" by (auto simp: lessThan_Suc)
  have "inj_on names {..<m}" using Suc.prems(1) by (rule inj_on_subset) auto
  moreover have d: "names ` {..<m} \<inter> ends rn = {}" "names m \<notin> ends rn" using Suc.prems(2) unfolding im by auto
  ultimately obtain r where r: "make_ends names dest m rn = Inr r" using Suc.IH by blast
  have "names m \<notin> names ` {..<m}" using inj_onD [OF Suc.prems(1), of m] by force
  then have "names m \<notin> ends r" using make_ends_ok [OF r] d(2) by auto
  then show ?case using make_end_fresh r by (auto simp: make_ends_def fold_res_snoc)
qed

subsection \<open>The ends that servers use\<close>

text \<open>\<open>rw w\<close> are the ends of server \<open>w\<close> with the names they lead to, \<open>up w\<close> says whether it runs.\<close>

definition rows_up :: "(string, string) Network \<Rightarrow> (nat \<times> nat \<Rightarrow> (string \<times> string) set) \<Rightarrow> (nat \<times> nat \<Rightarrow> bool) \<Rightarrow> bool" where
  "rows_up rn rw up \<longleftrightarrow>
     (\<forall>w e d. (e, d) \<in> rw w \<longrightarrow> e \<in> ends rn \<and> connections rn e = Some d \<and> enabled rn e = up w) \<and>
     (\<forall>w w' e d d'. (e, d) \<in> rw w \<longrightarrow> (e, d') \<in> rw w' \<longrightarrow> w = w')"

lemma rows_up_grow:
  assumes "rows_up rn rw up" and "\<And>e. e \<in> ends rn \<Longrightarrow> e \<in> ends rn' \<and> connections rn' e = connections rn e \<and> enabled rn' e = enabled rn e"
  shows "rows_up rn' rw up"
  using assms unfolding rows_up_def by metis

lemma rows_up_new:
  assumes ok: "rows_up rn rw up" and m: "make_ends names dest k rn = Inr rn1" "make_ends names' dest' k' rn1 = Inr rn2"
  shows "rows_up rn2 (rw(w := (\<lambda>j. (names j, dest j)) ` {..<k} \<union> (\<lambda>j. (names' j, dest' j)) ` {..<k'})) (up(w := True))"
proof -
  note a = make_ends_ok [OF m(1)] and b = make_ends_ok [OF m(2)]
  have f: "names j \<notin> ends rn" if "j < k" for j using a that by blast
  have f': "names' j \<notin> ends rn1" if "j < k'" for j using b that by blast
  have ends: "ends rn2 = ends rn \<union> names ` {..<k} \<union> names' ` {..<k'}" "ends rn1 = ends rn \<union> names ` {..<k}" using a b by auto
  have old: "e \<in> ends rn2 \<and> connections rn2 e = connections rn e \<and> enabled rn2 e = enabled rn e" if "e \<in> ends rn" for e
  proof -
    have "e \<notin> names ` {..<k}" "e \<notin> names' ` {..<k'}" using that f f' ends(2) by auto
    then show ?thesis using a b ends that by simp
  qed
  have n1: "names j \<in> ends rn2 \<and> connections rn2 (names j) = Some (dest j) \<and> enabled rn2 (names j)" if "j < k" for j
  proof -
    have "names j \<in> ends rn1" using ends(2) that by blast
    then have "names j \<notin> names' ` {..<k'}" using f' by auto
    then show ?thesis using a b ends that by simp
  qed
  have n2: "names' j \<in> ends rn2 \<and> connections rn2 (names' j) = Some (dest' j) \<and> enabled rn2 (names' j)" if "j < k'" for j
    using b that by simp
  define N where "N = (\<lambda>j. (names j, dest j)) ` {..<k} \<union> (\<lambda>j. (names' j, dest' j)) ` {..<k'}"
  have new: "e \<in> ends rn2 \<and> connections rn2 e = Some d \<and> enabled rn2 e \<and> e \<notin> ends rn" if "(e, d) \<in> N" for e d
    using that n1 n2 f f' ends(2) unfolding N_def by auto
  have was: "e \<in> ends rn \<and> connections rn e = Some d \<and> enabled rn e = up v" if "(e, d) \<in> rw v" for e d v
    using ok that unfolding rows_up_def by blast
  have "e \<in> ends rn2 \<and> connections rn2 e = Some d \<and> enabled rn2 e = (up(w := True)) v" if "(e, d) \<in> (rw(w := N)) v" for v e d
    using that new [of e d] was [of e d v] old [of e] by (cases "v = w") simp_all
  moreover have "v = v'" if "(e, d) \<in> (rw(w := N)) v" "(e, d') \<in> (rw(w := N)) v'" for v v' e d d'
  proof -
    have both: "v = v'" if "(e, d) \<in> rw v" "(e, d') \<in> rw v'" using ok that unfolding rows_up_def by blast
    have cross: False if "(e, x) \<in> N" "(e, y) \<in> rw u" for x y u using new [OF that(1)] was [OF that(2)] by blast
    show ?thesis
    proof (cases "v = w")
      case True
      then show ?thesis using that cross [of d d' v'] by (cases "v' = w") simp_all
    next
      case False
      then show ?thesis using that cross [of d' d v] both by (cases "v' = w") simp_all
    qed
  qed
  ultimately show ?thesis unfolding rows_up_def N_def [symmetric] by blast
qed

lemma rows_up_off:
  assumes ok: "rows_up rn rw up" and "ends rn' = ends rn" and "connections rn' = connections rn"
    and en: "\<And>e. enabled rn' e \<longleftrightarrow> enabled rn e \<and> (\<forall>d. (e, d) \<notin> rw w)"
  shows "rows_up rn' rw (up(w := False))"
proof -
  have "enabled rn' e = (up(w := False)) v" if "(e, d) \<in> rw v" for e d v
  proof (cases "v = w")
    case True
    then show ?thesis using en that by auto
  next
    case False
    then have "(e, d') \<notin> rw w" for d' using ok that unfolding rows_up_def by blast
    then show ?thesis using en [of e] ok that False unfolding rows_up_def by auto
  qed
  then show ?thesis using ok unfolding rows_up_def assms(2,3) by blast
qed

definition group_row :: "group \<Rightarrow> nat \<Rightarrow> (string \<times> string) set" where
  "group_row gg i =
     (\<lambda>j. (nil_slice (gg_endnames gg ! i) ! j, servername (gg_gid gg) (int j))) ` {..<length (nil_slice (gg_endnames gg ! i))} \<union>
     (\<lambda>j. (nil_slice (gg_mendnames gg ! i) ! j, mastername (int j))) ` {..<length (nil_slice (gg_mendnames gg ! i))}"

definition sk_row :: "skconfig \<Rightarrow> nat \<times> nat \<Rightarrow> (string \<times> string) set" where
  "sk_row cfg = (\<lambda>(gi, i). if gi < ngroups cfg \<and> i < sn cfg \<and> i < nmasters cfg
     then case groups cfg ! gi of None \<Rightarrow> {} | Some gg \<Rightarrow> group_row gg i else {})"

definition sk_up :: "skconfig \<Rightarrow> nat \<times> nat \<Rightarrow> bool" where
  "sk_up cfg = (\<lambda>(gi, i). gi < ngroups cfg \<and> i < sn cfg \<and> (case groups cfg ! gi of None \<Rightarrow> False | Some gg \<Rightarrow> gg_servers gg ! i \<noteq> None))"

text \<open>A group as the harness keeps it: a running server has its ends and its persister.\<close>

definition group_ok :: "nat \<Rightarrow> nat \<Rightarrow> nat \<Rightarrow> group \<Rightarrow> bool" where
  "group_ok n nm gi gg \<longleftrightarrow>
     gg_gid gg = 100 + int gi \<and> length (gg_servers gg) = n \<and> length (gg_saved gg) = n \<and> length (gg_endnames gg) = n \<and> length (gg_mendnames gg) = nm \<and>
     (\<forall>i l. i < n \<longrightarrow> gg_endnames gg ! i = Some l \<longrightarrow> length l = n) \<and> (\<forall>i l. i < nm \<longrightarrow> gg_mendnames gg ! i = Some l \<longrightarrow> length l = nm) \<and>
     (\<forall>i < n. gg_servers gg ! i \<noteq> None \<longrightarrow> i < nm \<and> gg_endnames gg ! i \<noteq> None \<and> gg_mendnames gg ! i \<noteq> None \<and> gg_saved gg ! i \<noteq> None)"

definition sk_inv :: "skconfig \<Rightarrow> bool" where
  "sk_inv cfg \<longleftrightarrow>
     length (groups cfg) = ngroups cfg \<and> length (masterservers cfg) = nmasters cfg \<and>
     (\<forall>gi gg. gi < ngroups cfg \<longrightarrow> groups cfg ! gi = Some gg \<longrightarrow> group_ok (sn cfg) (nmasters cfg) gi gg) \<and>
     rows_up (snet cfg) (sk_row cfg) (sk_up cfg) \<and>
     (\<forall>gi i. gi < ngroups cfg \<longrightarrow> i < sn cfg \<longrightarrow> (servers (snet cfg) (servername (100 + int gi) (int i)) = None \<longleftrightarrow> \<not> sk_up cfg (gi, i))) \<and>
     (\<forall>i < nmasters cfg. servers (snet cfg) (mastername (int i)) = None \<longleftrightarrow> masterservers cfg ! i = None)"

lemma sk_inv_grow:
  assumes inv: "sk_inv cfg" and same: "groups cfg' = groups cfg" "ngroups cfg' = ngroups cfg" "sn cfg' = sn cfg" "nmasters cfg' = nmasters cfg"
      "length (masterservers cfg') = nmasters cfg"
    and masters: "\<And>i. i < nmasters cfg \<Longrightarrow> servers (snet cfg') (mastername (int i)) = None \<longleftrightarrow> masterservers cfg' ! i = None"
    and srv: "\<And>g i. servers (snet cfg') (servername g i) = servers (snet cfg) (servername g i)"
    and old: "\<And>e. e \<in> ends (snet cfg) \<Longrightarrow> e \<in> ends (snet cfg') \<and> connections (snet cfg') e = connections (snet cfg) e \<and> enabled (snet cfg') e = enabled (snet cfg) e"
  shows "sk_inv cfg'"
proof -
  have r: "sk_row cfg' = sk_row cfg" "sk_up cfg' = sk_up cfg" by (simp_all only: sk_row_def sk_up_def same)
  have "rows_up (snet cfg') (sk_row cfg) (sk_up cfg)" using rows_up_grow [of "snet cfg" "sk_row cfg" "sk_up cfg" "snet cfg'"] inv old by (simp add: sk_inv_def)
  then show ?thesis using inv unfolding sk_inv_def r same srv using masters same(5) by blast
qed

lemma the_group_ok:
  assumes "the_group g cfg = Inr gg" and "sk_inv cfg"
  obtains gi where "g = int gi" "gi < ngroups cfg" "groups cfg ! gi = Some gg" "group_ok (sn cfg) (nmasters cfg) gi gg"
proof -
  obtain o1 where "go_index (groups cfg) g = Inr o1" "o1 = Some gg" using assms(1) by (auto simp: the_group_def bind_res_eq_Inr split: option.splits)
  then obtain gi where "gi < length (groups cfg)" "g = int gi" "groups cfg ! gi = Some gg" using go_index_nat by metis
  then show ?thesis using that [of gi] assms(2) by (simp add: sk_inv_def)
qed

definition gheld :: "group \<Rightarrow> nat \<Rightarrow> unit gob_item Persister option" where
  "gheld gg i = (case (gg_servers gg ! i, gg_saved gg ! i) of (Some s, Some _) \<Rightarrow> Some (persister (skv_rf s)) | _ \<Rightarrow> gg_saved gg ! i)"

lemma gsaved_now_held: "i < length (gg_servers gg) \<Longrightarrow> i < length (gg_saved gg) \<Longrightarrow> gsaved_now (int i) gg = Inr (gheld gg i)"
  by (simp add: gsaved_now_def gheld_def)

lemma row_update:
  assumes "length (groups cfg) = ngroups cfg" and "gi < ngroups cfg" and "i < sn cfg" and "i < nmasters cfg"
    and "groups cfg ! gi = Some gg" and "\<And>k. k < sn cfg \<Longrightarrow> k < nmasters cfg \<Longrightarrow> k \<noteq> i \<Longrightarrow> gg_endnames gg' ! k = gg_endnames gg ! k \<and> gg_mendnames gg' ! k = gg_mendnames gg ! k"
    and "gg_gid gg' = gg_gid gg" and cfg': "groups cfg' = (groups cfg)[gi := Some gg']" "ngroups cfg' = ngroups cfg" "sn cfg' = sn cfg" "nmasters cfg' = nmasters cfg"
  shows "sk_row cfg' = (sk_row cfg)((gi, i) := group_row gg' i)"
proof
  fix w :: "nat \<times> nat"
  obtain a b where w: "w = (a, b)" by (cases w)
  show "sk_row cfg' w = ((sk_row cfg)((gi, i) := group_row gg' i)) w"
  proof (cases "a = gi")
    case True
    then show ?thesis using assms w by (cases "b = i") (auto simp: sk_row_def group_row_def)
  next
    case False
    then show ?thesis using assms w by (simp add: sk_row_def)
  qed
qed

lemma up_update:
  assumes "length (groups cfg) = ngroups cfg" and "gi < ngroups cfg" and "i < sn cfg" and "length (gg_servers gg) = sn cfg"
    and "groups cfg ! gi = Some gg" and "gg_servers gg' = (gg_servers gg)[i := s]"
    and cfg': "groups cfg' = (groups cfg)[gi := Some gg']" "ngroups cfg' = ngroups cfg" "sn cfg' = sn cfg"
  shows "sk_up cfg' = (sk_up cfg)((gi, i) := s \<noteq> None)"
proof
  fix w :: "nat \<times> nat"
  obtain a b where w: "w = (a, b)" by (cases w)
  show "sk_up cfg' w = ((sk_up cfg)((gi, i) := s \<noteq> None)) w"
  proof (cases "a = gi")
    case True
    then show ?thesis using assms w by (cases "b = i") (auto simp: sk_up_def)
  next
    case False
    then show ?thesis using assms w by (simp add: sk_up_def)
  qed
qed

subsection \<open>Starting and stopping servers\<close>

lemma sStartServer_ok:
  assumes st: "sStartServer names mnames now rnd g j cfg = Inr cfg'" and inv: "sk_inv cfg"
  obtains gi i gg rn1 rn2 ps s where "g = int gi" "j = int i" "gi < ngroups cfg" "i < sn cfg" "i < nmasters cfg" "groups cfg ! gi = Some gg"
    "group_ok (sn cfg) (nmasters cfg) gi gg"
    "make_ends names (\<lambda>j. servername (gg_gid gg) (int j)) (sn cfg) (snet cfg) = Inr rn1" "make_ends mnames (\<lambda>j. mastername (int j)) (nmasters cfg) rn1 = Inr rn2"
    "ps = (case gheld gg i of Some p \<Rightarrow> Copy p | None \<Rightarrow> MakePersister)"
    "skv_StartServer now rnd (sn cfg) (int i) ps (smaxraftstate cfg) (gg_gid gg) (nmasters cfg) = Inr s"
    "cfg' = cfg\<lparr>snet := AddServer (servername (gg_gid gg) (int i)) (snextsrv cfg) rn2,
       groups := (groups cfg)[gi := Some (gg\<lparr>gg_servers := (gg_servers gg)[i := Some s], gg_saved := (gg_saved gg)[i := Some ps],
         gg_endnames := (gg_endnames gg)[i := Some (map names [0..<sn cfg])], gg_mendnames := (gg_mendnames gg)[i := Some (map mnames [0..<nmasters cfg])]\<rparr>)],
       snextsrv := snextsrv cfg + 1, ssrvs := (ssrvs cfg)(snextsrv cfg := store_server (snextsrv cfg))\<rparr>"
proof -
  obtain gg where gg: "the_group g cfg = Inr gg" using st by (auto simp: sStartServer_def bind_res_eq_Inr)
  obtain gi where gi: "g = int gi" "gi < ngroups cfg" "groups cfg ! gi = Some gg" "group_ok (sn cfg) (nmasters cfg) gi gg" by (rule the_group_ok [OF gg inv])
  obtain es rn1 ms rn2 ps0 where u: "go_update (gg_endnames gg) j (Some (map names [0..<sn cfg])) = Inr es"
    "make_ends names (\<lambda>j. servername (gg_gid gg) (int j)) (sn cfg) (snet cfg) = Inr rn1" "go_update (gg_mendnames gg) j (Some (map mnames [0..<nmasters cfg])) = Inr ms"
    "make_ends mnames (\<lambda>j. mastername (int j)) (nmasters cfg) rn1 = Inr rn2" "gsaved_now j gg = Inr ps0"
    using st gg by (auto simp: sStartServer_def bind_res_eq_Inr)
  define ps where "ps = (case ps0 of Some p \<Rightarrow> Copy p | None \<Rightarrow> MakePersister)"
  obtain svd s ss gs where v: "go_update (gg_saved gg) j (Some ps) = Inr svd"
    "skv_StartServer now rnd (sn cfg) j ps (smaxraftstate cfg) (gg_gid gg) (nmasters cfg) = Inr s" "go_update (gg_servers gg) j (Some s) = Inr ss"
    "go_update (groups cfg) g (Some (gg\<lparr>gg_servers := ss, gg_saved := svd, gg_endnames := es, gg_mendnames := ms\<rparr>)) = Inr gs"
    "cfg' = cfg\<lparr>snet := AddServer (servername (gg_gid gg) j) (snextsrv cfg) rn2, groups := gs, snextsrv := snextsrv cfg + 1, ssrvs := (ssrvs cfg)(snextsrv cfg := store_server (snextsrv cfg))\<rparr>"
    using st gg u by (auto simp: sStartServer_def bind_res_eq_Inr Let_def ps_def)
  obtain i where i: "i < sn cfg" "j = int i" "es = (gg_endnames gg)[i := Some (map names [0..<sn cfg])]" using go_update_nat [OF u(1)] gi(4) by (auto simp: group_ok_def)
  have ms: "i < nmasters cfg" "ms = (gg_mendnames gg)[i := Some (map mnames [0..<nmasters cfg])]" using go_update_nat [OF u(3)] gi(4) i by (auto simp: group_ok_def)
  have l: "svd = (gg_saved gg)[i := Some ps]" "ss = (gg_servers gg)[i := Some s]"
    "gs = (groups cfg)[gi := Some (gg\<lparr>gg_servers := ss, gg_saved := svd, gg_endnames := es, gg_mendnames := ms\<rparr>)]"
    using go_update_nat [OF v(1)] go_update_nat [OF v(3)] go_update_nat [OF v(4)] i(2) gi(1) by auto
  have "ps0 = gheld gg i" using u(5) gsaved_now_held [of i gg] i gi(4) by (simp add: group_ok_def)
  then have ps: "ps = (case gheld gg i of Some p \<Rightarrow> Copy p | None \<Rightarrow> MakePersister)" by (simp add: ps_def)
  show ?thesis
    by (rule that [OF gi(1) i(2) gi(2) i(1) ms(1) gi(3,4) u(2,4) ps v(2) [unfolded i(2)]]) (simp add: v(5) l i(2,3) ms(2))
qed

lemma group_row_started:
  assumes "gg_endnames gg ! i = Some (map names [0..<n])" and "gg_mendnames gg ! i = Some (map mnames [0..<m])"
  shows "group_row gg i = (\<lambda>j. (names j, servername (gg_gid gg) (int j))) ` {..<n} \<union> (\<lambda>j. (mnames j, mastername (int j))) ` {..<m}"
  using assms by (auto simp: group_row_def nil_slice_def image_iff)

lemma sk_inv_start:
  assumes st: "sStartServer names mnames now rnd g j cfg = Inr cfg'" and inv: "sk_inv cfg"
  shows "sk_inv cfg' \<and> sn cfg' = sn cfg \<and> nmasters cfg' = nmasters cfg \<and> ngroups cfg' = ngroups cfg"
proof -
  obtain gi i gg rn1 rn2 ps s where gi: "g = int gi" "gi < ngroups cfg" "groups cfg ! gi = Some gg" "group_ok (sn cfg) (nmasters cfg) gi gg"
    and i: "j = int i" "i < sn cfg" "i < nmasters cfg"
    and m: "make_ends names (\<lambda>j. servername (gg_gid gg) (int j)) (sn cfg) (snet cfg) = Inr rn1" "make_ends mnames (\<lambda>j. mastername (int j)) (nmasters cfg) rn1 = Inr rn2"
    and c': "cfg' = cfg\<lparr>snet := AddServer (servername (gg_gid gg) (int i)) (snextsrv cfg) rn2,
       groups := (groups cfg)[gi := Some (gg\<lparr>gg_servers := (gg_servers gg)[i := Some s], gg_saved := (gg_saved gg)[i := Some ps],
         gg_endnames := (gg_endnames gg)[i := Some (map names [0..<sn cfg])], gg_mendnames := (gg_mendnames gg)[i := Some (map mnames [0..<nmasters cfg])]\<rparr>)],
       snextsrv := snextsrv cfg + 1, ssrvs := (ssrvs cfg)(snextsrv cfg := store_server (snextsrv cfg))\<rparr>"
    using sStartServer_ok [OF st inv] by metis
  let ?gg = "gg\<lparr>gg_servers := (gg_servers gg)[i := Some s], gg_saved := (gg_saved gg)[i := Some ps],
         gg_endnames := (gg_endnames gg)[i := Some (map names [0..<sn cfg])], gg_mendnames := (gg_mendnames gg)[i := Some (map mnames [0..<nmasters cfg])]\<rparr>"
  have ok: "gg_gid gg = 100 + int gi" "length (gg_servers gg) = sn cfg" "length (gg_saved gg) = sn cfg" "length (gg_endnames gg) = sn cfg" "length (gg_mendnames gg) = nmasters cfg"
    using gi(4) by (simp_all add: group_ok_def)
  have len: "length (groups cfg) = ngroups cfg" using inv by (simp add: sk_inv_def)
  have gok: "group_ok (sn cfg) (nmasters cfg) gi ?gg" using gi(4) i ok unfolding group_ok_def by (auto simp: nth_list_update)
  have row: "sk_row cfg' = (sk_row cfg)((gi, i) := group_row ?gg i)" by (rule row_update [OF len gi(2) i(2,3) gi(3)]) (simp_all add: c')
  have up: "sk_up cfg' = (sk_up cfg)((gi, i) := True)" using up_update [OF len gi(2) i(2) ok(2) gi(3), of ?gg "Some s" cfg'] by (simp add: c')
  have gr: "group_row ?gg i = (\<lambda>j. (names j, servername (gg_gid gg) (int j))) ` {..<sn cfg} \<union> (\<lambda>j. (mnames j, mastername (int j))) ` {..<nmasters cfg}"
    using group_row_started [of ?gg i names "sn cfg" mnames "nmasters cfg"] i ok by simp
  have "rows_up rn2 (sk_row cfg') (sk_up cfg')" unfolding row up gr by (rule rows_up_new [OF _ m]) (use inv in \<open>simp add: sk_inv_def\<close>)
  then have ru: "rows_up (snet cfg') (sk_row cfg') (sk_up cfg')" by (rule rows_up_grow) (simp add: c' AddServer_def)
  have srv: "servers rn2 = servers (snet cfg)" using make_ends_ok [OF m(1)] make_ends_ok [OF m(2)] by simp
  have up': "servers (snet cfg') (servername (100 + int a) (int b)) = None \<longleftrightarrow> \<not> sk_up cfg' (a, b)" if "a < ngroups cfg" "b < sn cfg" for a b
    using inv that unfolding up by (auto simp: c' AddServer_def srv ok(1) sk_inv_def)
  have ms: "\<forall>k < nmasters cfg. servers (snet cfg') (mastername (int k)) = None \<longleftrightarrow> masterservers cfg' ! k = None"
    using inv by (simp add: c' AddServer_def srv sk_inv_def)
  have gs: "\<forall>a b. a < ngroups cfg \<longrightarrow> groups cfg' ! a = Some b \<longrightarrow> group_ok (sn cfg) (nmasters cfg) a b"
    using inv gok gi(2) len by (auto simp: c' sk_inv_def nth_list_update)
  have "sk_inv cfg'" using inv ru up' ms gs unfolding sk_inv_def by (simp add: c')
  then show ?thesis by (simp add: c')
qed

lemma disable_loop:
  "m \<le> length l \<Longrightarrow> fold_res (\<lambda>j r. bind_res (go_index l (int j)) (\<lambda>nm. Inr (Enable nm False r))) [0..<m] rn =
     Inr (rn\<lparr>enabled := (\<lambda>e. enabled rn e \<and> e \<notin> set (take m l))\<rparr>)"
proof (induction m)
  case (Suc m)
  then show ?case by (auto simp: fold_res_snoc Enable_def take_Suc_conv_app_nth fun_eq_iff)
qed simp

text \<open>The net after the two loops and \<open>DeleteServer\<close> of \<open>ShutdownServer\<close>.\<close>

definition cut_off :: "string list \<Rightarrow> string \<Rightarrow> (string, string) Network \<Rightarrow> (string, string) Network" where
  "cut_off names server rn = DeleteServer server (rn\<lparr>enabled := (\<lambda>e. enabled rn e \<and> e \<notin> set names)\<rparr>)"

lemma sShutdownServer_eq:
  assumes gi: "gi < ngroups cfg" "groups cfg ! gi = Some gg" and inv: "sk_inv cfg" and i: "i < sn cfg" "i < nmasters cfg"
    and l: "gg_endnames gg ! i = Some l"
  shows "sShutdownServer (int gi) (int i) cfg =
    Inr (cfg\<lparr>snet := cut_off (l @ nil_slice (gg_mendnames gg ! i)) (servername (gg_gid gg) (int i)) (snet cfg),
      groups := (groups cfg)[gi := Some (gg\<lparr>gg_servers := (gg_servers gg)[i := None], gg_saved := (gg_saved gg)[i := map_option Copy (gheld gg i)]\<rparr>)]\<rparr>)"
proof -
  have ok: "group_ok (sn cfg) (nmasters cfg) gi gg" "length (groups cfg) = ngroups cfg" using gi inv by (auto simp: sk_inv_def)
  then have len: "length (gg_servers gg) = sn cfg" "length (gg_saved gg) = sn cfg" "length (gg_endnames gg) = sn cfg" "length (gg_mendnames gg) = nmasters cfg" "length l = sn cfg"
    using i l by (auto simp: group_ok_def)
  have tg: "the_group (int gi) cfg = Inr gg" using gi ok(2) by (simp add: the_group_def)
  have l1: "fold_res (\<lambda>j r. bind_res (go_index (gg_endnames gg) (int i)) (\<lambda>ns. bind_res (go_index (nil_slice ns) (int j)) (\<lambda>nm. Inr (Enable nm False r))))
      [0..<length (gg_servers gg)] (snet cfg) = Inr ((snet cfg)\<lparr>enabled := (\<lambda>e. enabled (snet cfg) e \<and> e \<notin> set l)\<rparr>)"
    using disable_loop [of "length l" l "snet cfg"] len i l by (simp add: nil_slice_def)
  have l2: "disable ms (length (nil_slice ms)) rn = Inr (rn\<lparr>enabled := (\<lambda>e. enabled rn e \<and> e \<notin> set (nil_slice ms))\<rparr>)" for ms rn
    using disable_loop [of "length (nil_slice ms)" "nil_slice ms" rn] by (simp add: disable_def)
  have "(\<lambda>e. (enabled (snet cfg) e \<and> e \<notin> set l) \<and> e \<notin> set (nil_slice (gg_mendnames gg ! i))) =
      (\<lambda>e. enabled (snet cfg) e \<and> e \<notin> set (l @ nil_slice (gg_mendnames gg ! i)))" by (simp add: fun_eq_iff)
  then show ?thesis
    using tg l1 l2 gsaved_now_held [of i gg] len i gi(1) ok(2)
    by (simp add: sShutdownServer_def Let_def go_update_def go_len_def cut_off_def)
qed

lemma sShutdownServer_ok:
  assumes st: "sShutdownServer g j cfg = Inr cfg'" and inv: "sk_inv cfg"
  obtains gi i gg l where "g = int gi" "j = int i" "gi < ngroups cfg" "i < sn cfg" "i < nmasters cfg" "groups cfg ! gi = Some gg"
    "gg_endnames gg ! i = Some l"
    "cfg' = cfg\<lparr>snet := cut_off (l @ nil_slice (gg_mendnames gg ! i)) (servername (gg_gid gg) (int i)) (snet cfg),
      groups := (groups cfg)[gi := Some (gg\<lparr>gg_servers := (gg_servers gg)[i := None], gg_saved := (gg_saved gg)[i := map_option Copy (gheld gg i)]\<rparr>)]\<rparr>"
proof -
  obtain gg where gg: "the_group g cfg = Inr gg" using st by (auto simp: sShutdownServer_def bind_res_eq_Inr)
  obtain gi where gi: "g = int gi" "gi < ngroups cfg" "groups cfg ! gi = Some gg" "group_ok (sn cfg) (nmasters cfg) gi gg" by (rule the_group_ok [OF gg inv])
  let ?loop = "\<lambda>j' r. bind_res (go_index (gg_endnames gg) j) (\<lambda>ns. bind_res (go_index (nil_slice ns) (int j')) (\<lambda>nm. Inr (Enable nm False r)))"
  obtain rn1 ms ss where u: "fold_res ?loop [0..<length (gg_servers gg)] (snet cfg) = Inr rn1" "go_index (gg_mendnames gg) j = Inr ms"
    "go_update (gg_servers gg) j None = Inr ss"
    using st gg by (auto simp: sShutdownServer_def bind_res_eq_Inr Let_def)
  obtain i where i: "i < sn cfg" "j = int i" using go_update_nat [OF u(3)] gi(4) by (auto simp: group_ok_def)
  have im: "i < nmasters cfg" using go_index_nat [OF u(2)] gi(4) i by (auto simp: group_ok_def)
  have "length (gg_servers gg) = Suc (length (gg_servers gg) - 1)" using gi(4) i by (simp add: group_ok_def)
  then have "[0..<length (gg_servers gg)] = 0 # [Suc 0..<length (gg_servers gg)]" by (metis upt_conv_Cons zero_less_Suc)
  then obtain r where "?loop 0 (snet cfg) = Inr r" using u(1) by (auto simp: bind_res_eq_Inr)
  then have "gg_endnames gg ! i \<noteq> None" using i gi(4) by (auto simp: group_ok_def bind_res_eq_Inr nil_slice_def go_index_def go_len_def split: if_splits option.splits)
  then obtain l where l: "gg_endnames gg ! i = Some l" by blast
  show ?thesis using that [OF gi(1) i(2) gi(2) i(1) im gi(3) l] st sShutdownServer_eq [OF gi(2,3) inv i(1) im l] gi(1) i(2) by simp
qed

lemma sk_inv_shutdown:
  assumes st: "sShutdownServer g j cfg = Inr cfg'" and inv: "sk_inv cfg"
  shows "sk_inv cfg' \<and> sn cfg' = sn cfg \<and> nmasters cfg' = nmasters cfg \<and> ngroups cfg' = ngroups cfg"
proof -
  obtain gi i gg l where gi: "g = int gi" "gi < ngroups cfg" "groups cfg ! gi = Some gg" and i: "j = int i" "i < sn cfg" "i < nmasters cfg"
    and l: "gg_endnames gg ! i = Some l"
    and c': "cfg' = cfg\<lparr>snet := cut_off (l @ nil_slice (gg_mendnames gg ! i)) (servername (gg_gid gg) (int i)) (snet cfg),
      groups := (groups cfg)[gi := Some (gg\<lparr>gg_servers := (gg_servers gg)[i := None], gg_saved := (gg_saved gg)[i := map_option Copy (gheld gg i)]\<rparr>)]\<rparr>"
    using sShutdownServer_ok [OF assms] by metis
  let ?gg = "gg\<lparr>gg_servers := (gg_servers gg)[i := None], gg_saved := (gg_saved gg)[i := map_option Copy (gheld gg i)]\<rparr>"
  have gok: "group_ok (sn cfg) (nmasters cfg) gi gg" and len: "length (groups cfg) = ngroups cfg" using gi inv by (auto simp: sk_inv_def)
  then have ok: "gg_gid gg = 100 + int gi" "length (gg_servers gg) = sn cfg" by (simp_all add: group_ok_def)
  have gok': "group_ok (sn cfg) (nmasters cfg) gi ?gg" using gok i unfolding group_ok_def by (auto simp: nth_list_update)
  have same: "group_row ?gg i = group_row gg i" by (simp add: group_row_def)
  have "sk_row cfg' = (sk_row cfg)((gi, i) := group_row ?gg i)" by (rule row_update [OF len gi(2) i(2,3) gi(3)]) (simp_all add: c')
  moreover have rw: "sk_row cfg (gi, i) = group_row gg i" using gi i by (simp add: sk_row_def)
  ultimately have row: "sk_row cfg' = sk_row cfg" unfolding same by (simp add: fun_upd_idem)
  have up: "sk_up cfg' = (sk_up cfg)((gi, i) := False)" using up_update [OF len gi(2) i(2) ok(2) gi(3), of ?gg None cfg'] by (simp add: c')
  have nm: "(\<exists>d. (e, d) \<in> sk_row cfg (gi, i)) \<longleftrightarrow> e \<in> set (l @ nil_slice (gg_mendnames gg ! i))" for e
    unfolding rw by (auto simp: group_row_def l nil_slice_def in_set_conv_nth image_iff split: option.splits)
  have "rows_up (snet cfg') (sk_row cfg) ((sk_up cfg)((gi, i) := False))"
  proof (rule rows_up_off)
    show "rows_up (snet cfg) (sk_row cfg) (sk_up cfg)" using inv by (simp add: sk_inv_def)
    show "enabled (snet cfg') e \<longleftrightarrow> enabled (snet cfg) e \<and> (\<forall>d. (e, d) \<notin> sk_row cfg (gi, i))" for e
      using nm [of e] by (auto simp: c' cut_off_def DeleteServer_def)
  qed (simp_all add: c' cut_off_def DeleteServer_def)
  then have ru: "rows_up (snet cfg') (sk_row cfg') (sk_up cfg')" unfolding row up .
  have up': "servers (snet cfg') (servername (100 + int a) (int b)) = None \<longleftrightarrow> \<not> sk_up cfg' (a, b)" if "a < ngroups cfg" "b < sn cfg" for a b
    using inv that unfolding up by (auto simp: c' cut_off_def DeleteServer_def ok(1) sk_inv_def)
  have ms: "\<forall>k < nmasters cfg. servers (snet cfg') (mastername (int k)) = None \<longleftrightarrow> masterservers cfg' ! k = None"
    using inv by (simp add: c' cut_off_def DeleteServer_def sk_inv_def)
  have gs: "\<forall>a b. a < ngroups cfg \<longrightarrow> groups cfg' ! a = Some b \<longrightarrow> group_ok (sn cfg) (nmasters cfg) a b"
    using inv gok' gi(2) len by (auto simp: c' sk_inv_def nth_list_update)
  have "sk_inv cfg'" using inv ru up' ms gs unfolding sk_inv_def by (simp add: c')
  then show ?thesis by (simp add: c')
qed

subsection \<open>Clerks and masters\<close>

text \<open>A change of the configuration that adds ends and nothing else to the network.\<close>

definition grown :: "skconfig \<Rightarrow> skconfig \<Rightarrow> bool" where
  "grown cfg cfg' \<longleftrightarrow>
     groups cfg' = groups cfg \<and> ngroups cfg' = ngroups cfg \<and> sn cfg' = sn cfg \<and> nmasters cfg' = nmasters cfg \<and> masterservers cfg' = masterservers cfg \<and>
     servers (snet cfg') = servers (snet cfg) \<and>
     (\<forall>e \<in> ends (snet cfg). e \<in> ends (snet cfg') \<and> connections (snet cfg') e = connections (snet cfg) e \<and> enabled (snet cfg') e = enabled (snet cfg) e)"

lemma sk_inv_grown: "grown cfg cfg' \<Longrightarrow> sk_inv cfg \<Longrightarrow> sk_inv cfg'"
  by (rule sk_inv_grow [of cfg]) (auto simp: grown_def sk_inv_def)

lemma make_ends_old:
  assumes "make_ends names dest m rn = Inr rn'" and "e \<in> ends rn"
  shows "e \<in> ends rn' \<and> connections rn' e = connections rn e \<and> enabled rn' e = enabled rn e"
proof -
  note k = make_ends_ok [OF assms(1)]
  have "e \<notin> names ` {..<m}" using k assms(2) by auto
  then show ?thesis using k assms(2) by simp
qed

text \<open>The loop of \<open>makeClient\<close>: it fails where the slice of names ends.\<close>

lemma client_loop:
  assumes "m \<le> length l"
  shows "fold_res (\<lambda>j (endnames, rn). bind_res (go_update endnames (int j) (names j)) (\<lambda>endnames1.
      bind_res (make_end (names j) (mastername (int j)) rn) (\<lambda>rn1. Inr (endnames1, rn1)))) [0..<m] (l, rn) =
    bind_res (make_ends names (\<lambda>j. mastername (int j)) m rn) (\<lambda>rn'. Inr (map names [0..<m] @ drop m l, rn'))"
  using assms
proof (induction m)
  case (Suc m)
  let ?step = "\<lambda>j (endnames, rn). bind_res (go_update endnames (int j) (names j)) (\<lambda>endnames1.
      bind_res (make_end (names j) (mastername (int j)) rn) (\<lambda>rn1. Inr (endnames1, rn1)))"
  have IH: "fold_res ?step [0..<m] (l, rn) = bind_res (make_ends names (\<lambda>j. mastername (int j)) m rn) (\<lambda>rn'. Inr (map names [0..<m] @ drop m l, rn'))"
    using Suc by simp
  have u: "go_update (map names [0..<m] @ drop m l) (int m) (names m) = Inr (map names [0..<Suc m] @ drop (Suc m) l)"
    using update_next [of m "map names [0..<m]" l "names m"] Suc.prems by (simp add: go_update_def go_len_def)
  have "fold_res ?step [0..<Suc m] (l, rn) = bind_res (fold_res ?step [0..<m] (l, rn)) (?step m)" by (simp add: fold_res_snoc)
  also have "\<dots> = bind_res (make_ends names (\<lambda>j. mastername (int j)) m rn) (\<lambda>rn1.
      bind_res (make_end (names m) (mastername (int m)) rn1) (\<lambda>rn2. Inr (map names [0..<Suc m] @ drop (Suc m) l, rn2)))"
    unfolding IH by (cases "make_ends names (\<lambda>j. mastername (int j)) m rn") (simp_all add: u del: upt_Suc)
  also have "\<dots> = bind_res (make_ends names (\<lambda>j. mastername (int j)) (Suc m) rn) (\<lambda>rn'. Inr (map names [0..<Suc m] @ drop (Suc m) l, rn'))"
    by (cases "make_ends names (\<lambda>j. mastername (int j)) m rn") (simp_all add: make_ends_def fold_res_snoc del: map_append)
  finally show ?case .
qed (simp add: make_ends_def)

lemma smakeClient_eq:
  assumes "nmasters cfg \<le> sn cfg"
  shows "smakeClient names ck cfg =
    bind_res (make_ends names (\<lambda>j. mastername (int j)) (nmasters cfg) (snet cfg)) (\<lambda>rn.
      Inr (kv_MakeClerk (map names [0..<nmasters cfg]),
        cfg\<lparr>snet := rn, sclerks := (sclerks cfg)(ck \<mapsto> map names [0..<nmasters cfg] @ replicate (sn cfg - nmasters cfg) ''''),
          snextClientId := snextClientId cfg + 1\<rparr>))"
  using client_loop [of "nmasters cfg" "replicate (sn cfg) ''''" names "snet cfg"] assms
  by (cases "make_ends names (\<lambda>j. mastername (int j)) (nmasters cfg) (snet cfg)") (simp_all add: smakeClient_def)

lemma smakeClient_small:
  assumes "sn cfg < nmasters cfg"
  shows "\<exists>e. smakeClient names ck cfg = Inl e"
proof -
  let ?step = "\<lambda>j (endnames, rn). bind_res (go_update endnames (int j) (names j)) (\<lambda>endnames1.
      bind_res (make_end (names j) (mastername (int j)) rn) (\<lambda>rn1. Inr (endnames1, rn1)))"
  have up: "[0..<nmasters cfg] = [0..<sn cfg] @ sn cfg # [Suc (sn cfg)..<nmasters cfg]" using assms by (metis upt_add_eq_append upt_conv_Cons less_imp_add_positive zero_le add_0)
  have "fold_res ?step [0..<nmasters cfg] (replicate (sn cfg) '''', snet cfg) = Inr r \<Longrightarrow> False" for r
    unfolding up fold_res_append client_loop [of "sn cfg" "replicate (sn cfg) ''''" names "snet cfg", simplified]
    by (auto simp: bind_res_eq_Inr go_update_def go_len_def)
  then show ?thesis unfolding smakeClient_def by (cases "fold_res ?step [0..<nmasters cfg] (replicate (sn cfg) '''', snet cfg)") auto
qed

lemma grown_client:
  assumes "smakeClient names ck cfg = Inr (clerk, cfg')"
  shows "grown cfg cfg' \<and> nmasters cfg \<le> sn cfg"
proof -
  have le: "nmasters cfg \<le> sn cfg" using smakeClient_small [of cfg names ck] assms by (cases "nmasters cfg \<le> sn cfg") auto
  obtain rn where rn: "make_ends names (\<lambda>j. mastername (int j)) (nmasters cfg) (snet cfg) = Inr rn" "snet cfg' = rn"
      "groups cfg' = groups cfg" "ngroups cfg' = ngroups cfg" "sn cfg' = sn cfg" "nmasters cfg' = nmasters cfg" "masterservers cfg' = masterservers cfg"
    using assms unfolding smakeClient_eq [OF le] by (auto simp: bind_res_eq_Inr)
  then show ?thesis using make_ends_old [OF rn(1)] make_ends_ok [OF rn(1)] le by (auto simp: grown_def)
qed

lemma grown_make_end:
  assumes "make_end nm d (snet cfg) = Inr rn"
  shows "grown cfg (cfg\<lparr>snet := rn\<rparr>)"
  using make_end_ok [OF assms] by (auto simp: grown_def)

subsection \<open>Runs\<close>

text \<open>
  What a test may do, in any order: a server or a master handles something, a clerk or a server makes an
  end to a server by name, the network carries requests, the test makes and drops clerks, stops and starts servers.
\<close>

inductive skstep :: "skconfig \<Rightarrow> skconfig \<Rightarrow> bool" where
  server: "gi < ngroups cfg \<Longrightarrow> groups cfg ! gi = Some gg \<Longrightarrow> i < sn cfg \<Longrightarrow> gg_servers gg ! i = Some s \<Longrightarrow>
    skstep cfg (cfg\<lparr>groups := (groups cfg)[gi := Some (gg\<lparr>gg_servers := (gg_servers gg)[i := Some s']\<rparr>)]\<rparr>)"
| master: "i < nmasters cfg \<Longrightarrow> masterservers cfg ! i = Some m \<Longrightarrow> skstep cfg (cfg\<lparr>masterservers := (masterservers cfg)[i := Some m']\<rparr>)"
| traffic: "skstep cfg (cfg\<lparr>snet := (snet cfg)\<lparr>net_count := n, net_bytes := b\<rparr>\<rparr>)"
| reliable: "skstep cfg (cfg\<lparr>snet := Reliable b (snet cfg)\<rparr>)"
| reordering: "skstep cfg (cfg\<lparr>snet := LongReordering b (snet cfg)\<rparr>)"
| dispatched: "skstep cfg (cfg\<lparr>ssrvs := (ssrvs cfg)(p := (ssrvs cfg p)\<lparr>srv_count := srv_count (ssrvs cfg p) + 1\<rparr>)\<rparr>)"
| link: "make_end nm d (snet cfg) = Inr rn \<Longrightarrow> skstep cfg (cfg\<lparr>snet := rn\<rparr>)"
| client: "smakeClient names ck cfg = Inr (clerk, cfg') \<Longrightarrow> skstep cfg cfg'"
| delete_client: "skstep cfg (sdeleteClient ck cfg)"
| shutdown: "sShutdownServer g j cfg = Inr cfg' \<Longrightarrow> skstep cfg cfg'"
| start: "sStartServer names mnames now rnd g j cfg = Inr cfg' \<Longrightarrow> skstep cfg cfg'"

inductive skreach :: "skconfig \<Rightarrow> skconfig \<Rightarrow> bool" for cfg0 where
  here: "skreach cfg0 cfg0"
| step: "skreach cfg0 cfg \<Longrightarrow> skstep cfg cfg' \<Longrightarrow> skreach cfg0 cfg'"

text \<open>All groups are there, every server has its ends, and every master runs.\<close>

definition sk_full :: "nat \<Rightarrow> skconfig \<Rightarrow> bool" where
  "sk_full n cfg \<longleftrightarrow>
     sk_inv cfg \<and> ngroups cfg = 3 \<and> nmasters cfg = 3 \<and> sn cfg = n \<and> (\<forall>i < 3. masterservers cfg ! i \<noteq> None) \<and>
     (\<forall>gi < 3. \<exists>gg. groups cfg ! gi = Some gg \<and> (\<forall>i < n. i < 3 \<and> gg_endnames gg ! i \<noteq> None \<and> gg_mendnames gg ! i \<noteq> None))"

lemma sk_full_grown:
  assumes "grown cfg cfg'" and "sk_full n cfg"
  shows "sk_full n cfg'"
proof -
  have "sk_inv cfg'" using sk_inv_grown assms by (auto simp: sk_full_def)
  then show ?thesis using assms by (simp add: sk_full_def grown_def)
qed

lemma sk_full_start:
  assumes st: "sStartServer names mnames now rnd g j cfg = Inr cfg'" and full: "sk_full n cfg"
  shows "sk_full n cfg'"
proof -
  have inv: "sk_inv cfg" and c: "ngroups cfg = 3" "nmasters cfg = 3" "sn cfg = n" "length (groups cfg) = 3" using full by (auto simp: sk_full_def sk_inv_def)
  obtain gi i gg rn2 ps s where gi: "gi < ngroups cfg" "groups cfg ! gi = Some gg" "group_ok (sn cfg) (nmasters cfg) gi gg" and i: "i < sn cfg" "i < nmasters cfg"
    and c': "cfg' = cfg\<lparr>snet := AddServer (servername (gg_gid gg) (int i)) (snextsrv cfg) rn2,
       groups := (groups cfg)[gi := Some (gg\<lparr>gg_servers := (gg_servers gg)[i := Some s], gg_saved := (gg_saved gg)[i := Some ps],
         gg_endnames := (gg_endnames gg)[i := Some (map names [0..<sn cfg])], gg_mendnames := (gg_mendnames gg)[i := Some (map mnames [0..<nmasters cfg])]\<rparr>)],
       snextsrv := snextsrv cfg + 1, ssrvs := (ssrvs cfg)(snextsrv cfg := store_server (snextsrv cfg))\<rparr>"
    using sStartServer_ok [OF st inv] by metis
  have "\<exists>h. groups cfg' ! a = Some h \<and> (\<forall>k < n. k < 3 \<and> gg_endnames h ! k \<noteq> None \<and> gg_mendnames h ! k \<noteq> None)" if "a < 3" for a
  proof (cases "a = gi")
    case True
    obtain h where "groups cfg ! a = Some h" "\<forall>k < n. k < 3 \<and> gg_endnames h ! k \<noteq> None \<and> gg_mendnames h ! k \<noteq> None" using full \<open>a < 3\<close> unfolding sk_full_def by blast
    then show ?thesis using True gi i c by (auto simp: c' group_ok_def nth_list_update)
  next
    case False
    then show ?thesis using full that by (auto simp: c' sk_full_def)
  qed
  then show ?thesis using sk_inv_start [OF st inv] full unfolding sk_full_def by (auto simp: c')
qed

lemma sk_full_shutdown:
  assumes st: "sShutdownServer g j cfg = Inr cfg'" and full: "sk_full n cfg"
  shows "sk_full n cfg'"
proof -
  have inv: "sk_inv cfg" and c: "ngroups cfg = 3" "length (groups cfg) = 3" using full by (auto simp: sk_full_def sk_inv_def)
  obtain gi i gg l where gi: "gi < ngroups cfg" "groups cfg ! gi = Some gg"
    and c': "cfg' = cfg\<lparr>snet := cut_off (l @ nil_slice (gg_mendnames gg ! i)) (servername (gg_gid gg) (int i)) (snet cfg),
      groups := (groups cfg)[gi := Some (gg\<lparr>gg_servers := (gg_servers gg)[i := None], gg_saved := (gg_saved gg)[i := map_option Copy (gheld gg i)]\<rparr>)]\<rparr>"
    using sShutdownServer_ok [OF st inv] by metis
  have "\<exists>h. groups cfg' ! a = Some h \<and> (\<forall>k < n. k < 3 \<and> gg_endnames h ! k \<noteq> None \<and> gg_mendnames h ! k \<noteq> None)" if "a < 3" for a
    using full that gi c by (cases "a = gi") (auto simp: c' sk_full_def)
  then show ?thesis using sk_inv_shutdown [OF st inv] full unfolding sk_full_def by (auto simp: c')
qed

lemma sk_full_server:
  assumes full: "sk_full n cfg" and gi: "gi < ngroups cfg" "groups cfg ! gi = Some gg" and i: "i < sn cfg" "gg_servers gg ! i = Some s"
    and c': "cfg' = cfg\<lparr>groups := (groups cfg)[gi := Some (gg\<lparr>gg_servers := (gg_servers gg)[i := Some s']\<rparr>)]\<rparr>"
  shows "sk_full n cfg'"
proof -
  have inv: "sk_inv cfg" and c: "ngroups cfg = 3" "nmasters cfg = 3" "length (groups cfg) = ngroups cfg" using full by (auto simp: sk_full_def sk_inv_def)
  have gok: "group_ok (sn cfg) (nmasters cfg) gi gg" using inv gi by (auto simp: sk_inv_def)
  then have i3: "i < nmasters cfg" using i by (auto simp: group_ok_def)
  let ?gg = "gg\<lparr>gg_servers := (gg_servers gg)[i := Some s']\<rparr>"
  have "sk_row cfg' = (sk_row cfg)((gi, i) := group_row ?gg i)" by (rule row_update [OF c(3) gi(1) i(1) i3 gi(2)]) (simp_all add: c')
  moreover have "group_row ?gg i = sk_row cfg (gi, i)" using gi i(1) i3 by (simp add: sk_row_def group_row_def)
  ultimately have row: "sk_row cfg' = sk_row cfg" by (simp add: fun_upd_idem)
  have "sk_up cfg' = (sk_up cfg)((gi, i) := True)"
    using up_update [OF c(3) gi(1) i(1) _ gi(2), of ?gg "Some s'" cfg'] gok by (simp add: c' group_ok_def)
  moreover have "sk_up cfg (gi, i)" using gi i by (simp add: sk_up_def)
  ultimately have up: "sk_up cfg' = sk_up cfg" by (simp add: fun_upd_idem)
  have "group_ok (sn cfg) (nmasters cfg) gi ?gg" using gok i unfolding group_ok_def by (auto simp: nth_list_update)
  then have "sk_inv cfg'" using inv gi c(3) unfolding sk_inv_def row up by (auto simp: c' nth_list_update)
  moreover have "\<exists>h. groups cfg' ! a = Some h \<and> (\<forall>k < n. k < 3 \<and> gg_endnames h ! k \<noteq> None \<and> gg_mendnames h ! k \<noteq> None)" if "a < 3" for a
    using full that gi c by (cases "a = gi") (auto simp: c' sk_full_def)
  ultimately show ?thesis using full unfolding sk_full_def by (auto simp: c')
qed

lemma skstep_full:
  assumes "skstep cfg cfg'" and full: "sk_full n cfg"
  shows "sk_full n cfg'"
  using assms(1)
proof cases
  case (server gi gg i s s')
  then show ?thesis using sk_full_server [OF full] by blast
next
  case (master i m m')
  have "sk_inv cfg'" by (rule sk_inv_grow [of cfg]) (use full master in \<open>auto simp: sk_full_def sk_inv_def nth_list_update\<close>)
  then show ?thesis using full master by (auto simp: sk_full_def sk_inv_def nth_list_update)
next
  case (link nm d rn)
  then show ?thesis using sk_full_grown [OF grown_make_end full] by simp
next
  case (client names ck clerk)
  then show ?thesis using sk_full_grown [OF _ full] grown_client by blast
qed (use full sk_full_start sk_full_shutdown in \<open>auto intro!: sk_full_grown [OF _ full] simp: grown_def sdeleteClient_def Reliable_def LongReordering_def\<close>)

lemma skreach_full:
  assumes "skreach cfg0 cfg" and "sk_full n cfg0"
  shows "sk_full n cfg"
  using assms by induction (auto intro: skstep_full)

end
