(* ===== verification/Harness_Groups.thy ===== *)
theory Harness_Groups
  imports Harness_Shard_Runs
begin

section \<open>What the harness of the sharded store gives a test\<close>

text \<open>
  The configuration that \<open>make_config\<close> builds, and the properties of its runs: which server an end
  reaches, what joining tells the shard master, what a restart restores, and the sizes that fail.
\<close>

subsection \<open>The configuration that \<open>make_config\<close> builds\<close>

definition early :: "nat \<Rightarrow> skconfig \<Rightarrow> bool" where
  "early k cfg \<longleftrightarrow>
     nmasters cfg = 3 \<and> length (masterservers cfg) = 3 \<and> (\<forall>g i. servers (snet cfg) (servername g i) = None) \<and>
     (\<forall>i < 3. (servers (snet cfg) (mastername (int i)) = None \<longleftrightarrow> masterservers cfg ! i = None) \<and> (i < k \<longrightarrow> masterservers cfg ! i \<noteq> None))"

lemma early_step:
  assumes "StartMasterServer names now rnd (int k) cfg = Inr cfg'" and e: "early k cfg" and k: "k < 3"
  shows "early (Suc k) cfg'"
proof -
  obtain rn s where m: "make_ends names (\<lambda>j. mastername (int j)) (nmasters cfg) (snet cfg) = Inr rn"
    and c': "cfg' = cfg\<lparr>snet := AddServer (mastername (int k)) (snextsrv cfg) rn, masterservers := (masterservers cfg)[k := Some s], snextsrv := snextsrv cfg + 1,
       ssrvs := (ssrvs cfg)(snextsrv cfg := master_server (snextsrv cfg))\<rparr>"
    using assms(1) by (auto simp: StartMasterServer_def bind_res_eq_Inr go_update_Inr)
  show ?thesis using e k make_ends_ok [OF m] by (auto simp: early_def c' AddServer_def nth_list_update less_Suc_eq)
qed

lemma early_all:
  assumes "fold_res (\<lambda>i c. StartMasterServer (names i) (now i) (rnd i) (int i) c) [0..<k] cfg0 = Inr cfg" and "early 0 cfg0" and "k \<le> 3"
  shows "early k cfg"
  using assms
proof (induction k arbitrary: cfg)
  case (Suc k)
  then obtain c where "fold_res (\<lambda>i c. StartMasterServer (names i) (now i) (rnd i) (int i) c) [0..<k] cfg0 = Inr c"
    "StartMasterServer (names k) (now k) (rnd k) (int k) c = Inr cfg" by (auto simp: fold_res_snoc bind_res_eq_Inr)
  then show ?case using Suc early_step by simp
qed simp

text \<open>The groups below \<open>k\<close> are complete and run; the others are not there yet.\<close>

definition group_started :: "nat \<Rightarrow> nat \<Rightarrow> group \<Rightarrow> bool" where
  "group_started n m gg \<longleftrightarrow> (\<forall>i < m. i < 3 \<and> gg_endnames gg ! i \<noteq> None \<and> gg_mendnames gg ! i \<noteq> None \<and> gg_servers gg ! i \<noteq> None)"

definition building :: "nat \<Rightarrow> nat \<Rightarrow> skconfig \<Rightarrow> bool" where
  "building n k cfg \<longleftrightarrow>
     sk_inv cfg \<and> ngroups cfg = 3 \<and> nmasters cfg = 3 \<and> sn cfg = n \<and> (\<forall>i < 3. masterservers cfg ! i \<noteq> None) \<and> mck cfg \<noteq> None \<and>
     (\<forall>gi < 3. if gi < k then \<exists>gg. groups cfg ! gi = Some gg \<and> group_started n n gg else groups cfg ! gi = None)"

lemma building_start:
  assumes e: "early 3 cfg" and c': "cfg' = cfg\<lparr>mck := Some ck, ngroups := 3, sn := n, groups := replicate 3 None\<rparr>"
  shows "building n 0 cfg'"
proof -
  have "sk_row cfg' w = {}" "sk_up cfg' w = False" for w by (cases w; simp add: sk_row_def sk_up_def c')+
  then have "rows_up (snet cfg') (sk_row cfg') (sk_up cfg')" by (simp add: rows_up_def)
  moreover have "\<not> sk_up cfg' w" for w by (cases w) (simp add: sk_up_def c')
  ultimately have "sk_inv cfg'" using e by (auto simp: sk_inv_def) (auto simp: c' early_def)
  then show ?thesis using e by (auto simp: building_def c' early_def)
qed

lemma building_group:
  assumes b: "building n k cfg" and k: "k < 3" and c': "cfg' = cfg\<lparr>groups := (groups cfg)[k := Some (new_group n 3 k)]\<rparr>"
  shows "sk_inv cfg'"
proof -
  have inv: "sk_inv cfg" and none: "groups cfg ! k = None" and c: "ngroups cfg = 3" "nmasters cfg = 3" "sn cfg = n" "length (groups cfg) = 3"
    using b k by (auto simp: building_def sk_inv_def split: if_splits)
  have "group_row (new_group n 3 k) i = {}" if "i < n" "i < 3" for i using that by (simp add: group_row_def new_group_def nil_slice_def)
  then have "sk_row cfg' w = sk_row cfg w" for w using none c k by (cases w) (auto simp: sk_row_def c' nth_list_update)
  moreover have "sk_up cfg' w = sk_up cfg w" for w using none c k by (cases w) (auto simp: sk_up_def c' nth_list_update new_group_def)
  ultimately have r: "sk_row cfg' = sk_row cfg" "sk_up cfg' = sk_up cfg" by auto
  have "group_ok n 3 k (new_group n 3 k)" by (auto simp: group_ok_def new_group_def)
  then show ?thesis using inv c k unfolding sk_inv_def r by (auto simp: c' nth_list_update)
qed

lemma start_group_loop:
  assumes "fold_res (\<lambda>i c. sStartServer (names i) (mnames i) (now i) (rnd i) (int k) (int i) c) [0..<m] cfg0 = Inr cfg"
    and inv: "sk_inv cfg0" and m: "m \<le> sn cfg0" and k: "k < ngroups cfg0" and "nmasters cfg0 = 3" and g: "groups cfg0 ! k = Some gg0"
  shows "sk_inv cfg \<and> ngroups cfg = ngroups cfg0 \<and> nmasters cfg = 3 \<and> sn cfg = sn cfg0 \<and> masterservers cfg = masterservers cfg0 \<and> mck cfg = mck cfg0 \<and>
    (\<forall>a. a \<noteq> k \<longrightarrow> groups cfg ! a = groups cfg0 ! a) \<and> (\<exists>gg. groups cfg ! k = Some gg \<and> group_started (sn cfg0) m gg)"
  using assms(1,3)
proof (induction m arbitrary: cfg)
  case 0
  then show ?case using assms by (simp add: group_started_def)
next
  case (Suc m)
  obtain c where c: "fold_res (\<lambda>i c. sStartServer (names i) (mnames i) (now i) (rnd i) (int k) (int i) c) [0..<m] cfg0 = Inr c"
    and st: "sStartServer (names m) (mnames m) (now m) (rnd m) (int k) (int m) c = Inr cfg"
    using Suc.prems(1) by (auto simp: fold_res_snoc bind_res_eq_Inr)
  have IH: "sk_inv c" "ngroups c = ngroups cfg0" "nmasters c = 3" "sn c = sn cfg0" "masterservers c = masterservers cfg0" "mck c = mck cfg0"
    "\<forall>a. a \<noteq> k \<longrightarrow> groups c ! a = groups cfg0 ! a" using Suc.IH [OF c] Suc.prems(2) by simp_all
  obtain gg where gg: "groups c ! k = Some gg" "group_started (sn cfg0) m gg" using Suc.IH [OF c] Suc.prems(2) by auto
  obtain gi i gg' rn2 ps s where x: "int k = int gi" "int m = int i" "i < nmasters c" "groups c ! gi = Some gg'" "group_ok (sn c) (nmasters c) gi gg'"
    and c': "cfg = c\<lparr>snet := AddServer (servername (gg_gid gg') (int i)) (snextsrv c) rn2,
       groups := (groups c)[gi := Some (gg'\<lparr>gg_servers := (gg_servers gg')[i := Some s], gg_saved := (gg_saved gg')[i := Some ps],
         gg_endnames := (gg_endnames gg')[i := Some (map (names m) [0..<sn c])], gg_mendnames := (gg_mendnames gg')[i := Some (map (mnames m) [0..<nmasters c])]\<rparr>)],
       snextsrv := snextsrv c + 1, ssrvs := (ssrvs c)(snextsrv c := store_server (snextsrv c))\<rparr>"
    using sStartServer_ok [OF st IH(1)] by metis
  have eq: "gi = k" "i = m" "gg' = gg" using x(1,2,4) gg(1) by auto
  have len: "length (gg_servers gg) = sn cfg0" "length (gg_endnames gg) = sn cfg0" "length (gg_mendnames gg) = 3" "length (groups c) = ngroups cfg0"
    using x(5) IH eq by (auto simp: group_ok_def sk_inv_def)
  have "\<exists>h. groups cfg ! k = Some h \<and> group_started (sn cfg0) (Suc m) h"
    using gg(2) len k Suc.prems(2) x(3) IH(3) eq by (auto simp: c' group_started_def less_Suc_eq nth_list_update)
  then show ?case using sk_inv_start [OF st IH(1)] IH by (auto simp: c' eq)
qed

lemma building_step:
  assumes b: "building n k cfg" and k: "k < 3" and gs: "go_update (groups cfg) (int k) (Some (new_group (sn cfg) (nmasters cfg) k)) = Inr gs"
    and st: "StartGroup names mnames now rnd (int k) (cfg\<lparr>groups := gs\<rparr>) = Inr cfg'"
  shows "building n (Suc k) cfg'"
proof -
  have c: "ngroups cfg = 3" "nmasters cfg = 3" "sn cfg = n" "length (groups cfg) = 3" using b by (auto simp: building_def sk_inv_def)
  let ?c = "cfg\<lparr>groups := (groups cfg)[k := Some (new_group n 3 k)]\<rparr>"
  have gs': "gs = (groups cfg)[k := Some (new_group n 3 k)]" using gs c by (simp add: go_update_Inr)
  have loop: "fold_res (\<lambda>i c. sStartServer (names i) (mnames i) (now i) (rnd i) (int k) (int i) c) [0..<n] ?c = Inr cfg'"
    using st c by (simp add: StartGroup_def gs')
  have r: "sk_inv cfg'" "ngroups cfg' = 3" "nmasters cfg' = 3" "sn cfg' = n" "masterservers cfg' = masterservers cfg" "mck cfg' = mck cfg"
    "\<forall>a. a \<noteq> k \<longrightarrow> groups cfg' ! a = groups cfg ! a" "\<exists>gg. groups cfg' ! k = Some gg \<and> group_started n n gg"
    using start_group_loop [OF loop building_group [OF b k refl]] c k by auto
  then show ?thesis using b by (auto simp: building_def less_Suc_eq)
qed

lemma building_all:
  assumes "fold_res (\<lambda>gi c. bind_res (go_update (groups c) (int gi) (Some (new_group (sn c) (nmasters c) gi))) (\<lambda>gs.
      StartGroup (names gi) (mnames gi) now rnd (int gi) (c\<lparr>groups := gs\<rparr>))) [0..<k] cfg0 = Inr cfg" and "building n 0 cfg0" and "k \<le> 3"
  shows "building n k cfg"
  using assms
proof (induction k arbitrary: cfg)
  case (Suc k)
  let ?f = "\<lambda>gi c. bind_res (go_update (groups c) (int gi) (Some (new_group (sn c) (nmasters c) gi))) (\<lambda>gs.
      StartGroup (names gi) (mnames gi) now rnd (int gi) (c\<lparr>groups := gs\<rparr>))"
  obtain c where c: "fold_res ?f [0..<k] cfg0 = Inr c" "?f k c = Inr cfg" using Suc.prems(1) by (auto simp: fold_res_snoc bind_res_eq_Inr)
  obtain gs where gs: "go_update (groups c) (int k) (Some (new_group (sn c) (nmasters c) k)) = Inr gs" "StartGroup (names k) (mnames k) now rnd (int k) (c\<lparr>groups := gs\<rparr>) = Inr cfg"
    using c(2) by (auto simp: bind_res_eq_Inr)
  show ?case using building_step [OF _ _ gs] Suc.IH [OF c(1)] Suc.prems by simp
qed simp

lemma smake_config_ok:
  assumes "smake_config now0 ch n unreliable maxr = Inr cfg"
  shows "sk_full n cfg \<and> mck cfg \<noteq> None \<and> (\<forall>gi < 3. \<forall>i < n. sk_up cfg (gi, i))"
proof -
  define cfg0 where "cfg0 = \<lparr>snet = MakeNetwork, sstart = now0, nmasters = 3, masterservers = replicate 3 None, mck = None, ngroups = 0, sn = 0, groups = [],
                  sclerks = (\<lambda>_. None), snextClientId = 0, smaxraftstate = maxr, snextsrv = 0, ssrvs = (\<lambda>_. MakeServer)\<rparr>"
  let ?f = "\<lambda>gi c. bind_res (go_update (groups c) (int gi) (Some (new_group (sn c) (nmasters c) gi))) (\<lambda>gs.
      StartGroup (ch_server ch gi) (ch_smaster ch gi) (ch_now ch) (ch_rnd ch) (int gi) (c\<lparr>groups := gs\<rparr>))"
  obtain cfg1 ck cfg2 cfg4 where c: "fold_res (\<lambda>i c. StartMasterServer (ch_master ch i) (ch_now ch i) (ch_rnd ch i) (int i) c) [0..<3] cfg0 = Inr cfg1"
    "shardclerk (ch_clerk ch) cfg1 = Inr (ck, cfg2)" "fold_res ?f [0..<3] (cfg2\<lparr>mck := Some ck, ngroups := 3, sn := n, groups := replicate 3 None\<rparr>) = Inr cfg4"
    "cfg = cfg4\<lparr>snextClientId := int (sn cfg4) + 1000, snet := Reliable (\<not> unreliable) (snet cfg4)\<rparr>"
    using assms unfolding smake_config_def cfg0_def [symmetric] by (auto simp: bind_res_eq_Inr Let_def) (auto simp: cfg0_def)
  have "early 0 cfg0" by (simp add: early_def cfg0_def MakeNetwork_def)
  then have e1: "early 3 cfg1" using early_all [OF c(1)] by simp
  have "early 3 cfg2" using c(2) e1 make_ends_ok by (fastforce simp: shardclerk_def bind_res_eq_Inr early_def)
  then have "building n 3 cfg4" using building_all [OF c(3) building_start [OF _ refl]] by simp
  moreover have "grown cfg4 cfg" by (simp add: grown_def c(4) Reliable_def)
  moreover have "sk_full n cfg4" using calculation(1) unfolding building_def sk_full_def group_started_def by (metis (no_types, lifting))
  ultimately show ?thesis using sk_full_grown by (auto simp: building_def grown_def sk_up_def group_started_def c(4))
qed

lemma sk_run:
  assumes "smake_config now0 ch n unreliable maxr = Inr cfg0" and "skreach cfg0 cfg"
  shows "sk_full n cfg"
  using smake_config_ok [OF assms(1)] skreach_full [OF assms(2)] by blast

subsection \<open>The registered servers\<close>

text \<open>
  A server that the network knows has the services of a shard master if its name is that of a master, and
  those of a server of a group otherwise; all act on the instance it was made for.
\<close>

definition made_for :: "string \<Rightarrow> nat \<Rightarrow> (unit svc_args, svc_reply, shard_object objects) Server" where
  "made_for nm p = (if take 6 nm = ''master'' then master_server p else store_server p)"

lemma made_for_names [simp]: "made_for (mastername i) = master_server" "made_for (servername g i) = store_server"
  by (simp_all add: made_for_def mastername_def servername_def fun_eq_iff)

definition sk_served :: "skconfig \<Rightarrow> bool" where
  "sk_served cfg \<longleftrightarrow> registered made_for (servers (snet cfg)) (ssrvs cfg) (snextsrv cfg)"

lemma sk_served_cong:
  "servers (snet cfg') = servers (snet cfg) \<Longrightarrow> ssrvs cfg' = ssrvs cfg \<Longrightarrow> snextsrv cfg' = snextsrv cfg \<Longrightarrow> sk_served cfg \<Longrightarrow> sk_served cfg'"
  by (simp add: sk_served_def)

lemma sk_served_start:
  assumes "sStartServer names mnames now rnd g j cfg = Inr cfg'" and "sk_served cfg"
  shows "sk_served cfg'"
proof -
  obtain gg :: group and rn1 rn2 gs where m: "make_ends names (\<lambda>j. servername (gg_gid gg) (int j)) (sn cfg) (snet cfg) = Inr rn1"
    "make_ends mnames (\<lambda>j. mastername (int j)) (nmasters cfg) rn1 = Inr rn2"
    and c': "cfg' = cfg\<lparr>snet := AddServer (servername (gg_gid gg) j) (snextsrv cfg) rn2, groups := gs, snextsrv := snextsrv cfg + 1,
      ssrvs := (ssrvs cfg)(snextsrv cfg := store_server (snextsrv cfg))\<rparr>"
    using assms(1) by (auto simp: sStartServer_def bind_res_eq_Inr Let_def)
  have "servers rn2 = servers (snet cfg)" using make_ends_ok [OF m(1)] make_ends_ok [OF m(2)] by simp
  then show ?thesis
    using assms(2) registered_add [of made_for "servers (snet cfg)" "ssrvs cfg" "snextsrv cfg" "servername (gg_gid gg) j"]
    by (simp add: sk_served_def c' AddServer_def)
qed

lemma sk_served_master:
  assumes "StartMasterServer names now rnd i cfg = Inr cfg'" and "sk_served cfg"
  shows "sk_served cfg'"
proof -
  obtain rn ms where m: "make_ends names (\<lambda>j. mastername (int j)) (nmasters cfg) (snet cfg) = Inr rn"
    and c': "cfg' = cfg\<lparr>snet := AddServer (mastername i) (snextsrv cfg) rn, masterservers := ms, snextsrv := snextsrv cfg + 1,
      ssrvs := (ssrvs cfg)(snextsrv cfg := master_server (snextsrv cfg))\<rparr>"
    using assms(1) by (auto simp: StartMasterServer_def bind_res_eq_Inr)
  have "servers rn = servers (snet cfg)" using make_ends_ok [OF m] by simp
  then show ?thesis
    using assms(2) registered_add [of made_for "servers (snet cfg)" "ssrvs cfg" "snextsrv cfg" "mastername i"]
    by (simp add: sk_served_def c' AddServer_def)
qed

lemma skstep_served:
  assumes "skstep cfg cfg'" and "sk_full n cfg" and "sk_served cfg"
  shows "sk_served cfg'"
  using assms(1)
proof cases
  case (client names ck clerk)
  have "ssrvs cfg' = ssrvs cfg" "snextsrv cfg' = snextsrv cfg" using client by (auto simp: smakeClient_def bind_res_eq_Inr)
  then show ?thesis using grown_client [OF client] sk_served_cong [OF _ _ _ assms(3)] by (simp add: grown_def)
next
  case (shutdown g j)
  have inv: "sk_inv cfg" using assms(2) by (simp add: sk_full_def)
  obtain gi i gg l where "cfg' = cfg\<lparr>snet := cut_off (l @ nil_slice (gg_mendnames gg ! i)) (servername (gg_gid gg) (int i)) (snet cfg),
      groups := (groups cfg)[gi := Some (gg\<lparr>gg_servers := (gg_servers gg)[i := None], gg_saved := (gg_saved gg)[i := map_option Copy (gheld gg i)]\<rparr>)]\<rparr>"
    using sShutdownServer_ok [OF shutdown inv] by metis
  then show ?thesis using assms(3) registered_delete by (auto simp: sk_served_def cut_off_def DeleteServer_def)
next
  case (start names mnames now rnd g j)
  then show ?thesis by (rule sk_served_start [OF _ assms(3)])
next
  case (link nm d rn)
  then show ?thesis using make_end_ok(3) [OF link(2)] assms(3) by (simp add: sk_served_def)
next
  case (dispatched p)
  then show ?thesis using assms(3) by (auto simp: sk_served_def intro: registered_count)
qed (use assms(3) in \<open>auto simp: sk_served_def sdeleteClient_def Reliable_def LongReordering_def\<close>)

lemma smake_config_served:
  assumes "smake_config now0 ch n unreliable maxr = Inr cfg"
  shows "sk_served cfg"
proof -
  define cfg0 where "cfg0 = \<lparr>snet = MakeNetwork, sstart = now0, nmasters = 3, masterservers = replicate 3 None, mck = None, ngroups = 0, sn = 0, groups = [],
                  sclerks = (\<lambda>_. None), snextClientId = 0, smaxraftstate = maxr, snextsrv = 0, ssrvs = (\<lambda>_. MakeServer)\<rparr>"
  let ?f = "\<lambda>gi c. bind_res (go_update (groups c) (int gi) (Some (new_group (sn c) (nmasters c) gi))) (\<lambda>gs.
      StartGroup (ch_server ch gi) (ch_smaster ch gi) (ch_now ch) (ch_rnd ch) (int gi) (c\<lparr>groups := gs\<rparr>))"
  obtain cfg1 ck cfg2 cfg4 where c: "fold_res (\<lambda>i c. StartMasterServer (ch_master ch i) (ch_now ch i) (ch_rnd ch i) (int i) c) [0..<3] cfg0 = Inr cfg1"
    "shardclerk (ch_clerk ch) cfg1 = Inr (ck, cfg2)" "fold_res ?f [0..<3] (cfg2\<lparr>mck := Some ck, ngroups := 3, sn := n, groups := replicate 3 None\<rparr>) = Inr cfg4"
    "cfg = cfg4\<lparr>snextClientId := int (sn cfg4) + 1000, snet := Reliable (\<not> unreliable) (snet cfg4)\<rparr>"
    using assms unfolding smake_config_def cfg0_def [symmetric] by (auto simp: bind_res_eq_Inr Let_def) (auto simp: cfg0_def)
  have "sk_served cfg0" by (simp add: sk_served_def cfg0_def MakeNetwork_def registered_none)
  with c(1) have s1: "sk_served cfg1" by (rule fold_res_invariant) (use sk_served_master in blast)
  have "sk_served cfg2" using c(2) s1 make_ends_ok by (fastforce simp: shardclerk_def bind_res_eq_Inr sk_served_def)
  then have "sk_served (cfg2\<lparr>mck := Some ck, ngroups := 3, sn := n, groups := replicate 3 None\<rparr>)" by (simp add: sk_served_def)
  with c(3) have "sk_served cfg4"
  proof (rule fold_res_invariant)
    fix gi c c' assume c: "sk_served c" "?f gi c = Inr c'"
    then obtain gs where st: "fold_res (\<lambda>i c. sStartServer (ch_server ch gi i) (ch_smaster ch gi i) (ch_now ch i) (ch_rnd ch i) (int gi) (int i) c) [0..<sn c] (c\<lparr>groups := gs\<rparr>) = Inr c'"
      by (auto simp: bind_res_eq_Inr StartGroup_def)
    have "sk_served (c\<lparr>groups := gs\<rparr>)" using c(1) by (simp add: sk_served_def)
    with st show "sk_served c'" by (rule fold_res_invariant) (use sk_served_start in blast)
  qed
  then show ?thesis by (simp add: c(4) sk_served_def Reliable_def)
qed

text \<open>In every run a Raft request to a server that the network knows runs the handler of the peer of its instance.\<close>

lemma sk_run_serves_raft:
  assumes "smake_config now0 ch n unreliable maxr = Inr cfg0" and "skreach cfg0 cfg"
    and "servers (snet cfg) nm = Some p" and "raft_handle t (obj_rf (objs p)) a = Inr (rf', r)"
  shows "\<exists>svc f. services (ssrvs cfg p) ''Raft'' = Some svc \<and> methods svc (method_of a) = Some f \<and>
    f (RaftReq a) (Inr (t, objs)) = (RaftRep r, Inr (t, objs(p := put_obj_rf rf' (objs p))))"
proof -
  have "sk_full n cfg \<and> sk_served cfg"
    using assms(2) smake_config_served [OF assms(1)] smake_config_ok [OF assms(1)] by induction (auto intro: skstep_full skstep_served)
  then have "services (ssrvs cfg p) = services (made_for nm p)" using assms(3) by (simp add: sk_served_def registered_def)
  then have "services (ssrvs cfg p) = services (master_server p) \<or> services (ssrvs cfg p) = services (store_server p)"
    by (simp add: made_for_def split: if_splits)
  then show ?thesis
    using two_services_raft [where rs = "ssrvs cfg p" and get_rf = obj_rf and put_rf = put_obj_rf and p = p and objs = objs, OF _ assms(4)]
    unfolding master_server_def store_server_def by blast
qed

subsection \<open>With unused names the harness starts\<close>

lemma skv_start_restores:
  assumes "raft_store.restore ps initial_pstate = Inr v"
  shows "\<exists>s. skv_StartServer now rnd n i ps mx gid nm = Inr s \<and> pstate_of (skv_rf s) = v \<and> persister (skv_rf s) = ps \<and> me (skv_rf s) = i \<and>
    state (skv_rf s) = Follower \<and> commitIndex (skv_rf s) = 0 \<and> lastApplied (skv_rf s) = 0 \<and> dead (skv_rf s) = 0"
proof -
  obtain lg t vt where v: "v = (lg, t, vt)" by (cases v)
  show ?thesis using Make_restores [OF assms [unfolded v], of now rnd n i] v by (auto simp: skv_StartServer_def)
qed

lemma sStartServer_total:
  assumes inv: "sk_inv cfg" and gi: "gi < ngroups cfg" "groups cfg ! gi = Some gg" and i: "i < sn cfg" "i < nmasters cfg"
    and nm: "inj_on names {..<sn cfg}" "names ` {..<sn cfg} \<inter> ends (snet cfg) = {}"
    and mn: "inj_on mnames {..<nmasters cfg}" "mnames ` {..<nmasters cfg} \<inter> (ends (snet cfg) \<union> names ` {..<sn cfg}) = {}"
    and v: "raft_store.restore (case gheld gg i of Some p \<Rightarrow> p | None \<Rightarrow> MakePersister) initial_pstate = Inr v"
  shows "\<exists>cfg' gg' s. sStartServer names mnames now rnd (int gi) (int i) cfg = Inr cfg' \<and> groups cfg' = (groups cfg)[gi := Some gg'] \<and>
    gg_servers gg' = (gg_servers gg)[i := Some s] \<and> (\<forall>k. k \<noteq> i \<longrightarrow> gg_saved gg' ! k = gg_saved gg ! k) \<and> pstate_of (skv_rf s) = v \<and>
    persister (skv_rf s) = (case gheld gg i of Some p \<Rightarrow> p | None \<Rightarrow> MakePersister) \<and> me (skv_rf s) = int i \<and> state (skv_rf s) = Follower \<and>
    commitIndex (skv_rf s) = 0 \<and> lastApplied (skv_rf s) = 0 \<and> dead (skv_rf s) = 0 \<and>
    ends (snet cfg') = ends (snet cfg) \<union> names ` {..<sn cfg} \<union> mnames ` {..<nmasters cfg}"
proof -
  let ?p = "case gheld gg i of Some p \<Rightarrow> p | None \<Rightarrow> MakePersister"
  have cp: "(case gheld gg i of Some p \<Rightarrow> Copy p | None \<Rightarrow> MakePersister) = ?p" by (simp add: Copy_id split: option.splits)
  have ok: "group_ok (sn cfg) (nmasters cfg) gi gg" "length (groups cfg) = ngroups cfg" using inv gi by (auto simp: sk_inv_def)
  then have len: "length (gg_servers gg) = sn cfg" "length (gg_saved gg) = sn cfg" "length (gg_endnames gg) = sn cfg" "length (gg_mendnames gg) = nmasters cfg"
    by (simp_all add: group_ok_def)
  obtain rn1 where rn1: "make_ends names (\<lambda>j. servername (gg_gid gg) (int j)) (sn cfg) (snet cfg) = Inr rn1" using make_ends_total [OF nm] by blast
  have e1: "ends rn1 = ends (snet cfg) \<union> names ` {..<sn cfg}" using make_ends_ok [OF rn1] by blast
  obtain rn2 where rn2: "make_ends mnames (\<lambda>j. mastername (int j)) (nmasters cfg) rn1 = Inr rn2" using make_ends_total [OF mn(1)] mn(2) e1 by metis
  have e2: "ends rn2 = ends rn1 \<union> mnames ` {..<nmasters cfg}" using make_ends_ok [OF rn2] by blast
  obtain s where s: "skv_StartServer now rnd (sn cfg) (int i) ?p (smaxraftstate cfg) (gg_gid gg) (nmasters cfg) = Inr s" "pstate_of (skv_rf s) = v" "persister (skv_rf s) = ?p"
    "me (skv_rf s) = int i" "state (skv_rf s) = Follower" "commitIndex (skv_rf s) = 0" "lastApplied (skv_rf s) = 0" "dead (skv_rf s) = 0"
    using skv_start_restores [OF v] by blast
  let ?gg = "gg\<lparr>gg_servers := (gg_servers gg)[i := Some s], gg_saved := (gg_saved gg)[i := Some ?p],
         gg_endnames := (gg_endnames gg)[i := Some (map names [0..<sn cfg])], gg_mendnames := (gg_mendnames gg)[i := Some (map mnames [0..<nmasters cfg])]\<rparr>"
  have "the_group (int gi) cfg = Inr gg" using gi ok(2) by (simp add: the_group_def)
  then have "sStartServer names mnames now rnd (int gi) (int i) cfg =
    Inr (cfg\<lparr>snet := AddServer (servername (gg_gid gg) (int i)) (snextsrv cfg) rn2, groups := (groups cfg)[gi := Some ?gg], snextsrv := snextsrv cfg + 1, ssrvs := (ssrvs cfg)(snextsrv cfg := store_server (snextsrv cfg))\<rparr>)"
    using gsaved_now_held [of i gg] i len gi(1) ok(2)
    by (simp add: sStartServer_def rn1 rn2 Let_def cp s(1) go_update_def go_len_def)
  then show ?thesis using s(2-8) e1 e2 by (intro exI [of _ "cfg\<lparr>snet := AddServer (servername (gg_gid gg) (int i)) (snextsrv cfg) rn2, groups := (groups cfg)[gi := Some ?gg], snextsrv := snextsrv cfg + 1, ssrvs := (ssrvs cfg)(snextsrv cfg := store_server (snextsrv cfg))\<rparr>"]
        exI [of _ ?gg] exI [of _ s]) (simp add: AddServer_def)
qed

text \<open>Names drawn one after the other from a sequence without repetition.\<close>

definition choices_of :: "(nat \<Rightarrow> string) \<Rightarrow> nat \<Rightarrow> choices" where
  "choices_of nm n =
     \<lparr>ch_master = (\<lambda>i j. nm (3 * i + j)), ch_clerk = (\<lambda>j. nm (9 + j)), ch_server = (\<lambda>g i j. nm (12 + (n + 3) * (n * g + i) + j)),
      ch_smaster = (\<lambda>g i j. nm (12 + (n + 3) * (n * g + i) + n + j)), ch_now = (\<lambda>_. 0), ch_rnd = (\<lambda>_. 0)\<rparr>"

lemma fresh_names:
  fixes nm :: "nat \<Rightarrow> string"
  assumes nm: "inj nm" and e: "ends rn \<subseteq> nm ` {..<k}"
  shows "inj_on (\<lambda>j. nm (k + j)) {..<m}" and "(\<lambda>j. nm (k + j)) ` {..<m} \<inter> ends rn = {}"
    and "ends rn \<union> (\<lambda>j. nm (k + j)) ` {..<m} \<subseteq> nm ` {..<k + m}"
proof -
  show "inj_on (\<lambda>j. nm (k + j)) {..<m}" 
  proof (rule inj_onI)
    show "x = y" if "nm (k + x) = nm (k + y)" for x y using injD [OF nm that] by simp
  qed
  have "nm (k + j) \<notin> nm ` {..<k}" for j by (auto dest: injD [OF nm])
  then show "(\<lambda>j. nm (k + j)) ` {..<m} \<inter> ends rn = {}" using e by blast
  show "ends rn \<union> (\<lambda>j. nm (k + j)) ` {..<m} \<subseteq> nm ` {..<k + m}" using e by auto
qed

lemma masters_total:
  assumes nm: "inj nm" and c0: "nmasters cfg0 = 3" "length (masterservers cfg0) = 3" "ends (snet cfg0) = {}" and k: "k \<le> 3"
  shows "\<exists>cfg. fold_res (\<lambda>i c. StartMasterServer (\<lambda>j. nm (3 * i + j)) 0 0 (int i) c) [0..<k] cfg0 = Inr cfg \<and> nmasters cfg = 3 \<and>
    length (masterservers cfg) = 3 \<and> ends (snet cfg) \<subseteq> nm ` {..<3 * k}"
  using k
proof (induction k)
  case 0
  then show ?case using c0 by simp
next
  case (Suc k)
  then obtain c where c: "fold_res (\<lambda>i c. StartMasterServer (\<lambda>j. nm (3 * i + j)) 0 0 (int i) c) [0..<k] cfg0 = Inr c" "nmasters c = 3" "length (masterservers c) = 3"
    "ends (snet c) \<subseteq> nm ` {..<3 * k}" by auto
  note f = fresh_names [OF nm c(4), of 3]
  obtain rn where rn: "make_ends (\<lambda>j. nm (3 * k + j)) (\<lambda>j. mastername (int j)) 3 (snet c) = Inr rn" using make_ends_total [OF f(1,2)] by blast
  have "raft_store.restore (MakePersister :: unit gob_item Persister) initial_pstate = Inr initial_pstate" by (simp add: raft_store.restore_empty)
  then have "raft_store.restore (MakePersister :: unit gob_item Persister) initial_pstate = Inr ([\<lparr>Term = 0, Command = None, Index = 0\<rparr>], 0, -1)"
    by (simp add: initial_pstate_def)
  then obtain rf where rf: "Make 0 0 3 (int k) (MakePersister :: unit gob_item Persister) = Inr rf" using Make_restores by blast
  have "ends rn \<subseteq> nm ` {..<3 * k + 3}" using make_ends_ok [OF rn] f(3) by simp
  then show ?case using c rn rf Suc.prems
    by (auto simp: fold_res_snoc StartMasterServer_def sm_StartServer_def go_update_def go_len_def AddServer_def add.commute)
qed

lemma groups_total_step:
  fixes nm :: "nat \<Rightarrow> string"
  assumes nm: "inj nm" and inv: "sk_inv cfg0" and k: "k < ngroups cfg0" "nmasters cfg0 = 3" "groups cfg0 ! k = Some (new_group (sn cfg0) 3 k)"
    and n: "sn cfg0 = n" "n \<le> 3" and e: "ends (snet cfg0) \<subseteq> nm ` {..<12 + (n + 3) * (n * k)}" and m: "m \<le> n"
  shows "\<exists>cfg gg. fold_res (\<lambda>i c. sStartServer (\<lambda>j. nm (12 + (n + 3) * (n * k + i) + j)) (\<lambda>j. nm (12 + (n + 3) * (n * k + i) + n + j)) 0 0 (int k) (int i) c) [0..<m] cfg0 = Inr cfg \<and>
    ends (snet cfg) \<subseteq> nm ` {..<12 + (n + 3) * (n * k + m)} \<and> groups cfg ! k = Some gg \<and> (\<forall>i < n. m \<le> i \<longrightarrow> gg_servers gg ! i = None \<and> gg_saved gg ! i = None)"
  using m
proof (induction m)
  case 0
  then show ?case using e k(3) n by (simp add: new_group_def)
next
  case (Suc m)
  let ?f = "\<lambda>i c. sStartServer (\<lambda>j. nm (12 + (n + 3) * (n * k + i) + j)) (\<lambda>j. nm (12 + (n + 3) * (n * k + i) + n + j)) 0 0 (int k) (int i) c"
  let ?b = "12 + (n + 3) * (n * k + m)"
  obtain c gg where c: "fold_res ?f [0..<m] cfg0 = Inr c" "ends (snet c) \<subseteq> nm ` {..<?b}" "groups c ! k = Some gg"
    "\<forall>i < n. m \<le> i \<longrightarrow> gg_servers gg ! i = None \<and> gg_saved gg ! i = None" using Suc by auto
  have s: "sk_inv c" "ngroups c = ngroups cfg0" "nmasters c = 3" "sn c = n" using start_group_loop [OF c(1) inv _ k] Suc.prems n by auto
  have h: "gheld gg m = None" using c(4) Suc.prems by (simp add: gheld_def)
  have v: "raft_store.restore (case gheld gg m of Some p \<Rightarrow> p | None \<Rightarrow> MakePersister) initial_pstate = Inr initial_pstate" by (simp add: h raft_store.restore_empty)
  note f1 = fresh_names [OF nm c(2), of n]
  have "ends ((snet c)\<lparr>ends := ends (snet c) \<union> (\<lambda>j. nm (?b + j)) ` {..<n}\<rparr>) \<subseteq> nm ` {..<?b + n}" using f1(3) by simp
  note f2 = fresh_names [OF nm this, of 3]
  obtain cfg gg' s' where st: "?f m c = Inr cfg" "groups cfg = (groups c)[k := Some gg']" "gg_servers gg' = (gg_servers gg)[m := Some s']"
    "\<forall>a. a \<noteq> m \<longrightarrow> gg_saved gg' ! a = gg_saved gg ! a" "ends (snet cfg) = ends (snet c) \<union> (\<lambda>j. nm (?b + j)) ` {..<n} \<union> (\<lambda>j. nm (?b + n + j)) ` {..<3}"
    using sStartServer_total [OF s(1) _ c(3), of m "\<lambda>j. nm (?b + j)" "\<lambda>j. nm (?b + n + j)", OF _ _ _ _ _ _ _ v, of 0 0] s f1(1,2) f2(1,2) k(1) Suc.prems n(2) by auto
  have "?b + n + 3 = 12 + (n + 3) * (n * k + Suc m)" by (simp add: algebra_simps)
  moreover have "ends (snet cfg) \<subseteq> nm ` {..<?b + n + 3}" using f2(3) unfolding st(5) by simp
  ultimately have "ends (snet cfg) \<subseteq> nm ` {..<12 + (n + 3) * (n * k + Suc m)}" by (simp only:)
  moreover have "groups cfg ! k = Some gg'" using st(2) k(1) s(1,2) by (simp add: sk_inv_def)
  ultimately show ?case using c(1,4) st by (auto simp: fold_res_snoc)
qed

lemma groups_total:
  fixes nm :: "nat \<Rightarrow> string"
  assumes nm: "inj nm" and b: "building n 0 cfg0" and n: "n \<le> 3" and e: "ends (snet cfg0) \<subseteq> nm ` {..<12}" and "k \<le> 3"
  shows "\<exists>cfg. fold_res (\<lambda>gi c. bind_res (go_update (groups c) (int gi) (Some (new_group (sn c) (nmasters c) gi))) (\<lambda>gs.
      StartGroup (\<lambda>i j. nm (12 + (n + 3) * (n * gi + i) + j)) (\<lambda>i j. nm (12 + (n + 3) * (n * gi + i) + n + j)) (\<lambda>_. 0) (\<lambda>_. 0) (int gi) (c\<lparr>groups := gs\<rparr>))) [0..<k] cfg0 = Inr cfg \<and>
    ends (snet cfg) \<subseteq> nm ` {..<12 + (n + 3) * (n * k)}"
  using \<open>k \<le> 3\<close>
proof (induction k)
  case 0
  then show ?case using e by simp
next
  case (Suc k)
  let ?f = "\<lambda>gi c. bind_res (go_update (groups c) (int gi) (Some (new_group (sn c) (nmasters c) gi))) (\<lambda>gs.
      StartGroup (\<lambda>i j. nm (12 + (n + 3) * (n * gi + i) + j)) (\<lambda>i j. nm (12 + (n + 3) * (n * gi + i) + n + j)) (\<lambda>_. 0) (\<lambda>_. 0) (int gi) (c\<lparr>groups := gs\<rparr>))"
  obtain c where c: "fold_res ?f [0..<k] cfg0 = Inr c" "ends (snet c) \<subseteq> nm ` {..<12 + (n + 3) * (n * k)}" using Suc by auto
  have bk: "building n k c" using building_all [OF c(1) b] Suc.prems by simp
  then have s: "ngroups c = 3" "nmasters c = 3" "sn c = n" "length (groups c) = 3" by (auto simp: building_def sk_inv_def)
  let ?c = "c\<lparr>groups := (groups c)[k := Some (new_group n 3 k)]\<rparr>"
  have inv: "sk_inv ?c" using building_group [OF bk _ refl] Suc.prems by simp
  obtain cfg where g: "fold_res (\<lambda>i c. sStartServer (\<lambda>j. nm (12 + (n + 3) * (n * k + i) + j)) (\<lambda>j. nm (12 + (n + 3) * (n * k + i) + n + j)) 0 0 (int k) (int i) c) [0..<n] ?c = Inr cfg"
    "ends (snet cfg) \<subseteq> nm ` {..<12 + (n + 3) * (n * k + n)}"
    using groups_total_step [OF nm inv, of k n n] s Suc.prems n c(2) by auto
  have "?f k c = Inr cfg" using g(1) s Suc.prems by (simp add: go_update_def go_len_def StartGroup_def)
  moreover have "n * k + n = n * Suc k" by simp
  ultimately show ?case using c(1) g(2) by (auto simp: fold_res_snoc simp del: mult_Suc_right)
qed

lemma smake_config_total:
  assumes nm: "inj nm" and n: "n \<le> 3"
  shows "\<exists>cfg. smake_config now0 (choices_of nm n) n unreliable maxr = Inr cfg \<and> ends (snet cfg) \<subseteq> nm ` {..<12 + (n + 3) * (n * 3)}"
proof -
  define cfg0 where "cfg0 = \<lparr>snet = MakeNetwork, sstart = now0, nmasters = 3, masterservers = replicate 3 None, mck = None, ngroups = 0, sn = 0, groups = [],
                  sclerks = (\<lambda>_. None), snextClientId = 0, smaxraftstate = maxr, snextsrv = 0, ssrvs = (\<lambda>_. MakeServer)\<rparr>"
  have c0: "nmasters cfg0 = 3" "length (masterservers cfg0) = 3" "ends (snet cfg0) = {}" "early 0 cfg0"
    by (simp_all add: cfg0_def early_def MakeNetwork_def)
  obtain cfg1 where c1: "fold_res (\<lambda>i c. StartMasterServer (\<lambda>j. nm (3 * i + j)) 0 0 (int i) c) [0..<3] cfg0 = Inr cfg1" "nmasters cfg1 = 3" "ends (snet cfg1) \<subseteq> nm ` {..<9}"
    using masters_total [OF nm c0(1-3), of 3] by auto
  note f = fresh_names [OF nm c1(3), of 3]
  obtain rn where rn: "make_ends (\<lambda>j. nm (9 + j)) (\<lambda>j. mastername (int j)) 3 (snet cfg1) = Inr rn" using make_ends_total [OF f(1,2)] by blast
  have e: "ends rn \<subseteq> nm ` {..<12}" using make_ends_ok [OF rn] f(3) by simp
  let ?ck = "sm_MakeClerk (map (\<lambda>j. nm (9 + j)) [0..<3])"
  let ?c3 = "cfg1\<lparr>snet := rn, mck := Some ?ck, ngroups := 3, sn := n, groups := replicate 3 None\<rparr>"
  have "early 3 cfg1" using early_all [OF c1(1) c0(4)] by simp
  then have "early 3 (cfg1\<lparr>snet := rn\<rparr>)" using make_ends_ok [OF rn] by (simp add: early_def)
  then have b: "building n 0 ?c3" by (rule building_start) simp
  obtain cfg4 where c4: "fold_res (\<lambda>gi c. bind_res (go_update (groups c) (int gi) (Some (new_group (sn c) (nmasters c) gi))) (\<lambda>gs.
      StartGroup (\<lambda>i j. nm (12 + (n + 3) * (n * gi + i) + j)) (\<lambda>i j. nm (12 + (n + 3) * (n * gi + i) + n + j)) (\<lambda>_. 0) (\<lambda>_. 0) (int gi) (c\<lparr>groups := gs\<rparr>))) [0..<3] ?c3 = Inr cfg4"
    "ends (snet cfg4) \<subseteq> nm ` {..<12 + (n + 3) * (n * 3)}"
    using groups_total [OF nm b n, of 3] e by auto
  have "shardclerk (\<lambda>j. nm (9 + j)) cfg1 = Inr (?ck, cfg1\<lparr>snet := rn\<rparr>)" using rn c1(2) by (simp add: shardclerk_def)
  then have "smake_config now0 (choices_of nm n) n unreliable maxr = Inr (cfg4\<lparr>snextClientId := int (sn cfg4) + 1000, snet := Reliable (\<not> unreliable) (snet cfg4)\<rparr>)"
    using c1(1) c4(1) unfolding smake_config_def cfg0_def [symmetric] by (simp add: choices_of_def Let_def c0(1))
  then show ?thesis using c4(2) by (simp add: Reliable_def)
qed

subsection \<open>Properties\<close>

lemma full_has_group:
  assumes "sk_full n cfg" and "gi < 3"
  obtains gg where "groups cfg ! gi = Some gg"
  using assms unfolding sk_full_def by blast

lemma full_group_ok:
  assumes "sk_full n cfg" and "gi < 3" and "groups cfg ! gi = Some gg"
  shows "group_ok n 3 gi gg"
  using assms by (auto simp: sk_full_def sk_inv_def)

lemma full_group:
  assumes full: "sk_full n cfg" and gi: "gi < 3" and g: "groups cfg ! gi = Some gg" and i: "i < n"
  obtains l ml where "gg_endnames gg ! i = Some l" "gg_mendnames gg ! i = Some ml" "length l = n" "length ml = 3" "i < 3"
    "sk_row cfg (gi, i) = (\<lambda>j. (l ! j, servername (100 + int gi) (int j))) ` {..<n} \<union> (\<lambda>j. (ml ! j, mastername (int j))) ` {..<3}"
proof -
  have c: "sk_inv cfg" "ngroups cfg = 3" "nmasters cfg = 3" "sn cfg = n" using full by (auto simp: sk_full_def)
  note ok = full_group_ok [OF full gi g]
  have "i < 3 \<and> gg_endnames gg ! i \<noteq> None \<and> gg_mendnames gg ! i \<noteq> None" using full gi g i by (auto simp: sk_full_def)
  then obtain l ml where l: "i < 3" "gg_endnames gg ! i = Some l" "gg_mendnames gg ! i = Some ml" by blast
  then have len: "length l = n" "length ml = 3" using ok i by (auto simp: group_ok_def)
  have "sk_row cfg (gi, i) = group_row gg i" using c gi g i l by (simp add: sk_row_def)
  also have "\<dots> = (\<lambda>j. (l ! j, servername (100 + int gi) (int j))) ` {..<n} \<union> (\<lambda>j. (ml ! j, mastername (int j))) ` {..<3}"
    using ok l len by (simp add: group_row_def nil_slice_def group_ok_def)
  finally show ?thesis by (rule that [OF l(2,3) len l(1)])
qed

lemma full_known:
  assumes "sk_full n cfg" and "gi < 3" and "groups cfg ! gi = Some gg" and "j < n"
  shows "servers (snet cfg) (servername (100 + int gi) (int j)) = None \<longleftrightarrow> gg_servers gg ! j = None"
  using assms by (auto simp: sk_full_def sk_inv_def sk_up_def)

text \<open>
  C38: In every run of the harness of the sharded store the ends of a server lead to the servers of its
  own group and to the shard masters, and are enabled exactly while the server runs; the end to a server
  of the group finds it exactly while that one runs, and the masters can always be reached.
\<close>

theorem shard_harness_wiring:
  assumes "smake_config now0 ch n unreliable maxr = Inr cfg0" and "skreach cfg0 cfg" and "gi < 3" and "groups cfg ! gi = Some gg" and "i < n"
  shows "\<exists>l ml. gg_endnames gg ! i = Some l \<and> gg_mendnames gg ! i = Some ml \<and> length l = n \<and> length ml = 3 \<and>
    (\<forall>j < n. readEndnameInfo (l ! j) (snet cfg) =
        (gg_servers gg ! i \<noteq> None, Some (servername (100 + int gi) (int j)), servers (snet cfg) (servername (100 + int gi) (int j)),
         reliable (snet cfg), longReordering (snet cfg)) \<and>
      (servers (snet cfg) (servername (100 + int gi) (int j)) = None \<longleftrightarrow> gg_servers gg ! j = None)) \<and>
    (\<forall>j < 3. readEndnameInfo (ml ! j) (snet cfg) =
        (gg_servers gg ! i \<noteq> None, Some (mastername (int j)), servers (snet cfg) (mastername (int j)), reliable (snet cfg), longReordering (snet cfg)) \<and>
      servers (snet cfg) (mastername (int j)) \<noteq> None)"
proof -
  have full: "sk_full n cfg" by (rule sk_run [OF assms(1,2)])
  obtain l ml where l: "gg_endnames gg ! i = Some l" "gg_mendnames gg ! i = Some ml" "length l = n" "length ml = 3" "i < 3"
    and row: "sk_row cfg (gi, i) = (\<lambda>j. (l ! j, servername (100 + int gi) (int j))) ` {..<n} \<union> (\<lambda>j. (ml ! j, mastername (int j))) ` {..<3}"
    by (rule full_group [OF full assms(3-5)])
  have up: "sk_up cfg (gi, i) \<longleftrightarrow> gg_servers gg ! i \<noteq> None" using full assms(3-5) by (simp add: sk_up_def sk_full_def)
  have ru: "rows_up (snet cfg) (sk_row cfg) (sk_up cfg)" using full by (simp add: sk_full_def sk_inv_def)
  then have e: "enabled (snet cfg) e = (gg_servers gg ! i \<noteq> None) \<and> connections (snet cfg) e = Some d" if "(e, d) \<in> sk_row cfg (gi, i)" for e d
    using that up unfolding rows_up_def by blast
  have "readEndnameInfo e (snet cfg) = (gg_servers gg ! i \<noteq> None, Some d, servers (snet cfg) d, reliable (snet cfg), longReordering (snet cfg))"
    if "(e, d) \<in> sk_row cfg (gi, i)" for e d
    using e [OF that] by (simp add: readEndnameInfo_def)
  moreover have "servers (snet cfg) (mastername (int j)) \<noteq> None" if "j < 3" for j using full that by (auto simp: sk_full_def sk_inv_def)
  ultimately show ?thesis using l full_known [OF full assms(3,4)] unfolding row by (intro exI [of _ l] exI [of _ ml]) simp
qed

definition sample_nm :: "nat \<Rightarrow> string" where
  "sample_nm k = replicate k CHR ''x''"

lemma sample_nm_inj: "inj sample_nm"
proof (rule injI)
  show "x = y" if "sample_nm x = sample_nm y" for x y using arg_cong [OF that, of length] by (simp add: sample_nm_def)
qed

lemma sample_sk:
  "\<exists>cfg gg l. smake_config 0 (choices_of sample_nm 3) 3 False (-1) = Inr cfg \<and> groups cfg ! 0 = Some gg \<and> (\<forall>i < 3. gg_servers gg ! i \<noteq> None) \<and>
     ends (snet cfg) \<subseteq> sample_nm ` {..<66} \<and> gg_endnames gg ! 1 = Some l"
proof -
  obtain cfg where c: "smake_config 0 (choices_of sample_nm 3) 3 False (-1) = Inr cfg" "ends (snet cfg) \<subseteq> sample_nm ` {..<66}"
    using smake_config_total [OF sample_nm_inj, of 3 0 False "-1"] by auto
  have ok: "sk_full 3 cfg" "\<forall>gi < 3. \<forall>i < 3. sk_up cfg (gi, i)" using smake_config_ok [OF c(1)] by auto
  obtain gg where gg: "groups cfg ! 0 = Some gg" "\<forall>i < 3. i < 3 \<and> gg_endnames gg ! i \<noteq> None \<and> gg_mendnames gg ! i \<noteq> None"
    using ok(1) unfolding sk_full_def by (meson zero_less_numeral)
  have "gg_servers gg ! i \<noteq> None" if "i < 3" for i using ok(2) [rule_format, of 0 i] gg(1) that by (simp add: sk_up_def)
  then show ?thesis using c gg by auto
qed

theorem shard_harness_wiring_witness:
  "\<exists>cfg gg l. smake_config 0 (choices_of sample_nm 3) 3 False (-1) = Inr cfg \<and> groups cfg ! 0 = Some gg \<and> gg_endnames gg ! 1 = Some l \<and>
     fst (readEndnameInfo (l ! 2) (snet cfg))"
proof -
  obtain cfg gg where c: "smake_config 0 (choices_of sample_nm 3) 3 False (-1) = Inr cfg" "groups cfg ! 0 = Some gg" "\<forall>i < 3. gg_servers gg ! i \<noteq> None" using sample_sk by blast
  then show ?thesis using shard_harness_wiring [OF c(1) skreach.here _ c(2), of 1] by fastforce
qed

text \<open>What joining tells the shard master.\<close>

lemma join_map_full:
  assumes full: "sk_full n cfg" and gis: "\<forall>g \<in> set gis. g < 3"
  shows "join_map (map int gis) cfg =
    Inr (\<lambda>gid. if gid \<in> (\<lambda>g. 100 + int g) ` set gis then Some (map (\<lambda>i. servername gid (int i)) [0..<n]) else None)"
  using gis
proof (induction gis rule: rev_induct)
  case Nil
  then show ?case by (simp add: join_map_def)
next
  case (snoc g gis)
  have c: "sk_inv cfg" "ngroups cfg = 3" "nmasters cfg = 3" "sn cfg = n" "length (groups cfg) = 3" using full by (auto simp: sk_full_def sk_inv_def)
  obtain gg where gg: "groups cfg ! g = Some gg" using full snoc.prems unfolding sk_full_def by force
  have "gg_gid gg = 100 + int g" using c(1-4) gg snoc.prems by (auto simp: sk_inv_def group_ok_def)
  moreover have "the_group (int g) cfg = Inr gg" using gg c(5) snoc.prems by (simp add: the_group_def)
  moreover have "fold_res (\<lambda>g m. bind_res (the_group g cfg) (\<lambda>gg. Inr (m(gg_gid gg \<mapsto> map (\<lambda>i. servername (gg_gid gg) (int i)) [0..<sn cfg])))) (map int gis) (\<lambda>_. None) =
      Inr (\<lambda>gid. if gid \<in> (\<lambda>g. 100 + int g) ` set gis then Some (map (\<lambda>i. servername gid (int i)) [0..<n]) else None)"
    using snoc by (simp add: join_map_def)
  ultimately show ?case using c(4) by (auto simp: join_map_def fold_res_snoc fun_eq_iff)
qed

text \<open>
  \<open>joinm\<close> tells the shard master exactly the groups it is asked for, each with one name per
  server, and the names work: an end that a clerk makes to the \<open>i\<close>-th name of a group, in any
  run of the harness, is enabled and finds a server exactly while server \<open>i\<close> of that group runs.
\<close>

theorem joined_names_reach_servers:
  assumes "smake_config now0 ch n unreliable maxr = Inr cfg0" and "skreach cfg0 cfg" and "mck cfg = Some ck" and "\<forall>g \<in> set gis. g < 3"
    and "gi \<in> set gis" and "i < n" and "e \<notin> ends (snet cfg)"
  shows "\<exists>m names gg rn. joinm call sleep (map int gis) cfg w = Inr (ck_Join call sleep ck m w) \<and> dom m = (\<lambda>g. 100 + int g) ` set gis \<and>
    m (100 + int gi) = Some names \<and> length names = n \<and> groups cfg ! gi = Some gg \<and> make_end e (names ! i) (snet cfg) = Inr rn \<and>
    readEndnameInfo e rn = (True, Some (names ! i), servers (snet cfg) (names ! i), reliable (snet cfg), longReordering (snet cfg)) \<and>
    (servers (snet cfg) (names ! i) = None \<longleftrightarrow> gg_servers gg ! i = None)"
proof -
  have full: "sk_full n cfg" by (rule sk_run [OF assms(1,2)])
  have gi: "gi < 3" using assms(4,5) by blast
  obtain gg where gg: "groups cfg ! gi = Some gg" by (rule full_has_group [OF full gi])
  let ?m = "\<lambda>gid. if gid \<in> (\<lambda>g. 100 + int g) ` set gis then Some (map (\<lambda>i. servername gid (int i)) [0..<n]) else None"
  let ?names = "map (\<lambda>i. servername (100 + int gi) (int i)) [0..<n]"
  have j: "joinm call sleep (map int gis) cfg w = Inr (ck_Join call sleep ck ?m w)" using join_map_full [OF full assms(4)] assms(3) by (simp add: joinm_def)
  have m: "dom ?m = (\<lambda>g. 100 + int g) ` set gis" "?m (100 + int gi) = Some ?names" using assms(5) by (auto simp: dom_def)
  obtain rn where rn: "make_end e (?names ! i) (snet cfg) = Inr rn" using make_end_fresh [OF assms(7)] by blast
  have "readEndnameInfo e rn = (True, Some (?names ! i), servers (snet cfg) (?names ! i), reliable (snet cfg), longReordering (snet cfg))"
    using make_end_ok [OF rn] by (simp add: readEndnameInfo_def)
  then show ?thesis using j m gg rn full_known [OF full gi gg assms(6)] assms(6)
    by (intro exI [of _ ?m] exI [of _ ?names] exI [of _ gg] exI [of _ rn]) simp
qed

lemma sample_nm_fresh: "ends rn \<subseteq> sample_nm ` {..<66} \<Longrightarrow> 66 \<le> k \<Longrightarrow> sample_nm k \<notin> ends rn"
  by (auto dest!: subsetD injD [OF sample_nm_inj])

theorem joined_names_reach_servers_witness:
  "\<exists>cfg (ck :: string sm_Clerk) m names rn. smake_config 0 (choices_of sample_nm 3) 3 False (-1) = Inr cfg \<and>
     joinm (\<lambda>srv method args w. (True, \<lparr>jr_WrongLeader = False, jr_Err = ''''\<rparr>, w + 1)) Suc [2, 0] cfg 0 =
       Inr (ck_Join (\<lambda>srv method args w. (True, \<lparr>jr_WrongLeader = False, jr_Err = ''''\<rparr>, w + 1)) Suc ck m 0) \<and>
     dom m = {100, 102} \<and> m 102 = Some names \<and> make_end (sample_nm 70) (names ! 1) (snet cfg) = Inr rn \<and> fst (readEndnameInfo (sample_nm 70) rn)"
proof -
  obtain cfg where c: "smake_config 0 (choices_of sample_nm 3) 3 False (-1) = Inr cfg" "ends (snet cfg) \<subseteq> sample_nm ` {..<66}" using sample_sk by blast
  obtain ck where ck: "mck cfg = Some ck" using smake_config_ok [OF c(1)] by auto
  have e: "sample_nm 70 \<notin> ends (snet cfg)" using sample_nm_fresh [OF c(2)] by simp
  have g: "\<forall>g \<in> set [2, 0 :: nat]. g < 3" "2 \<in> set [2, 0 :: nat]" by simp_all
  let ?call = "\<lambda>srv method args w. (True, \<lparr>jr_WrongLeader = False, jr_Err = ''''\<rparr>, w + 1 :: nat)"
  obtain m names rn where "joinm ?call Suc [2, 0] cfg 0 = Inr (ck_Join ?call Suc ck m 0)" "dom m = {100, 102}" "m 102 = Some names"
    "make_end (sample_nm 70) (names ! 1) (snet cfg) = Inr rn" "fst (readEndnameInfo (sample_nm 70) rn)"
    using joined_names_reach_servers [OF c(1) skreach.here ck g, of 1 "sample_nm 70" ?call Suc 0] e by (auto simp: insert_commute)
  then show ?thesis using c(1) by blast
qed

subsubsection \<open>Restarts\<close>

definition group_server :: "skconfig \<Rightarrow> nat \<Rightarrow> nat \<Rightarrow> ShardKV option" where
  "group_server cfg gi i = gg_servers (the (groups cfg ! gi)) ! i"

definition group_saved :: "skconfig \<Rightarrow> nat \<Rightarrow> nat \<Rightarrow> unit gob_item Persister option" where
  "group_saved cfg gi i = gg_saved (the (groups cfg ! gi)) ! i"

text \<open>A run in which server \<open>i\<close> of group \<open>gi\<close> stays down.\<close>

inductive sdown_run :: "nat \<Rightarrow> nat \<Rightarrow> skconfig \<Rightarrow> skconfig \<Rightarrow> bool" for gi i c0 where
  here: "sdown_run gi i c0 c0"
| step: "sdown_run gi i c0 c \<Longrightarrow> skstep c c' \<Longrightarrow> group_server c' gi i = None \<Longrightarrow> sdown_run gi i c0 c'"

lemma sdown_step_saved:
  assumes st: "skstep c c'" and full: "sk_full n c" and gi: "gi < 3" and i: "i < n" and down: "group_server c gi i = None" "group_server c' gi i = None"
  shows "group_saved c' gi i = group_saved c gi i"
proof -
  have inv: "sk_inv c" and n: "ngroups c = 3" "nmasters c = 3" "sn c = n" "length (groups c) = 3" using full by (auto simp: sk_full_def sk_inv_def)
  obtain gg where gg: "groups c ! gi = Some gg" by (rule full_has_group [OF full gi])
  have len: "length (gg_servers gg) = n" "length (gg_saved gg) = n" using full_group_ok [OF full gi gg] by (simp_all add: group_ok_def)
  have same: "group_saved c' gi i = group_saved c gi i" if "groups c' = groups c" for c' by (simp add: group_saved_def that)
  from st show ?thesis
  proof cases
    case (server a h k s s')
    then show ?thesis using n gg by (cases "a = gi") (auto simp: group_saved_def)
  next
    case (client names ck clerk)
    then have "groups c' = groups c" using grown_client [OF client] by (simp add: grown_def)
    then show ?thesis by (rule same)
  next
    case (shutdown g j)
    obtain a k h l where x: "a < ngroups c" "groups c ! a = Some h"
      "c' = c\<lparr>snet := cut_off (l @ nil_slice (gg_mendnames h ! k)) (servername (gg_gid h) (int k)) (snet c),
        groups := (groups c)[a := Some (h\<lparr>gg_servers := (gg_servers h)[k := None], gg_saved := (gg_saved h)[k := map_option Copy (gheld h k)]\<rparr>)]\<rparr>"
      using sShutdownServer_ok [OF shutdown inv] by metis
    have "map_option Copy (gheld gg i) = gg_saved gg ! i" using down(1) gg by (cases "gg_saved gg ! i") (simp_all add: gheld_def group_server_def Copy_id)
    then show ?thesis using x gg n len i by (cases "a = gi"; cases "k = i") (auto simp: group_saved_def)
  next
    case (start names mnames now rnd g j)
    obtain a k h rn2 ps s where x: "a < ngroups c" "k < sn c" "groups c ! a = Some h"
      "c' = c\<lparr>snet := AddServer (servername (gg_gid h) (int k)) (snextsrv c) rn2,
       groups := (groups c)[a := Some (h\<lparr>gg_servers := (gg_servers h)[k := Some s], gg_saved := (gg_saved h)[k := Some ps],
         gg_endnames := (gg_endnames h)[k := Some (map names [0..<sn c])], gg_mendnames := (gg_mendnames h)[k := Some (map mnames [0..<nmasters c])]\<rparr>)],
       snextsrv := snextsrv c + 1, ssrvs := (ssrvs c)(snextsrv c := store_server (snextsrv c))\<rparr>"
      using sStartServer_ok [OF start inv] by metis
    then have "a \<noteq> gi \<or> k \<noteq> i" using down(2) gg n len i by (auto simp: group_server_def)
    then show ?thesis using x gg n by (cases "a = gi") (auto simp: group_saved_def)
  qed (rule same, simp add: sdeleteClient_def)+
qed

lemma sdown_run_saved:
  assumes "sdown_run gi i c0 c" and "sk_full n c0" and "gi < 3" and "i < n" and "group_server c0 gi i = None"
  shows "sk_full n c \<and> group_server c gi i = None \<and> group_saved c gi i = group_saved c0 gi i"
  using assms
proof induction
  case (step c c')
  then have IH: "sk_full n c" "group_server c gi i = None" "group_saved c gi i = group_saved c0 gi i" by auto
  show ?case using skstep_full [OF step.hyps(2) IH(1)] sdown_step_saved [OF step.hyps(2) IH(1) step.prems(2,3) IH(2) step.hyps(3)] IH(3) step.hyps(3) by simp
qed simp

lemma shutdown_full:
  assumes full: "sk_full n cfg" and gi: "gi < 3" and i: "i < n" and s: "group_server cfg gi i = Some s"
  shows "\<exists>cfg1. sShutdownServer (int gi) (int i) cfg = Inr cfg1 \<and> sk_full n cfg1 \<and> group_server cfg1 gi i = None \<and>
    group_saved cfg1 gi i = Some (persister (skv_rf s)) \<and> ends (snet cfg1) = ends (snet cfg)"
proof -
  have inv: "sk_inv cfg" and n: "ngroups cfg = 3" "nmasters cfg = 3" "sn cfg = n" "length (groups cfg) = 3" using full by (auto simp: sk_full_def sk_inv_def)
  obtain gg where gg: "groups cfg ! gi = Some gg" by (rule full_has_group [OF full gi])
  note ok = full_group_ok [OF full gi gg]
  have s': "gg_servers gg ! i = Some s" using s gg by (simp add: group_server_def)
  obtain p where p: "gg_saved gg ! i = Some p" using ok i s' by (auto simp: group_ok_def)
  obtain l where l: "gg_endnames gg ! i = Some l" "i < 3" using ok i s' by (auto simp: group_ok_def)
  have len: "length (gg_servers gg) = n" "length (gg_saved gg) = n" using ok by (simp_all add: group_ok_def)
  obtain cfg1 where c1: "sShutdownServer (int gi) (int i) cfg = Inr cfg1"
    "cfg1 = cfg\<lparr>snet := cut_off (l @ nil_slice (gg_mendnames gg ! i)) (servername (gg_gid gg) (int i)) (snet cfg),
      groups := (groups cfg)[gi := Some (gg\<lparr>gg_servers := (gg_servers gg)[i := None], gg_saved := (gg_saved gg)[i := map_option Copy (gheld gg i)]\<rparr>)]\<rparr>"
    using sShutdownServer_eq [of gi cfg gg i l] gi gg inv i l n by simp
  have "group_server cfg1 gi i = None" "group_saved cfg1 gi i = Some (persister (skv_rf s))"
    using c1(2) gi n i len s' p by (simp_all add: group_server_def group_saved_def gheld_def Copy_id)
  then show ?thesis using c1 sk_full_shutdown [OF c1(1) full] by (simp add: cut_off_def DeleteServer_def)
qed

text \<open>
  A server of a group that is shut down and later started again, with unused names for its ends,
  comes back with the log, the term, the vote and the persister (with the snapshot) it had, however
  long the test went on without it, and with the volatile fields of a new peer.
\<close>

theorem shard_restart_recovers:
  assumes "smake_config now0 ch n unreliable maxr = Inr cfg0" and "skreach cfg0 cfg" and "gi < 3" and "i < n"
    and "group_server cfg gi i = Some s" and "saved (skv_rf s)"
    and "sShutdownServer (int gi) (int i) cfg = Inr cfg1" and "sdown_run gi i cfg1 cfg2"
    and "inj_on names {..<n}" and "names ` {..<n} \<inter> ends (snet cfg2) = {}"
    and "inj_on mnames {..<3}" and "mnames ` {..<3} \<inter> (ends (snet cfg2) \<union> names ` {..<n}) = {}"
  shows "\<exists>cfg3 s'. sStartServer names mnames now1 rnd1 (int gi) (int i) cfg2 = Inr cfg3 \<and> group_server cfg3 gi i = Some s' \<and>
    log (skv_rf s') = log (skv_rf s) \<and> currentTerm (skv_rf s') = currentTerm (skv_rf s) \<and> votedFor (skv_rf s') = votedFor (skv_rf s) \<and>
    persister (skv_rf s') = persister (skv_rf s) \<and> state (skv_rf s') = Follower \<and> commitIndex (skv_rf s') = 0 \<and>
    lastApplied (skv_rf s') = 0 \<and> dead (skv_rf s') = 0"
proof -
  have full: "sk_full n cfg" by (rule sk_run [OF assms(1,2)])
  have c1: "sk_full n cfg1" "group_server cfg1 gi i = None" "group_saved cfg1 gi i = Some (persister (skv_rf s))"
    using shutdown_full [OF full assms(3-5)] assms(7) by auto
  have c2: "sk_full n cfg2" "group_server cfg2 gi i = None" "group_saved cfg2 gi i = Some (persister (skv_rf s))"
    using sdown_run_saved [OF assms(8) c1(1) assms(3,4) c1(2)] c1(3) by auto
  then have inv: "sk_inv cfg2" and n: "ngroups cfg2 = 3" "nmasters cfg2 = 3" "sn cfg2 = n" "length (groups cfg2) = 3" by (auto simp: sk_full_def sk_inv_def)
  obtain gg where gg: "groups cfg2 ! gi = Some gg" by (rule full_has_group [OF c2(1) assms(3)])
  have i3: "i < 3" using c2(1) gg assms(3,4) by (auto simp: sk_full_def)
  have h: "gheld gg i = Some (persister (skv_rf s))" using c2(2,3) gg by (simp add: gheld_def group_server_def group_saved_def)
  have v: "raft_store.restore (case gheld gg i of Some p \<Rightarrow> p | None \<Rightarrow> MakePersister) initial_pstate = Inr (pstate_of (skv_rf s))"
    using assms(6) by (simp add: h saved_def)
  obtain cfg3 gg' s' where st: "sStartServer names mnames now1 rnd1 (int gi) (int i) cfg2 = Inr cfg3" "groups cfg3 = (groups cfg2)[gi := Some gg']"
    "gg_servers gg' = (gg_servers gg)[i := Some s']" "pstate_of (skv_rf s') = pstate_of (skv_rf s)" "persister (skv_rf s') = persister (skv_rf s)"
    and rest: "state (skv_rf s') = Follower" "commitIndex (skv_rf s') = 0" "lastApplied (skv_rf s') = 0" "dead (skv_rf s') = 0"
    using sStartServer_total [OF inv _ gg, of i names mnames, OF _ _ _ _ _ _ _ v, of now1 rnd1] assms(3,4,9-12) n i3 h by auto
  have "length (gg_servers gg) = n" using full_group_ok [OF c2(1) assms(3) gg] by (simp add: group_ok_def)
  then have "group_server cfg3 gi i = Some s'" using st(2,3) assms(3,4) n(4) by (simp add: group_server_def)
  then show ?thesis using st rest by (auto simp: pstate_of_def)
qed

text \<open>A run with a server whose persister holds its fields.\<close>

lemma sample_saved:
  "\<exists>cfg0 cfg s. smake_config 0 (choices_of sample_nm 3) 3 False (-1) = Inr cfg0 \<and> skreach cfg0 cfg \<and> group_server cfg 0 1 = Some s \<and>
     saved (skv_rf s) \<and> ends (snet cfg) \<subseteq> sample_nm ` {..<66}"
proof -
  obtain cfg gg where c: "smake_config 0 (choices_of sample_nm 3) 3 False (-1) = Inr cfg" "groups cfg ! 0 = Some gg" "\<forall>i < 3. gg_servers gg ! i \<noteq> None"
    "ends (snet cfg) \<subseteq> sample_nm ` {..<66}" using sample_sk by blast
  have full: "sk_full 3 cfg" using smake_config_ok [OF c(1)] by blast
  have n: "ngroups cfg = 3" "sn cfg = 3" "length (groups cfg) = 3" using full by (auto simp: sk_full_def sk_inv_def)
  have len: "length (gg_servers gg) = 3" using full_group_ok [OF full _ c(2)] by (simp add: group_ok_def)
  obtain s0 where s0: "gg_servers gg ! 1 = Some s0" using c(3) by fastforce
  have "raft_store.restore (MakePersister :: unit gob_item Persister) initial_pstate = Inr initial_pstate" by (simp add: raft_store.restore_empty)
  from skv_start_restores [OF this, of 0 0 3 1 0 0 0] obtain s :: ShardKV where s: "pstate_of (skv_rf s) = initial_pstate" "persister (skv_rf s) = MakePersister" by blast
  have "saved (skv_rf s)" using s by (simp add: saved_def raft_store.restore_empty)
  moreover have "skstep cfg (cfg\<lparr>groups := (groups cfg)[0 := Some (gg\<lparr>gg_servers := (gg_servers gg)[1 := Some s]\<rparr>)]\<rparr>)"
    by (rule skstep.server [OF _ c(2) _ s0]) (simp_all add: n)
  ultimately show ?thesis using c(1,4) n(3) len skreach.step [OF skreach.here]
    by (intro exI [of _ cfg] exI [of _ "cfg\<lparr>groups := (groups cfg)[0 := Some (gg\<lparr>gg_servers := (gg_servers gg)[1 := Some s]\<rparr>)]\<rparr>"] exI [of _ s])
      (simp add: group_server_def)
qed

theorem shard_restart_recovers_witness:
  "\<exists>cfg0 cfg s cfg1 cfg3 s'. smake_config 0 (choices_of sample_nm 3) 3 False (-1) = Inr cfg0 \<and> skreach cfg0 cfg \<and> group_server cfg 0 1 = Some s \<and>
     sShutdownServer 0 1 cfg = Inr cfg1 \<and> sStartServer (\<lambda>j. sample_nm (70 + j)) (\<lambda>j. sample_nm (80 + j)) 5 6 0 1 cfg1 = Inr cfg3 \<and>
     group_server cfg3 0 1 = Some s' \<and> log (skv_rf s') = log (skv_rf s)"
proof -
  obtain cfg0 cfg s where c: "smake_config 0 (choices_of sample_nm 3) 3 False (-1) = Inr cfg0" "skreach cfg0 cfg" "group_server cfg 0 1 = Some s" "saved (skv_rf s)"
    "ends (snet cfg) \<subseteq> sample_nm ` {..<66}" using sample_saved by blast
  obtain cfg1 where c1: "sShutdownServer (int 0) (int 1) cfg = Inr cfg1" "ends (snet cfg1) = ends (snet cfg)"
    using shutdown_full [OF sk_run [OF c(1,2)], of 0 1 s] c(3) by auto
  have out: "sample_nm k \<notin> ends (snet cfg1)" if "66 \<le> k" for k using sample_nm_fresh [OF c(5) that] c1(2) by simp
  have inj: "inj_on (\<lambda>j. sample_nm (b + j)) A" for A b
  proof (rule inj_onI)
    show "x = y" if "sample_nm (b + x) = sample_nm (b + y)" for x y using injD [OF sample_nm_inj that] by simp
  qed
  have f: "(\<lambda>j. sample_nm (70 + j)) ` {..<3} \<inter> ends (snet cfg1) = {}"
    "(\<lambda>j. sample_nm (80 + j)) ` {..<3} \<inter> (ends (snet cfg1) \<union> (\<lambda>j. sample_nm (70 + j)) ` {..<3}) = {}"
    using out by (auto dest!: injD [OF sample_nm_inj])
  show ?thesis
    using shard_restart_recovers [OF c(1,2) _ _ c(3,4) c1(1) sdown_run.here inj f(1) inj f(2), of 5 6] c c1(1) by fastforce
qed

subsubsection \<open>Sizes\<close>

text \<open>
  C39: The harness works for groups of exactly three servers only: \<open>make_config\<close> fails for larger groups,
  since a group has room for the ends to the masters of three servers, and for smaller groups no
  clerk can be made, since \<open>makeClient\<close> keeps the names of three ends in a slice of the size of a group.
\<close>

theorem shard_harness_three_servers:
  assumes "smake_config now0 ch n unreliable maxr = Inr cfg0" and "skreach cfg0 cfg"
  shows "n \<le> 3 \<and> (smakeClient names ck cfg = Inr res \<longrightarrow> n = 3)"
proof -
  have full: "sk_full n cfg" by (rule sk_run [OF assms])
  then have n: "nmasters cfg = 3" "sn cfg = n" by (auto simp: sk_full_def)
  obtain gg where gg: "groups cfg ! 0 = Some gg" by (rule full_has_group [OF full, of 0]) simp_all
  have "i < 3" if "i < n" for i using full gg that unfolding sk_full_def by fastforce
  then have le: "n \<le> 3" by (metis less_irrefl linorder_not_le)
  moreover have "\<exists>e. smakeClient names ck cfg = Inl e" if "n < 3" using smakeClient_small [of cfg names ck] n that by simp
  ultimately show ?thesis by (cases "n = 3") auto
qed

theorem shard_harness_three_servers_witness:
  "\<exists>cfg res. smake_config 0 (choices_of sample_nm 3) 3 False (-1) = Inr cfg \<and> smakeClient (\<lambda>j. sample_nm (70 + j)) 1 cfg = Inr res \<and> 3 \<le> (3 :: nat)"
proof -
  obtain cfg where c: "smake_config 0 (choices_of sample_nm 3) 3 False (-1) = Inr cfg" "ends (snet cfg) \<subseteq> sample_nm ` {..<66}" using sample_sk by blast
  have n: "nmasters cfg = 3" "sn cfg = 3" using smake_config_ok [OF c(1)] by (auto simp: sk_full_def)
  have "inj_on (\<lambda>j. sample_nm (70 + j)) {..<3}" "(\<lambda>j. sample_nm (70 + j)) ` {..<3} \<inter> ends (snet cfg) = {}"
    using sample_nm_fresh [OF c(2)] by (auto intro!: inj_onI dest!: injD [OF sample_nm_inj])
  then obtain rn where "make_ends (\<lambda>j. sample_nm (70 + j)) (\<lambda>j. mastername (int j)) 3 (snet cfg) = Inr rn" using make_ends_total by blast
  then obtain res where "smakeClient (\<lambda>j. sample_nm (70 + j)) 1 cfg = Inr res" using smakeClient_eq [of cfg "\<lambda>j. sample_nm (70 + j)" 1] n by simp
  then show ?thesis using shard_harness_three_servers [OF c(1) skreach.here, of "\<lambda>j. sample_nm (70 + j)" 1 res] c(1) by blast
qed

subsubsection \<open>The check of the sizes of logs\<close>

lemma check_server_ok:
  "check_server bytes maxr ps = Inr () \<longleftrightarrow>
     (\<exists>p. ps = Some p \<and> (if 0 \<le> maxr then state_bytes bytes p \<le> 8 * maxr else snapshot_bytes bytes p \<le> 0))"
  by (auto simp: check_server_def Let_def split: option.splits)

text \<open>
  \<open>checklogs\<close> passes, in any run, exactly when every server has a persister and, with a bound on
  the log, the encoded state is at most eight times that bound, or, without one, there is no snapshot.
\<close>

theorem checklogs_spec:
  assumes "smake_config now0 ch n unreliable maxr = Inr cfg0" and "skreach cfg0 cfg"
  shows "checklogs bytes cfg = Inr () \<longleftrightarrow>
    (\<forall>gi < 3. \<forall>i < n. \<exists>gg p. groups cfg ! gi = Some gg \<and> gsaved_now (int i) gg = Inr (Some p) \<and>
      (if 0 \<le> smaxraftstate cfg then state_bytes bytes p \<le> 8 * smaxraftstate cfg else snapshot_bytes bytes p \<le> 0))"
proof -
  have full: "sk_full n cfg" by (rule sk_run [OF assms])
  then have n: "ngroups cfg = 3" "sn cfg = n" "length (groups cfg) = 3" by (auto simp: sk_full_def sk_inv_def)
  define good where "good p \<longleftrightarrow> (if 0 \<le> smaxraftstate cfg then state_bytes bytes p \<le> 8 * smaxraftstate cfg else snapshot_bytes bytes p \<le> 0)" for p
  let ?one = "\<lambda>gg i. bind_res (gsaved_now (int i) gg) (check_server bytes (smaxraftstate cfg))"
  have one: "?one gg i = Inr () \<longleftrightarrow> (\<exists>p. gsaved_now (int i) gg = Inr (Some p) \<and> good p)" for gg i
    by (cases "gsaved_now (int i) gg") (simp_all add: check_server_ok good_def)
  have "bind_res (the_group (int gi) cfg) (\<lambda>gg. fold_res (\<lambda>i _. ?one gg i) [0..<n] ()) = Inr () \<longleftrightarrow>
      (\<forall>i < n. \<exists>gg p. groups cfg ! gi = Some gg \<and> gsaved_now (int i) gg = Inr (Some p) \<and> good p)" if gi: "gi < 3" for gi
  proof -
    obtain gg where gg: "groups cfg ! gi = Some gg" by (rule full_has_group [OF full gi])
    have "the_group (int gi) cfg = Inr gg" using gg n(3) gi by (simp add: the_group_def)
    then show ?thesis using gg by (simp add: fold_unit_ok one Ball_def)
  qed
  then show ?thesis unfolding good_def [symmetric] by (simp add: checklogs_def n fold_unit_ok Ball_def)
qed

theorem checklogs_spec_witness:
  "\<exists>cfg. smake_config 0 (choices_of sample_nm 3) 3 False (-1) = Inr cfg \<and> checklogs (\<lambda>_. 0) cfg = Inr ()"
proof -
  obtain cfg where c: "smake_config 0 (choices_of sample_nm 3) 3 False (-1) = Inr cfg" using sample_sk by blast
  have full: "sk_full 3 cfg" and up: "\<forall>gi < 3. \<forall>i < 3. sk_up cfg (gi, i)" using smake_config_ok [OF c] by auto
  have z: "state_bytes (\<lambda>_. 0) p = 0" "snapshot_bytes (\<lambda>_. 0) p = 0" for p :: "unit gob_item Persister"
    by (simp_all add: state_bytes_def snapshot_bytes_def split: option.splits)
  have "\<exists>gg p. groups cfg ! gi = Some gg \<and> gsaved_now (int i) gg = Inr (Some p)" if gi: "gi < 3" and i: "i < 3" for gi i
  proof -
    obtain gg where gg: "groups cfg ! gi = Some gg" by (rule full_has_group [OF full gi])
    have ok: "group_ok 3 3 gi gg" by (rule full_group_ok [OF full gi gg])
    have s: "gg_servers gg ! i \<noteq> None" using up [rule_format, OF gi i] gg by (simp add: sk_up_def)
    then have "gheld gg i \<noteq> None" using ok i by (auto simp: group_ok_def gheld_def split: option.splits)
    then show ?thesis using gg gsaved_now_held [of i gg] ok i by (auto simp: group_ok_def)
  qed
  then have "checklogs (\<lambda>_. 0) cfg = Inr ()" using checklogs_spec [OF c skreach.here, of "\<lambda>_. 0"] by (simp add: z)
  then show ?thesis using c by blast
qed

end
