(* ===== verification/MR_Master.thy ===== *)
theory MR_Master
  imports Go_Prelude
begin

section \<open>The MapReduce master (mr/master.go, mr/rpc.go)\<close>

text \<open>
  Task descriptions, the task queues and the RPC handlers of the master. A \<open>time.Time\<close> is the
  number of nanoseconds since Go's zero time, so that the zero value is 0; each reading of the clock
  is an argument. A queue's mutex makes each of its methods one atomic step; \<open>Size\<close> takes no
  lock. This theory runs every handler as a whole; theory \<open>MR_Races\<close> interleaves them at the
  granularity of the locks.
\<close>

subsection \<open>Data\<close>

abbreviation (input) TaskMap :: int where "TaskMap \<equiv> 0"
abbreviation (input) TaskReduce :: int where "TaskReduce \<equiv> 1"
abbreviation (input) TaskWait :: int where "TaskWait \<equiv> 2"
abbreviation (input) TaskEnd :: int where "TaskEnd \<equiv> 3"

record TaskInfo =
  TimeStamp :: int
  State :: int
  FileName :: string
  FileIndex :: int
  PartIndex :: int
  NReduce :: int
  NFiles :: int

text \<open>The zero value \<open>TaskInfo{}\<close>.\<close>

definition zero_TaskInfo :: TaskInfo where
  "zero_TaskInfo = \<lparr>TimeStamp = 0, State = 0, FileName = [], FileIndex = 0, PartIndex = 0,
     NReduce = 0, NFiles = 0\<rparr>"

text \<open>The array of a queue is \<open>None\<close> while it is \<open>nil\<close>, that is until the first \<open>Push\<close>.\<close>

record TaskQueue =
  taskArray :: "TaskInfo list option"

record Master =
  mapTaskQueuing :: TaskQueue
  reduceTaskQueuing :: TaskQueue
  mapTaskRunning :: TaskQueue
  reduceTaskRunning :: TaskQueue
  isDone :: bool
  filenames :: "string list"

subsection \<open>Task queues\<close>

definition tasks :: "TaskQueue \<Rightarrow> TaskInfo list" where
  "tasks tq = (case taskArray tq of None \<Rightarrow> [] | Some a \<Rightarrow> a)"

definition Pop :: "TaskQueue \<Rightarrow> (TaskQueue \<times> TaskInfo) res" where
  "Pop tq =
     (case taskArray tq of
        None \<Rightarrow> Inr (tq, zero_TaskInfo\<lparr>State := TaskEnd\<rparr>)
      | Some a \<Rightarrow>
          (let n = go_len a
           in bind_res (go_index a (n - 1)) (\<lambda>ret.
              bind_res (go_slice_to a (n - 1)) (\<lambda>a'.
                Inr (tq\<lparr>taskArray := Some a'\<rparr>, ret)))))"

definition Push :: "TaskQueue \<Rightarrow> TaskInfo \<Rightarrow> TaskQueue" where
  "Push tq taskInfo = tq\<lparr>taskArray := Some (tasks tq @ [taskInfo])\<rparr>"

definition Size :: "TaskQueue \<Rightarrow> int" where
  "Size tq = go_len (tasks tq)"

text \<open>The loop of \<open>RemoveTask\<close>: the index stays where an element was cut out.\<close>

function remove_loop :: "int \<Rightarrow> int \<Rightarrow> TaskInfo list \<Rightarrow> nat \<Rightarrow> TaskInfo list" where
  "remove_loop fileIndex partIndex a i =
     (if i < length a
      then (if FileIndex (a ! i) = fileIndex \<and> PartIndex (a ! i) = partIndex
            then remove_loop fileIndex partIndex (take i a @ drop (Suc i) a) i
            else remove_loop fileIndex partIndex a (Suc i))
      else a)"
  by pat_completeness auto
termination
  by (relation "measure (\<lambda>(f, p, a, i). length a - i)") auto

declare remove_loop.simps [simp del]

definition RemoveTask :: "TaskQueue \<Rightarrow> int \<Rightarrow> int \<Rightarrow> TaskQueue" where
  "RemoveTask tq fileIndex partIndex =
     tq\<lparr>taskArray := map_option (\<lambda>a. remove_loop fileIndex partIndex a 0) (taskArray tq)\<rparr>"

definition SetNow :: "int \<Rightarrow> TaskInfo \<Rightarrow> TaskInfo" where
  "SetNow now this = this\<lparr>TimeStamp := now\<rparr>"

definition Second :: int where "Second = 1000000000"

definition OutOfTime :: "int \<Rightarrow> TaskInfo \<Rightarrow> bool" where
  "OutOfTime now this \<longleftrightarrow> now - TimeStamp this > Second * 10"

text \<open>The loop of \<open>TimeOutQueue\<close>; the \<open>k\<close>-th call of \<open>OutOfTime\<close> reads the clock as
  \<open>clock k\<close>.\<close>

function timeout_loop ::
  "(nat \<Rightarrow> int) \<Rightarrow> nat \<Rightarrow> TaskInfo list \<Rightarrow> nat \<Rightarrow> TaskInfo list \<Rightarrow> TaskInfo list \<times> TaskInfo list" where
  "timeout_loop clock k a i ret =
     (if i < length a
      then (if OutOfTime (clock k) (a ! i)
            then timeout_loop clock (Suc k) (take i a @ drop (Suc i) a) i (ret @ [a ! i])
            else timeout_loop clock (Suc k) a (Suc i) ret)
      else (a, ret))"
  by pat_completeness auto
termination
  by (relation "measure (\<lambda>(c, k, a, i, r). length a - i)") auto

declare timeout_loop.simps [simp del]

definition TimeOutQueue :: "(nat \<Rightarrow> int) \<Rightarrow> TaskQueue \<Rightarrow> TaskQueue \<times> TaskInfo list" where
  "TimeOutQueue clock tq =
     (case taskArray tq of
        None \<Rightarrow> (tq, [])
      | Some a \<Rightarrow> (let (a', ret) = timeout_loop clock 0 a 0 [] in (tq\<lparr>taskArray := Some a'\<rparr>, ret)))"

text \<open>Putting timed-out tasks back, as \<open>CollectTimeOutQueue\<close> does when there are any.\<close>

definition push_all :: "TaskInfo list \<Rightarrow> TaskQueue \<Rightarrow> TaskQueue" where
  "push_all ts tq = (if go_len ts > 0 then tq\<lparr>taskArray := Some (tasks tq @ ts)\<rparr> else tq)"

subsection \<open>Handlers\<close>

definition AskTask :: "int \<Rightarrow> Master \<Rightarrow> (Master \<times> TaskInfo) res" where
  "AskTask now m =
     (if Size (reduceTaskQueuing m) > 0
      then bind_res (Pop (reduceTaskQueuing m)) (\<lambda>(q, t).
             let taskInfo = SetNow now t
             in Inr (m\<lparr>reduceTaskQueuing := q, reduceTaskRunning := Push (reduceTaskRunning m) taskInfo\<rparr>, taskInfo))
      else if Size (mapTaskQueuing m) > 0
      then bind_res (Pop (mapTaskQueuing m)) (\<lambda>(q, t).
             let taskInfo = SetNow now t
             in Inr (m\<lparr>mapTaskQueuing := q, mapTaskRunning := Push (mapTaskRunning m) taskInfo\<rparr>, taskInfo))
      else if Size (mapTaskRunning m) = 0 \<and> Size (reduceTaskRunning m) = 0
      then Inr (m\<lparr>isDone := True\<rparr>, zero_TaskInfo\<lparr>State := TaskEnd\<rparr>)
      else Inr (m, zero_TaskInfo\<lparr>State := TaskWait\<rparr>))"

definition new_reduce_task :: "Master \<Rightarrow> int \<Rightarrow> TaskInfo" where
  "new_reduce_task m i =
     zero_TaskInfo\<lparr>State := TaskReduce, PartIndex := i, NFiles := go_len (filenames m)\<rparr>"

definition createReduceTask :: "TaskInfo \<Rightarrow> Master \<Rightarrow> Master" where
  "createReduceTask taskInfo m =
     m\<lparr>reduceTaskQueuing :=
         fold (\<lambda>i q. Push q (new_reduce_task m (int i))) [0..<nat (NReduce taskInfo)] (reduceTaskQueuing m)\<rparr>"

definition TaskDone :: "TaskInfo \<Rightarrow> Master \<Rightarrow> Master res" where
  "TaskDone args m =
     (if State args = TaskMap
      then (let m1 = m\<lparr>mapTaskRunning := RemoveTask (mapTaskRunning m) (FileIndex args) (PartIndex args)\<rparr>
            in Inr (if Size (mapTaskRunning m1) = 0 \<and> Size (mapTaskQueuing m1) = 0
                    then createReduceTask args m1 else m1))
      else if State args = TaskReduce
      then Inr (m\<lparr>reduceTaskRunning := RemoveTask (reduceTaskRunning m) (FileIndex args) (PartIndex args)\<rparr>)
      else Inl (Panic ''Wrong Task Done''))"

text \<open>One pass of the loop of \<open>CollectTimeOutQueue\<close>; the clock readings of its two scans.\<close>

definition CollectTimeOutQueue :: "(nat \<Rightarrow> int) \<Rightarrow> (nat \<Rightarrow> int) \<Rightarrow> Master \<Rightarrow> Master" where
  "CollectTimeOutQueue clock1 clock2 m =
     (let (rr, ts) = TimeOutQueue clock1 (reduceTaskRunning m);
          m1 = m\<lparr>reduceTaskRunning := rr, reduceTaskQueuing := push_all ts (reduceTaskQueuing m)\<rparr>;
          (mr, us) = TimeOutQueue clock2 (mapTaskRunning m1)
      in m1\<lparr>mapTaskRunning := mr, mapTaskQueuing := push_all us (mapTaskQueuing m1)\<rparr>)"

definition Done :: "Master \<Rightarrow> bool" where
  "Done m = isDone m"

definition empty_queue :: TaskQueue where
  "empty_queue = \<lparr>taskArray = None\<rparr>"

definition MakeMaster :: "(nat \<Rightarrow> int) \<Rightarrow> string list \<Rightarrow> int \<Rightarrow> Master" where
  "MakeMaster clock files nReduce =
     (let m = \<lparr>mapTaskQueuing = empty_queue, reduceTaskQueuing = empty_queue, mapTaskRunning = empty_queue,
               reduceTaskRunning = empty_queue, isDone = False, filenames = files\<rparr>
      in m\<lparr>mapTaskQueuing :=
             fold (\<lambda>fileindex q. Push q \<lparr>TimeStamp = clock fileindex, State = TaskMap,
                 FileName = files ! fileindex, FileIndex = int fileindex, PartIndex = 0,
                 NReduce = nReduce, NFiles = go_len files\<rparr>)
               [0..<length files] (mapTaskQueuing m)\<rparr>)"

subsection \<open>What the queue methods do\<close>

lemma tasks_Push [simp]: "tasks (Push tq t) = tasks tq @ [t]"
  by (simp add: Push_def tasks_def)

lemma Size_pos: "Size tq > 0 \<longleftrightarrow> tasks tq \<noteq> []"
  by (simp add: Size_def go_len_pos)

lemma Size_zero: "Size tq = 0 \<longleftrightarrow> tasks tq = []"
  by (simp add: Size_def)

lemma go_slice_to_butlast: "xs \<noteq> [] \<Longrightarrow> go_slice_to xs (go_len xs - 1) = Inr (butlast xs)"
  by (cases xs rule: rev_cases) (auto simp: go_slice_to_Inr go_len_def)

lemma Pop_ok:
  "tasks tq \<noteq> [] \<Longrightarrow> \<exists>tq'. Pop tq = Inr (tq', last (tasks tq)) \<and> tasks tq' = butlast (tasks tq)"
  by (cases "taskArray tq")
     (auto simp: Pop_def tasks_def go_index_last go_slice_to_butlast Let_def)

lemma Pop_empty_panics: "taskArray tq = Some [] \<Longrightarrow> Pop tq = Inl IndexOutOfRange"
  by (simp add: Pop_def go_index_def Let_def)

lemma remove_loop_filter:
  "remove_loop f p a i = take i a @ filter (\<lambda>t. \<not> (FileIndex t = f \<and> PartIndex t = p)) (drop i a)"
proof (induction f p a i rule: remove_loop.induct)
  case (1 f p a i)
  show ?case
  proof (cases "i < length a")
    case True
    then have d: "drop i a = a ! i # drop (Suc i) a" and t: "take (Suc i) a = take i a @ [a ! i]"
      by (simp_all add: Cons_nth_drop_Suc take_Suc_conv_app_nth)
    show ?thesis
      using 1 True by (subst remove_loop.simps) (simp add: d t min_def)
  qed (simp add: remove_loop.simps)
qed

lemma tasks_RemoveTask [simp]:
  "tasks (RemoveTask tq f p) = filter (\<lambda>t. \<not> (FileIndex t = f \<and> PartIndex t = p)) (tasks tq)"
  by (auto simp: RemoveTask_def tasks_def remove_loop_filter split: option.splits)

lemma timeout_loop_mset:
  "timeout_loop clock k a i ret = (a', ret') \<Longrightarrow> mset a' + mset ret' = mset a + mset ret"
proof (induction clock k a i ret rule: timeout_loop.induct)
  case (1 clock k a i ret)
  consider (cut) "i < length a" "OutOfTime (clock k) (a ! i)"
    | (keep) "i < length a" "\<not> OutOfTime (clock k) (a ! i)" | (over) "\<not> i < length a" by blast
  then show ?case
  proof cases
    case cut
    then have "timeout_loop clock (Suc k) (take i a @ drop (Suc i) a) i (ret @ [a ! i]) = (a', ret')"
      using "1.prems" by (subst (asm) timeout_loop.simps) simp
    from "1.IH"(1) [OF cut this] mset_remove_nth [OF cut(1)] show ?thesis by simp
  next
    case keep
    then have "timeout_loop clock (Suc k) a (Suc i) ret = (a', ret')"
      using "1.prems" by (subst (asm) timeout_loop.simps) simp
    from "1.IH"(2) [OF keep this] show ?thesis .
  next
    case over
    then show ?thesis using "1.prems" by (simp add: timeout_loop.simps)
  qed
qed

lemma TimeOutQueue_mset:
  "TimeOutQueue clock tq = (tq', ts) \<Longrightarrow> mset (tasks tq') + mset ts = mset (tasks tq)"
  by (auto simp: TimeOutQueue_def tasks_def split: option.splits prod.splits dest: timeout_loop_mset)

lemma tasks_push_all [simp]: "tasks (push_all ts tq) = tasks tq @ ts"
  by (simp add: push_all_def go_len_pos tasks_def)

lemma tasks_fold_Push: "tasks (fold (\<lambda>i q. Push q (f i)) is q) = tasks q @ map f is"
  by (induction "is" arbitrary: q) simp_all

lemma tasks_empty_queue [simp]: "tasks empty_queue = []"
  by (simp add: empty_queue_def tasks_def)

text \<open>A collection pass moves tasks from running to queuing and loses none.\<close>

lemma CollectTimeOutQueue_mset:
  fixes m c1 c2
  defines "m' \<equiv> CollectTimeOutQueue c1 c2 m"
  shows "mset (tasks (mapTaskQueuing m')) + mset (tasks (mapTaskRunning m')) =
           mset (tasks (mapTaskQueuing m)) + mset (tasks (mapTaskRunning m))"
    and "mset (tasks (reduceTaskQueuing m')) + mset (tasks (reduceTaskRunning m')) =
           mset (tasks (reduceTaskQueuing m)) + mset (tasks (reduceTaskRunning m))"
    and "isDone m' = isDone m" and "filenames m' = filenames m"
proof -
  obtain rr ts where r: "TimeOutQueue c1 (reduceTaskRunning m) = (rr, ts)" by force
  obtain mr us where u: "TimeOutQueue c2 (mapTaskRunning m) = (mr, us)" by force
  note e = TimeOutQueue_mset [OF r, symmetric] TimeOutQueue_mset [OF u, symmetric]
  show "mset (tasks (mapTaskQueuing m')) + mset (tasks (mapTaskRunning m')) =
           mset (tasks (mapTaskQueuing m)) + mset (tasks (mapTaskRunning m))"
    "mset (tasks (reduceTaskQueuing m')) + mset (tasks (reduceTaskRunning m')) =
           mset (tasks (reduceTaskQueuing m)) + mset (tasks (reduceTaskRunning m))"
    "isDone m' = isDone m" "filenames m' = filenames m"
    by (simp_all add: m'_def CollectTimeOutQueue_def r u Let_def e ac_simps)
qed

subsection \<open>The queue contract\<close>

text \<open>
  What the master relies on: a queue is a bag of tasks, \<open>Size\<close> counts it, a guarded
  \<open>Pop\<close> succeeds and takes one task out, \<open>Push\<close> puts one in.
\<close>

locale task_bag =
  fixes bag :: "'q \<Rightarrow> 't multiset" and size_of :: "'q \<Rightarrow> int"
    and pop :: "'q \<Rightarrow> ('q \<times> 't) res" and push :: "'q \<Rightarrow> 't \<Rightarrow> 'q"
  assumes bag_push: "bag (push q t) = add_mset t (bag q)"
    and size_bag: "size_of q = int (size (bag q))"
    and pop_bag: "bag q \<noteq> {#} \<Longrightarrow> \<exists>q' t. pop q = Inr (q', t) \<and> bag q = add_mset t (bag q')"
begin

text \<open>Moving a task from one queue to another, changed by \<open>f\<close> on the way.\<close>

lemma move:
  assumes "0 < size_of q"
  shows "\<exists>q' t. pop q = Inr (q', t) \<and> t \<in># bag q \<and> bag q = add_mset t (bag q') \<and>
    bag (push r (f t)) = add_mset (f t) (bag r)"
proof -
  have "bag q \<noteq> {#}" using assms by (auto simp: size_bag)
  then show ?thesis using pop_bag [of q] bag_push by (metis union_single_eq_member add_mset_add_single union_commute)
qed

lemma size_zero: "size_of q = 0 \<longleftrightarrow> bag q = {#}"
  by (simp add: size_bag)

end

interpretation tq: task_bag "\<lambda>q. mset (tasks q)" Size Pop Push
proof unfold_locales
  show "\<exists>q' t. Pop q = Inr (q', t) \<and> mset (tasks q) = add_mset t (mset (tasks q'))"
    if "mset (tasks q) \<noteq> {#}" for q
  proof -
    have "tasks q \<noteq> []" using that by auto
    then show ?thesis
      using Pop_ok [of q] mset.simps(2) append_butlast_last_id [of "tasks q"]
      by (metis add_mset_add_single mset_append union_mset_add_mset_right mset.simps(1) add.right_neutral)
  qed
qed (simp_all add: Size_def go_len_def)

lemma MakeMaster_simps [simp]:
  "reduceTaskQueuing (MakeMaster clock files n) = empty_queue"
  "mapTaskRunning (MakeMaster clock files n) = empty_queue"
  "reduceTaskRunning (MakeMaster clock files n) = empty_queue"
  "isDone (MakeMaster clock files n) = False" "filenames (MakeMaster clock files n) = files"
  by (simp_all add: MakeMaster_def Let_def)

lemma MakeMaster_tasks:
  "tasks (mapTaskQueuing (MakeMaster clock files n)) =
     map (\<lambda>i. \<lparr>TimeStamp = clock i, State = TaskMap, FileName = files ! i, FileIndex = int i, PartIndex = 0,
                NReduce = n, NFiles = go_len files\<rparr>) [0..<length files]"
  by (simp add: MakeMaster_def Let_def tasks_fold_Push)

lemma createReduceTask_simps [simp]:
  "mapTaskQueuing (createReduceTask t m) = mapTaskQueuing m"
  "mapTaskRunning (createReduceTask t m) = mapTaskRunning m"
  "reduceTaskRunning (createReduceTask t m) = reduceTaskRunning m"
  "isDone (createReduceTask t m) = isDone m" "filenames (createReduceTask t m) = filenames m"
  "tasks (reduceTaskQueuing (createReduceTask t m)) =
     tasks (reduceTaskQueuing m) @ map (\<lambda>i. new_reduce_task m (int i)) [0..<nat (NReduce t)]"
  by (simp_all add: createReduceTask_def tasks_fold_Push)

end
