(* ===== verification/MR_Jobs.thy ===== *)
theory MR_Jobs
  imports MR_Master
begin

section \<open>A MapReduce job as a state machine\<close>

text \<open>
  The master together with what its workers have been told and have reported. A step is one whole
  handler call or one pass of the collector. A worker may report any task it was ever given, late or
  never (a crashed or slow worker), so a task can be reported after it was given to another worker.
  \<open>doneMaps\<close> and \<open>doneReduces\<close> record the reports.
\<close>

record job =
  master :: Master
  assigned :: "TaskInfo list"
  doneMaps :: "int list"
  doneReduces :: "int list"

definition hand_out :: "TaskInfo \<Rightarrow> TaskInfo list \<Rightarrow> TaskInfo list" where
  "hand_out t ts = (if State t = TaskMap \<or> State t = TaskReduce then t # ts else ts)"

inductive job_step :: "job \<Rightarrow> job \<Rightarrow> bool" where
  ask: "AskTask now (master j) = Inr (m', t) \<Longrightarrow>
    job_step j (j\<lparr>master := m', assigned := hand_out t (assigned j)\<rparr>)"
| report_map: "t \<in> set (assigned j) \<Longrightarrow> State t = TaskMap \<Longrightarrow> TaskDone t (master j) = Inr m' \<Longrightarrow>
    job_step j (j\<lparr>master := m', doneMaps := FileIndex t # doneMaps j\<rparr>)"
| report_reduce: "t \<in> set (assigned j) \<Longrightarrow> State t = TaskReduce \<Longrightarrow> TaskDone t (master j) = Inr m' \<Longrightarrow>
    job_step j (j\<lparr>master := m', doneReduces := PartIndex t # doneReduces j\<rparr>)"
| collect: "job_step j (j\<lparr>master := CollectTimeOutQueue c1 c2 (master j)\<rparr>)"

definition new_job :: "(nat \<Rightarrow> int) \<Rightarrow> string list \<Rightarrow> int \<Rightarrow> job" where
  "new_job clock files nReduce =
     \<lparr>master = MakeMaster clock files nReduce, assigned = [], doneMaps = [], doneReduces = []\<rparr>"

inductive job_reachable :: "string list \<Rightarrow> int \<Rightarrow> job \<Rightarrow> bool" for files nReduce where
  start: "job_reachable files nReduce (new_job clock files nReduce)"
| step: "job_reachable files nReduce j \<Longrightarrow> job_step j j' \<Longrightarrow> job_reachable files nReduce j'"

inductive_cases job_stepE: "job_step j j'"

subsection \<open>The invariant\<close>

definition map_task :: "string list \<Rightarrow> int \<Rightarrow> TaskInfo \<Rightarrow> bool" where
  "map_task files nReduce t \<longleftrightarrow>
     State t = TaskMap \<and> PartIndex t = 0 \<and> NReduce t = nReduce \<and> NFiles t = go_len files \<and>
     0 \<le> FileIndex t \<and> FileIndex t < go_len files \<and> FileName t = files ! nat (FileIndex t)"

definition reduce_task :: "string list \<Rightarrow> int \<Rightarrow> TaskInfo \<Rightarrow> bool" where
  "reduce_task files nReduce t \<longleftrightarrow>
     State t = TaskReduce \<and> FileIndex t = 0 \<and> NFiles t = go_len files \<and>
     0 \<le> PartIndex t \<and> PartIndex t < nReduce"

definition map_bag :: "Master \<Rightarrow> TaskInfo multiset" where
  "map_bag m = mset (tasks (mapTaskQueuing m)) + mset (tasks (mapTaskRunning m))"

definition reduce_bag :: "Master \<Rightarrow> TaskInfo multiset" where
  "reduce_bag m = mset (tasks (reduceTaskQueuing m)) + mset (tasks (reduceTaskRunning m))"

definition all_maps :: "string list \<Rightarrow> job \<Rightarrow> bool" where
  "all_maps files j \<longleftrightarrow> (\<forall>f. 0 \<le> f \<and> f < go_len files \<longrightarrow> f \<in> set (doneMaps j))"

definition all_reduces :: "int \<Rightarrow> job \<Rightarrow> bool" where
  "all_reduces nReduce j \<longleftrightarrow> (\<forall>p. 0 \<le> p \<and> p < nReduce \<longrightarrow> p \<in> set (doneReduces j))"

definition maps_kept :: "string list \<Rightarrow> job \<Rightarrow> bool" where
  "maps_kept files j \<longleftrightarrow>
     (\<forall>f. 0 \<le> f \<and> f < go_len files \<longrightarrow>
        f \<in># image_mset FileIndex (map_bag (master j)) \<or> f \<in> set (doneMaps j))"

definition reduces_kept :: "int \<Rightarrow> job \<Rightarrow> bool" where
  "reduces_kept nReduce j \<longleftrightarrow>
     (\<forall>p. 0 \<le> p \<and> p < nReduce \<longrightarrow>
        p \<in># image_mset PartIndex (reduce_bag (master j)) \<or> p \<in> set (doneReduces j))"

definition job_inv :: "string list \<Rightarrow> int \<Rightarrow> job \<Rightarrow> bool" where
  "job_inv files nReduce j \<longleftrightarrow>
     filenames (master j) = files \<and>
     (\<forall>t \<in># map_bag (master j). map_task files nReduce t) \<and>
     (\<forall>t \<in># reduce_bag (master j). reduce_task files nReduce t) \<and>
     (\<forall>t \<in> set (assigned j). map_task files nReduce t \<or> reduce_task files nReduce t) \<and>
     (\<forall>f. count (image_mset FileIndex (map_bag (master j))) f \<le> 1) \<and>
     maps_kept files j \<and>
     (map_bag (master j) = {#} \<and> files \<noteq> [] \<longrightarrow> reduces_kept nReduce j) \<and>
     (reduce_bag (master j) \<noteq> {#} \<or> (\<exists>t \<in> set (assigned j). State t = TaskReduce) \<longrightarrow> all_maps files j) \<and>
     (isDone (master j) \<and> files \<noteq> [] \<longrightarrow> all_maps files j \<and> all_reduces nReduce j)"

subsection \<open>Handlers on the bags\<close>

text \<open>The four outcomes of \<open>AskTask\<close>.\<close>

lemma AskTask_cases:
  obtains (reduce) m' t where "AskTask now m = Inr (m', SetNow now t)"
      and "reduce_bag m' = add_mset (SetNow now t) (reduce_bag m - {#t#})" and "t \<in># reduce_bag m"
      and "map_bag m' = map_bag m" and "isDone m' = isDone m" and "filenames m' = filenames m"
  | (map) m' t where "AskTask now m = Inr (m', SetNow now t)" and "tasks (reduceTaskQueuing m) = []"
      and "map_bag m' = add_mset (SetNow now t) (map_bag m - {#t#})" and "t \<in># map_bag m"
      and "reduce_bag m' = reduce_bag m" and "isDone m' = isDone m" and "filenames m' = filenames m"
  | (finish) "AskTask now m = Inr (m\<lparr>isDone := True\<rparr>, zero_TaskInfo\<lparr>State := TaskEnd\<rparr>)"
      and "map_bag m = {#}" and "reduce_bag m = {#}"
  | (wait) "AskTask now m = Inr (m, zero_TaskInfo\<lparr>State := TaskWait\<rparr>)"
      and "map_bag m + reduce_bag m \<noteq> {#}"
proof (cases "Size (reduceTaskQueuing m) > 0")
  case True
  obtain q t where p: "Pop (reduceTaskQueuing m) = Inr (q, t)"
      "mset (tasks (reduceTaskQueuing m)) = add_mset t (mset (tasks q))"
    using tq.move [OF True] by blast
  then show ?thesis using True reduce
    by (simp add: AskTask_def reduce_bag_def map_bag_def Let_def)
next
  case False
  then have rq: "tasks (reduceTaskQueuing m) = []" by (simp add: Size_pos)
  show ?thesis
  proof (cases "Size (mapTaskQueuing m) > 0")
    case True
    obtain q t where p: "Pop (mapTaskQueuing m) = Inr (q, t)"
        "mset (tasks (mapTaskQueuing m)) = add_mset t (mset (tasks q))"
      using tq.move [OF True] by blast
    then show ?thesis using True False rq map
      by (simp add: AskTask_def reduce_bag_def map_bag_def Let_def)
  next
    case no_map: False
    then have mq: "tasks (mapTaskQueuing m) = []" by (simp add: Size_pos)
    show ?thesis
      using False no_map rq mq finish wait
      by (cases "Size (mapTaskRunning m) = 0 \<and> Size (reduceTaskRunning m) = 0")
         (auto simp: AskTask_def reduce_bag_def map_bag_def Size_zero)
  qed
qed

lemma RemoveTask_bag: "mset (tasks (RemoveTask q f p)) = filter_mset (\<lambda>t. \<not> (FileIndex t = f \<and> PartIndex t = p)) (mset (tasks q))"
  by (simp add: mset_filter)

lemma TaskDone_map:
  assumes "State t = TaskMap"
  obtains m' where "TaskDone t m = Inr m'" and "filenames m' = filenames m" and "isDone m' = isDone m"
    and "map_bag m' \<subseteq># map_bag m"
    and "\<And>u. u \<in># map_bag m \<Longrightarrow> FileIndex u \<noteq> FileIndex t \<Longrightarrow> u \<in># map_bag m'"
    and "reduce_bag m' = (if map_bag m' = {#}
       then reduce_bag m + mset (map (\<lambda>i. new_reduce_task m (int i)) [0..<nat (NReduce t)])
       else reduce_bag m)"
proof
  let ?m1 = "m\<lparr>mapTaskRunning := RemoveTask (mapTaskRunning m) (FileIndex t) (PartIndex t)\<rparr>"
  let ?m' = "if Size (mapTaskRunning ?m1) = 0 \<and> Size (mapTaskQueuing ?m1) = 0 then createReduceTask t ?m1 else ?m1"
  show "TaskDone t m = Inr ?m'" using assms by (simp add: TaskDone_def Let_def)
  have mb: "map_bag ?m' = mset (tasks (mapTaskQueuing m)) +
      filter_mset (\<lambda>u. \<not> (FileIndex u = FileIndex t \<and> PartIndex u = PartIndex t)) (mset (tasks (mapTaskRunning m)))"
    by (simp add: map_bag_def mset_filter)
  show "filenames ?m' = filenames m" "isDone ?m' = isDone m" by simp_all
  show "map_bag ?m' \<subseteq># map_bag m" unfolding mb by (simp add: map_bag_def)
  show "u \<in># map_bag ?m'" if "u \<in># map_bag m" "FileIndex u \<noteq> FileIndex t" for u
    using that unfolding mb by (auto simp: map_bag_def)
  have e: "map_bag ?m' = {#} \<longleftrightarrow> Size (mapTaskRunning ?m1) = 0 \<and> Size (mapTaskQueuing ?m1) = 0"
    by (auto simp: map_bag_def Size_zero)
  have n: "new_reduce_task ?m1 = new_reduce_task m" by (simp add: new_reduce_task_def fun_eq_iff)
  show "reduce_bag ?m' = (if map_bag ?m' = {#}
       then reduce_bag m + mset (map (\<lambda>i. new_reduce_task m (int i)) [0..<nat (NReduce t)])
       else reduce_bag m)"
    unfolding e by (simp add: reduce_bag_def n)
qed

lemma TaskDone_reduce:
  assumes "State t = TaskReduce"
  obtains m' where "TaskDone t m = Inr m'" and "filenames m' = filenames m" and "isDone m' = isDone m"
    and "map_bag m' = map_bag m" and "reduce_bag m' \<subseteq># reduce_bag m"
    and "\<And>u. u \<in># reduce_bag m \<Longrightarrow> PartIndex u \<noteq> PartIndex t \<Longrightarrow> u \<in># reduce_bag m'"
proof
  let ?m' = "m\<lparr>reduceTaskRunning := RemoveTask (reduceTaskRunning m) (FileIndex t) (PartIndex t)\<rparr>"
  show "TaskDone t m = Inr ?m'" using assms by (simp add: TaskDone_def)
  have rb: "reduce_bag ?m' = mset (tasks (reduceTaskQueuing m)) +
      filter_mset (\<lambda>u. \<not> (FileIndex u = FileIndex t \<and> PartIndex u = PartIndex t)) (mset (tasks (reduceTaskRunning m)))"
    by (simp add: reduce_bag_def mset_filter)
  show "reduce_bag ?m' \<subseteq># reduce_bag m" unfolding rb by (simp add: reduce_bag_def)
  show "u \<in># reduce_bag ?m'" if "u \<in># reduce_bag m" "PartIndex u \<noteq> PartIndex t" for u
    using that unfolding rb by (auto simp: reduce_bag_def)
qed (simp_all add: map_bag_def)

lemma Collect_bags:
  "map_bag (CollectTimeOutQueue c1 c2 m) = map_bag m"
  "reduce_bag (CollectTimeOutQueue c1 c2 m) = reduce_bag m"
  by (simp_all add: map_bag_def reduce_bag_def CollectTimeOutQueue_mset)


subsection \<open>Every step keeps the invariant\<close>

lemma SetNow_simps [simp]:
  "State (SetNow now t) = State t" "FileIndex (SetNow now t) = FileIndex t"
  "PartIndex (SetNow now t) = PartIndex t" "FileName (SetNow now t) = FileName t"
  "NReduce (SetNow now t) = NReduce t" "NFiles (SetNow now t) = NFiles t"
  "map_task files n (SetNow now t) = map_task files n t"
  "reduce_task files n (SetNow now t) = reduce_task files n t"
  by (simp_all add: SetNow_def map_task_def reduce_task_def)

lemma restamp_image:
  "t \<in># B \<Longrightarrow> f (SetNow now t) = f t \<Longrightarrow>
     image_mset f (add_mset (SetNow now t) (B - {#t#})) = image_mset f B"
  by (metis image_mset_add_mset insert_DiffM)

lemma restamp_all:
  "t \<in># B \<Longrightarrow> P (SetNow now t) = P t \<Longrightarrow> (\<forall>u \<in># B. P u) \<Longrightarrow>
     (\<forall>u \<in># add_mset (SetNow now t) (B - {#t#}). P u)"
  by (auto dest: in_diffD)

lemma task_States: "map_task files n t \<Longrightarrow> State t = TaskMap" "reduce_task files n t \<Longrightarrow> State t = TaskReduce"
  by (simp_all add: map_task_def reduce_task_def)

lemma job_inv_ask_reduce:
  assumes inv: "job_inv files n j" and t: "t \<in># reduce_bag (master j)"
    and m': "reduce_bag m' = add_mset (SetNow now t) (reduce_bag (master j) - {#t#})"
      "map_bag m' = map_bag (master j)" "isDone m' = isDone (master j)" "filenames m' = filenames (master j)"
  shows "job_inv files n (j\<lparr>master := m', assigned := hand_out (SetNow now t) (assigned j)\<rparr>)"
proof -
  have img: "image_mset PartIndex (reduce_bag m') = image_mset PartIndex (reduce_bag (master j))"
    unfolding m' by (rule restamp_image [OF t]) simp
  have rt: "reduce_task files n t" using inv t by (simp add: job_inv_def)
  have red: "\<forall>u \<in># reduce_bag m'. reduce_task files n u"
    unfolding m' by (rule restamp_all [OF t]) (use inv in \<open>simp_all add: job_inv_def\<close>)
  have ne: "reduce_bag (master j) \<noteq> {#}" using t by auto
  have am: "all_maps files j" using inv ne by (simp add: job_inv_def)
  show ?thesis
    using inv red rt am task_States(2) [OF rt]
    unfolding job_inv_def maps_kept_def reduces_kept_def all_maps_def all_reduces_def hand_out_def
    by (simp add: m'(2-4) img)
qed

lemma job_inv_ask_map:
  assumes inv: "job_inv files n j" and t: "t \<in># map_bag (master j)"
    and m': "map_bag m' = add_mset (SetNow now t) (map_bag (master j) - {#t#})"
      "reduce_bag m' = reduce_bag (master j)" "isDone m' = isDone (master j)" "filenames m' = filenames (master j)"
  shows "job_inv files n (j\<lparr>master := m', assigned := hand_out (SetNow now t) (assigned j)\<rparr>)"
proof -
  have img: "image_mset FileIndex (map_bag m') = image_mset FileIndex (map_bag (master j))"
    unfolding m' by (rule restamp_image [OF t]) simp
  have mt: "map_task files n t" using inv t by (simp add: job_inv_def)
  have mp: "\<forall>u \<in># map_bag m'. map_task files n u"
    unfolding m' by (rule restamp_all [OF t]) (use inv in \<open>simp_all add: job_inv_def\<close>)
  have ne: "map_bag m' \<noteq> {#}" by (simp add: m')
  show ?thesis
    using inv mp mt ne task_States(1) [OF mt]
    unfolding job_inv_def maps_kept_def reduces_kept_def all_maps_def all_reduces_def hand_out_def
    by (simp add: m'(2-4) img)
qed

lemma job_inv_ask_finish:
  assumes inv: "job_inv files n j" and e: "map_bag (master j) = {#}" "reduce_bag (master j) = {#}"
  shows "job_inv files n (j\<lparr>master := (master j)\<lparr>isDone := True\<rparr>\<rparr>)"
proof -
  have "all_maps files j" using inv e by (auto simp: job_inv_def maps_kept_def all_maps_def)
  moreover have "all_reduces n j" if "files \<noteq> []"
    using inv e that by (auto simp: job_inv_def reduces_kept_def all_reduces_def)
  ultimately show ?thesis
    using inv unfolding job_inv_def maps_kept_def reduces_kept_def all_maps_def all_reduces_def
    by (simp add: map_bag_def reduce_bag_def)
qed

lemma job_inv_ask:
  assumes inv: "job_inv files n j" and a: "AskTask now (master j) = Inr (m', t)"
  shows "job_inv files n (j\<lparr>master := m', assigned := hand_out t (assigned j)\<rparr>)"
proof (cases rule: AskTask_cases [of now "master j"])
  case (reduce m1 t1)
  then show ?thesis using job_inv_ask_reduce [OF inv reduce(3,2)] a by simp
next
  case (map m1 t1)
  then show ?thesis using job_inv_ask_map [OF inv map(4,3)] a by simp
next
  case finish
  then show ?thesis using job_inv_ask_finish [OF inv] a by (simp add: hand_out_def)
next
  case wait
  then have "j\<lparr>master := m', assigned := hand_out t (assigned j)\<rparr> = j" using a by (simp add: hand_out_def)
  then show ?thesis using inv by simp
qed

lemma count_image_mono: "A \<subseteq># B \<Longrightarrow> count (image_mset f A) x \<le> count (image_mset f B) x"
  by (simp add: image_mset_subseteq_mono mset_subset_eq_count)

lemma new_reduce_task_ok:
  "reduce_task (filenames m) n (new_reduce_task m (int i))" if "i < nat n"
  using that by (simp add: reduce_task_def new_reduce_task_def zero_TaskInfo_def)

lemma job_inv_report_map:
  assumes inv: "job_inv files n j" and t: "t \<in> set (assigned j)" "State t = TaskMap"
    and d: "TaskDone t (master j) = Inr m'"
  shows "job_inv files n (j\<lparr>master := m', doneMaps := FileIndex t # doneMaps j\<rparr>)"
proof -
  let ?j' = "j\<lparr>master := m', doneMaps := FileIndex t # doneMaps j\<rparr>"
  have mt: "NReduce t = n" using inv t by (auto simp: job_inv_def map_task_def reduce_task_def)
  have fn: "filenames (master j) = files" using inv by (simp add: job_inv_def)
  obtain m1 where "TaskDone t (master j) = Inr m1" and m1: "filenames m1 = filenames (master j)"
      "isDone m1 = isDone (master j)" "map_bag m1 \<subseteq># map_bag (master j)"
      "\<And>u. u \<in># map_bag (master j) \<Longrightarrow> FileIndex u \<noteq> FileIndex t \<Longrightarrow> u \<in># map_bag m1"
      "reduce_bag m1 = (if map_bag m1 = {#}
        then reduce_bag (master j) + mset (map (\<lambda>i. new_reduce_task (master j) (int i)) [0..<nat (NReduce t)])
        else reduce_bag (master j))"
    using TaskDone_map [OF t(2), of "master j"] by blast
  then have eq: "m' = m1" using d by simp
  have mk: "maps_kept files j" using inv by (simp add: job_inv_def)
  have kept: "maps_kept files ?j'"
    using mk m1(4) unfolding maps_kept_def eq by (fastforce simp: image_iff)
  have am: "all_maps files ?j'" if "map_bag m1 = {#} \<or> all_maps files j"
    using kept that by (auto simp: maps_kept_def all_maps_def eq)
  have rk: "reduces_kept n ?j'" if "map_bag m1 = {#}"
  proof -
    have "p \<in># image_mset PartIndex (reduce_bag m1)" if "0 \<le> p" "p < n" for p
      using that \<open>map_bag m1 = {#}\<close> mt
      by (auto simp: m1(5) image_iff new_reduce_task_def intro!: bexI [of _ "nat p"])
    then show ?thesis by (simp add: reduces_kept_def eq)
  qed
  have red: "\<forall>u \<in># reduce_bag m1. reduce_task files n u"
    using inv new_reduce_task_ok [of _ n "master j"] unfolding m1(5) mt fn by (auto simp: job_inv_def)
  have mp: "\<forall>u \<in># map_bag m1. map_task files n u"
    using inv m1(3) unfolding job_inv_def by (meson mset_subset_eqD)
  have cnt: "\<forall>f. count (image_mset FileIndex (map_bag m1)) f \<le> 1"
    using inv count_image_mono [OF m1(3), of FileIndex] unfolding job_inv_def by (meson le_trans)
  have ne: "reduce_bag m1 \<noteq> {#} \<Longrightarrow> map_bag m1 = {#} \<or> reduce_bag (master j) \<noteq> {#}"
    by (auto simp: m1(5) split: if_splits)
  have am_step: "reduce_bag m1 \<noteq> {#} \<or> (\<exists>t\<in>set (assigned j). State t = TaskReduce) \<longrightarrow> all_maps files ?j'"
    using ne am inv unfolding job_inv_def by blast
  have fin: "isDone m1 \<and> files \<noteq> [] \<longrightarrow> all_maps files ?j' \<and> all_reduces n ?j'"
    using inv am unfolding job_inv_def m1(2) all_reduces_def by simp
  show ?thesis
    using inv kept rk red mp cnt am_step fin unfolding job_inv_def eq by (simp add: m1(1))
qed

lemma job_inv_report_reduce:
  assumes inv: "job_inv files n j" and t: "t \<in> set (assigned j)" "State t = TaskReduce"
    and d: "TaskDone t (master j) = Inr m'"
  shows "job_inv files n (j\<lparr>master := m', doneReduces := PartIndex t # doneReduces j\<rparr>)"
proof -
  let ?j' = "j\<lparr>master := m', doneReduces := PartIndex t # doneReduces j\<rparr>"
  obtain m1 where "TaskDone t (master j) = Inr m1" and m1: "filenames m1 = filenames (master j)"
      "isDone m1 = isDone (master j)" "map_bag m1 = map_bag (master j)" "reduce_bag m1 \<subseteq># reduce_bag (master j)"
      "\<And>u. u \<in># reduce_bag (master j) \<Longrightarrow> PartIndex u \<noteq> PartIndex t \<Longrightarrow> u \<in># reduce_bag m1"
    using TaskDone_reduce [OF t(2), of "master j"] by blast
  then have eq: "m' = m1" using d by simp
  have kept: "reduces_kept n ?j'" if "reduces_kept n j"
    using that m1(5) unfolding reduces_kept_def eq by (fastforce simp: image_iff)
  have red: "\<forall>u \<in># reduce_bag m1. reduce_task files n u"
    using inv m1(4) unfolding job_inv_def by (meson mset_subset_eqD)
  have am: "all_maps files j" using inv t unfolding job_inv_def by blast
  then have am': "all_maps files ?j'" by (simp add: all_maps_def)
  have fin: "all_reduces n j \<Longrightarrow> all_reduces n ?j'" by (simp add: all_reduces_def)
  have mk: "maps_kept files ?j'" using inv by (simp add: job_inv_def maps_kept_def eq m1(3))
  show ?thesis
    using inv kept red am' fin mk unfolding job_inv_def eq by (simp add: m1(1-3))
qed

lemma job_inv_collect:
  "job_inv files n j \<Longrightarrow> job_inv files n (j\<lparr>master := CollectTimeOutQueue c1 c2 (master j)\<rparr>)"
  unfolding job_inv_def maps_kept_def reduces_kept_def all_maps_def all_reduces_def
  by (simp add: Collect_bags CollectTimeOutQueue_mset)

lemma job_step_inv: "job_inv files n j \<Longrightarrow> job_step j j' \<Longrightarrow> job_inv files n j'"
  by (erule job_stepE)
     (auto intro: job_inv_ask job_inv_report_map job_inv_report_reduce job_inv_collect)

lemma new_job_inv: "job_inv files n (new_job clock files n)"
proof -
  have m: "map_bag (MakeMaster clock files n) = mset (tasks (mapTaskQueuing (MakeMaster clock files n)))"
    "reduce_bag (MakeMaster clock files n) = {#}"
    by (simp_all add: map_bag_def reduce_bag_def)
  have img: "image_mset FileIndex (map_bag (MakeMaster clock files n)) = mset (map int [0..<length files])"
    unfolding m mset_map [symmetric] by (simp add: MakeMaster_tasks comp_def del: mset_map)
  have "distinct (map int [0..<length files])" by (simp add: distinct_map inj_on_def)
  then have "count (mset (map int [0..<length files])) f \<le> 1" for f
    by (simp only: distinct_count_atmost_1 split: if_splits) simp
  moreover have "\<forall>t \<in># map_bag (MakeMaster clock files n). map_task files n t"
    unfolding m by (auto simp: MakeMaster_tasks map_task_def go_len_def)
  moreover have "maps_kept files (new_job clock files n)"
    by (auto simp: maps_kept_def new_job_def img go_len_def image_iff intro!: bexI [of _ "nat _"])
  moreover have "map_bag (MakeMaster clock files n) = {#} \<Longrightarrow> files = []"
    unfolding m by (simp add: MakeMaster_tasks mset_set_empty_iff)
  ultimately show ?thesis unfolding job_inv_def new_job_def by (simp add: img m(2)) blast
qed

lemma job_reachable_inv: "job_reachable files n j \<Longrightarrow> job_inv files n j"
  by (induction rule: job_reachable.induct) (auto intro: new_job_inv job_step_inv)

end
