(* ===== verification/MR_Races.thy ===== *)
theory MR_Races
  imports MR_Jobs
begin

section \<open>Handlers of the master interleaved at their locks\<close>

text \<open>
  \<open>net/rpc\<close> runs every handler call in a goroutine of its own, and only the queue methods take
  locks. Here a handler call is a program point \<open>mpc\<close> that moves in steps, one per queue method
  or unlocked read of a size. A call that runs undisturbed does what the whole-handler functions of
  theory \<open>MR_Master\<close> do; interleaved calls can do worse.
\<close>

datatype mpc =
    AskReduceSize | AskReducePop | AskReducePush TaskInfo
  | AskMapSize | AskMapPop | AskMapPush TaskInfo
  | AskMapRunning | AskReduceRunning | AskFinish | AskReply TaskInfo
  | DoneRemove TaskInfo | DoneMapRunning TaskInfo | DoneMapQueuing TaskInfo | DoneCreate TaskInfo nat
  | DoneReply
  | CollectReduce | CollectReducePut "TaskInfo list" | CollectMap | CollectMapPut "TaskInfo list"
  | CollectSleep

fun mstep :: "int \<Rightarrow> mpc \<Rightarrow> Master \<Rightarrow> (mpc \<times> Master) res" where
  "mstep now AskReduceSize m =
     Inr (if Size (reduceTaskQueuing m) > 0 then AskReducePop else AskMapSize, m)"
| "mstep now AskReducePop m =
     bind_res (Pop (reduceTaskQueuing m)) (\<lambda>(q, t). Inr (AskReducePush (SetNow now t), m\<lparr>reduceTaskQueuing := q\<rparr>))"
| "mstep now (AskReducePush t) m =
     Inr (AskReply t, m\<lparr>reduceTaskRunning := Push (reduceTaskRunning m) t\<rparr>)"
| "mstep now AskMapSize m =
     Inr (if Size (mapTaskQueuing m) > 0 then AskMapPop else AskMapRunning, m)"
| "mstep now AskMapPop m =
     bind_res (Pop (mapTaskQueuing m)) (\<lambda>(q, t). Inr (AskMapPush (SetNow now t), m\<lparr>mapTaskQueuing := q\<rparr>))"
| "mstep now (AskMapPush t) m =
     Inr (AskReply t, m\<lparr>mapTaskRunning := Push (mapTaskRunning m) t\<rparr>)"
| "mstep now AskMapRunning m =
     Inr (if Size (mapTaskRunning m) = 0 then AskReduceRunning
          else AskReply (zero_TaskInfo\<lparr>State := TaskWait\<rparr>), m)"
| "mstep now AskReduceRunning m =
     Inr (if Size (reduceTaskRunning m) = 0 then AskFinish
          else AskReply (zero_TaskInfo\<lparr>State := TaskWait\<rparr>), m)"
| "mstep now AskFinish m = Inr (AskReply (zero_TaskInfo\<lparr>State := TaskEnd\<rparr>), m\<lparr>isDone := True\<rparr>)"
| "mstep now (AskReply t) m = Inr (AskReply t, m)"
| "mstep now (DoneRemove t) m =
     (if State t = TaskMap
      then Inr (DoneMapRunning t,
                m\<lparr>mapTaskRunning := RemoveTask (mapTaskRunning m) (FileIndex t) (PartIndex t)\<rparr>)
      else if State t = TaskReduce
      then Inr (DoneReply,
                m\<lparr>reduceTaskRunning := RemoveTask (reduceTaskRunning m) (FileIndex t) (PartIndex t)\<rparr>)
      else Inl (Panic ''Wrong Task Done''))"
| "mstep now (DoneMapRunning t) m =
     Inr (if Size (mapTaskRunning m) = 0 then DoneMapQueuing t else DoneReply, m)"
| "mstep now (DoneMapQueuing t) m =
     Inr (if Size (mapTaskQueuing m) = 0 then DoneCreate t 0 else DoneReply, m)"
| "mstep now (DoneCreate t i) m =
     Inr (if int i < NReduce t
          then (DoneCreate t (Suc i),
                m\<lparr>reduceTaskQueuing := Push (reduceTaskQueuing m) (new_reduce_task m (int i))\<rparr>)
          else (DoneReply, m))"
| "mstep now DoneReply m = Inr (DoneReply, m)"
| "mstep now CollectReduce m =
     Inr (let (q, ts) = TimeOutQueue (\<lambda>_. now) (reduceTaskRunning m)
          in (CollectReducePut ts, m\<lparr>reduceTaskRunning := q\<rparr>))"
| "mstep now (CollectReducePut ts) m =
     Inr (CollectMap, m\<lparr>reduceTaskQueuing := push_all ts (reduceTaskQueuing m)\<rparr>)"
| "mstep now CollectMap m =
     Inr (let (q, ts) = TimeOutQueue (\<lambda>_. now) (mapTaskRunning m)
          in (CollectMapPut ts, m\<lparr>mapTaskRunning := q\<rparr>))"
| "mstep now (CollectMapPut ts) m =
     Inr (CollectSleep, m\<lparr>mapTaskQueuing := push_all ts (mapTaskQueuing m)\<rparr>)"
| "mstep now CollectSleep m = Inr (CollectSleep, m)"

text \<open>One call alone for \<open>k\<close> steps, and several calls under a schedule.\<close>

fun alone :: "int \<Rightarrow> nat \<Rightarrow> mpc \<Rightarrow> Master \<Rightarrow> (mpc \<times> Master) res" where
  "alone now 0 pc m = Inr (pc, m)"
| "alone now (Suc k) pc m = bind_res (mstep now pc m) (\<lambda>(pc', m'). alone now k pc' m')"

fun interleave :: "nat list \<Rightarrow> int \<Rightarrow> mpc list \<Rightarrow> Master \<Rightarrow> (mpc list \<times> Master) res" where
  "interleave [] now pcs m = Inr (pcs, m)"
| "interleave (i # is) now pcs m =
     bind_res (go_index pcs (int i)) (\<lambda>pc.
     bind_res (mstep now pc m) (\<lambda>(pc', m'). interleave is now (pcs[i := pc']) m'))"

subsection \<open>Undisturbed calls\<close>

lemma alone_AskTask:
  "alone now 5 AskReduceSize m = bind_res (AskTask now m) (\<lambda>(m', t). Inr (AskReply t, m'))"
  by (auto simp: eval_nat_numeral AskTask_def bind_res_assoc bind_res_def Let_def
      split: sum.splits prod.splits)

lemma alone_create:
  "i \<le> nat (NReduce t) \<Longrightarrow> k = nat (NReduce t) - i \<Longrightarrow>
     alone now (Suc k) (DoneCreate t i) m =
     Inr (DoneReply, m\<lparr>reduceTaskQueuing :=
       fold (\<lambda>i q. Push q (new_reduce_task m (int i))) [i..<nat (NReduce t)] (reduceTaskQueuing m)\<rparr>)"
proof (induction k arbitrary: i m)
  case 0
  then have "\<not> int i < NReduce t" by linarith
  then show ?case using 0 by simp
next
  case (Suc k)
  then have i: "int i < NReduce t" "i < nat (NReduce t)" by linarith+
  let ?m = "m\<lparr>reduceTaskQueuing := Push (reduceTaskQueuing m) (new_reduce_task m (int i))\<rparr>"
  have n: "new_reduce_task ?m = new_reduce_task m" by (simp add: new_reduce_task_def fun_eq_iff)
  have "alone now (Suc (Suc k)) (DoneCreate t i) m = alone now (Suc k) (DoneCreate t (Suc i)) ?m"
    using i by (simp only: alone.simps(2) mstep.simps bind_res_Inr if_True prod.case)
  also have "\<dots> = Inr (DoneReply, ?m\<lparr>reduceTaskQueuing :=
       fold (\<lambda>i q. Push q (new_reduce_task ?m (int i))) [Suc i..<nat (NReduce t)] (reduceTaskQueuing ?m)\<rparr>)"
    by (rule Suc.IH) (use Suc.prems i in linarith)+
  also have "\<dots> = Inr (DoneReply, m\<lparr>reduceTaskQueuing :=
       fold (\<lambda>i q. Push q (new_reduce_task m (int i))) [i..<nat (NReduce t)] (reduceTaskQueuing m)\<rparr>)"
    unfolding n using i(2) by (simp add: upt_conv_Cons)
  finally show ?case .
qed

lemma alone_stop: "alone now k DoneReply m = Inr (DoneReply, m)" 
  by (induction k) simp_all

lemma alone_TaskDone:
  "alone now (4 + nat (NReduce t)) (DoneRemove t) m = bind_res (TaskDone t m) (\<lambda>m'. Inr (DoneReply, m'))"
proof -
  let ?m1 = "m\<lparr>mapTaskRunning := RemoveTask (mapTaskRunning m) (FileIndex t) (PartIndex t)\<rparr>"
  have e: "4 + nat (NReduce t) = Suc (Suc (Suc (Suc (nat (NReduce t)))))" by simp
  have "alone now (Suc (nat (NReduce t))) (DoneCreate t 0) ?m1 = Inr (DoneReply, createReduceTask t ?m1)"
    using alone_create [of 0 t "nat (NReduce t)"] by (simp add: createReduceTask_def del: alone.simps)
  then show ?thesis unfolding e TaskDone_def Let_def
    by (simp add: alone_stop del: alone.simps(2))
       (auto simp: alone_stop alone.simps(2) [of _ "Suc _"] simp del: alone.simps(2))
qed

lemma alone_Collect:
  "alone now 4 CollectReduce m = Inr (CollectSleep, CollectTimeOutQueue (\<lambda>_. now) (\<lambda>_. now) m)"
  by (simp add: eval_nat_numeral CollectTimeOutQueue_def Let_def split: prod.splits)

subsection \<open>Schedules\<close>

lemma interleave_append:
  "interleave (is @ js) now pcs m =
     bind_res (interleave is now pcs m) (\<lambda>(pcs', m'). interleave js now pcs' m')"
  by (induction "is" now pcs m rule: interleave.induct) (auto simp: bind_res_def split: sum.splits prod.splits)

text \<open>A stretch of steps of one call is the call alone.\<close>

lemma interleave_alone:
  "i < length pcs \<Longrightarrow> interleave (replicate k i) now pcs m =
     bind_res (alone now k (pcs ! i) m) (\<lambda>(pc', m'). Inr (pcs[i := pc'], m'))"
proof (induction k arbitrary: pcs m)
  case 0
  then show ?case by simp
next
  case (Suc k)
  then show ?case by (simp add: go_index_ok go_len_def bind_res_assoc case_prod_unfold)
qed

lemma upt_next: "[length xs..<length xs + Suc n] = length xs # [length (xs @ [x])..<length (xs @ [x]) + n]"
  by (simp add: upt_conv_Cons del: upt_Suc)

lemma interleave_next:
  "interleave (length xs # is) now (xs @ pc # ys) m =
     bind_res (mstep now pc m) (\<lambda>(pc', m'). interleave is now ((xs @ [pc']) @ ys) m')"
  by (simp add: go_index_ok go_len_def)

text \<open>All calls of a row make the same step, which leaves the master alone.\<close>

lemma interleave_row:
  assumes "mstep now pc m = Inr (pc', m)"
  shows "interleave [length xs..<length xs + n] now (xs @ replicate n pc) m = Inr (xs @ replicate n pc', m)"
proof (induction n arbitrary: xs)
  case (Suc n)
  have "interleave [length xs..<length xs + Suc n] now (xs @ replicate (Suc n) pc) m =
      interleave [length (xs @ [pc'])..<length (xs @ [pc']) + n] now ((xs @ [pc']) @ replicate n pc) m"
    unfolding upt_next [of _ _ pc'] replicate_Suc interleave_next assms by simp
  then show ?case using Suc.IH [of "xs @ [pc']"] by simp
qed simp

text \<open>More calls about to pop than there are tasks: one of them indexes an empty slice.\<close>

lemma Pop_nonempty:
  assumes "taskArray q = Some (ts @ [t])"
  shows "Pop q = Inr (q\<lparr>taskArray := Some ts\<rparr>, t)"
  using assms go_slice_to_butlast [of "ts @ [t]"] go_index_last [of "ts @ [t]"]
  by (simp add: Pop_def Let_def)

lemma pops_panic:
  assumes step: "\<And>m. mstep now pc m = bind_res (Pop (q m)) (\<lambda>(a, t). Inr (push (SetNow now t), upd a m))"
    and upd: "\<And>a m. q (upd a m) = a"
  shows "taskArray (q m) = Some ts \<Longrightarrow>
    interleave [length xs..<length xs + Suc (length ts)] now (xs @ replicate (Suc (length ts)) pc) m =
      Inl IndexOutOfRange"
proof (induction ts arbitrary: xs m rule: rev_induct)
  case Nil
  then show ?case by (simp add: upt_conv_Cons go_index_ok go_len_def nth_append step Pop_empty_panics)
next
  case (snoc t ts)
  let ?m = "upd ((q m)\<lparr>taskArray := Some ts\<rparr>) m" and ?xs = "xs @ [push (SetNow now t)]"
  have "mstep now pc m = Inr (push (SetNow now t), ?m)"
    using Pop_nonempty [OF snoc.prems] by (simp add: step)
  then have "interleave [length xs..<length xs + Suc (length (ts @ [t]))] now
        (xs @ replicate (Suc (length (ts @ [t]))) pc) m =
      interleave [length ?xs..<length ?xs + Suc (length ts)] now (?xs @ replicate (Suc (length ts)) pc) ?m"
    unfolding upt_next [of _ _ "push (SetNow now t)"] length_append_singleton replicate_Suc interleave_next
    by simp
  also have "\<dots> = Inl IndexOutOfRange" by (rule snoc.IH) (simp add: upd)
  finally show ?case .
qed

lemma tasks_Some: "tasks q \<noteq> [] \<Longrightarrow> taskArray q = Some (tasks q)"
  by (simp add: tasks_def split: option.splits)

lemma reduce_asks_panic:
  assumes "tasks (reduceTaskQueuing m) \<noteq> []" and n: "n = Suc (length (tasks (reduceTaskQueuing m)))"
  shows "interleave ([0..<n] @ [0..<n]) now (replicate n AskReduceSize) m = Inl IndexOutOfRange"
proof -
  have "mstep now AskReduceSize m = Inr (AskReducePop, m)" using assms(1) by (simp add: Size_pos)
  from interleave_row [OF this, of "[]" n] have "interleave [0..<n] now (replicate n AskReduceSize) m =
      Inr (replicate n AskReducePop, m)" by simp
  moreover have "interleave [0..<n] now (replicate n AskReducePop) m = Inl IndexOutOfRange"
    using pops_panic [of now AskReducePop reduceTaskQueuing AskReducePush
        "\<lambda>a m. m\<lparr>reduceTaskQueuing := a\<rparr>", OF _ _ tasks_Some [OF assms(1)], of "[]"]
    by (simp add: n)
  ultimately show ?thesis by (simp add: interleave_append)
qed

lemma map_asks_panic:
  assumes "tasks (reduceTaskQueuing m) = []" and "tasks (mapTaskQueuing m) \<noteq> []"
    and n: "n = Suc (length (tasks (mapTaskQueuing m)))"
  shows "interleave ([0..<n] @ [0..<n] @ [0..<n]) now (replicate n AskReduceSize) m = Inl IndexOutOfRange"
proof -
  have "mstep now AskReduceSize m = Inr (AskMapSize, m)" "mstep now AskMapSize m = Inr (AskMapPop, m)"
    using assms(1,2) by (simp_all add: Size_def go_len_pos)
  then have "interleave [0..<n] now (replicate n AskReduceSize) m = Inr (replicate n AskMapSize, m)"
    "interleave [0..<n] now (replicate n AskMapSize) m = Inr (replicate n AskMapPop, m)"
    using interleave_row [of now _ m _ "[]" n] by simp_all
  moreover have "interleave [0..<n] now (replicate n AskMapPop) m = Inl IndexOutOfRange"
    using pops_panic [of now AskMapPop mapTaskQueuing AskMapPush
        "\<lambda>a m. m\<lparr>mapTaskQueuing := a\<rparr>", OF _ _ tasks_Some [OF assms(2)], of "[]"]
    by (simp add: n)
  ultimately show ?thesis by (simp add: interleave_append)
qed

text \<open>A worker asks between the removal of the last map task and the creation of the reduce tasks.\<close>

lemma ask_after_remove:
  assumes "State t = TaskMap" and "tasks (mapTaskQueuing m) = []"
    and "\<forall>v \<in> set (tasks (mapTaskRunning m)). FileIndex v = FileIndex t \<and> PartIndex v = PartIndex t"
    and "reduce_bag m = {#}"
  shows "interleave [0, 1, 1, 1, 1, 1] now [DoneRemove t, AskReduceSize] m =
    Inr ([DoneMapRunning t, AskReply (zero_TaskInfo\<lparr>State := TaskEnd\<rparr>)],
      m\<lparr>mapTaskRunning := RemoveTask (mapTaskRunning m) (FileIndex t) (PartIndex t), isDone := True\<rparr>)"
proof -
  have "tasks (RemoveTask (mapTaskRunning m) (FileIndex t) (PartIndex t)) = []"
    using assms(3) by (simp add: filter_empty_conv)
  then show ?thesis
    using assms(1,2,4) by (simp add: go_index_def go_len_def Size_def reduce_bag_def)
qed

text \<open>
  A worker holds the last queued map task between \<open>Pop\<close> and \<open>Push\<close>; the report of the
  other map task finds both map queues empty and creates the reduce tasks.
\<close>

lemma report_while_popped:
  assumes "State u = TaskMap" and "tasks (mapTaskQueuing m) = [t]"
    and "\<forall>v \<in> set (tasks (mapTaskRunning m)). FileIndex v = FileIndex u \<and> PartIndex v = PartIndex u"
    and "tasks (reduceTaskQueuing m) = []" and n: "0 < NReduce u"
  shows "\<exists>m'. interleave ([0, 0, 0] @ replicate (4 + nat (NReduce u)) 1 @ [2, 2, 2]) now
      [AskReduceSize, DoneRemove u, AskReduceSize] m =
    Inr ([AskMapPush (SetNow now t), DoneReply, AskReply (SetNow now (new_reduce_task m (NReduce u - 1)))], m')"
proof -
  let ?q = "(mapTaskQueuing m)\<lparr>taskArray := Some []\<rparr>"
  let ?m1 = "m\<lparr>mapTaskQueuing := ?q\<rparr>"
  let ?m2 = "?m1\<lparr>mapTaskRunning := RemoveTask (mapTaskRunning m) (FileIndex u) (PartIndex u)\<rparr>"
  have "Pop (mapTaskQueuing m) = Inr (?q, t)"
    using Pop_nonempty [of "mapTaskQueuing m" "[]" t] tasks_Some [of "mapTaskQueuing m"] assms(2) by simp
  then have one: "interleave [0, 0, 0] now [AskReduceSize, DoneRemove u, AskReduceSize] m =
      Inr ([AskMapPush (SetNow now t), DoneRemove u, AskReduceSize], ?m1)"
    using assms(2,4) by (simp add: go_index_def go_len_def Size_def)
  have "tasks (mapTaskRunning ?m2) = []" "tasks (mapTaskQueuing ?m2) = []"
    using assms(3) by (simp_all add: filter_empty_conv) (simp add: tasks_def)
  then have "TaskDone u ?m1 = Inr (createReduceTask u ?m2)"
    using assms(1) by (simp add: TaskDone_def Let_def Size_def)
  then have two: "interleave (replicate (4 + nat (NReduce u)) 1) now
        [AskMapPush (SetNow now t), DoneRemove u, AskReduceSize] ?m1 =
      Inr ([AskMapPush (SetNow now t), DoneReply, AskReduceSize], createReduceTask u ?m2)"
    by (subst interleave_alone) (simp_all add: alone_TaskDone del: replicate_add)
  let ?m3 = "createReduceTask u ?m2"
  have ts: "tasks (reduceTaskQueuing ?m3) = map (\<lambda>i. new_reduce_task m (int i)) [0..<nat (NReduce u)]"
    using assms(4) by (simp add: createReduceTask_def tasks_fold_Push new_reduce_task_def)
  have ne: "tasks (reduceTaskQueuing ?m3) \<noteq> []"
    and lst: "last (tasks (reduceTaskQueuing ?m3)) = new_reduce_task m (NReduce u - 1)"
    using n unfolding ts by (simp_all add: last_map last_upt)
  obtain q where "Pop (reduceTaskQueuing ?m3) = Inr (q, new_reduce_task m (NReduce u - 1))"
    using Pop_ok [OF ne] lst by auto
  then have "\<exists>m'. interleave [2, 2, 2] now [AskMapPush (SetNow now t), DoneReply, AskReduceSize] ?m3 =
      Inr ([AskMapPush (SetNow now t), DoneReply, AskReply (SetNow now (new_reduce_task m (NReduce u - 1)))], m')"
    using ne by (simp add: go_index_def go_len_def Size_pos)
  then show ?thesis unfolding interleave_append one two bind_res_Inr prod.case .
qed

end
