(* ===== verification/MR_Properties.thy ===== *)
theory MR_Properties
  imports MR_Races
begin

section \<open>Properties of the master\<close>

text \<open>
  What holds of every job whose handlers run one after the other, whatever the workers do; and what
  can go wrong when handlers are interleaved at their locks, stated for every job in which the queues
  are as the race needs them.
\<close>

subsection \<open>A sample job: one input file, one reduce task\<close>

definition one_file :: "string list" where
  "one_file = [''pg.txt'']"

definition sample_start :: job where
  "sample_start = new_job (\<lambda>_. 0) one_file 1"

definition ask_at :: "int \<Rightarrow> job \<Rightarrow> job" where
  "ask_at now j = (case AskTask now (master j) of
     Inr (m', t) \<Rightarrow> j\<lparr>master := m', assigned := hand_out t (assigned j)\<rparr> | Inl _ \<Rightarrow> j)"

definition report_nth :: "nat \<Rightarrow> job \<Rightarrow> job" where
  "report_nth k j = (if k < length (assigned j) then
     (let t = assigned j ! k in
      case TaskDone t (master j) of Inl _ \<Rightarrow> j
      | Inr m' \<Rightarrow> if State t = TaskMap then j\<lparr>master := m', doneMaps := FileIndex t # doneMaps j\<rparr>
                   else if State t = TaskReduce then j\<lparr>master := m', doneReduces := PartIndex t # doneReduces j\<rparr>
                   else j) else j)"

lemma ask_at_reachable: "job_reachable f n j \<Longrightarrow> job_reachable f n (ask_at now j)"
  by (auto simp: ask_at_def split: sum.splits intro: job_reachable.step job_step.ask)

lemma report_nth_reachable:
  assumes "job_reachable f n j"
  shows "job_reachable f n (report_nth k j)"
proof -
  let ?t = "assigned j ! k"
  have "job_step j (report_nth k j)" if "report_nth k j \<noteq> j"
    using that job_step.report_map [of ?t j] job_step.report_reduce [of ?t j]
    unfolding report_nth_def Let_def by (fastforce split: if_splits sum.splits)
  then show ?thesis using assms job_reachable.step by metis
qed

lemma collect_reachable:
  "job_reachable f n j \<Longrightarrow> job_reachable f n (j\<lparr>master := CollectTimeOutQueue c1 c2 (master j)\<rparr>)"
  by (auto intro: job_reachable.step job_step.collect)

lemma sample_start_reachable: "job_reachable one_file 1 sample_start"
  by (simp add: sample_start_def job_reachable.start)

lemmas sample_steps = ask_at_reachable report_nth_reachable collect_reachable sample_start_reachable

text \<open>The map task is done, the reduce task handed out; then the whole job is done.\<close>

definition sample_reducing :: job where
  "sample_reducing = ask_at 2 (report_nth 0 (ask_at 1 sample_start))"

definition sample_finished :: job where
  "sample_finished = ask_at 3 (report_nth 0 sample_reducing)"

lemma sample_reducing_reachable: "job_reachable one_file 1 sample_reducing"
  by (simp add: sample_reducing_def sample_steps)

lemma sample_finished_reachable: "job_reachable one_file 1 sample_finished"
  by (simp add: sample_finished_def sample_reducing_reachable sample_steps)

subsection \<open>Whole handlers\<close>

text \<open>
  C12: A finished job is complete. However workers ask, report, crash or come back late, and whenever
  the collector runs, \<open>Done\<close> answers true only after every map task and every reduce task of the
  job has been reported done by a worker (for a job with at least one input file; handlers running
  one at a time).
\<close>

theorem job_done_complete:
  assumes "job_reachable files nReduce j" and "files \<noteq> []" and "Done (master j)"
  shows "all_maps files j \<and> all_reduces nReduce j"
  using job_reachable_inv [OF assms(1)] assms(2,3) by (simp add: job_inv_def Done_def)

theorem job_done_complete_witness: "all_maps one_file sample_finished \<and> all_reduces 1 sample_finished"
proof (rule job_done_complete [OF sample_finished_reachable])
  show "one_file \<noteq> []" by (simp add: one_file_def)
  show "Done (master sample_finished)" by code_simp
qed

text \<open>
  C13: Reduce after map. When handlers run one at a time, a worker is given a reduce task only after
  every map task has been reported done, so all intermediate files of its partition exist. (Between
  the locks of interleaved handlers this fails: see the theorem on reduce tasks handed out early.)
\<close>

theorem reduce_after_all_maps:
  assumes "job_reachable files nReduce j" and "AskTask now (master j) = Inr (m', t)"
    and "State t = TaskReduce"
  shows "all_maps files j \<and> reduce_task files nReduce t"
proof (cases rule: AskTask_cases [of now "master j"])
  case (reduce m1 t1)
  then have "reduce_bag (master j) \<noteq> {#}" "t = SetNow now t1" using assms(2) by auto
  then show ?thesis using job_reachable_inv [OF assms(1)] reduce(3) by (auto simp: job_inv_def)
next
  case (map m1 t1)
  then have "State t = TaskMap" using job_reachable_inv [OF assms(1)] assms(2)
    by (auto simp: job_inv_def map_task_def)
  then show ?thesis using assms(3) by simp
qed (use assms(2,3) in auto)

definition sample_mapped :: job where
  "sample_mapped = report_nth 0 (ask_at 1 sample_start)"

theorem reduce_after_all_maps_witness:
  "\<exists>m' t. AskTask 2 (master sample_mapped) = Inr (m', t) \<and> State t = TaskReduce \<and>
     all_maps one_file sample_mapped \<and> reduce_task one_file 1 t"
proof -
  have r: "job_reachable one_file 1 sample_mapped" by (simp add: sample_mapped_def sample_steps)
  have "case AskTask 2 (master sample_mapped) of Inl _ \<Rightarrow> False | Inr (m', t) \<Rightarrow> State t = TaskReduce"
    by code_simp
  then obtain m' t where "AskTask 2 (master sample_mapped) = Inr (m', t)" "State t = TaskReduce"
    by (auto split: sum.splits)
  then show ?thesis using reduce_after_all_maps [OF r] by blast
qed

text \<open>
  C14: No task is lost. When handlers run one at a time, at every moment each input file has its map
  task in the queuing or the running queue, at most once in both together, or it has been reported
  done (or both, when a late worker reports a task that was given out again). Once no map task is
  left, each reduce task is queued or running (more than once after a late report of a map task) or
  has been reported done. Every task in a queue and every task a worker holds is a well-formed map
  or reduce task of this job, and no handler call by such a worker panics.
\<close>

theorem job_tasks_kept:
  assumes "job_reachable files nReduce j"
  shows "maps_kept files j \<and> (\<forall>f. count (image_mset FileIndex (map_bag (master j))) f \<le> 1) \<and>
    (map_bag (master j) = {#} \<and> files \<noteq> [] \<longrightarrow> reduces_kept nReduce j) \<and>
    (\<forall>t \<in># map_bag (master j). map_task files nReduce t) \<and>
    (\<forall>t \<in># reduce_bag (master j). reduce_task files nReduce t) \<and>
    (\<exists>m' t. AskTask now (master j) = Inr (m', t)) \<and>
    (\<forall>t \<in> set (assigned j). (map_task files nReduce t \<or> reduce_task files nReduce t) \<and>
       (\<exists>m'. TaskDone t (master j) = Inr m'))"
proof -
  note inv = job_reachable_inv [OF assms]
  have ask: "\<exists>m' t. AskTask now (master j) = Inr (m', t)"
    by (cases rule: AskTask_cases [of now "master j"]) auto
  have don: "\<exists>m'. TaskDone t (master j) = Inr m'"
    if "map_task files nReduce t \<or> reduce_task files nReduce t" for t
    using that TaskDone_map [of t "master j"] TaskDone_reduce [of t "master j"] task_States by metis
  show ?thesis using inv ask don unfolding job_inv_def by blast
qed

text \<open>The witness: the map task is reported, the reduce task runs.\<close>

theorem job_tasks_kept_witness: "maps_kept one_file sample_reducing \<and> map_bag (master sample_reducing) = {#} \<and>
  reduces_kept 1 sample_reducing \<and> (\<exists>t. t \<in># reduce_bag (master sample_reducing) \<and> reduce_task one_file 1 t) \<and>
  (\<exists>m' t. AskTask 9 (master sample_reducing) = Inr (m', t))"
proof -
  have e: "map_bag (master sample_reducing) = {#}" and "reduce_bag (master sample_reducing) \<noteq> {#}"
  proof -
    have "tasks (mapTaskQueuing (master sample_reducing)) = [] \<and> tasks (mapTaskRunning (master sample_reducing)) = [] \<and>
        tasks (reduceTaskRunning (master sample_reducing)) \<noteq> []" by code_simp
    then show "map_bag (master sample_reducing) = {#}" "reduce_bag (master sample_reducing) \<noteq> {#}"
      by (simp_all add: map_bag_def reduce_bag_def)
  qed
  moreover have "one_file \<noteq> []" by (simp add: one_file_def)
  ultimately show ?thesis
    using job_tasks_kept [OF sample_reducing_reachable, of 9] by blast
qed

text \<open>
  The collector loses nothing. A pass of \<open>CollectTimeOutQueue\<close> moves tasks from the running
  to the queuing queues: each of the two bags of unfinished tasks is unchanged, and a task stays
  running only if some reading of the clock found it at most ten seconds old.
\<close>

lemma timeout_loop_fresh:
  "timeout_loop clock k a i ret = (a', ret') \<Longrightarrow> \<forall>t \<in> set (take i a). \<exists>k. \<not> OutOfTime (clock k) t \<Longrightarrow>
     \<forall>t \<in> set a'. \<exists>k. \<not> OutOfTime (clock k) t"
proof (induction clock k a i ret rule: timeout_loop.induct)
  case (1 clock k a i ret)
  consider (cut) "i < length a" "OutOfTime (clock k) (a ! i)"
    | (keep) "i < length a" "\<not> OutOfTime (clock k) (a ! i)" | (over) "\<not> i < length a" by blast
  then show ?case
  proof cases
    case cut
    then have "timeout_loop clock (Suc k) (take i a @ drop (Suc i) a) i (ret @ [a ! i]) = (a', ret')"
      using "1.prems"(1) by (subst (asm) timeout_loop.simps) simp
    from "1.IH"(1) [OF cut this] "1.prems"(2) cut(1) show ?thesis by (simp add: min_def)
  next
    case keep
    then have "timeout_loop clock (Suc k) a (Suc i) ret = (a', ret')"
      using "1.prems"(1) by (subst (asm) timeout_loop.simps) simp
    from "1.IH"(2) [OF keep this] "1.prems"(2) keep show ?thesis
      by (auto simp: take_Suc_conv_app_nth)
  next
    case over
    then show ?thesis using "1.prems" by (auto simp: timeout_loop.simps)
  qed
qed

lemma TimeOutQueue_fresh:
  "TimeOutQueue clock tq = (tq', ts) \<Longrightarrow> \<forall>t \<in> set (tasks tq'). \<exists>k. \<not> OutOfTime (clock k) t"
  using timeout_loop_fresh [of clock 0 _ 0 "[]"]
  by (fastforce simp: TimeOutQueue_def tasks_def split: option.splits prod.splits)

theorem collector_requeues:
  "map_bag (CollectTimeOutQueue c1 c2 m) = map_bag m \<and>
   reduce_bag (CollectTimeOutQueue c1 c2 m) = reduce_bag m \<and>
   (\<forall>t \<in> set (tasks (mapTaskRunning (CollectTimeOutQueue c1 c2 m))). \<exists>k. \<not> OutOfTime (c2 k) t) \<and>
   (\<forall>t \<in> set (tasks (reduceTaskRunning (CollectTimeOutQueue c1 c2 m))). \<exists>k. \<not> OutOfTime (c1 k) t)"
proof -
  obtain rr ts where r: "TimeOutQueue c1 (reduceTaskRunning m) = (rr, ts)" by force
  obtain mr us where u: "TimeOutQueue c2 (mapTaskRunning m) = (mr, us)" by force
  show ?thesis
    using TimeOutQueue_fresh [OF r] TimeOutQueue_fresh [OF u] Collect_bags [of c1 c2 m]
    by (simp add: CollectTimeOutQueue_def r u Let_def)
qed

theorem collector_requeues_witness:
  "map_bag (CollectTimeOutQueue (\<lambda>_. 20 * Second) (\<lambda>_. 20 * Second) (master sample_reducing)) =
     map_bag (master sample_reducing) \<and>
   tasks (reduceTaskRunning (CollectTimeOutQueue (\<lambda>_. 20 * Second) (\<lambda>_. 20 * Second) (master sample_reducing))) = []"
proof -
  let ?m = "CollectTimeOutQueue (\<lambda>_. 20 * Second) (\<lambda>_. 20 * Second) (master sample_reducing)"
  have "tasks (reduceTaskRunning ?m) = []" by code_simp
  then show ?thesis
    using collector_requeues [of "\<lambda>_. 20 * Second" "\<lambda>_. 20 * Second" "master sample_reducing"] by blast
qed

text \<open>
  Handlers that run undisturbed are atomic. Executing a call lock by lock, alone, gives what the
  whole-handler functions give: \<open>AskTask\<close> within 5 steps, \<open>TaskDone\<close> within 4 plus the
  number of reduce tasks, a collector pass in 4, panics included.
\<close>

theorem undisturbed_handlers:
  "alone now 5 AskReduceSize m = bind_res (AskTask now m) (\<lambda>(m', t). Inr (AskReply t, m')) \<and>
   alone now (4 + nat (NReduce t)) (DoneRemove t) m = bind_res (TaskDone t m) (\<lambda>m'. Inr (DoneReply, m')) \<and>
   alone now 4 CollectReduce m = Inr (CollectSleep, CollectTimeOutQueue (\<lambda>_. now) (\<lambda>_. now) m)"
  by (simp only: alone_AskTask alone_TaskDone alone_Collect simp_thms)

subsection \<open>Interleaved handlers\<close>

text \<open>
  C15: A job can be declared done with its reduce work never queued. \<open>TaskDone\<close> removes the last
  map task from the running queue before it creates the reduce tasks. In every job in which no map
  task is queued, only the map task that is being reported is running and no reduce task exists yet,
  a worker that asks in between finds all four queues empty: it is told that there is no more work,
  and it sets \<open>isDone\<close>, on which the master exits, while the report has not created the reduce
  tasks and none of them has been done.
\<close>

theorem early_done:
  assumes "job_reachable files nReduce j" and "t \<in> set (assigned j)" and "State t = TaskMap"
    and "tasks (mapTaskQueuing (master j)) = []"
    and "\<forall>v \<in> set (tasks (mapTaskRunning (master j))). FileIndex v = FileIndex t \<and> PartIndex v = PartIndex t"
    and "reduce_bag (master j) = {#}" and "doneReduces j = []" and "0 < nReduce"
  shows "\<exists>m'. interleave [0, 1, 1, 1, 1, 1] now [DoneRemove t, AskReduceSize] (master j) =
      Inr ([DoneMapRunning t, AskReply (zero_TaskInfo\<lparr>State := TaskEnd\<rparr>)], m') \<and>
    Done m' \<and> reduce_bag m' = {#} \<and> \<not> all_reduces nReduce j"
proof -
  have "\<not> all_reduces nReduce j" using assms(7,8) by (auto simp: all_reduces_def)
  then show ?thesis
    using ask_after_remove [OF assms(3-6), of now] assms(6) by (simp add: Done_def reduce_bag_def)
qed

definition sample_mapping :: job where
  "sample_mapping = ask_at 1 sample_start"

theorem early_done_witness:
  "\<exists>t m'. t \<in> set (assigned sample_mapping) \<and>
     interleave [0, 1, 1, 1, 1, 1] 2 [DoneRemove t, AskReduceSize] (master sample_mapping) =
       Inr ([DoneMapRunning t, AskReply (zero_TaskInfo\<lparr>State := TaskEnd\<rparr>)], m') \<and>
     Done m' \<and> reduce_bag m' = {#} \<and> \<not> all_reduces 1 sample_mapping"
proof -
  let ?t = "hd (assigned sample_mapping)"
  have r: "job_reachable one_file 1 sample_mapping" by (simp add: sample_mapping_def sample_steps)
  have t: "?t \<in> set (assigned sample_mapping)" and st: "State ?t = TaskMap"
    and q: "tasks (mapTaskQueuing (master sample_mapping)) = []"
    and run: "\<forall>v \<in> set (tasks (mapTaskRunning (master sample_mapping))).
        FileIndex v = FileIndex ?t \<and> PartIndex v = PartIndex ?t"
    and d: "doneReduces sample_mapping = []"
    by code_simp+
  have "tasks (reduceTaskQueuing (master sample_mapping)) = [] \<and>
      tasks (reduceTaskRunning (master sample_mapping)) = []" by code_simp
  then have rb: "reduce_bag (master sample_mapping) = {#}" by (simp add: reduce_bag_def)
  show ?thesis using early_done [OF r t st q run rb d, of 2] t by auto
qed

text \<open>
  C16: A reduce task can be handed out while a map task has not been done. \<open>AskTask\<close> pops a task
  from the queuing queue and pushes it to the running queue in separate critical sections; in
  between the task is in neither. In every job with one queued map task \<open>t\<close> that nobody has
  reported, in which all running map tasks are the one that another worker reports, the report finds
  both map queues empty and creates the reduce tasks, and a third worker is given one, before
  \<open>t\<close> has even been handed out.
\<close>

theorem reduce_before_map:
  assumes "job_reachable files nReduce j" and "tasks (mapTaskQueuing (master j)) = [t]"
    and "FileIndex t \<notin> set (doneMaps j)"
    and "u \<in> set (assigned j)" and "State u = TaskMap" and "FileIndex u \<noteq> FileIndex t"
    and "\<forall>v \<in> set (tasks (mapTaskRunning (master j))). FileIndex v = FileIndex u \<and> PartIndex v = PartIndex u"
    and "0 < nReduce"
  shows "\<exists>r m'. interleave ([0, 0, 0] @ replicate (4 + nat nReduce) 1 @ [2, 2, 2]) now
        [AskReduceSize, DoneRemove u, AskReduceSize] (master j) =
      Inr ([AskMapPush (SetNow now t), DoneReply, AskReply r], m') \<and>
    reduce_task files nReduce r \<and> \<not> all_maps files (j\<lparr>doneMaps := FileIndex u # doneMaps j\<rparr>)"
proof -
  note inv = job_reachable_inv [OF assms(1), unfolded job_inv_def]
  have "map_task files nReduce t" using inv assms(2) by (simp add: map_bag_def)
  then have t: "0 \<le> FileIndex t" "FileIndex t < go_len files" by (simp_all add: map_task_def)
  then have "\<not> all_maps files j" and no: "\<not> all_maps files (j\<lparr>doneMaps := FileIndex u # doneMaps j\<rparr>)"
    using assms(3,6) by (auto simp: all_maps_def)
  then have rq: "tasks (reduceTaskQueuing (master j)) = []"
    using inv by (auto simp: reduce_bag_def)
  have "map_task files nReduce u \<or> reduce_task files nReduce u" using inv assms(4) by blast
  then have n: "NReduce u = nReduce" using assms(5) by (auto simp: map_task_def reduce_task_def)
  have "reduce_task files nReduce (SetNow now (new_reduce_task (master j) (nReduce - 1)))"
    using inv assms(8) by (simp add: reduce_task_def new_reduce_task_def zero_TaskInfo_def)
  then show ?thesis
    using report_while_popped [OF assms(5,2,7) rq, of now] assms(8) no unfolding n by blast
qed

definition two_files :: "string list" where
  "two_files = [''pg.txt'', ''grimm.txt'']"

definition sample_two :: job where
  "sample_two = ask_at 1 (new_job (\<lambda>_. 0) two_files 3)"

theorem reduce_before_map_witness:
  "\<exists>t u r m'. tasks (mapTaskQueuing (master sample_two)) = [t] \<and> u \<in> set (assigned sample_two) \<and>
     interleave ([0, 0, 0] @ replicate (4 + nat 3) 1 @ [2, 2, 2]) 2
       [AskReduceSize, DoneRemove u, AskReduceSize] (master sample_two) =
     Inr ([AskMapPush (SetNow 2 t), DoneReply, AskReply r], m') \<and> reduce_task two_files 3 r \<and>
     \<not> all_maps two_files (sample_two\<lparr>doneMaps := FileIndex u # doneMaps sample_two\<rparr>)"
proof -
  let ?t = "hd (tasks (mapTaskQueuing (master sample_two)))" and ?u = "hd (assigned sample_two)"
  have r: "job_reachable two_files 3 sample_two"
    by (simp add: sample_two_def ask_at_reachable job_reachable.start)
  have q: "tasks (mapTaskQueuing (master sample_two)) = [?t]" and d: "FileIndex ?t \<notin> set (doneMaps sample_two)"
    and u: "?u \<in> set (assigned sample_two)" "State ?u = TaskMap" "FileIndex ?u \<noteq> FileIndex ?t"
    and run: "\<forall>v \<in> set (tasks (mapTaskRunning (master sample_two))).
        FileIndex v = FileIndex ?u \<and> PartIndex v = PartIndex ?u"
    by code_simp+
  have n: "(0::int) < 3" by simp
  show ?thesis using reduce_before_map [OF r q d u run n, of 2] q u(1) by blast
qed

text \<open>
  C17: Workers asking at once can crash the master. \<open>AskTask\<close> tests the size of a queue and
  pops in separate critical sections. Whenever one worker more asks than there are queued tasks (two
  workers for the last one), and all of them test the size before the first one pops, the last
  \<open>Pop\<close> indexes an empty slice: for the reduce queue of any master, and for the map queue of any
  master whose reduce queue is empty.
\<close>

theorem concurrent_asks_panic:
  "(tasks (reduceTaskQueuing m) \<noteq> [] \<longrightarrow>
     (let n = Suc (length (tasks (reduceTaskQueuing m))) in
      interleave ([0..<n] @ [0..<n]) now (replicate n AskReduceSize) m = Inl IndexOutOfRange)) \<and>
   (tasks (reduceTaskQueuing m) = [] \<and> tasks (mapTaskQueuing m) \<noteq> [] \<longrightarrow>
     (let n = Suc (length (tasks (mapTaskQueuing m))) in
      interleave ([0..<n] @ [0..<n] @ [0..<n]) now (replicate n AskReduceSize) m = Inl IndexOutOfRange))"
  unfolding Let_def using reduce_asks_panic map_asks_panic by blast

text \<open>The witness: two workers ask for the one task of the sample job, first map, then reduce.\<close>

theorem concurrent_asks_panic_witness:
  "interleave [0, 1, 0, 1, 0, 1] 1 [AskReduceSize, AskReduceSize] (master sample_start) = Inl IndexOutOfRange \<and>
   interleave [0, 1, 0, 1] 1 [AskReduceSize, AskReduceSize] (master sample_mapped) = Inl IndexOutOfRange"
proof -
  have a: "tasks (reduceTaskQueuing (master sample_start)) = []" "length (tasks (mapTaskQueuing (master sample_start))) = 1"
    and b: "length (tasks (reduceTaskQueuing (master sample_mapped))) = 1"
    by code_simp+
  show ?thesis
    using concurrent_asks_panic [of "master sample_start" 1] concurrent_asks_panic [of "master sample_mapped" 1] a b
    by (auto simp: upt_rec numeral_2_eq_2)
qed

definition late_job :: job where
  "late_job =
     (let j = ask_at 1 sample_start;
          j1 = j\<lparr>master := CollectTimeOutQueue (\<lambda>_. 20 * Second) (\<lambda>_. 20 * Second) (master j)\<rparr>
      in report_nth 1 (report_nth 0 (ask_at (20 * Second) j1)))"

text \<open>
  A late report duplicates the reduce phase. When a map task timed out, was given to a second
  worker and both report it, each report finds the map queues empty and creates all reduce tasks, so
  the same reduce task is queued twice.
\<close>

theorem late_report_duplicates:
  "\<exists>j. job_reachable one_file 1 j \<and> image_mset PartIndex (reduce_bag (master j)) = {#0, 0#}"
proof -
  have "job_reachable one_file 1 late_job"
    unfolding late_job_def Let_def by (intro sample_steps)
  moreover have "map PartIndex (tasks (reduceTaskQueuing (master late_job))) = [0, 0] \<and>
      tasks (reduceTaskRunning (master late_job)) = []"
    by code_simp
  then have "image_mset PartIndex (reduce_bag (master late_job)) = {#0, 0#}"
    unfolding reduce_bag_def by (metis add.right_neutral mset.simps mset_map)
  ultimately show ?thesis by blast
qed

end
