(* ===== verification/MR_Worker.thy ===== *)
theory MR_Worker
  imports MR_Master MR_Encoding
begin

section \<open>The MapReduce worker (mr/worker.go) and the sequential program (main/mrsequential.go)\<close>

text \<open>
  What a worker does with a task: read, map, partition by hash, write; or read all files of a
  partition, sort, group, reduce, write. The working directory is a map from names to contents; a
  temporary file that is renamed at the end is one update. \<open>log.Fatalf\<close> ends the process and
  is an error value. \<open>sort.Sort\<close> is not stable, so the order of pairs with equal keys is left
  open: the sort is a parameter under the contract of \<open>key_sort\<close>.
\<close>

type_synonym files = "string \<Rightarrow> string option"
type_synonym mapf = "string \<Rightarrow> string \<Rightarrow> KeyValue list"
type_synonym reducef = "string \<Rightarrow> string list \<Rightarrow> string"

subsection \<open>Sorting by key\<close>

definition ByKey_Len :: "KeyValue list \<Rightarrow> nat" where
  "ByKey_Len a = length a"

definition ByKey_Swap :: "KeyValue list \<Rightarrow> nat \<Rightarrow> nat \<Rightarrow> KeyValue list" where
  "ByKey_Swap a i j = a[i := a ! j, j := a ! i]"

definition ByKey_Less :: "KeyValue list \<Rightarrow> nat \<Rightarrow> nat \<Rightarrow> bool" where
  "ByKey_Less a i j \<longleftrightarrow> Key (a ! i) < Key (a ! j)"

text \<open>The contract of \<open>sort.Sort(ByKey(a))\<close>: a permutation without inversions.\<close>

locale key_sort =
  fixes srt :: "KeyValue list \<Rightarrow> KeyValue list"
  assumes mset_srt: "mset (srt a) = mset a"
    and srt_Less: "i < j \<Longrightarrow> j < ByKey_Len (srt a) \<Longrightarrow> \<not> ByKey_Less (srt a) j i"
begin

lemma sorted_srt: "sorted (map Key (srt a))"
  unfolding sorted_iff_nth_mono_less
  using srt_Less [of _ _ a] by (simp add: ByKey_Less_def ByKey_Len_def not_less)

lemma set_srt: "set (srt a) = set a"
  by (metis mset_srt set_mset_mset)

end

interpretation by_key: key_sort "sort_key Key"
proof
  show "\<not> ByKey_Less (sort_key Key a) j i" if "i < j" "j < ByKey_Len (sort_key Key a)" for a i j
    using sorted_nth_mono [OF sorted_sort_key [of Key a], of i j] that
    by (simp add: ByKey_Less_def ByKey_Len_def not_less)
qed simp

text \<open>Swapping is a permutation, as \<open>sort.Sort\<close> relies on.\<close>

lemma ByKey_Swap_mset: "i < length a \<Longrightarrow> j < length a \<Longrightarrow> mset (ByKey_Swap a i j) = mset a"
  by (simp add: ByKey_Swap_def mset_swap)

subsection \<open>The map task\<close>

definition inter_name :: "int \<Rightarrow> int \<Rightarrow> string" where
  "inter_name i p = (''mr-'' @ Itoa i @ ''-'') @ Itoa p"

definition out_name :: "int \<Rightarrow> string" where
  "out_name p = ''mr-out-'' @ Itoa p"

text \<open>The temporary files of a map task, one per reduce task, as their contents so far.\<close>

fun partition_loop :: "int \<Rightarrow> KeyValue list \<Rightarrow> string list \<Rightarrow> string list res" where
  "partition_loop nReduce [] outFiles = Inr outFiles"
| "partition_loop nReduce (kv # kvs) outFiles =
     bind_res (go_mod (ihash (Key kv)) nReduce) (\<lambda>outindex.
     bind_res (go_index outFiles outindex) (\<lambda>file.
     bind_res (go_update outFiles outindex (file @ json_encode kv)) (\<lambda>outFiles'.
       partition_loop nReduce kvs outFiles')))"

definition rename_loop :: "int \<Rightarrow> string list \<Rightarrow> files \<Rightarrow> files" where
  "rename_loop fileIndex outFiles fs =
     fold (\<lambda>outindex fs. fs(inter_name fileIndex (int outindex) \<mapsto> outFiles ! outindex))
       [0..<length outFiles] fs"

definition workerMap :: "mapf \<Rightarrow> TaskInfo \<Rightarrow> files \<Rightarrow> files res" where
  "workerMap mapf taskInfo fs =
     (case fs (FileName taskInfo) of
        None \<Rightarrow> Inl (LogFatal ''cannot open'')
      | Some content \<Rightarrow>
          (let intermediate = mapf (FileName taskInfo) content; nReduce = NReduce taskInfo
           in if nReduce < 0 then Inl (Panic ''makeslice: len out of range'')
              else bind_res (partition_loop nReduce intermediate (replicate (nat nReduce) []))
                     (\<lambda>outFiles. Inr (rename_loop (FileIndex taskInfo) outFiles fs))))"

subsection \<open>The reduce task\<close>

definition read_loop :: "int \<Rightarrow> files \<Rightarrow> nat \<Rightarrow> KeyValue list \<Rightarrow> KeyValue list res" where
  "read_loop partIndex fs i intermediate =
     (case fs (inter_name (int i) partIndex) of
        None \<Rightarrow> Inl (LogFatal ''cannot open'')
      | Some content \<Rightarrow> Inr (intermediate @ decode_loop content))"

function scan_group :: "KeyValue list \<Rightarrow> nat \<Rightarrow> nat \<Rightarrow> nat" where
  "scan_group a i j =
     (if j < length a \<and> Key (a ! j) = Key (a ! i) then scan_group a i (j + 1) else j)"
  by pat_completeness auto
termination
  by (relation "measure (\<lambda>(a, i, j). length a - j)") auto

declare scan_group.simps [simp del]

lemma scan_group_ge: "j \<le> scan_group a i j"
  by (induction a i j rule: scan_group.induct) (subst scan_group.simps, force)

definition out_line :: "string \<Rightarrow> string \<Rightarrow> string" where
  "out_line key output = key @ '' '' @ output @ [CHR 0x0A]"

function reduce_loop :: "reducef \<Rightarrow> KeyValue list \<Rightarrow> nat \<Rightarrow> string" where
  "reduce_loop reducef a i =
     (if i < length a
      then (let j = scan_group a i (i + 1);
                values = map (\<lambda>k. Value (a ! k)) [i..<j];
                output = reducef (Key (a ! i)) values
            in out_line (Key (a ! i)) output @ reduce_loop reducef a j)
      else [])"
  by pat_completeness auto
termination
proof (relation "measure (\<lambda>(f, a, i). length a - i)")
  show "((f, a, j), (f, a, i)) \<in> measure (\<lambda>(f, a, i). length a - i)"
    if "i < length a" "j = scan_group a i (i + 1)" for f :: reducef and a i j
    using that scan_group_ge [of "i + 1" a i] by auto
qed simp

declare reduce_loop.simps [simp del]

definition workerReduce ::
  "(KeyValue list \<Rightarrow> KeyValue list) \<Rightarrow> reducef \<Rightarrow> TaskInfo \<Rightarrow> files \<Rightarrow> files res" where
  "workerReduce srt reducef taskInfo fs =
     bind_res (fold_res (read_loop (PartIndex taskInfo) fs) [0..<nat (NFiles taskInfo)] [])
       (\<lambda>intermediate.
          Inr (fs(out_name (PartIndex taskInfo) \<mapsto> reduce_loop reducef (srt intermediate) 0)))"

subsection \<open>The sequential program\<close>

definition seq_read :: "mapf \<Rightarrow> files \<Rightarrow> string \<Rightarrow> KeyValue list \<Rightarrow> KeyValue list res" where
  "seq_read mapf fs filename intermediate =
     (case fs filename of
        None \<Rightarrow> Inl (LogFatal ''cannot open'')
      | Some content \<Rightarrow> Inr (intermediate @ mapf filename content))"

definition mrsequential ::
  "(KeyValue list \<Rightarrow> KeyValue list) \<Rightarrow> mapf \<Rightarrow> reducef \<Rightarrow> string list \<Rightarrow> files \<Rightarrow> files res" where
  "mrsequential srt mapf reducef args fs =
     bind_res (fold_res (seq_read mapf fs) args [])
       (\<lambda>intermediate. Inr (fs(''mr-out-0'' \<mapsto> reduce_loop reducef (srt intermediate) 0)))"

subsection \<open>What the grouping loop computes\<close>

definition values_of :: "string \<Rightarrow> KeyValue list \<Rightarrow> string list" where
  "values_of k a = map Value (filter (\<lambda>kv. Key kv = k) a)"

text \<open>The specification: one line per key, keys in order.\<close>

definition output_lines :: "reducef \<Rightarrow> KeyValue list \<Rightarrow> string list" where
  "output_lines reducef a =
     map (\<lambda>k. out_line k (reducef k (values_of k a))) (sorted_list_of_set (Key ` set a))"

definition order_blind :: "reducef \<Rightarrow> bool" where
  "order_blind f \<longleftrightarrow> (\<forall>k vs ws. mset vs = mset ws \<longrightarrow> f k vs = f k ws)"

lemma scan_group_takeWhile:
  "j \<le> length a \<Longrightarrow>
     scan_group a i j = j + length (takeWhile (\<lambda>kv. Key kv = Key (a ! i)) (drop j a))"
proof (induction a i j rule: scan_group.induct)
  case (1 a i j)
  show ?case
  proof (cases "j < length a")
    case True
    then show ?thesis using 1 scan_group.simps [of a i j]
      by (simp add: Cons_nth_drop_Suc [symmetric])
  next
    case False
    then show ?thesis using 1 scan_group.simps [of a i j] by simp
  qed
qed

declare length_dropWhile_le [termination_simp] le_imp_less_Suc [termination_simp]

fun group_lines :: "reducef \<Rightarrow> KeyValue list \<Rightarrow> string list" where
  "group_lines f [] = []"
| "group_lines f (kv # a) =
     out_line (Key kv) (f (Key kv) (Value kv # map Value (takeWhile (\<lambda>x. Key x = Key kv) a))) #
     group_lines f (dropWhile (\<lambda>x. Key x = Key kv) a)"

lemma map_nth_upt_take: "i + n \<le> length a \<Longrightarrow> map (\<lambda>k. f (a ! k)) [i..<i + n] = map f (take n (drop i a))"
  by (rule nth_equalityI) simp_all

lemma reduce_loop_groups: "i \<le> length a \<Longrightarrow> reduce_loop f a i = concat (group_lines f (drop i a))"
proof (induction f a i rule: reduce_loop.induct)
  case (1 f a i)
  show ?case
  proof (cases "i < length a")
    case False
    then show ?thesis by (simp add: reduce_loop.simps)
  next
    case True
    let ?same = "\<lambda>x. Key x = Key (a ! i)"
    let ?w = "takeWhile ?same (drop (Suc i) a)"
    have d: "drop i a = a ! i # drop (Suc i) a" using True by (simp add: Cons_nth_drop_Suc)
    have j: "scan_group a i (i + 1) = i + Suc (length ?w)"
      using scan_group_takeWhile [of "i + 1" a i] True by simp
    have len: "i + Suc (length ?w) \<le> length a"
      using length_takeWhile_le [of ?same "drop (Suc i) a"] True by simp
    have v: "map (\<lambda>k. Value (a ! k)) [i..<i + Suc (length ?w)] = Value (a ! i) # map Value ?w"
      using map_nth_upt_take [OF len, of Value] by (simp only: d take_Suc_Cons list.map takeWhile_eq_take [symmetric])
    have r: "drop (i + Suc (length ?w)) a = dropWhile ?same (drop (Suc i) a)"
      by (simp add: dropWhile_eq_drop add.commute)
    have ih: "reduce_loop f a (i + Suc (length ?w)) = concat (group_lines f (dropWhile ?same (drop (Suc i) a)))"
      using "1.IH" [OF True j [symmetric] refl refl] len r by simp
    show ?thesis
      using True unfolding reduce_loop.simps [of f a i] Let_def j v ih d by simp
  qed
qed


text \<open>On a sorted list each group is all the pairs of its key.\<close>

lemma sorted_group:
  assumes "sorted (map Key (kv # a))"
  shows "takeWhile (\<lambda>x. Key x = Key kv) a = filter (\<lambda>x. Key x = Key kv) a"
    and "dropWhile (\<lambda>x. Key x = Key kv) a = filter (\<lambda>x. Key x \<noteq> Key kv) a"
proof -
  have "takeWhile (\<lambda>x. Key x = Key kv) a = filter (\<lambda>x. Key x = Key kv) a \<and>
      dropWhile (\<lambda>x. Key x = Key kv) a = filter (\<lambda>x. Key x \<noteq> Key kv) a"
    using assms
  proof (induction a)
    case (Cons x a)
    show ?case
    proof (cases "Key x = Key kv")
      case True
      then show ?thesis using Cons by simp
    next
      case False
      then have "\<forall>y \<in> set a. Key y \<noteq> Key kv" using Cons.prems by auto
      then show ?thesis using False by (simp add: filter_empty_conv)
    qed
  qed simp
  then show "takeWhile (\<lambda>x. Key x = Key kv) a = filter (\<lambda>x. Key x = Key kv) a"
    "dropWhile (\<lambda>x. Key x = Key kv) a = filter (\<lambda>x. Key x \<noteq> Key kv) a" by simp_all
qed

lemma sorted_keys_Cons:
  assumes "sorted (map Key (kv # a))"
  shows "sorted_list_of_set (Key ` set (kv # a)) =
    Key kv # sorted_list_of_set (Key ` set (filter (\<lambda>x. Key x \<noteq> Key kv) a))"
proof -
  let ?S = "Key ` set (filter (\<lambda>x. Key x \<noteq> Key kv) a)"
  have s: "Key ` set (kv # a) = insert (Key kv) ?S" by auto
  have lt: "\<forall>k \<in> ?S. Key kv < k" using assms by (auto simp: order.strict_iff_order)
  then have "Key kv \<notin> ?S" by blast
  then have "sorted_list_of_set (insert (Key kv) ?S) = insort (Key kv) (sorted_list_of_set ?S)"
    by (simp add: sorted_list_of_set_insert_remove)
  also have "\<dots> = Key kv # sorted_list_of_set ?S"
    using lt by (intro insort_is_Cons) (auto simp: less_imp_le)
  finally show ?thesis unfolding s .
qed

lemma values_of_filter: "k \<noteq> k' \<Longrightarrow> values_of k' (filter (\<lambda>x. Key x \<noteq> k) a) = values_of k' a"
  by (auto simp: values_of_def intro: arg_cong [where f = "map Value"] filter_cong)

lemma group_lines_sorted: "sorted (map Key a) \<Longrightarrow> group_lines f a = output_lines f a"
proof (induction f a rule: group_lines.induct)
  case (2 f kv a)
  let ?r = "filter (\<lambda>x. Key x \<noteq> Key kv) a"
  note g = sorted_group [OF "2.prems"]
  have "sorted (map Key ?r)" using "2.prems" by (simp add: sorted_filter)
  then have ih: "group_lines f ?r = output_lines f ?r" using "2.IH" by (simp add: g)
  have "values_of k (kv # a) = values_of k ?r" if "k \<in> Key ` set ?r" for k
  proof -
    have "k \<noteq> Key kv" using that by auto
    then show ?thesis using values_of_filter [of "Key kv" k a] by (simp add: values_of_def)
  qed
  then have "map (\<lambda>k. out_line k (f k (values_of k (kv # a)))) (sorted_list_of_set (Key ` set ?r)) = output_lines f ?r"
    unfolding output_lines_def by (intro map_cong) simp_all
  moreover have "values_of (Key kv) (kv # a) = Value kv # map Value (takeWhile (\<lambda>x. Key x = Key kv) a)"
    by (simp add: values_of_def g)
  ultimately show ?case
    unfolding group_lines.simps g(2) ih output_lines_def [of f "kv # a"] sorted_keys_Cons [OF "2.prems"]
    by simp
qed (simp add: output_lines_def)

lemma output_lines_mset:
  assumes "order_blind f" and "mset a = mset b"
  shows "output_lines f a = output_lines f b"
proof -
  have "set a = set b" using assms(2) by (metis set_mset_mset)
  moreover have "mset (values_of k a) = mset (values_of k b)" for k
    using assms(2) by (simp add: values_of_def mset_filter)
  then have "f k (values_of k a) = f k (values_of k b)" for k
    using assms(1) unfolding order_blind_def by blast
  ultimately show ?thesis by (simp add: output_lines_def)
qed

context key_sort
begin

text \<open>Whatever the sort does with equal keys, the output is the specified one.\<close>

lemma reduce_output:
  assumes "order_blind f"
  shows "reduce_loop f (srt a) 0 = concat (output_lines f a)"
  using reduce_loop_groups [of 0 "srt a" f] group_lines_sorted [OF sorted_srt]
    output_lines_mset [OF assms mset_srt] by simp

end

text \<open>A partition's lines are the sequential lines of its keys.\<close>

definition part_of :: "int \<Rightarrow> string \<Rightarrow> int" where
  "part_of nReduce k = ihash k mod nReduce"

definition in_part :: "int \<Rightarrow> int \<Rightarrow> KeyValue \<Rightarrow> bool" where
  "in_part nReduce p kv \<longleftrightarrow> part_of nReduce (Key kv) = p"

lemma sorted_list_of_set_filter:
  "finite S \<Longrightarrow> filter P (sorted_list_of_set S) = sorted_list_of_set {x \<in> S. P x}"
  by (rule sorted_distinct_set_unique) (auto simp: sorted_filter [of id, simplified] distinct_filter)

lemma output_lines_part:
  "output_lines f (filter (in_part n p) a) =
     map (\<lambda>k. out_line k (f k (values_of k a))) (filter (\<lambda>k. part_of n k = p) (sorted_list_of_set (Key ` set a)))"
proof -
  have "Key ` set (filter (in_part n p) a) = {k \<in> Key ` set a. part_of n k = p}"
    by (auto simp: in_part_def)
  moreover have "values_of k (filter (in_part n p) a) = values_of k a" if "part_of n k = p" for k
    using that by (auto simp: values_of_def in_part_def intro: arg_cong [where f = "map Value"] filter_cong)
  ultimately show ?thesis
    unfolding output_lines_def by (auto simp: sorted_list_of_set_filter intro: map_cong)
qed

end
