(* ===== verification/MR_Run.thy ===== *)
theory MR_Run
  imports MR_Jobs MR_Worker
begin

section \<open>A worker process against the master\<close>

text \<open>
  The loop of \<open>Worker\<close>, with the calls to the master as calls of its handlers, and the proof
  that one worker takes a job from \<open>MakeMaster\<close> to its end, leaving in the partition files the
  lines the sequential program prints. The loop has fuel, one unit per round; \<open>None\<close> means that
  the fuel ran out.
\<close>

fun Worker ::
  "nat \<Rightarrow> (nat \<Rightarrow> int) \<Rightarrow> (KeyValue list \<Rightarrow> KeyValue list) \<Rightarrow> mapf \<Rightarrow> reducef \<Rightarrow> Master \<Rightarrow> files \<Rightarrow>
   (Master \<times> files) res option" where
  "Worker 0 clock srt mapf reducef m fs = None"
| "Worker (Suc fuel) clock srt mapf reducef m fs =
     (case AskTask (clock fuel) m of
        Inl e \<Rightarrow> Some (Inl e)
      | Inr (m1, taskInfo) \<Rightarrow>
          if State taskInfo = TaskMap
          then (case bind_res (workerMap mapf taskInfo fs) (\<lambda>fs1. bind_res (TaskDone taskInfo m1) (\<lambda>m2. Inr (m2, fs1))) of
                  Inl e \<Rightarrow> Some (Inl e)
                | Inr (m2, fs1) \<Rightarrow> Worker fuel clock srt mapf reducef m2 fs1)
          else if State taskInfo = TaskReduce
          then (case bind_res (workerReduce srt reducef taskInfo fs) (\<lambda>fs1. bind_res (TaskDone taskInfo m1) (\<lambda>m2. Inr (m2, fs1))) of
                  Inl e \<Rightarrow> Some (Inl e)
                | Inr (m2, fs1) \<Rightarrow> Worker fuel clock srt mapf reducef m2 fs1)
          else if State taskInfo = TaskWait then Worker fuel clock srt mapf reducef m1 fs
          else if State taskInfo = TaskEnd then Some (Inr (m1, fs))
          else Some (Inl (Panic ''Invalid Task state'')))"

subsection \<open>File names\<close>

lemma takeWhile_digits: "\<not> is_digit c \<Longrightarrow> takeWhile is_digit (digits n @ c # s) = digits n"
  by (simp add: takeWhile_append digits_are_digits)

lemma inter_name_inject:
  "inter_name (int i) (int p) = inter_name (int i') (int p') \<longleftrightarrow> i = i' \<and> p = p'"
proof
  assume "inter_name (int i) (int p) = inter_name (int i') (int p')"
  then have e: "digits i @ CHR ''-'' # digits p = digits i' @ CHR ''-'' # digits p'"
    by (simp add: inter_name_def)
  have "\<not> is_digit (CHR ''-'')" by (simp add: is_digit_def)
  then have "digits i = digits i'" using arg_cong [OF e, of "takeWhile is_digit"] takeWhile_digits by simp
  then show "i = i' \<and> p = p'" using e by simp
qed simp

lemma out_name_inject: "out_name (int p) = out_name (int p') \<longleftrightarrow> p = p'"
  by (simp add: out_name_def)

lemma names_mr: "take 3 (inter_name i p) = ''mr-''" "take 3 (out_name p) = ''mr-''"
  by (simp_all add: inter_name_def out_name_def)

lemma out_inter: "out_name p \<noteq> inter_name (int i) p'"
proof
  assume e: "out_name p = inter_name (int i) p'"
  obtain c s where d: "digits i = c # s" by (cases "digits i") auto
  have "is_digit c" by (rule digits_are_digits [of c i]) (simp add: d)
  moreover have "c = CHR ''o''" using e d by (simp add: out_name_def inter_name_def)
  ultimately show False by (simp add: is_digit_def)
qed

subsection \<open>The map task\<close>

definition part_data :: "int \<Rightarrow> int \<Rightarrow> KeyValue list \<Rightarrow> string" where
  "part_data nReduce p kvs = concat (map json_encode (filter (in_part nReduce p) kvs))"

lemma part_of_bounds: "0 < n \<Longrightarrow> 0 \<le> part_of n k \<and> part_of n k < n"
  by (simp add: part_of_def)

lemma partition_loop_ok:
  assumes "0 < n" and "length outs = nat n"
  shows "partition_loop n kvs outs =
    Inr (map (\<lambda>p. outs ! p @ part_data n (int p) kvs) [0..<nat n])"
  using assms(2)
proof (induction kvs arbitrary: outs)
  case Nil
  then show ?case by (simp add: part_data_def) (metis map_nth)
next
  case (Cons kv kvs)
  let ?o = "part_of n (Key kv)"
  have o: "0 \<le> ?o" "?o < n" using part_of_bounds [OF assms(1)] by simp_all
  have m: "go_mod (ihash (Key kv)) n = Inr ?o"
    using go_mod_nonneg [of "ihash (Key kv)" n] ihash_bounds [of "Key kv"] assms(1) by (simp add: part_of_def)
  let ?outs = "outs[nat ?o := outs ! nat ?o @ json_encode kv]"
  have len: "go_len outs = n" using Cons.prems assms(1) by (simp add: go_len_def)
  have "partition_loop n (kv # kvs) outs = partition_loop n kvs ?outs"
    using o len by (simp add: m go_index_ok go_update_ok)
  also have "\<dots> = Inr (map (\<lambda>p. ?outs ! p @ part_data n (int p) kvs) [0..<nat n])"
    by (rule Cons.IH) (use Cons.prems in simp)
  also have "\<dots> = Inr (map (\<lambda>p. outs ! p @ part_data n (int p) (kv # kvs)) [0..<nat n])"
    using Cons.prems o by (auto simp: part_data_def in_part_def nth_list_update)
  finally show ?case .
qed

lemma rename_loop_other:
  "(\<And>p. name \<noteq> inter_name i (int p)) \<Longrightarrow> rename_loop i outs fs name = fs name"
proof -
  assume a: "\<And>p. name \<noteq> inter_name i (int p)"
  have "fold (\<lambda>q fs. fs(inter_name i (int q) \<mapsto> outs ! q)) ps fs name = fs name" for ps fs
    using a by (induction ps arbitrary: fs) auto
  then show ?thesis by (simp add: rename_loop_def)
qed

lemma rename_loop_own:
  assumes "p < length outs"
  shows "rename_loop (int i) outs fs (inter_name (int i) (int p)) = Some (outs ! p)"
proof -
  have "fold (\<lambda>q fs. fs(inter_name (int i) (int q) \<mapsto> outs ! q)) ps fs (inter_name (int i) (int p)) =
      (if p \<in> set ps then Some (outs ! p) else fs (inter_name (int i) (int p)))" for ps fs
    by (induction ps arbitrary: fs) (auto simp: inter_name_inject)
  then show ?thesis using assms by (simp add: rename_loop_def)
qed

text \<open>A map task writes exactly its row of intermediate files.\<close>

lemma workerMap_ok:
  assumes "fs (FileName t) = Some content" and "0 < NReduce t" and "FileIndex t = int i"
  obtains fs' where "workerMap mapf t fs = Inr fs'"
    and "\<And>p. p < nat (NReduce t) \<Longrightarrow>
      fs' (inter_name (int i) (int p)) = Some (part_data (NReduce t) (int p) (mapf (FileName t) content))"
    and "\<And>name. (\<And>p. name \<noteq> inter_name (int i) (int p)) \<Longrightarrow> fs' name = fs name"
proof -
  let ?outs = "map (\<lambda>p. [] @ part_data (NReduce t) (int p) (mapf (FileName t) content)) [0..<nat (NReduce t)]"
  have "partition_loop (NReduce t) (mapf (FileName t) content) (replicate (nat (NReduce t)) []) = Inr ?outs"
    using partition_loop_ok [OF assms(2), of "replicate (nat (NReduce t)) []"] by (simp cong: map_cong)
  then have "workerMap mapf t fs = Inr (rename_loop (int i) ?outs fs)"
    using assms by (simp add: workerMap_def Let_def)
  then show ?thesis using that rename_loop_own [of _ ?outs i fs] rename_loop_other [of _ "int i" ?outs fs] by simp
qed

subsection \<open>The reduce task\<close>

lemma read_loop_ok:
  assumes "\<forall>i \<in> set is. fs (inter_name (int i) p) = Some (part_data n p (kvs i))"
  shows "fold_res (read_loop p fs) is acc = Inr (acc @ filter (in_part n p) (concat (map kvs is)))"
  using assms
  by (induction "is" arbitrary: acc) (simp_all add: read_loop_def part_data_def decode_loop_encode)

lemma workerReduce_ok:
  assumes "key_sort srt" and "order_blind reducef"
    and "\<forall>i < nat (NFiles t). fs (inter_name (int i) (PartIndex t)) = Some (part_data n (PartIndex t) (kvs i))"
  shows "workerReduce srt reducef t fs =
    Inr (fs(out_name (PartIndex t) \<mapsto>
      concat (output_lines reducef (filter (in_part n (PartIndex t)) (concat (map kvs [0..<nat (NFiles t)]))))))"
  using read_loop_ok [of "[0..<nat (NFiles t)]" fs "PartIndex t" n kvs "[]"] assms(3)
    key_sort.reduce_output [OF assms(1,2)]
  by (simp add: workerReduce_def)


subsection \<open>One round of the loop\<close>

lemma ask_map:
  assumes "tasks (reduceTaskQueuing m) = []" and "tasks (mapTaskQueuing m) = ts @ [t]"
  obtains m1 where "AskTask now m = Inr (m1, SetNow now t)" and "tasks (mapTaskQueuing m1) = ts"
    and "tasks (mapTaskRunning m1) = tasks (mapTaskRunning m) @ [SetNow now t]"
    and "reduceTaskQueuing m1 = reduceTaskQueuing m" and "reduceTaskRunning m1 = reduceTaskRunning m"
    and "filenames m1 = filenames m"
  using assms Pop_ok [of "mapTaskQueuing m"] that
  by (fastforce simp: AskTask_def Size_pos Let_def)

lemma ask_reduce:
  assumes "tasks (reduceTaskQueuing m) = ts @ [t]"
  obtains m1 where "AskTask now m = Inr (m1, SetNow now t)" and "tasks (reduceTaskQueuing m1) = ts"
    and "tasks (reduceTaskRunning m1) = tasks (reduceTaskRunning m) @ [SetNow now t]"
    and "mapTaskQueuing m1 = mapTaskQueuing m" and "mapTaskRunning m1 = mapTaskRunning m"
    and "filenames m1 = filenames m"
  using assms Pop_ok [of "reduceTaskQueuing m"] that
  by (fastforce simp: AskTask_def Size_pos Let_def)

text \<open>What the master and the directory look like after the map tasks \<open>k\<close> and up are done, and
  after the reduce tasks \<open>k\<close> and up are done. \<open>fs0\<close> is the directory at the start.\<close>

definition pairs_of :: "mapf \<Rightarrow> string list \<Rightarrow> files \<Rightarrow> nat \<Rightarrow> KeyValue list" where
  "pairs_of mapf ns fs0 i = mapf (ns ! i) (the (fs0 (ns ! i)))"

definition map_phase :: "mapf \<Rightarrow> string list \<Rightarrow> int \<Rightarrow> files \<Rightarrow> nat \<Rightarrow> Master \<Rightarrow> files \<Rightarrow> bool" where
  "map_phase mapf ns n fs0 k m fs \<longleftrightarrow>
     filenames m = ns \<and> k \<le> length ns \<and> length (tasks (mapTaskQueuing m)) = k \<and>
     (\<forall>i < k. map_task ns n (tasks (mapTaskQueuing m) ! i) \<and> FileIndex (tasks (mapTaskQueuing m) ! i) = int i) \<and>
     tasks (mapTaskRunning m) = [] \<and> tasks (reduceTaskQueuing m) = [] \<and> tasks (reduceTaskRunning m) = [] \<and>
     (\<forall>f \<in> set ns. fs f = fs0 f) \<and>
     (\<forall>i < length ns. k \<le> i \<longrightarrow> (\<forall>p < nat n.
        fs (inter_name (int i) (int p)) = Some (part_data n (int p) (pairs_of mapf ns fs0 i))))"

definition part_output :: "mapf \<Rightarrow> reducef \<Rightarrow> string list \<Rightarrow> int \<Rightarrow> files \<Rightarrow> nat \<Rightarrow> string" where
  "part_output mapf reducef ns n fs0 p =
     concat (output_lines reducef (filter (in_part n (int p)) (concat (map (pairs_of mapf ns fs0) [0..<length ns]))))"

definition reduce_phase :: "mapf \<Rightarrow> reducef \<Rightarrow> string list \<Rightarrow> int \<Rightarrow> files \<Rightarrow> nat \<Rightarrow> Master \<Rightarrow> files \<Rightarrow> bool" where
  "reduce_phase mapf reducef ns n fs0 k m fs \<longleftrightarrow>
     filenames m = ns \<and> k \<le> nat n \<and> length (tasks (reduceTaskQueuing m)) = k \<and>
     (\<forall>i < k. reduce_task ns n (tasks (reduceTaskQueuing m) ! i) \<and> PartIndex (tasks (reduceTaskQueuing m) ! i) = int i) \<and>
     tasks (mapTaskRunning m) = [] \<and> tasks (mapTaskQueuing m) = [] \<and> tasks (reduceTaskRunning m) = [] \<and>
     (\<forall>i < length ns. \<forall>p < nat n.
        fs (inter_name (int i) (int p)) = Some (part_data n (int p) (pairs_of mapf ns fs0 i))) \<and>
     (\<forall>p < nat n. k \<le> p \<longrightarrow> fs (out_name (int p)) = Some (part_output mapf reducef ns n fs0 p))"

definition job_files :: "string list \<Rightarrow> files \<Rightarrow> bool" where
  "job_files ns fs \<longleftrightarrow> (\<forall>f \<in> set ns. fs f \<noteq> None \<and> take 3 f \<noteq> ''mr-'')"

lemma map_phase_files:
  assumes jf: "job_files ns fs0" and n: "0 < n" and ph: "map_phase mapf ns n fs0 (Suc k) m fs"
    and t: "map_task ns n t" "FileIndex t = int k"
  obtains fs1 where "workerMap mapf t fs = Inr fs1" and "\<forall>f \<in> set ns. fs1 f = fs0 f"
    and "\<forall>i < length ns. k \<le> i \<longrightarrow> (\<forall>p < nat n.
        fs1 (inter_name (int i) (int p)) = Some (part_data n (int p) (pairs_of mapf ns fs0 i)))"
proof -
  have k: "k < length ns" and fs: "\<forall>f \<in> set ns. fs f = fs0 f"
    using ph by (simp_all add: map_phase_def)
  have nm: "FileName t = ns ! k" "NReduce t = n" using t k by (simp_all add: map_task_def)
  have c: "fs (FileName t) = Some (the (fs0 (ns ! k)))" using jf fs k nm(1) by (simp add: job_files_def)
  obtain fs1 where w: "workerMap mapf t fs = Inr fs1"
      "\<And>p. p < nat n \<Longrightarrow> fs1 (inter_name (int k) (int p)) = Some (part_data n (int p) (pairs_of mapf ns fs0 k))"
      "\<And>name. (\<And>p. name \<noteq> inter_name (int k) (int p)) \<Longrightarrow> fs1 name = fs name"
    using workerMap_ok [of fs t "the (fs0 (ns ! k))" k mapf, OF c] n nm t(2) unfolding pairs_of_def by metis
  have "fs1 f = fs0 f" if "f \<in> set ns" for f
  proof -
    have "f \<noteq> inter_name (int k) (int p)" for p using jf that names_mr(1) by (auto simp: job_files_def)
    then show ?thesis using w(3) fs that by simp
  qed
  moreover have "fs1 (inter_name (int i) (int p)) = Some (part_data n (int p) (pairs_of mapf ns fs0 i))"
    if "i < length ns" "k \<le> i" "p < nat n" for i p
  proof (cases "i = k")
    case True
    then show ?thesis using w(2) that by simp
  next
    case False
    then have "fs1 (inter_name (int i) (int p)) = fs (inter_name (int i) (int p))"
      by (intro w(3)) (simp add: inter_name_inject)
    then show ?thesis using ph that False by (simp add: map_phase_def)
  qed
  ultimately show ?thesis using that w(1) by blast
qed

lemma map_phase_step:
  assumes jf: "job_files ns fs0" and n: "0 < n" and ph: "map_phase mapf ns n fs0 (Suc k) m fs"
  obtains m1 t fs1 m2 where "AskTask now m = Inr (m1, t)" and "State t = TaskMap"
    and "workerMap mapf t fs = Inr fs1" and "TaskDone t m1 = Inr m2"
    and "if k = 0 then reduce_phase mapf reducef ns n fs0 (nat n) m2 fs1
         else map_phase mapf ns n fs0 k m2 fs1"
proof -
  let ?q = "tasks (mapTaskQueuing m)"
  let ?u = "?q ! k"
  have q: "length ?q = Suc k" "?q = take k ?q @ [?u]"
    using ph take_Suc_conv_app_nth [of k ?q] by (simp_all add: map_phase_def)
  have u: "map_task ns n ?u" "FileIndex ?u = int k" using ph by (simp_all add: map_phase_def)
  obtain m1 where m1: "AskTask now m = Inr (m1, SetNow now ?u)" "tasks (mapTaskQueuing m1) = take k ?q"
      "tasks (mapTaskRunning m1) = tasks (mapTaskRunning m) @ [SetNow now ?u]"
      "reduceTaskQueuing m1 = reduceTaskQueuing m" "reduceTaskRunning m1 = reduceTaskRunning m"
      "filenames m1 = filenames m"
    using ask_map [of m "take k ?q" ?u now] ph q(2) by (auto simp: map_phase_def)
  obtain fs1 where w: "workerMap mapf (SetNow now ?u) fs = Inr fs1" and in1: "\<forall>f \<in> set ns. fs1 f = fs0 f"
    and int1: "\<forall>i < length ns. k \<le> i \<longrightarrow> (\<forall>p < nat n.
        fs1 (inter_name (int i) (int p)) = Some (part_data n (int p) (pairs_of mapf ns fs0 i)))"
    using map_phase_files [OF jf n ph, of "SetNow now ?u"] u by auto
  have st: "State ?u = TaskMap" "PartIndex ?u = 0" "NReduce ?u = n" using u(1) by (simp_all add: map_task_def)
  define m2 where "m2 = m1\<lparr>mapTaskRunning := RemoveTask (mapTaskRunning m1) (int k) 0\<rparr>"
  have run: "tasks (mapTaskRunning m2) = []"
    using ph u st by (simp add: m2_def m1 map_phase_def)
  have td: "TaskDone (SetNow now ?u) m1 = Inr (if k = 0 then createReduceTask (SetNow now ?u) m2 else m2)"
    using st u run m1(2) q(1) 
    unfolding TaskDone_def Let_def m2_def Size_zero by (cases "k = 0") auto
  have f2: "filenames m2 = ns" using ph m1 by (simp add: m2_def map_phase_def)
  have q2: "tasks (mapTaskQueuing m2) = take k ?q" "tasks (reduceTaskQueuing m2) = []"
      "tasks (reduceTaskRunning m2) = []"
    using m1 ph by (simp_all add: m2_def map_phase_def)
  let ?m3 = "createReduceTask (SetNow now ?u) m2"
  have rq: "tasks (reduceTaskQueuing ?m3) = map (\<lambda>i. new_reduce_task m2 (int i)) [0..<nat n]"
    using q2 st by simp
  have "reduce_phase mapf reducef ns n fs0 (nat n) ?m3 fs1" if "k = 0"
    unfolding reduce_phase_def rq
    using new_reduce_task_ok [of _ n m2] f2 run q2 int1 that by (simp add: new_reduce_task_def)
  moreover have "map_phase mapf ns n fs0 k m2 fs1"
    unfolding map_phase_def q2 using ph run in1 int1 f2 q(1) by (simp add: map_phase_def)
  ultimately show ?thesis using that m1(1) w td st(1) by (cases "k = 0") auto
qed


lemma reduce_phase_step:
  assumes ks: "key_sort srt" and ob: "order_blind reducef" and n: "0 < n"
    and ph: "reduce_phase mapf reducef ns n fs0 (Suc k) m fs"
  obtains m1 t fs1 m2 where "AskTask now m = Inr (m1, t)" and "State t = TaskReduce"
    and "workerReduce srt reducef t fs = Inr fs1" and "TaskDone t m1 = Inr m2"
    and "reduce_phase mapf reducef ns n fs0 k m2 fs1"
proof -
  let ?q = "tasks (reduceTaskQueuing m)"
  let ?u = "?q ! k"
  have q: "length ?q = Suc k" "?q = take k ?q @ [?u]"
    using ph take_Suc_conv_app_nth [of k ?q] by (simp_all add: reduce_phase_def)
  have u: "reduce_task ns n ?u" "PartIndex ?u = int k" and k: "k < nat n"
    using ph by (simp_all add: reduce_phase_def)
  have st: "State ?u = TaskReduce" "FileIndex ?u = 0" "NFiles ?u = go_len ns"
    using u(1) by (simp_all add: reduce_task_def)
  obtain m1 where m1: "AskTask now m = Inr (m1, SetNow now ?u)" "tasks (reduceTaskQueuing m1) = take k ?q"
      "tasks (reduceTaskRunning m1) = tasks (reduceTaskRunning m) @ [SetNow now ?u]"
      "mapTaskQueuing m1 = mapTaskQueuing m" "mapTaskRunning m1 = mapTaskRunning m"
      "filenames m1 = filenames m"
    using ask_reduce [of m "take k ?q" ?u now] q(2) by auto
  let ?fs1 = "fs(out_name (int k) \<mapsto> part_output mapf reducef ns n fs0 k)"
  have w: "workerReduce srt reducef (SetNow now ?u) fs = Inr ?fs1"
    using workerReduce_ok [OF ks ob, of "SetNow now ?u" fs n "pairs_of mapf ns fs0"] ph u st k
    by (simp add: reduce_phase_def part_output_def go_len_def)
  define m2 where "m2 = m1\<lparr>reduceTaskRunning := RemoveTask (reduceTaskRunning m1) 0 (int k)\<rparr>"
  have td: "TaskDone (SetNow now ?u) m1 = Inr m2"
    using st u by (simp add: TaskDone_def m2_def)
  have q2: "tasks (reduceTaskQueuing m2) = take k ?q" "tasks (reduceTaskRunning m2) = []"
      "tasks (mapTaskQueuing m2) = []" "tasks (mapTaskRunning m2) = []" "filenames m2 = ns"
    using m1 ph st u by (simp_all add: m2_def reduce_phase_def)
  have "?fs1 (inter_name (int i) (int p)) = fs (inter_name (int i) (int p))" for i p
    using out_inter [of "int k" i "int p"] by simp
  then have "reduce_phase mapf reducef ns n fs0 k m2 ?fs1"
    unfolding reduce_phase_def q2
    using ph q(1) k by (auto simp: reduce_phase_def out_name_inject)
  then show ?thesis using that m1(1) w td st(1) by simp
qed

text \<open>The last round: every queue is empty, the worker is told to stop.\<close>

lemma ask_end:
  assumes "reduce_phase mapf reducef ns n fs0 0 m fs"
  shows "AskTask now m = Inr (m\<lparr>isDone := True\<rparr>, zero_TaskInfo\<lparr>State := TaskEnd\<rparr>)"
  using assms by (simp add: reduce_phase_def AskTask_def Size_def)

lemma Worker_reduces:
  assumes ks: "key_sort srt" and ob: "order_blind reducef" and n: "0 < n"
  shows "reduce_phase mapf reducef ns n fs0 k m fs \<Longrightarrow> k < fuel \<Longrightarrow>
    \<exists>m' fs'. Worker fuel clock srt mapf reducef m fs = Some (Inr (m', fs')) \<and> Done m' \<and>
      reduce_phase mapf reducef ns n fs0 0 m' fs'"
proof (induction k arbitrary: m fs fuel)
  case 0
  then obtain f where f: "fuel = Suc f" by (cases fuel) auto
  have "reduce_phase mapf reducef ns n fs0 0 (m\<lparr>isDone := True\<rparr>) fs"
    using "0.prems" by (simp add: reduce_phase_def)
  then show ?case using ask_end [OF "0.prems"(1)] f by (simp add: Done_def)
next
  case (Suc k)
  then obtain f where f: "fuel = Suc f" "k < f" by (cases fuel) auto
  obtain m1 t fs1 m2 where r: "AskTask (clock f) m = Inr (m1, t)" "State t = TaskReduce"
    "workerReduce srt reducef t fs = Inr fs1" "TaskDone t m1 = Inr m2"
    and ph: "reduce_phase mapf reducef ns n fs0 k m2 fs1"
    by (rule reduce_phase_step [OF ks ob n Suc.prems(1), where now = "clock f"])
  show ?case using Suc.IH [OF ph f(2)] by (simp add: f(1) r)
qed

lemma Worker_maps:
  assumes ks: "key_sort srt" and ob: "order_blind reducef" and n: "0 < n" and jf: "job_files ns fs0"
  shows "map_phase mapf ns n fs0 (Suc k) m fs \<Longrightarrow> Suc k + nat n < fuel \<Longrightarrow>
    \<exists>m' fs'. Worker fuel clock srt mapf reducef m fs = Some (Inr (m', fs')) \<and> Done m' \<and>
      reduce_phase mapf reducef ns n fs0 0 m' fs'"
proof (induction k arbitrary: m fs fuel)
  case 0
  then obtain f where f: "fuel = Suc f" "nat n < f" by (cases fuel) auto
  obtain m1 t fs1 m2 where r: "AskTask (clock f) m = Inr (m1, t)" "State t = TaskMap"
    "workerMap mapf t fs = Inr fs1" "TaskDone t m1 = Inr m2"
    and ph: "if (0::nat) = 0 then reduce_phase mapf reducef ns n fs0 (nat n) m2 fs1 else map_phase mapf ns n fs0 0 m2 fs1"
    by (rule map_phase_step [OF jf n "0.prems"(1), where now = "clock f" and reducef = reducef])
  then show ?case using Worker_reduces [OF ks ob n, of mapf ns fs0 "nat n" m2 fs1 f clock] f by simp
next
  case (Suc k)
  then obtain f where f: "fuel = Suc f" "Suc k + nat n < f" by (cases fuel) auto
  obtain m1 t fs1 m2 where r: "AskTask (clock f) m = Inr (m1, t)" "State t = TaskMap"
    "workerMap mapf t fs = Inr fs1" "TaskDone t m1 = Inr m2"
    and ph: "if Suc k = 0 then reduce_phase mapf reducef ns n fs0 (nat n) m2 fs1 else map_phase mapf ns n fs0 (Suc k) m2 fs1"
    by (rule map_phase_step [OF jf n Suc.prems(1), where now = "clock f" and reducef = reducef])
  then show ?case using Suc.IH [of m2 fs1 f] f by simp
qed

lemma MakeMaster_phase: "map_phase mapf ns n fs0 (length ns) (MakeMaster clock ns n) fs0"
  by (simp add: map_phase_def MakeMaster_tasks map_task_def go_len_def)

lemma seq_read_ok:
  assumes "\<forall>f \<in> set ns. fs f \<noteq> None"
  shows "fold_res (seq_read mapf fs) ns acc = Inr (acc @ concat (map (pairs_of mapf ns fs) [0..<length ns]))"
proof -
  have "fold_res (seq_read mapf fs) ns acc = Inr (acc @ concat (map (\<lambda>f. mapf f (the (fs f))) ns))"
    using assms by (induction ns arbitrary: acc) (auto simp: seq_read_def)
  moreover have "map (pairs_of mapf ns fs) [0..<length ns] = map (\<lambda>f. mapf f (the (fs f))) ns"
    by (rule nth_equalityI) (simp_all add: pairs_of_def)
  ultimately show ?thesis by simp
qed

lemma mrsequential_ok:
  assumes "key_sort srt" and "order_blind reducef" and "\<forall>f \<in> set ns. fs f \<noteq> None"
  shows "mrsequential srt mapf reducef ns fs =
    Inr (fs(''mr-out-0'' \<mapsto>
      concat (output_lines reducef (concat (map (pairs_of mapf ns fs) [0..<length ns])))))"
  using seq_read_ok [OF assms(3), of mapf "[]"] key_sort.reduce_output [OF assms(1,2)]
  by (simp add: mrsequential_def)

end
