(* ===== verification/MR_Apps.thy ===== *)
theory MR_Apps
  imports MR_Run
begin

section \<open>The MapReduce applications (mrapps/)\<close>

text \<open>
  The \<open>Map\<close> and \<open>Reduce\<close> functions of the plugins. Texts are taken to be ASCII, where a
  rune is a byte and \<open>unicode.IsLetter\<close> holds of the 52 letters. The order in which Go iterates
  over a map is a parameter, and so are random numbers, the clock, the process id and the number of
  parallel workers that the timing applications measure.
\<close>

definition IsLetter :: "char \<Rightarrow> bool" where
  "IsLetter c \<longleftrightarrow> (let n = (of_char c :: nat) in 65 \<le> n \<and> n \<le> 90 \<or> 97 \<le> n \<and> n \<le> 122)"

text \<open>\<open>strings.FieldsFunc\<close>: the maximal runs of characters that are not separators.\<close>

function FieldsFunc :: "(char \<Rightarrow> bool) \<Rightarrow> string \<Rightarrow> string list" where
  "FieldsFunc f s =
     (case dropWhile f s of
        [] \<Rightarrow> []
      | c # r \<Rightarrow> (c # takeWhile (\<lambda>x. \<not> f x) r) # FieldsFunc f (dropWhile (\<lambda>x. \<not> f x) r))"
  by pat_completeness auto
termination
proof (relation "measure (\<lambda>(f, s). length s)")
  show "((f, dropWhile (\<lambda>x. \<not> f x) r), (f, s)) \<in> measure (\<lambda>(f, s). length s)"
    if "dropWhile f s = c # r" for f :: "char \<Rightarrow> bool" and s c r
    using length_dropWhile_le [of f s] length_dropWhile_le [of "\<lambda>x. \<not> f x" r] that by simp
qed simp

declare FieldsFunc.simps [simp del]

fun Join :: "string list \<Rightarrow> string \<Rightarrow> string" where
  "Join [] sep = []"
| "Join [s] sep = s"
| "Join (s # t # ss) sep = s @ sep @ Join (t # ss) sep"

subsection \<open>Word count (wc.go)\<close>

definition words :: "string \<Rightarrow> string list" where
  "words contents = FieldsFunc (\<lambda>r. \<not> IsLetter r) contents"

definition wc_Map :: mapf where
  "wc_Map filename contents = map (\<lambda>w. \<lparr>Key = w, Value = ''1''\<rparr>) (words contents)"

definition wc_Reduce :: reducef where
  "wc_Reduce key values = Itoa (go_len values)"

subsection \<open>Inverted index (indexer.go)\<close>

text \<open>\<open>range_order\<close> is the order in which the words of the set come out of \<open>range m\<close>.\<close>

definition indexer_Map :: "(string list \<Rightarrow> string list) \<Rightarrow> mapf" where
  "indexer_Map range_order document value =
     map (\<lambda>w. \<lparr>Key = w, Value = document\<rparr>) (range_order (remdups (words value)))"

definition indexer_Reduce :: reducef where
  "indexer_Reduce key values =
     (let vs = sort values in Itoa (go_len vs) @ '' '' @ Join vs '','')"

subsection \<open>The crashing application (crash.go, nocrash.go)\<close>

text \<open>\<open>rr\<close> is the random number below 1000; exiting the process is an error value, the delay of
  the second branch has no effect on the result.\<close>

definition maybeCrash :: "int \<Rightarrow> unit res" where
  "maybeCrash rr = (if rr < 330 then Inl (LogFatal ''exit 1'') else if rr < 660 then Inr () else Inr ())"

definition crash_pairs :: mapf where
  "crash_pairs filename contents =
     [\<lparr>Key = ''a'', Value = filename\<rparr>, \<lparr>Key = ''b'', Value = Itoa (go_len filename)\<rparr>,
      \<lparr>Key = ''c'', Value = Itoa (go_len contents)\<rparr>, \<lparr>Key = ''d'', Value = ''xyzzy''\<rparr>]"

definition crash_Map :: "int \<Rightarrow> string \<Rightarrow> string \<Rightarrow> KeyValue list res" where
  "crash_Map rr filename contents = bind_res (maybeCrash rr) (\<lambda>_. Inr (crash_pairs filename contents))"

definition crash_join :: reducef where
  "crash_join key values = (let vv = sort values in Join vv '' '')"

definition crash_Reduce :: "int \<Rightarrow> string \<Rightarrow> string list \<Rightarrow> string res" where
  "crash_Reduce rr key values = bind_res (maybeCrash rr) (\<lambda>_. Inr (crash_join key values))"

definition nocrash_maybeCrash :: "int \<Rightarrow> unit res" where
  "nocrash_maybeCrash rr = (if False \<and> rr < 500 then Inl (LogFatal ''exit 1'') else Inr ())"

definition nocrash_Map :: "int \<Rightarrow> string \<Rightarrow> string \<Rightarrow> KeyValue list res" where
  "nocrash_Map rr filename contents =
     bind_res (nocrash_maybeCrash rr) (\<lambda>_. Inr
       [\<lparr>Key = ''a'', Value = filename\<rparr>, \<lparr>Key = ''b'', Value = Itoa (go_len filename)\<rparr>,
        \<lparr>Key = ''c'', Value = Itoa (go_len contents)\<rparr>, \<lparr>Key = ''d'', Value = ''xyzzy''\<rparr>])"

definition nocrash_Reduce :: "int \<Rightarrow> string \<Rightarrow> string list \<Rightarrow> string res" where
  "nocrash_Reduce rr key values =
     bind_res (nocrash_maybeCrash rr) (\<lambda>_. Inr (let vv = sort values in Join vv '' ''))"

subsection \<open>The timing applications (mtiming.go, rtiming.go)\<close>

definition mtiming_Map :: "string \<Rightarrow> int \<Rightarrow> int \<Rightarrow> mapf" where
  "mtiming_Map ts pid n filename contents =
     [\<lparr>Key = ''times-'' @ Itoa pid, Value = ts\<rparr>, \<lparr>Key = ''parallel-'' @ Itoa pid, Value = Itoa n\<rparr>]"

definition mtiming_Reduce :: reducef where
  "mtiming_Reduce key values = (let vv = sort values in Join vv '' '')"

definition rtiming_Map :: mapf where
  "rtiming_Map filename contents =
     map (\<lambda>c. \<lparr>Key = [c], Value = ''1''\<rparr>) ''abcdefghij''"

definition rtiming_Reduce :: "int \<Rightarrow> reducef" where
  "rtiming_Reduce n key values = Itoa n"

subsection \<open>Reduce functions do not see the order of their values\<close>

lemma order_blindI: "(\<And>k vs. f k vs = g k (mset vs)) \<Longrightarrow> order_blind f"
  by (simp add: order_blind_def)

lemma order_blind_apps:
  "order_blind wc_Reduce" "order_blind indexer_Reduce" "order_blind crash_join"
  "order_blind mtiming_Reduce" "order_blind (rtiming_Reduce n)"
proof -
  show "order_blind wc_Reduce"
    by (rule order_blindI [where g = "\<lambda>k M. Itoa (int (size M))"]) (simp add: wc_Reduce_def go_len_def)
  show "order_blind indexer_Reduce"
    by (rule order_blindI [where g = "\<lambda>k M. Itoa (int (size M)) @ '' '' @ Join (sorted_list_of_multiset M) '',''"])
      (simp add: indexer_Reduce_def go_len_def)
  show "order_blind crash_join"
    by (rule order_blindI [where g = "\<lambda>k M. Join (sorted_list_of_multiset M) '' ''"]) (simp add: crash_join_def)
  show "order_blind mtiming_Reduce"
    by (rule order_blindI [where g = "\<lambda>k M. Join (sorted_list_of_multiset M) '' ''"]) (simp add: mtiming_Reduce_def)
  show "order_blind (rtiming_Reduce n)"
    by (simp add: order_blind_def rtiming_Reduce_def)
qed

text \<open>The words of a text: non-empty runs of letters that hold all its letters in order.\<close>

lemma FieldsFunc_letters:
  "concat (FieldsFunc f s) = filter (\<lambda>c. \<not> f c) s \<and> (\<forall>w \<in> set (FieldsFunc f s). w \<noteq> [] \<and> (\<forall>c \<in> set w. \<not> f c))"
proof (induction f s rule: FieldsFunc.induct)
  case (1 f s)
  show ?case
  proof (cases "dropWhile f s")
    case Nil
    then have "FieldsFunc f s = []" unfolding FieldsFunc.simps [of f s] by (simp only: list.case)
    then show ?thesis using Nil by (simp add: filter_empty_conv)
  next
    case (Cons c r)
    have fs: "filter (\<lambda>c. \<not> f c) s = filter (\<lambda>c. \<not> f c) (dropWhile f s)"
      by (induction s) simp_all
    have c: "\<not> f c" using hd_dropWhile [of f s] Cons by simp
    have r: "filter (\<lambda>c. \<not> f c) r = takeWhile (\<lambda>x. \<not> f x) r @ filter (\<lambda>c. \<not> f c) (dropWhile (\<lambda>x. \<not> f x) r)"
      by (induction r) simp_all
    have e: "FieldsFunc f s = (c # takeWhile (\<lambda>x. \<not> f x) r) # FieldsFunc f (dropWhile (\<lambda>x. \<not> f x) r)"
      using Cons unfolding FieldsFunc.simps [of f s] by (simp only: list.case)
    note ih = "1.IH" [OF Cons]
    have "concat (FieldsFunc f s) = c # filter (\<lambda>c. \<not> f c) r"
      unfolding e r by (simp only: concat.simps append.simps ih [THEN conjunct1])
    moreover have "filter (\<lambda>c. \<not> f c) s = c # filter (\<lambda>c. \<not> f c) r" unfolding fs Cons using c by simp
    moreover have "w \<noteq> [] \<and> (\<forall>d \<in> set w. \<not> f d)" if "w \<in> set (FieldsFunc f s)" for w
    proof (cases "w = c # takeWhile (\<lambda>x. \<not> f x) r")
      case True
      then show ?thesis using c by (auto dest: set_takeWhileD)
    next
      case False
      then have "w \<in> set (FieldsFunc f (dropWhile (\<lambda>x. \<not> f x) r))" using that e by simp
      then show ?thesis using ih by blast
    qed
    ultimately show ?thesis by simp
  qed
qed

text \<open>The pairs of word count: one per occurrence of a word.\<close>

lemma wc_values: "length (values_of w (concat (map (pairs_of wc_Map ns fs) is))) =
  count (mset (concat (map (\<lambda>i. words (the (fs (ns ! i)))) is))) w"
proof (induction "is")
  case (Cons i "is")
  have eq: "(=) w = (\<lambda>x. x = w)" by auto
  have "length (filter (\<lambda>kv. Key kv = w) (wc_Map f c)) = count (mset (words c)) w" for f c
    by (simp add: wc_Map_def filter_map comp_def count_mset count_list_eq_length_filter eq)
  then show ?case using Cons by (simp add: values_of_def pairs_of_def)
qed (simp add: values_of_def)

lemma wc_keys: "Key ` set (concat (map (pairs_of wc_Map ns fs) is)) =
  set (concat (map (\<lambda>i. words (the (fs (ns ! i)))) is))"
  by (auto simp: pairs_of_def wc_Map_def image_iff)

end
