(* ===== verification/MR_Timing.thy ===== *)
theory MR_Timing
  imports MR_Apps
begin

section \<open>How the timing applications count workers (mrapps/mtiming.go, mrapps/rtiming.go)\<close>

text \<open>
  \<open>nparallel\<close> leaves a file named after the process in the directory all workers share, counts the
  files of processes that are alive, sleeps, and removes its file. What the system does is a
  parameter: \<open>alive\<close> (whether \<open>kill(pid, 0)\<close> succeeds), \<open>readdir\<close> (the listing of the directory) and
  \<open>others\<close> (what the other processes do to the directory during the sleep). Creating the file and
  opening the directory do not fail.
\<close>

definition worker_file :: "string \<Rightarrow> int \<Rightarrow> string" where
  "worker_file phase pid = ''mr-worker-'' @ phase @ ''-'' @ Itoa pid"

subsection \<open>fmt.Sscanf with one verb for an integer\<close>

definition scan_space :: "char \<Rightarrow> bool" where
  "scan_space c \<longleftrightarrow> c = CHR '' '' \<or> c = CHR 0x09 \<or> c = CHR 0x0B \<or> c = CHR 0x0C \<or> c = CHR 0x0D"

text \<open>The verb skips spaces, takes a sign and at least one digit, and fails outside of 64 bits; what follows is not looked at.\<close>

definition scan_int :: "string \<Rightarrow> int option" where
  "scan_int s0 =
     (let s1 = dropWhile scan_space s0;
          negative = (s1 \<noteq> [] \<and> hd s1 = CHR ''-'');
          s2 = (if s1 \<noteq> [] \<and> (hd s1 = CHR ''-'' \<or> hd s1 = CHR ''+'') then tl s1 else s1);
          tok = takeWhile is_digit s2;
          i = (if negative then - int (digits_value tok) else int (digits_value tok))
      in if tok = [] \<or> i < - (2 ^ 63) \<or> 2 ^ 63 \<le> i then None else Some i)"

text \<open>\<open>Sscanf(name, pat)\<close> for \<open>pat\<close> a text and the verb \<open>%d\<close>.\<close>

definition Sscanf :: "string \<Rightarrow> string \<Rightarrow> int option" where
  "Sscanf name pat = (if take (length pat) name = pat then scan_int (drop (length pat) name) else None)"

subsection \<open>The count\<close>

fun count_alive :: "(int \<Rightarrow> bool) \<Rightarrow> string \<Rightarrow> string list \<Rightarrow> int \<Rightarrow> int" where
  "count_alive alive pat [] ret = ret"
| "count_alive alive pat (name # names) ret =
     count_alive alive pat names
       (case Sscanf name pat of
          Some xpid \<Rightarrow> if alive xpid then ret + 1 else ret
        | None \<Rightarrow> ret)"

definition nparallel :: "int \<Rightarrow> (int \<Rightarrow> bool) \<Rightarrow> (files \<Rightarrow> string list) \<Rightarrow> (files \<Rightarrow> files) \<Rightarrow> string \<Rightarrow> files \<Rightarrow> (int \<times> files) res" where
  "nparallel pid alive readdir others phase fs =
     (let myfilename = worker_file phase pid;
          fs1 = fs(myfilename \<mapsto> ''x'');
          names = take 1000000 (readdir fs1)
      in if names = [] then Inl (Panic ''EOF'')
         else let ret = count_alive alive (''mr-worker-'' @ phase @ ''-'') names 0;
                  fs2 = others fs1
              in if fs2 myfilename = None then Inl (Panic ''remove'')
                 else Inr (ret, fs2(myfilename := None)))"

text \<open>\<open>rtiming.go\<close> has its own copy.\<close>

definition rtiming_nparallel :: "int \<Rightarrow> (int \<Rightarrow> bool) \<Rightarrow> (files \<Rightarrow> string list) \<Rightarrow> (files \<Rightarrow> files) \<Rightarrow> string \<Rightarrow> files \<Rightarrow> (int \<times> files) res" where
  "rtiming_nparallel = nparallel"

text \<open>The whole functions; \<open>ts\<close> is the formatted time.\<close>

definition mtiming_Map_run :: "string \<Rightarrow> int \<Rightarrow> (int \<Rightarrow> bool) \<Rightarrow> (files \<Rightarrow> string list) \<Rightarrow> (files \<Rightarrow> files) \<Rightarrow> string \<Rightarrow> string \<Rightarrow> files \<Rightarrow>
  (KeyValue list \<times> files) res" where
  "mtiming_Map_run ts pid alive readdir others filename contents fs =
     bind_res (nparallel pid alive readdir others ''map'' fs) (\<lambda>(n, fs1). Inr (mtiming_Map ts pid n filename contents, fs1))"

definition rtiming_Reduce_run :: "int \<Rightarrow> (int \<Rightarrow> bool) \<Rightarrow> (files \<Rightarrow> string list) \<Rightarrow> (files \<Rightarrow> files) \<Rightarrow> string \<Rightarrow> string list \<Rightarrow> files \<Rightarrow>
  (string \<times> files) res" where
  "rtiming_Reduce_run pid alive readdir others key values fs =
     bind_res (rtiming_nparallel pid alive readdir others ''reduce'' fs) (\<lambda>(n, fs1). Inr (rtiming_Reduce n key values, fs1))"

subsection \<open>What is counted\<close>

lemma digit_no_space: "is_digit c \<Longrightarrow> \<not> scan_space c \<and> c \<noteq> CHR ''-'' \<and> c \<noteq> CHR ''+''"
  by (auto simp: is_digit_def scan_space_def)

lemma scan_digits:
  assumes "p < 2 ^ 63"
  shows "scan_int (digits p) = Some (int p)"
proof -
  obtain c s where d: "digits p = c # s" by (cases "digits p") auto
  have c: "\<not> scan_space c" "c \<noteq> CHR ''-''" "c \<noteq> CHR ''+''" using digit_no_space [of c] digits_are_digits [of c p] d by auto
  have t: "takeWhile is_digit (digits p) = digits p" by (simp add: takeWhile_eq_all_conv digits_are_digits)
  have "int p < 2 ^ 63" using assms by simp
  then show ?thesis using c t digits_value_digits [of p] unfolding scan_int_def Let_def d by simp
qed

lemma Sscanf_worker_file: "p < 2 ^ 63 \<Longrightarrow> Sscanf (worker_file phase (int p)) (''mr-worker-'' @ phase @ ''-'') = Some (int p)"
  by (simp add: Sscanf_def worker_file_def scan_digits)

lemma worker_file_inject: "worker_file phase (int p) = worker_file phase (int q) \<longleftrightarrow> p = q"
  by (simp add: worker_file_def)

lemma count_alive_filter:
  "count_alive alive pat names ret = ret + int (length (filter (\<lambda>nm. \<exists>p. Sscanf nm pat = Some p \<and> alive p) names))"
  by (induction names arbitrary: ret) (auto split: option.splits)

text \<open>A listing of a directory, and a directory in which only workers use the names of workers.\<close>

definition lists_dir :: "(files \<Rightarrow> string list) \<Rightarrow> files \<Rightarrow> bool" where
  "lists_dir readdir fs \<longleftrightarrow> distinct (readdir fs) \<and> set (readdir fs) = dom fs"

definition tidy :: "string \<Rightarrow> files \<Rightarrow> bool" where
  "tidy phase fs \<longleftrightarrow>
     (\<forall>nm \<in> dom fs. Sscanf nm (''mr-worker-'' @ phase @ ''-'') = None \<or> (\<exists>p < 2 ^ 63. nm = worker_file phase (int p)))"

lemma tidy_upd: "tidy phase fs \<Longrightarrow> p < 2 ^ 63 \<Longrightarrow> tidy phase (fs(worker_file phase (int p) \<mapsto> c))"
  by (auto simp: tidy_def)

lemma counted_card:
  assumes "lists_dir readdir fs" and "tidy phase fs"
  shows "count_alive alive (''mr-worker-'' @ phase @ ''-'') (readdir fs) 0 =
    int (card {p :: nat. p < 2 ^ 63 \<and> worker_file phase (int p) \<in> dom fs \<and> alive (int p)})"
proof -
  let ?pat = "''mr-worker-'' @ phase @ ''-''"
  let ?P = "{p :: nat. p < 2 ^ 63 \<and> worker_file phase (int p) \<in> dom fs \<and> alive (int p)}"
  let ?f = "\<lambda>nm. \<exists>p. Sscanf nm ?pat = Some p \<and> alive p"
  have "set (filter ?f (readdir fs)) = (\<lambda>p. worker_file phase (int p)) ` ?P"
  proof (intro equalityI subsetI)
    fix nm assume "nm \<in> set (filter ?f (readdir fs))"
    then obtain q where q: "nm \<in> dom fs" "Sscanf nm ?pat = Some q" "alive q" using assms(1) by (auto simp: lists_dir_def)
    then obtain p where p: "p < 2 ^ 63" "nm = worker_file phase (int p)" using assms(2) unfolding tidy_def by (metis option.distinct(1))
    then have "q = int p" using q(2) Sscanf_worker_file [OF p(1), of phase] by simp
    then show "nm \<in> (\<lambda>p. worker_file phase (int p)) ` ?P" using p q by auto
  next
    fix nm assume "nm \<in> (\<lambda>p. worker_file phase (int p)) ` ?P"
    then obtain p where p: "p < 2 ^ 63" "nm = worker_file phase (int p)" "nm \<in> dom fs" "alive (int p)" by auto
    then show "nm \<in> set (filter ?f (readdir fs))" using assms(1) Sscanf_worker_file [OF p(1), of phase] by (auto simp: lists_dir_def)
  qed
  moreover have "card (set (filter ?f (readdir fs))) = length (filter ?f (readdir fs))" using assms(1) by (intro distinct_card) (simp add: lists_dir_def)
  moreover have "inj_on (\<lambda>p. worker_file phase (int p)) ?P" by (auto simp: inj_on_def worker_file_inject)
  ultimately have "length (filter ?f (readdir fs)) = card ?P" by (simp only: card_image)
  then show ?thesis by (simp add: count_alive_filter)
qed

text \<open>
  \<open>nparallel\<close> counts the workers that run at the same time. In a directory where only workers
  use the names of workers, it returns how many live processes have their file there, this one
  included, whatever files dead workers left behind; it panics only when another process removes its
  file meanwhile, and otherwise leaves the directory as the others left it, without its own file.
\<close>

theorem nparallel_counts:
  assumes "fs1 = fs(worker_file phase (int pid) \<mapsto> ''x'')" and "lists_dir readdir fs1" and "length (readdir fs1) \<le> 1000000"
    and "tidy phase fs" and "pid < 2 ^ 63" and "alive (int pid)"
  shows "nparallel (int pid) alive readdir others phase fs =
    (if others fs1 (worker_file phase (int pid)) = None then Inl (Panic ''remove'')
     else Inr (int (card (insert pid {p :: nat. p < 2 ^ 63 \<and> worker_file phase (int p) \<in> dom fs \<and> alive (int p)})),
               (others fs1)(worker_file phase (int pid) := None)))"
proof -
  have "tidy phase fs1" using tidy_upd [OF assms(4,5)] assms(1) by simp
  note count = counted_card [OF assms(2) this, of alive]
  have "{p :: nat. p < 2 ^ 63 \<and> worker_file phase (int p) \<in> dom fs1 \<and> alive (int p)} =
    insert pid {p :: nat. p < 2 ^ 63 \<and> worker_file phase (int p) \<in> dom fs \<and> alive (int p)}"
    using assms(1,5,6) by (auto simp: worker_file_inject)
  moreover have "readdir fs1 \<noteq> []" using assms(1,2) by (auto simp: lists_dir_def)
  moreover have "take 1000000 (readdir fs1) = readdir fs1" using assms(3) by simp
  ultimately show ?thesis using count by (simp add: nparallel_def Let_def flip: assms(1))
qed

theorem nparallel_counts_witness:
  "nparallel 7 (\<lambda>p. p = 7 \<or> p = 42) (\<lambda>_. [''pg.txt'', worker_file ''map'' 7, worker_file ''map'' 42, worker_file ''map'' 13]) id ''map''
     [''pg.txt'' \<mapsto> ''t'', worker_file ''map'' 42 \<mapsto> ''x'', worker_file ''map'' 13 \<mapsto> ''x''] =
   Inr (2, [''pg.txt'' \<mapsto> ''t'', worker_file ''map'' 42 \<mapsto> ''x'', worker_file ''map'' 13 \<mapsto> ''x''])"
proof -
  let ?fs = "[''pg.txt'' \<mapsto> ''t'', worker_file ''map'' (int 42) \<mapsto> ''x'', worker_file ''map'' (int 13) \<mapsto> ''x'']"
  let ?fs1 = "?fs(worker_file ''map'' (int 7) \<mapsto> ''x'')"
  let ?rd = "\<lambda>_ :: files. [''pg.txt'', worker_file ''map'' (int 7), worker_file ''map'' (int 42), worker_file ''map'' (int 13)]"
  have pg: "worker_file ''map'' (int p) \<noteq> ''pg.txt''" for p by (simp add: worker_file_def)
  have ne: "worker_file ''map'' 7 \<noteq> worker_file ''map'' 42" "worker_file ''map'' 7 \<noteq> worker_file ''map'' 13" "worker_file ''map'' 42 \<noteq> worker_file ''map'' 13"
    using worker_file_inject [of "''map''" 7 42] worker_file_inject [of "''map''" 7 13] worker_file_inject [of "''map''" 42 13] by simp_all
  have "''pg.txt'' \<noteq> worker_file ''map'' n" for n by (simp add: worker_file_def)
  then have "lists_dir ?rd ?fs1" using ne by (auto simp: lists_dir_def)
  moreover have "tidy ''map'' ?fs" by (intro tidy_upd) (simp_all add: tidy_def Sscanf_def)
  moreover have "{p :: nat. p < 2 ^ 63 \<and> worker_file ''map'' (int p) \<in> dom ?fs \<and> (int p = 7 \<or> int p = 42)} = {42}"
    using pg ne by (auto simp: worker_file_inject)
  moreover have "?fs (worker_file ''map'' (int 7)) = None" using pg [of 7] ne by simp
  ultimately show ?thesis
    using nparallel_counts [OF refl, of ?rd ?fs "''map''" 7 "\<lambda>p. p = 7 \<or> p = 42" id] by (simp add: fun_upd_idem)
qed

end
