(* ===== verification/MR_Results.thy ===== *)
theory MR_Results
  imports MR_Apps
begin

section \<open>What a MapReduce job computes\<close>

text \<open>The properties of workers, applications and the sequential program, with a small text as
  witness.\<close>

definition sample_files :: files where
  "sample_files = [''x'' \<mapsto> ''b a b'', ''y'' \<mapsto> ''a c'']"

lemma sample_words: "words ''b a b'' = [''b'', ''a'', ''b'']" "words ''a c'' = [''a'', ''c'']"
  by code_simp+

lemma sample_pairs: "\<forall>f \<in> set [''x'', ''y'']. \<forall>kv \<in> set (wc_Map f (the (sample_files f))). ascii_pair kv"
  by (simp add: wc_Map_def sample_files_def sample_words ascii_pair_def ascii_def)

lemma sample_ascii: "\<forall>f \<in> set [''x'', ''y'']. \<exists>c. sample_files f = Some c \<and> ascii c"
  by (simp add: sample_files_def ascii_def)

lemma sample_job_files: "job_files [''x'', ''y''] sample_files"
  by (simp add: job_files_def sample_files_def)

text \<open>
  A distributed job computes what the sequential program computes. From \<open>MakeMaster\<close> on, a
  worker that asks, works and reports in a loop comes to its end after one round per map task, one
  per reduce task and a last one; the master is then done, and the partition files hold exactly the
  lines of the sequential program's output, each in the partition its key hashes to, in the same
  order. It holds for every \<open>Map\<close> that makes ASCII pairs of these files, for every \<open>Reduce\<close> that does not depend on the order of
  the values, for any sort that meets the contract of \<open>sort.Sort\<close>, and for any clock.
\<close>

theorem worker_matches_sequential:
  assumes "key_sort srt" and "order_blind reducef" and "ns \<noteq> []" and "0 < nReduce"
    and "job_files ns fs" and "length ns + nat nReduce < fuel"
    and "\<forall>f \<in> set ns. \<forall>kv \<in> set (mapf f (the (fs f))). ascii_pair kv"
  shows "\<exists>m' fs' keys line.
    Worker fuel clock srt mapf reducef (MakeMaster clock0 ns nReduce) fs = Some (Inr (m', fs')) \<and> Done m' \<and>
    mrsequential srt mapf reducef ns fs = Inr (fs(''mr-out-0'' \<mapsto> concat (map line keys))) \<and>
    sorted keys \<and> distinct keys \<and>
    (\<forall>p < nat nReduce. fs' (out_name (int p)) =
       Some (concat (map line (filter (\<lambda>k. ihash k mod nReduce = int p) keys))))"
proof -
  let ?a = "concat (map (pairs_of mapf ns fs) [0..<length ns])"
  let ?keys = "sorted_list_of_set (Key ` set ?a)"
  let ?line = "\<lambda>k. out_line k (reducef k (values_of k ?a))"
  obtain k where k: "length ns = Suc k" using assms(3) by (cases ns) auto
  obtain m' fs' where w: "Worker fuel clock srt mapf reducef (MakeMaster clock0 ns nReduce) fs = Some (Inr (m', fs'))"
      "Done m'" "reduce_phase mapf reducef ns nReduce fs 0 m' fs'"
    using Worker_maps [OF assms(1,2,4,5), of mapf k "MakeMaster clock0 ns nReduce" fs fuel clock] MakeMaster_phase [of mapf ns nReduce fs clock0]
      k assms(6) by auto
  have s: "mrsequential srt mapf reducef ns fs = Inr (fs(''mr-out-0'' \<mapsto> concat (map ?line ?keys)))"
    using mrsequential_ok [OF assms(1,2), of ns fs mapf] assms(5) by (simp add: output_lines_def job_files_def)
  have p: "fs' (out_name (int p)) = Some (concat (map ?line (filter (\<lambda>k. ihash k mod nReduce = int p) ?keys)))"
    if "p < nat nReduce" for p
    using w(3) that by (simp add: reduce_phase_def part_output_def output_lines_part part_of_def)
  show ?thesis
    by (intro exI [of _ m'] exI [of _ fs'] exI [of _ ?keys] exI [of _ ?line]) (use w s p in simp)
qed

theorem worker_matches_sequential_witness:
  "\<exists>m' fs'. Worker 5 (\<lambda>_. 0) (sort_key Key) wc_Map wc_Reduce (MakeMaster (\<lambda>_. 0) [''x'', ''y''] 2) sample_files =
     Some (Inr (m', fs')) \<and> Done m'"
  using worker_matches_sequential [of "sort_key Key" wc_Reduce "[''x'', ''y'']" 2 sample_files 5 wc_Map "\<lambda>_. 0" "\<lambda>_. 0"]
    by_key.key_sort_axioms order_blind_apps(1) sample_job_files sample_pairs by auto

text \<open>
  C18: Word count counts words. With the plugin \<open>wc.go\<close> the output has one line per word that
  occurs in the input files, the words in order, each with the number of its occurrences in all
  files together.
\<close>

theorem word_count_correct:
  assumes "key_sort srt" and "\<forall>f \<in> set ns. \<exists>c. fs f = Some c \<and> ascii c"
  shows "let ws = concat (map (\<lambda>f. words (the (fs f))) ns) in
    mrsequential srt wc_Map wc_Reduce ns fs =
      Inr (fs(''mr-out-0'' \<mapsto> concat (map (\<lambda>w. out_line w (Itoa (int (count (mset ws) w))))
        (sorted_list_of_set (set ws)))))"
proof -
  have m: "map (\<lambda>i. words (the (fs (ns ! i)))) [0..<length ns] = map (\<lambda>f. words (the (fs f))) ns"
    by (rule nth_equalityI) simp_all
  have "\<forall>f \<in> set ns. fs f \<noteq> None" using assms(2) by auto
  then show ?thesis
    using mrsequential_ok [OF assms(1) order_blind_apps(1), of ns fs wc_Map]
    by (simp only: Let_def output_lines_def wc_keys m wc_Reduce_def go_len_def wc_values)
qed

theorem word_count_correct_witness:
  "mrsequential (sort_key Key) wc_Map wc_Reduce [''x'', ''y''] sample_files =
     Inr (sample_files(''mr-out-0'' \<mapsto> concat (map (\<lambda>w. out_line w (Itoa (int (count (mset [''b'', ''a'', ''b'', ''a'', ''c'']) w))))
        (sorted_list_of_set {''a'', ''b'', ''c''}))))"
proof -
  have "concat (map (\<lambda>f. words (the (sample_files f))) [''x'', ''y'']) = [''b'', ''a'', ''b'', ''a'', ''c'']"
    by (simp add: sample_files_def sample_words)
  moreover have "set [''b'', ''a'', ''b'', ''a'', ''c''] = {''a'', ''b'', ''c''}" by auto
  ultimately show ?thesis
    using word_count_correct [OF by_key.key_sort_axioms sample_ascii] by (simp only: Let_def)
qed

definition docs_with :: "string list \<Rightarrow> files \<Rightarrow> string \<Rightarrow> string list" where
  "docs_with ns fs w = filter (\<lambda>d. w \<in> set (words (the (fs d)))) ns"

lemma indexer_values:
  assumes "\<And>xs. mset (rng xs) = mset xs"
  shows "values_of w (concat (map (pairs_of (indexer_Map rng) ns fs) is)) =
    filter (\<lambda>d. w \<in> set (words (the (fs d)))) (map ((!) ns) is)"
proof (induction "is")
  case (Cons i "is")
  let ?ws = "rng (remdups (words (the (fs (ns ! i)))))"
  have d: "distinct ?ws" "set ?ws = set (words (the (fs (ns ! i))))"
    using assms [of "remdups (words (the (fs (ns ! i))))"]
    by (metis distinct_remdups mset_eq_imp_distinct_iff, metis set_mset_mset set_remdups)
  have "map Value (filter (\<lambda>kv. Key kv = w) (map (\<lambda>w. \<lparr>Key = w, Value = v\<rparr>) xs)) =
      (if w \<in> set xs then [v] else [])" if "distinct xs" for xs v
    using that by (induction xs) auto
  from this [OF d(1)] show ?case using Cons d(2)
    by (simp add: values_of_def pairs_of_def indexer_Map_def)
qed (simp add: values_of_def)

text \<open>
  The index lists each document once. With the plugin \<open>indexer.go\<close>, whatever order Go's map
  iteration takes, the line of a word is the number of input files that contain it and their names,
  sorted and separated by commas; exactly the words of the input have a line.
\<close>

theorem indexer_correct:
  assumes "key_sort srt" and "\<And>xs. mset (rng xs) = mset xs" and "\<forall>f \<in> set ns. \<exists>c. fs f = Some c \<and> ascii c"
  shows "mrsequential srt (indexer_Map rng) indexer_Reduce ns fs =
    Inr (fs(''mr-out-0'' \<mapsto> concat (map (\<lambda>w.
        let ds = docs_with ns fs w in out_line w (Itoa (go_len ds) @ '' '' @ Join (sort ds) '',''))
      (sorted_list_of_set (\<Union>d \<in> set ns. set (words (the (fs d))))))))"
proof -
  let ?a = "concat (map (pairs_of (indexer_Map rng) ns fs) [0..<length ns])"
  have v: "values_of w ?a = docs_with ns fs w" for w
    using indexer_values [OF assms(2), of w ns fs "[0..<length ns]"] by (simp add: docs_with_def map_nth)
  have st: "set (rng xs) = set xs" for xs using assms(2) by (metis set_mset_mset)
  have "Key ` set ?a = (\<Union>i \<in> {0..<length ns}. set (words (the (fs (ns ! i)))))"
    by (auto simp: pairs_of_def indexer_Map_def st image_iff intro!: bexI [of _ "_ :: nat"])
  also have "\<dots> = (\<Union>d \<in> set ns. set (words (the (fs d))))" by (force simp: in_set_conv_nth)
  finally have k: "Key ` set ?a = (\<Union>d \<in> set ns. set (words (the (fs d))))" .
  have ex: "\<forall>f \<in> set ns. fs f \<noteq> None" using assms(3) by auto
  show ?thesis
    unfolding mrsequential_ok [OF assms(1) order_blind_apps(2) ex] output_lines_def k v
    by (simp add: indexer_Reduce_def Let_def go_len_def)
qed

theorem indexer_correct_witness:
  "mrsequential (sort_key Key) (indexer_Map rev) indexer_Reduce [''y'', ''x''] sample_files =
    Inr (sample_files(''mr-out-0'' \<mapsto> concat (map (\<lambda>w.
        let ds = docs_with [''y'', ''x''] sample_files w in out_line w (Itoa (go_len ds) @ '' '' @ Join (sort ds) '',''))
      (sorted_list_of_set (\<Union>d \<in> set [''y'', ''x'']. set (words (the (sample_files d))))))))"
  using indexer_correct [OF by_key.key_sort_axioms, of rev "[''y'', ''x'']" sample_files] sample_ascii by simp

text \<open>
  Intermediate files can be read back. Decoding a file of pairs that the JSON encoder wrote
  gives these pairs in order, whatever ASCII bytes (quotes, backslashes, control characters) keys and
  values hold.
\<close>

theorem json_roundtrip: "\<forall>kv \<in> set kvs. ascii_pair kv \<Longrightarrow> decode_loop (concat (map json_encode kvs)) = kvs"
  by (rule decode_loop_encode)

theorem json_roundtrip_witness:
  "decode_loop (concat (map json_encode [\<lparr>Key = [CHR 0x22, CHR 0x0A], Value = ''<>''\<rparr>])) =
     [\<lparr>Key = [CHR 0x22, CHR 0x0A], Value = ''<>''\<rparr>]"
  by (rule json_roundtrip) (simp add: ascii_pair_def ascii_def)

text \<open>
  A map task writes its row of the intermediate files and nothing else: the file of partition
  \<open>p\<close> holds the pairs of the task whose key hashes to \<open>p\<close>, in the order \<open>Map\<close> produced
  them, every pair is in one of them, and other files are untouched. Running the task again on the
  result changes nothing, so a task given out twice does no harm. The pairs are taken to be ASCII.
\<close>

theorem workerMap_partitions:
  assumes "fs (FileName t) = Some content" and "0 < NReduce t" and "FileIndex t = int i"
    and "take 3 (FileName t) \<noteq> ''mr-''" and "\<forall>kv \<in> set (mapf (FileName t) content). ascii_pair kv"
  shows "\<exists>fs'. workerMap mapf t fs = Inr fs' \<and> workerMap mapf t fs' = Inr fs' \<and>
    (\<forall>p. 0 \<le> p \<and> p < NReduce t \<longrightarrow> (\<exists>d. fs' (inter_name (int i) p) = Some d \<and>
       decode_loop d = filter (\<lambda>kv. ihash (Key kv) mod NReduce t = p) (mapf (FileName t) content))) \<and>
    (\<forall>name. (\<forall>p. name \<noteq> inter_name (int i) p) \<longrightarrow> fs' name = fs name)"
proof -
  let ?kvs = "mapf (FileName t) content" and ?n = "NReduce t"
  let ?outs = "map (\<lambda>p. part_data ?n (int p) ?kvs) [0..<nat ?n]"
  have pl: "partition_loop ?n ?kvs (replicate (nat ?n) []) = Inr ?outs"
    using partition_loop_ok [OF assms(2), of "replicate (nat ?n) []"] by (simp cong: map_cong)
  have w: "workerMap mapf t g = Inr (rename_loop (int i) ?outs g)" if "g (FileName t) = Some content" for g
    using that assms(2,3) pl by (simp add: workerMap_def Let_def)
  let ?fs' = "rename_loop (int i) ?outs fs"
  have nm: "FileName t \<noteq> inter_name (int i) p" for p using assms(4) names_mr(1) by metis
  have fn: "?fs' (FileName t) = Some content" using rename_loop_other [of "FileName t" "int i" ?outs fs] nm assms(1) by simp
  have idem: "rename_loop (int i) ?outs ?fs' = ?fs'"
  proof
    fix name
    show "rename_loop (int i) ?outs ?fs' name = ?fs' name"
    proof (cases "\<exists>p < length ?outs. name = inter_name (int i) (int p)")
      case True
      then show ?thesis using rename_loop_own by auto
    next
      case False
      have "fold (\<lambda>q fs. fs(inter_name (int i) (int q) \<mapsto> ?outs ! q)) ps g name = g name"
        if "set ps \<subseteq> {0..<length ?outs}" for ps g
        using that False by (induction ps arbitrary: g) auto
      then show ?thesis by (simp add: rename_loop_def)
    qed
  qed
  have own: "\<exists>d. ?fs' (inter_name (int i) p) = Some d \<and> decode_loop d = filter (\<lambda>kv. ihash (Key kv) mod ?n = p) ?kvs"
    if "0 \<le> p \<and> p < ?n" for p
  proof -
    have "?fs' (inter_name (int i) p) = Some (part_data ?n p ?kvs)"
      using rename_loop_own [of "nat p" ?outs i fs] that by simp
    moreover have "in_part ?n p = (\<lambda>kv. ihash (Key kv) mod ?n = p)" by (simp add: in_part_def part_of_def fun_eq_iff)
    ultimately show ?thesis by (simp add: part_data_def decode_loop_encode)
  qed
  show ?thesis using w [of fs, OF assms(1)] w [of ?fs', OF fn] idem own rename_loop_other [of _ "int i" ?outs fs] by (intro exI [of _ ?fs']) auto
qed

definition sample_map_task :: TaskInfo where
  "sample_map_task = zero_TaskInfo\<lparr>FileName := ''x'', NReduce := 2\<rparr>"

theorem workerMap_partitions_witness:
  "\<exists>fs'. workerMap wc_Map sample_map_task sample_files = Inr fs' \<and> workerMap wc_Map sample_map_task fs' = Inr fs'"
  using workerMap_partitions [of sample_files sample_map_task "''b a b''" 0 wc_Map]
  by (auto simp: sample_map_task_def zero_TaskInfo_def sample_files_def wc_Map_def sample_words ascii_pair_def ascii_def)

end
