(* ===== verification/MR_Programs.thy ===== *)
theory MR_Programs
  imports MR_Results
begin

section \<open>Remote calls of workers, and the programs (mr/worker.go, mr/rpc.go, main/mrmaster.go, main/mrworker.go, main/mrsequential.go)\<close>

text \<open>
  \<open>call\<close> reaches the master through the package \<open>net/rpc\<close>, which is a parameter: dialing may
  fail, the call may fail, before or after the master handled it, and otherwise the reply arrives. The
  reply is left as it was when the call fails. \<open>Worker_net\<close> is the loop of \<open>Worker\<close> with such
  calls, one fate per call; \<open>Worker\<close> of theory \<open>MR_Run\<close> is the loop whose calls all succeed.
\<close>

datatype fate = Through | NoDial | LostRequest | LostReply

record ExampleArgs =
  ex_X :: int

record ExampleReply =
  ex_Y :: int

definition Example :: "ExampleArgs \<Rightarrow> ExampleReply \<Rightarrow> ExampleReply" where
  "Example args reply = reply\<lparr>ex_Y := ex_X args + 1\<rparr>"

text \<open>The result says whether the call succeeded; \<open>zero\<close> is the reply before the call.\<close>

definition mr_call :: "fate \<Rightarrow> ('m \<Rightarrow> ('m \<times> 'r) res) \<Rightarrow> 'r \<Rightarrow> 'm \<Rightarrow> (bool \<times> 'r \<times> 'm) res" where
  "mr_call f h zero m =
     (case f of
        NoDial \<Rightarrow> Inl (LogFatal ''dialing:'')
      | LostRequest \<Rightarrow> Inr (False, zero, m)
      | LostReply \<Rightarrow> bind_res (h m) (\<lambda>(m1, r). Inr (False, zero, m1))
      | Through \<Rightarrow> bind_res (h m) (\<lambda>(m1, r). Inr (True, r, m1)))"

definition CallAskTask :: "fate \<Rightarrow> int \<Rightarrow> Master \<Rightarrow> (TaskInfo \<times> Master) res" where
  "CallAskTask f now m = bind_res (mr_call f (AskTask now) zero_TaskInfo m) (\<lambda>(_, reply, m1). Inr (reply, m1))"

definition CallTaskDone :: "fate \<Rightarrow> TaskInfo \<Rightarrow> Master \<Rightarrow> (ExampleReply \<times> Master) res" where
  "CallTaskDone f taskInfo m =
     bind_res (mr_call f (\<lambda>m. bind_res (TaskDone taskInfo m) (\<lambda>m1. Inr (m1, \<lparr>ex_Y = 0\<rparr>))) \<lparr>ex_Y = 0\<rparr> m) (\<lambda>(_, reply, m1). Inr (reply, m1))"

text \<open>The result is what is printed.\<close>

definition CallExample :: "fate \<Rightarrow> Master \<Rightarrow> (string \<times> Master) res" where
  "CallExample f m =
     bind_res (mr_call f (\<lambda>m. Inr (m, Example \<lparr>ex_X = 99\<rparr> \<lparr>ex_Y = 0\<rparr>)) \<lparr>ex_Y = 0\<rparr> m) (\<lambda>(_, reply, m1). Inr (''reply.Y '' @ Itoa (ex_Y reply), m1))"

fun Worker_net ::
  "fate list \<Rightarrow> (nat \<Rightarrow> int) \<Rightarrow> (KeyValue list \<Rightarrow> KeyValue list) \<Rightarrow> mapf \<Rightarrow> reducef \<Rightarrow> Master \<Rightarrow> files \<Rightarrow> (Master \<times> files) res option" where
  "Worker_net [] clock srt mapf reducef m fs = None"
| "Worker_net (f # fates) clock srt mapf reducef m fs =
     (case CallAskTask f (clock (length fates)) m of
        Inl e \<Rightarrow> Some (Inl e)
      | Inr (taskInfo, m1) \<Rightarrow>
          if State taskInfo = TaskMap \<or> State taskInfo = TaskReduce
          then (case (if State taskInfo = TaskMap then workerMap mapf taskInfo fs else workerReduce srt reducef taskInfo fs) of
                  Inl e \<Rightarrow> Some (Inl e)
                | Inr fs1 \<Rightarrow>
                    (case fates of
                       [] \<Rightarrow> None
                     | g # fates1 \<Rightarrow>
                         (case CallTaskDone g taskInfo m1 of
                            Inl e \<Rightarrow> Some (Inl e)
                          | Inr (_, m2) \<Rightarrow> Worker_net fates1 clock srt mapf reducef m2 fs1)))
          else if State taskInfo = TaskWait then Worker_net fates clock srt mapf reducef m1 fs
          else if State taskInfo = TaskEnd then Some (Inr (m1, fs))
          else Some (Inl (Panic ''Invalid Task state'')))"

subsection \<open>The programs\<close>

text \<open>
  The master program polls \<open>Done\<close>; \<open>polls k\<close> is the master at the \<open>k\<close>-th poll, and the first
  is the one \<open>MakeMaster\<close> returns. The result is the number of polls, or \<open>None\<close> while it still polls.
\<close>

fun mrmaster_wait :: "nat \<Rightarrow> (nat \<Rightarrow> Master) \<Rightarrow> nat \<Rightarrow> nat option" where
  "mrmaster_wait 0 polls k = None"
| "mrmaster_wait (Suc fuel) polls k = (if Done (polls k) = False then mrmaster_wait fuel polls (k + 1) else Some k)"

definition mrmaster_main :: "nat \<Rightarrow> (nat \<Rightarrow> int) \<Rightarrow> (Master \<Rightarrow> nat \<Rightarrow> Master) \<Rightarrow> string list \<Rightarrow> nat option res" where
  "mrmaster_main fuel clock later args =
     (if length args < 2 then Inl (LogFatal ''exit 1'')
      else let m = MakeMaster clock (drop 1 args) 10 in Inr (mrmaster_wait fuel (later m) 0))"

text \<open>A plugin is its symbols; a symbol may have another type than the one asserted.\<close>

datatype symbol = MapSym mapf | ReduceSym reducef | OtherSym

type_synonym plugins = "string \<Rightarrow> (string \<Rightarrow> symbol option) option"

definition loadPlugin :: "plugins \<Rightarrow> string \<Rightarrow> (mapf \<times> reducef) res" where
  "loadPlugin ps filename =
     (case ps filename of
        None \<Rightarrow> Inl (LogFatal (''cannot load plugin '' @ filename))
      | Some p \<Rightarrow>
          (case p ''Map'' of
             None \<Rightarrow> Inl (LogFatal (''cannot find Map in '' @ filename))
           | Some (MapSym mapf) \<Rightarrow>
               (case p ''Reduce'' of
                  None \<Rightarrow> Inl (LogFatal (''cannot find Reduce in '' @ filename))
                | Some (ReduceSym reducef) \<Rightarrow> Inr (mapf, reducef)
                | Some _ \<Rightarrow> Inl (Panic ''interface conversion''))
           | Some _ \<Rightarrow> Inl (Panic ''interface conversion'')))"

definition mrworker_main :: "plugins \<Rightarrow> fate list \<Rightarrow> (nat \<Rightarrow> int) \<Rightarrow> (KeyValue list \<Rightarrow> KeyValue list) \<Rightarrow> string list \<Rightarrow> Master \<Rightarrow> files \<Rightarrow>
  (Master \<times> files) res option" where
  "mrworker_main ps fates clock srt args m fs =
     (if length args \<noteq> 2 then Some (Inl (LogFatal ''exit 1''))
      else case loadPlugin ps (args ! 1) of
             Inl e \<Rightarrow> Some (Inl e)
           | Inr (mapf, reducef) \<Rightarrow> Worker_net fates clock srt mapf reducef m fs)"

text \<open>The sequential program has its own copy of \<open>loadPlugin\<close>.\<close>

definition seq_loadPlugin :: "plugins \<Rightarrow> string \<Rightarrow> (mapf \<times> reducef) res" where
  "seq_loadPlugin ps filename =
     (case ps filename of
        None \<Rightarrow> Inl (LogFatal (''cannot load plugin '' @ filename))
      | Some p \<Rightarrow>
          (case p ''Map'' of
             None \<Rightarrow> Inl (LogFatal (''cannot find Map in '' @ filename))
           | Some (MapSym mapf) \<Rightarrow>
               (case p ''Reduce'' of
                  None \<Rightarrow> Inl (LogFatal (''cannot find Reduce in '' @ filename))
                | Some (ReduceSym reducef) \<Rightarrow> Inr (mapf, reducef)
                | Some _ \<Rightarrow> Inl (Panic ''interface conversion''))
           | Some _ \<Rightarrow> Inl (Panic ''interface conversion'')))"

definition mrsequential_main :: "plugins \<Rightarrow> (KeyValue list \<Rightarrow> KeyValue list) \<Rightarrow> string list \<Rightarrow> files \<Rightarrow> files res" where
  "mrsequential_main ps srt args fs =
     (if length args < 3 then Inl (LogFatal ''exit 1'')
      else bind_res (seq_loadPlugin ps (args ! 1)) (\<lambda>(mapf, reducef). mrsequential srt mapf reducef (drop 2 args) fs))"

subsection \<open>What they do\<close>

lemma CallAskTask_Through: "CallAskTask Through now m = map_sum id (\<lambda>(m1, t). (t, m1)) (AskTask now m)"
  by (cases "AskTask now m") (auto simp: CallAskTask_def mr_call_def)

lemma CallTaskDone_Through: "CallTaskDone Through t m = map_sum id (\<lambda>m1. (\<lparr>ex_Y = 0\<rparr>, m1)) (TaskDone t m)"
  by (cases "TaskDone t m") (auto simp: CallTaskDone_def mr_call_def)

text \<open>
  A worker whose calls all succeed does what \<open>Worker\<close> does, for some clock: whatever \<open>Worker\<close> returns
  with some fuel, \<open>Worker_net\<close> returns with twice as many successful calls.
\<close>

lemma Worker_clock_cong:
  assumes "\<And>i. i < fuel \<Longrightarrow> clock i = clock' i"
  shows "Worker fuel clock srt mapf reducef m fs = Worker fuel clock' srt mapf reducef m fs"
  using assms by (induction fuel arbitrary: m fs) (auto split: sum.splits)

lemma Worker_net_refines:
  assumes "2 * fuel \<le> k"
  shows "\<exists>clock'. \<forall>r. Worker fuel clock' srt mapf reducef m fs = Some r \<longrightarrow>
    Worker_net (replicate k Through) clock srt mapf reducef m fs = Some r"
  using assms
proof (induction fuel arbitrary: m fs k)
  case (Suc fuel)
  obtain k1 where k: "k = Suc (Suc k1)" "2 * fuel \<le> k1" using Suc.prems by (cases k; cases "k - 1") auto
  let ?t = "clock (Suc k1)"
  show ?case
  proof (cases "AskTask ?t m")
    case (Inl e)
    then show ?thesis by (intro exI [of _ "\<lambda>_. ?t"]) (simp add: k CallAskTask_Through)
  next
    case (Inr p)
    obtain m1 ti where p: "p = (m1, ti)" by (cases p)
    define next_run where "next_run = (if State ti = TaskWait then (m1, fs, Suc k1)
      else (case TaskDone ti m1 of Inl e \<Rightarrow> m1 | Inr m2 \<Rightarrow> m2,
            case (if State ti = TaskMap then workerMap mapf ti fs else workerReduce srt reducef ti fs) of Inl e \<Rightarrow> fs | Inr fs1 \<Rightarrow> fs1, k1))"
    obtain m2 fs2 j where n: "next_run = (m2, fs2, j)" by (cases next_run)
    have "2 * fuel \<le> j" using n k(2) by (auto simp: next_run_def split: if_splits)
    then obtain c where c: "\<And>r. Worker fuel c srt mapf reducef m2 fs2 = Some r \<Longrightarrow> Worker_net (replicate j Through) clock srt mapf reducef m2 fs2 = Some r"
      using Suc.IH by blast
    define c1 where "c1 = c(fuel := ?t)"
    have "Worker fuel c1 srt mapf reducef x y = Worker fuel c srt mapf reducef x y" for x y
      by (rule Worker_clock_cong) (simp add: c1_def)
    moreover have "c1 fuel = ?t" by (simp add: c1_def)
    ultimately have w: "Worker (Suc fuel) c1 srt mapf reducef m fs = (let run = Worker fuel c srt mapf reducef in
        if State ti = TaskMap then (case bind_res (workerMap mapf ti fs) (\<lambda>fs1. bind_res (TaskDone ti m1) (\<lambda>m2. Inr (m2, fs1))) of Inl e \<Rightarrow> Some (Inl e) | Inr (m2, fs1) \<Rightarrow> run m2 fs1)
        else if State ti = TaskReduce then (case bind_res (workerReduce srt reducef ti fs) (\<lambda>fs1. bind_res (TaskDone ti m1) (\<lambda>m2. Inr (m2, fs1))) of Inl e \<Rightarrow> Some (Inl e) | Inr (m2, fs1) \<Rightarrow> run m2 fs1)
        else if State ti = TaskWait then run m1 fs
        else if State ti = TaskEnd then Some (Inr (m1, fs)) else Some (Inl (Panic ''Invalid Task state'')))"
      using Inr p by (simp add: Let_def cong: sum.case_cong prod.case_cong)
    have "Worker_net (replicate k Through) clock srt mapf reducef m fs = (if State ti = TaskWait then Worker_net (replicate (Suc k1) Through) clock srt mapf reducef m1 fs
        else if State ti = TaskMap \<or> State ti = TaskReduce then
          (case (if State ti = TaskMap then workerMap mapf ti fs else workerReduce srt reducef ti fs) of Inl e \<Rightarrow> Some (Inl e)
           | Inr fs1 \<Rightarrow> (case TaskDone ti m1 of Inl e \<Rightarrow> Some (Inl e) | Inr m2 \<Rightarrow> Worker_net (replicate k1 Through) clock srt mapf reducef m2 fs1))
        else if State ti = TaskEnd then Some (Inr (m1, fs)) else Some (Inl (Panic ''Invalid Task state'')))"
      using Inr p by (cases "TaskDone ti m1") (simp_all add: k CallAskTask_Through CallTaskDone_Through cong: sum.case_cong)
    then show ?thesis using c n w
      by (intro exI [of _ c1], cases "workerMap mapf ti fs"; cases "workerReduce srt reducef ti fs"; cases "TaskDone ti m1")
        (auto simp: next_run_def Let_def simp del: Worker_net.simps Worker.simps replicate_Suc split: if_splits)
  qed
qed simp

text \<open>
  A call for a task that fails after dialing (the master stopped meanwhile, or the reply was lost)
  ends the worker: \<open>CallAskTask\<close> ignores that \<open>call\<close> returned false, and the reply it returns is the
  zero value, a map task for the file with the empty name, which cannot be opened.
\<close>

theorem failed_ask_ends_worker:
  assumes "f = LostRequest \<or> f = LostReply \<and> AskTask (clock (length fates)) m = Inr ans" and "fs '''' = None"
  shows "Worker_net (f # fates) clock srt mapf reducef m fs = Some (Inl (LogFatal ''cannot open''))"
proof -
  obtain m1 where "CallAskTask f (clock (length fates)) m = Inr (zero_TaskInfo, m1)"
    using assms(1) by (cases ans) (auto simp: CallAskTask_def mr_call_def)
  moreover have "State zero_TaskInfo = TaskMap" "FileName zero_TaskInfo = ''''" by (simp_all add: zero_TaskInfo_def)
  ultimately show ?thesis using assms(2) by (simp add: workerMap_def)
qed

theorem failed_ask_ends_worker_witness:
  "Worker_net [LostRequest, Through] (\<lambda>_. 0) id (\<lambda>_ _. []) (\<lambda>_ _. '''') (MakeMaster (\<lambda>_. 0) [''a''] 1) (\<lambda>_. None) =
     Some (Inl (LogFatal ''cannot open''))"
  by (rule failed_ask_ends_worker) simp_all

text \<open>The master program returns exactly when a poll finds the job done, at the first such poll.\<close>

lemma mrmaster_wait_spec:
  "mrmaster_wait fuel polls k = Some n \<longleftrightarrow> k \<le> n \<and> n < k + fuel \<and> Done (polls n) \<and> (\<forall>i. k \<le> i \<longrightarrow> i < n \<longrightarrow> \<not> Done (polls i))"
proof (induction fuel arbitrary: k)
  case (Suc fuel)
  show ?case
  proof (cases "Done (polls k)")
    case True
    then show ?thesis by (auto simp: order.order_iff_strict)
  next
    case False
    then have "mrmaster_wait (Suc fuel) polls k = mrmaster_wait fuel polls (Suc k)" by simp
    moreover have "k \<le> n \<and> Done (polls n) \<longleftrightarrow> Suc k \<le> n \<and> Done (polls n)" using False by (metis Suc_leD Suc_leI le_neq_implies_less)
    moreover have "(\<forall>i. k \<le> i \<longrightarrow> i < n \<longrightarrow> \<not> Done (polls i)) \<longleftrightarrow> (\<forall>i. Suc k \<le> i \<longrightarrow> i < n \<longrightarrow> \<not> Done (polls i))"
      using False by (metis Suc_leD Suc_leI le_neq_implies_less)
    ultimately show ?thesis using Suc.IH [of "Suc k"] by auto
  qed
qed simp

text \<open>
  C11: The programs agree. Start \<open>mrmaster\<close> on the input files, one \<open>mrworker\<close> with a plugin, whose
  calls reach the master, and \<open>mrsequential\<close> with the same plugin and files. The worker ends after at
  most two calls per task and one more; from then on the master program finds the job done at its
  next poll and ends; and the ten output files of the worker have exactly the lines of the output of
  \<open>mrsequential\<close>, each in the file its key hashes to, in the same order.
\<close>

theorem programs_agree:
  assumes "key_sort srt" and "order_blind reducef" and "ns \<noteq> []" and "job_files ns fs"
    and "ps so = Some plugin" and "plugin ''Map'' = Some (MapSym mapf)" and "plugin ''Reduce'' = Some (ReduceSym reducef)"
    and "2 * (length ns + 11) \<le> calls"
    and "\<forall>f \<in> set ns. \<forall>kv \<in> set (mapf f (the (fs f))). ascii_pair kv"
  shows "\<exists>m' fs' keys line.
    mrworker_main ps (replicate calls Through) clock srt [''mrworker'', so] (MakeMaster clock0 ns 10) fs = Some (Inr (m', fs')) \<and>
    (\<forall>later n. later (MakeMaster clock0 ns 10) n = m' \<longrightarrow> (\<exists>k \<le> n. mrmaster_main (n + 1) clock0 later (''mrmaster'' # ns) = Inr (Some k))) \<and>
    mrsequential_main ps srt (''mrsequential'' # so # ns) fs = Inr (fs(''mr-out-0'' \<mapsto> concat (map line keys))) \<and>
    sorted keys \<and> distinct keys \<and>
    (\<forall>p < 10. fs' (out_name (int p)) = Some (concat (map line (filter (\<lambda>k. ihash k mod 10 = int p) keys))))"
proof -
  have load: "loadPlugin ps so = Inr (mapf, reducef)" using assms(5-7) by (simp add: loadPlugin_def)
  have load_seq: "seq_loadPlugin ps so = Inr (mapf, reducef)" using assms(5-7) by (simp add: seq_loadPlugin_def)
  obtain c where c: "\<And>r. Worker (length ns + 11) c srt mapf reducef (MakeMaster clock0 ns 10) fs = Some r \<Longrightarrow>
      Worker_net (replicate calls Through) clock srt mapf reducef (MakeMaster clock0 ns 10) fs = Some r"
    using Worker_net_refines [OF assms(8)] by blast
  have "(0 :: int) < 10" "length ns + nat 10 < length ns + 11" by simp_all
  from worker_matches_sequential [where nReduce = 10 and ns = ns and fs = fs and mapf = mapf and clock = c and ?clock0.0 = clock0, OF assms(1-3) this(1) assms(4) this(2) assms(9)]
  obtain m' fs' keys line where w: "Worker (length ns + 11) c srt mapf reducef (MakeMaster clock0 ns 10) fs = Some (Inr (m', fs'))" "Done m'"
    "mrsequential srt mapf reducef ns fs = Inr (fs(''mr-out-0'' \<mapsto> concat (map line keys)))" "sorted keys" "distinct keys"
    "\<forall>p < nat 10. fs' (out_name (int p)) = Some (concat (map line (filter (\<lambda>k. ihash k mod 10 = int p) keys)))"
    by (elim exE conjE) (rule that)
  have work: "mrworker_main ps (replicate calls Through) clock srt [''mrworker'', so] (MakeMaster clock0 ns 10) fs = Some (Inr (m', fs'))"
    using c [OF w(1)] load by (simp add: mrworker_main_def)
  have "ns = hd ns # tl ns" using assms(3) by simp
  then have seq: "mrsequential_main ps srt (''mrsequential'' # so # ns) fs = Inr (fs(''mr-out-0'' \<mapsto> concat (map line keys)))"
    using w(3) load_seq by (cases ns) (simp_all add: mrsequential_main_def)
  have wait: "\<exists>k \<le> n. mrmaster_main (n + 1) clock0 later (''mrmaster'' # ns) = Inr (Some k)" if "later (MakeMaster clock0 ns 10) n = m'" for later n
  proof -
    have "\<exists>k \<le> n. mrmaster_wait (n + 1) (later (MakeMaster clock0 ns 10)) 0 = Some k"
      using ex_least_nat_le [where P = "\<lambda>i. Done (later (MakeMaster clock0 ns 10) i)" and n = n] that w(2) by (auto simp: mrmaster_wait_spec simp del: mrmaster_wait.simps)
    then show ?thesis using assms(3) by (auto simp: mrmaster_main_def Let_def simp del: mrmaster_wait.simps)
  qed
  have "\<forall>p < 10. fs' (out_name (int p)) = Some (concat (map line (filter (\<lambda>k. ihash k mod 10 = int p) keys)))" using w(6) by simp
  then show ?thesis using work wait seq w(4,5) by blast
qed

definition sample_plugins :: plugins where
  "sample_plugins = [''wc.so'' \<mapsto> [''Map'' \<mapsto> MapSym wc_Map, ''Reduce'' \<mapsto> ReduceSym wc_Reduce]]"

theorem programs_agree_witness:
  "\<exists>m' fs'. mrworker_main sample_plugins (replicate 26 Through) (\<lambda>_. 0) (sort_key Key) [''mrworker'', ''wc.so'']
     (MakeMaster (\<lambda>_. 0) [''x'', ''y''] 10) sample_files = Some (Inr (m', fs'))"
  using programs_agree [of "sort_key Key" wc_Reduce "[''x'', ''y'']" sample_files sample_plugins "''wc.so''" "[''Map'' \<mapsto> MapSym wc_Map, ''Reduce'' \<mapsto> ReduceSym wc_Reduce]" wc_Map 26 "\<lambda>_. 0" "\<lambda>_. 0"]
    by_key.key_sort_axioms order_blind_apps(1) sample_job_files sample_pairs by (auto simp: sample_plugins_def)

end
