(* ===== verification/Bitset.thy ===== *)
theory Bitset
  imports Go_Prelude
begin

unbundle bit_operations_syntax

section \<open>Bit sets of the linearizability checker (porcupine/bitset.go)\<close>

text \<open>
  A bit set is a slice of 64-bit chunks; bit \<open>p\<close> lives in chunk \<open>p / 64\<close> at position
  \<open>p % 64\<close>. Go's \<open>uint\<close> positions are \<open>nat\<close>; the chunks keep their width. Indexing
  outside the slice panics.
\<close>

type_synonym uint64 = "64 word"
type_synonym bitset = "uint64 list"

definition newBitset :: "nat \<Rightarrow> bitset" where
  "newBitset bits =
     (let extra = (if bits mod 64 \<noteq> 0 then 1 else 0);
          chunks = bits div 64 + extra
      in replicate chunks 0)"

definition clone :: "bitset \<Rightarrow> bitset" where
  "clone b = map (\<lambda>v. v) b"

definition bitsetIndex :: "nat \<Rightarrow> nat \<times> nat" where
  "bitsetIndex pos = (pos div 64, pos mod 64)"

definition bit_set :: "bitset \<Rightarrow> nat \<Rightarrow> bitset res" where
  "bit_set b pos =
     (let (major, minor) = bitsetIndex pos
      in bind_res (go_index b (int major)) (\<lambda>v.
           go_update b (int major) (v OR push_bit minor 1)))"

definition bit_clear :: "bitset \<Rightarrow> nat \<Rightarrow> bitset res" where
  "bit_clear b pos =
     (let (major, minor) = bitsetIndex pos
      in bind_res (go_index b (int major)) (\<lambda>v.
           go_update b (int major) (v AND NOT (push_bit minor 1))))"

definition bit_get :: "bitset \<Rightarrow> nat \<Rightarrow> bool res" where
  "bit_get b pos =
     (let (major, minor) = bitsetIndex pos
      in bind_res (go_index b (int major)) (\<lambda>v. Inr (v AND push_bit minor 1 \<noteq> 0)))"

text \<open>\<open>bits.OnesCount64\<close> counts the one bits of a chunk.\<close>

definition OnesCount64 :: "uint64 \<Rightarrow> nat" where
  "OnesCount64 v = length (filter (\<lambda>i. bit v i) [0..<64])"

definition popcnt :: "bitset \<Rightarrow> nat" where
  "popcnt b = fold (\<lambda>v total. total + OnesCount64 v) b 0"

definition bitset_hash :: "bitset \<Rightarrow> uint64" where
  "bitset_hash b = fold (\<lambda>v h. h XOR v) b (of_nat (popcnt b))"

definition bitset_equals :: "bitset \<Rightarrow> bitset \<Rightarrow> bool" where
  "bitset_equals b b2 =
     (if length b \<noteq> length b2 then False else \<forall>i < length b. b ! i = b2 ! i)"

subsection \<open>The set a bit set stands for\<close>

definition bits_of :: "bitset \<Rightarrow> nat set" where
  "bits_of b = {p. p < 64 * length b \<and> bit (b ! (p div 64)) (p mod 64)}"

lemma div64_less: "p < 64 * n \<longleftrightarrow> p div 64 < n" for p n :: nat
  by (simp add: div_less_iff_less_mult mult.commute)

lemma bit_set_ok:
  "p < 64 * length b \<Longrightarrow> bit_set b p = Inr (b[p div 64 := b ! (p div 64) OR push_bit (p mod 64) 1])"
  by (simp add: bit_set_def bitsetIndex_def div64_less go_update_ok go_len_def)

lemma bit_clear_ok:
  "p < 64 * length b \<Longrightarrow>
     bit_clear b p = Inr (b[p div 64 := b ! (p div 64) AND NOT (push_bit (p mod 64) 1)])"
  by (simp add: bit_clear_def bitsetIndex_def div64_less go_update_ok go_len_def)

lemma pow2_bit [simp]: "n < 64 \<Longrightarrow> bit (2 ^ m :: uint64) n \<longleftrightarrow> n = m"
  by (auto simp: bit_exp_iff)

lemma same_position: "p div 64 = q div 64 \<Longrightarrow> p mod 64 = q mod 64 \<Longrightarrow> p = q" for p q :: nat
  by (metis div_mult_mod_eq)

lemma bits_of_update:
  assumes "p < 64 * length b"
  shows "bits_of (b[p div 64 := w]) =
    {q \<in> bits_of b. q div 64 \<noteq> p div 64} \<union>
    {q. q div 64 = p div 64 \<and> bit w (q mod 64)}"
  using assms by (auto simp: bits_of_def nth_list_update div64_less)

lemma bits_of_bit_set:
  assumes "bit_set b p = Inr b'" and "p < 64 * length b"
  shows "bits_of b' = insert p (bits_of b)"
proof -
  have b': "b' = b[p div 64 := b ! (p div 64) OR push_bit (p mod 64) 1]"
    using assms by (simp add: bit_set_ok)
  show ?thesis
    unfolding b' bits_of_update [OF assms(2)]
    using assms(2)
    by (auto simp: bits_of_def bit_or_iff div64_less intro: same_position)
qed

lemma bits_of_bit_clear:
  assumes "bit_clear b p = Inr b'" and "p < 64 * length b"
  shows "bits_of b' = bits_of b - {p}"
proof -
  have b': "b' = b[p div 64 := b ! (p div 64) AND NOT (push_bit (p mod 64) 1)]"
    using assms by (simp add: bit_clear_ok)
  show ?thesis
    unfolding b' bits_of_update [OF assms(2)]
    using assms(2)
    by (auto simp: bits_of_def bit_and_iff bit_not_iff div64_less intro: same_position)
qed

lemma length_bit_set: "bit_set b p = Inr b' \<Longrightarrow> length b' = length b"
  by (auto simp: bit_set_def bitsetIndex_def bind_res_eq_Inr go_update_Inr)

lemma length_bit_clear: "bit_clear b p = Inr b' \<Longrightarrow> length b' = length b"
  by (auto simp: bit_clear_def bitsetIndex_def bind_res_eq_Inr go_update_Inr)

lemma bit_set_panics: "64 * length b \<le> p \<Longrightarrow> bit_set b p = Inl IndexOutOfRange"
  by (simp add: bit_set_def bitsetIndex_def go_index_def go_len_def flip: div64_less)

lemma and_pow2_nonzero: "(v AND 2 ^ n \<noteq> 0) \<longleftrightarrow> bit v n" for v :: uint64
  by (simp add: and_exp_eq_0_iff_not_bit)

lemma bit_get_ok: "p < 64 * length b \<Longrightarrow> bit_get b p = Inr (p \<in> bits_of b)"
  by (simp add: bit_get_def bitsetIndex_def div64_less bits_of_def and_pow2_nonzero)

lemma length_newBitset: "length (newBitset n) = n div 64 + (if n mod 64 \<noteq> 0 then 1 else 0)"
  by (simp add: newBitset_def Let_def)

lemma newBitset_capacity: "n \<le> 64 * length (newBitset n)"
proof -
  have "n = 64 * (n div 64) + n mod 64" and "n mod 64 < 64" by simp_all
  then show ?thesis by (auto simp: length_newBitset)
qed

lemma bits_of_newBitset: "bits_of (newBitset n) = {}"
  by (auto simp: bits_of_def newBitset_def Let_def div64_less)

lemma clone_id [simp]: "clone b = b"
  by (simp add: clone_def)

lemma bitset_equals_iff [simp]: "bitset_equals b b2 \<longleftrightarrow> b = b2"
  by (auto simp: bitset_equals_def list_eq_iff_nth_eq)

lemma bits_of_inject:
  assumes "length b = length b2" and "bits_of b = bits_of b2"
  shows "b = b2"
proof (rule nth_equalityI [OF assms(1)])
  fix i assume i: "i < length b"
  show "b ! i = b2 ! i"
  proof (rule bit_eqI)
    fix n assume "possible_bit TYPE(uint64) n"
    then have n: "n < 64" by simp
    have "i * 64 + n \<in> bits_of b \<longleftrightarrow> i * 64 + n \<in> bits_of b2" using assms(2) by simp
    then show "bit (b ! i) n = bit (b2 ! i) n"
      using i n assms(1) by (simp add: bits_of_def div64_less)
  qed
qed

end
