(* ===== verification/Porcupine.thy ===== *)
theory Porcupine
  imports Bitset
begin

section \<open>The linearizability checker (porcupine/model.go, checker.go, porcupine.go)\<close>

text \<open>
  The checker takes a history of calls and returns, puts it in a doubly linked list, and searches
  for an order of the operations by lifting calls (with their returns) out of the list and putting
  them back when the search is stuck. The list is modelled with its pointers: a heap from addresses
  to nodes, where \<open>None\<close> is the nil pointer and following it is an error. A value of type
  \<open>interface\<close> is a \<open>'v option\<close>; the states of the specification are of type \<open>'s\<close>. A
  field of \<open>Model\<close> that is a nil function is \<open>None\<close>.
\<close>

subsection \<open>Models, operations and events (model.go)\<close>

record 'v Operation =
  op_ClientId :: int
  Input :: "'v option"
  Call :: int
  Output :: "'v option"
  Return :: int

abbreviation (input) CallEvent :: bool where "CallEvent \<equiv> False"
abbreviation (input) ReturnEvent :: bool where "ReturnEvent \<equiv> True"

record 'v Event =
  ev_ClientId :: int
  Kind :: bool
  ev_Value :: "'v option"
  Id :: int

record ('v, 's) Model =
  Partition :: "('v Operation list \<Rightarrow> 'v Operation list list) option"
  PartitionEvent :: "('v Event list \<Rightarrow> 'v Event list list) option"
  Init :: 's
  Step :: "'s \<Rightarrow> 'v option \<Rightarrow> 'v option \<Rightarrow> bool \<times> 's"
  Equal :: "('s \<Rightarrow> 's \<Rightarrow> bool) option"
  DescribeOperation :: "('v option \<Rightarrow> 'v option \<Rightarrow> string) option"
  DescribeState :: "('s \<Rightarrow> string) option"

definition NoPartition :: "'v Operation list \<Rightarrow> 'v Operation list list" where
  "NoPartition history = [history]"

definition NoPartitionEvent :: "'v Event list \<Rightarrow> 'v Event list list" where
  "NoPartitionEvent history = [history]"

definition ShallowEqual :: "'s \<Rightarrow> 's \<Rightarrow> bool" where
  "ShallowEqual state1 state2 \<longleftrightarrow> state1 = state2"

text \<open>\<open>fmtv\<close> and \<open>fmts\<close> are what \<open>fmt.Sprintf("%v", x)\<close> prints for a value and a state.\<close>

definition DefaultDescribeOperation ::
  "('v option \<Rightarrow> string) \<Rightarrow> 'v option \<Rightarrow> 'v option \<Rightarrow> string" where
  "DefaultDescribeOperation fmtv input output = fmtv input @ '' -> '' @ fmtv output"

definition DefaultDescribeState :: "('s \<Rightarrow> string) \<Rightarrow> 's \<Rightarrow> string" where
  "DefaultDescribeState fmts st = fmts st"

datatype CheckResult = Unknown | Ok | Illegal

subsection \<open>Entries\<close>

abbreviation (input) callEntry :: bool where "callEntry \<equiv> False"
abbreviation (input) returnEntry :: bool where "returnEntry \<equiv> True"

record 'v entry =
  kind :: bool
  evalue :: "'v option"
  eid :: int
  time :: int
  clientId :: int

definition byTime_Len :: "'v entry list \<Rightarrow> nat" where
  "byTime_Len a = length a"

definition byTime_Swap :: "'v entry list \<Rightarrow> nat \<Rightarrow> nat \<Rightarrow> 'v entry list" where
  "byTime_Swap a i j = a[i := a ! j, j := a ! i]"

definition byTime_Less :: "'v entry list \<Rightarrow> nat \<Rightarrow> nat \<Rightarrow> bool" where
  "byTime_Less a i j \<longleftrightarrow> time (a ! i) < time (a ! j)"

fun make_loop :: "'v Operation list \<Rightarrow> int \<Rightarrow> 'v entry list" where
  "make_loop [] k = []"
| "make_loop (elem # history) k =
     \<lparr>kind = callEntry, evalue = Input elem, eid = k, time = Call elem, clientId = op_ClientId elem\<rparr> #
     \<lparr>kind = returnEntry, evalue = Output elem, eid = k, time = Return elem, clientId = op_ClientId elem\<rparr> #
     make_loop history (k + 1)"

text \<open>\<open>srt\<close> is what \<open>sort.Sort(byTime(entries))\<close> does to the slice.\<close>

definition makeEntries :: "('v entry list \<Rightarrow> 'v entry list) \<Rightarrow> 'v Operation list \<Rightarrow> 'v entry list" where
  "makeEntries srt history = srt (make_loop history 0)"

fun renumber_loop :: "(int \<Rightarrow> int option) \<Rightarrow> int \<Rightarrow> 'v Event list \<Rightarrow> 'v Event list" where
  "renumber_loop m k [] = []"
| "renumber_loop m k (v # events) =
     (case m (Id v) of
        Some r \<Rightarrow> v\<lparr>Id := r\<rparr> # renumber_loop m k events
      | None \<Rightarrow> v\<lparr>Id := k\<rparr> # renumber_loop (m(Id v \<mapsto> k)) (k + 1) events)"

definition renumber :: "'v Event list \<Rightarrow> 'v Event list" where
  "renumber events = renumber_loop (\<lambda>_. None) 0 events"

definition convertEntries :: "'v Event list \<Rightarrow> 'v entry list" where
  "convertEntries events =
     map (\<lambda>(i, elem). \<lparr>kind = (if Kind elem = ReturnEvent then returnEntry else callEntry),
                        evalue = ev_Value elem, eid = Id elem, time = int i, clientId = ev_ClientId elem\<rparr>)
       (zip [0..<length events] events)"

subsection \<open>The linked list\<close>

record 'v node =
  nvalue :: "'v option"
  nmatch :: "nat option"
  nid :: int
  nnext :: "nat option"
  nprev :: "nat option"

text \<open>The heap: what is stored at each address, and the first unused address.\<close>

record 'v heap =
  mem :: "nat \<Rightarrow> 'v node"
  fresh :: nat

type_synonym 'v mem = "nat \<Rightarrow> 'v node"

definition set_next :: "nat \<Rightarrow> nat option \<Rightarrow> 'v mem \<Rightarrow> 'v mem" where
  "set_next a p h = h(a := (h a)\<lparr>nnext := p\<rparr>)"

definition set_prev :: "nat \<Rightarrow> nat option \<Rightarrow> 'v mem \<Rightarrow> 'v mem" where
  "set_prev a p h = h(a := (h a)\<lparr>nprev := p\<rparr>)"

definition deref :: "nat option \<Rightarrow> nat res" where
  "deref p = (case p of None \<Rightarrow> Inl NilDereference | Some a \<Rightarrow> Inr a)"

definition insertBefore :: "nat \<Rightarrow> nat option \<Rightarrow> 'v mem \<Rightarrow> 'v mem" where
  "insertBefore n mark h =
     (case mark of
        None \<Rightarrow> h
      | Some m \<Rightarrow>
          (let beforeMark = nprev (h m);
               h1 = set_next n (Some m) (set_prev m (Some n) h)
           in case beforeMark of
                None \<Rightarrow> h1
              | Some b \<Rightarrow> set_next b (Some n) (set_prev n (Some b) h1)))"

text \<open>The loop of \<open>length\<close>, which runs as long as the list: \<open>None\<close> when the fuel is used up.\<close>

fun node_length :: "nat \<Rightarrow> 'v mem \<Rightarrow> nat option \<Rightarrow> nat option" where
  "node_length fuel h None = Some 0"
| "node_length 0 h (Some a) = None"
| "node_length (Suc fuel) h (Some a) = map_option Suc (node_length fuel h (nnext (h a)))"

definition new_node :: "'v option \<Rightarrow> nat option \<Rightarrow> int \<Rightarrow> 'v node" where
  "new_node v m i = \<lparr>nvalue = v, nmatch = m, nid = i, nnext = None, nprev = None\<rparr>"

definition empty_heap :: "'v heap" where
  "empty_heap = \<lparr>mem = (\<lambda>_. new_node None None 0), fresh = 0\<rparr>"

text \<open>The body of the loop of \<open>makeLinkedEntries\<close>, on the heap, the root and the map of returns.\<close>

definition link_entry ::
  "'v entry \<Rightarrow> 'v heap \<times> nat option \<times> (int \<Rightarrow> nat option) \<Rightarrow> 'v heap \<times> nat option \<times> (int \<Rightarrow> nat option)" where
  "link_entry elem acc =
     (case acc of (hp, root, mtch) \<Rightarrow>
        let a = fresh hp in
        if kind elem = returnEntry
        then (\<lparr>mem = insertBefore a root ((mem hp)(a := new_node (evalue elem) None (eid elem))), fresh = a + 1\<rparr>,
              Some a, mtch(eid elem \<mapsto> a))
        else (\<lparr>mem = insertBefore a root ((mem hp)(a := new_node (evalue elem) (mtch (eid elem)) (eid elem))), fresh = a + 1\<rparr>,
              Some a, mtch))"

text \<open>The loop goes from the last entry to the first, as \<open>foldr\<close> does.\<close>

definition makeLinkedEntries :: "'v entry list \<Rightarrow> 'v heap \<times> nat option" where
  "makeLinkedEntries entries =
     (case foldr link_entry entries (empty_heap, None, \<lambda>_. None) of (hp, root, mtch) \<Rightarrow> (hp, root))"

definition lift :: "nat \<Rightarrow> 'v mem \<Rightarrow> 'v mem res" where
  "lift e h =
     bind_res (deref (nprev (h e))) (\<lambda>p.
     let h1 = set_next p (nnext (h e)) h in
     bind_res (deref (nnext (h1 e))) (\<lambda>nx.
     let h2 = set_prev nx (nprev (h1 e)) h1 in
     bind_res (deref (nmatch (h2 e))) (\<lambda>m.
     bind_res (deref (nprev (h2 m))) (\<lambda>mp.
     let h3 = set_next mp (nnext (h2 m)) h2 in
     Inr (case nnext (h3 m) of None \<Rightarrow> h3 | Some mn \<Rightarrow> set_prev mn (nprev (h3 m)) h3)))))"

definition unlift :: "nat \<Rightarrow> 'v mem \<Rightarrow> 'v mem res" where
  "unlift e h =
     bind_res (deref (nmatch (h e))) (\<lambda>m.
     bind_res (deref (nprev (h m))) (\<lambda>mp.
     let h1 = set_next mp (Some m) h;
         h2 = (case nnext (h1 m) of None \<Rightarrow> h1 | Some mn \<Rightarrow> set_prev mn (Some m) h1)
     in bind_res (deref (nprev (h2 e))) (\<lambda>p.
        let h3 = set_next p (Some e) h2 in
        bind_res (deref (nnext (h3 e))) (\<lambda>nx. Inr (set_prev nx (Some e) h3)))))"

subsection \<open>The search\<close>

type_synonym 's cacheEntry = "bitset \<times> 's"
type_synonym 's cache = "uint64 \<Rightarrow> 's cacheEntry list"

definition model_Equal :: "('v, 's) Model \<Rightarrow> 's \<Rightarrow> 's \<Rightarrow> bool res" where
  "model_Equal md s t = (case Equal md of None \<Rightarrow> Inl NilDereference | Some eq \<Rightarrow> Inr (eq s t))"

fun contains_loop :: "('v, 's) Model \<Rightarrow> 's cacheEntry \<Rightarrow> 's cacheEntry list \<Rightarrow> bool res" where
  "contains_loop md en [] = Inr False"
| "contains_loop md en (elem # es) =
     (if bitset_equals (fst en) (fst elem)
      then bind_res (model_Equal md (snd en) (snd elem)) (\<lambda>eq.
             if eq then Inr True else contains_loop md en es)
      else contains_loop md en es)"

definition cacheContains :: "('v, 's) Model \<Rightarrow> 's cache \<Rightarrow> 's cacheEntry \<Rightarrow> bool res" where
  "cacheContains md cache en = contains_loop md en (cache (bitset_hash (fst en)))"

text \<open>
  The variables of \<open>checkSingle\<close>. \<open>longest\<close> holds pointers to sequences; \<open>seqs\<close> is
  the heap of these sequences.
\<close>

record ('v, 's) search =
  hmem :: "'v mem"
  cur :: "nat option"
  linearized :: bitset
  cache :: "'s cache"
  calls :: "(nat \<times> 's) list"
  longest :: "nat option list"
  seqs :: "int list list"
  sstate :: 's

definition to_uint :: "int \<Rightarrow> nat" where
  "to_uint i = nat (i mod 2 ^ 64)"

definition call_ids :: "('v, 's) search \<Rightarrow> int list" where
  "call_ids st = map (\<lambda>(a, s). nid (hmem st a)) (calls st)"

text \<open>The inner loop over \<open>calls\<close>: \<open>seqp\<close> is the pointer \<open>&seq\<close> once the sequence is made.\<close>

fun longest_loop :: "int list \<Rightarrow> int list \<Rightarrow> nat option list \<Rightarrow> int list list \<Rightarrow> nat option \<Rightarrow>
  (nat option list \<times> int list list) res" where
  "longest_loop ids [] lg sq seqp = Inr (lg, sq)"
| "longest_loop ids (v # vs) lg sq seqp =
     bind_res (go_index lg v) (\<lambda>p.
       if p = None \<or> (case p of None \<Rightarrow> False | Some q \<Rightarrow> length ids > length (sq ! q))
       then (let (sq', q) = (case seqp of None \<Rightarrow> (sq @ [ids], length sq) | Some q \<Rightarrow> (sq, q))
             in bind_res (go_update lg v (Some q)) (\<lambda>lg'. longest_loop ids vs lg' sq' (Some q)))
       else longest_loop ids vs lg sq seqp)"

text \<open>A call entry is at hand: try to linearize it next.\<close>

definition try_call :: "('v, 's) Model \<Rightarrow> nat \<Rightarrow> nat \<Rightarrow> nat \<Rightarrow> ('v, 's) search \<Rightarrow> ('v, 's) search res" where
  "try_call md headEntry e matching st =
     (let h = hmem st;
          (ok, newState) = Step md (sstate st) (nvalue (h e)) (nvalue (h matching))
      in if ok
         then bind_res (bit_set (clone (linearized st)) (to_uint (nid (h e)))) (\<lambda>newLinearized.
              bind_res (cacheContains md (cache st) (newLinearized, newState)) (\<lambda>hit.
                if \<not> hit
                then (let hash = bitset_hash newLinearized in
                      bind_res (bit_set (linearized st) (to_uint (nid (h e)))) (\<lambda>lin.
                      bind_res (lift e h) (\<lambda>h'.
                        Inr (st\<lparr>cache := (cache st)(hash := cache st hash @ [(newLinearized, newState)]),
                                calls := calls st @ [(e, sstate st)], sstate := newState,
                                linearized := lin, hmem := h', cur := nnext (h' headEntry)\<rparr>))))
                else Inr (st\<lparr>cur := nnext (h e)\<rparr>)))
         else Inr (st\<lparr>cur := nnext (h e)\<rparr>))"

text \<open>A return entry is at hand: take the last call back.\<close>

definition backtrack :: "bool \<Rightarrow> ('v, 's) search \<Rightarrow> ('v, 's) search res" where
  "backtrack computePartial st =
     bind_res (if computePartial
               then bind_res (longest_loop (call_ids st) (call_ids st) (longest st) (seqs st) None)
                      (\<lambda>(lg, sq). Inr (st\<lparr>longest := lg, seqs := sq\<rparr>))
               else Inr st) (\<lambda>st1.
     bind_res (go_index (calls st1) (go_len (calls st1) - 1)) (\<lambda>(e, s).
     bind_res (bit_clear (linearized st1) (to_uint (nid (hmem st1 e)))) (\<lambda>lin.
     bind_res (go_slice_to (calls st1) (go_len (calls st1) - 1)) (\<lambda>cs.
     bind_res (unlift e (hmem st1)) (\<lambda>h'.
       Inr (st1\<lparr>sstate := s, linearized := lin, calls := cs, hmem := h', cur := nnext (h' e)\<rparr>))))))"

text \<open>After the loop: the complete linearization is the longest one of every operation.\<close>

definition complete :: "nat \<Rightarrow> ('v, 's) search \<Rightarrow> ('v, 's) search" where
  "complete n st =
     st\<lparr>seqs := seqs st @ [call_ids st], longest := replicate n (Some (length (seqs st)))\<rparr>"

text \<open>One iteration: \<open>Inl\<close> is the returned result, \<open>Inr\<close> goes on.\<close>

definition check_iter :: "('v, 's) Model \<Rightarrow> bool \<Rightarrow> nat \<Rightarrow> nat \<Rightarrow> bool \<Rightarrow> ('v, 's) search \<Rightarrow>
  ((bool \<times> ('v, 's) search) + ('v, 's) search) res" where
  "check_iter md computePartial headEntry n kill st =
     (if nnext (hmem st headEntry) = None then Inr (Inl (True, complete n st))
      else if kill then Inr (Inl (False, st))
      else bind_res (deref (cur st)) (\<lambda>e.
        case nmatch (hmem st e) of
          Some matching \<Rightarrow> bind_res (try_call md headEntry e matching st) (\<lambda>st'. Inr (Inr st'))
        | None \<Rightarrow> if go_len (calls st) = 0 then Inr (Inl (False, st))
                  else bind_res (backtrack computePartial st) (\<lambda>st'. Inr (Inr st'))))"

text \<open>The loop; \<open>kill k\<close> is the flag as read when \<open>k\<close> units of fuel are left.\<close>

fun check_loop :: "('v, 's) Model \<Rightarrow> bool \<Rightarrow> nat \<Rightarrow> nat \<Rightarrow> (nat \<Rightarrow> bool) \<Rightarrow> nat \<Rightarrow> ('v, 's) search \<Rightarrow>
  (bool \<times> ('v, 's) search) res option" where
  "check_loop md cp hdr n kill 0 st = None"
| "check_loop md cp hdr n kill (Suc fuel) st =
     (case check_iter md cp hdr n (kill fuel) st of
        Inl e \<Rightarrow> Some (Inl e)
      | Inr (Inl r) \<Rightarrow> Some (Inr r)
      | Inr (Inr st') \<Rightarrow> check_loop md cp hdr n kill fuel st')"

definition start_search :: "('v, 's) Model \<Rightarrow> 'v entry list \<Rightarrow> (nat \<times> nat \<times> ('v, 's) search) option" where
  "start_search md history =
     (case makeLinkedEntries history of (hp, root) \<Rightarrow>
        case node_length (length history) (mem hp) root of
          None \<Rightarrow> None
        | Some l \<Rightarrow>
            (let n = l div 2;
                 headEntry = fresh hp;
                 h = insertBefore headEntry root ((mem hp)(headEntry := new_node None None (-1)))
             in Some (headEntry, n,
                  \<lparr>hmem = h, cur = root, linearized = newBitset n, cache = (\<lambda>_. []), calls = [],
                   longest = replicate n None, seqs = [], sstate = Init md\<rparr>)))"

text \<open>The result, the pointers \<open>longest\<close> and the sequences they point to.\<close>

type_synonym single_result = "bool \<times> nat option list \<times> int list list"

definition checkSingle :: "nat \<Rightarrow> ('v, 's) Model \<Rightarrow> 'v entry list \<Rightarrow> bool \<Rightarrow> (nat \<Rightarrow> bool) \<Rightarrow>
  single_result res option" where
  "checkSingle fuel md history computePartial kill =
     (case start_search md history of
        None \<Rightarrow> None
      | Some (headEntry, n, st) \<Rightarrow>
          map_option (\<lambda>r. bind_res r (\<lambda>(ok, st'). Inr (ok, longest st', seqs st')))
            (check_loop md computePartial headEntry n kill fuel st))"

subsection \<open>Checking the partitions in parallel\<close>

definition fillDefault :: "('v option \<Rightarrow> string) \<Rightarrow> ('s \<Rightarrow> string) \<Rightarrow> ('v, 's) Model \<Rightarrow> ('v, 's) Model" where
  "fillDefault fmtv fmts md =
     (let md1 = (if Partition md = None then md\<lparr>Partition := Some NoPartition\<rparr> else md);
          md2 = (if PartitionEvent md1 = None then md1\<lparr>PartitionEvent := Some NoPartitionEvent\<rparr> else md1);
          md3 = (if Equal md2 = None then md2\<lparr>Equal := Some ShallowEqual\<rparr> else md2);
          md4 = (if DescribeOperation md3 = None
                 then md3\<lparr>DescribeOperation := Some (DefaultDescribeOperation fmtv)\<rparr> else md3)
      in if DescribeState md4 = None then md4\<lparr>DescribeState := Some (DefaultDescribeState fmts)\<rparr> else md4)"

text \<open>
  What the loop of \<open>checkParallel\<close> can receive: the result of a goroutine, or the timer, which
  exists only if the timeout is positive (receiving from the nil channel blocks forever). The state
  of the loop is \<open>(ok, timedOut, count)\<close>. \<open>None\<close> means that the loop still waits after
  what has arrived so far; \<open>Deadlock\<close> that it waits and nothing can arrive any more, because
  all goroutines have sent their result and there is no timer.
\<close>

datatype arrival = Arrive nat | Expire

fun select_loop :: "bool \<Rightarrow> bool \<Rightarrow> single_result list \<Rightarrow> bool \<Rightarrow> nat \<Rightarrow> arrival list \<Rightarrow>
  (bool \<times> bool \<times> nat \<times> arrival list) res option" where
  "select_loop timed computeInfo rs ok cnt [] =
     (if cnt \<ge> length rs \<and> \<not> timed then Some (Inl Deadlock) else None)"
| "select_loop timed computeInfo rs ok cnt (Arrive i # as) =
     (if cnt \<ge> length rs then select_loop timed computeInfo rs ok cnt as
      else let ok' = (ok \<and> fst (rs ! i)); cnt' = cnt + 1
           in if \<not> ok' \<and> \<not> computeInfo then Some (Inr (ok', False, cnt', as))
              else if cnt' \<ge> length rs then Some (Inr (ok', False, cnt', as))
              else select_loop timed computeInfo rs ok' cnt' as)"
| "select_loop timed computeInfo rs ok cnt (Expire # as) =
     (if timed then Some (Inr (ok, True, cnt, as)) else select_loop timed computeInfo rs ok cnt as)"

text \<open>The set of distinct pointers, in the order \<open>range_order\<close> of Go's map iteration.\<close>

definition unique_partials :: "(nat list \<Rightarrow> nat list) \<Rightarrow> single_result \<Rightarrow> int list list" where
  "unique_partials range_order r =
     (case r of (ok, lg, sq) \<Rightarrow>
        map (\<lambda>q. sq ! q) (range_order (remdups (concat (map (\<lambda>v. case v of None \<Rightarrow> [] | Some q \<Rightarrow> [q]) lg)))))"

record 'v linearizationInfo =
  history :: "'v entry list list"
  partialLinearizations :: "int list list list"

text \<open>The part of \<open>checkParallel\<close> after the goroutines were started, given what they return.\<close>

definition collect :: "(nat list \<Rightarrow> nat list) \<Rightarrow> 'v entry list list \<Rightarrow> bool \<Rightarrow> int \<Rightarrow> single_result list \<Rightarrow> arrival list \<Rightarrow>
  (CheckResult \<times> 'v linearizationInfo) res option" where
  "collect range_order hist computeInfo timeout rs as =
     (case select_loop (timeout > 0) computeInfo rs True 0 as of
        None \<Rightarrow> None
      | Some (Inl e) \<Rightarrow> Some (Inl e)
      | Some (Inr (ok, timedOut, cnt, rest)) \<Rightarrow>
          if computeInfo \<and> cnt + length (filter (\<lambda>a. a \<noteq> Expire) rest) < length rs then None
          else Some (Inr (if \<not> ok then Illegal else if timedOut then Unknown else Ok,
                     if computeInfo
                     then \<lparr>history = hist, partialLinearizations = map (unique_partials range_order) rs\<rparr>
                     else \<lparr>history = [], partialLinearizations = []\<rparr>)))"

text \<open>The results of the goroutines: \<open>None\<close> when one does not return within the fuel.\<close>

fun run_all :: "nat \<Rightarrow> ('v, 's) Model \<Rightarrow> bool \<Rightarrow> (nat \<Rightarrow> nat \<Rightarrow> bool) \<Rightarrow> nat \<Rightarrow> 'v entry list list \<Rightarrow>
  single_result list res option" where
  "run_all fuel md computeInfo kill i [] = Some (Inr [])"
| "run_all fuel md computeInfo kill i (h # hs) =
     (case checkSingle fuel md h computeInfo (kill i) of
        None \<Rightarrow> None
      | Some (Inl e) \<Rightarrow> Some (Inl e)
      | Some (Inr r) \<Rightarrow> map_option (\<lambda>q. bind_res q (\<lambda>rs. Inr (r # rs))) (run_all fuel md computeInfo kill (Suc i) hs))"

definition checkParallel :: "nat \<Rightarrow> (nat list \<Rightarrow> nat list) \<Rightarrow> ('v, 's) Model \<Rightarrow> 'v entry list list \<Rightarrow> bool \<Rightarrow> int \<Rightarrow>
  (nat \<Rightarrow> nat \<Rightarrow> bool) \<Rightarrow> arrival list \<Rightarrow> (CheckResult \<times> 'v linearizationInfo) res option" where
  "checkParallel fuel range_order md hist computeInfo timeout kill as =
     (case run_all fuel md computeInfo kill 0 hist of
        None \<Rightarrow> None
      | Some (Inl e) \<Rightarrow> Some (Inl e)
      | Some (Inr rs) \<Rightarrow> collect range_order hist computeInfo timeout rs as)"

definition checkEvents :: "nat \<Rightarrow> (nat list \<Rightarrow> nat list) \<Rightarrow> ('v option \<Rightarrow> string) \<Rightarrow> ('s \<Rightarrow> string) \<Rightarrow>
  ('v, 's) Model \<Rightarrow> 'v Event list \<Rightarrow> bool \<Rightarrow> int \<Rightarrow> (nat \<Rightarrow> nat \<Rightarrow> bool) \<Rightarrow> arrival list \<Rightarrow>
  (CheckResult \<times> 'v linearizationInfo) res option" where
  "checkEvents fuel range_order fmtv fmts model events verbose timeout kill as =
     (let md = fillDefault fmtv fmts model;
          partitions = the (PartitionEvent md) events;
          l = map (\<lambda>sub. convertEntries (renumber sub)) partitions
      in checkParallel fuel range_order md l verbose timeout kill as)"

definition checkOperations :: "nat \<Rightarrow> (nat list \<Rightarrow> nat list) \<Rightarrow> ('v entry list \<Rightarrow> 'v entry list) \<Rightarrow>
  ('v option \<Rightarrow> string) \<Rightarrow> ('s \<Rightarrow> string) \<Rightarrow>
  ('v, 's) Model \<Rightarrow> 'v Operation list \<Rightarrow> bool \<Rightarrow> int \<Rightarrow> (nat \<Rightarrow> nat \<Rightarrow> bool) \<Rightarrow> arrival list \<Rightarrow>
  (CheckResult \<times> 'v linearizationInfo) res option" where
  "checkOperations fuel range_order srt fmtv fmts model ops verbose timeout kill as =
     (let md = fillDefault fmtv fmts model;
          partitions = the (Partition md) ops;
          l = map (\<lambda>sub. makeEntries srt sub) partitions
      in checkParallel fuel range_order md l verbose timeout kill as)"

subsection \<open>The interface (porcupine.go)\<close>

definition CheckOperations :: "nat \<Rightarrow> (nat list \<Rightarrow> nat list) \<Rightarrow> ('v entry list \<Rightarrow> 'v entry list) \<Rightarrow>
  ('v option \<Rightarrow> string) \<Rightarrow> ('s \<Rightarrow> string) \<Rightarrow> ('v, 's) Model \<Rightarrow> 'v Operation list \<Rightarrow>
  (nat \<Rightarrow> nat \<Rightarrow> bool) \<Rightarrow> arrival list \<Rightarrow> bool res option" where
  "CheckOperations fuel ro srt fmtv fmts model ops kill as =
     map_option (\<lambda>r. bind_res r (\<lambda>(res, _). Inr (res = Ok)))
       (checkOperations fuel ro srt fmtv fmts model ops False 0 kill as)"

definition CheckOperationsTimeout :: "nat \<Rightarrow> (nat list \<Rightarrow> nat list) \<Rightarrow> ('v entry list \<Rightarrow> 'v entry list) \<Rightarrow>
  ('v option \<Rightarrow> string) \<Rightarrow> ('s \<Rightarrow> string) \<Rightarrow> ('v, 's) Model \<Rightarrow> 'v Operation list \<Rightarrow>
  int \<Rightarrow> (nat \<Rightarrow> nat \<Rightarrow> bool) \<Rightarrow> arrival list \<Rightarrow> CheckResult res option" where
  "CheckOperationsTimeout fuel ro srt fmtv fmts model ops timeout kill as =
     map_option (\<lambda>r. bind_res r (\<lambda>(res, _). Inr res))
       (checkOperations fuel ro srt fmtv fmts model ops False timeout kill as)"

definition CheckOperationsVerbose :: "nat \<Rightarrow> (nat list \<Rightarrow> nat list) \<Rightarrow> ('v entry list \<Rightarrow> 'v entry list) \<Rightarrow>
  ('v option \<Rightarrow> string) \<Rightarrow> ('s \<Rightarrow> string) \<Rightarrow> ('v, 's) Model \<Rightarrow> 'v Operation list \<Rightarrow>
  int \<Rightarrow> (nat \<Rightarrow> nat \<Rightarrow> bool) \<Rightarrow> arrival list \<Rightarrow> (CheckResult \<times> 'v linearizationInfo) res option" where
  "CheckOperationsVerbose fuel ro srt fmtv fmts model ops timeout kill as =
     checkOperations fuel ro srt fmtv fmts model ops True timeout kill as"

definition CheckEvents :: "nat \<Rightarrow> (nat list \<Rightarrow> nat list) \<Rightarrow> ('v option \<Rightarrow> string) \<Rightarrow> ('s \<Rightarrow> string) \<Rightarrow>
  ('v, 's) Model \<Rightarrow> 'v Event list \<Rightarrow> (nat \<Rightarrow> nat \<Rightarrow> bool) \<Rightarrow> arrival list \<Rightarrow> bool res option" where
  "CheckEvents fuel ro fmtv fmts model events kill as =
     map_option (\<lambda>r. bind_res r (\<lambda>(res, _). Inr (res = Ok)))
       (checkEvents fuel ro fmtv fmts model events False 0 kill as)"

definition CheckEventsTimeout :: "nat \<Rightarrow> (nat list \<Rightarrow> nat list) \<Rightarrow> ('v option \<Rightarrow> string) \<Rightarrow> ('s \<Rightarrow> string) \<Rightarrow>
  ('v, 's) Model \<Rightarrow> 'v Event list \<Rightarrow> int \<Rightarrow> (nat \<Rightarrow> nat \<Rightarrow> bool) \<Rightarrow> arrival list \<Rightarrow> CheckResult res option" where
  "CheckEventsTimeout fuel ro fmtv fmts model events timeout kill as =
     map_option (\<lambda>r. bind_res r (\<lambda>(res, _). Inr res))
       (checkEvents fuel ro fmtv fmts model events False timeout kill as)"

definition CheckEventsVerbose :: "nat \<Rightarrow> (nat list \<Rightarrow> nat list) \<Rightarrow> ('v option \<Rightarrow> string) \<Rightarrow> ('s \<Rightarrow> string) \<Rightarrow>
  ('v, 's) Model \<Rightarrow> 'v Event list \<Rightarrow> int \<Rightarrow> (nat \<Rightarrow> nat \<Rightarrow> bool) \<Rightarrow> arrival list \<Rightarrow>
  (CheckResult \<times> 'v linearizationInfo) res option" where
  "CheckEventsVerbose fuel ro fmtv fmts model events timeout kill as =
     checkEvents fuel ro fmtv fmts model events True timeout kill as"

end
