(* ===== verification/Porcupine_Links.thy ===== *)
theory Porcupine_Links
  imports Porcupine
begin

section \<open>Doubly linked lists of entries\<close>

text \<open>
  A list of addresses is represented by the links of a heap (\<open>dll\<close>). On such a heap
  \<open>lift\<close> takes a call and its return out of the list and leaves their own links alone, so that
  \<open>unlift\<close> restores the heap exactly; \<open>makeLinkedEntries\<close> builds the list of the history.
\<close>

fun seg :: "'v mem \<Rightarrow> nat list \<Rightarrow> bool" where
  "seg h [] = True"
| "seg h [a] = True"
| "seg h (a # b # xs) \<longleftrightarrow> nnext (h a) = Some b \<and> nprev (h b) = Some a \<and> seg h (b # xs)"

definition dll :: "'v mem \<Rightarrow> nat list \<Rightarrow> bool" where
  "dll h xs \<longleftrightarrow> xs \<noteq> [] \<and> distinct xs \<and> seg h xs \<and> nnext (h (last xs)) = None"

lemma seg_append: "seg h (xs @ b # ys) \<longleftrightarrow> seg h (xs @ [b]) \<and> seg h (b # ys)"
  by (induction h xs rule: seg.induct) (cases ys; simp; blast)+

lemma seg_snoc2: "seg h (xs @ [a, b]) \<longleftrightarrow> seg h (xs @ [a]) \<and> nnext (h a) = Some b \<and> nprev (h b) = Some a"
  using seg_append [of h xs a "[b]"] by auto

lemma seg_cong:
  "(\<And>a. a \<in> set (butlast xs) \<Longrightarrow> nnext (h' a) = nnext (h a)) \<Longrightarrow>
   (\<And>a. a \<in> set (tl xs) \<Longrightarrow> nprev (h' a) = nprev (h a)) \<Longrightarrow> seg h' xs = seg h xs"
proof (induction h xs rule: seg.induct)
  case (3 h a b xs)
  have "seg h' (b # xs) = seg h (b # xs)"
    by (rule "3.IH") (use "3.prems" in \<open>auto split: if_splits\<close>)
  then show ?case using "3.prems" by auto
qed simp_all

lemma link_simps [simp]:
  "nnext (set_next a p h b) = (if a = b then p else nnext (h b))"
  "nprev (set_next a p h b) = nprev (h b)"
  "nnext (set_prev a p h b) = nnext (h b)"
  "nprev (set_prev a p h b) = (if a = b then p else nprev (h b))"
  "nmatch (set_next a p h b) = nmatch (h b)" "nmatch (set_prev a p h b) = nmatch (h b)"
  "nid (set_next a p h b) = nid (h b)" "nid (set_prev a p h b) = nid (h b)"
  "nvalue (set_next a p h b) = nvalue (h b)" "nvalue (set_prev a p h b) = nvalue (h b)"
  by (simp_all add: set_next_def set_prev_def)

lemma node_eqI:
  "nnext x = nnext y \<Longrightarrow> nprev x = nprev y \<Longrightarrow> nmatch x = nmatch y \<Longrightarrow> nid x = nid y \<Longrightarrow>
     nvalue x = nvalue y \<Longrightarrow> x = (y :: 'v node)"
  by (cases x, cases y) simp

lemma mem_eqI:
  "(\<And>a. nnext (g a) = nnext (h a) \<and> nprev (g a) = nprev (h a) \<and> nmatch (g a) = nmatch (h a) \<and>
     nid (g a) = nid (h a) \<and> nvalue (g a) = nvalue (h a)) \<Longrightarrow> g = (h :: 'v mem)"
  by (rule ext) (blast intro: node_eqI)

subsection \<open>Taking one node out and putting it back\<close>

definition unlink :: "nat \<Rightarrow> 'v mem \<Rightarrow> 'v mem" where
  "unlink a h =
     (let h1 = set_next (the (nprev (h a))) (nnext (h a)) h
      in case nnext (h a) of None \<Rightarrow> h1 | Some n \<Rightarrow> set_prev n (nprev (h a)) h1)"

definition relink :: "nat \<Rightarrow> 'v mem \<Rightarrow> 'v mem" where
  "relink a h =
     (let h1 = set_next (the (nprev (h a))) (Some a) h
      in case nnext (h a) of None \<Rightarrow> h1 | Some n \<Rightarrow> set_prev n (Some a) h1)"

definition first_of :: "nat list \<Rightarrow> nat option" where
  "first_of xs = (case xs of [] \<Rightarrow> None | x # _ \<Rightarrow> Some x)"

lemma first_of_simps [simp]: "first_of [] = None" "first_of (x # xs) = Some x"
  by (simp_all add: first_of_def)

lemma dll_neighbours:
  assumes "dll h (us @ a # ws)"
  shows "us \<noteq> [] \<Longrightarrow> nprev (h a) = Some (last us) \<and> nnext (h (last us)) = Some a"
    and "nnext (h a) = first_of ws" and "ws \<noteq> [] \<Longrightarrow> nprev (h (hd ws)) = Some a"
proof -
  have s: "seg h (us @ [a])" "seg h (a # ws)" using assms seg_append [of h us a ws] by (auto simp: dll_def)
  show "nprev (h a) = Some (last us) \<and> nnext (h (last us)) = Some a" if "us \<noteq> []"
    using s(1) that by (cases us rule: rev_cases) (auto simp: seg_snoc2)
  show "nnext (h a) = first_of ws" using s(2) assms by (cases ws) (auto simp: dll_def)
  show "nprev (h (hd ws)) = Some a" if "ws \<noteq> []" using s(2) that by (cases ws) auto
qed

lemma unlink_fields [simp]:
  "nmatch (unlink a h b) = nmatch (h b)" "nid (unlink a h b) = nid (h b)" "nvalue (unlink a h b) = nvalue (h b)"
  by (simp_all add: unlink_def Let_def split: option.splits)

lemma unlink_links:
  assumes "dll h (us @ a # ws)" and "us \<noteq> []"
  shows "nnext (unlink a h b) = (if b = last us then first_of ws else nnext (h b))"
    and "nprev (unlink a h b) = (if ws \<noteq> [] \<and> b = hd ws then Some (last us) else nprev (h b))"
  using dll_neighbours [OF assms(1)] assms(2)
  by (auto simp: unlink_def Let_def first_of_def split: list.splits)

lemma dll_unlink:
  assumes d: "dll h (us @ a # ws)" and us: "us \<noteq> []"
  shows "dll (unlink a h) (us @ ws)"
proof -
  let ?g = "unlink a h"
  note l = unlink_links [OF d us]
  obtain us' p where p: "us = us' @ [p]" using us by (cases us rule: rev_cases) auto
  have dist: "distinct (us' @ p # a # ws)" using d p by (simp add: dll_def)
  have s: "seg h (us' @ [p])" "seg h ws"
    using d p seg_append [of h us' p "a # ws"] by (cases ws; auto simp: dll_def)+
  have sp: "seg ?g (us' @ [p])"
  proof -
    have tl: "b \<in> set us' \<or> b = p" if "b \<in> set (tl (us' @ [p]))" for b
      using that by (cases us') auto
    have w: "ws \<noteq> [] \<Longrightarrow> hd ws \<notin> set us' \<and> hd ws \<noteq> p" using dist by (auto dest: hd_in_set)
    have "seg ?g (us' @ [p]) = seg h (us' @ [p])"
      by (rule seg_cong) (use l dist p w in \<open>auto dest: tl\<close>)
    then show ?thesis using s by simp
  qed
  show ?thesis
  proof (cases ws)
    case Nil
    then show ?thesis using sp l dist p by (auto simp: dll_def)
  next
    case (Cons w ws')
    have "seg ?g ws = seg h ws"
      by (rule seg_cong) (use l dist p Cons in \<open>auto dest: in_set_butlastD split: if_splits\<close>)
    moreover have "nnext (?g p) = Some w" "nprev (?g w) = Some p" using l p Cons by simp_all
    ultimately have "seg ?g (us' @ p # ws)" using sp s Cons seg_append [of ?g us' p ws] by simp
    moreover have "nnext (?g (last ws)) = None"
    proof -
      have "last ws \<noteq> p" using dist Cons by (metis distinct.simps(2) distinct_append last_in_set list.discI list.set_intros(2))
      then show ?thesis using d Cons l p by (simp add: dll_def)
    qed
    ultimately show ?thesis using dist p Cons by (simp add: dll_def)
  qed
qed

lemma relink_unlink:
  assumes d: "dll h (us @ a # ws)" and us: "us \<noteq> []"
  shows "relink a (unlink a h) = h"
proof -
  note l = unlink_links [OF d us] and n = dll_neighbours [OF d]
  have dist: "a \<noteq> last us" "ws \<noteq> [] \<Longrightarrow> a \<noteq> hd ws" "ws \<noteq> [] \<Longrightarrow> last us \<noteq> hd ws"
    using d us by (auto simp: dll_def) (metis disjoint_iff hd_in_set last_in_set)
  have a: "nprev (unlink a h a) = Some (last us)" "nnext (unlink a h a) = first_of ws"
    using l dist n us by auto
  show ?thesis
  proof (rule mem_eqI)
    fix b
    show "nnext (relink a (unlink a h) b) = nnext (h b) \<and> nprev (relink a (unlink a h) b) = nprev (h b) \<and>
      nmatch (relink a (unlink a h) b) = nmatch (h b) \<and> nid (relink a (unlink a h) b) = nid (h b) \<and>
      nvalue (relink a (unlink a h) b) = nvalue (h b)"
      using a l n us by (cases ws) (auto simp: relink_def Let_def)
  qed
qed

subsection \<open>Lifting a call with its return\<close>

lemma dll_prev_ne: "dll h (us @ a # ws) \<Longrightarrow> us \<noteq> [] \<Longrightarrow> a \<noteq> last us"
  by (auto simp: dll_def)

lemma lift_unlink:
  assumes d: "dll h (us @ e # vs @ m # ws)" and us: "us \<noteq> []" and mt: "nmatch (h e) = Some m"
  shows "lift e h = Inr (unlink m (unlink e h))"
proof -
  have n: "nprev (h e) = Some (last us)" "nnext (h e) = first_of (vs @ m # ws)" "e \<noteq> last us"
    using dll_neighbours [OF d] us dll_prev_ne [OF d us] by auto
  obtain nx where nx: "nnext (h e) = Some nx" using n(2) by (cases vs) auto
  have d1: "dll (unlink e h) ((us @ vs) @ m # ws)" using dll_unlink [OF d us] by simp
  have ue: "unlink e h = set_prev nx (Some (last us)) (set_next (last us) (Some nx) h)"
    using n(1,3) nx by (simp add: unlink_def Let_def)
  obtain mp where mp: "nprev (unlink e h m) = Some mp" and ne: "m \<noteq> mp"
    using dll_neighbours(1) [OF d1] dll_prev_ne [OF d1] us by auto
  have h1e: "nnext (set_next (last us) (Some nx) h e) = Some nx"
    "nprev (set_next (last us) (Some nx) h e) = Some (last us)" using n nx by simp_all
  have "nnext (set_next mp (nnext (unlink e h m)) (unlink e h) m) = nnext (unlink e h m)"
    "nprev (set_next mp (nnext (unlink e h m)) (unlink e h) m) = nprev (unlink e h m)" using ne by simp_all
  then show ?thesis
    unfolding lift_def Let_def deref_def n(1) nx option.case bind_res_Inr h1e ue [symmetric] unlink_fields mt mp
    by (simp add: unlink_def [of m] Let_def mp split: option.split)
qed

lemma unlift_relink:
  assumes "nmatch (h e) = Some m" and "nprev (h m) = Some mp" and "m \<noteq> mp"
    and "nprev (relink m h e) = Some p" and "nnext (relink m h e) = Some nx" and "e \<noteq> p"
  shows "unlift e h = Inr (relink e (relink m h))"
proof -
  have r: "(case nnext (set_next mp (Some m) h m) of None \<Rightarrow> set_next mp (Some m) h
      | Some mn \<Rightarrow> set_prev mn (Some m) (set_next mp (Some m) h)) = relink m h"
    using assms(2,3) by (simp add: relink_def Let_def)
  show ?thesis
    unfolding unlift_def Let_def deref_def assms(1,2) option.case bind_res_Inr r assms(4)
    using assms(4-6) by (simp add: relink_def [of e] Let_def)
qed

text \<open>What the search relies on: lifting shortens the list by the two nodes, unlifting undoes it.\<close>

lemma lift_ok:
  assumes d: "dll h (us @ e # vs @ m # ws)" and us: "us \<noteq> []" and mt: "nmatch (h e) = Some m"
  obtains h' where "lift e h = Inr h'" and "dll h' (us @ vs @ ws)" and "unlift e h' = Inr h"
    and "\<And>b. nmatch (h' b) = nmatch (h b) \<and> nid (h' b) = nid (h b) \<and> nvalue (h' b) = nvalue (h b)"
proof -
  let ?h1 = "unlink e h" and ?h2 = "unlink m (unlink e h)"
  have d1: "dll ?h1 ((us @ vs) @ m # ws)" using dll_unlink [OF d us] by simp
  have usv: "us @ vs \<noteq> []" using us by simp
  have d2: "dll ?h2 ((us @ vs) @ ws)" by (rule dll_unlink [OF d1 usv])
  have r1: "relink m ?h2 = ?h1" by (rule relink_unlink [OF d1 usv])
  have r2: "relink e ?h1 = h" by (rule relink_unlink [OF d us])
  have e: "e \<noteq> last us" "vs @ m # ws \<noteq> []" "e \<noteq> hd (vs @ m # ws)"
    using d us by (auto simp: dll_def hd_append)
  have pe: "nprev (?h1 e) = Some (last us)" "nnext (?h1 e) = first_of (vs @ m # ws)"
    using unlink_links [OF d us, of e] dll_neighbours [OF d] us e by auto
  obtain nx where nx: "nnext (?h1 e) = Some nx" using pe(2) by (cases vs) auto
  have pm: "nprev (?h2 m) = Some (last (us @ vs))" "m \<noteq> last (us @ vs)"
    using unlink_links [OF d1 usv, of m] dll_neighbours [OF d1] usv dll_prev_ne [OF d1 usv] d1
    by (auto simp: dll_def)
  have "unlift e ?h2 = Inr (relink e (relink m ?h2))"
    by (rule unlift_relink [of ?h2 e m, OF _ pm, where p = "last us" and nx = nx])
      (use mt pe(1) nx e r1 in simp_all)
  then show ?thesis using that [of ?h2] lift_unlink [OF d us mt] d2 r1 r2 by simp
qed


subsection \<open>Building the list\<close>

text \<open>
  Entries are allocated from the last to the first, so that the node at address \<open>a\<close> holds the
  entry that has \<open>a\<close> entries after it. The match of a call is the first return of its id after
  it.
\<close>

fun ret_of :: "'v entry list \<Rightarrow> int \<Rightarrow> nat option" where
  "ret_of [] k = None"
| "ret_of (e # es) k = (if kind e = returnEntry \<and> eid e = k then Some (length es) else ret_of es k)"

definition holds :: "'v entry list \<Rightarrow> 'v mem \<Rightarrow> nat \<Rightarrow> bool" where
  "holds es h a \<longleftrightarrow>
     (let i = length es - Suc a in
      nid (h a) = eid (es ! i) \<and> nvalue (h a) = evalue (es ! i) \<and>
      nmatch (h a) = (if kind (es ! i) = returnEntry then None else ret_of (drop (Suc i) es) (eid (es ! i))))"

lemma dll_Cons:
  assumes "dll h (b # xs)" and "a \<notin> set (b # xs)" and "nprev (h b) = None"
  shows "dll (insertBefore a (Some b) h) (a # b # xs)" and "nprev (insertBefore a (Some b) h a) = nprev (h a)"
proof -
  let ?g = "set_next a (Some b) (set_prev b (Some a) h)"
  have i: "insertBefore a (Some b) h = ?g" using assms(3) by (simp add: insertBefore_def Let_def)
  have "seg ?g (b # xs) = seg h (b # xs)"
    by (rule seg_cong) (use assms in \<open>auto simp: dll_def dest: in_set_butlastD split: if_splits\<close>)
  then show "dll (insertBefore a (Some b) h) (a # b # xs)" unfolding i
    using assms by (auto simp: dll_def)
  show "nprev (insertBefore a (Some b) h a) = nprev (h a)" unfolding i using assms by auto
qed

lemma insertBefore_fields [simp]:
  "nmatch (insertBefore a r h b) = nmatch (h b)" "nid (insertBefore a r h b) = nid (h b)"
  "nvalue (insertBefore a r h b) = nvalue (h b)"
  by (auto simp: insertBefore_def Let_def split: option.splits)

text \<open>A new node in front of the list.\<close>

lemma dll_front:
  assumes "xs \<noteq> [] \<Longrightarrow> dll h xs \<and> nprev (h (hd xs)) = None" and "a \<notin> set xs" and "nnext nd = None" "nprev nd = None"
  shows "dll (insertBefore a (first_of xs) (h(a := nd))) (a # xs) \<and>
    nprev (insertBefore a (first_of xs) (h(a := nd)) a) = None"
proof (cases xs)
  case Nil
  then show ?thesis using assms(3,4) by (simp add: insertBefore_def dll_def)
next
  case (Cons b ys)
  have "seg (h(a := nd)) (b # ys) = seg h (b # ys)"
    by (rule seg_cong) (use assms(2) Cons in \<open>auto dest: in_set_butlastD split: if_splits\<close>)
  then have "dll (h(a := nd)) (b # ys)" "nprev ((h(a := nd)) b) = None"
    using assms(1,2) Cons by (auto simp: dll_def)
  then show ?thesis using dll_Cons [of "h(a := nd)" b ys a] assms(2,4) Cons by simp
qed

lemma link_foldr:
  assumes "foldr link_entry es (empty_heap, None, \<lambda>_. None) = (hp, root, mtch)"
  shows "fresh hp = length es \<and> root = first_of (rev [0..<length es]) \<and> mtch = ret_of es \<and>
    (es \<noteq> [] \<longrightarrow> dll (mem hp) (rev [0..<length es]) \<and> nprev (mem hp (length es - 1)) = None) \<and>
    (\<forall>a < length es. holds es (mem hp) a)"
  using assms
proof (induction es arbitrary: hp root mtch)
  case Nil
  then show ?case by (auto simp: empty_heap_def)
next
  case (Cons e es)
  obtain hp1 root1 m1 where r1: "foldr link_entry es (empty_heap, None, \<lambda>_. None) = (hp1, root1, m1)"
    by (metis prod_cases3)
  note ih = Cons.IH [OF r1]
  let ?n = "length es"
  define nd where "nd = new_node (evalue e) (if kind e = returnEntry then None else ret_of es (eid e)) (eid e)"
  have step: "fresh hp = Suc ?n" "root = Some ?n" "mtch = ret_of (e # es)"
      "mem hp = insertBefore ?n (first_of (rev [0..<?n])) ((mem hp1)(?n := nd))"
  proof -
    have "link_entry e (hp1, root1, m1) = (hp, root, mtch)" using Cons.prems r1 by simp
    moreover have ihs: "m1 = ret_of es" "fresh hp1 = ?n" "root1 = first_of (rev [0..<?n])" using ih by simp_all
    ultimately have le: "(hp, root, mtch) = (\<lparr>mem = insertBefore ?n (first_of (rev [0..<?n])) ((mem hp1)(?n := nd)),
        fresh = ?n + 1\<rparr>, Some ?n, if kind e then (ret_of es)(eid e \<mapsto> ?n) else ret_of es)"
      by (auto simp: link_entry_def Let_def nd_def)
    have "(if kind e then (ret_of es)(eid e \<mapsto> ?n) else ret_of es) = ret_of (e # es)"
      by (rule ext) simp
    with le show "fresh hp = Suc ?n" "root = Some ?n" "mtch = ret_of (e # es)"
        "mem hp = insertBefore ?n (first_of (rev [0..<?n])) ((mem hp1)(?n := nd))"
      by (simp_all only: prod.inject heap.simps Suc_eq_plus1)
  qed
  have d: "dll (mem hp) (?n # rev [0..<?n]) \<and> nprev (mem hp ?n) = None"
    unfolding step(4)
    by (rule dll_front) (use ih in \<open>auto simp: nd_def new_node_def hd_rev\<close>)
  have "holds (e # es) (mem hp) a" if "a < Suc ?n" for a
  proof (cases "a = ?n")
    case True
    then show ?thesis by (simp add: holds_def Let_def step(4) nd_def new_node_def)
  next
    case False
    then have a: "a < ?n" "Suc ?n - Suc a = Suc (?n - Suc a)" using that by auto
    then show ?thesis using ih by (simp add: holds_def Let_def step(4))
  qed
  then show ?case using step d by simp
qed

lemma makeLinkedEntries_ok:
  assumes "makeLinkedEntries es = (hp, root)"
  shows "fresh hp = length es \<and> root = first_of (rev [0..<length es]) \<and>
    (es \<noteq> [] \<longrightarrow> dll (mem hp) (rev [0..<length es]) \<and> nprev (mem hp (length es - 1)) = None) \<and>
    (\<forall>a < length es. holds es (mem hp) a)"
  using assms link_foldr [of es] by (auto simp: makeLinkedEntries_def split: prod.splits)

lemma node_length_dll: "dll h xs \<Longrightarrow> length xs \<le> fuel \<Longrightarrow> node_length fuel h (first_of xs) = Some (length xs)"
proof (induction xs arbitrary: fuel)
  case (Cons a xs)
  then obtain f where f: "fuel = Suc f" "length xs \<le> f" by (cases fuel) auto
  show ?case
  proof (cases xs)
    case Nil
    then show ?thesis using Cons.prems f by (simp add: dll_def)
  next
    case (Cons b ys)
    then have "dll h xs" "nnext (h a) = first_of xs" using Cons.prems by (auto simp: dll_def)
    then show ?thesis using Cons.IH [of f] f by simp
  qed
qed (simp add: dll_def)

end
