(* ===== verification/Linearizability.thy ===== *)
theory Linearizability
  imports Porcupine
begin

section \<open>Linearizability of a history\<close>

text \<open>
  The specification of the checker, independent of it. A well-formed history of \<open>n\<close> operations
  is a list of entries in which each operation has one call and, later, one return. It is
  linearizable when its operations can be put in an order that keeps the real-time order (an
  operation that returned before another was called comes first) and that the sequential model
  accepts.
\<close>

definition cpos :: "'v entry list \<Rightarrow> nat \<Rightarrow> nat" where
  "cpos es i = length (takeWhile (\<lambda>e. \<not> (kind e = callEntry \<and> eid e = int i)) es)"

definition rpos :: "'v entry list \<Rightarrow> nat \<Rightarrow> nat" where
  "rpos es i = length (takeWhile (\<lambda>e. \<not> (kind e = returnEntry \<and> eid e = int i)) es)"

definition wf_hist :: "'v entry list \<Rightarrow> nat \<Rightarrow> bool" where
  "wf_hist es n \<longleftrightarrow>
     length es = 2 * n \<and> n < 2 ^ 63 \<and>
     (\<forall>i < n. cpos es i < rpos es i \<and> rpos es i < length es) \<and>
     (\<forall>p < length es. \<exists>i < n. p = cpos es i \<or> p = rpos es i)"

fun legal :: "('v, 's) Model \<Rightarrow> 'v entry list \<Rightarrow> 's \<Rightarrow> nat list \<Rightarrow> bool" where
  "legal md es s [] = True"
| "legal md es s (i # is) =
     (case Step md s (evalue (es ! cpos es i)) (evalue (es ! rpos es i)) of
        (ok, s') \<Rightarrow> ok \<and> legal md es s' is)"

text \<open>No operation stands before one that had returned when it was called.\<close>

definition real_time :: "'v entry list \<Rightarrow> nat list \<Rightarrow> bool" where
  "real_time es is \<longleftrightarrow> sorted_wrt (\<lambda>i j. \<not> rpos es j < cpos es i) is"

definition linearization :: "('v, 's) Model \<Rightarrow> 'v entry list \<Rightarrow> nat \<Rightarrow> nat list \<Rightarrow> bool" where
  "linearization md es n is \<longleftrightarrow>
     distinct is \<and> set is = {0..<n} \<and> real_time es is \<and> legal md es (Init md) is"

definition linearizable :: "('v, 's) Model \<Rightarrow> 'v entry list \<Rightarrow> nat \<Rightarrow> bool" where
  "linearizable md es n \<longleftrightarrow> (\<exists>is. linearization md es n is)"

subsection \<open>Positions\<close>

lemma cpos_entry: "cpos es i < length es \<Longrightarrow> kind (es ! cpos es i) = callEntry \<and> eid (es ! cpos es i) = int i"
  unfolding cpos_def using nth_length_takeWhile by blast

lemma rpos_entry: "rpos es i < length es \<Longrightarrow> kind (es ! rpos es i) = returnEntry \<and> eid (es ! rpos es i) = int i"
  unfolding rpos_def using nth_length_takeWhile by blast

lemma rpos_first: "p < rpos es i \<Longrightarrow> \<not> (kind (es ! p) = returnEntry \<and> eid (es ! p) = int i)"
  unfolding rpos_def by (metis (mono_tags, lifting) nth_mem set_takeWhileD takeWhile_nth)

lemma wf_histD:
  assumes "wf_hist es n" and "i < n"
  shows "cpos es i < rpos es i" "rpos es i < length es" "cpos es i < length es"
    "kind (es ! cpos es i) = callEntry" "eid (es ! cpos es i) = int i"
    "kind (es ! rpos es i) = returnEntry" "eid (es ! rpos es i) = int i"
proof -
  show "cpos es i < rpos es i" "rpos es i < length es" using assms by (auto simp: wf_hist_def)
  then show "cpos es i < length es" by simp
  then show "kind (es ! cpos es i) = callEntry" "eid (es ! cpos es i) = int i"
    "kind (es ! rpos es i) = returnEntry" "eid (es ! rpos es i) = int i"
    using cpos_entry rpos_entry \<open>rpos es i < length es\<close> by blast+
qed

definition op_at :: "'v entry list \<Rightarrow> nat \<Rightarrow> nat" where
  "op_at es p = nat (eid (es ! p))"

lemma op_at_pos [simp]:
  assumes "wf_hist es n" and "i < n"
  shows "op_at es (cpos es i) = i" "op_at es (rpos es i) = i"
  using wf_histD [OF assms] by (simp_all add: op_at_def)

lemma wf_hist_pos:
  assumes "wf_hist es n" and "p < length es"
  shows "op_at es p < n"
    and "kind (es ! p) = callEntry \<Longrightarrow> p = cpos es (op_at es p)"
    and "kind (es ! p) = returnEntry \<Longrightarrow> p = rpos es (op_at es p)"
    and "eid (es ! p) = int (op_at es p)"
proof -
  obtain i where i: "i < n" "p = cpos es i \<or> p = rpos es i" using assms by (auto simp: wf_hist_def)
  note d = wf_histD [OF assms(1) i(1)] and o = op_at_pos [OF assms(1) i(1)]
  show "op_at es p < n" using i o by auto
  show "p = cpos es (op_at es p)" if "kind (es ! p) = callEntry" using i o d that by auto
  show "p = rpos es (op_at es p)" if "kind (es ! p) = returnEntry" using i o d that by auto
  show "eid (es ! p) = int (op_at es p)" using i o d by auto
qed

lemma wf_hist_inj:
  assumes "wf_hist es n" and "i < n" and "j < n"
  shows "cpos es i = cpos es j \<longleftrightarrow> i = j" "rpos es i = rpos es j \<longleftrightarrow> i = j" "cpos es i \<noteq> rpos es j"
  using op_at_pos [OF assms(1,2)] op_at_pos [OF assms(1,3)] wf_histD [OF assms(1,2)] wf_histD [OF assms(1,3)]
  by metis+

subsection \<open>Completing a partial linearization\<close>

text \<open>
  \<open>enabled\<close>: the operation may come next, since no operation outside \<open>L\<close> returned before
  it was called. \<open>fin\<close>: from state \<open>s\<close>, with the operations of \<open>L\<close> already placed,
  the rest can be placed.
\<close>

definition enabled :: "'v entry list \<Rightarrow> nat \<Rightarrow> nat set \<Rightarrow> nat \<Rightarrow> bool" where
  "enabled es n L i \<longleftrightarrow> i < n \<and> i \<notin> L \<and> (\<forall>j < n. j \<notin> L \<longrightarrow> \<not> rpos es j < cpos es i)"

definition op_step :: "('v, 's) Model \<Rightarrow> 'v entry list \<Rightarrow> 's \<Rightarrow> nat \<Rightarrow> bool \<times> 's" where
  "op_step md es s i = Step md s (evalue (es ! cpos es i)) (evalue (es ! rpos es i))"

inductive fin :: "('v, 's) Model \<Rightarrow> 'v entry list \<Rightarrow> nat \<Rightarrow> nat set \<Rightarrow> 's \<Rightarrow> bool" for md es n where
  all_placed: "L = {0..<n} \<Longrightarrow> fin md es n L s"
| place: "enabled es n L i \<Longrightarrow> op_step md es s i = (True, s') \<Longrightarrow> fin md es n (insert i L) s' \<Longrightarrow> fin md es n L s"

inductive_cases finE: "fin md es n L s"

lemma fin_sequence:
  "fin md es n L s \<Longrightarrow> L \<subseteq> {0..<n} \<Longrightarrow>
     \<exists>is. distinct is \<and> set is = {0..<n} - L \<and> real_time es is \<and> legal md es s is"
proof (induction rule: fin.induct)
  case (all_placed L s)
  then show ?case by (intro exI [of _ "[]"]) (simp add: real_time_def)
next
  case (place L i s s')
  then obtain js where js: "distinct js" "set js = {0..<n} - insert i L" "real_time es js" "legal md es s' js"
    by (auto simp: enabled_def)
  have "real_time es (i # js)" using js place.hyps(1) by (auto simp: real_time_def enabled_def)
  moreover have "set (i # js) = {0..<n} - L" using js(2) place.hyps(1) by (auto simp: enabled_def)
  ultimately show ?case using js place.hyps(1,2)
    by (intro exI [of _ "i # js"]) (auto simp: op_step_def)
qed

lemma sequence_fin:
  "distinct is \<Longrightarrow> set is = {0..<n} - L \<Longrightarrow> L \<subseteq> {0..<n} \<Longrightarrow> real_time es is \<Longrightarrow> legal md es s is \<Longrightarrow>
     wf_hist es n \<Longrightarrow> fin md es n L s"
proof (induction "is" arbitrary: L s)
  case Nil
  then show ?case by (intro fin.all_placed) auto
next
  case (Cons i js)
  have "i \<in> {0..<n} - L" unfolding Cons.prems(2) [symmetric] by simp
  then have i: "i < n" "i \<notin> L" by simp_all
  have en: "enabled es n L i"
    unfolding enabled_def
  proof (intro conjI allI impI i)
    fix j assume "j < n" "j \<notin> L"
    then have "j \<in> set (i # js)" unfolding Cons.prems(2) by simp
    then have "j = i \<or> j \<in> set js" by simp
    then show "\<not> rpos es j < cpos es i"
      using Cons.prems(4) wf_histD(1) [OF Cons.prems(6) i(1)] by (auto simp: real_time_def)
  qed
  obtain s' where s': "op_step md es s i = (True, s')" "legal md es s' js"
    using Cons.prems(5) by (auto simp: op_step_def split: prod.splits)
  have "set js = set (i # js) - {i}" using Cons.prems(1) by auto
  then have "set js = {0..<n} - insert i L" unfolding Cons.prems(2) by blast
  moreover have "real_time es js" using Cons.prems(4) by (simp add: real_time_def)
  ultimately have "fin md es n (insert i L) s'"
    using Cons.IH [of "insert i L" s'] Cons.prems(1,3,6) s'(2) i(1) by simp
  then show ?case by (rule fin.place [OF en s'(1)])
qed

lemma fin_linearizable: "wf_hist es n \<Longrightarrow> linearizable md es n \<longleftrightarrow> fin md es n {} (Init md)"
  using fin_sequence [of md es n "{}" "Init md"] sequence_fin [of _ n "{}" es md "Init md"]
  by (auto simp: linearizable_def linearization_def)

end
