(* ===== verification/Porcupine_Search.thy ===== *)
theory Porcupine_Search
  imports Porcupine_Links Linearizability
begin

section \<open>The search of the checker is correct\<close>

text \<open>
  The invariant of the loop of \<open>checkSingle\<close> and its consequences. It ties the linked list to
  the entries of operations not yet placed, the stack of calls to a path of legal placements, the
  bit set to the set of placed operations, and says of the search that what has been passed over
  cannot be completed: neither the calls before the current entry at each level of the stack, nor
  the cached configurations that are not on the current path.
\<close>

subsection \<open>Equality of states\<close>

text \<open>
  What the search needs of \<open>model.Equal\<close>: it is reflexive, and equal states accept the same
  operations with equal results. \<open>ShallowEqual\<close> has both.
\<close>

locale state_equality =
  fixes stp :: "'s \<Rightarrow> 'v option \<Rightarrow> 'v option \<Rightarrow> bool \<times> 's" and eq :: "'s \<Rightarrow> 's \<Rightarrow> bool"
  assumes eq_refl: "eq s s"
    and eq_step: "eq s t \<Longrightarrow> stp s v w = (True, s') \<Longrightarrow> \<exists>t'. stp t v w = (True, t') \<and> eq s' t'"

interpretation shallow: state_equality stp ShallowEqual for stp
  by unfold_locales (simp_all add: ShallowEqual_def)

lemma fin_equal:
  assumes "state_equality (Step md) eq" and "fin md es n L s" and "eq s t"
  shows "fin md es n L t"
  using assms(2,3)
proof (induction arbitrary: t rule: fin.induct)
  case (all_placed L s)
  then show ?case by (simp add: fin.all_placed)
next
  case (place L i s s')
  obtain t' where "op_step md es t i = (True, t')" "eq s' t'"
    using state_equality.eq_step [OF assms(1) place.prems] place.hyps(2) unfolding op_step_def by blast
  then show ?case using place.IH place.hyps(1) by (metis fin.place)
qed

subsection \<open>Paths of the search\<close>

text \<open>No operation called before position \<open>q\<close> leads to a completion.\<close>

definition done_before :: "('v, 's) Model \<Rightarrow> 'v entry list \<Rightarrow> nat \<Rightarrow> nat set \<Rightarrow> 's \<Rightarrow> nat \<Rightarrow> bool" where
  "done_before md es n L s q \<longleftrightarrow>
     (\<forall>i s'. enabled es n L i \<and> cpos es i < q \<and> op_step md es s i = (True, s') \<longrightarrow> \<not> fin md es n (insert i L) s')"

text \<open>The stack: operations with the state before each; \<open>K\<close> collects the configurations passed.\<close>

inductive dpath :: "('v, 's) Model \<Rightarrow> 'v entry list \<Rightarrow> nat \<Rightarrow> (nat \<times> 's) list \<Rightarrow> nat set \<Rightarrow> 's \<Rightarrow> (nat set \<times> 's) set \<Rightarrow> bool"
  for md es n where
  root: "dpath md es n [] {} (Init md) {({}, Init md)}"
| push: "dpath md es n path L s K \<Longrightarrow> enabled es n L i \<Longrightarrow> op_step md es s i = (True, s') \<Longrightarrow>
    done_before md es n L s (cpos es i) \<Longrightarrow> dpath md es n (path @ [(i, s)]) (insert i L) s' (insert (insert i L, s') K)"

lemma dpath_facts:
  "dpath md es n path L s K \<Longrightarrow>
     L = set (map fst path) \<and> distinct (map fst path) \<and> L \<subseteq> {0..<n} \<and> card L = length path \<and>
     (\<forall>(L', s') \<in> K. card L' \<le> length path) \<and> (L, s) \<in> K"
proof (induction rule: dpath.induct)
  case (push path L s K i s')
  have i: "i \<notin> L" "i < n" using push.hyps(2) by (simp_all add: enabled_def)
  have "finite L" using push.IH by (metis finite_atLeastLessThan finite_subset)
  then have c: "card (insert i L) = Suc (length path)" using push.IH i by (metis card_insert_disjoint)
  have k: "\<forall>(L', s') \<in> K. card L' \<le> Suc (length path)" using push.IH by fastforce
  have d: "distinct (map fst (path @ [(i, s)]))" "insert i L = set (map fst (path @ [(i, s)]))"
    using push.IH i by auto
  show ?case using push.IH i c k d by (auto simp del: set_map)
qed simp

lemma dpath_pop:
  assumes "dpath md es n (path @ [(i, s0)]) L s K"
  obtains L0 K0 where "dpath md es n path L0 s0 K0" and "enabled es n L0 i" and "op_step md es s0 i = (True, s)"
    and "done_before md es n L0 s0 (cpos es i)" and "L = insert i L0" and "K = insert (L, s) K0"
  using assms by (cases rule: dpath.cases) auto

lemma dpath_legal:
  "dpath md es n path L s K \<Longrightarrow> legal md es (Init md) (map fst path @ is) \<longleftrightarrow> legal md es s is"
  by (induction arbitrary: "is" rule: dpath.induct) (simp_all add: op_step_def)

lemma sorted_wrt_snoc: "sorted_wrt P (xs @ [x]) \<longleftrightarrow> sorted_wrt P xs \<and> (\<forall>y \<in> set xs. P y x)"
  by (simp add: sorted_wrt_append)

lemma dpath_order:
  "dpath md es n path L s K \<Longrightarrow> j \<in> L \<Longrightarrow> k < n \<Longrightarrow> k \<notin> L \<Longrightarrow> \<not> rpos es k < cpos es j"
  by (induction rule: dpath.induct) (auto simp: enabled_def)

lemma dpath_real_time: "dpath md es n path L s K \<Longrightarrow> real_time es (map fst path)"
proof (induction rule: dpath.induct)
  case root
  then show ?case by (simp add: real_time_def)
next
  case (push path L s K i s')
  have "\<not> rpos es i < cpos es j" if "j \<in> set (map fst path)" for j
    using dpath_order [OF push.hyps(1)] dpath_facts [OF push.hyps(1)] push.hyps(2) that
    by (simp add: enabled_def)
  then show ?case using push.IH by (auto simp: real_time_def sorted_wrt_snoc)
qed

text \<open>A path that places every operation is a linearization.\<close>

lemma dpath_complete:
  assumes "dpath md es n path {0..<n} s K"
  shows "linearization md es n (map fst path)"
proof -
  have "{0..<n} = set (map fst path)" "distinct (map fst path)" using dpath_facts [OF assms] by blast+
  then show ?thesis
    using dpath_real_time [OF assms] dpath_legal [OF assms, of "[]"] unfolding linearization_def by simp
qed

subsection \<open>Finitely many configurations\<close>

definition exec :: "('v, 's) Model \<Rightarrow> 'v entry list \<Rightarrow> nat list \<Rightarrow> 's" where
  "exec md es is = fold (\<lambda>i s. snd (op_step md es s i)) is (Init md)"

definition configs :: "('v, 's) Model \<Rightarrow> 'v entry list \<Rightarrow> nat \<Rightarrow> (nat set \<times> 's) set" where
  "configs md es n = (\<lambda>is. (set is, exec md es is)) ` {is. set is \<subseteq> {0..<n} \<and> distinct is}"

lemma finite_configs: "finite (configs md es n)"
  unfolding configs_def by (intro finite_imageI finite_subset_distinct) simp

lemma dpath_exec: "dpath md es n path L s K \<Longrightarrow> s = exec md es (map fst path)"
  by (induction rule: dpath.induct) (simp_all add: exec_def)

lemma dpath_config: "dpath md es n path L s K \<Longrightarrow> (L, s) \<in> configs md es n"
  using dpath_facts [of md es n path L s K] dpath_exec [of md es n path L s K]
  unfolding configs_def by (intro image_eqI [of _ _ "map fst path"]) auto

subsection \<open>Remaining entries\<close>

definition rem :: "'v entry list \<Rightarrow> nat set \<Rightarrow> nat list" where
  "rem es L = filter (\<lambda>p. op_at es p \<notin> L) [0..<length es]"

definition addr :: "'v entry list \<Rightarrow> nat \<Rightarrow> nat" where
  "addr es p = length es - Suc p"

lemma rem_split:
  assumes "p < length es" and "op_at es p \<notin> L"
  shows "rem es L = filter (\<lambda>p. op_at es p \<notin> L) [0..<p] @ p # filter (\<lambda>p. op_at es p \<notin> L) [Suc p..<length es]"
proof -
  have "[0..<length es] = [0..<p] @ p # [Suc p..<length es]"
    using assms(1) by (metis le_add_same_cancel1 less_imp_add_positive upt_add_eq_append upt_conv_Cons zero_le)
  then show ?thesis using assms(2) by (simp add: rem_def)
qed

lemma rem_first:
  assumes "rem es L = p # ps"
  shows "p < length es" "op_at es p \<notin> L" "\<And>q. q < length es \<Longrightarrow> op_at es q \<notin> L \<Longrightarrow> p \<le> q"
proof -
  have "p \<in> set (rem es L)" using assms by simp
  then show "p < length es" "op_at es p \<notin> L" by (auto simp: rem_def)
  have srt: "sorted (p # ps)" using assms sorted_filter [of "\<lambda>x. x" "[0..<length es]"] by (metis map_ident rem_def sorted_upt)
  show "p \<le> q" if "q < length es" "op_at es q \<notin> L" for q
  proof -
    have "q \<in> set (p # ps)" unfolding assms [symmetric] using that by (simp add: rem_def)
    then show ?thesis using srt by auto
  qed
qed

lemma rem_empty: "wf_hist es n \<Longrightarrow> L \<subseteq> {0..<n} \<Longrightarrow> rem es L = [] \<longleftrightarrow> L = {0..<n}"
proof -
  assume wf: "wf_hist es n" and L: "L \<subseteq> {0..<n}"
  have "rem es L = [] \<longleftrightarrow> (\<forall>p < length es. op_at es p \<in> L)" by (auto simp: rem_def filter_empty_conv)
  also have "\<dots> \<longleftrightarrow> {0..<n} \<subseteq> L"
  proof
    assume a: "\<forall>p < length es. op_at es p \<in> L"
    show "{0..<n} \<subseteq> L"
    proof
      fix i assume "i \<in> {0..<n}"
      then show "i \<in> L" using a wf_histD(3) [OF wf, of i] op_at_pos(1) [OF wf, of i] by auto
    qed
  next
    assume "{0..<n} \<subseteq> L"
    then show "\<forall>p < length es. op_at es p \<in> L" using wf_hist_pos(1) [OF wf] by auto
  qed
  finally show ?thesis using L by auto
qed

text \<open>The entry after position \<open>p\<close> among the remaining ones.\<close>

definition next_rem :: "'v entry list \<Rightarrow> nat set \<Rightarrow> nat \<Rightarrow> nat list" where
  "next_rem es L p = filter (\<lambda>q. op_at es q \<notin> L) [Suc p..<length es]"

lemma next_rem_first:
  assumes "next_rem es L p = q # qs"
  shows "p < q" "q < length es" "op_at es q \<notin> L"
    "\<And>r. p < r \<Longrightarrow> r < length es \<Longrightarrow> op_at es r \<notin> L \<Longrightarrow> q \<le> r"
proof -
  have q: "q \<in> set (next_rem es L p)" using assms by simp
  then show "p < q" "q < length es" "op_at es q \<notin> L" by (auto simp: next_rem_def)
  have srt: "sorted (q # qs)"
    using assms sorted_filter [of "\<lambda>x. x" "[Suc p..<length es]"] by (metis map_ident next_rem_def sorted_upt)
  show "q \<le> r" if "p < r" "r < length es" "op_at es r \<notin> L" for r
  proof -
    have "r \<in> set (q # qs)" unfolding assms [symmetric] using that by (simp add: next_rem_def)
    then show ?thesis using srt by auto
  qed
qed

lemma next_rem_call:
  assumes "wf_hist es n" and "i < n" and "i \<notin> L"
  shows "next_rem es L (cpos es i) \<noteq> []"
proof -
  have "rpos es i \<in> set (next_rem es L (cpos es i))"
    using wf_histD [OF assms(1,2)] op_at_pos [OF assms(1,2)] assms(3) by (simp add: next_rem_def)
  then show ?thesis by (metis list.set(1) empty_iff)
qed


subsection \<open>The list of the remaining entries\<close>

lemma ret_of_takeWhile:
  "length (takeWhile (\<lambda>e. \<not> (kind e = returnEntry \<and> eid e = k)) xs) < length xs \<Longrightarrow>
     ret_of xs k = Some (length xs - Suc (length (takeWhile (\<lambda>e. \<not> (kind e = returnEntry \<and> eid e = k)) xs)))"
  by (induction xs) auto

lemma takeWhile_drop:
  "k \<le> length (takeWhile P xs) \<Longrightarrow> length (takeWhile P (drop k xs)) = length (takeWhile P xs) - k"
proof (induction xs arbitrary: k)
  case (Cons x xs)
  then show ?case by (cases k) (auto split: if_splits)
qed simp

lemma ret_of_drop:
  assumes "k \<le> rpos es i" and "rpos es i < length es"
  shows "ret_of (drop k es) (int i) = Some (addr es (rpos es i))"
proof -
  let ?P = "\<lambda>e. \<not> (kind e = returnEntry \<and> eid e = int i)"
  have l: "length (takeWhile ?P (drop k es)) = rpos es i - k"
    using takeWhile_drop [of k ?P es] assms(1) by (simp add: rpos_def)
  have "ret_of (drop k es) (int i) = Some (length (drop k es) - Suc (length (takeWhile ?P (drop k es))))"
    by (rule ret_of_takeWhile) (use l assms in simp)
  then show ?thesis using l assms by (simp add: addr_def)
qed

lemma addr_inj: "p < length es \<Longrightarrow> q < length es \<Longrightarrow> addr es p = addr es q \<longleftrightarrow> p = q"
  by (auto simp: addr_def)

text \<open>The node of an entry holds it, and a call's match is the node of its return.\<close>

lemma holds_call:
  assumes "wf_hist es n" and "i < n" and "\<forall>a < length es. holds es h a"
  shows "nid (h (addr es (cpos es i))) = int i" "nvalue (h (addr es (cpos es i))) = evalue (es ! cpos es i)"
    "nmatch (h (addr es (cpos es i))) = Some (addr es (rpos es i))"
    "nid (h (addr es (rpos es i))) = int i" "nvalue (h (addr es (rpos es i))) = evalue (es ! rpos es i)"
    "nmatch (h (addr es (rpos es i))) = None"
proof -
  note d = wf_histD [OF assms(1,2)]
  have a: "addr es p < length es" "length es - Suc (addr es p) = p" if "p < length es" for p
    using that by (simp_all add: addr_def)
  have "holds es h (addr es (cpos es i))" "holds es h (addr es (rpos es i))" using assms(3) a d by auto
  then show "nid (h (addr es (cpos es i))) = int i" "nvalue (h (addr es (cpos es i))) = evalue (es ! cpos es i)"
    "nmatch (h (addr es (cpos es i))) = Some (addr es (rpos es i))"
    "nid (h (addr es (rpos es i))) = int i" "nvalue (h (addr es (rpos es i))) = evalue (es ! rpos es i)"
    "nmatch (h (addr es (rpos es i))) = None"
    using d a [OF d(3)] a [OF d(2)] ret_of_drop [of "Suc (cpos es i)" es i] by (simp_all add: holds_def Let_def)
qed

text \<open>Heaps reached from \<open>h0\<close> by lifting the operations \<open>is\<close> one after the other.\<close>

definition listed :: "'v entry list \<Rightarrow> nat set \<Rightarrow> 'v mem \<Rightarrow> bool" where
  "listed es L h \<longleftrightarrow> dll h (length es # map (addr es) (rem es L)) \<and> (\<forall>a < length es. holds es h a)"

inductive lifts :: "'v entry list \<Rightarrow> 'v mem \<Rightarrow> nat list \<Rightarrow> 'v mem \<Rightarrow> bool" for es h0 where
  none: "listed es {} h0 \<Longrightarrow> lifts es h0 [] h0"
| one: "lifts es h0 is h \<Longrightarrow> unlift (addr es (cpos es i)) h' = Inr h \<Longrightarrow> listed es (set (is @ [i])) h' \<Longrightarrow>
    lifts es h0 (is @ [i]) h'"

lemma lifts_listed: "lifts es h0 is h \<Longrightarrow> listed es (set is) h"
  by (cases rule: lifts.cases) auto

lemma lifts_unlift: "lifts es h0 (is @ [i]) h \<Longrightarrow> \<exists>h'. unlift (addr es (cpos es i)) h = Inr h' \<and> lifts es h0 is h'"
  by (cases rule: lifts.cases) auto

lemma rem_insert:
  assumes wf: "wf_hist es n" and i: "i < n" "i \<notin> L"
  obtains us vs ws where "rem es L = us @ cpos es i # vs @ rpos es i # ws" and "rem es (insert i L) = us @ vs @ ws"
proof -
  let ?P = "\<lambda>p. op_at es p \<notin> L" and ?Q = "\<lambda>p. op_at es p \<notin> insert i L"
  let ?c = "cpos es i" and ?r = "rpos es i" and ?N = "length es"
  note d = wf_histD [OF wf i(1)] and o = op_at_pos [OF wf i(1)]
  have u: "[0..<?N] = [0..<?c] @ ?c # [Suc ?c..<?r] @ ?r # [Suc ?r..<?N]"
  proof -
    have "[0..<?N] = [0..<?c] @ [?c..<?N]" using d(3) upt_add_eq_append [of 0 ?c "?N - ?c"] by simp
    also have "[?c..<?N] = ?c # [Suc ?c..<?N]" using d(3) by (simp add: upt_conv_Cons)
    also have "[Suc ?c..<?N] = [Suc ?c..<?r] @ [?r..<?N]"
      using d(1,2) upt_add_eq_append [of "Suc ?c" ?r "?N - ?r"] by simp
    also have "[?r..<?N] = ?r # [Suc ?r..<?N]" using d(2) by (simp add: upt_conv_Cons)
    finally show ?thesis .
  qed
  have eq: "?P p = ?Q p" if "p < ?N" "p \<noteq> ?c" "p \<noteq> ?r" for p
  proof -
    have "op_at es p \<noteq> i" using wf_hist_pos(2,3) [OF wf that(1)] that(2,3) by metis
    then show ?thesis by simp
  qed
  have f: "filter ?Q [0..<?c] = filter ?P [0..<?c]" "filter ?Q [Suc ?c..<?r] = filter ?P [Suc ?c..<?r]"
    "filter ?Q [Suc ?r..<?N] = filter ?P [Suc ?r..<?N]"
    by (rule filter_cong; use d eq in force)+
  have 1: "rem es L = filter ?P [0..<?c] @ ?c # filter ?P [Suc ?c..<?r] @ ?r # filter ?P [Suc ?r..<?N]"
    using o i(2) by (simp add: rem_def u)
  have 2: "rem es (insert i L) = filter ?P [0..<?c] @ filter ?P [Suc ?c..<?r] @ filter ?P [Suc ?r..<?N]"
    using o f by (simp add: rem_def u)
  show ?thesis using that [OF 1 2] .
qed

lemma lifts_lift:
  assumes wf: "wf_hist es n" and l: "lifts es h0 is h" and i: "i < n" "i \<notin> set is"
  obtains h' where "lift (addr es (cpos es i)) h = Inr h'" and "lifts es h0 (is @ [i]) h'"
proof -
  obtain us vs ws where r: "rem es (set is) = us @ cpos es i # vs @ rpos es i # ws"
      "rem es (insert i (set is)) = us @ vs @ ws"
    using rem_insert [OF wf i] by blast
  have li: "listed es (set is) h" by (rule lifts_listed [OF l])
  then have d: "dll h ((length es # map (addr es) us) @ addr es (cpos es i) # map (addr es) vs @
      addr es (rpos es i) # map (addr es) ws)"
    and ho: "\<forall>a < length es. holds es h a"
    by (simp_all add: listed_def r)
  obtain h' where h': "lift (addr es (cpos es i)) h = Inr h'" "unlift (addr es (cpos es i)) h' = Inr h"
      "dll h' ((length es # map (addr es) us) @ map (addr es) vs @ map (addr es) ws)"
      "\<And>b. nmatch (h' b) = nmatch (h b) \<and> nid (h' b) = nid (h b) \<and> nvalue (h' b) = nvalue (h b)"
    using lift_ok [OF d _ holds_call(3) [OF wf i(1) ho]] by blast
  have "listed es (set (is @ [i])) h'"
    using h'(3,4) ho r(2) by (simp add: listed_def holds_def)
  then show ?thesis using that h'(1) lifts.one [OF l h'(2)] by blast
qed

text \<open>Following the links.\<close>

lemma listed_next:
  assumes "listed es L h" and "p < length es" and "op_at es p \<notin> L"
  shows "nnext (h (addr es p)) = first_of (map (addr es) (next_rem es L p))"
proof -
  have "dll h ((length es # map (addr es) (filter (\<lambda>p. op_at es p \<notin> L) [0..<p])) @
      addr es p # map (addr es) (next_rem es L p))"
    using assms(1) rem_split [OF assms(2,3)] by (simp add: listed_def next_rem_def)
  from dll_neighbours(2) [OF this] show ?thesis .
qed

lemma listed_head: "listed es L h \<Longrightarrow> nnext (h (length es)) = first_of (map (addr es) (rem es L))"
  using dll_neighbours(2) [of h "[]" "length es" "map (addr es) (rem es L)"] by (simp add: listed_def)

end
