(* ===== verification/Porcupine_Check.thy ===== *)
theory Porcupine_Check
  imports Porcupine_Search
begin

section \<open>The loop of checkSingle\<close>

text \<open>The loop invariant, each kind of iteration, and the result of the whole search.\<close>

text \<open>
  A partial linearization: some operations in an order the model accepts, which keeps the real-time
  order among them and to the operations that are left out; it is empty only when there are none.
\<close>

definition partial_linearization :: "('v, 's) Model \<Rightarrow> 'v entry list \<Rightarrow> nat \<Rightarrow> int list \<Rightarrow> bool" where
  "partial_linearization md es n q \<longleftrightarrow>
     (\<exists>is. q = map int is \<and> distinct is \<and> set is \<subseteq> {0..<n} \<and> real_time es is \<and> legal md es (Init md) is \<and>
        (\<forall>i \<in> set is. \<forall>j < n. j \<notin> set is \<longrightarrow> \<not> rpos es j < cpos es i) \<and> (is = [] \<longrightarrow> n = 0))"

definition cache_set :: "'s cache \<Rightarrow> (nat set \<times> 's) set" where
  "cache_set c = {(bits_of b, t) | b t k. (b, t) \<in> set (c k)}"

definition cache_ok :: "nat \<Rightarrow> 's cache \<Rightarrow> bool" where
  "cache_ok n c \<longleftrightarrow> (\<forall>k b t. (b, t) \<in> set (c k) \<longrightarrow> bitset_hash b = k \<and> length b = length (newBitset n))"

definition longest_ok :: "('v, 's) Model \<Rightarrow> 'v entry list \<Rightarrow> nat \<Rightarrow> nat option list \<Rightarrow> int list list \<Rightarrow> bool" where
  "longest_ok md es n lg sq \<longleftrightarrow>
     length lg = n \<and> (\<forall>q. Some q \<in> set lg \<longrightarrow> q < length sq) \<and> (\<forall>q \<in> set sq. partial_linearization md es n q)"

definition rep :: "('v, 's) Model \<Rightarrow> 'v entry list \<Rightarrow> nat \<Rightarrow> 'v mem \<Rightarrow> ('v, 's) search \<Rightarrow> (nat \<times> 's) list \<Rightarrow> nat set \<Rightarrow> bool" where
  "rep md es n h0 st path L \<longleftrightarrow>
     lifts es h0 (map fst path) (hmem st) \<and>
     calls st = map (\<lambda>(i, s). (addr es (cpos es i), s)) path \<and>
     bits_of (linearized st) = L \<and> length (linearized st) = length (newBitset n) \<and>
     cache_ok n (cache st) \<and> longest_ok md es n (longest st) (seqs st)"

definition search_inv :: "('v, 's) Model \<Rightarrow> 'v entry list \<Rightarrow> nat \<Rightarrow> 'v mem \<Rightarrow> ('v, 's) search \<Rightarrow>
  (nat \<times> 's) list \<Rightarrow> nat set \<Rightarrow> (nat set \<times> 's) set \<Rightarrow> nat \<Rightarrow> bool" where
  "search_inv md es n h0 st path L K p \<longleftrightarrow>
     dpath md es n path L (sstate st) K \<and> rep md es n h0 st path L \<and>
     cache_set (cache st) \<subseteq> configs md es n \<and>
     (\<forall>L' t. (L', t) \<in> cache_set (cache st) \<longrightarrow> (L', t) \<in> K \<or> \<not> fin md es n L' t) \<and>
     (rem es L \<noteq> [] \<longrightarrow> cur st = Some (addr es p) \<and> p < length es \<and> op_at es p \<notin> L \<and>
        done_before md es n L (sstate st) p \<and> (\<forall>j < n. j \<notin> L \<longrightarrow> p \<le> rpos es j))"

text \<open>What decreases: configurations not yet cached, then the stack, then the entries ahead.\<close>

definition rank :: "('v, 's) Model \<Rightarrow> 'v entry list \<Rightarrow> nat \<Rightarrow> ('v, 's) search \<Rightarrow> nat \<Rightarrow> nat \<times> nat \<times> nat" where
  "rank md es n st p =
     (card (configs md es n - cache_set (cache st)), length (calls st), length es - p)"

definition smaller :: "((nat \<times> nat \<times> nat) \<times> (nat \<times> nat \<times> nat)) set" where
  "smaller = less_than <*lex*> less_than <*lex*> less_than"

lemma wf_smaller: "wf smaller"
  by (auto simp: smaller_def)

subsection \<open>Bits, cache and stack\<close>

lemma to_uint_id: "wf_hist es n \<Longrightarrow> i < n \<Longrightarrow> to_uint (int i) = i"
  by (simp add: wf_hist_def to_uint_def)

lemma capacity: "i < n \<Longrightarrow> length b = length (newBitset n) \<Longrightarrow> i < 64 * length b"
  using newBitset_capacity [of n] by simp

lemma bit_set_insert:
  assumes "i < n" and "length b = length (newBitset n)"
  obtains b' where "bit_set b i = Inr b'" and "bits_of b' = insert i (bits_of b)" and "length b' = length (newBitset n)"
  using bit_set_ok [OF capacity [OF assms]] bits_of_bit_set [OF _ capacity [OF assms]] length_bit_set assms(2)
  by (metis)

lemma bit_clear_remove:
  assumes "i < n" and "length b = length (newBitset n)"
  obtains b' where "bit_clear b i = Inr b'" and "bits_of b' = bits_of b - {i}" and "length b' = length (newBitset n)"
  using bit_clear_ok [OF capacity [OF assms]] bits_of_bit_clear [OF _ capacity [OF assms]] length_bit_clear assms(2)
  by (metis)

lemma contains_loop_ok:
  "Equal md = Some eq \<Longrightarrow>
     contains_loop md en c = Inr (\<exists>(b, t) \<in> set c. fst en = b \<and> eq (snd en) t)"
  by (induction c) (auto simp: model_Equal_def)

lemma cacheContains_ok:
  assumes "Equal md = Some eq" and "cache_ok n c" and "length b = length (newBitset n)"
  shows "cacheContains md c (b, s) = Inr (\<exists>t. (bits_of b, t) \<in> cache_set c \<and> eq s t)"
proof -
  have "(\<exists>(b', t) \<in> set (c (bitset_hash b)). b = b' \<and> eq s t) \<longleftrightarrow> (\<exists>t. (bits_of b, t) \<in> cache_set c \<and> eq s t)"
  proof
    assume "\<exists>t. (bits_of b, t) \<in> cache_set c \<and> eq s t"
    then obtain t b' k where t: "eq s t" "(b', t) \<in> set (c k)" "bits_of b = bits_of b'"
      by (auto simp: cache_set_def)
    then have "b = b'" using bits_of_inject assms(2,3) by (metis cache_ok_def)
    moreover have "bitset_hash b' = k" using t(2) assms(2) by (auto simp: cache_ok_def)
    ultimately show "\<exists>(b', t) \<in> set (c (bitset_hash b)). b = b' \<and> eq s t" using t by blast
  qed (auto simp: cache_set_def)
  then show ?thesis using contains_loop_ok [OF assms(1), of "(b, s)"] by (simp add: cacheContains_def)
qed

definition cache_add :: "'s cache \<Rightarrow> bitset \<Rightarrow> 's \<Rightarrow> 's cache" where
  "cache_add c b s = c(bitset_hash b := c (bitset_hash b) @ [(b, s)])"

lemma cache_add_set: "cache_set (cache_add c b s) = insert (bits_of b, s) (cache_set c)"
proof -
  have "(b', t) \<in> set (cache_add c b s k) \<longleftrightarrow> (b', t) \<in> set (c k) \<or> k = bitset_hash b \<and> b' = b \<and> t = s" for b' t k
    by (auto simp: cache_add_def)
  then show ?thesis unfolding cache_set_def by auto
qed

lemma cache_add_ok: "cache_ok n c \<Longrightarrow> length b = length (newBitset n) \<Longrightarrow> cache_ok n (cache_add c b s)"
  by (auto simp: cache_ok_def cache_add_def)

lemma rep_node:
  assumes "rep md es n h0 st path L" and "wf_hist es n" and "i < n"
  shows "nid (hmem st (addr es (cpos es i))) = int i"
    "nvalue (hmem st (addr es (cpos es i))) = evalue (es ! cpos es i)"
    "nmatch (hmem st (addr es (cpos es i))) = Some (addr es (rpos es i))"
    "nvalue (hmem st (addr es (rpos es i))) = evalue (es ! rpos es i)"
    "nmatch (hmem st (addr es (rpos es i))) = None"
proof -
  have "\<forall>a < length es. holds es (hmem st) a"
    using lifts_listed assms(1) by (fastforce simp: rep_def listed_def)
  from holds_call [OF assms(2,3) this]
  show "nid (hmem st (addr es (cpos es i))) = int i"
    "nvalue (hmem st (addr es (cpos es i))) = evalue (es ! cpos es i)"
    "nmatch (hmem st (addr es (cpos es i))) = Some (addr es (rpos es i))"
    "nvalue (hmem st (addr es (rpos es i))) = evalue (es ! rpos es i)"
    "nmatch (hmem st (addr es (rpos es i))) = None" by simp_all
qed

lemma call_ids_path:
  assumes "rep md es n h0 st path L" and "wf_hist es n" and "set (map fst path) \<subseteq> {0..<n}"
  shows "call_ids st = map int (map fst path)"
proof -
  have "calls st = map (\<lambda>(i, s). (addr es (cpos es i), s)) path" using assms(1) by (simp add: rep_def)
  moreover have "nid (hmem st (addr es (cpos es i))) = int i" if "(i, s) \<in> set path" for i s
    using rep_node(1) [OF assms(1,2)] assms(3) that by force
  ultimately show ?thesis by (auto simp: call_ids_def)
qed

subsection \<open>Where the search stands\<close>

lemma done_before_next:
  assumes wf: "wf_hist es n" and q: "next_rem es L (cpos es i) = q # qs" and i: "i < n"
    and d: "done_before md es n L s (cpos es i)"
    and no: "\<And>s'. op_step md es s i = (True, s') \<Longrightarrow> \<not> fin md es n (insert i L) s'"
  shows "done_before md es n L s q"
  unfolding done_before_def
proof (intro allI impI)
  fix j s' assume a: "enabled es n L j \<and> cpos es j < q \<and> op_step md es s j = (True, s')"
  then have j: "j < n" "j \<notin> L" by (auto simp: enabled_def)
  show "\<not> fin md es n (insert j L) s'"
  proof (cases "cpos es j" "cpos es i" rule: linorder_cases)
    case less
    then show ?thesis using d a by (auto simp: done_before_def)
  next
    case equal
    then have "j = i" using wf_hist_inj(1) [OF wf j(1) i] by simp
    then show ?thesis using no a by simp
  next
    case greater
    have "q \<le> cpos es j"
      by (rule next_rem_first(4) [OF q greater]) (use wf_histD(3) [OF wf j(1)] op_at_pos(1) [OF wf j(1)] j in simp_all)
    then show ?thesis using a by simp
  qed
qed

lemma return_after:
  assumes wf: "wf_hist es n" and q: "next_rem es L p = q # qs" and j: "j < n" "j \<notin> L" "p < rpos es j"
  shows "q \<le> rpos es j"
  by (rule next_rem_first(4) [OF q j(3)]) (use wf_histD(2) [OF wf j(1)] op_at_pos(2) [OF wf j(1)] j in simp_all)

lemma done_before_first:
  assumes wf: "wf_hist es n" and "rem es L = q # qs"
  shows "done_before md es n L s q"
  unfolding done_before_def
proof (intro allI impI)
  fix j s' assume a: "enabled es n L j \<and> cpos es j < q \<and> op_step md es s j = (True, s')"
  then have j: "j < n" "j \<notin> L" by (auto simp: enabled_def)
  have "q \<le> cpos es j"
    by (rule rem_first(3) [OF assms(2)]) (use wf_histD(3) [OF wf j(1)] op_at_pos(1) [OF wf j(1)] j in simp_all)
  then show "\<not> fin md es n (insert j L) s'" using a by simp
qed

text \<open>At a return entry every operation that could come next has been tried.\<close>

lemma stuck:
  assumes "wf_hist es n" and "j < n" and "j \<notin> L" and "done_before md es n L s (rpos es j)"
  shows "\<not> fin md es n L s"
proof
  assume "fin md es n L s"
  then show False
  proof (cases rule: fin.cases)
    case all_placed
    then show ?thesis using assms(2,3) by simp
  next
    case (place i s')
    have "i < n" using place(1) by (simp add: enabled_def)
    then have "cpos es i \<noteq> rpos es j" using wf_hist_inj(3) [OF assms(1) _ assms(2)] by blast
    then have "cpos es i < rpos es j" using place(1) assms(2,3) by (auto simp: enabled_def)
    then show ?thesis using assms(4) place by (auto simp: done_before_def)
  qed
qed


subsection \<open>Iterations\<close>

lemma search_invD:
  assumes "search_inv md es n h0 st path L K p"
  shows "dpath md es n path L (sstate st) K" "rep md es n h0 st path L"
    "cache_set (cache st) \<subseteq> configs md es n"
    "\<And>L' t. (L', t) \<in> cache_set (cache st) \<Longrightarrow> (L', t) \<in> K \<or> \<not> fin md es n L' t"
    "rem es L \<noteq> [] \<Longrightarrow> cur st = Some (addr es p)" "rem es L \<noteq> [] \<Longrightarrow> p < length es"
    "rem es L \<noteq> [] \<Longrightarrow> op_at es p \<notin> L" "rem es L \<noteq> [] \<Longrightarrow> done_before md es n L (sstate st) p"
    "listed es L (hmem st)" "L \<subseteq> {0..<n}" "L = set (map fst path)"
    "\<And>j. rem es L \<noteq> [] \<Longrightarrow> j < n \<Longrightarrow> j \<notin> L \<Longrightarrow> p \<le> rpos es j"
proof -
  show d: "dpath md es n path L (sstate st) K" and r: "rep md es n h0 st path L"
    and "cache_set (cache st) \<subseteq> configs md es n"
    and "\<And>L' t. (L', t) \<in> cache_set (cache st) \<Longrightarrow> (L', t) \<in> K \<or> \<not> fin md es n L' t"
    and "rem es L \<noteq> [] \<Longrightarrow> cur st = Some (addr es p)" "rem es L \<noteq> [] \<Longrightarrow> p < length es"
    "rem es L \<noteq> [] \<Longrightarrow> op_at es p \<notin> L" "rem es L \<noteq> [] \<Longrightarrow> done_before md es n L (sstate st) p"
    "\<And>j. rem es L \<noteq> [] \<Longrightarrow> j < n \<Longrightarrow> j \<notin> L \<Longrightarrow> p \<le> rpos es j"
    using assms by (auto simp: search_inv_def)
  show L: "L = set (map fst path)" "L \<subseteq> {0..<n}" using dpath_facts [OF d] by blast+
  show "listed es L (hmem st)" using lifts_listed r unfolding rep_def L(1) by blast
qed

lemma head_end:
  assumes "search_inv md es n h0 st path L K p"
  shows "nnext (hmem st (length es)) = None \<longleftrightarrow> rem es L = []"
  using listed_head [OF search_invD(9) [OF assms]] by (cases "rem es L") simp_all

lemma iter_end:
  assumes "wf_hist es n" and "search_inv md es n h0 st path L K p" and "rem es L = []"
  shows "check_iter md cp (length es) n kill st = Inr (Inl (True, complete n st))"
    and "linearization md es n (map fst path)" and "call_ids st = map int (map fst path)"
proof -
  note D = search_invD [OF assms(2)]
  show "check_iter md cp (length es) n kill st = Inr (Inl (True, complete n st))"
    using head_end [OF assms(2)] assms(3) by (simp add: check_iter_def)
  have "L = {0..<n}" using rem_empty [OF assms(1) D(10)] assms(3) by simp
  then show "linearization md es n (map fst path)" using dpath_complete D(1) by metis
  show "call_ids st = map int (map fst path)" using call_ids_path [OF D(2) assms(1)] D(10,11) by simp
qed

text \<open>A call entry that is passed over: rejected by the model, or in the cache.\<close>

lemma inv_skip:
  assumes wf: "wf_hist es n" and inv: "search_inv md es n h0 st path L K (cpos es i)" and i: "i < n" "i \<notin> L"
    and no: "\<And>s'. op_step md es (sstate st) i = (True, s') \<Longrightarrow> \<not> fin md es n (insert i L) s'"
  shows "\<exists>q. search_inv md es n h0 (st\<lparr>cur := nnext (hmem st (addr es (cpos es i)))\<rparr>) path L K q \<and>
    (rank md es n (st\<lparr>cur := nnext (hmem st (addr es (cpos es i)))\<rparr>) q, rank md es n st (cpos es i)) \<in> smaller"
proof -
  note D = search_invD [OF inv] and c = wf_histD(3) [OF wf i(1)]
  obtain q qs where q: "next_rem es L (cpos es i) = q # qs"
    using next_rem_call [OF wf i] by (cases "next_rem es L (cpos es i)") auto
  have op: "op_at es (cpos es i) \<notin> L" using op_at_pos(1) [OF wf i(1)] i(2) by simp
  have ne: "rem es L \<noteq> []" using rem_split [OF c op] by simp
  have nx: "nnext (hmem st (addr es (cpos es i))) = Some (addr es q)"
    using listed_next [OF D(9) c op] q by simp
  have db: "done_before md es n L (sstate st) q"
    by (rule done_before_next [OF wf q i(1) D(8) [OF ne] no])
  have ra: "q \<le> rpos es j" if "j < n" "j \<notin> L" for j
  proof (rule return_after [OF wf q that])
    show "cpos es i < rpos es j" using D(12) [OF ne that] wf_hist_inj(3) [OF wf i(1) that(1)] by linarith
  qed
  have "search_inv md es n h0 (st\<lparr>cur := Some (addr es q)\<rparr>) path L K q"
    using inv next_rem_first(2,3) [OF q] db ra by (simp add: search_inv_def rep_def)
  then show ?thesis unfolding nx
    using next_rem_first(1,2) [OF q] by (intro exI [of _ q]) (simp add: rank_def smaller_def)
qed

text \<open>A call entry that is placed.\<close>

lemma inv_push:
  assumes wf: "wf_hist es n" and inv: "search_inv md es n h0 st path L K (cpos es i)" and i: "i < n" "i \<notin> L"
    and en: "enabled es n L i" and st: "op_step md es (sstate st) i = (True, s')"
    and b: "bits_of b = insert i L" "length b = length (newBitset n)"
    and new: "(insert i L, s') \<notin> cache_set (cache st)"
  shows "\<exists>h' q. lift (addr es (cpos es i)) (hmem st) = Inr h' \<and>
    (let st' = st\<lparr>cache := cache_add (cache st) b s', calls := calls st @ [(addr es (cpos es i), sstate st)],
                sstate := s', linearized := b, hmem := h', cur := nnext (h' (length es))\<rparr>
     in search_inv md es n h0 st' (path @ [(i, sstate st)]) (insert i L) (insert (insert i L, s') K) q \<and>
        (rank md es n st' q, rank md es n st (cpos es i)) \<in> smaller)"
proof -
  note D = search_invD [OF inv] and c = wf_histD(3) [OF wf i(1)]
  have op: "op_at es (cpos es i) \<notin> L" using op_at_pos(1) [OF wf i(1)] i(2) by simp
  have ne: "rem es L \<noteq> []" using rem_split [OF c op] by simp
  have li: "lifts es h0 (map fst path) (hmem st)" using D(2) by (simp add: rep_def)
  have ni: "i \<notin> set (map fst path)" using i(2) D(11) by blast
  obtain h' where h': "lift (addr es (cpos es i)) (hmem st) = Inr h'" "lifts es h0 (map fst path @ [i]) h'"
    by (rule lifts_lift [OF wf li i(1) ni])
  define q where "q = (case rem es (insert i L) of [] \<Rightarrow> 0 | q # _ \<Rightarrow> q)"
  let ?st' = "st\<lparr>cache := cache_add (cache st) b s', calls := calls st @ [(addr es (cpos es i), sstate st)],
                sstate := s', linearized := b, hmem := h', cur := nnext (h' (length es))\<rparr>"
  have dp: "dpath md es n (path @ [(i, sstate st)]) (insert i L) s' (insert (insert i L, s') K)"
    by (rule dpath.push [OF D(1) en st D(8) [OF ne]])
  have li': "listed es (insert i L) h'" using lifts_listed [OF h'(2)] D(11) by simp
  have rp: "rep md es n h0 ?st' (path @ [(i, sstate st)]) (insert i L)"
    using D(2) h'(2) b cache_add_ok [of n "cache st" b s'] by (simp add: rep_def)
  have cs: "cache_set (cache ?st') = insert (insert i L, s') (cache_set (cache st))"
    by (simp add: cache_add_set b(1))
  have cur: "cur ?st' = Some (addr es q) \<and> q < length es \<and> op_at es q \<notin> insert i L \<and>
      done_before md es n (insert i L) s' q \<and> (\<forall>j < n. j \<notin> insert i L \<longrightarrow> q \<le> rpos es j)" if ne': "rem es (insert i L) \<noteq> []"
  proof -
    obtain qs where qs: "rem es (insert i L) = q # qs" using ne' unfolding q_def by (cases "rem es (insert i L)") auto
    have "q \<le> rpos es j" if "j < n" "j \<notin> insert i L" for j
      by (rule rem_first(3) [OF qs]) (use wf_histD(2) [OF wf that(1)] op_at_pos(2) [OF wf that(1)] that in simp_all)
    then show ?thesis using listed_head [OF li'] rem_first(1,2) [OF qs] done_before_first [OF wf qs] qs by simp
  qed
  have "search_inv md es n h0 ?st' (path @ [(i, sstate st)]) (insert i L) (insert (insert i L, s') K) q"
    unfolding search_inv_def cs
    using dp rp D(3,4) dpath_config [OF dp] cur by auto
  moreover have "(rank md es n ?st' q, rank md es n st (cpos es i)) \<in> smaller"
  proof -
    have "configs md es n - cache_set (cache ?st') \<subset> configs md es n - cache_set (cache st)"
      unfolding cs using new dpath_config [OF dp] by blast
    then have "card (configs md es n - cache_set (cache ?st')) < card (configs md es n - cache_set (cache st))"
      by (intro psubset_card_mono) (simp_all add: finite_configs)
    then show ?thesis by (simp add: rank_def smaller_def)
  qed
  ultimately show ?thesis using h'(1) by (intro exI [of _ h'] exI [of _ q]) (simp add: Let_def)
qed


lemma iter_call:
  assumes wf: "wf_hist es n" and eq: "Equal md = Some eq" "state_equality (Step md) eq"
    and inv: "search_inv md es n h0 st path L K (cpos es i)" and i: "i < n" "i \<notin> L"
  shows "\<exists>st' path' L' K' q. check_iter md cp (length es) n False st = Inr (Inr st') \<and>
    search_inv md es n h0 st' path' L' K' q \<and> (rank md es n st' q, rank md es n st (cpos es i)) \<in> smaller"
proof -
  note D = search_invD [OF inv] and c = wf_histD(3) [OF wf i(1)]
  let ?a = "addr es (cpos es i)" and ?s = "sstate st"
  have op: "op_at es (cpos es i) \<notin> L" using op_at_pos(1) [OF wf i(1)] i(2) by simp
  have ne: "rem es L \<noteq> []" using rem_split [OF c op] by simp
  have en: "enabled es n L i" using i D(12) [OF ne] by (auto simp: enabled_def not_less)
  note nd = rep_node [OF D(2) wf i(1)]
  have iter: "check_iter md cp (length es) n False st =
      bind_res (try_call md (length es) ?a (addr es (rpos es i)) st) (\<lambda>st'. Inr (Inr st'))"
    using head_end [OF inv] ne D(5) [OF ne] nd by (auto simp: check_iter_def deref_def)
  have stp: "Step md ?s (nvalue (hmem st ?a)) (nvalue (hmem st (addr es (rpos es i)))) = op_step md es ?s i"
    using nd by (simp add: op_step_def)
  have bl: "bits_of (linearized st) = L" "length (linearized st) = length (newBitset n)" "cache_ok n (cache st)"
    using D(2) by (simp_all add: rep_def)
  obtain b where b: "bit_set (linearized st) i = Inr b" "bits_of b = insert i L" "length b = length (newBitset n)"
    using bit_set_insert [OF i(1) bl(2)] bl(1) by metis
  have uid: "to_uint (nid (hmem st ?a)) = i" using nd to_uint_id [OF wf i(1)] by simp
  obtain ok s' where os: "op_step md es ?s i = (ok, s')" by force
  define hit where "hit = (\<exists>t. (insert i L, t) \<in> cache_set (cache st) \<and> eq s' t)"
  have cc: "cacheContains md (cache st) (b, s') = Inr hit"
    using cacheContains_ok [OF eq(1) bl(3) b(3), of s'] b(2) by (simp add: hit_def)
  show ?thesis
  proof (cases "ok \<and> \<not> hit")
    case True
    then have "(insert i L, s') \<notin> cache_set (cache st)"
      using state_equality.eq_refl [OF eq(2)] by (auto simp: hit_def)
    from inv_push [OF wf inv i en _ b(2,3) this] os True
    obtain h' q where p: "lift ?a (hmem st) = Inr h'"
      "search_inv md es n h0 (st\<lparr>cache := cache_add (cache st) b s', calls := calls st @ [(?a, ?s)],
                sstate := s', linearized := b, hmem := h', cur := nnext (h' (length es))\<rparr>)
         (path @ [(i, ?s)]) (insert i L) (insert (insert i L, s') K) q"
      "(rank md es n (st\<lparr>cache := cache_add (cache st) b s', calls := calls st @ [(?a, ?s)],
                sstate := s', linearized := b, hmem := h', cur := nnext (h' (length es))\<rparr>) q,
        rank md es n st (cpos es i)) \<in> smaller"
      by (auto simp: Let_def)
    have "check_iter md cp (length es) n False st =
      Inr (Inr (st\<lparr>cache := cache_add (cache st) b s', calls := calls st @ [(?a, ?s)],
                sstate := s', linearized := b, hmem := h', cur := nnext (h' (length es))\<rparr>))"
      using True unfolding iter try_call_def Let_def stp os uid by (simp add: b(1) cc p(1) cache_add_def)
    then show ?thesis using p(2,3) by blast
  next
    case False
    have no: "\<not> fin md es n (insert i L) s''" if "op_step md es ?s i = (True, s'')" for s''
    proof -
      have "hit" "s'' = s'" using that os False by auto
      then obtain t where t: "(insert i L, t) \<in> cache_set (cache st)" "eq s'' t" by (auto simp: hit_def)
      have "finite L" using D(10) finite_subset by blast
      moreover have f: "card L = length path" "\<forall>(L', s') \<in> K. card L' \<le> length path"
        using dpath_facts [OF D(1)] by blast+
      ultimately have "card (insert i L) = Suc (length path)" using i(2) by simp
      then have "(insert i L, t) \<notin> K" using bspec [OF f(2), of "(insert i L, t)"] by auto
      then have "\<not> fin md es n (insert i L) t" using D(4) [OF t(1)] by blast
      then show ?thesis using fin_equal [OF eq(2) _ t(2)] by blast
    qed
    have "check_iter md cp (length es) n False st = Inr (Inr (st\<lparr>cur := nnext (hmem st ?a)\<rparr>))"
      using False unfolding iter try_call_def Let_def stp os uid by (auto simp: b(1) cc)
    then show ?thesis using inv_skip [OF wf inv i no] by blast
  qed
qed


lemma longest_loop_ok:
  assumes "longest_ok md es n lg sq" and "partial_linearization md es n ids" and "\<forall>v \<in> set vs. 0 \<le> v \<and> v < int n"
    and "\<And>q. seqp = Some q \<Longrightarrow> q < length sq"
  shows "\<exists>lg' sq'. longest_loop ids vs lg sq seqp = Inr (lg', sq') \<and> longest_ok md es n lg' sq'"
  using assms
proof (induction vs arbitrary: lg sq seqp)
  case (Cons v vs)
  have v: "go_len lg = int n" "0 \<le> v" "v < int n" using Cons.prems(1,3) by (simp_all add: longest_ok_def go_len_def)
  let ?p = "lg ! nat v"
  obtain sq' q where sq': "(case seqp of None \<Rightarrow> (sq @ [ids], length sq) | Some q \<Rightarrow> (sq, q)) = (sq', q)" by force
  have q: "q < length sq'" "longest_ok md es n (lg[nat v := Some q]) sq'"
    using sq' Cons.prems(1,2,4)
    by (auto simp: longest_ok_def less_Suc_eq dest!: set_update_subset_insert [THEN subsetD] split: option.splits)
  have ih1: "\<exists>lg' sq''. longest_loop ids vs (lg[nat v := Some q]) sq' (Some q) = Inr (lg', sq'') \<and> longest_ok md es n lg' sq''"
    by (rule Cons.IH) (use Cons.prems q in auto)
  have ih2: "\<exists>lg' sq'. longest_loop ids vs lg sq seqp = Inr (lg', sq') \<and> longest_ok md es n lg' sq'"
    by (rule Cons.IH) (use Cons.prems in auto)
  show ?case using v ih1 ih2 sq' by (auto simp: go_index_ok go_update_ok)
qed auto

text \<open>A return entry with calls on the stack: the last call is taken back.\<close>

lemma iter_pop:
  assumes wf: "wf_hist es n" and inv: "search_inv md es n h0 st (path @ [(i, s0)]) L K (rpos es j)"
    and j: "j < n" "j \<notin> L"
  shows "\<exists>st' L' K' q. check_iter md cp (length es) n False st = Inr (Inr st') \<and>
    search_inv md es n h0 st' path L' K' q \<and> (rank md es n st' q, rank md es n st (rpos es j)) \<in> smaller"
proof -
  note D = search_invD [OF inv]
  have op: "op_at es (rpos es j) \<notin> L" using op_at_pos(2) [OF wf j(1)] j(2) by simp
  have ne: "rem es L \<noteq> []" using rem_split [OF wf_histD(2) [OF wf j(1)] op] by simp
  obtain L0 K0 where L0: "dpath md es n path L0 s0 K0" "enabled es n L0 i" "op_step md es s0 i = (True, sstate st)"
      "done_before md es n L0 s0 (cpos es i)" "L = insert i L0" "K = insert (L, sstate st) K0"
    by (rule dpath_pop [OF D(1)])
  have i: "i < n" "i \<notin> L0" using L0(2) by (simp_all add: enabled_def)
  let ?a = "addr es (cpos es i)"
  note nd = rep_node [OF D(2) wf i(1)]
  have st: "\<not> fin md es n L (sstate st)" by (rule stuck [OF wf j D(8) [OF ne]])
  \<comment> \<open>the state after the longest prefixes are recorded\<close>
  have ids: "call_ids st = map int (map fst (path @ [(i, s0)]))"
    using call_ids_path [OF D(2) wf] D(10,11) by simp
  have pl: "partial_linearization md es n (call_ids st)"
    unfolding partial_linearization_def ids
  proof (intro exI conjI)
    note facts = dpath_facts [OF D(1)]
    show "\<forall>i' \<in> set (map fst (path @ [(i, s0)])). \<forall>j < n. j \<notin> set (map fst (path @ [(i, s0)])) \<longrightarrow> \<not> rpos es j < cpos es i'"
      using dpath_order [OF D(1)] facts by metis
    show "distinct (map fst (path @ [(i, s0)]))" "set (map fst (path @ [(i, s0)])) \<subseteq> {0..<n}" using facts by blast+
    show "legal md es (Init md) (map fst (path @ [(i, s0)]))" using dpath_legal [OF D(1), of "[]"] by simp
  qed (use dpath_real_time [OF D(1)] in simp_all)
  obtain lg sq where lg: "(if cp then bind_res (longest_loop (call_ids st) (call_ids st) (longest st) (seqs st) None)
        (\<lambda>(lg, sq). Inr (st\<lparr>longest := lg, seqs := sq\<rparr>)) else Inr st) = Inr (st\<lparr>longest := lg, seqs := sq\<rparr>)"
      "longest_ok md es n lg sq"
  proof (cases cp)
    case True
    have "\<forall>v \<in> set (call_ids st). 0 \<le> v \<and> v < int n"
      unfolding ids using D(10,11) by (auto simp del: set_map simp: list.set_map)
    then show ?thesis
      using that True longest_loop_ok [of md es n "longest st" "seqs st" "call_ids st" "call_ids st" None] pl D(2)
      by (auto simp: rep_def)
  next
    case False
    then show ?thesis using that [where lg = "longest st" and sq = "seqs st"] D(2) by (simp add: rep_def)
  qed
  have cl: "calls st = map (\<lambda>(i, s). (addr es (cpos es i), s)) path @ [(?a, s0)]" using D(2) by (simp add: rep_def)
  obtain b where b: "bit_clear (linearized st) i = Inr b" "bits_of b = L0" "length b = length (newBitset n)"
    using bit_clear_remove [OF i(1), of "linearized st"] D(2) L0(5) i(2) by (auto simp: rep_def)
  obtain h' where h': "unlift ?a (hmem st) = Inr h'" "lifts es h0 (map fst path) h'"
    using lifts_unlift [of es h0 "map fst path" i "hmem st"] D(2) by (auto simp: rep_def)
  obtain q qs where q: "next_rem es L0 (cpos es i) = q # qs"
    using next_rem_call [OF wf i] by (cases "next_rem es L0 (cpos es i)") auto
  have li: "listed es L0 h'" using lifts_listed [OF h'(2)] dpath_facts [OF L0(1)] by simp
  have opi: "op_at es (cpos es i) \<notin> L0" using op_at_pos(1) [OF wf i(1)] i(2) by simp
  have nx: "nnext (h' ?a) = Some (addr es q)"
    using listed_next [OF li wf_histD(3) [OF wf i(1)] opi] q by simp
  let ?st' = "st\<lparr>longest := lg, seqs := sq, sstate := s0, linearized := b,
      calls := map (\<lambda>(i, s). (addr es (cpos es i), s)) path, hmem := h', cur := Some (addr es q)\<rparr>"
  have cne: "calls st \<noteq> []" by (simp add: cl)
  have lst: "go_index (calls st) (go_len (calls st) - 1) = Inr (?a, s0)"
    using go_index_last [of "calls st"] by (simp add: cl)
  have but: "go_slice_to (calls st) (go_len (calls st) - 1) = Inr (map (\<lambda>(i, s). (addr es (cpos es i), s)) path)"
    by (simp add: cl go_slice_to_Inr go_len_def)
  have uid: "to_uint (nid (hmem st ?a)) = i" using nd(1) to_uint_id [OF wf i(1)] by simp
  have bt: "backtrack cp st = Inr ?st'"
    unfolding backtrack_def lg(1) by (simp add: lst but uid b(1) h'(1) nx)
  have "check_iter md cp (length es) n False st = Inr (Inr ?st')"
    using head_end [OF inv] ne D(5) [OF ne] rep_node(5) [OF D(2) wf j(1)] cne
    by (auto simp: check_iter_def deref_def bt)
  moreover have "search_inv md es n h0 ?st' path L0 K0 q"
  proof -
    have db: "done_before md es n L0 s0 q"
      by (rule done_before_next [OF wf q i(1) L0(4)]) (use L0(3,5) st in simp)
    have ra: "q \<le> rpos es k" if "k < n" "k \<notin> L0" for k
    proof (rule return_after [OF wf q that])
      show "cpos es i < rpos es k"
        using L0(2) that wf_hist_inj(3) [OF wf i(1) that(1)] by (auto simp: enabled_def not_less le_less)
    qed
    have rp: "rep md es n h0 ?st' path L0"
      using D(2) h'(2) b(2,3) lg(2) by (simp add: rep_def)
    have ca: "(L', t) \<in> K0 \<or> \<not> fin md es n L' t" if "(L', t) \<in> cache_set (cache st)" for L' t
      using D(4) [OF that] L0(6) st by auto
    show ?thesis
      unfolding search_inv_def using L0(1) rp D(3) ca db ra next_rem_first(2,3) [OF q] by simp
  qed
  moreover have "(rank md es n ?st' q, rank md es n st (rpos es j)) \<in> smaller"
    by (simp add: rank_def smaller_def cl)
  ultimately show ?thesis by blast
qed

lemma iter_fail:
  assumes wf: "wf_hist es n" and inv: "search_inv md es n h0 st [] L K (rpos es j)" and j: "j < n" "j \<notin> L"
  shows "check_iter md cp (length es) n False st = Inr (Inl (False, st))" and "\<not> fin md es n {} (Init md)"
proof -
  note D = search_invD [OF inv]
  have op: "op_at es (rpos es j) \<notin> L" using op_at_pos(2) [OF wf j(1)] j(2) by simp
  have ne: "rem es L \<noteq> []" using rem_split [OF wf_histD(2) [OF wf j(1)] op] by simp
  have L: "L = {}" "sstate st = Init md" using D(11) dpath_exec [OF D(1)] by (simp_all add: exec_def)
  show "check_iter md cp (length es) n False st = Inr (Inl (False, st))"
    using head_end [OF inv] ne D(5) [OF ne] rep_node(5) [OF D(2) wf j(1)] D(2)
    by (auto simp: check_iter_def deref_def rep_def)
  show "\<not> fin md es n {} (Init md)" using stuck [OF wf j D(8) [OF ne]] L by simp
qed


subsection \<open>The whole search\<close>

text \<open>With enough fuel the loop returns, and it returns whether the history is linearizable.\<close>

lemma check_loop_more:
  "check_loop md cp hdr n (\<lambda>_. False) fuel st = Some r \<Longrightarrow> fuel \<le> fuel' \<Longrightarrow>
     check_loop md cp hdr n (\<lambda>_. False) fuel' st = Some r"
proof (induction fuel arbitrary: st fuel')
  case (Suc fuel)
  then obtain f' where "fuel' = Suc f'" "fuel \<le> f'" by (cases fuel') auto
  then show ?case using Suc by (auto split: sum.splits)
qed simp

definition result_ok :: "('v, 's) Model \<Rightarrow> 'v entry list \<Rightarrow> nat \<Rightarrow> bool \<Rightarrow> ('v, 's) search \<Rightarrow> bool" where
  "result_ok md es n ok st \<longleftrightarrow>
     ok = linearizable md es n \<and> longest_ok md es n (longest st) (seqs st) \<and>
     (ok \<longrightarrow> (\<exists>is. linearization md es n is \<and>
        (\<forall>i < n. map_option (\<lambda>q. seqs st ! q) (longest st ! i) = Some (map int is))))"

lemma complete_ok:
  assumes wf: "wf_hist es n" and inv: "search_inv md es n h0 st path L K p" and e: "rem es L = []"
  shows "result_ok md es n True (complete n st)"
proof -
  note l = iter_end(2,3) [OF wf inv e]
  have "partial_linearization md es n (call_ids st)"
    unfolding partial_linearization_def l(2) using l(1) unfolding linearization_def
    by (intro exI [of _ "map fst path"]) auto
  moreover have "longest_ok md es n (longest st) (seqs st)" using search_invD(2) [OF inv] by (simp add: rep_def)
  ultimately have "longest_ok md es n (longest (complete n st)) (seqs (complete n st))"
    by (auto simp: longest_ok_def complete_def)
  then show ?thesis
    using l by (auto simp: result_ok_def complete_def linearizable_def intro!: exI [of _ "map fst path"])
qed

lemma check_loop_total:
  assumes wf: "wf_hist es n" and eq: "Equal md = Some eq" "state_equality (Step md) eq"
    and inv: "search_inv md es n h0 st path L K p"
  shows "\<exists>fuel ok st'. check_loop md cp (length es) n (\<lambda>_. False) fuel st = Some (Inr (ok, st')) \<and>
    result_ok md es n ok st'"
  using inv
proof (induction "rank md es n st p" arbitrary: st path L K p rule: wf_induct_rule [OF wf_smaller])
  case 1
  note inv = "1.prems" and D = search_invD [OF "1.prems"]
  show ?case
  proof (cases "rem es L = []")
    case True
    show ?thesis
      using iter_end(1) [OF wf inv True] complete_ok [OF wf inv True]
      by (intro exI [of _ "Suc 0"] exI [of _ True] exI [of _ "complete n st"]) simp
  next
    case False
    let ?j = "op_at es p"
    note p = D(6) [OF False] D(7) [OF False] and w = wf_hist_pos [OF wf D(6) [OF False]]
    consider (call) "p = cpos es ?j" | (pop) path0 i s0 where "p = rpos es ?j" "path = path0 @ [(i, s0)]"
      | (fail) "p = rpos es ?j" "path = []"
    proof (cases "kind (es ! p)")
      case True
      then have "p = rpos es ?j" using w(3) by simp
      then show thesis using pop fail by (cases path rule: rev_cases) auto
    next
      case no: False
      then have "p = cpos es ?j" using w(2) by simp
      then show thesis by (rule call)
    qed
    then have "(\<exists>st' path' L' K' q. check_iter md cp (length es) n False st = Inr (Inr st') \<and>
        search_inv md es n h0 st' path' L' K' q \<and> (rank md es n st' q, rank md es n st p) \<in> smaller) \<or>
      check_iter md cp (length es) n False st = Inr (Inl (False, st)) \<and> \<not> fin md es n {} (Init md)"
    proof cases
      case call
      then have "search_inv md es n h0 st path L K (cpos es ?j)" using inv by simp
      from iter_call [OF wf eq this w(1) p(2), of cp] show ?thesis using call by metis
    next
      case pop
      then have "search_inv md es n h0 st (path0 @ [(i, s0)]) L K (rpos es ?j)" using inv by simp
      from iter_pop [OF wf this w(1) p(2), of cp] show ?thesis using pop(1) by metis
    next
      case fail
      then have "search_inv md es n h0 st [] L K (rpos es ?j)" using inv by simp
      from iter_fail [OF wf this w(1) p(2)] show ?thesis by blast
    qed
    then show ?thesis
    proof
      assume "\<exists>st' path' L' K' q. check_iter md cp (length es) n False st = Inr (Inr st') \<and>
        search_inv md es n h0 st' path' L' K' q \<and> (rank md es n st' q, rank md es n st p) \<in> smaller"
      then obtain st' path' L' K' q where s: "check_iter md cp (length es) n False st = Inr (Inr st')"
        "search_inv md es n h0 st' path' L' K' q" "(rank md es n st' q, rank md es n st p) \<in> smaller" by blast
      obtain fuel ok st'' where "check_loop md cp (length es) n (\<lambda>_. False) fuel st' = Some (Inr (ok, st''))"
        "result_ok md es n ok st''"
        using "1.hyps" [OF s(3) s(2)] by blast
      then show ?thesis using s(1) by (intro exI [of _ "Suc fuel"] exI [of _ ok] exI [of _ st'']) simp
    next
      assume f: "check_iter md cp (length es) n False st = Inr (Inl (False, st)) \<and> \<not> fin md es n {} (Init md)"
      have "result_ok md es n False st"
        using f fin_linearizable [OF wf, of md] D(2) by (simp add: result_ok_def rep_def)
      then show ?thesis using f by (intro exI [of _ "Suc 0"] exI [of _ False] exI [of _ st]) simp
    qed
  qed
qed

lemma start_inv:
  assumes wf: "wf_hist es n"
  shows "\<exists>st h0 p. start_search md es = Some (length es, n, st) \<and>
    search_inv md es n h0 st [] {} {({}, Init md)} p"
proof -
  obtain hp root where mk: "makeLinkedEntries es = (hp, root)" by force
  note m = makeLinkedEntries_ok [OF mk]
  have len: "length es = 2 * n" using wf by (simp add: wf_hist_def)
  let ?N = "length es"
  have nl: "node_length ?N (mem hp) root = Some ?N"
    using m node_length_dll [of "mem hp" "rev [0..<?N]" ?N] by (cases "es = []") auto
  let ?h0 = "insertBefore ?N root ((mem hp)(?N := new_node None None (-1)))"
  have rv: "map (addr es) (rem es {}) = rev [0..<?N]"
    by (rule nth_equalityI) (auto simp: rem_def addr_def rev_nth)
  have d: "dll ?h0 (?N # rev [0..<?N]) \<and> nprev (?h0 ?N) = None"
    using m dll_front [of "rev [0..<?N]" "mem hp" ?N "new_node None None (-1)"]
    by (auto simp: new_node_def hd_rev)
  have ho: "\<forall>a < ?N. holds es ?h0 a" using m by (auto simp: holds_def)
  have li: "lifts es ?h0 [] ?h0" by (rule lifts.none) (use d rv ho in \<open>simp add: listed_def\<close>)
  define st where "st = \<lparr>hmem = ?h0, cur = root, linearized = newBitset n, cache = (\<lambda>_. []), calls = [],
                   longest = replicate n None, seqs = [], sstate = Init md\<rparr>"
  have ss: "start_search md es = Some (?N, n, st)"
    using mk nl m len by (simp add: start_search_def Let_def st_def)
  have rt: "root = first_of (map (addr es) (rem es {}))" using m rv by simp
  define p where "p = (case rem es {} of [] \<Rightarrow> 0 | q # _ \<Rightarrow> q)"
  have cur: "cur st = Some (addr es p) \<and> p < ?N \<and> op_at es p \<notin> {} \<and> done_before md es n {} (Init md) p \<and>
      (\<forall>j < n. j \<notin> {} \<longrightarrow> p \<le> rpos es j)" if ne: "rem es {} \<noteq> []"
  proof -
    obtain qs where qs: "rem es {} = p # qs" using ne unfolding p_def by (cases "rem es {}") auto
    have "p \<le> rpos es j" if "j < n" for j
      by (rule rem_first(3) [OF qs]) (use wf_histD(2) [OF wf that] in simp_all)
    then show ?thesis using rt rem_first(1) [OF qs] done_before_first [OF wf qs] qs by (simp add: st_def)
  qed
  have "rep md es n ?h0 st [] {}"
    using li by (simp add: rep_def st_def bits_of_newBitset cache_ok_def longest_ok_def)
  then have "search_inv md es n ?h0 st [] {} {({}, Init md)} p"
    using cur dpath.root [of md es n] by (simp add: search_inv_def st_def cache_set_def)
  then show ?thesis using ss by blast
qed

end
