(* ===== verification/Porcupine_Entries.thy ===== *)
theory Porcupine_Entries
  imports Porcupine_Check
begin

section \<open>From operations and events to histories\<close>

text \<open>
  \<open>makeEntries\<close> turns operations with their times into a well-formed history, for any sort that
  meets the contract of \<open>sort.Sort\<close>; \<open>renumber\<close> and \<open>convertEntries\<close> do so for events
  in which every call is followed by one return.
\<close>

lemma takeWhile_index:
  assumes "distinct (map f es)" and "p < length es" and "f (es ! p) = k"
  shows "length (takeWhile (\<lambda>e. f e \<noteq> k) es) = p"
proof -
  have "f (es ! q) \<noteq> k" if "q < p" for q
    using assms that nth_eq_iff_index_eq [OF assms(1), of q p] by auto
  then have "takeWhile (\<lambda>e. f e \<noteq> k) es = take p es"
    using assms(2,3) by (intro takeWhile_eq_take_P_nth) auto
  then show ?thesis using assms(2) by simp
qed

definition key_of :: "'v entry \<Rightarrow> bool \<times> int" where
  "key_of e = (kind e, eid e)"

lemma wf_histI:
  assumes dist: "distinct (map key_of es)" and ids: "\<And>e. e \<in> set es \<Longrightarrow> \<exists>i < n. eid e = int i"
    and pos: "\<And>i. i < n \<Longrightarrow> \<exists>c r. c < r \<and> r < length es \<and> key_of (es ! c) = (callEntry, int i) \<and> key_of (es ! r) = (returnEntry, int i)"
    and n: "n < 2 ^ 63"
  shows "wf_hist es n"
proof -
  have cp: "cpos es i = c" if "c < length es" "key_of (es ! c) = (callEntry, int i)" for i c
    using takeWhile_index [OF dist that] by (simp add: cpos_def key_of_def)
  have rp: "rpos es i = r" if "r < length es" "key_of (es ! r) = (returnEntry, int i)" for i r
    using takeWhile_index [OF dist that] by (simp add: rpos_def key_of_def)
  have order: "cpos es i < rpos es i \<and> rpos es i < length es" if i: "i < n" for i
  proof -
    obtain c r where "c < r" "r < length es" "key_of (es ! c) = (callEntry, int i)" "key_of (es ! r) = (returnEntry, int i)"
      using pos [OF i] by blast
    then show ?thesis using cp [of c i] rp [of r i] by simp
  qed
  have all: "\<exists>i < n. p = cpos es i \<or> p = rpos es i" if p: "p < length es" for p
  proof -
    obtain i where i: "i < n" "eid (es ! p) = int i" using ids [OF nth_mem [OF p]] by blast
    then show ?thesis using cp [OF p, of i] rp [OF p, of i] by (cases "kind (es ! p)") (auto simp: key_of_def)
  qed
  have "set (map key_of es) = UNIV \<times> int ` {0..<n}"
  proof (intro equalityI subsetI)
    fix k assume "k \<in> set (map key_of es)"
    then obtain e where "e \<in> set es" "k = key_of e" by auto
    then show "k \<in> UNIV \<times> int ` {0..<n}" using ids [of e] by (auto simp: key_of_def)
  next
    fix k assume "k \<in> (UNIV :: bool set) \<times> int ` {0..<n}"
    then obtain b i where k: "k = (b, int i)" and i: "i < n" by auto
    obtain c r where cr: "c < r" "r < length es" "key_of (es ! c) = (callEntry, int i)" "key_of (es ! r) = (returnEntry, int i)"
      using pos [OF i] by blast
    have "key_of (es ! c) \<in> set (map key_of es)" "key_of (es ! r) \<in> set (map key_of es)" using cr(1,2) by simp_all
    then show "k \<in> set (map key_of es)" using k cr(3,4) by (cases b) simp_all
  qed
  then have "length es = card ((UNIV :: bool set) \<times> int ` {0..<n})" using dist distinct_card [of "map key_of es"] by simp
  also have "\<dots> = 2 * n" by (simp add: card_cartesian_product card_image UNIV_bool)
  finally show ?thesis using order all n by (simp add: wf_hist_def)
qed

subsection \<open>Operations\<close>

text \<open>The contract of \<open>sort.Sort(byTime(a))\<close>: a permutation without inversions.\<close>

locale time_sort =
  fixes srt :: "'v entry list \<Rightarrow> 'v entry list"
  assumes mset_srt: "mset (srt a) = mset a"
    and srt_Less: "i < j \<Longrightarrow> j < byTime_Len (srt a) \<Longrightarrow> \<not> byTime_Less (srt a) j i"

interpretation by_time: time_sort "sort_key time"
proof
  show "\<not> byTime_Less (sort_key time a) j i" if "i < j" "j < byTime_Len (sort_key time a)" for a :: "'v entry list" and i j
    using sorted_nth_mono [OF sorted_sort_key [of time a], of i j] that
    by (simp add: byTime_Less_def byTime_Len_def not_less)
qed simp

lemma make_loop_keys: "map key_of (make_loop ops k) = concat (map (\<lambda>i. [(callEntry, k + int i), (returnEntry, k + int i)]) [0..<length ops])"
proof (induction ops arbitrary: k)
  case (Cons x ops)
  have "[0..<length (x # ops)] = 0 # map Suc [0..<length ops]" by (simp add: upt_conv_Cons map_Suc_upt del: upt_Suc)
  then show ?case using Cons [of "k + 1"] by (simp add: key_of_def comp_def algebra_simps del: upt_Suc)
qed simp

lemma make_loop_entry:
  "i < length ops \<Longrightarrow> 2 * i < length (make_loop ops k) \<and> 2 * i + 1 < length (make_loop ops k) \<and>
     key_of (make_loop ops k ! (2 * i)) = (callEntry, k + int i) \<and> time (make_loop ops k ! (2 * i)) = Call (ops ! i) \<and>
     key_of (make_loop ops k ! (2 * i + 1)) = (returnEntry, k + int i) \<and> time (make_loop ops k ! (2 * i + 1)) = Return (ops ! i)"
proof (induction ops arbitrary: i k)
  case (Cons x ops)
  then show ?case by (cases i) (auto simp: key_of_def)
qed simp

lemma make_loop_distinct: "distinct (map key_of (make_loop ops k))"
proof (induction ops arbitrary: k)
  case (Cons x ops)
  have "b \<noteq> k" if "(a, b) \<in> set (map key_of (make_loop ops (k + 1)))" for a b
    using that unfolding make_loop_keys by auto
  then show ?case using Cons by (auto simp: key_of_def image_iff)
qed simp

context time_sort
begin

lemma makeEntries_wf:
  assumes "\<forall>x \<in> set ops. Call x < Return x" and "length ops < 2 ^ 63"
  shows "wf_hist (makeEntries srt ops) (length ops)"
proof (rule wf_histI [OF _ _ _ assms(2)])
  let ?a = "make_loop ops 0"
  let ?es = "makeEntries srt ops"
  have ms: "mset ?es = mset ?a" by (simp add: makeEntries_def mset_srt)
  then have st: "set ?es = set ?a" by (metis set_mset_mset)
  have "mset (map key_of ?es) = mset (map key_of ?a)" using ms by (metis mset_map)
  then show dist: "distinct (map key_of ?es)" using make_loop_distinct mset_eq_imp_distinct_iff by metis
  show "\<exists>i < length ops. eid e = int i" if "e \<in> set ?es" for e
  proof -
    have "key_of e \<in> set (map key_of ?a)" using that st by auto
    then show ?thesis unfolding make_loop_keys by (auto simp: key_of_def)
  qed
  show "\<exists>c r. c < r \<and> r < length ?es \<and> key_of (?es ! c) = (callEntry, int i) \<and> key_of (?es ! r) = (returnEntry, int i)"
    if i: "i < length ops" for i
  proof -
    note m = make_loop_entry [OF i, of 0]
    have "?a ! (2 * i) \<in> set ?es" "?a ! (2 * i + 1) \<in> set ?es" unfolding st using m nth_mem by blast+
    then obtain c r where c: "c < length ?es" "?es ! c = ?a ! (2 * i)" and r: "r < length ?es" "?es ! r = ?a ! (2 * i + 1)"
      by (auto simp: in_set_conv_nth)
    have "c < r"
    proof (rule ccontr)
      assume "\<not> c < r"
      then have "r < c" using c r m by (metis linorder_neqE_nat prod.inject)
      then have "time (?es ! r) \<le> time (?es ! c)"
        using srt_Less [of r c ?a] c(1) by (simp add: byTime_Less_def byTime_Len_def makeEntries_def not_less)
      then show False using c r m assms(1) i nth_mem [OF i] by fastforce
    qed
    then show ?thesis using c r m by (intro exI [of _ c] exI [of _ r]) simp
  qed
qed

end

subsection \<open>Events\<close>

definition events_ok :: "'v Event list \<Rightarrow> bool" where
  "events_ok evs \<longleftrightarrow>
     distinct (map (\<lambda>e. (Kind e, Id e)) evs) \<and> length evs < 2 ^ 63 \<and>
     (\<forall>e \<in> set evs. \<exists>c r. c < r \<and> r < length evs \<and> Kind (evs ! c) = CallEvent \<and> Id (evs ! c) = Id e \<and>
        Kind (evs ! r) = ReturnEvent \<and> Id (evs ! r) = Id e)"

text \<open>Renumbering is an injective map of the ids onto an initial segment.\<close>

lemma renumber_loop_map:
  assumes "inj_on m (dom m)" and "ran m = int ` {0..<k}"
  shows "\<exists>m' k'. renumber_loop m (int k) evs = map (\<lambda>e. e\<lparr>Id := the (m' (Id e))\<rparr>) evs \<and>
    (\<forall>x \<in> dom m. m' x = m x) \<and> dom m' = dom m \<union> Id ` set evs \<and> inj_on m' (dom m') \<and> ran m' = int ` {0..<k'}"
  using assms
proof (induction evs arbitrary: m k)
  case Nil
  then show ?case by auto
next
  case (Cons e evs)
  show ?case
  proof (cases "m (Id e)")
    case (Some r)
    obtain m' k' where m': "renumber_loop m (int k) evs = map (\<lambda>e. e\<lparr>Id := the (m' (Id e))\<rparr>) evs"
      "\<forall>x \<in> dom m. m' x = m x" "dom m' = dom m \<union> Id ` set evs" "inj_on m' (dom m')" "ran m' = int ` {0..<k'}"
      using Cons.IH [OF Cons.prems] by (elim exE conjE) (rule that)
    have d: "Id e \<in> dom m" using Some by (rule domI)
    then have "m' (Id e) = Some r" using m'(2) Some by simp
    then show ?thesis using m' d Some by (intro exI [of _ m'] exI [of _ k']) (simp add: insert_absorb)
  next
    case None
    let ?m = "m(Id e \<mapsto> int k)"
    have nk: "m x \<noteq> Some (int k)" for x
    proof
      assume "m x = Some (int k)"
      then have "int k \<in> int ` {0..<k}" using Cons.prems(2) ranI [of m x "int k"] by simp
      then show False by auto
    qed
    have i: "inj_on ?m (dom ?m)" 
    proof (rule inj_onI)
      fix x y assume xy: "x \<in> dom ?m" "y \<in> dom ?m" "?m x = ?m y"
      show "x = y"
      proof (cases "x = Id e \<or> y = Id e")
        case True
        then show ?thesis using xy(3) nk [of x] nk [of y] by (auto split: if_splits)
      next
        case False
        then show ?thesis using inj_onD [OF Cons.prems(1), of x y] xy by simp
      qed
    qed
    have r: "ran ?m = int ` {0..<Suc k}" using Cons.prems(2) None by (auto simp: less_Suc_eq)
    obtain m' k' where m': "renumber_loop ?m (int (Suc k)) evs = map (\<lambda>e. e\<lparr>Id := the (m' (Id e))\<rparr>) evs"
      "\<forall>x \<in> dom ?m. m' x = ?m x" "dom m' = dom ?m \<union> Id ` set evs" "inj_on m' (dom m')" "ran m' = int ` {0..<k'}"
      using Cons.IH [OF i r] by (elim exE conjE) (rule that)
    have e: "m' (Id e) = Some (int k)" using m'(2) by simp
    have d: "\<forall>x \<in> dom m. m' x = m x" using m'(2) None by (auto simp: domIff)
    have "renumber_loop m (int k) (e # evs) = map (\<lambda>e. e\<lparr>Id := the (m' (Id e))\<rparr>) (e # evs)"
      using m'(1) e None by (simp add: add.commute)
    moreover have "dom m' = dom m \<union> Id ` set (e # evs)" using m'(3) by simp
    ultimately show ?thesis using d m'(4,5) by blast
  qed
qed

lemma renumber_map:
  obtains f n where "renumber evs = map (\<lambda>e. e\<lparr>Id := f (Id e)\<rparr>) evs" and "inj_on f (Id ` set evs)"
    and "f ` Id ` set evs = int ` {0..<n}"
proof -
  let ?m0 = "(\<lambda>_. None) :: int \<Rightarrow> int option"
  have "\<exists>m' k'. renumber_loop ?m0 (int 0) evs = map (\<lambda>e. e\<lparr>Id := the (m' (Id e))\<rparr>) evs \<and>
    (\<forall>x \<in> dom ?m0. m' x = ?m0 x) \<and> dom m' = dom ?m0 \<union> Id ` set evs \<and> inj_on m' (dom m') \<and> ran m' = int ` {0..<k'}"
    by (rule renumber_loop_map) (simp_all add: ran_def)
  then obtain m' k' where m': "renumber_loop ?m0 (int 0) evs = map (\<lambda>e. e\<lparr>Id := the (m' (Id e))\<rparr>) evs"
      "dom m' = dom ?m0 \<union> Id ` set evs" "inj_on m' (dom m')" "ran m' = int ` {0..<k'}"
    by (elim exE conjE) (rule that)
  let ?f = "\<lambda>x. the (m' x)"
  have some: "m' x = Some (?f x)" if "x \<in> dom m'" for x using that by auto
  have "inj_on ?f (dom m')" using m'(3) some unfolding inj_on_def by metis
  moreover have "?f ` dom m' = ran m'"
  proof (intro equalityI subsetI)
    fix y assume "y \<in> ran m'"
    then obtain x where "m' x = Some y" by (auto simp: ran_def)
    then have "x \<in> dom m'" "?f x = y" by auto
    then show "y \<in> ?f ` dom m'" by blast
  next
    fix y assume "y \<in> ?f ` dom m'"
    then obtain x where "x \<in> dom m'" "y = ?f x" by blast
    then show "y \<in> ran m'" using some by (metis ranI)
  qed
  ultimately show ?thesis using that [of ?f k'] m' by (simp add: renumber_def)
qed

lemma convertEntries_keys:
  assumes "renumber evs = map (\<lambda>e. e\<lparr>Id := f (Id e)\<rparr>) evs"
  shows "map key_of (convertEntries (renumber evs)) = map (\<lambda>e. (Kind e, f (Id e))) evs"
  unfolding assms by (rule nth_equalityI) (auto simp: convertEntries_def key_of_def)

lemma events_wf:
  assumes ok: "events_ok evs"
  shows "wf_hist (convertEntries (renumber evs)) (length evs div 2)"
proof -
  let ?es = "convertEntries (renumber evs)"
  obtain f n where f: "renumber evs = map (\<lambda>e. e\<lparr>Id := f (Id e)\<rparr>) evs" "inj_on f (Id ` set evs)"
      "f ` Id ` set evs = int ` {0..<n}"
    by (rule renumber_map)
  note keys = convertEntries_keys [OF f(1)]
  have len: "length ?es = length evs" using keys by (metis length_map)
  have key: "key_of (?es ! p) = (Kind (evs ! p), f (Id (evs ! p)))" if "p < length evs" for p
    using arg_cong [OF keys, of "\<lambda>l. l ! p"] that len by simp
  have "wf_hist ?es n"
  proof (rule wf_histI)
    have "distinct (map (\<lambda>(k, x). (k, f x)) (map (\<lambda>e. (Kind e, Id e)) evs))"
      using ok f(2) unfolding events_ok_def
      by (subst distinct_map) (auto simp: inj_on_def)
    then show "distinct (map key_of ?es)" unfolding keys by (simp add: comp_def)
    show "\<exists>i < n. eid e = int i" if "e \<in> set ?es" for e
    proof -
      have "key_of e \<in> set (map (\<lambda>e. (Kind e, f (Id e))) evs)" using that keys by (metis image_eqI set_map)
      then have "eid e \<in> f ` Id ` set evs" by (auto simp: key_of_def)
      then show ?thesis using f(3) by auto
    qed
    show "\<exists>c r. c < r \<and> r < length ?es \<and> key_of (?es ! c) = (callEntry, int i) \<and> key_of (?es ! r) = (returnEntry, int i)"
      if i: "i < n" for i
    proof -
      have "int i \<in> f ` Id ` set evs" using f(3) i by simp
      then obtain e where e: "e \<in> set evs" "f (Id e) = int i" by auto
      obtain c r where "c < r" "r < length evs" "Kind (evs ! c) = CallEvent" "Id (evs ! c) = Id e"
          "Kind (evs ! r) = ReturnEvent" "Id (evs ! r) = Id e"
        using ok [unfolded events_ok_def, THEN conjunct2, THEN conjunct2, rule_format, OF e(1)]
        by (elim exE conjE) (rule that)
      then show ?thesis using key [of c] key [of r] len e(2) by (intro exI [of _ c] exI [of _ r]) simp
    qed
    have "n = card (f ` Id ` set evs)" unfolding f(3) by (simp add: card_image)
    also have "\<dots> \<le> length evs"
      by (metis card_image_le card_length finite_imageI image_image list.set_map List.finite_set order_trans)
    finally show "n < 2 ^ 63" using ok by (simp add: events_ok_def)
  qed
  moreover from this have "length evs = 2 * n" using len by (simp add: wf_hist_def)
  ultimately show ?thesis by simp
qed

end
