(* ===== verification/Porcupine_Parallel.thy ===== *)
theory Porcupine_Parallel
  imports Porcupine_Entries
begin

section \<open>Checking single histories and partitions in parallel\<close>

text \<open>
  The search on one history returns, with the right answer and valid partial linearizations, and
  still returns when it is killed; the loop of \<open>checkParallel\<close> puts the answers together, whatever
  the order in which they arrive.
\<close>

abbreviation ops_of :: "'v entry list \<Rightarrow> nat" where
  "ops_of es \<equiv> length es div 2"

definition single_ok :: "('v, 's) Model \<Rightarrow> 'v entry list \<Rightarrow> single_result \<Rightarrow> bool" where
  "single_ok md es r \<longleftrightarrow>
     (case r of (ok, lg, sq) \<Rightarrow>
        ok = linearizable md es (ops_of es) \<and> longest_ok md es (ops_of es) lg sq \<and>
        (ok \<longrightarrow> (\<exists>is. linearization md es (ops_of es) is \<and>
           (\<forall>i < ops_of es. map_option (\<lambda>q. sq ! q) (lg ! i) = Some (map int is)))))"

lemma check_loop_kill:
  "check_loop md cp hdr n (\<lambda>_. False) fuel st = Some (Inr r) \<Longrightarrow>
     \<exists>r'. check_loop md cp hdr n kill fuel st = Some (Inr r')"
proof (induction fuel arbitrary: st)
  case (Suc fuel)
  show ?case
  proof (cases "kill fuel \<and> nnext (hmem st hdr) \<noteq> None")
    case True
    then show ?thesis by (auto simp: check_iter_def)
  next
    case False
    then have "check_iter md cp hdr n (kill fuel) st = check_iter md cp hdr n False st"
      by (auto simp: check_iter_def)
    then show ?thesis using Suc by (auto split: sum.splits)
  qed
qed simp

lemma checkSingle_total:
  assumes wf: "wf_hist es (ops_of es)" and eq: "Equal md = Some eq" "state_equality (Step md) eq"
  shows "\<exists>f0. \<forall>fuel \<ge> f0. (\<exists>r. checkSingle fuel md es cp (\<lambda>_. False) = Some (Inr r) \<and> single_ok md es r) \<and>
    (\<forall>kill. \<exists>r. checkSingle fuel md es cp kill = Some (Inr r))"
proof -
  let ?n = "ops_of es"
  obtain st h0 p where s: "start_search md es = Some (length es, ?n, st)" "search_inv md es ?n h0 st [] {} {({}, Init md)} p"
    using start_inv [OF wf, of md] by blast
  obtain f0 ok st' where l: "check_loop md cp (length es) ?n (\<lambda>_. False) f0 st = Some (Inr (ok, st'))" "result_ok md es ?n ok st'"
    using check_loop_total [OF wf eq s(2), of cp] by blast
  have "single_ok md es (ok, longest st', seqs st')" using l(2) by (simp add: single_ok_def result_ok_def)
  moreover have "\<exists>r. checkSingle fuel md es cp kill = Some (Inr r)" if "f0 \<le> fuel" for fuel kill
    using check_loop_kill [OF check_loop_more [OF l(1) that], of kill] s(1) by (auto simp: checkSingle_def)
  moreover have "checkSingle fuel md es cp (\<lambda>_. False) = Some (Inr (ok, longest st', seqs st'))" if "f0 \<le> fuel" for fuel
    using check_loop_more [OF l(1) that] s(1) by (simp add: checkSingle_def)
  ultimately show ?thesis by blast
qed

lemma run_all_total:
  assumes eq: "Equal md = Some eq" "state_equality (Step md) eq" and wf: "\<forall>h \<in> set hist. wf_hist h (ops_of h)"
  shows "\<exists>f0. \<forall>fuel \<ge> f0. \<forall>kill k. \<exists>rs. run_all fuel md ci kill k hist = Some (Inr rs) \<and> length rs = length hist \<and>
    (\<forall>i < length hist. kill (k + i) = (\<lambda>_. False) \<longrightarrow> single_ok md (hist ! i) (rs ! i))"
  using wf
proof (induction hist)
  case (Cons h hist)
  obtain f1 where f1: "\<forall>fuel \<ge> f1. (\<exists>r. checkSingle fuel md h ci (\<lambda>_. False) = Some (Inr r) \<and> single_ok md h r) \<and>
      (\<forall>kill. \<exists>r. checkSingle fuel md h ci kill = Some (Inr r))"
    using checkSingle_total [OF _ eq, of h ci] Cons.prems by auto
  obtain f2 where f2: "\<forall>fuel \<ge> f2. \<forall>kill k. \<exists>rs. run_all fuel md ci kill k hist = Some (Inr rs) \<and> length rs = length hist \<and>
      (\<forall>i < length hist. kill (k + i) = (\<lambda>_. False) \<longrightarrow> single_ok md (hist ! i) (rs ! i))"
    using Cons.IH Cons.prems by auto
  have "\<exists>rs. run_all fuel md ci kill k (h # hist) = Some (Inr rs) \<and> length rs = length (h # hist) \<and>
      (\<forall>i < length (h # hist). kill (k + i) = (\<lambda>_. False) \<longrightarrow> single_ok md ((h # hist) ! i) (rs ! i))"
    if fuel: "max f1 f2 \<le> fuel" for fuel kill k
  proof -
    obtain r where r: "checkSingle fuel md h ci (kill k) = Some (Inr r)" "kill k = (\<lambda>_. False) \<longrightarrow> single_ok md h r"
    proof (cases "kill k = (\<lambda>_. False)")
      case True
      then show thesis using f1 fuel that by (metis max.bounded_iff)
    next
      case False
      then show thesis using f1 fuel that by (metis max.bounded_iff)
    qed
    obtain rs where rs: "run_all fuel md ci kill (Suc k) hist = Some (Inr rs)" "length rs = length hist"
      "\<forall>i < length hist. kill (Suc k + i) = (\<lambda>_. False) \<longrightarrow> single_ok md (hist ! i) (rs ! i)"
      using f2 fuel by (metis max.bounded_iff)
    have "single_ok md ((h # hist) ! i) ((r # rs) ! i)" if "i < length (h # hist)" "kill (k + i) = (\<lambda>_. False)" for i
      using that r(2) rs(3) by (cases i) auto
    then show ?thesis using r(1) rs(1,2) by (intro exI [of _ "r # rs"]) simp
  qed
  then show ?case by blast
qed simp

subsection \<open>Collecting the results\<close>

lemma select_loop_arrivals:
  "\<lbrakk>ok \<or> ci; cnt + length js = length rs; js \<noteq> []\<rbrakk> \<Longrightarrow>
     \<exists>c rest. select_loop timed ci rs ok cnt (map Arrive js) = Some (Inr (ok \<and> (\<forall>j \<in> set js. fst (rs ! j)), False, c, rest)) \<and>
       (ci \<longrightarrow> c = length rs)"
proof (induction js arbitrary: ok cnt)
  case (Cons j js)
  show ?case
  proof (cases "js = []")
    case True
    then show ?thesis using Cons.prems by (auto simp: Let_def)
  next
    case False
    then have lt: "\<not> length rs \<le> cnt + 1" using Cons.prems(2) by (cases js) auto
    show ?thesis
    proof (cases "\<not> (ok \<and> fst (rs ! j)) \<and> \<not> ci")
      case True
      then show ?thesis using Cons.prems by auto
    next
      case no: False
      then obtain c rest where "select_loop timed ci rs (ok \<and> fst (rs ! j)) (cnt + 1) (map Arrive js) =
          Some (Inr ((ok \<and> fst (rs ! j)) \<and> (\<forall>j \<in> set js. fst (rs ! j)), False, c, rest))" "ci \<longrightarrow> c = length rs"
        using Cons.IH [of "ok \<and> fst (rs ! j)" "cnt + 1"] Cons.prems(2) False by auto
      then show ?thesis using no lt by (auto simp: Let_def)
    qed
  qed
qed simp

lemma select_loop_expires:
  "\<lbrakk>ok \<or> ci; cnt + length js < length rs\<rbrakk> \<Longrightarrow>
     \<exists>t c rest'. select_loop True ci rs ok cnt (map Arrive js @ Expire # rest) = Some (Inr (ok \<and> (\<forall>j \<in> set js. fst (rs ! j)), t, c, rest')) \<and>
       ((ok \<and> (\<forall>j \<in> set js. fst (rs ! j))) \<longrightarrow> t) \<and> (ci \<longrightarrow> c = cnt + length js \<and> rest' = rest)"
proof (induction js arbitrary: ok cnt)
  case (Cons j js)
  have lt: "\<not> length rs \<le> cnt + 1" using Cons.prems(2) by simp
  show ?case
  proof (cases "\<not> (ok \<and> fst (rs ! j)) \<and> \<not> ci")
    case True
    then show ?thesis using Cons.prems by auto
  next
    case no: False
    then obtain t c rest' where "select_loop True ci rs (ok \<and> fst (rs ! j)) (cnt + 1) (map Arrive js @ Expire # rest) =
        Some (Inr ((ok \<and> fst (rs ! j)) \<and> (\<forall>j \<in> set js. fst (rs ! j)), t, c, rest'))"
        "(ok \<and> fst (rs ! j)) \<and> (\<forall>j \<in> set js. fst (rs ! j)) \<longrightarrow> t" "ci \<longrightarrow> c = cnt + 1 + length js \<and> rest' = rest"
      using Cons.IH [of "ok \<and> fst (rs ! j)" "cnt + 1"] Cons.prems(2) by auto
    then show ?thesis using no lt by (auto simp: Let_def)
  qed
qed auto

lemma unique_partials_ok:
  assumes "longest_ok md es n lg sq" and "\<And>xs. set (ro xs) \<subseteq> set xs" and "q \<in> set (unique_partials ro (ok, lg, sq))"
  shows "partial_linearization md es n q"
proof -
  obtain i where i: "i \<in> set (ro (remdups (concat (map (\<lambda>v. case v of None \<Rightarrow> [] | Some q \<Rightarrow> [q]) lg))))" "q = sq ! i"
    using assms(3) by (auto simp: unique_partials_def)
  then have "i \<in> set (concat (map (\<lambda>v. case v of None \<Rightarrow> [] | Some q \<Rightarrow> [q]) lg))" using assms(2) by fastforce
  then have "Some i \<in> set lg" by (auto split: option.splits)
  then show ?thesis using assms(1) i(2) by (auto simp: longest_ok_def)
qed

definition info_ok :: "('v, 's) Model \<Rightarrow> 'v entry list list \<Rightarrow> 'v linearizationInfo \<Rightarrow> bool" where
  "info_ok md hist lin \<longleftrightarrow>
     history lin = hist \<and> length (partialLinearizations lin) = length hist \<and>
     (\<forall>i < length hist. \<forall>q \<in> set (partialLinearizations lin ! i). partial_linearization md (hist ! i) (ops_of (hist ! i)) q)"

definition verdict :: "('v, 's) Model \<Rightarrow> 'v entry list list \<Rightarrow> CheckResult" where
  "verdict md hist = (if \<forall>h \<in> set hist. linearizable md h (ops_of h) then Ok else Illegal)"

text \<open>The numbers of the goroutines, in the order in which their results arrive.\<close>

definition all_arrive :: "nat \<Rightarrow> nat list \<Rightarrow> bool" where
  "all_arrive n js \<longleftrightarrow> distinct js \<and> set js = {0..<n}"

lemma checkParallel_total:
  assumes eq: "Equal md = Some eq" "state_equality (Step md) eq" and wf: "\<forall>h \<in> set hist. wf_hist h (ops_of h)"
    and ne: "hist \<noteq> []" and js: "all_arrive (length hist) js" and ro: "ci \<Longrightarrow> \<forall>xs. set (ro xs) \<subseteq> set xs"
  shows "\<exists>f0. \<forall>fuel \<ge> f0. \<exists>lin. checkParallel fuel ro md hist ci timeout (\<lambda>_ _. False) (map Arrive js) = Some (Inr (verdict md hist, lin)) \<and>
    (ci \<longrightarrow> info_ok md hist lin)"
proof -
  obtain f0 where f0: "\<forall>fuel \<ge> f0. \<forall>kill k. \<exists>rs. run_all fuel md ci kill k hist = Some (Inr rs) \<and> length rs = length hist \<and>
      (\<forall>i < length hist. kill (k + i) = (\<lambda>_. False) \<longrightarrow> single_ok md (hist ! i) (rs ! i))"
    using run_all_total [OF eq wf, of ci] by blast
  have "\<exists>lin. checkParallel fuel ro md hist ci timeout (\<lambda>_ _. False) (map Arrive js) = Some (Inr (verdict md hist, lin)) \<and>
    (ci \<longrightarrow> info_ok md hist lin)" if fuel: "f0 \<le> fuel" for fuel
  proof -
    obtain rs where rs: "run_all fuel md ci (\<lambda>_ _. False) 0 hist = Some (Inr rs)" "length rs = length hist"
        "\<forall>i < length hist. single_ok md (hist ! i) (rs ! i)"
      using f0 [rule_format, OF fuel, of "\<lambda>_ _. False" 0] by auto
    have len: "0 + length js = length rs" "js \<noteq> []"
      using js ne rs(2) distinct_card [of js] by (auto simp: all_arrive_def)
    obtain c rest where sel: "select_loop (timeout > 0) ci rs True 0 (map Arrive js) = Some (Inr (True \<and> (\<forall>j \<in> set js. fst (rs ! j)), False, c, rest))"
        "ci \<longrightarrow> c = length rs"
      using select_loop_arrivals [of True ci 0 js rs "timeout > 0"] len by auto
    have one: "fst (rs ! j) = linearizable md (hist ! j) (ops_of (hist ! j))"
        "longest_ok md (hist ! j) (ops_of (hist ! j)) (fst (snd (rs ! j))) (snd (snd (rs ! j)))" if "j < length hist" for j
      using rs(3) [rule_format, OF that] by (auto simp: single_ok_def split: prod.splits)
    have "(\<forall>j \<in> set js. fst (rs ! j)) \<longleftrightarrow> (\<forall>j < length hist. linearizable md (hist ! j) (ops_of (hist ! j)))"
      using js one(1) by (auto simp: all_arrive_def)
    also have "\<dots> \<longleftrightarrow> (\<forall>h \<in> set hist. linearizable md h (ops_of h))" by (auto simp: all_set_conv_all_nth)
    finally have v: "verdict md hist = (if \<forall>j \<in> set js. fst (rs ! j) then Ok else Illegal)" by (simp add: verdict_def)
    have lin: "info_ok md hist \<lparr>history = hist, partialLinearizations = map (unique_partials ro) rs\<rparr>" if ci
      using rs(2) unique_partials_ok [OF one(2), of _ ro] ro [OF that] unfolding info_ok_def by simp (metis prod.collapse)
    show ?thesis using rs(1) sel lin by (auto simp: checkParallel_def collect_def v)
  qed
  then show ?thesis by blast
qed

lemma checkParallel_expires:
  assumes eq: "Equal md = Some eq" "state_equality (Step md) eq" and wf: "\<forall>h \<in> set hist. wf_hist h (ops_of h)"
    and js: "set js \<subseteq> {0..<length hist}" "length js < length hist" and timeout: "timeout > 0" and kill: "\<forall>j \<in> set js. kill j = (\<lambda>_. False)"
  shows "\<exists>f0. \<forall>fuel \<ge> f0. \<exists>lin. checkParallel fuel ro md hist False timeout kill (map Arrive js @ Expire # rest) =
    Some (Inr (if \<forall>j \<in> set js. linearizable md (hist ! j) (ops_of (hist ! j)) then Unknown else Illegal, lin))"
proof -
  obtain f0 where f0: "\<forall>fuel \<ge> f0. \<forall>kill k. \<exists>rs. run_all fuel md False kill k hist = Some (Inr rs) \<and> length rs = length hist \<and>
      (\<forall>i < length hist. kill (k + i) = (\<lambda>_. False) \<longrightarrow> single_ok md (hist ! i) (rs ! i))"
    using run_all_total [OF eq wf, of False] by blast
  have "\<exists>lin. checkParallel fuel ro md hist False timeout kill (map Arrive js @ Expire # rest) =
    Some (Inr (if \<forall>j \<in> set js. linearizable md (hist ! j) (ops_of (hist ! j)) then Unknown else Illegal, lin))" if fuel: "f0 \<le> fuel" for fuel
  proof -
    obtain rs where rs: "run_all fuel md False kill 0 hist = Some (Inr rs)" "length rs = length hist"
        "\<forall>i < length hist. kill i = (\<lambda>_. False) \<longrightarrow> single_ok md (hist ! i) (rs ! i)"
      using f0 [rule_format, OF fuel, of kill 0] by auto
    obtain t c rest' where sel: "select_loop True False rs True 0 (map Arrive js @ Expire # rest) = Some (Inr (True \<and> (\<forall>j \<in> set js. fst (rs ! j)), t, c, rest'))"
        "True \<and> (\<forall>j \<in> set js. fst (rs ! j)) \<longrightarrow> t"
      using select_loop_expires [of True False 0 js rs rest] js(2) rs(2) by auto
    have "fst (rs ! j) = linearizable md (hist ! j) (ops_of (hist ! j))" if "j \<in> set js" for j
      using rs(3) kill js(1) that by (fastforce simp: single_ok_def)
    then show ?thesis using rs(1) sel timeout by (auto simp: checkParallel_def collect_def)
  qed
  then show ?thesis by blast
qed

text \<open>With no partition at all nothing can arrive, and without a timeout the loop blocks forever.\<close>

lemma select_loop_no_goroutine: "select_loop False ci [] ok cnt as = Some (Inl Deadlock)"
proof (induction as)
  case (Cons a as)
  then show ?case by (cases a) simp_all
qed simp

lemma checkParallel_empty: "checkParallel fuel ro md [] ci 0 kill as = Some (Inl Deadlock)"
  by (simp add: checkParallel_def collect_def select_loop_no_goroutine)

end
