(* ===== verification/Porcupine_Locality.thy ===== *)
theory Porcupine_Locality
  imports Porcupine_Parallel
begin

section \<open>Partitions\<close>

text \<open>
  The promise on which \<open>Model.Partition\<close> rests: a history over independent parts is linearizable
  if and only if the history of each part is. It is proved for operations, whose times are distinct,
  and for any model and any function that names the part of an operation. The order of the whole is
  made by giving every operation a point in time between its call and its return, the latest call
  among the operations up to it in the order of its part.
\<close>

subsection \<open>Linearizability of operations\<close>

fun legal_ops :: "('v, 's) Model \<Rightarrow> 's \<Rightarrow> 'v Operation list \<Rightarrow> bool" where
  "legal_ops md s [] = True"
| "legal_ops md s (x # xs) = (case Step md s (Input x) (Output x) of (ok, s') \<Rightarrow> ok \<and> legal_ops md s' xs)"

definition in_time :: "'v Operation list \<Rightarrow> bool" where
  "in_time xs \<longleftrightarrow> sorted_wrt (\<lambda>a b. \<not> Return b < Call a) xs"

definition ops_linearizable :: "('v, 's) Model \<Rightarrow> 'v Operation list \<Rightarrow> bool" where
  "ops_linearizable md ops \<longleftrightarrow> (\<exists>xs. mset xs = mset ops \<and> in_time xs \<and> legal_ops md (Init md) xs)"

definition times :: "'v Operation list \<Rightarrow> int list" where
  "times ops = concat (map (\<lambda>x. [Call x, Return x]) ops)"

definition ops_ok :: "'v Operation list \<Rightarrow> bool" where
  "ops_ok ops \<longleftrightarrow> distinct (times ops) \<and> (\<forall>x \<in> set ops. Call x < Return x) \<and> length ops < 2 ^ 63"

lemma times_distinct:
  assumes "distinct (times ops)" and "i < length ops" and "j < length ops"
  shows "Call (ops ! i) = Call (ops ! j) \<Longrightarrow> i = j" and "Call (ops ! i) \<noteq> Return (ops ! j)"
proof -
  have nth: "times ops ! (2 * i) = Call (ops ! i) \<and> times ops ! (2 * i + 1) = Return (ops ! i)" if "i < length ops" for i
    using that
  proof (induction ops arbitrary: i)
    case (Cons x ops)
    then show ?case by (cases i) (auto simp: times_def)
  qed simp
  have len: "length (times ops) = 2 * length ops" by (induction ops) (auto simp: times_def)
  show "i = j" if "Call (ops ! i) = Call (ops ! j)"
    using nth_eq_iff_index_eq [OF assms(1), of "2 * i" "2 * j"] nth assms(2,3) len that by simp
  show "Call (ops ! i) \<noteq> Return (ops ! j)"
    using nth_eq_iff_index_eq [OF assms(1), of "2 * i" "2 * j + 1"] nth assms(2,3) len by simp presburger
qed

lemma times_filter: "distinct (times ops) \<Longrightarrow> distinct (times (filter P ops))"
  by (induction ops) (auto simp: times_def)

lemma ops_ok_filter: "ops_ok ops \<Longrightarrow> ops_ok (filter P ops)"
  using order_le_less_trans [OF length_filter_le] by (auto simp: ops_ok_def times_filter)

lemma ops_ok_distinct: "ops_ok ops \<Longrightarrow> distinct ops"
  using times_distinct(1) [of ops] by (auto simp: ops_ok_def distinct_conv_nth [of ops])

lemma make_loop_values:
  "e \<in> set (make_loop ops k) \<Longrightarrow> \<exists>j < length ops. eid e = k + int j \<and>
     evalue e = (if kind e then Output (ops ! j) else Input (ops ! j)) \<and>
     time e = (if kind e then Return (ops ! j) else Call (ops ! j))"
proof (induction ops arbitrary: k)
  case (Cons x ops)
  consider (here) "e \<in> {make_loop (x # ops) k ! 0, make_loop (x # ops) k ! 1}" | (later) "e \<in> set (make_loop ops (k + 1))"
    using Cons.prems by auto
  then show ?case
  proof cases
    case here
    then show ?thesis by (intro exI [of _ 0]) auto
  next
    case later
    from Cons.IH [OF this] show ?thesis by (elim exE) (rule exI [of _ "Suc _"], auto)
  qed
qed simp

context time_sort
begin

text \<open>What \<open>makeEntries\<close> puts at the positions of operation \<open>i\<close>.\<close>

lemma makeEntries_at:
  assumes "wf_hist (makeEntries srt ops) (length ops)" and "i < length ops"
  shows "evalue (makeEntries srt ops ! cpos (makeEntries srt ops) i) = Input (ops ! i)"
    and "time (makeEntries srt ops ! cpos (makeEntries srt ops) i) = Call (ops ! i)"
    and "evalue (makeEntries srt ops ! rpos (makeEntries srt ops) i) = Output (ops ! i)"
    and "time (makeEntries srt ops ! rpos (makeEntries srt ops) i) = Return (ops ! i)"
proof -
  let ?es = "makeEntries srt ops"
  note D = wf_histD [OF assms]
  have "set ?es = set (make_loop ops 0)" unfolding makeEntries_def by (metis mset_srt set_mset_mset)
  then have v: "evalue e = (if kind e then Output (ops ! i) else Input (ops ! i)) \<and>
      time e = (if kind e then Return (ops ! i) else Call (ops ! i))" if "e \<in> set ?es" "eid e = int i" for e
    using make_loop_values [of e ops 0] that by auto
  note c = v [OF nth_mem [OF D(3)] D(5)] and r = v [OF nth_mem [OF D(2)] D(7)]
  show "evalue (?es ! cpos ?es i) = Input (ops ! i)" "time (?es ! cpos ?es i) = Call (ops ! i)" using c D(4) by simp_all
  show "evalue (?es ! rpos ?es i) = Output (ops ! i)" "time (?es ! rpos ?es i) = Return (ops ! i)" using r D(6) by simp_all
qed

lemma srt_positions:
  assumes "p < length (srt a)" and "q < length (srt a)" and "time (srt a ! p) < time (srt a ! q)"
  shows "p < q"
proof (rule ccontr)
  assume "\<not> p < q"
  moreover have "p \<noteq> q" using assms(3) by auto
  ultimately have "\<not> byTime_Less (srt a) p q" using srt_Less [of q p a] assms(1) by (simp add: byTime_Len_def)
  then show False using assms(3) by (simp add: byTime_Less_def)
qed

lemma makeEntries_precedes:
  assumes ok: "ops_ok ops" and ij: "i < length ops" "j < length ops"
  shows "rpos (makeEntries srt ops) j < cpos (makeEntries srt ops) i \<longleftrightarrow> Return (ops ! j) < Call (ops ! i)"
proof -
  let ?es = "makeEntries srt ops"
  have wf: "wf_hist ?es (length ops)" using ok by (intro makeEntries_wf) (auto simp: ops_ok_def)
  note C = wf_histD [OF wf ij(1)] and R = wf_histD [OF wf ij(2)]
  note t = makeEntries_at(2) [OF wf ij(1)] makeEntries_at(4) [OF wf ij(2)]
  have "Call (ops ! i) \<noteq> Return (ops ! j)" using times_distinct(2) [OF _ ij] ok by (simp add: ops_ok_def)
  then consider "Return (ops ! j) < Call (ops ! i)" | "Call (ops ! i) < Return (ops ! j)" by linarith
  then show ?thesis
    using srt_positions [of "rpos ?es j" "make_loop ops 0" "cpos ?es i"] srt_positions [of "cpos ?es i" "make_loop ops 0" "rpos ?es j"]
      C(3) R(2) t unfolding makeEntries_def by cases auto
qed

lemma legal_makeEntries:
  assumes "ops_ok ops" and "set is \<subseteq> {0..<length ops}"
  shows "legal md (makeEntries srt ops) s is \<longleftrightarrow> legal_ops md s (map ((!) ops) is)"
proof -
  have "wf_hist (makeEntries srt ops) (length ops)" using assms(1) by (intro makeEntries_wf) (auto simp: ops_ok_def)
  then show ?thesis using assms(2) by (induction "is" arbitrary: s) (auto simp: makeEntries_at split: prod.splits)
qed

lemma real_time_makeEntries:
  assumes "ops_ok ops" and "set is \<subseteq> {0..<length ops}"
  shows "real_time (makeEntries srt ops) is \<longleftrightarrow> in_time (map ((!) ops) is)"
  using assms(2) unfolding real_time_def in_time_def
  by (induction "is") (auto simp: makeEntries_precedes [OF assms(1)] subset_iff)

lemma linearizable_makeEntries:
  assumes ok: "ops_ok ops"
  shows "linearizable md (makeEntries srt ops) (length ops) \<longleftrightarrow> ops_linearizable md ops"
proof
  assume "linearizable md (makeEntries srt ops) (length ops)"
  then obtain "is" where l: "distinct is" "set is = {0..<length ops}" "real_time (makeEntries srt ops) is"
      "legal md (makeEntries srt ops) (Init md) is"
    by (auto simp: linearizable_def linearization_def)
  have "mset is = mset [0..<length ops]" using l(1,2) by (metis atLeastLessThan_upt distinct_upt set_eq_iff_mset_eq_distinct)
  then have "mset (map ((!) ops) is) = mset (map ((!) ops) [0..<length ops])" by (metis mset_map)
  then show "ops_linearizable md ops"
    using real_time_makeEntries [OF ok, of "is"] legal_makeEntries [OF ok, of "is" md "Init md"] l
    unfolding ops_linearizable_def by (intro exI [of _ "map ((!) ops) is"]) (simp add: map_nth)
next
  assume "ops_linearizable md ops"
  then obtain xs where xs: "mset xs = mset ops" "in_time xs" "legal_ops md (Init md) xs" by (auto simp: ops_linearizable_def)
  obtain "is" where i: "distinct is" "set is = {0..<length ops}" "xs = map ((!) ops) is"
  proof -
    let ?f = "the_inv_into {..<length ops} ((!) ops)"
    have d: "distinct ops" by (rule ops_ok_distinct [OF ok])
    have b: "bij_betw ((!) ops) {..<length ops} (set ops)" by (rule bij_betw_nth) (simp_all add: d)
    have st: "set xs = set ops" "distinct xs" using xs(1) d by (metis set_mset_mset, metis mset_eq_imp_distinct_iff)
    note inv = bij_betw_the_inv_into [OF b]
    have "distinct (map ?f xs)" using st inv by (simp add: distinct_map bij_betw_def)
    moreover have "set (map ?f xs) = {0..<length ops}" using st inv by (simp add: bij_betw_def lessThan_atLeast0)
    moreover have "ops ! ?f x = x" if "x \<in> set xs" for x using f_the_inv_into_f_bij_betw [OF b, of x] that st by simp
    then have "xs = map ((!) ops) (map ?f xs)" by (intro nth_equalityI) simp_all
    ultimately show thesis by (rule that)
  qed
  then show "linearizable md (makeEntries srt ops) (length ops)"
    using xs real_time_makeEntries [OF ok, of "is"] legal_makeEntries [OF ok, of "is" md "Init md"]
    by (auto simp: linearizable_def linearization_def)
qed

end

subsection \<open>Independent parts\<close>

text \<open>The model of all parts together: a state per part, of which an operation sees its own.\<close>

definition product_model :: "('v option \<Rightarrow> 'k) \<Rightarrow> ('v, 's) Model \<Rightarrow> ('v, 'k \<Rightarrow> 's) Model" where
  "product_model key md =
     \<lparr>Partition = None, PartitionEvent = None, Init = (\<lambda>_. Init md),
      Step = (\<lambda>st v w. case Step md (st (key v)) v w of (ok, s') \<Rightarrow> (ok, st(key v := s'))),
      Equal = None, DescribeOperation = None, DescribeState = None\<rparr>"

abbreviation part :: "('v option \<Rightarrow> 'k) \<Rightarrow> 'k \<Rightarrow> 'v Operation list \<Rightarrow> 'v Operation list" where
  "part key k ops \<equiv> filter (\<lambda>x. key (Input x) = k) ops"

lemma legal_product:
  "legal_ops (product_model key md) st xs \<longleftrightarrow> (\<forall>k. legal_ops md (st k) (part key k xs))"
proof (induction xs arbitrary: st)
  case (Cons x xs)
  let ?k = "key (Input x)"
  obtain ok s' where s: "Step md (st ?k) (Input x) (Output x) = (ok, s')" by force
  have "legal_ops (product_model key md) st (x # xs) \<longleftrightarrow> ok \<and> (\<forall>k. legal_ops md ((st(?k := s')) k) (part key k xs))"
    using s Cons.IH by (simp add: product_model_def)
  also have "\<dots> \<longleftrightarrow> (\<forall>k. legal_ops md (st k) (part key k (x # xs)))"
  proof -
    have "legal_ops md (st k) (part key k (x # xs)) \<longleftrightarrow> (k = ?k \<longrightarrow> ok) \<and> legal_ops md ((st(?k := s')) k) (part key k xs)" for k
      using s by (cases "k = ?k") auto
    then show ?thesis by auto
  qed
  finally show ?case .
qed simp

text \<open>The linearization points of the operations of a list.\<close>

definition point :: "'v Operation list \<Rightarrow> nat \<Rightarrow> int" where
  "point xs i = Max (Call ` set (take (Suc i) xs))"

definition pointed :: "'v Operation list \<Rightarrow> (int \<times> 'v Operation) list" where
  "pointed xs = map (\<lambda>i. (point xs i, xs ! i)) [0..<length xs]"

lemma map_snd_pointed [simp]: "map snd (pointed xs) = xs"
  by (simp add: pointed_def comp_def map_nth)

lemma pointed_sorted: "sorted (map fst (pointed xs))"
proof -
  have "point xs i \<le> point xs j" if "i \<le> j" "j < length xs" for i j
    unfolding point_def using that by (intro Max_mono image_mono set_take_subset_set_take) auto
  then show ?thesis by (auto simp: pointed_def sorted_iff_nth_mono)
qed

lemma pointed_between:
  assumes "in_time xs" and "\<forall>x \<in> set xs. Call x < Return x" and "(t, x) \<in> set (pointed xs)"
  shows "Call x \<le> t" and "t \<le> Return x"
proof -
  obtain i where i: "i < length xs" "t = point xs i" "x = xs ! i" using assms(3) by (auto simp: pointed_def)
  then have "x \<in> set (take (Suc i) xs)" by (simp add: take_Suc_conv_app_nth)
  then show "Call x \<le> t" unfolding i(2) point_def by (intro Max_ge) auto
  have "Call y \<le> Return x" if "y \<in> set (take (Suc i) xs)" for y
  proof -
    obtain j where j: "j \<le> i" "y = xs ! j" using \<open>y \<in> _\<close> i(1) by (auto simp: in_set_conv_nth less_Suc_eq_le)
    show ?thesis
    proof (cases "j = i")
      case True
      then show ?thesis using j i assms(2) nth_mem [OF i(1)] by fastforce
    next
      case False
      then have "\<not> Return (xs ! i) < Call (xs ! j)"
        using sorted_wrt_nth_less [OF assms(1) [unfolded in_time_def], of j i] j(1) i(1) by simp
      then show ?thesis using i(3) j(2) by simp
    qed
  qed
  then show "t \<le> Return x" unfolding i(2) point_def using i(1) by (subst Max_le_iff) auto
qed

lemma parts_mset: "finite K \<Longrightarrow> key ` Input ` set ops \<subseteq> K \<Longrightarrow> mset ops = (\<Sum>k \<in> K. mset (part key k ops))"
proof (induction ops)
  case (Cons x ops)
  let ?k = "key (Input x)"
  have "(\<Sum>k \<in> K. mset (part key k (x # ops))) = (\<Sum>k \<in> K. mset (part key k ops) + (if k = ?k then {#x#} else {#}))"
    by (intro sum.cong) auto
  also have "\<dots> = (\<Sum>k \<in> K. mset (part key k ops)) + {#x#}"
    using Cons.prems by (simp add: sum.distrib)
  finally show ?case using Cons by simp
qed simp

lemma Init_product [simp]: "Init (product_model key md) = (\<lambda>_. Init md)"
  by (simp add: product_model_def)

text \<open>The orders \<open>xs k\<close> of the parts, merged by their points.\<close>

definition merge :: "('k \<Rightarrow> 'v Operation list) \<Rightarrow> 'k list \<Rightarrow> 'v Operation list" where
  "merge xs ks = map snd (sort_key fst (concat (map (\<lambda>k. pointed (xs k)) ks)))"

lemma merge_mset: "mset (merge xs ks) = (\<Sum>k \<leftarrow> ks. mset (xs k))"
proof -
  have "mset (map snd (concat (map (\<lambda>k. pointed (xs k)) ks))) = (\<Sum>k \<leftarrow> ks. mset (xs k))"
    by (induction ks) (simp_all add: mset_map [symmetric] del: mset_map)
  then show ?thesis unfolding merge_def by (metis mset_map mset_sort)
qed

lemma merge_in_time:
  assumes "\<And>k. k \<in> set ks \<Longrightarrow> in_time (xs k) \<and> (\<forall>x \<in> set (xs k). Call x < Return x)"
  shows "in_time (merge xs ks)"
proof -
  let ?P = "concat (map (\<lambda>k. pointed (xs k)) ks)"
  have bt: "Call x \<le> t \<and> t \<le> Return x" if "(t, x) \<in> set ?P" for t x
    using that pointed_between assms by fastforce
  have "sorted_wrt (\<lambda>p q. \<not> Return (snd q) < Call (snd p)) (sort_key fst ?P)"
  proof (rule sorted_wrt_mono_rel [of _ "\<lambda>p q. fst p \<le> fst q"])
    show "sorted_wrt (\<lambda>p q. fst p \<le> fst q) (sort_key fst ?P)" using sorted_sort_key [of fst ?P] by (simp add: sorted_wrt_map)
    show "\<not> Return (snd q) < Call (snd p)" if "p \<in> set (sort_key fst ?P)" "q \<in> set (sort_key fst ?P)" "fst p \<le> fst q" for p q
      using bt [of "fst p" "snd p"] bt [of "fst q" "snd q"] that by simp
  qed
  then show ?thesis by (simp add: in_time_def merge_def sorted_wrt_map)
qed

lemma merge_part:
  assumes "distinct ks" and "\<And>k x. k \<in> set ks \<Longrightarrow> x \<in> set (xs k) \<Longrightarrow> key (Input x) = k"
  shows "part key k (merge xs ks) = (if k \<in> set ks then xs k else [])"
proof -
  let ?f = "filter (\<lambda>p. key (Input (snd p)) = k)"
  have one: "?f (pointed (xs j)) = (if j = k then pointed (xs k) else [])" if "j \<in> set ks" for j
  proof -
    have "key (Input (snd p)) = j" if "p \<in> set (pointed (xs j))" for p
      using assms(2) [OF \<open>j \<in> set ks\<close>, of "snd p"] that map_snd_pointed [of "xs j"] by (metis image_eqI set_map)
    then show ?thesis by (auto simp: filter_id_conv filter_empty_conv)
  qed
  have "?f (concat (map (\<lambda>k. pointed (xs k)) ks)) = (if k \<in> set ks then pointed (xs k) else [])"
    using assms(1) one by (induction ks) auto
  then have "?f (sort_key fst (concat (map (\<lambda>k. pointed (xs k)) ks))) = (if k \<in> set ks then pointed (xs k) else [])"
    using pointed_sorted [of "xs k"] by (simp add: filter_sort sort_key_id_if_sorted)
  then show ?thesis by (simp add: merge_def filter_map comp_def)
qed

theorem locality:
  assumes ok: "ops_ok ops"
  shows "ops_linearizable (product_model key md) ops \<longleftrightarrow> (\<forall>k \<in> key ` Input ` set ops. ops_linearizable md (part key k ops))"
proof
  assume "ops_linearizable (product_model key md) ops"
  then obtain xs where xs: "mset xs = mset ops" "in_time xs" "legal_ops (product_model key md) (\<lambda>_. Init md) xs"
    by (auto simp: ops_linearizable_def)
  have "mset (part key k xs) = mset (part key k ops)" for k using xs(1) by (metis mset_filter)
  moreover have "in_time (part key k xs)" for k using xs(2) by (simp add: in_time_def sorted_wrt_filter)
  moreover have "legal_ops md (Init md) (part key k xs)" for k using xs(3) by (simp add: legal_product)
  ultimately show "\<forall>k \<in> key ` Input ` set ops. ops_linearizable md (part key k ops)" unfolding ops_linearizable_def by blast
next
  let ?K = "key ` Input ` set ops"
  assume "\<forall>k \<in> ?K. ops_linearizable md (part key k ops)"
  then obtain xs where xs: "\<And>k. k \<in> ?K \<Longrightarrow> mset (xs k) = mset (part key k ops) \<and> in_time (xs k) \<and> legal_ops md (Init md) (xs k)"
    unfolding ops_linearizable_def by metis
  obtain ks where ks: "set ks = ?K" "distinct ks" using finite_distinct_list [of ?K] by auto
  have st: "set (xs k) = set (part key k ops)" if "k \<in> ?K" for k using xs [OF that] by (metis set_mset_mset)
  have "mset (merge xs ks) = (\<Sum>k \<in> ?K. mset (xs k))" unfolding merge_mset using ks by (simp add: sum_list_distinct_conv_sum_set)
  also have "\<dots> = (\<Sum>k \<in> ?K. mset (part key k ops))" using xs by (simp cong: sum.cong)
  also have "\<dots> = mset ops" by (rule parts_mset [symmetric]) auto
  finally have "mset (merge xs ks) = mset ops" .
  moreover have "in_time (merge xs ks)" using xs st ks(1) ok by (intro merge_in_time) (simp add: ops_ok_def)
  moreover have "part key k (merge xs ks) = (if k \<in> set ks then xs k else [])" for k
    using st ks(1) by (intro merge_part ks(2)) simp
  then have "legal_ops md (Init md) (part key k (merge xs ks))" for k using xs [of k] ks(1) by simp
  then have "legal_ops (product_model key md) (\<lambda>_. Init md) (merge xs ks)" unfolding legal_product by simp
  ultimately show "ops_linearizable (product_model key md) ops" unfolding ops_linearizable_def Init_product by blast
qed

end
