(* ===== verification/Kv_Model.thy ===== *)
theory Kv_Model
  imports Porcupine_Locality "HOL-Library.List_Lexorder" "HOL-Library.Char_ord" "HOL-Library.AList"
begin

section \<open>The key-value model (models/kv.go)\<close>

text \<open>
  The sequential specification that the tests of the key-value services give to the checker. Values
  of type \<open>interface\<close> are a \<open>KvInput\<close>, a \<open>KvOutput\<close> or nil; a type assertion on another
  value is a panic. The functions of the model are given twice: with their panics, and as the total
  functions that \<open>Model\<close> has, equal to them on well-typed operations.
\<close>

record KvInput =
  Op :: "8 word"
  InKey :: string
  InValue :: string

record KvOutput =
  OutValue :: string

datatype kv_value = InV KvInput | OutV KvOutput

definition as_KvInput :: "kv_value option \<Rightarrow> KvInput res" where
  "as_KvInput v = (case v of Some (InV i) \<Rightarrow> Inr i | _ \<Rightarrow> Inl (Panic ''interface conversion''))"

definition as_KvOutput :: "kv_value option \<Rightarrow> KvOutput res" where
  "as_KvOutput v = (case v of Some (OutV w) \<Rightarrow> Inr w | _ \<Rightarrow> Inl (Panic ''interface conversion''))"

text \<open>\<open>Partition\<close>: the map from keys to their operations, as an association list.\<close>

definition group_op :: "kv_value Operation \<Rightarrow> (string \<times> kv_value Operation list) list \<Rightarrow>
  (string \<times> kv_value Operation list) list res" where
  "group_op v m =
     bind_res (as_KvInput (Input v)) (\<lambda>inp.
       let key = InKey inp in
       Inr (AList.update key ((case map_of m key of None \<Rightarrow> [] | Some l \<Rightarrow> l) @ [v]) m))"

definition kv_Partition :: "kv_value Operation list \<Rightarrow> kv_value Operation list list res" where
  "kv_Partition hist =
     bind_res (fold_res group_op hist []) (\<lambda>m.
       let keys = sort (map fst m) in
       Inr (map (\<lambda>k. the (map_of m k)) keys))"

definition kv_Init :: string where
  "kv_Init = ''''"

definition kv_Step :: "string \<Rightarrow> kv_value option \<Rightarrow> kv_value option \<Rightarrow> (bool \<times> string) res" where
  "kv_Step st input output =
     bind_res (as_KvInput input) (\<lambda>inp.
     bind_res (as_KvOutput output) (\<lambda>out.
       if Op inp = 0 then Inr (OutValue out = st, st)
       else if Op inp = 1 then Inr (True, InValue inp)
       else Inr (True, st @ InValue inp)))"

definition kv_DescribeOperation :: "kv_value option \<Rightarrow> kv_value option \<Rightarrow> string res" where
  "kv_DescribeOperation input output =
     bind_res (as_KvInput input) (\<lambda>inp.
     bind_res (as_KvOutput output) (\<lambda>out.
       Inr (if Op inp = 0 then ''get('' @ [CHR 0x27] @ InKey inp @ [CHR 0x27] @ '') -> '' @ [CHR 0x27] @ OutValue out @ [CHR 0x27]
            else if Op inp = 1 then ''put('' @ [CHR 0x27] @ InKey inp @ [CHR 0x27] @ '', '' @ [CHR 0x27] @ InValue inp @ [CHR 0x27] @ '')''
            else if Op inp = 2 then ''append('' @ [CHR 0x27] @ InKey inp @ [CHR 0x27] @ '', '' @ [CHR 0x27] @ InValue inp @ [CHR 0x27] @ '')''
            else ''<invalid>'')))"

definition total :: "'a \<Rightarrow> 'a res \<Rightarrow> 'a" where
  "total d r = (case r of Inl e \<Rightarrow> d | Inr x \<Rightarrow> x)"

definition KvModel :: "(kv_value, string) Model" where
  "KvModel =
     \<lparr>Partition = Some (\<lambda>hist. total [] (kv_Partition hist)), PartitionEvent = None, Init = kv_Init,
      Step = (\<lambda>st v w. total (False, st) (kv_Step st v w)), Equal = None,
      DescribeOperation = Some (\<lambda>v w. total '''' (kv_DescribeOperation v w)), DescribeState = None\<rparr>"

subsection \<open>The specification of the store\<close>

definition kv_typed :: "kv_value Operation \<Rightarrow> bool" where
  "kv_typed x \<longleftrightarrow> (\<exists>i w. Input x = Some (InV i) \<and> Output x = Some (OutV w))"

definition kv_key :: "kv_value option \<Rightarrow> string" where
  "kv_key v = (case v of Some (InV i) \<Rightarrow> InKey i | _ \<Rightarrow> '''')"

text \<open>The store as a whole: every key has its own string, first empty.\<close>

definition KvStore :: "(kv_value, string \<Rightarrow> string) Model" where
  "KvStore = product_model kv_key KvModel"

lemma KvStore_Step:
  "kv_typed x \<Longrightarrow> Input x = Some (InV i) \<Longrightarrow> Output x = Some (OutV w) \<Longrightarrow>
    Step KvStore st (Input x) (Output x) =
      (if Op i = 0 then (OutValue w = st (InKey i), st)
       else if Op i = 1 then (True, st(InKey i := InValue i))
       else (True, st(InKey i := st (InKey i) @ InValue i)))"
  by (auto simp: KvStore_def product_model_def KvModel_def kv_Step_def kv_key_def as_KvInput_def as_KvOutput_def total_def)

subsection \<open>What Partition computes\<close>

lemma group_op_typed:
  assumes "kv_typed v"
  shows "group_op v m = Inr (AList.update (kv_key (Input v)) ((case map_of m (kv_key (Input v)) of None \<Rightarrow> [] | Some l \<Rightarrow> l) @ [v]) m)"
  using assms by (auto simp: kv_typed_def group_op_def as_KvInput_def kv_key_def Let_def)

lemma group_loop:
  assumes "\<forall>v \<in> set hist. kv_typed v" and "distinct (map fst m)"
  shows "\<exists>m'. fold_res group_op hist m = Inr m' \<and> distinct (map fst m') \<and> fst ` set m' = fst ` set m \<union> kv_key ` Input ` set hist \<and>
    (\<forall>k \<in> fst ` set m'. map_of m' k = Some ((case map_of m k of None \<Rightarrow> [] | Some l \<Rightarrow> l) @ part kv_key k hist))"
  using assms
proof (induction hist arbitrary: m)
  case Nil
  then show ?case by (auto simp: map_of_eq_None_iff split: option.splits)
next
  case (Cons v hist)
  let ?k = "kv_key (Input v)" and ?l = "case map_of m (kv_key (Input v)) of None \<Rightarrow> [] | Some l \<Rightarrow> l"
  let ?m = "AList.update ?k (?l @ [v]) m"
  obtain m' where m': "fold_res group_op hist ?m = Inr m'" "distinct (map fst m')" "fst ` set m' = fst ` set ?m \<union> kv_key ` Input ` set hist"
      "\<forall>k \<in> fst ` set m'. map_of m' k = Some ((case map_of ?m k of None \<Rightarrow> [] | Some l \<Rightarrow> l) @ part kv_key k hist)"
    using Cons.IH [of ?m, OF _ distinct_update [OF Cons.prems(2)]] Cons.prems(1) by (elim exE conjE meta_impE) (simp, rule that)
  have "fst ` set ?m = insert ?k (fst ` set m)" using dom_update [of ?k "?l @ [v]" m] by simp
  moreover have "(case map_of ?m k of None \<Rightarrow> [] | Some l \<Rightarrow> l) @ part kv_key k hist =
      (case map_of m k of None \<Rightarrow> [] | Some l \<Rightarrow> l) @ part kv_key k (v # hist)" for k
    by (simp add: update_conv')
  ultimately show ?case using m' group_op_typed [of v m] Cons.prems(1) by (intro exI [of _ m']) simp
qed

lemma kv_Partition_typed:
  assumes "\<forall>v \<in> set hist. kv_typed v"
  shows "kv_Partition hist = Inr (map (\<lambda>k. part kv_key k hist) (sorted_list_of_set (kv_key ` Input ` set hist)))"
proof -
  obtain m where m: "fold_res group_op hist [] = Inr m" "distinct (map fst m)" "fst ` set m = kv_key ` Input ` set hist"
      "\<forall>k \<in> fst ` set m. map_of m k = Some (part kv_key k hist)"
    using group_loop [OF assms, of "[]"] by (simp only: list.map distinct.simps map_of.simps option.case image_empty list.set Un_empty_left append_Nil True_implies_equals) metis
  have "sort (map fst m) = sorted_list_of_set (kv_key ` Input ` set hist)"
    using m(2,3) by (metis list.set_map sorted_list_of_set_sort_remdups distinct_remdups_id)
  moreover have "the (map_of m k) = part kv_key k hist" if "k \<in> set (sorted_list_of_set (kv_key ` Input ` set hist))" for k
    using m(3) bspec [OF m(4), of k] that by simp
  ultimately show ?thesis using m(1) by (simp add: kv_Partition_def Let_def cong: map_cong)
qed

end
