(* ===== verification/Visualization.thy ===== *)
theory Visualization
  imports Porcupine_Locality
begin

section \<open>The data of a visualization (porcupine/visualization.go)\<close>

text \<open>
  \<open>computeVisualizationData\<close> turns the partial linearizations of the checker into what the page
  shows: for every operation its interval and description, for every partial linearization the
  states it goes through, and for every operation the largest partial linearization it is in. It
  replays the linearizations on the model and panics when a step is refused. The page
  is in theory \<open>Porcupine_Page\<close>. A Go map from which a missing key
  reads as the zero value is a total function.
\<close>

record historyElement =
  ClientId :: int
  Start :: int
  End :: int
  Description :: string

record linearizationStep =
  Index :: int
  StateDescription :: string

record partitionVisualizationData =
  History :: "historyElement list"
  PartialLinearizations :: "linearizationStep list list"
  Largest :: "int \<Rightarrow> int option"

definition zero_element :: historyElement where
  "zero_element = \<lparr>ClientId = 0, Start = 0, End = 0, Description = ''''\<rparr>"

text \<open>The loop over the entries: the elements, \<open>callValue\<close> and \<open>returnValue\<close>.\<close>

type_synonym 'v vis_history = "historyElement list \<times> (int \<Rightarrow> 'v option) \<times> (int \<Rightarrow> 'v option)"

definition vis_entry :: "('v, 's) Model \<Rightarrow> 'v entry \<Rightarrow> 'v vis_history \<Rightarrow> 'v vis_history res" where
  "vis_entry md elem acc =
     (case acc of (hist, callValue, returnValue) \<Rightarrow>
        bind_res (go_index hist (eid elem)) (\<lambda>h.
        if kind elem = callEntry
        then bind_res (go_update hist (eid elem) (h\<lparr>ClientId := clientId elem, Start := time elem\<rparr>)) (\<lambda>hist'.
               Inr (hist', callValue(eid elem := evalue elem), returnValue))
        else bind_res (go_update hist (eid elem)
                (h\<lparr>End := time elem, Description := the (DescribeOperation md) (callValue (eid elem)) (evalue elem)\<rparr>)) (\<lambda>hist'.
               Inr (hist', callValue, returnValue(eid elem := evalue elem)))))"

text \<open>The loop over one partial linearization: the steps so far, the state, \<open>largestSize\<close> and
  \<open>largestIndex\<close>; \<open>i\<close> is the index of the linearization and \<open>len\<close> its length.\<close>

type_synonym 's vis_partial = "linearizationStep list \<times> 's \<times> (int \<Rightarrow> int) \<times> (int \<Rightarrow> int option)"

definition vis_step :: "('v, 's) Model \<Rightarrow> (int \<Rightarrow> 'v option) \<Rightarrow> (int \<Rightarrow> 'v option) \<Rightarrow> int \<Rightarrow> int \<Rightarrow> int \<Rightarrow>
  's vis_partial \<Rightarrow> 's vis_partial res" where
  "vis_step md callValue returnValue i len histId acc =
     (case acc of (lzn, st, largestSize, largestIndex) \<Rightarrow>
        case Step md st (callValue histId) (returnValue histId) of (ok, st') \<Rightarrow>
          if \<not> ok then Inl (Panic ''valid partial linearization returned non-ok result from model step'')
          else (let stateDesc = the (DescribeState md) st';
                    lzn' = lzn @ [\<lparr>Index = histId, StateDescription = stateDesc\<rparr>]
                in if largestSize histId < len
                   then Inr (lzn', st', largestSize(histId := len), largestIndex(histId \<mapsto> i))
                   else Inr (lzn', st', largestSize, largestIndex)))"

text \<open>The loop over the partial linearizations.\<close>

definition vis_partial :: "('v, 's) Model \<Rightarrow> (int \<Rightarrow> 'v option) \<Rightarrow> (int \<Rightarrow> 'v option) \<Rightarrow> int \<times> int list \<Rightarrow>
  linearizationStep list list \<times> (int \<Rightarrow> int) \<times> (int \<Rightarrow> int option) \<Rightarrow>
  (linearizationStep list list \<times> (int \<Rightarrow> int) \<times> (int \<Rightarrow> int option)) res" where
  "vis_partial md callValue returnValue ip acc =
     (case ip of (i, partial) \<Rightarrow> case acc of (linearizations, largestSize, largestIndex) \<Rightarrow>
        bind_res (fold_res (vis_step md callValue returnValue i (go_len partial)) partial ([], Init md, largestSize, largestIndex))
          (\<lambda>(lzn, st, largestSize', largestIndex').
             Inr (linearizations @ [lzn], largestSize', largestIndex')))"

text \<open>One partition; \<open>srt\<close> is what \<open>sort.Slice\<close> does to the partial linearizations.\<close>

definition vis_partition :: "(int list list \<Rightarrow> int list list) \<Rightarrow> ('v, 's) Model \<Rightarrow> 'v entry list \<Rightarrow> int list list \<Rightarrow>
  partitionVisualizationData res" where
  "vis_partition srt md es partials0 =
     bind_res (fold_res (vis_entry md) es (replicate (length es div 2) zero_element, \<lambda>_. None, \<lambda>_. None)) (\<lambda>(hist, callValue, returnValue).
     let partials = srt partials0 in
     bind_res (fold_res (vis_partial md callValue returnValue) (zip (map int [0..<length partials]) partials)
        ([], \<lambda>_. 0, \<lambda>_. None)) (\<lambda>(linearizations, largestSize, largestIndex).
       Inr \<lparr>History = hist, PartialLinearizations = linearizations, Largest = largestIndex\<rparr>))"

definition computeVisualizationData :: "(int list list \<Rightarrow> int list list) \<Rightarrow> ('v option \<Rightarrow> string) \<Rightarrow> ('s \<Rightarrow> string) \<Rightarrow>
  ('v, 's) Model \<Rightarrow> 'v linearizationInfo \<Rightarrow> partitionVisualizationData list res" where
  "computeVisualizationData srt fmtv fmts model lin =
     (let md = fillDefault fmtv fmts model in
      fold_res (\<lambda>p data.
          bind_res (go_index (partialLinearizations lin) (int p)) (\<lambda>partials.
          bind_res (vis_partition srt md (history lin ! p) partials) (\<lambda>d. Inr (data @ [d]))))
        [0..<length (history lin)] [])"

subsection \<open>The elements\<close>

definition element :: "('v, 's) Model \<Rightarrow> 'v entry list \<Rightarrow> nat \<Rightarrow> historyElement" where
  "element md es i =
     \<lparr>ClientId = clientId (es ! cpos es i), Start = time (es ! cpos es i), End = time (es ! rpos es i),
      Description = the (DescribeOperation md) (evalue (es ! cpos es i)) (evalue (es ! rpos es i))\<rparr>"

text \<open>What the loop has done after the first \<open>p\<close> entries.\<close>

definition element_upto :: "('v, 's) Model \<Rightarrow> 'v entry list \<Rightarrow> nat \<Rightarrow> nat \<Rightarrow> historyElement" where
  "element_upto md es p i =
     (if rpos es i < p then element md es i
      else if cpos es i < p then zero_element\<lparr>ClientId := clientId (es ! cpos es i), Start := time (es ! cpos es i)\<rparr>
      else zero_element)"

definition value_upto :: "('v entry list \<Rightarrow> nat \<Rightarrow> nat) \<Rightarrow> 'v entry list \<Rightarrow> nat \<Rightarrow> nat \<Rightarrow> int \<Rightarrow> 'v option" where
  "value_upto pos es n p x = (if 0 \<le> x \<and> x < int n \<and> pos es (nat x) < p then evalue (es ! pos es (nat x)) else None)"

definition vis_upto :: "('v, 's) Model \<Rightarrow> 'v entry list \<Rightarrow> nat \<Rightarrow> nat \<Rightarrow> 'v vis_history" where
  "vis_upto md es n p = (map (element_upto md es p) [0..<n], value_upto cpos es n p, value_upto rpos es n p)"

lemma vis_entry_step:
  assumes wf: "wf_hist es n" and p: "p < length es"
  shows "vis_entry md (es ! p) (vis_upto md es n p) = Inr (vis_upto md es n (Suc p))"
proof -
  obtain i where i: "i < n" "p = cpos es i \<or> p = rpos es i" using wf p by (auto simp: wf_hist_def)
  note D = wf_histD [OF wf i(1)]
  have other: "cpos es j \<noteq> p \<and> rpos es j \<noteq> p" if "j < n" "j \<noteq> i" for j
    using wf_histD [OF wf that(1)] D i(2) that(2) by (metis of_nat_eq_iff)
  have el: "element_upto md es (Suc p) j = element_upto md es p j" if "j < n" "j \<noteq> i" for j
    using other [OF that] by (auto simp: element_upto_def less_Suc_eq)
  have val: "value_upto pos es n (Suc p) x = value_upto pos es n p x" if "pos = cpos \<or> pos = rpos" "x \<noteq> int i" for pos x
  proof (cases "0 \<le> x \<and> x < int n")
    case True
    then have "nat x < n" "nat x \<noteq> i" using that(2) by auto
    from other [OF this] show ?thesis using that(1) by (auto simp: value_upto_def less_Suc_eq)
  qed (auto simp: value_upto_def)
  have upd: "(map f [0..<n])[i := f' i] = map f' [0..<n]" if "\<And>j. j < n \<Longrightarrow> j \<noteq> i \<Longrightarrow> f' j = f j" for f f' :: "nat \<Rightarrow> historyElement"
    using that by (intro nth_equalityI) (simp_all add: nth_list_update i(1))
  show ?thesis
  proof (cases "p = cpos es i")
    case True
    have "(map (element_upto md es p) [0..<n])[i := element_upto md es (Suc p) i] = map (element_upto md es (Suc p)) [0..<n]"
      by (rule upd) (rule el)
    moreover have "element_upto md es (Suc p) i = (element_upto md es p i)\<lparr>ClientId := clientId (es ! p), Start := time (es ! p)\<rparr>"
      using True D by (simp add: element_upto_def)
    moreover have "(value_upto cpos es n p)(int i := evalue (es ! p)) = value_upto cpos es n (Suc p)"
      by (rule ext, case_tac "x = int i") (simp add: True i(1) value_upto_def, simp add: val)
    moreover have "value_upto rpos es n (Suc p) x = value_upto rpos es n p x" for x
      using True val [of rpos x] D(1) by (cases "x = int i") (auto simp: value_upto_def)
    ultimately show ?thesis using True D i(1) by (simp add: vis_entry_def vis_upto_def go_index_def go_update_def go_len_def fun_eq_iff)
  next
    case False
    then have r: "p = rpos es i" using i(2) by simp
    have "(map (element_upto md es p) [0..<n])[i := element_upto md es (Suc p) i] = map (element_upto md es (Suc p)) [0..<n]"
      by (rule upd) (rule el)
    moreover have cv: "value_upto cpos es n p (int i) = evalue (es ! cpos es i)" using r D i(1) by (simp add: value_upto_def)
    moreover have "element_upto md es (Suc p) i = (element_upto md es p i)\<lparr>End := time (es ! p),
        Description := the (DescribeOperation md) (value_upto cpos es n p (int i)) (evalue (es ! p))\<rparr>"
      unfolding cv using r D by (simp add: element_upto_def element_def zero_element_def)
    moreover have "(value_upto rpos es n p)(int i := evalue (es ! p)) = value_upto rpos es n (Suc p)"
      by (rule ext, case_tac "x = int i") (simp add: r i(1) value_upto_def, simp add: val)
    moreover have "value_upto cpos es n (Suc p) x = value_upto cpos es n p x" for x
      using r val [of cpos x] D(1) by (cases "x = int i") (auto simp: value_upto_def)
    ultimately show ?thesis using r D i(1) by (simp add: vis_entry_def vis_upto_def go_index_def go_update_def go_len_def fun_eq_iff)
  qed
qed

lemma vis_entries:
  assumes wf: "wf_hist es n"
  shows "fold_res (vis_entry md) es (replicate n zero_element, \<lambda>_. None, \<lambda>_. None) =
    Inr (map (element md es) [0..<n], value_upto cpos es n (length es), value_upto rpos es n (length es))"
proof -
  have "fold_res (vis_entry md) (take p es) (vis_upto md es n 0) = Inr (vis_upto md es n p)" if "p \<le> length es" for p
    using that
  proof (induction p)
    case (Suc p)
    show ?case using Suc vis_entry_step [OF wf, of p md] by (simp add: take_Suc_conv_app_nth fold_res_snoc)
  qed simp
  from this [of "length es"] have "fold_res (vis_entry md) es (vis_upto md es n 0) = Inr (vis_upto md es n (length es))" by simp
  moreover have "vis_upto md es n 0 = (replicate n zero_element, \<lambda>_. None, \<lambda>_. None)"
    by (auto simp: vis_upto_def element_upto_def value_upto_def map_replicate_const fun_eq_iff intro!: nth_equalityI)
  moreover have "element_upto md es (length es) i = element md es i" if "i < n" for i
    using wf_histD(2) [OF wf that] by (simp add: element_upto_def)
  ultimately show ?thesis by (simp add: vis_upto_def cong: map_cong)
qed

subsection \<open>The partial linearizations\<close>

text \<open>The states a linearization goes through, as the page describes them.\<close>

fun replay :: "('v, 's) Model \<Rightarrow> 'v entry list \<Rightarrow> 's \<Rightarrow> int list \<Rightarrow> linearizationStep list" where
  "replay md es s [] = []"
| "replay md es s (h # hs) =
     (let s' = snd (Step md s (evalue (es ! cpos es (nat h))) (evalue (es ! rpos es (nat h))))
      in \<lparr>Index = h, StateDescription = the (DescribeState md) s'\<rparr> # replay md es s' hs)"

text \<open>The first list that has an element.\<close>

definition first_with :: "int list list \<Rightarrow> int \<Rightarrow> int option" where
  "first_with ps h =
     (let i = length (takeWhile (\<lambda>q. h \<notin> set q) ps) in if i < length ps then Some (int i) else None)"

lemma first_with_snoc:
  "first_with (ps @ [q]) h =
     (case first_with ps h of Some i \<Rightarrow> Some i | None \<Rightarrow> if h \<in> set q then Some (int (length ps)) else None)"
proof (cases "\<exists>r \<in> set ps. h \<in> set r")
  case True
  then obtain r where "r \<in> set ps" "h \<in> set r" by blast
  then have "takeWhile (\<lambda>q. h \<notin> set q) (ps @ [q]) = takeWhile (\<lambda>q. h \<notin> set q) ps" by (intro takeWhile_append1) auto
  moreover have "length (takeWhile (\<lambda>q. h \<notin> set q) ps) < length ps"
    using True by (metis (mono_tags, lifting) length_takeWhile_le nat_less_le set_takeWhileD takeWhile_eq_all_conv takeWhile_eq_take take_all_iff order_refl)
  ultimately show ?thesis by (simp add: first_with_def)
next
  case False
  then have tw: "takeWhile (\<lambda>q. h \<notin> set q) ps = ps" by (simp add: takeWhile_eq_all_conv)
  show ?thesis using False by (simp add: first_with_def Let_def takeWhile_append tw)
qed

lemma first_with_Some: "first_with ps h = Some i \<Longrightarrow> 0 \<le> i \<and> nat i < length ps \<and> h \<in> set (ps ! nat i)"
  using nth_length_takeWhile [of "\<lambda>q. h \<notin> set q" ps] by (auto simp: first_with_def Let_def split: if_splits)

lemma vis_steps:
  assumes "wf_hist es n" and "set is \<subseteq> {0..<n}" and "legal md es s is"
  shows "\<exists>s'. fold_res (vis_step md (value_upto cpos es n (length es)) (value_upto rpos es n (length es)) i len) (map int is) (lz, s, ls, li) =
    Inr (lz @ replay md es s (map int is), s',
      \<lambda>h. if h \<in> int ` set is \<and> ls h < len then len else ls h,
      \<lambda>h. if h \<in> int ` set is \<and> ls h < len then Some i else li h)"
  using assms(2,3)
proof (induction "is" arbitrary: lz s ls li)
  case (Cons k "is")
  let ?cv = "value_upto cpos es n (length es)" and ?rv = "value_upto rpos es n (length es)"
  obtain s1 where s1: "Step md s (evalue (es ! cpos es k)) (evalue (es ! rpos es k)) = (True, s1)" "legal md es s1 is"
    using Cons.prems(2) by (auto split: prod.splits)
  have v: "?cv (int k) = evalue (es ! cpos es k)" "?rv (int k) = evalue (es ! rpos es k)"
    using wf_histD [OF assms(1), of k] Cons.prems(1) by (simp_all add: value_upto_def)
  let ?ls = "if ls (int k) < len then ls(int k := len) else ls" and ?li = "if ls (int k) < len then li(int k \<mapsto> i) else li"
  have st: "vis_step md ?cv ?rv i len (int k) (lz, s, ls, li) =
      Inr (lz @ [\<lparr>Index = int k, StateDescription = the (DescribeState md) s1\<rparr>], s1, ?ls, ?li)"
    using s1 v by (simp add: vis_step_def Let_def)
  obtain s' where "fold_res (vis_step md ?cv ?rv i len) (map int is) (lz @ [\<lparr>Index = int k, StateDescription = the (DescribeState md) s1\<rparr>], s1, ?ls, ?li) =
      Inr ((lz @ [\<lparr>Index = int k, StateDescription = the (DescribeState md) s1\<rparr>]) @ replay md es s1 (map int is), s',
        \<lambda>h. if h \<in> int ` set is \<and> ?ls h < len then len else ?ls h,
        \<lambda>h. if h \<in> int ` set is \<and> ?ls h < len then Some i else ?li h)"
    using Cons.IH [OF _ s1(2)] Cons.prems(1) by (meson insert_subset list.set(2) subset_trans set_subset_Cons)
  moreover have "(\<lambda>h. if h \<in> int ` set is \<and> ?ls h < len then len else ?ls h) =
      (\<lambda>h. if h \<in> int ` set (k # is) \<and> ls h < len then len else ls h)" by (auto simp: fun_eq_iff)
  moreover have "(\<lambda>h. if h \<in> int ` set is \<and> ?ls h < len then Some i else ?li h) =
      (\<lambda>h. if h \<in> int ` set (k # is) \<and> ls h < len then Some i else li h)" by (auto simp: fun_eq_iff)
  ultimately show ?case using st s1(1) by (simp add: Let_def)
qed simp

lemma vis_partials:
  assumes wf: "wf_hist es n" and "\<forall>q \<in> set ps. partial_linearization md es n q" and "sorted_wrt (\<lambda>p q. length q \<le> length p) ps"
  shows "fold_res (vis_partial md (value_upto cpos es n (length es)) (value_upto rpos es n (length es)))
      (zip (map int [0..<length ps]) ps) ([], \<lambda>_. 0, \<lambda>_. None) =
    Inr (map (replay md es (Init md)) ps, \<lambda>h. case first_with ps h of None \<Rightarrow> 0 | Some i \<Rightarrow> go_len (ps ! nat i), first_with ps)"
  using assms(2,3)
proof (induction ps rule: rev_induct)
  case Nil
  then show ?case by (simp add: first_with_def fun_eq_iff)
next
  case (snoc q ps)
  let ?f = "vis_partial md (value_upto cpos es n (length es)) (value_upto rpos es n (length es))"
  let ?ls = "\<lambda>h. case first_with ps h of None \<Rightarrow> 0 | Some i \<Rightarrow> go_len (ps ! nat i)"
  obtain "is" where q: "q = map int is" "set is \<subseteq> {0..<n}" "legal md es (Init md) is"
    using snoc.prems(1) by (auto simp: partial_linearization_def)
  have desc: "length q \<le> length p" if "p \<in> set ps" for p using snoc.prems(2) that by (simp add: sorted_wrt_append)
  have IH: "fold_res ?f (zip (map int [0..<length ps]) ps) ([], \<lambda>_. 0, \<lambda>_. None) = Inr (map (replay md es (Init md)) ps, ?ls, first_with ps)"
    using snoc by (simp add: sorted_wrt_append)
  have upd: "h \<in> set q \<and> ?ls h < go_len q \<longleftrightarrow> h \<in> set q \<and> first_with ps h = None" for h
  proof (cases "first_with ps h")
    case (Some i)
    then have "length q \<le> length (ps ! nat i)" using desc first_with_Some [OF Some] by simp
    then show ?thesis using Some by (simp add: go_len_def)
  next
    case None
    then show ?thesis using go_len_pos [of q] by auto
  qed
  have li: "(\<lambda>h. if h \<in> set q \<and> ?ls h < go_len q then Some (int (length ps)) else first_with ps h) = first_with (ps @ [q])"
    unfolding upd by (auto simp: fun_eq_iff first_with_snoc split: option.splits)
  have ls: "(\<lambda>h. if h \<in> set q \<and> ?ls h < go_len q then go_len q else ?ls h) =
      (\<lambda>h. case first_with (ps @ [q]) h of None \<Rightarrow> 0 | Some i \<Rightarrow> go_len ((ps @ [q]) ! nat i))"
    unfolding upd using first_with_Some by (auto simp: fun_eq_iff first_with_snoc nth_append split: option.splits)
  have "?f (int (length ps), q) (map (replay md es (Init md)) ps, ?ls, first_with ps) =
      Inr (map (replay md es (Init md)) (ps @ [q]), \<lambda>h. if h \<in> set q \<and> ?ls h < go_len q then go_len q else ?ls h,
        \<lambda>h. if h \<in> set q \<and> ?ls h < go_len q then Some (int (length ps)) else first_with ps h)"
    using vis_steps [OF wf q(2,3), of "int (length ps)" "go_len q" "[]" ?ls "first_with ps"] q(1) by (auto simp: vis_partial_def)
  then show ?case using IH unfolding li ls by (simp add: fold_res_snoc)
qed

subsection \<open>The whole data\<close>

text \<open>The contract of \<open>sort.Slice\<close> with the comparison by length.\<close>

locale length_sort =
  fixes srt :: "int list list \<Rightarrow> int list list"
  assumes mset_srt: "mset (srt ps) = mset ps"
    and srt_longest: "i < j \<Longrightarrow> j < length ps \<Longrightarrow> \<not> length (srt ps ! i) < length (srt ps ! j)"
begin

lemma length_srt [simp]: "length (srt ps) = length ps"
  by (metis mset_srt size_mset)

lemma vis_partition_ok:
  assumes wf: "wf_hist es (ops_of es)" and "\<forall>q \<in> set ps. partial_linearization md es (ops_of es) q"
  shows "vis_partition srt md es ps =
    Inr \<lparr>History = map (element md es) [0..<ops_of es], PartialLinearizations = map (replay md es (Init md)) (srt ps),
         Largest = first_with (srt ps)\<rparr>"
proof -
  have "set (srt ps) = set ps" by (metis mset_srt set_mset_mset)
  moreover have "sorted_wrt (\<lambda>p q. length q \<le> length p) (srt ps)"
    using srt_longest [of _ _ ps] by (simp add: sorted_wrt_iff_nth_less not_less)
  ultimately show ?thesis
    using vis_partials [OF wf, of "srt ps" md] assms(2) by (simp add: vis_partition_def vis_entries [OF wf] Let_def)
qed

end

interpretation by_length: length_sort "sort_key (\<lambda>q. - int (length q))"
proof
  show "\<not> length (sort_key (\<lambda>q. - int (length q)) ps ! i) < length (sort_key (\<lambda>q. - int (length q)) ps ! j)"
    if "i < j" "j < length ps" for i j and ps :: "int list list"
    using sorted_nth_mono [OF sorted_sort_key [of "\<lambda>q. - int (length q)" ps], of i j] that by simp
qed simp

end
