(* ===== verification/Porcupine_Properties.thy ===== *)
theory Porcupine_Properties
  imports Kv_Model Visualization
begin

section \<open>What the linearizability checker decides\<close>

text \<open>The properties of the checker, with a small key-value history as witness.\<close>

subsection \<open>Models with their defaults\<close>

lemma fillDefault_keeps [simp]:
  "Init (fillDefault fmtv fmts md) = Init md" "Step (fillDefault fmtv fmts md) = Step md"
  by (simp_all add: fillDefault_def Let_def)

lemma fillDefault_Equal:
  "Equal (fillDefault fmtv fmts md) = Some (case Equal md of None \<Rightarrow> ShallowEqual | Some eq \<Rightarrow> eq)"
  by (auto simp: fillDefault_def Let_def split: option.splits)

lemma fillDefault_Partition:
  "Partition (fillDefault fmtv fmts md) = Some (case Partition md of None \<Rightarrow> NoPartition | Some p \<Rightarrow> p)"
  "PartitionEvent (fillDefault fmtv fmts md) = Some (case PartitionEvent md of None \<Rightarrow> NoPartitionEvent | Some p \<Rightarrow> p)"
  by (auto simp: fillDefault_def Let_def split: option.splits)

text \<open>The equality of a model, \<open>ShallowEqual\<close> when it has none, respects its steps.\<close>

definition good_equality :: "('v, 's) Model \<Rightarrow> bool" where
  "good_equality md \<longleftrightarrow> state_equality (Step md) (case Equal md of None \<Rightarrow> ShallowEqual | Some eq \<Rightarrow> eq)"

lemma good_equality_default: "Equal md = None \<Longrightarrow> good_equality md"
  by (simp add: good_equality_def shallow.state_equality_axioms)

lemma linearizable_fillDefault [simp]: "linearizable (fillDefault fmtv fmts md) es n = linearizable md es n"
proof -
  have "legal (fillDefault fmtv fmts md) es s is = legal md es s is" for s "is"
    by (induction "is" arbitrary: s) (auto split: prod.splits)
  then show ?thesis by (simp add: linearizable_def linearization_def)
qed

lemma ops_of_makeEntries: "time_sort srt \<Longrightarrow> ops_of (makeEntries srt ops) = length ops"
proof -
  assume "time_sort srt"
  then have "length (makeEntries srt ops) = length (make_loop ops 0)"
    unfolding makeEntries_def by (metis time_sort.mset_srt size_mset)
  moreover have "length (make_loop ops k) = 2 * length ops" for k by (induction ops arbitrary: k) auto
  ultimately show ?thesis by simp
qed

lemma makeEntries_wf_all:
  assumes "time_sort srt" and "\<forall>sub \<in> set subs. (\<forall>x \<in> set sub. Call x < Return x) \<and> length sub < 2 ^ 63"
  shows "\<forall>h \<in> set (map (makeEntries srt) subs). wf_hist h (ops_of h)"
  using assms time_sort.makeEntries_wf [OF assms(1)] by (auto simp: ops_of_makeEntries)

lemma checkOperations_total:
  assumes srt: "time_sort srt" and eq: "good_equality md"
    and subs: "subs = (case Partition md of None \<Rightarrow> NoPartition | Some p \<Rightarrow> p) ops" "subs \<noteq> []"
      "\<forall>sub \<in> set subs. (\<forall>x \<in> set sub. Call x < Return x) \<and> length sub < 2 ^ 63"
    and js: "all_arrive (length subs) js" and ro: "vb \<Longrightarrow> \<forall>xs. set (ro xs) \<subseteq> set xs"
  shows "\<exists>f0. \<forall>fuel \<ge> f0. \<exists>lin. checkOperations fuel ro srt fmtv fmts md ops vb timeout (\<lambda>_ _. False) (map Arrive js) =
      Some (Inr (if \<forall>sub \<in> set subs. linearizable md (makeEntries srt sub) (length sub) then Ok else Illegal, lin)) \<and>
    (vb \<longrightarrow> info_ok (fillDefault fmtv fmts md) (map (makeEntries srt) subs) lin)"
proof -
  let ?md = "fillDefault fmtv fmts md" and ?hist = "map (makeEntries srt) subs"
  have e: "state_equality (Step ?md) (case Equal md of None \<Rightarrow> ShallowEqual | Some eq \<Rightarrow> eq)" using eq by (simp add: good_equality_def)
  have "verdict ?md ?hist = (if \<forall>sub \<in> set subs. linearizable md (makeEntries srt sub) (length sub) then Ok else Illegal)"
    by (simp add: verdict_def ops_of_makeEntries [OF srt])
  moreover have "checkOperations fuel ro srt fmtv fmts md ops vb timeout (\<lambda>_ _. False) (map Arrive js) =
      checkParallel fuel ro ?md ?hist vb timeout (\<lambda>_ _. False) (map Arrive js)" for fuel
    by (simp add: checkOperations_def Let_def fillDefault_Partition subs(1))
  ultimately show ?thesis
    using checkParallel_total [OF fillDefault_Equal e makeEntries_wf_all [OF srt subs(3)], of js vb ro timeout] subs(2) js ro by simp
qed

subsection \<open>The properties\<close>

text \<open>
  C20: The search terminates and decides linearizability. On a well-formed history, with an equality
  of states that respects the steps of the model, \<open>checkSingle\<close> returns without a panic (enough
  fuel gives a result, and more fuel the same one), and its answer is true exactly when the history
  is linearizable. The sequences it returns are valid partial linearizations, and when the history
  is linearizable every operation points to one complete linearization.
\<close>

theorem checkSingle_decides:
  assumes "wf_hist es n" and "Equal md = Some eq" and "state_equality (Step md) eq"
  shows "\<exists>f0 lg sq. (\<forall>fuel \<ge> f0. checkSingle fuel md es cp (\<lambda>_. False) = Some (Inr (linearizable md es n, lg, sq))) \<and>
    (\<forall>q. Some q \<in> set lg \<longrightarrow> q < length sq \<and> partial_linearization md es n (sq ! q)) \<and>
    (linearizable md es n \<longrightarrow> (\<exists>is. linearization md es n is \<and>
       (\<forall>i < n. map_option (\<lambda>q. sq ! q) (lg ! i) = Some (map int is))))"
proof -
  obtain st h0 p where s: "start_search md es = Some (length es, n, st)" "search_inv md es n h0 st [] {} {({}, Init md)} p"
    using start_inv [OF assms(1), of md] by blast
  obtain f0 ok st' where l: "check_loop md cp (length es) n (\<lambda>_. False) f0 st = Some (Inr (ok, st'))" "result_ok md es n ok st'"
    using check_loop_total [OF assms s(2), of cp] by blast
  have "checkSingle fuel md es cp (\<lambda>_. False) = Some (Inr (linearizable md es n, longest st', seqs st'))" if "f0 \<le> fuel" for fuel
    using check_loop_more [OF l(1) that] s(1) l(2) by (simp add: checkSingle_def result_ok_def)
  then show ?thesis
    using l(2) by (intro exI [of _ f0] exI [of _ "longest st'"] exI [of _ "seqs st'"]) (auto simp: result_ok_def longest_ok_def)
qed

definition put_op :: "int \<Rightarrow> int \<Rightarrow> string \<Rightarrow> string \<Rightarrow> kv_value Operation" where
  "put_op c r k v = \<lparr>op_ClientId = 0, Input = Some (InV \<lparr>Op = 1, InKey = k, InValue = v\<rparr>), Call = c,
     Output = Some (OutV \<lparr>OutValue = ''''\<rparr>), Return = r\<rparr>"

definition get_op :: "int \<Rightarrow> int \<Rightarrow> string \<Rightarrow> string \<Rightarrow> kv_value Operation" where
  "get_op c r k v = \<lparr>op_ClientId = 1, Input = Some (InV \<lparr>Op = 0, InKey = k, InValue = ''''\<rparr>), Call = c,
     Output = Some (OutV \<lparr>OutValue = v\<rparr>), Return = r\<rparr>"

definition sample_ops :: "kv_value Operation list" where
  "sample_ops = [put_op 0 3 ''x'' ''a'', get_op 1 2 ''x'' ''a'', get_op 4 5 ''y'' '''']"

definition fmt0 :: "'a \<Rightarrow> string" where
  "fmt0 x = ''''"

lemma sample_ops_ok: "ops_ok sample_ops" "\<forall>x \<in> set sample_ops. kv_typed x" "sample_ops \<noteq> []"
  "kv_key ` Input ` set sample_ops = {''x'', ''y''}"
  by (simp_all add: sample_ops_def put_op_def get_op_def ops_ok_def times_def kv_typed_def kv_key_def)

lemma sample_wf: "wf_hist (makeEntries (sort_key time) sample_ops) 3"
proof -
  have "length sample_ops = 3" by (simp add: sample_ops_def)
  then show ?thesis using by_time.makeEntries_wf [of sample_ops] sample_ops_ok(1) by (simp add: ops_ok_def)
qed

theorem checkSingle_decides_witness:
  "\<exists>f0 lg sq. \<forall>fuel \<ge> f0. checkSingle fuel (fillDefault fmt0 fmt0 KvModel) (makeEntries (sort_key time) sample_ops) True (\<lambda>_. False) =
     Some (Inr (linearizable (fillDefault fmt0 fmt0 KvModel) (makeEntries (sort_key time) sample_ops) 3, lg, sq))"
  using checkSingle_decides [OF sample_wf fillDefault_Equal [of fmt0 fmt0 KvModel], of True]
  by (auto simp: KvModel_def shallow.state_equality_axioms)

lemma CheckOperations_returns:
  assumes "time_sort srt" and "ops_ok ops" and "ops \<noteq> []" and "\<forall>x \<in> set ops. kv_typed x"
    and "all_arrive (card (kv_key ` Input ` set ops)) js"
  shows "\<exists>f0. \<forall>fuel \<ge> f0. CheckOperations fuel ro srt fmtv fmts KvModel ops (\<lambda>_ _. False) (map Arrive js) =
    Some (Inr (ops_linearizable KvStore ops))"
proof -
  let ?K = "kv_key ` Input ` set ops"
  define subs where "subs = map (\<lambda>k. part kv_key k ops) (sorted_list_of_set ?K)"
  have sb: "subs = (case Partition KvModel of None \<Rightarrow> NoPartition | Some p \<Rightarrow> p) ops"
    using kv_Partition_typed [OF assms(4)] by (simp add: KvModel_def total_def subs_def)
  have ok: "ops_ok sub" if "sub \<in> set subs" for sub using that ops_ok_filter [OF assms(2)] by (auto simp: subs_def)
  have ne: "subs \<noteq> []" using assms(3) by (simp add: subs_def)
  have eq: "good_equality KvModel" by (rule good_equality_default) (simp add: KvModel_def)
  have times: "\<forall>sub \<in> set subs. (\<forall>x \<in> set sub. Call x < Return x) \<and> length sub < 2 ^ 63" using ok by (simp add: ops_ok_def)
  have js: "all_arrive (length subs) js" using assms(5) by (simp add: subs_def)
  obtain f0 where f0: "\<forall>fuel \<ge> f0. \<exists>lin. checkOperations fuel ro srt fmtv fmts KvModel ops False 0 (\<lambda>_ _. False) (map Arrive js) =
      Some (Inr (if \<forall>sub \<in> set subs. linearizable KvModel (makeEntries srt sub) (length sub) then Ok else Illegal, lin))"
    using checkOperations_total [OF assms(1) eq sb ne times js, of False ro fmtv fmts 0] by blast
  have "(\<forall>sub \<in> set subs. linearizable KvModel (makeEntries srt sub) (length sub)) \<longleftrightarrow> (\<forall>sub \<in> set subs. ops_linearizable KvModel sub)"
    using ok time_sort.linearizable_makeEntries [OF assms(1)] by blast
  also have "\<dots> \<longleftrightarrow> ops_linearizable KvStore ops"
    unfolding KvStore_def locality [OF assms(2)] by (simp add: subs_def)
  finally show ?thesis using f0 by (intro exI [of _ f0]) (force simp: CheckOperations_def)
qed

text \<open>
  C19: The checker, with the key-value model, decides linearizability of the whole store. For a
  history of key-value operations with distinct times, whatever the order in which the goroutines
  for the keys finish, \<open>CheckOperations\<close> returns, and returns true exactly when the history, all
  keys together, is linearizable with respect to a store of strings: there is an order of all
  operations that respects real time and in which every get returns what the last puts and appends
  to its key left.
\<close>

theorem CheckOperations_decides_store:
  assumes "time_sort srt" and "ops_ok ops" and "ops \<noteq> []" and "\<forall>x \<in> set ops. kv_typed x"
    and "all_arrive (card (kv_key ` Input ` set ops)) js"
  shows "\<exists>f0. \<forall>fuel \<ge> f0. CheckOperations fuel ro srt fmtv fmts KvModel ops (\<lambda>_ _. False) (map Arrive js) =
    Some (Inr (ops_linearizable KvStore ops))"
  by (rule CheckOperations_returns [OF assms])

theorem CheckOperations_decides_store_witness:
  "\<exists>f0. \<forall>fuel \<ge> f0. CheckOperations fuel id (sort_key time) fmt0 fmt0 KvModel sample_ops (\<lambda>_ _. False) [Arrive 1, Arrive 0] =
    Some (Inr (ops_linearizable KvStore sample_ops))"
  using CheckOperations_decides_store [OF by_time.time_sort_axioms sample_ops_ok(1,3,2), of "[1, 0]" id fmt0 fmt0]
  by (simp add: sample_ops_ok(4) all_arrive_def atLeast0_lessThan_Suc insert_commute numeral_2_eq_2)

text \<open>
  C21: A verdict under a timeout is never wrong. When the timer fires after the results \<open>js\<close> have
  arrived, the answer is \<open>Illegal\<close> if one of these partitions is not linearizable and
  \<open>Unknown\<close> otherwise, whatever the goroutines that are killed then return; so \<open>Illegal\<close> is
  reported only for a history that is not linearizable, and \<open>Ok\<close> is not reported at all. The
  comments of the code (\<open>porcupine.go\<close>, and the \<open>break\<close> in \<open>checkParallel\<close>) say that
  a false positive is possible after a timeout; it is not.
\<close>

theorem CheckOperationsTimeout_sound:
  assumes "time_sort srt" and "good_equality md"
    and "subs = (case Partition md of None \<Rightarrow> NoPartition | Some p \<Rightarrow> p) ops"
    and "\<forall>sub \<in> set subs. (\<forall>x \<in> set sub. Call x < Return x) \<and> length sub < 2 ^ 63"
    and "set js \<subseteq> {0..<length subs}" and "length js < length subs" and "timeout > 0"
    and "\<forall>j \<in> set js. kill j = (\<lambda>_. False)"
  shows "\<exists>f0. \<forall>fuel \<ge> f0. CheckOperationsTimeout fuel ro srt fmtv fmts md ops timeout kill (map Arrive js @ Expire # rest) =
    Some (Inr (if \<forall>j \<in> set js. linearizable md (makeEntries srt (subs ! j)) (length (subs ! j)) then Unknown else Illegal))"
proof -
  let ?md = "fillDefault fmtv fmts md" and ?hist = "map (makeEntries srt) subs"
  have e: "state_equality (Step ?md) (case Equal md of None \<Rightarrow> ShallowEqual | Some eq \<Rightarrow> eq)" using assms(2) by (simp add: good_equality_def)
  have js: "set js \<subseteq> {0..<length ?hist}" "length js < length ?hist" using assms(5,6) by simp_all
  have "(\<forall>j \<in> set js. linearizable ?md (?hist ! j) (ops_of (?hist ! j))) \<longleftrightarrow>
      (\<forall>j \<in> set js. linearizable md (makeEntries srt (subs ! j)) (length (subs ! j)))"
    using assms(5) by (intro ball_cong) (auto simp: ops_of_makeEntries [OF assms(1)])
  then have "\<exists>f0. \<forall>fuel \<ge> f0. \<exists>lin. checkParallel fuel ro ?md ?hist False timeout kill (map Arrive js @ Expire # rest) =
      Some (Inr (if \<forall>j \<in> set js. linearizable md (makeEntries srt (subs ! j)) (length (subs ! j)) then Unknown else Illegal, lin))"
    using checkParallel_expires [OF fillDefault_Equal e makeEntries_wf_all [OF assms(1,4)] js assms(7,8), of ro rest] by simp
  then obtain f0 where f0: "\<forall>fuel \<ge> f0. \<exists>lin. checkParallel fuel ro ?md ?hist False timeout kill (map Arrive js @ Expire # rest) =
      Some (Inr (if \<forall>j \<in> set js. linearizable md (makeEntries srt (subs ! j)) (length (subs ! j)) then Unknown else Illegal, lin))"
    by blast
  have "checkOperations fuel ro srt fmtv fmts md ops False timeout kill (map Arrive js @ Expire # rest) =
      checkParallel fuel ro ?md ?hist False timeout kill (map Arrive js @ Expire # rest)" for fuel
    by (simp add: checkOperations_def Let_def fillDefault_Partition assms(3))
  then show ?thesis using f0 by (intro exI [of _ f0]) (force simp: CheckOperationsTimeout_def)
qed

lemma sample_partition:
  "[part kv_key ''x'' sample_ops, part kv_key ''y'' sample_ops] =
     (case Partition KvModel of None \<Rightarrow> NoPartition | Some p \<Rightarrow> p) sample_ops"
proof -
  have "sorted_list_of_set {''x'', ''y''} = [''x'', ''y'']" by code_simp
  then show ?thesis using kv_Partition_typed [OF sample_ops_ok(2)] by (simp add: KvModel_def total_def sample_ops_ok(4))
qed

lemma sample_subs:
  "\<forall>sub \<in> set [part kv_key ''x'' sample_ops, part kv_key ''y'' sample_ops]. (\<forall>x \<in> set sub. Call x < Return x) \<and> length sub < 2 ^ 63"
  using ops_ok_filter [OF sample_ops_ok(1)] by (simp add: ops_ok_def)

theorem CheckOperationsTimeout_sound_witness:
  "\<exists>f0. \<forall>fuel \<ge> f0. CheckOperationsTimeout fuel id (sort_key time) fmt0 fmt0 KvModel sample_ops 5 (\<lambda>j _. j = 1) [Arrive 0, Expire] =
    Some (Inr (if linearizable KvModel (makeEntries (sort_key time) (part kv_key ''x'' sample_ops)) (length (part kv_key ''x'' sample_ops))
       then Unknown else Illegal))"
  using CheckOperationsTimeout_sound [OF by_time.time_sort_axioms good_equality_default sample_partition sample_subs,
      of "[0]" 5 "\<lambda>j _. j = 1" id fmt0 fmt0 "[]"]
  by (simp add: KvModel_def [THEN arg_cong [of _ _ Equal]])

text \<open>What the page shows of a check: every operation, every partial linearization, and the longest one that has an operation.\<close>

definition shown :: "('v entry list \<Rightarrow> 'v entry list) \<Rightarrow> (int list list \<Rightarrow> int list list) \<Rightarrow> ('v option \<Rightarrow> string) \<Rightarrow> ('s \<Rightarrow> string) \<Rightarrow>
  ('v, 's) Model \<Rightarrow> 'v Operation list list \<Rightarrow> 'v linearizationInfo \<Rightarrow> partitionVisualizationData list" where
  "shown srt lsrt fmtv fmts md subs lin =
     map (\<lambda>p. let es = makeEntries srt (subs ! p); dm = fillDefault fmtv fmts md; ps = lsrt (partialLinearizations lin ! p)
          in \<lparr>History = map (element dm es) [0..<length (subs ! p)], PartialLinearizations = map (replay dm es (Init md)) ps,
              Largest = first_with ps\<rparr>) [0..<length subs]"

lemma visualization_ok:
  assumes "time_sort srt" and "length_sort lsrt" and "\<forall>sub \<in> set subs. (\<forall>x \<in> set sub. Call x < Return x) \<and> length sub < 2 ^ 63"
    and info: "info_ok (fillDefault fmtv fmts md) (map (makeEntries srt) subs) lin"
  shows "computeVisualizationData lsrt fmtv fmts md lin = Inr (shown srt lsrt fmtv fmts md subs lin)"
proof -
  let ?f = "\<lambda>p. let es = makeEntries srt (subs ! p); dm = fillDefault fmtv fmts md; ps = lsrt (partialLinearizations lin ! p)
          in \<lparr>History = map (element dm es) [0..<length (subs ! p)], PartialLinearizations = map (replay dm es (Init md)) ps,
              Largest = first_with ps\<rparr>"
  let ?step = "\<lambda>p data. bind_res (go_index (partialLinearizations lin) (int p)) (\<lambda>partials.
        bind_res (vis_partition lsrt (fillDefault fmtv fmts md) (history lin ! p) partials) (\<lambda>d. Inr (data @ [d])))"
  note inf = info [unfolded info_ok_def]
  have one: "?step p data = Inr (data @ [?f p])" if p: "p < length subs" for p data
    using length_sort.vis_partition_ok [OF assms(2), of "map (makeEntries srt) subs ! p" "partialLinearizations lin ! p" "fillDefault fmtv fmts md"]
      makeEntries_wf_all [OF assms(1,3)] inf p by (simp add: Let_def ops_of_makeEntries [OF assms(1)])
  have "fold_res ?step [0..<k] [] = Inr (map ?f [0..<k])" if "k \<le> length subs" for k
    using that by (induction k) (simp_all add: fold_res_snoc one)
  then show ?thesis using inf by (simp add: computeVisualizationData_def shown_def Let_def)
qed

text \<open>
  What the checker finds can be shown. The information of a verbose check is accepted by
  \<open>computeVisualizationData\<close>: replaying the partial linearizations never hits its panic, and the
  data has, for every partition, the interval and the description of each operation, for each
  partial linearization the states that the model goes through, and for each operation the longest
  partial linearization that has it (the first one in the order by length).
\<close>

theorem verbose_visualizes:
  assumes "time_sort srt" and "length_sort lsrt" and "good_equality md" and "\<forall>xs. set (ro xs) \<subseteq> set xs"
    and "subs = (case Partition md of None \<Rightarrow> NoPartition | Some p \<Rightarrow> p) ops" and "subs \<noteq> []"
    and "\<forall>sub \<in> set subs. (\<forall>x \<in> set sub. Call x < Return x) \<and> length sub < 2 ^ 63"
    and "all_arrive (length subs) js"
  shows "\<exists>f0. \<forall>fuel \<ge> f0. \<exists>r lin.
    CheckOperationsVerbose fuel ro srt fmtv fmts md ops timeout (\<lambda>_ _. False) (map Arrive js) = Some (Inr (r, lin)) \<and>
    computeVisualizationData lsrt fmtv fmts md lin = Inr (shown srt lsrt fmtv fmts md subs lin)"
  using checkOperations_total [OF assms(1,3,5,6,7,8) assms(4), where vb = True and timeout = timeout and fmtv = fmtv and fmts = fmts]
    visualization_ok [OF assms(1,2,7), of fmtv fmts md] unfolding CheckOperationsVerbose_def by blast

theorem verbose_visualizes_witness:
  "\<exists>f0. \<forall>fuel \<ge> f0. \<exists>r lin data.
    CheckOperationsVerbose fuel id (sort_key time) fmt0 fmt0 KvModel sample_ops 0 (\<lambda>_ _. False) (map Arrive [0, 1]) = Some (Inr (r, lin)) \<and>
    computeVisualizationData (sort_key (\<lambda>q. - int (length q))) fmt0 fmt0 KvModel lin = Inr data"
proof -
  have "good_equality KvModel" by (rule good_equality_default) (simp add: KvModel_def)
  from verbose_visualizes [OF by_time.time_sort_axioms by_length.length_sort_axioms this _ sample_partition _ sample_subs, of id "[0, 1]" fmt0 fmt0]
  show ?thesis by (simp add: all_arrive_def atLeast0_lessThan_Suc insert_commute numeral_2_eq_2) blast
qed

text \<open>
  C25: The checker hangs on the empty history, and on no other. With the key-value model and no
  timeout, when the results of all goroutines arrive (in any order), \<open>CheckOperations\<close> ends up
  blocked forever in its \<open>select\<close> exactly when the history is empty: the empty history is
  partitioned into no partitions, so no goroutine is started and nothing can ever arrive. It does
  not help to wait, and the answer should have been true, since the empty history is linearizable.
\<close>

theorem CheckOperations_empty_blocks:
  assumes "time_sort srt" and "ops_ok ops" and "\<forall>x \<in> set ops. kv_typed x"
    and "all_arrive (card (kv_key ` Input ` set ops)) js"
  shows "(\<exists>f0. \<forall>fuel \<ge> f0. CheckOperations fuel ro srt fmtv fmts KvModel ops (\<lambda>_ _. False) (map Arrive js) =
      (if ops = [] then Some (Inl Deadlock) else Some (Inr (ops_linearizable KvStore ops)))) \<and>
    (\<forall>fuel kill as. CheckOperations fuel ro srt fmtv fmts KvModel [] kill as = Some (Inl Deadlock)) \<and>
    ops_linearizable KvStore []"
proof (intro conjI allI)
  have "the (Partition (fillDefault fmtv fmts KvModel)) [] = []"
    by (simp add: fillDefault_Partition KvModel_def total_def kv_Partition_def Let_def)
  then show empty: "CheckOperations fuel ro srt fmtv fmts KvModel [] kill as = Some (Inl Deadlock)" for fuel kill as
    by (simp add: CheckOperations_def checkOperations_def Let_def checkParallel_empty)
  show "\<exists>f0. \<forall>fuel \<ge> f0. CheckOperations fuel ro srt fmtv fmts KvModel ops (\<lambda>_ _. False) (map Arrive js) =
      (if ops = [] then Some (Inl Deadlock) else Some (Inr (ops_linearizable KvStore ops)))"
    using CheckOperations_returns [OF assms(1,2) _ assms(3,4)] empty by (cases "ops = []") auto
  show "ops_linearizable KvStore []" by (simp add: ops_linearizable_def in_time_def)
qed

theorem CheckOperations_empty_blocks_witness:
  "CheckOperations 9 id (sort_key time) fmt0 fmt0 KvModel [] (\<lambda>_ _. False) [] = Some (Inl Deadlock) \<and>
   (\<exists>f0. \<forall>fuel \<ge> f0. CheckOperations fuel id (sort_key time) fmt0 fmt0 KvModel sample_ops (\<lambda>_ _. False) [Arrive 1, Arrive 0] =
      Some (Inr (ops_linearizable KvStore sample_ops)))"
  using CheckOperations_empty_blocks [OF by_time.time_sort_axioms sample_ops_ok(1,2), of "[1, 0]" id fmt0 fmt0] sample_ops_ok(3)
  by (simp add: sample_ops_ok(4) all_arrive_def atLeast0_lessThan_Suc insert_commute numeral_2_eq_2)

end
