(* ===== verification/Porcupine_Page.thy ===== *)
theory Porcupine_Page
  imports Porcupine_Properties MR_Encoding
begin

section \<open>The page of a visualization (porcupine/visualization.go)\<close>

text \<open>
  \<open>Visualize\<close> writes the data as JSON into a page, \<open>VisualizePath\<close> writes the page to a file. The
  page is the constant \<open>html\<close>; its only formatting verb stands for the data, in a script, so the
  constant is given as the text before and the text after it; what the script in it does is in the
  theories \<open>Page_Layout\<close> to \<open>Page_Reacts\<close>. The JSON is that of \<open>encoding/json\<close>
  for structs, slices and a map with integer keys, which are written as strings and in the order of
  these strings; the strings are exact for ASCII (theory \<open>MR_Encoding\<close>). Writing to an open file does not fail.
\<close>

subsection \<open>The data as JSON\<close>

fun commas :: "string list \<Rightarrow> string" where
  "commas [] = ''''"
| "commas [x] = x"
| "commas (x # y # xs) = x @ '','' @ commas (y # xs)"

definition json_array :: "string list \<Rightarrow> string" where
  "json_array xs = ''['' @ commas xs @ '']''"

definition json_object :: "(string \<times> string) list \<Rightarrow> string" where
  "json_object fvs = ''{'' @ commas (map (\<lambda>(k, v). json_string k @ '':'' @ v) fvs) @ ''}''"

definition json_element :: "historyElement \<Rightarrow> string" where
  "json_element h = json_object [(''ClientId'', Itoa (ClientId h)), (''Start'', Itoa (Start h)), (''End'', Itoa (End h)),
     (''Description'', json_string (Description h))]"

definition json_step :: "linearizationStep \<Rightarrow> string" where
  "json_step s = json_object [(''Index'', Itoa (Index s)), (''StateDescription'', json_string (StateDescription s))]"

text \<open>The keys of \<open>Largest\<close> are operations of the partial linearizations.\<close>

definition json_largest :: "linearizationStep list list \<Rightarrow> (int \<Rightarrow> int option) \<Rightarrow> string" where
  "json_largest lzns largest =
     json_object (sort_key fst (map (\<lambda>i. (Itoa i, Itoa (the (largest i))))
       (filter (\<lambda>i. largest i \<noteq> None) (remdups (map Index (concat lzns))))))"

definition json_partition :: "partitionVisualizationData \<Rightarrow> string" where
  "json_partition d = json_object
     [(''History'', json_array (map json_element (History d))),
      (''PartialLinearizations'', json_array (map (\<lambda>l. json_array (map json_step l)) (PartialLinearizations d))),
      (''Largest'', json_largest (PartialLinearizations d) (Largest d))]"

definition json_data :: "partitionVisualizationData list \<Rightarrow> string" where
  "json_data data = json_array (map json_partition data)"

subsection \<open>The page\<close>

definition Visualize :: "string \<times> string \<Rightarrow> (int list list \<Rightarrow> int list list) \<Rightarrow> ('v option \<Rightarrow> string) \<Rightarrow> ('s \<Rightarrow> string) \<Rightarrow>
  ('v, 's) Model \<Rightarrow> 'v linearizationInfo \<Rightarrow> string res" where
  "Visualize html srt fmtv fmts model lin =
     bind_res (computeVisualizationData srt fmtv fmts model lin) (\<lambda>data.
       let jsonData = json_data data in Inr (fst html @ jsonData @ snd html))"

text \<open>The result is the error returned, if any, and the files.\<close>

definition VisualizePath :: "(string \<Rightarrow> bool) \<Rightarrow> string \<times> string \<Rightarrow> (int list list \<Rightarrow> int list list) \<Rightarrow> ('v option \<Rightarrow> string) \<Rightarrow> ('s \<Rightarrow> string) \<Rightarrow>
  ('v, 's) Model \<Rightarrow> 'v linearizationInfo \<Rightarrow> string \<Rightarrow> (string \<Rightarrow> string option) \<Rightarrow> (string option \<times> (string \<Rightarrow> string option)) res" where
  "VisualizePath creatable html srt fmtv fmts model lin path fs =
     (if \<not> creatable path then Inr (Some (''open '' @ path), fs)
      else bind_res (Visualize html srt fmtv fmts model lin) (\<lambda>page. Inr (None, fs(path \<mapsto> page))))"

subsection \<open>The data stays inside its script\<close>

text \<open>Text without the characters that start or end a tag.\<close>

definition no_tag :: "string \<Rightarrow> bool" where
  "no_tag s \<longleftrightarrow> CHR ''<'' \<notin> set s \<and> CHR ''>'' \<notin> set s"

lemma no_tag_simps [simp]:
  "no_tag []" "no_tag (c # s) \<longleftrightarrow> c \<noteq> CHR ''<'' \<and> c \<noteq> CHR ''>'' \<and> no_tag s" "no_tag (s @ t) \<longleftrightarrow> no_tag s \<and> no_tag t"
  by (auto simp: no_tag_def)

lemma no_tag_digits [simp]: "no_tag (digits n)"
proof -
  have "\<not> is_digit (CHR ''<'')" "\<not> is_digit (CHR ''>'')" by (simp_all add: is_digit_def)
  then show ?thesis using digits_are_digits unfolding no_tag_def by blast
qed

lemma no_tag_Itoa [simp]: "no_tag (Itoa i)"
  by (simp add: Itoa_def)

lemma hex_digit_no_tag: "d < 16 \<Longrightarrow> no_tag [hex_digit d]"
proof -
  have "\<forall>d \<in> set [0..<16]. no_tag [hex_digit d]" by code_simp
  then show "d < 16 \<Longrightarrow> no_tag [hex_digit d]" by simp
qed

lemma no_tag_escape: "no_tag (json_escape c)"
proof -
  have b: "(of_char c :: nat) < 256" by simp
  have n: "c = CHR ''<'' \<longleftrightarrow> (of_char c :: nat) = 60" "c = CHR ''>'' \<longleftrightarrow> (of_char c :: nat) = 62"
    using of_char_eq_iff [of c "CHR ''<''"] of_char_eq_iff [of c "CHR ''>''"] by auto
  show ?thesis
    using hex_digit_no_tag [of "of_char c div 16"] hex_digit_no_tag [of "of_char c mod 16"] b n by (auto simp: json_escape_def Let_def)
qed

lemma no_tag_json_string [simp]: "no_tag (json_string s)"
proof -
  have "no_tag (concat (map json_escape s))" by (induction s) (simp_all add: no_tag_escape)
  then show ?thesis by (simp add: json_string_def)
qed

lemma no_tag_commas: "(\<And>x. x \<in> set xs \<Longrightarrow> no_tag x) \<Longrightarrow> no_tag (commas xs)"
  by (induction xs rule: commas.induct) simp_all

lemma no_tag_json_array: "(\<And>x. x \<in> set xs \<Longrightarrow> no_tag x) \<Longrightarrow> no_tag (json_array xs)"
  by (simp add: json_array_def no_tag_commas)

lemma no_tag_json_object: "(\<And>k v. (k, v) \<in> set fvs \<Longrightarrow> no_tag v) \<Longrightarrow> no_tag (json_object fvs)"
  unfolding json_object_def by (auto intro!: no_tag_commas)

lemma no_tag_json_data: "no_tag (json_data data)"
  by (auto simp: json_data_def json_partition_def json_element_def json_step_def json_largest_def
      intro!: no_tag_json_array no_tag_json_object)

text \<open>
  The page of a verbose check shows what was checked. \<open>VisualizePath\<close> on the information of such
  a check does not hit the panic of the replay; when the file can be created it becomes the constant
  page around the JSON of the data, which has every operation with its interval and description and
  every partial linearization with the states it goes through; and nothing in the data, whatever the
  descriptions say, can end the script it is in: it has no \<open><\<close> and no \<open>>\<close>. When the file cannot be
  created the error is returned and no file changes.
\<close>

theorem page_shows_check:
  assumes "time_sort srt" and "length_sort lsrt" and "good_equality md" and "\<forall>xs. set (ro xs) \<subseteq> set xs"
    and "subs = (case Partition md of None \<Rightarrow> NoPartition | Some p \<Rightarrow> p) ops" and "subs \<noteq> []"
    and "\<forall>sub \<in> set subs. (\<forall>x \<in> set sub. Call x < Return x) \<and> length sub < 2 ^ 63"
    and "all_arrive (length subs) js"
  shows "\<exists>f0. \<forall>fuel \<ge> f0. \<exists>r lin jsonData.
    CheckOperationsVerbose fuel ro srt fmtv fmts md ops timeout (\<lambda>_ _. False) (map Arrive js) = Some (Inr (r, lin)) \<and>
    VisualizePath creatable html lsrt fmtv fmts md lin path fs =
      (if creatable path then Inr (None, fs(path \<mapsto> fst html @ jsonData @ snd html)) else Inr (Some (''open '' @ path), fs)) \<and>
    jsonData = json_data (shown srt lsrt fmtv fmts md subs lin) \<and>
    no_tag jsonData"
proof -
  from verbose_visualizes [where fmtv = fmtv and fmts = fmts, OF assms]
  obtain f0 where f0: "\<And>fuel. f0 \<le> fuel \<Longrightarrow> \<exists>r lin.
    CheckOperationsVerbose fuel ro srt fmtv fmts md ops timeout (\<lambda>_ _. False) (map Arrive js) = Some (Inr (r, lin)) \<and>
    computeVisualizationData lsrt fmtv fmts md lin = Inr (shown srt lsrt fmtv fmts md subs lin)"
    by blast
  have "VisualizePath creatable html lsrt fmtv fmts md lin path fs =
      (if creatable path then Inr (None, fs(path \<mapsto> fst html @ json_data d @ snd html)) else Inr (Some (''open '' @ path), fs))"
    if "computeVisualizationData lsrt fmtv fmts md lin = Inr d" for lin d
    using that by (simp add: VisualizePath_def Visualize_def Let_def)
  then show ?thesis using f0 no_tag_json_data by blast
qed

text \<open>The check of the sample history, written to a file.\<close>

theorem page_shows_check_witness:
  "\<exists>f0. \<forall>fuel \<ge> f0. \<exists>r lin jsonData.
    CheckOperationsVerbose fuel id (sort_key time) fmt0 fmt0 KvModel sample_ops 0 (\<lambda>_ _. False) (map Arrive [0, 1]) = Some (Inr (r, lin)) \<and>
    VisualizePath (\<lambda>_. True) (''a'', ''b'') (sort_key (\<lambda>q. - int (length q))) fmt0 fmt0 KvModel lin ''f.html'' (\<lambda>_. None) =
      Inr (None, [''f.html'' \<mapsto> ''a'' @ jsonData @ ''b'']) \<and> no_tag jsonData"
proof -
  have "good_equality KvModel" by (rule good_equality_default) (simp add: KvModel_def)
  from page_shows_check [where ro = id and js = "[0, 1]" and fmtv = fmt0 and fmts = fmt0 and creatable = "\<lambda>_. True" and html = "(''a'', ''b'')" and path = "''f.html''" and fs = "\<lambda>_. None",
      OF by_time.time_sort_axioms by_length.length_sort_axioms this _ sample_partition _ sample_subs]
  show ?thesis by (simp add: all_arrive_def atLeast0_lessThan_Suc insert_commute numeral_2_eq_2) blast
qed

end
