(* ===== verification/Page_Layout.thy ===== *)
theory Page_Layout
  imports Complex_Main Porcupine_Page
begin

section \<open>The layout that the page computes (the script in porcupine/visualization.go)\<close>

text \<open>
  The script of the page gives every timestamp a position on the time axis: positions grow with time
  and keep a minimal distance, the box of an operation is wide enough for its text, and the points of
  every partial linearization fit into the boxes of their operations. A comment in the script states
  these constraints and claims that one scan from left to right solves them optimally.

  Numbers of the script are rational numbers (no rounding). Objects are records, an array is a list,
  a set of numbers is a list without duplicates, an object used as a map is a partial function;
  \<open>xPos\<close> can be read at \<open>undefined\<close>, which is the key \<open>None\<close>. What throws an exception or makes a
  position \<open>NaN\<close> in the script is an error here. The width of a text is an argument.
\<close>

subsection \<open>The data\<close>

record jsElement =
  jClientId :: int
  jStart :: rat
  jEnd :: rat
  jDescription :: string
  jGid :: nat
  jOriginalEnd :: rat

record jsPartition =
  jHistory :: "jsElement list"
  jPartials :: "linearizationStep list list"
  jLargest :: "int \<Rightarrow> int option"

text \<open>The data after the script has read it; \<open>Gid\<close> and \<open>OriginalEnd\<close> are set by the script.\<close>

definition js_element :: "historyElement \<Rightarrow> jsElement" where
  "js_element h = \<lparr>jClientId = ClientId h, jStart = of_int (Start h), jEnd = of_int (End h), jDescription = Description h, jGid = 0, jOriginalEnd = 0\<rparr>"

definition js_partition :: "partitionVisualizationData \<Rightarrow> jsPartition" where
  "js_partition d = \<lparr>jHistory = map js_element (History d), jPartials = PartialLinearizations d, jLargest = Largest d\<rparr>"

text \<open>Reading a property of an element that is not there throws; arithmetic with one gives \<open>NaN\<close>.\<close>

definition js_at :: "'a list \<Rightarrow> int \<Rightarrow> 'a res" where
  "js_at xs i = (if 0 \<le> i \<and> i < int (length xs) then Inr (xs ! nat i) else Inl (Panic ''undefined''))"

definition js_get :: "('k \<Rightarrow> 'v option) \<Rightarrow> 'k \<Rightarrow> 'v res" where
  "js_get m k = (case m k of None \<Rightarrow> Inl (Panic ''undefined'') | Some v \<Rightarrow> Inr v)"

definition BOX_GAP :: rat where "BOX_GAP = 20"

definition EPSILON :: rat where "EPSILON = 20"

definition BOX_TEXT_PADDING :: rat where "BOX_TEXT_PADDING = 10"

definition maxClient :: "jsPartition list \<Rightarrow> int" where
  "maxClient data = fold (\<lambda>pt m. fold (\<lambda>el m. max m (jClientId el)) (jHistory pt) m) data (- 1)"

definition nClient :: "jsPartition list \<Rightarrow> int" where
  "nClient data = maxClient data + 1"

subsection \<open>Global numbers and timestamps\<close>

fun gid_elements :: "nat \<Rightarrow> jsElement list \<Rightarrow> jsElement list" where
  "gid_elements gid [] = []"
| "gid_elements gid (el # els) = el\<lparr>jGid := gid\<rparr> # gid_elements (gid + 1) els"

fun gid_data :: "nat \<Rightarrow> jsPartition list \<Rightarrow> jsPartition list" where
  "gid_data gid [] = []"
| "gid_data gid (pt # data) =
     pt\<lparr>jHistory := gid_elements gid (jHistory pt)\<rparr> # gid_data (gid + length (jHistory pt)) data"

definition elements :: "jsPartition list \<Rightarrow> jsElement list" where
  "elements data = concat (map jHistory data)"

definition allTimestamps :: "jsPartition list \<Rightarrow> rat list" where
  "allTimestamps data = remdups (concat (map (\<lambda>el. [jStart el, jEnd el]) (elements data)))"

definition startTimestamps :: "jsPartition list \<Rightarrow> rat list" where
  "startTimestamps data = remdups (map jStart (elements data))"

fun nextTs :: "rat list \<Rightarrow> rat \<Rightarrow> rat option" where
  "nextTs (t # u # ts) = (nextTs (u # ts))(t \<mapsto> u)"
| "nextTs _ = (\<lambda>_. None)"

definition tweak :: "rat list \<Rightarrow> (rat \<Rightarrow> rat option) \<Rightarrow> jsElement \<Rightarrow> jsElement" where
  "tweak starts nxt el =
     (let endt = jEnd el;
          el1 = el\<lparr>jOriginalEnd := endt\<rparr>
      in if endt \<in> set starts
         then (case nxt endt of Some t \<Rightarrow> el1\<lparr>jEnd := (endt + t) / 2\<rparr> | None \<Rightarrow> el1)
         else el1)"

definition tweak_data :: "jsPartition list \<Rightarrow> jsPartition list" where
  "tweak_data data =
     (let nxt = nextTs (sort (allTimestamps data))
      in map (\<lambda>pt. pt\<lparr>jHistory := map (tweak (startTimestamps data) nxt) (jHistory pt)\<rparr>) data)"

text \<open>The timestamps of the layout: those before the change and the new ones.\<close>

definition sortedTimestamps :: "jsPartition list \<Rightarrow> rat list" where
  "sortedTimestamps data = sort (remdups (allTimestamps data @ map jEnd (elements (tweak_data data))))"

subsection \<open>Boxes and linearizations\<close>

record box_event =
  b_start :: rat
  b_end :: rat
  b_width :: rat
  b_gid :: nat

definition byEnd :: "(string \<Rightarrow> rat) \<Rightarrow> jsPartition list \<Rightarrow> box_event list" where
  "byEnd text_width data =
     sort_key b_end (map (\<lambda>el. \<lparr>b_start = jStart el, b_end = jEnd el, b_width = text_width (jDescription el) + 2 * BOX_TEXT_PADDING, b_gid = jGid el\<rparr>) (elements data))"

text \<open>\<open>eventToLinearizations\<close>, \<open>eventIllegalLast\<close> and \<open>allLinearizations\<close>; \<open>lgid\<close> is the length of the last.\<close>

record lin_index =
  toLin :: "(nat \<times> int) list list"
  illLast :: "nat list list"
  allLin :: "nat list list"

text \<open>The operations that are not included and may come next: they start before any such operation ends.\<close>

fun minEnd :: "int list \<Rightarrow> int \<Rightarrow> jsElement list \<Rightarrow> rat option" where
  "minEnd included index [] = None"
| "minEnd included index (el # els) =
     (let m = minEnd included (index + 1) els
      in if index \<notin> set included then Some (case m of None \<Rightarrow> jEnd el | Some e \<Rightarrow> min e (jEnd el)) else m)"

definition before_end :: "rat \<Rightarrow> rat option \<Rightarrow> bool" where
  "before_end t m = (case m of None \<Rightarrow> True | Some e \<Rightarrow> t < e)"

definition illegal_next :: "int list \<Rightarrow> jsElement list \<Rightarrow> (int \<times> jsElement) list" where
  "illegal_next included hist =
     filter (\<lambda>(index, el). index \<notin> set included \<and> before_end (jStart el) (minEnd included 0 hist))
       (zip (map int [0..<length hist]) hist)"

definition push_at :: "nat \<Rightarrow> 'a \<Rightarrow> 'a list list \<Rightarrow> 'a list list" where
  "push_at k x xss = xss[k := xss ! k @ [x]]"

fun add_points :: "jsElement list \<Rightarrow> nat \<Rightarrow> int \<Rightarrow> linearizationStep list \<Rightarrow> nat list \<Rightarrow> (nat \<times> int) list list \<Rightarrow>
  (nat list \<times> (nat \<times> int) list list) res" where
  "add_points hist lgid position [] globalized e2l = Inr (globalized, e2l)"
| "add_points hist lgid position (s # lin) globalized e2l =
     bind_res (js_at hist (Index s)) (\<lambda>el.
       add_points hist lgid (position + 1) lin (globalized @ [jGid el]) (push_at (jGid el) (lgid, position) e2l))"

definition add_linearization :: "jsElement list \<Rightarrow> linearizationStep list \<Rightarrow> lin_index \<Rightarrow> lin_index res" where
  "add_linearization hist lin ix =
     (let lgid = length (allLin ix) in
      bind_res (add_points hist lgid 0 lin [] (toLin ix)) (\<lambda>(globalized, e2l).
        Inr \<lparr>toLin = e2l,
             illLast = fold (\<lambda>(index, el). push_at (jGid el) lgid) (illegal_next (map Index lin) hist) (illLast ix),
             allLin = allLin ix @ [globalized]\<rparr>))"

definition index_linearizations :: "jsPartition list \<Rightarrow> lin_index res" where
  "index_linearizations data =
     (let gid = length (elements data) in
      fold_res (\<lambda>pt. fold_res (add_linearization (jHistory pt)) (jPartials pt)) data
        \<lparr>toLin = replicate gid [], illLast = replicate gid [], allLin = []\<rparr>)"

subsection \<open>The scan\<close>

type_synonym xpos = "rat option \<Rightarrow> rat option"

text \<open>The next point of a linearization whose points so far are \<open>lps\<close>.\<close>

definition next_point :: "xpos \<Rightarrow> (nat \<Rightarrow> rat) \<Rightarrow> nat list \<Rightarrow> int \<Rightarrow> rat list \<Rightarrow> rat list res" where
  "next_point xPos startOf lin i lps =
     bind_res (if length lps \<noteq> 0 then bind_res (js_at lps (i - 1)) (\<lambda>p. Inr (Some p)) else Inr None) (\<lambda>prev.
     bind_res (js_at lin i) (\<lambda>nextGid.
     bind_res (js_get xPos (Some (startOf nextGid))) (\<lambda>x.
       Inr (lps @ [case prev of None \<Rightarrow> x | Some p \<Rightarrow> max x (p + EPSILON)]))))"

definition place_lin :: "xpos \<Rightarrow> (nat \<Rightarrow> rat) \<Rightarrow> nat list list \<Rightarrow> nat \<times> int \<Rightarrow> rat \<times> rat list list \<Rightarrow> (rat \<times> rat list list) res" where
  "place_lin xPos startOf alls li acc =
     (case li of (index, position) \<Rightarrow> case acc of (pos, lps) \<Rightarrow>
        bind_res (fold_res (next_point xPos startOf (alls ! index)) [int (length (lps ! index))..position] (lps ! index)) (\<lambda>lp.
        bind_res (js_at lp position) (\<lambda>x. Inr (max pos x, lps[index := lp]))))"

definition place_illegal :: "rat list list \<Rightarrow> nat \<Rightarrow> rat \<Rightarrow> rat res" where
  "place_illegal lps li pos =
     bind_res (js_at (lps ! li) (go_len (lps ! li) - 1)) (\<lambda>prev. Inr (max pos (prev + EPSILON)))"

definition place_event :: "xpos \<Rightarrow> (nat \<Rightarrow> rat) \<Rightarrow> lin_index \<Rightarrow> box_event \<Rightarrow> rat \<times> rat list list \<Rightarrow> (rat \<times> rat list list) res" where
  "place_event xPos startOf ix event acc =
     (case acc of (pos, lps) \<Rightarrow>
        bind_res (js_get xPos (Some (b_start event))) (\<lambda>x.
        bind_res (fold_res (place_lin xPos startOf (allLin ix))
            (toLin ix ! b_gid event @ map (\<lambda>index. (index, go_len (allLin ix ! index) - 1)) (illLast ix ! b_gid event))
            (max pos (x + b_width event), lps)) (\<lambda>(pos1, lps1).
        bind_res (fold_res (place_illegal lps1) (illLast ix ! b_gid event) pos1) (\<lambda>pos2. Inr (pos2, lps1)))))"

fun place_events :: "rat \<Rightarrow> xpos \<Rightarrow> (nat \<Rightarrow> rat) \<Rightarrow> lin_index \<Rightarrow> box_event list \<Rightarrow> rat \<times> rat list list \<Rightarrow>
  (box_event list \<times> rat \<times> rat list list) res" where
  "place_events ts xPos startOf ix [] acc = Inr ([], acc)"
| "place_events ts xPos startOf ix (event # events) acc =
     (if b_end event \<le> ts
      then bind_res (place_event xPos startOf ix event acc) (place_events ts xPos startOf ix events)
      else Inr (event # events, acc))"

fun scan :: "(nat \<Rightarrow> rat) \<Rightarrow> lin_index \<Rightarrow> rat \<Rightarrow> rat list \<Rightarrow> box_event list \<Rightarrow> xpos \<Rightarrow> rat list list \<Rightarrow> (xpos \<times> rat list list) res" where
  "scan startOf ix prev [] events xPos lps = Inr (xPos, lps)"
| "scan startOf ix prev (ts # tss) events xPos lps =
     bind_res (js_get xPos (Some prev)) (\<lambda>x.
     bind_res (place_events ts xPos startOf ix events (x + BOX_GAP, lps)) (\<lambda>(events1, pos, lps1).
       scan startOf ix ts tss events1 (xPos(Some ts \<mapsto> pos)) lps1))"

record page_layout =
  l_data :: "jsPartition list"
  l_times :: "rat list"
  l_index :: lin_index
  l_xPos :: xpos
  l_points :: "rat list list"

definition layout :: "(string \<Rightarrow> rat) \<Rightarrow> jsPartition list \<Rightarrow> page_layout res" where
  "layout text_width data0 =
     (let data1 = gid_data 0 data0;
          data = tweak_data data1;
          tss = sortedTimestamps data1
      in bind_res (index_linearizations data) (\<lambda>ix.
         let startOf = (\<lambda>gid. jStart (elements data ! gid));
             events = byEnd text_width data;
             lps = replicate (length (allLin ix)) []
         in bind_res (case tss of
                        [] \<Rightarrow> Inr ([None \<mapsto> 0], lps)
                      | t # ts \<Rightarrow> scan startOf ix t ts events [Some t \<mapsto> 0] lps) (\<lambda>(xPos, points).
            Inr \<lparr>l_data = data, l_times = tss, l_index = ix, l_xPos = xPos, l_points = points\<rparr>)))"

end
