(* ===== verification/Page_Warp.thy ===== *)
theory Page_Warp
  imports Page_Layout
begin

section \<open>The scan finds the least layout\<close>

text \<open>
  The positions of the points of a linearization as a function of the positions of the timestamps, and
  the scan step by step: what it adds to the position of a timestamp, and that it is the maximum of
  what the constraints ask for.
\<close>

subsection \<open>The points of a linearization\<close>

text \<open>\<open>ss\<close> are the start tss0 of the operations of the linearization.\<close>

fun lpoint :: "(rat \<Rightarrow> rat) \<Rightarrow> rat list \<Rightarrow> nat \<Rightarrow> rat" where
  "lpoint X ss 0 = X (ss ! 0)"
| "lpoint X ss (Suc k) = max (X (ss ! Suc k)) (lpoint X ss k + EPSILON)"

lemma lpoint_cong: "(\<And>i. i \<le> k \<Longrightarrow> X (ss ! i) = Y (ss ! i)) \<Longrightarrow> lpoint X ss k = lpoint Y ss k"
  by (induction k) simp_all

lemma lpoint_mono: "(\<And>i. i \<le> k \<Longrightarrow> X (ss ! i) \<le> Y (ss ! i)) \<Longrightarrow> lpoint X ss k \<le> lpoint Y ss k"
proof (induction k)
  case (Suc k)
  have "lpoint X ss k \<le> lpoint Y ss k" using Suc by simp
  moreover have "X (ss ! Suc k) \<le> Y (ss ! Suc k)" using Suc.prems by simp
  ultimately show ?case by (auto simp: max_def)
qed simp

definition starts_of :: "(nat \<Rightarrow> rat) \<Rightarrow> lin_index \<Rightarrow> nat \<Rightarrow> rat list" where
  "starts_of S ix l = map S (allLin ix ! l)"

text \<open>What an operation asks of the position \<open>B\<close> of its end.\<close>

definition fits :: "(nat \<Rightarrow> rat) \<Rightarrow> lin_index \<Rightarrow> (rat \<Rightarrow> rat) \<Rightarrow> box_event \<Rightarrow> rat \<Rightarrow> bool" where
  "fits S ix X e B \<longleftrightarrow>
     X (b_start e) + b_width e \<le> B \<and>
     (\<forall>(l, k) \<in> set (toLin ix ! b_gid e). lpoint X (starts_of S ix l) (nat k) \<le> B) \<and>
     (\<forall>l \<in> set (illLast ix ! b_gid e). lpoint X (starts_of S ix l) (length (allLin ix ! l) - 1) + EPSILON \<le> B)"

subsection \<open>One event\<close>

text \<open>\<open>xPos\<close> when the timestamps in \<open>D\<close> have been placed, and the points placed so far.\<close>

definition placed :: "rat set \<Rightarrow> (rat \<Rightarrow> rat) \<Rightarrow> xpos" where
  "placed D X = (\<lambda>k. case k of None \<Rightarrow> None | Some t \<Rightarrow> if t \<in> D then Some (X t) else None)"

lemma placed_get [simp]: "js_get (placed D X) (Some t) = (if t \<in> D then Inr (X t) else Inl (Panic ''undefined''))"
  by (simp add: js_get_def placed_def)

lemma placed_upd: "(placed D X)(Some t \<mapsto> x) = placed (insert t D) (X(t := x))"
  by (auto simp: placed_def fun_eq_iff split: option.splits)

definition points_ok :: "(nat \<Rightarrow> rat) \<Rightarrow> lin_index \<Rightarrow> rat set \<Rightarrow> (rat \<Rightarrow> rat) \<Rightarrow> rat list list \<Rightarrow> bool" where
  "points_ok S ix D X lps \<longleftrightarrow> length lps = length (allLin ix) \<and>
     (\<forall>l < length lps. length (lps ! l) \<le> length (allLin ix ! l) \<and>
        lps ! l = map (lpoint X (starts_of S ix l)) [0..<length (lps ! l)] \<and>
        (\<forall>i < length (lps ! l). S (allLin ix ! l ! i) \<in> D))"

text \<open>The starts of a linearization up to a position have been placed.\<close>

definition starts_placed :: "(nat \<Rightarrow> rat) \<Rightarrow> lin_index \<Rightarrow> rat set \<Rightarrow> nat \<times> int \<Rightarrow> bool" where
  "starts_placed S ix D li \<longleftrightarrow> fst li < length (allLin ix) \<and> 0 \<le> snd li \<and> nat (snd li) < length (allLin ix ! fst li) \<and>
     (\<forall>i \<le> nat (snd li). S (allLin ix ! fst li ! i) \<in> D)"

lemma js_at_nat [simp]: "js_at xs (int i) = (if i < length xs then Inr (xs ! i) else Inl (Panic ''undefined''))"
  by (simp add: js_at_def)

lemma next_point_ok:
  assumes "m < length lin" and "S (lin ! m) \<in> D"
  shows "next_point (placed D X) S lin (int m) (map (lpoint X (map S lin)) [0..<m]) = Inr (map (lpoint X (map S lin)) [0..<Suc m])"
proof (cases m)
  case (Suc i)
  let ?lps = "map (lpoint X (map S lin)) [0..<m]"
  have "js_at ?lps (int m - 1) = Inr (lpoint X (map S lin) i)"
    using js_at_nat [of ?lps i] Suc by (simp del: upt_Suc)
  moreover have "js_at lin (int m) = Inr (lin ! m)" using assms(1) by simp
  moreover have "m \<noteq> 0" using Suc by simp
  moreover have "lpoint X (map S lin) m = max (X (S (lin ! m))) (lpoint X (map S lin) i + EPSILON)" using Suc assms(1) by simp
  ultimately show ?thesis using assms by (simp add: next_point_def)
qed (use assms in \<open>simp add: next_point_def js_at_def\<close>)

lemma next_points_ok:
  assumes "k < length lin" and "\<forall>i \<le> k. S (lin ! i) \<in> D"
  shows "fold_res (next_point (placed D X) S lin) [int m..int k] (map (lpoint X (map S lin)) [0..<m]) =
    Inr (map (lpoint X (map S lin)) [0..<max m (Suc k)])"
proof (induction "Suc k - m" arbitrary: m)
  case 0
  then show ?case by (simp add: max_def)
next
  case (Suc d)
  then have m: "m \<le> k" "max m (Suc k) = max (Suc m) (Suc k)" by auto
  have "[int m..int k] = int m # [int (Suc m)..int k]" using m(1) by (simp add: upto.simps [of "int m"] add.commute)
  moreover have "next_point (placed D X) S lin (int m) (map (lpoint X (map S lin)) [0..<m]) = Inr (map (lpoint X (map S lin)) [0..<Suc m])"
    using assms m(1) by (intro next_point_ok) auto
  ultimately show ?case using Suc(1) [of "Suc m"] Suc(2) m by (simp del: upt_Suc)
qed

lemma place_lin_ok:
  assumes ok: "points_ok S ix D X lps" and r: "starts_placed S ix D (l, k)"
  shows "\<exists>lps'. place_lin (placed D X) S (allLin ix) (l, k) (pos, lps) = Inr (max pos (lpoint X (starts_of S ix l) (nat k)), lps') \<and>
    points_ok S ix D X lps' \<and> (\<forall>j. length (lps ! j) \<le> length (lps' ! j)) \<and> nat k < length (lps' ! l)"
proof -
  define m where "m = length (lps ! l)"
  define n where "n = nat k"
  have k: "k = int n" using r by (simp add: starts_placed_def n_def)
  have l: "l < length (allLin ix)" "n < length (allLin ix ! l)" "\<forall>i \<le> n. S (allLin ix ! l ! i) \<in> D"
    using r by (auto simp: starts_placed_def n_def)
  have lp: "lps ! l = map (lpoint X (starts_of S ix l)) [0..<m]" "m \<le> length (allLin ix ! l)" "\<forall>i < m. S (allLin ix ! l ! i) \<in> D" "length lps = length (allLin ix)"
    using ok l(1) by (auto simp: points_ok_def m_def)
  let ?new = "map (lpoint X (starts_of S ix l)) [0..<max m (Suc n)]"
  have "fold_res (next_point (placed D X) S (allLin ix ! l)) [int m..k] (lps ! l) = Inr ?new"
    unfolding lp(1) k starts_of_def by (rule next_points_ok [OF l(2,3)])
  then have "place_lin (placed D X) S (allLin ix) (l, k) (pos, lps) = Inr (max pos (lpoint X (starts_of S ix l) n), lps[l := ?new])"
    using l(2) by (simp add: place_lin_def k m_def [symmetric] less_max_iff_disj nth_append del: upt_Suc)
  moreover have "points_ok S ix D X (lps[l := ?new])"
    using ok l lp by (auto simp: points_ok_def nth_list_update less_max_iff_disj less_Suc_eq_le simp del: upt_Suc)
  moreover have "length (lps ! j) \<le> length (lps[l := ?new] ! j)" for j
    using l(1) lp(4) by (cases "j = l") (auto simp: m_def)
  ultimately show ?thesis using l(1) lp(4) unfolding n_def [symmetric] by (intro exI [of _ "lps[l := ?new]"]) (simp add: less_max_iff_disj del: upt_Suc)
qed

lemma place_lins_ok:
  assumes "points_ok S ix D X lps" and "\<forall>li \<in> set lis. starts_placed S ix D li"
  shows "\<exists>pos' lps'. fold_res (place_lin (placed D X) S (allLin ix)) lis (pos, lps) = Inr (pos', lps') \<and> points_ok S ix D X lps' \<and>
    (\<forall>B. pos' \<le> B \<longleftrightarrow> pos \<le> B \<and> (\<forall>(l, k) \<in> set lis. lpoint X (starts_of S ix l) (nat k) \<le> B)) \<and>
    (\<forall>j. length (lps ! j) \<le> length (lps' ! j)) \<and> (\<forall>(l, k) \<in> set lis. nat k < length (lps' ! l))"
  using assms
proof (induction lis arbitrary: pos lps)
  case (Cons li lis)
  obtain l k where li: "li = (l, k)" by (cases li)
  have "starts_placed S ix D (l, k)" using Cons.prems(2) li by simp
  then obtain lps1 where 1: "place_lin (placed D X) S (allLin ix) (l, k) (pos, lps) = Inr (max pos (lpoint X (starts_of S ix l) (nat k)), lps1)"
    "points_ok S ix D X lps1" "\<forall>j. length (lps ! j) \<le> length (lps1 ! j)" "nat k < length (lps1 ! l)"
    using place_lin_ok [OF Cons.prems(1)] by blast
  have rest: "\<forall>li \<in> set lis. starts_placed S ix D li" using Cons.prems(2) by simp
  obtain pos' lps' where 2: "fold_res (place_lin (placed D X) S (allLin ix)) lis (max pos (lpoint X (starts_of S ix l) (nat k)), lps1) = Inr (pos', lps')"
    "points_ok S ix D X lps'" "\<forall>B. pos' \<le> B \<longleftrightarrow> max pos (lpoint X (starts_of S ix l) (nat k)) \<le> B \<and> (\<forall>(l, k) \<in> set lis. lpoint X (starts_of S ix l) (nat k) \<le> B)"
    "\<forall>j. length (lps1 ! j) \<le> length (lps' ! j)" "\<forall>(l, k) \<in> set lis. nat k < length (lps' ! l)"
    using Cons.IH [OF 1(2) rest, of "max pos (lpoint X (starts_of S ix l) (nat k))"] by (elim exE conjE) (rule that)
  have "nat k < length (lps' ! l)" using 1(4) 2(4) by (meson less_le_trans)
  moreover have "\<forall>j. length (lps ! j) \<le> length (lps' ! j)" using 1(3) 2(4) order_trans by blast
  ultimately show ?case using 1(1) 2 li by (intro exI [of _ pos'] exI [of _ lps']) auto
qed auto

lemma place_illegals_ok:
  assumes "points_ok S ix D X lps" and "\<forall>l \<in> set ls. l < length (allLin ix) \<and> allLin ix ! l \<noteq> [] \<and> length (allLin ix ! l) - 1 < length (lps ! l)"
  shows "\<exists>pos'. fold_res (place_illegal lps) ls pos = Inr pos' \<and>
    (\<forall>B. pos' \<le> B \<longleftrightarrow> pos \<le> B \<and> (\<forall>l \<in> set ls. lpoint X (starts_of S ix l) (length (allLin ix ! l) - 1) + EPSILON \<le> B))"
  using assms(2)
proof (induction ls arbitrary: pos)
  case (Cons l ls)
  let ?x = "lpoint X (starts_of S ix l) (length (allLin ix ! l) - 1) + EPSILON"
  define n where "n = length (allLin ix ! l) - 1"
  have l: "l < length (allLin ix)" "length (allLin ix ! l) = Suc n" "n < length (lps ! l)" using Cons.prems by (auto simp: n_def)
  then have len: "length (lps ! l) = Suc n" "lps ! l = map (lpoint X (starts_of S ix l)) [0..<Suc n]"
    using assms(1) by (auto simp: points_ok_def le_Suc_eq simp del: upt_Suc)
  have "js_at (lps ! l) (go_len (lps ! l) - 1) = Inr (lpoint X (starts_of S ix l) n)"
    using js_at_nat [of "lps ! l" n] len by (simp add: go_len_def nth_append)
  then have "place_illegal lps l pos = Inr (max pos ?x)" unfolding n_def by (simp add: place_illegal_def)
  moreover obtain pos' where "fold_res (place_illegal lps) ls (max pos ?x) = Inr pos'"
    "\<forall>B. pos' \<le> B \<longleftrightarrow> max pos ?x \<le> B \<and> (\<forall>l \<in> set ls. lpoint X (starts_of S ix l) (length (allLin ix ! l) - 1) + EPSILON \<le> B)"
    using Cons.IH [of "max pos ?x"] Cons.prems by auto
  ultimately show ?case by auto
qed simp

text \<open>When an event is placed the starts of all linearizations it belongs to have been.\<close>

definition event_ready :: "(nat \<Rightarrow> rat) \<Rightarrow> lin_index \<Rightarrow> rat set \<Rightarrow> box_event \<Rightarrow> bool" where
  "event_ready S ix D e \<longleftrightarrow> b_start e \<in> D \<and> (\<forall>li \<in> set (toLin ix ! b_gid e). starts_placed S ix D li) \<and>
     (\<forall>l \<in> set (illLast ix ! b_gid e). starts_placed S ix D (l, go_len (allLin ix ! l) - 1))"

lemma ready_last: "starts_placed S ix D (l, go_len (allLin ix ! l) - 1) \<Longrightarrow>
  l < length (allLin ix) \<and> allLin ix ! l \<noteq> [] \<and> nat (go_len (allLin ix ! l) - 1) = length (allLin ix ! l) - 1"
  by (auto simp: starts_placed_def go_len_def)

lemma place_event_ok:
  assumes ok: "points_ok S ix D X lps" and r: "event_ready S ix D e"
  shows "\<exists>pos' lps'. place_event (placed D X) S ix e (pos, lps) = Inr (pos', lps') \<and> points_ok S ix D X lps' \<and>
    (\<forall>B. pos' \<le> B \<longleftrightarrow> pos \<le> B \<and> fits S ix X e B)"
proof -
  let ?ill = "illLast ix ! b_gid e" and ?pos = "max pos (X (b_start e) + b_width e)"
  let ?lis = "toLin ix ! b_gid e @ map (\<lambda>index. (index, go_len (allLin ix ! index) - 1)) ?ill"
  have ri: "starts_placed S ix D (l, go_len (allLin ix ! l) - 1)" if "l \<in> set ?ill" for l using r that by (simp add: event_ready_def)
  have "\<forall>li \<in> set ?lis. starts_placed S ix D li" using r ri by (auto simp: event_ready_def)
  from place_lins_ok [OF ok this, of ?pos]
  obtain pos1 lps1 where 1: "fold_res (place_lin (placed D X) S (allLin ix)) ?lis (?pos, lps) = Inr (pos1, lps1)" "points_ok S ix D X lps1"
    "\<forall>B. pos1 \<le> B \<longleftrightarrow> ?pos \<le> B \<and> (\<forall>(l, k) \<in> set ?lis. lpoint X (starts_of S ix l) (nat k) \<le> B)" "\<forall>(l, k) \<in> set ?lis. nat k < length (lps1 ! l)"
    by (elim exE conjE) (rule that)
  have "\<forall>l \<in> set ?ill. l < length (allLin ix) \<and> allLin ix ! l \<noteq> [] \<and> length (allLin ix ! l) - 1 < length (lps1 ! l)"
  proof
    fix l assume l: "l \<in> set ?ill"
    then have "(l, go_len (allLin ix ! l) - 1) \<in> set ?lis" by simp
    with 1(4) have "nat (go_len (allLin ix ! l) - 1) < length (lps1 ! l)" by fast
    then show "l < length (allLin ix) \<and> allLin ix ! l \<noteq> [] \<and> length (allLin ix ! l) - 1 < length (lps1 ! l)"
      using ready_last [OF ri [OF l]] by simp
  qed
  from place_illegals_ok [OF 1(2) this, of pos1]
  obtain pos2 where 2: "fold_res (place_illegal lps1) ?ill pos1 = Inr pos2"
    "\<forall>B. pos2 \<le> B \<longleftrightarrow> pos1 \<le> B \<and> (\<forall>l \<in> set ?ill. lpoint X (starts_of S ix l) (length (allLin ix ! l) - 1) + EPSILON \<le> B)"
    by (elim exE conjE) (rule that)
  have "place_event (placed D X) S ix e (pos, lps) = Inr (pos2, lps1)"
    using r 1(1) 2(1) by (simp add: place_event_def event_ready_def)
  moreover have "pos2 \<le> B \<longleftrightarrow> pos \<le> B \<and> fits S ix X e B" for B
  proof -
    have last: "lpoint X (starts_of S ix l) (nat (go_len (allLin ix ! l) - 1)) \<le> B"
      if "l \<in> set ?ill" "lpoint X (starts_of S ix l) (length (allLin ix ! l) - 1) + EPSILON \<le> B" for l
      using ready_last [OF ri [OF that(1)]] that(2) by (simp add: EPSILON_def)
    show ?thesis unfolding 2(2) [rule_format] 1(3) [rule_format] fits_def using last by auto
  qed
  ultimately show ?thesis using 1(2) by blast
qed

lemma place_events_ok:
  assumes "points_ok S ix D X lps" and "\<forall>e \<in> set events. b_end e \<le> ts \<longrightarrow> event_ready S ix D e" and "sorted (map b_end events)"
  shows "\<exists>pos' lps'. place_events ts (placed D X) S ix events (pos, lps) = Inr (filter (\<lambda>e. \<not> b_end e \<le> ts) events, pos', lps') \<and>
    points_ok S ix D X lps' \<and> (\<forall>B. pos' \<le> B \<longleftrightarrow> pos \<le> B \<and> (\<forall>e \<in> set events. b_end e \<le> ts \<longrightarrow> fits S ix X e B))"
  using assms
proof (induction events arbitrary: pos lps)
  case (Cons e events)
  show ?case
  proof (cases "b_end e \<le> ts")
    case True
    have r: "event_ready S ix D e" using Cons.prems(2) True by simp
    from place_event_ok [OF Cons.prems(1) r, of pos]
    obtain pos1 lps1 where 1: "place_event (placed D X) S ix e (pos, lps) = Inr (pos1, lps1)" "points_ok S ix D X lps1"
      "\<forall>B. pos1 \<le> B \<longleftrightarrow> pos \<le> B \<and> fits S ix X e B"
      by (elim exE conjE) (rule that)
    have "\<forall>e \<in> set events. b_end e \<le> ts \<longrightarrow> event_ready S ix D e" "sorted (map b_end events)" using Cons.prems(2,3) by simp_all
    from Cons.IH [OF 1(2) this, of pos1]
    obtain pos' lps' where "place_events ts (placed D X) S ix events (pos1, lps1) = Inr (filter (\<lambda>e. \<not> b_end e \<le> ts) events, pos', lps')"
      "points_ok S ix D X lps'" "\<forall>B. pos' \<le> B \<longleftrightarrow> pos1 \<le> B \<and> (\<forall>e \<in> set events. b_end e \<le> ts \<longrightarrow> fits S ix X e B)"
      by (elim exE conjE) (rule that)
    then show ?thesis using True 1 by (intro exI [of _ pos'] exI [of _ lps']) auto
  next
    case False
    then have "\<forall>e' \<in> set (e # events). \<not> b_end e' \<le> ts" using Cons.prems(3) by (auto intro: order_trans)
    then show ?thesis using Cons.prems(1) by (intro exI [of _ pos] exI [of _ lps]) (auto simp: filter_id_conv)
  qed
qed auto

subsection \<open>The whole scan\<close>

text \<open>
  Every timestamp gets the least position that is far enough from the one before and that every
  operation that ends there fits.
\<close>

fun stepwise :: "(nat \<Rightarrow> rat) \<Rightarrow> lin_index \<Rightarrow> (rat \<Rightarrow> rat) \<Rightarrow> box_event list \<Rightarrow> rat \<Rightarrow> rat list \<Rightarrow> bool" where
  "stepwise S ix X events prev [] \<longleftrightarrow> True"
| "stepwise S ix X events prev (ts # tss) \<longleftrightarrow>
     (\<forall>B. X ts \<le> B \<longleftrightarrow> X prev + BOX_GAP \<le> B \<and> (\<forall>e \<in> set events. prev < b_end e \<and> b_end e \<le> ts \<longrightarrow> fits S ix X e B)) \<and>
     stepwise S ix X events ts tss"

text \<open>Before its end an event is starts_placed: the starts it needs are timestamps before its end.\<close>

definition timely :: "(nat \<Rightarrow> rat) \<Rightarrow> lin_index \<Rightarrow> rat set \<Rightarrow> box_event \<Rightarrow> bool" where
  "timely S ix T e \<longleftrightarrow> event_ready S ix {t \<in> T. t < b_end e} e"

lemma ready_mono: "starts_placed S ix D li \<Longrightarrow> D \<subseteq> D' \<Longrightarrow> starts_placed S ix D' li"
  by (auto simp: starts_placed_def)

lemma event_ready_mono: "event_ready S ix D e \<Longrightarrow> D \<subseteq> D' \<Longrightarrow> event_ready S ix D' e"
  using ready_mono by (fastforce simp: event_ready_def)

lemma fits_cong:
  assumes "event_ready S ix D e" and "\<And>t. t \<in> D \<Longrightarrow> X t = Y t"
  shows "fits S ix X e B = fits S ix Y e B"
proof -
  have lp: "lpoint X (starts_of S ix l) (nat k) = lpoint Y (starts_of S ix l) (nat k)" if "starts_placed S ix D (l, k)" for l k
    using that assms(2) by (intro lpoint_cong) (auto simp: starts_placed_def starts_of_def)
  have 1: "lpoint X (starts_of S ix l) (nat k) = lpoint Y (starts_of S ix l) (nat k)" if "(l, k) \<in> set (toLin ix ! b_gid e)" for l k
    using lp assms(1) that by (auto simp: event_ready_def)
  have 2: "lpoint X (starts_of S ix l) (length (allLin ix ! l) - 1) = lpoint Y (starts_of S ix l) (length (allLin ix ! l) - 1)"
    if "l \<in> set (illLast ix ! b_gid e)" for l
    using lp [of l "go_len (allLin ix ! l) - 1"] ready_last [of S ix D l] assms(1) that by (auto simp: event_ready_def)
  have 3: "X (b_start e) = Y (b_start e)" using assms by (simp add: event_ready_def)
  show ?thesis unfolding fits_def 3 using 1 2 by (auto split: prod.splits)
qed

lemma points_ok_upd:
  assumes "points_ok S ix D X lps" and "ts \<notin> D"
  shows "points_ok S ix (insert ts D) (X(ts := pos)) lps"
  unfolding points_ok_def
proof (intro conjI allI impI)
  show "length lps = length (allLin ix)" using assms(1) by (simp add: points_ok_def)
  fix l assume l: "l < length lps"
  note ok = assms(1) [unfolded points_ok_def, THEN conjunct2, rule_format, OF l]
  show "length (lps ! l) \<le> length (allLin ix ! l)" using ok by simp
  have "lpoint X (starts_of S ix l) i = lpoint (X(ts := pos)) (starts_of S ix l) i" if "i < length (lps ! l)" for i
    using ok that assms(2) by (intro lpoint_cong) (auto simp: starts_of_def)
  then have "map (lpoint (X(ts := pos)) (starts_of S ix l)) [0..<length (lps ! l)] = map (lpoint X (starts_of S ix l)) [0..<length (lps ! l)]" by simp
  then show "lps ! l = map (lpoint (X(ts := pos)) (starts_of S ix l)) [0..<length (lps ! l)]" using ok by metis
  show "S (allLin ix ! l ! i) \<in> insert ts D" if "i < length (lps ! l)" for i using ok that by blast
qed

lemma stepwise_filter:
  "sorted_wrt (<) (prev # tss) \<Longrightarrow> t0 \<le> prev \<Longrightarrow>
     stepwise S ix X (filter (\<lambda>e. \<not> b_end e \<le> t0) events) prev tss = stepwise S ix X events prev tss"
proof (induction tss arbitrary: prev)
  case (Cons ts tss)
  have "(\<forall>e \<in> set (filter (\<lambda>e. \<not> b_end e \<le> t0) events). prev < b_end e \<and> b_end e \<le> ts \<longrightarrow> fits S ix X e B) \<longleftrightarrow>
    (\<forall>e \<in> set events. prev < b_end e \<and> b_end e \<le> ts \<longrightarrow> fits S ix X e B)" for B
    using Cons.prems(2) by auto
  then show ?case using Cons by simp
qed simp

lemma scan_ok:
  assumes "sorted_wrt (<) (prev # tss)" and "prev \<in> D" and "D \<inter> set tss = {}" and "\<forall>t \<in> D. t \<le> prev"
    and "\<forall>e \<in> set events. timely S ix (D \<union> set tss) e \<and> prev < b_end e" and "sorted (map b_end events)" and "points_ok S ix D X lps"
  shows "\<exists>X' lps'. scan S ix prev tss events (placed D X) lps = Inr (placed (D \<union> set tss) X', lps') \<and> (\<forall>t \<in> D. X' t = X t) \<and>
    points_ok S ix (D \<union> set tss) X' lps' \<and> stepwise S ix X' events prev tss"
  using assms
proof (induction tss arbitrary: prev D events X lps)
  case (Cons ts tss)
  note p = Cons.prems
  let ?T = "D \<union> set (ts # tss)"
  have lt: "prev < ts" "\<forall>t \<in> set tss. ts < t" "ts \<notin> D" using p(1,3) by auto
  have D: "{t \<in> ?T. t < u} \<subseteq> D" if "u \<le> ts" for u using lt that by auto
  have rd: "event_ready S ix D e" if "e \<in> set events" "b_end e \<le> ts" for e
    using event_ready_mono [OF _ D [OF that(2)]] p(5) that(1) by (simp add: timely_def)
  then have "\<forall>e \<in> set events. b_end e \<le> ts \<longrightarrow> event_ready S ix D e" by blast
  from place_events_ok [OF p(7) this p(6), of "X prev + BOX_GAP"]
  obtain pos lps1 where 1: "place_events ts (placed D X) S ix events (X prev + BOX_GAP, lps) = Inr (filter (\<lambda>e. \<not> b_end e \<le> ts) events, pos, lps1)"
    "points_ok S ix D X lps1" "\<forall>B. pos \<le> B \<longleftrightarrow> X prev + BOX_GAP \<le> B \<and> (\<forall>e \<in> set events. b_end e \<le> ts \<longrightarrow> fits S ix X e B)"
    by (elim exE conjE) (rule that)
  let ?D = "insert ts D" and ?X = "X(ts := pos)" and ?ev = "filter (\<lambda>e. \<not> b_end e \<le> ts) events"
  have T: "?D \<union> set tss = ?T" by simp
  have "\<exists>X' lps'. scan S ix ts tss ?ev (placed ?D ?X) lps1 = Inr (placed (?D \<union> set tss) X', lps') \<and> (\<forall>t \<in> ?D. X' t = ?X t) \<and>
    points_ok S ix (?D \<union> set tss) X' lps' \<and> stepwise S ix X' ?ev ts tss"
  proof (rule Cons.IH)
    show "sorted_wrt (<) (ts # tss)" using p(1) by simp
    show "?D \<inter> set tss = {}" using p(3) lt(2) by auto
    show "\<forall>t \<in> ?D. t \<le> ts" using p(4) lt(1) by auto
    show "\<forall>e \<in> set ?ev. timely S ix (?D \<union> set tss) e \<and> ts < b_end e" using p(5) unfolding T by auto
    show "sorted (map b_end ?ev)" using p(6) by (rule sorted_filter)
    show "points_ok S ix ?D ?X lps1" by (rule points_ok_upd [OF 1(2) lt(3)])
  qed simp
  then obtain X' lps' where 2: "scan S ix ts tss ?ev (placed ?D ?X) lps1 = Inr (placed ?T X', lps')" "\<forall>t \<in> ?D. X' t = ?X t"
    "points_ok S ix ?T X' lps'" "stepwise S ix X' ?ev ts tss"
    unfolding T by (elim exE conjE) (rule that)
  have same: "X' t = X t" if "t \<in> D" for t using 2(2) lt(3) that by auto
  have "fits S ix X' e B = fits S ix X e B" if "e \<in> set events" "b_end e \<le> ts" for e B
    by (rule fits_cong [OF rd [OF that]]) (rule same)
  then have "X' ts \<le> B \<longleftrightarrow> X' prev + BOX_GAP \<le> B \<and> (\<forall>e \<in> set events. prev < b_end e \<and> b_end e \<le> ts \<longrightarrow> fits S ix X' e B)" for B
    using 1(3) 2(2) same [OF p(2)] p(5) by auto
  moreover have "stepwise S ix X' events ts tss" using 2(4) stepwise_filter [of ts tss ts] p(1) by simp
  moreover have "scan S ix prev (ts # tss) events (placed D X) lps = Inr (placed ?T X', lps')"
    using 1(1) 2(1) p(2) by (simp add: placed_upd)
  ultimately show ?case using 2(3) same by (intro exI [of _ X'] exI [of _ lps']) simp
qed auto

subsection \<open>The least solution\<close>

text \<open>
  The constraints, for the timestamps in order: positions start at 0 and keep their distance, and
  every operation fits its box.
\<close>

definition warp :: "(nat \<Rightarrow> rat) \<Rightarrow> lin_index \<Rightarrow> box_event list \<Rightarrow> rat list \<Rightarrow> (rat \<Rightarrow> rat) \<Rightarrow> bool" where
  "warp S ix events tss0 X \<longleftrightarrow>
     (tss0 \<noteq> [] \<longrightarrow> 0 \<le> X (hd tss0)) \<and>
     (\<forall>i. Suc i < length tss0 \<longrightarrow> X (tss0 ! i) + BOX_GAP \<le> X (tss0 ! Suc i)) \<and>
     (\<forall>e \<in> set events. fits S ix X e (X (b_end e)))"

lemma stepwise_nth:
  "stepwise S ix X events prev tss \<Longrightarrow> i < length tss \<Longrightarrow>
     X (tss ! i) \<le> B \<longleftrightarrow> X ((prev # tss) ! i) + BOX_GAP \<le> B \<and>
       (\<forall>e \<in> set events. (prev # tss) ! i < b_end e \<and> b_end e \<le> tss ! i \<longrightarrow> fits S ix X e B)"
proof (induction tss arbitrary: prev i)
  case (Cons ts tss)
  then show ?case by (cases i) auto
qed simp

lemma stepwise_warp:
  assumes st: "stepwise S ix X events t0 tss" and "X t0 = 0" and srt: "sorted_wrt (<) (t0 # tss)"
    and ends: "\<forall>e \<in> set events. b_end e \<in> set tss"
  shows "warp S ix events (t0 # tss) X"
proof -
  have "fits S ix X e (X (b_end e))" if e: "e \<in> set events" for e
  proof -
    obtain i where i: "i < length tss" "b_end e = tss ! i" using ends e by (metis in_set_conv_nth)
    have "(t0 # tss) ! i < (t0 # tss) ! Suc i" using sorted_wrt_nth_less [OF srt, of i "Suc i"] i(1) by simp
    then show ?thesis using stepwise_nth [OF st i(1), of "X (tss ! i)"] e i(2) by auto
  qed
  moreover have "X ((t0 # tss) ! i) + BOX_GAP \<le> X ((t0 # tss) ! Suc i)" if "Suc i < length (t0 # tss)" for i
    using stepwise_nth [OF st, of i "X (tss ! i)"] that by simp
  ultimately show ?thesis using assms(2) by (simp add: warp_def)
qed

text \<open>Fitting is monotone in the positions of the timestamps before the end.\<close>

lemma fits_mono:
  assumes "event_ready S ix D e" and "\<And>t. t \<in> D \<Longrightarrow> X t \<le> Y t" and "fits S ix Y e B"
  shows "fits S ix X e B"
proof -
  have lp: "lpoint X (starts_of S ix l) (nat k) \<le> lpoint Y (starts_of S ix l) (nat k)" if "starts_placed S ix D (l, k)" for l k
    using that assms(2) by (intro lpoint_mono) (auto simp: starts_placed_def starts_of_def)
  have 1: "lpoint X (starts_of S ix l) (nat k) \<le> B" if "(l, k) \<in> set (toLin ix ! b_gid e)" for l k
  proof -
    have "starts_placed S ix D (l, k)" using assms(1) that by (simp add: event_ready_def)
    moreover have "lpoint Y (starts_of S ix l) (nat k) \<le> B" using assms(3) that by (auto simp: fits_def)
    ultimately show ?thesis using lp order_trans by blast
  qed
  have 2: "lpoint X (starts_of S ix l) (length (allLin ix ! l) - 1) + EPSILON \<le> B" if "l \<in> set (illLast ix ! b_gid e)" for l
  proof -
    have r: "starts_placed S ix D (l, go_len (allLin ix ! l) - 1)" using assms(1) that by (simp add: event_ready_def)
    moreover have "lpoint Y (starts_of S ix l) (length (allLin ix ! l) - 1) + EPSILON \<le> B" using assms(3) that by (auto simp: fits_def)
    ultimately show ?thesis using lp [OF r] ready_last [OF r] by simp
  qed
  have "X (b_start e) \<le> Y (b_start e)" using assms(1,2) by (simp add: event_ready_def)
  moreover have "Y (b_start e) + b_width e \<le> B" using assms(3) by (simp add: fits_def)
  ultimately show ?thesis using 1 2 by (auto simp: fits_def)
qed

lemma stepwise_least:
  assumes st: "stepwise S ix X events t0 tss" and "X t0 = 0" and srt: "sorted_wrt (<) (t0 # tss)"
    and rd: "\<forall>e \<in> set events. timely S ix (set (t0 # tss)) e \<and> b_end e \<in> set tss" and Y: "warp S ix events (t0 # tss) Y"
  shows "i < length (t0 # tss) \<Longrightarrow> X ((t0 # tss) ! i) \<le> Y ((t0 # tss) ! i)"
proof (induction i rule: less_induct)
  case (less i)
  show ?case
  proof (cases i)
    case 0
    then show ?thesis using assms(2) Y by (simp add: warp_def)
  next
    case (Suc j)
    then have j: "j < length tss" using less.prems by simp
    let ?B = "Y (tss ! j)"
    have gap: "X ((t0 # tss) ! j) + BOX_GAP \<le> ?B"
      using less.IH [of j] Suc less.prems Y [unfolded warp_def] by (metis add_le_cancel_right length_Cons lessI less_SucI nth_Cons_Suc order_trans Suc_less_eq j)
    have "fits S ix X e ?B" if e: "e \<in> set events" "(t0 # tss) ! j < b_end e" "b_end e \<le> tss ! j" for e
    proof -
      have "b_end e = tss ! j"
      proof -
        obtain k where k: "k < length tss" "b_end e = tss ! k" using rd e(1) by (metis in_set_conv_nth)
        have "\<not> Suc k < Suc j" using sorted_wrt_nth_less [OF srt, of "Suc k" j] e(2) k j by (cases "Suc k = j") auto
        moreover have "\<not> Suc j < Suc k" using sorted_wrt_nth_less [OF srt, of "Suc j" "Suc k"] e(3) k by auto
        ultimately show ?thesis using k(2) by (metis Suc_less_eq nat_neq_iff)
      qed
      moreover have "fits S ix Y e (Y (b_end e))" using Y e(1) by (simp add: warp_def)
      ultimately have f: "fits S ix Y e ?B" by simp
      have "event_ready S ix {t \<in> set (t0 # tss). t < b_end e} e" using rd e(1) by (simp add: timely_def)
      then show ?thesis
      proof (rule fits_mono [OF _ _ f])
        fix t assume t: "t \<in> {t \<in> set (t0 # tss). t < b_end e}"
        then obtain k where k: "k < length (t0 # tss)" "t = (t0 # tss) ! k" by (metis (mono_tags, lifting) in_set_conv_nth mem_Collect_eq)
        have "k < Suc j"
        proof (rule ccontr)
          assume "\<not> k < Suc j"
          then have "tss ! j \<le> t" using sorted_wrt_nth_less [OF srt, of "Suc j" k] k by (cases "k = Suc j") auto
          then show False using t e(3) by auto
        qed
        then show "X t \<le> Y t" using less.IH [of k] k Suc by simp
      qed
    qed
    then show ?thesis using stepwise_nth [OF st j, of ?B] gap Suc by simp
  qed
qed

end
