(* ===== verification/Page_Least.thy ===== *)
theory Page_Least
  imports Page_Warp
begin

section \<open>The layout of the data of a check\<close>

text \<open>
  The numbering of the operations, the change of ends that meet a start, and the index of the
  linearizations; then the layout as a whole, for data in which operations end after they start and
  linearizations keep the order of time.
\<close>

subsection \<open>Numbers\<close>

lemma gid_elements_nth: "i < length els \<Longrightarrow> gid_elements g els ! i = (els ! i)\<lparr>jGid := g + i\<rparr>"
  by (induction els arbitrary: g i) (auto simp: nth_Cons split: nat.splits)

lemma gid_elements_length [simp]: "length (gid_elements g els) = length els"
  by (induction els arbitrary: g) simp_all

lemma gid_elements_append: "gid_elements g (xs @ ys) = gid_elements g xs @ gid_elements (g + length xs) ys"
  by (induction xs arbitrary: g) simp_all

lemma elements_gid: "elements (gid_data g data) = gid_elements g (elements data)"
  by (induction data arbitrary: g) (simp_all add: elements_def gid_elements_append)

lemma elements_tweak: "elements (tweak_data data) = map (tweak (startTimestamps data) (nextTs (sort (allTimestamps data)))) (elements data)"
  by (simp add: elements_def tweak_data_def Let_def map_concat comp_def)

lemma tweak_fields [simp]: "jStart (tweak st nx el) = jStart el" "jGid (tweak st nx el) = jGid el"
  "jDescription (tweak st nx el) = jDescription el" "jClientId (tweak st nx el) = jClientId el" "jOriginalEnd (tweak st nx el) = jEnd el"
  by (auto simp: tweak_def Let_def split: option.splits)

text \<open>Every element is the one its number stands for.\<close>

definition numbered :: "jsPartition list \<Rightarrow> bool" where
  "numbered data \<longleftrightarrow> (\<forall>i < length (elements data). jGid (elements data ! i) = i)"

lemma numbered_layout: "numbered (tweak_data (gid_data 0 data))"
  by (simp add: numbered_def elements_tweak elements_gid gid_elements_nth)

lemma numbered_el:
  assumes "numbered data" and "el \<in> set (elements data)"
  shows "jGid el < length (elements data)" "elements data ! jGid el = el"
  using assms by (auto simp: numbered_def in_set_conv_nth)

subsection \<open>Ends that meet a start\<close>

lemma nextTs_Some:
  "sorted_wrt (<) ts \<Longrightarrow> nextTs ts t = Some u \<Longrightarrow> t < u \<and> u \<in> set ts \<and> (\<forall>v \<in> set ts. v \<le> t \<or> u \<le> v)"
proof (induction ts rule: nextTs.induct)
  case (1 a b ts)
  show ?case
  proof (cases "t = a")
    case True
    then show ?thesis using 1 by auto
  next
    case False
    then have n: "nextTs (b # ts) t = Some u" using 1(3) by simp
    then have "t < u \<and> u \<in> set (b # ts) \<and> (\<forall>v \<in> set (b # ts). v \<le> t \<or> u \<le> v)" using 1(1,2) by simp
    moreover have "t \<in> set (b # ts)"
    proof -
      have "nextTs xs t = Some u \<Longrightarrow> t \<in> set xs" for xs by (induction xs rule: nextTs.induct) (auto split: if_splits)
      then show ?thesis using n by blast
    qed
    ultimately show ?thesis using 1(2) by auto
  qed
qed simp_all

lemma nextTs_None: "sorted_wrt (<) ts \<Longrightarrow> nextTs ts t = None \<Longrightarrow> t \<in> set ts \<Longrightarrow> \<forall>v \<in> set ts. v \<le> t"
  by (induction ts rule: nextTs.induct) (auto split: if_splits)

lemma sorted_timestamps: "sorted_wrt (<) (sort (remdups (xs :: rat list)))"
  by (simp add: strict_sorted_iff)

lemma allTimestamps_sorted: "sorted_wrt (<) (sort (allTimestamps data))"
  unfolding allTimestamps_def by (rule sorted_timestamps)

lemma allTimestamps_set: "set (allTimestamps data) = jStart ` set (elements data) \<union> jEnd ` set (elements data)"
  by (auto simp: allTimestamps_def)

text \<open>An operation is over before another starts, after the change, exactly when it ended strictly before.\<close>

lemma tweak_order:
  assumes a: "a \<in> set (elements data)" and b: "b \<in> set (elements data)" and pos: "\<forall>el \<in> set (elements data). jStart el < jEnd el"
  shows "jStart a < jEnd (tweak (startTimestamps data) (nextTs (sort (allTimestamps data))) b) \<longleftrightarrow> jStart a \<le> jEnd b"
proof (cases "jEnd b \<in> set (startTimestamps data)")
  case True
  then obtain c where c: "c \<in> set (elements data)" "jStart c = jEnd b" by (auto simp: startTimestamps_def)
  have "\<not> jEnd c \<le> jEnd b" "jEnd c \<in> set (sort (allTimestamps data))" "jEnd b \<in> set (sort (allTimestamps data))"
    using pos b c by (auto simp: allTimestamps_set)
  then obtain u where u: "nextTs (sort (allTimestamps data)) (jEnd b) = Some u"
    using nextTs_None [OF allTimestamps_sorted, of data "jEnd b"] by (cases "nextTs (sort (allTimestamps data)) (jEnd b)") blast+
  note n = nextTs_Some [OF allTimestamps_sorted u]
  have "jStart a \<le> jEnd b \<or> u \<le> jStart a" using n a by (auto simp: allTimestamps_set)
  then show ?thesis using True u n by (auto simp: tweak_def Let_def)
next
  case False
  moreover have "jStart a \<in> set (startTimestamps data)" using a by (simp add: startTimestamps_def)
  ultimately have "jStart a \<noteq> jEnd b" by auto
  then show ?thesis using False by (auto simp: tweak_def Let_def)
qed

subsection \<open>The index of the linearizations\<close>

definition lin_list :: "jsPartition list \<Rightarrow> (jsElement list \<times> linearizationStep list) list" where
  "lin_list data = concat (map (\<lambda>pt. map (Pair (jHistory pt)) (jPartials pt)) data)"

lemma index_linearizations_list:
  "index_linearizations data = fold_res (\<lambda>(h, lin). add_linearization h lin) (lin_list data)
     \<lparr>toLin = replicate (length (elements data)) [], illLast = replicate (length (elements data)) [], allLin = []\<rparr>"
proof -
  have "fold_res (\<lambda>pt. fold_res (add_linearization (jHistory pt)) (jPartials pt)) data = fold_res (\<lambda>(h, lin). add_linearization h lin) (lin_list data)"
  proof (induction data)
    case (Cons pt data)
    show ?case using Cons unfolding lin_list_def by (intro ext) (simp add: fold_res_append fold_res_map)
  qed (simp add: lin_list_def fun_eq_iff)
  then show ?thesis by (simp add: index_linearizations_def Let_def)
qed

definition global_lin :: "jsElement list \<Rightarrow> linearizationStep list \<Rightarrow> nat list" where
  "global_lin h lin = map (\<lambda>s. jGid (h ! nat (Index s))) lin"

definition steps_in :: "jsElement list \<Rightarrow> linearizationStep list \<Rightarrow> bool" where
  "steps_in h lin \<longleftrightarrow> (\<forall>s \<in> set lin. 0 \<le> Index s \<and> nat (Index s) < length h)"

lemma push_at_set: "k < length xss \<Longrightarrow> g < length xss \<Longrightarrow> set (push_at k x xss ! g) = set (xss ! g) \<union> (if g = k then {x} else {})"
  by (auto simp: push_at_def nth_list_update)

lemma push_at_length [simp]: "length (push_at k x xss) = length xss"
  by (simp add: push_at_def)

lemma ex_nat: "(\<exists>i. P i) \<longleftrightarrow> P 0 \<or> (\<exists>i. P (Suc i))"
  by (metis nat.exhaust)

lemma add_points_ok:
  assumes "steps_in h lin" and "\<forall>el \<in> set h. jGid el < length e2l"
  shows "\<exists>e2l'. add_points h lgid p lin gl e2l = Inr (gl @ global_lin h lin, e2l') \<and> length e2l' = length e2l \<and>
    (\<forall>g < length e2l. set (e2l' ! g) = set (e2l ! g) \<union> {(lgid, p + int i) |i. i < length lin \<and> global_lin h lin ! i = g})"
  using assms
proof (induction lin arbitrary: p gl e2l)
  case (Cons s lin)
  define el where "el = h ! nat (Index s)"
  have s: "js_at h (Index s) = Inr el" "jGid el < length e2l" "steps_in h lin"
    using Cons.prems by (auto simp: steps_in_def js_at_def el_def)
  let ?e = "push_at (jGid el) (lgid, p) e2l"
  obtain e2l' where e: "add_points h lgid (p + 1) lin (gl @ [jGid el]) ?e = Inr ((gl @ [jGid el]) @ global_lin h lin, e2l')" "length e2l' = length ?e"
    "\<forall>g < length ?e. set (e2l' ! g) = set (?e ! g) \<union> {(lgid, p + 1 + int i) |i. i < length lin \<and> global_lin h lin ! i = g}"
    using Cons.IH [OF s(3), of ?e "p + 1" "gl @ [jGid el]"] Cons.prems(2) by auto
  have "{(lgid, p + int i) |i. i < length (s # lin) \<and> global_lin h (s # lin) ! i = g} =
    (if g = jGid el then {(lgid, p)} else {}) \<union> {(lgid, p + 1 + int i) |i. i < length lin \<and> global_lin h lin ! i = g}" for g
  proof -
    have "(\<exists>i. x = p + int i \<and> i < Suc (length lin) \<and> global_lin h (s # lin) ! i = g) \<longleftrightarrow>
      (g = jGid el \<and> x = p) \<or> (\<exists>i. x = p + 1 + int i \<and> i < length lin \<and> global_lin h lin ! i = g)" for x
      by (subst ex_nat) (auto simp: global_lin_def el_def)
    then show ?thesis by auto
  qed
  then show ?case using s e push_at_set [of "jGid el" e2l _ "(lgid, p)"] by (auto simp: global_lin_def el_def)
qed (simp add: global_lin_def)

text \<open>The illegal next operations of a linearization.\<close>

definition illegal_of :: "jsElement list \<times> linearizationStep list \<Rightarrow> jsElement set" where
  "illegal_of hl = snd ` set (illegal_next (map Index (snd hl)) (fst hl))"

lemma push_all_set:
  assumes "\<forall>(i, el) \<in> set ps. jGid el < length xss"
  shows "length (fold (\<lambda>(index, el). push_at (jGid el) l) ps xss) = length xss \<and>
    (\<forall>g < length xss. set (fold (\<lambda>(index, el). push_at (jGid el) l) ps xss ! g) = set (xss ! g) \<union> (if g \<in> jGid ` snd ` set ps then {l} else {}))"
  using assms
proof (induction ps arbitrary: xss)
  case (Cons p ps)
  obtain i el where p: "p = (i, el)" by (cases p)
  have "jGid el < length xss" "\<forall>(i, el) \<in> set ps. jGid el < length (push_at (jGid el) l xss)" using Cons.prems p by auto
  with Cons.IH [of "push_at (jGid el) l xss"] Cons.prems show ?case using p push_at_set [of "jGid el" xss _ l] by auto
qed simp

definition index_ok :: "nat \<Rightarrow> (jsElement list \<times> linearizationStep list) list \<Rightarrow> lin_index \<Rightarrow> bool" where
  "index_ok N ls ix \<longleftrightarrow> length (toLin ix) = N \<and> length (illLast ix) = N \<and> allLin ix = map (\<lambda>(h, lin). global_lin h lin) ls \<and>
     (\<forall>g < N. set (toLin ix ! g) = {(l, int k) |l k. l < length ls \<and> k < length (allLin ix ! l) \<and> allLin ix ! l ! k = g}) \<and>
     (\<forall>g < N. set (illLast ix ! g) = {l. l < length ls \<and> g \<in> jGid ` illegal_of (ls ! l)})"

lemma illegal_next_in: "(i, el) \<in> set (illegal_next q h) \<Longrightarrow> el \<in> set h"
  by (auto simp: illegal_next_def dest: set_zip_rightD)

lemma add_linearization_ok:
  assumes ok: "index_ok N ls ix" and "steps_in h lin" and h: "\<forall>el \<in> set h. jGid el < N"
  shows "\<exists>ix'. add_linearization h lin ix = Inr ix' \<and> index_ok N (ls @ [(h, lin)]) ix'"
proof -
  note ix = ok [unfolded index_ok_def]
  have len: "length (allLin ix) = length ls" and N: "length (illLast ix) = N" using ix by simp_all
  obtain e2l' where e: "add_points h (length ls) 0 lin [] (toLin ix) = Inr (global_lin h lin, e2l')" "length e2l' = N"
    "\<forall>g < N. set (e2l' ! g) = set (toLin ix ! g) \<union> {(length ls, int i) |i. i < length lin \<and> global_lin h lin ! i = g}"
    using add_points_ok [OF assms(2), of "toLin ix" "length ls" 0 "[]"] ix h by auto
  let ?ill = "fold (\<lambda>(index, el). push_at (jGid el) (length ls)) (illegal_next (map Index lin) h) (illLast ix)"
  have il: "\<forall>(i, el) \<in> set (illegal_next (map Index lin) h). jGid el < length (illLast ix)"
  proof (rule ballI, rule case_prodI2)
    fix p i el assume "p \<in> set (illegal_next (map Index lin) h)" "p = (i, el)"
    then have "el \<in> set h" using illegal_next_in by blast
    then show "jGid el < length (illLast ix)" using h N by simp
  qed
  have i: "length ?ill = N" "\<forall>g < N. set (?ill ! g) = set (illLast ix ! g) \<union> (if g \<in> jGid ` illegal_of (h, lin) then {length ls} else {})"
    using push_all_set [OF il, of "length ls"] unfolding N illegal_of_def snd_conv fst_conv by blast+
  let ?ix = "\<lparr>toLin = e2l', illLast = ?ill, allLin = allLin ix @ [global_lin h lin]\<rparr>"
  have "add_linearization h lin ix = Inr ?ix" using e(1) len by (simp add: add_linearization_def Let_def)
  moreover have "index_ok N (ls @ [(h, lin)]) ?ix"
    unfolding index_ok_def
  proof (intro conjI allI impI)
    fix g assume g: "g < N"
    have "{(l, int k) |l k. l < length (ls @ [(h, lin)]) \<and> k < length (allLin ?ix ! l) \<and> allLin ?ix ! l ! k = g} =
      {(l, int k) |l k. l < length ls \<and> k < length (allLin ix ! l) \<and> allLin ix ! l ! k = g} \<union> {(length ls, int k) |k. k < length lin \<and> global_lin h lin ! k = g}"
      using len by (auto simp: nth_append less_Suc_eq global_lin_def)
    then show "set (toLin ?ix ! g) = {(l, int k) |l k. l < length (ls @ [(h, lin)]) \<and> k < length (allLin ?ix ! l) \<and> allLin ?ix ! l ! k = g}"
      using e(3) g ix by simp
    show "set (illLast ?ix ! g) = {l. l < length (ls @ [(h, lin)]) \<and> g \<in> jGid ` illegal_of ((ls @ [(h, lin)]) ! l)}"
      using i(2) g ix by (auto simp: nth_append less_Suc_eq)
  qed (use e(2) i(1) ix in simp_all)
  ultimately show ?thesis by blast
qed

lemma index_linearizations_ok:
  assumes "\<forall>(h, lin) \<in> set (lin_list data). steps_in h lin" and num: "numbered data"
  shows "\<exists>ix. index_linearizations data = Inr ix \<and> index_ok (length (elements data)) (lin_list data) ix"
proof -
  let ?N = "length (elements data)"
  let ?ix0 = "\<lparr>toLin = replicate ?N [], illLast = replicate ?N [], allLin = []\<rparr>"
  have "\<exists>ix. fold_res (\<lambda>(h, lin). add_linearization h lin) ls ?ix0 = Inr ix \<and> index_ok ?N ls ix" if "set ls \<subseteq> set (lin_list data)" for ls
    using that
  proof (induction ls rule: rev_induct)
    case Nil
    then show ?case by (simp add: index_ok_def)
  next
    case (snoc hl ls)
    obtain h lin where hl: "hl = (h, lin)" by (cases hl)
    obtain ix where ix: "fold_res (\<lambda>(h, lin). add_linearization h lin) ls ?ix0 = Inr ix" "index_ok ?N ls ix" using snoc by auto
    have "set h \<subseteq> set (elements data)" using snoc.prems hl by (auto simp: lin_list_def elements_def)
    then have "\<forall>el \<in> set h. jGid el < ?N" using numbered_el(1) [OF num] by blast
    moreover have "steps_in h lin" using assms(1) snoc.prems hl by auto
    ultimately show ?case using add_linearization_ok [OF ix(2)] ix(1) hl by (simp add: fold_res_snoc)
  qed
  then show ?thesis unfolding index_linearizations_list by blast
qed

subsection \<open>Data that can be drawn\<close>

text \<open>
  A linearization of operations of \<open>h\<close>: no operation ends before one that comes earlier starts, and no
  operation that is left out ends before one that is in starts; and it is not empty.
\<close>

definition timed_lin :: "jsElement list \<Rightarrow> int list \<Rightarrow> bool" where
  "timed_lin h q \<longleftrightarrow> (\<forall>i \<in> set q. 0 \<le> i \<and> nat i < length h) \<and> (q = [] \<longrightarrow> h = []) \<and>
     sorted_wrt (\<lambda>i j. jStart (h ! nat i) \<le> jEnd (h ! nat j)) q \<and>
     (\<forall>i \<in> set q. \<forall>j < length h. int j \<notin> set q \<longrightarrow> jStart (h ! nat i) \<le> jEnd (h ! j))"

definition drawable :: "jsPartition list \<Rightarrow> bool" where
  "drawable data \<longleftrightarrow> (\<forall>el \<in> set (elements data). jStart el < jEnd el) \<and> (\<forall>(h, lin) \<in> set (lin_list data). timed_lin h (map Index lin))"

lemma sorted_wrt_in_cong:
  "(\<And>x y. x \<in> set xs \<Longrightarrow> y \<in> set xs \<Longrightarrow> P x y = Q x y) \<Longrightarrow> sorted_wrt P xs = sorted_wrt Q xs"
  by (induction xs) auto

lemma timed_lin_gid: "timed_lin (gid_elements g h) q = timed_lin h q"
proof (cases "\<forall>i \<in> set q. 0 \<le> i \<and> nat i < length h")
  case True
  have "sorted_wrt (\<lambda>i j. jStart (gid_elements g h ! nat i) \<le> jEnd (gid_elements g h ! nat j)) q = sorted_wrt (\<lambda>i j. jStart (h ! nat i) \<le> jEnd (h ! nat j)) q"
    by (rule sorted_wrt_in_cong) (use True in \<open>simp add: gid_elements_nth\<close>)
  moreover have "gid_elements g h = [] \<longleftrightarrow> h = []" by (cases h) simp_all
  ultimately show ?thesis using True by (simp add: timed_lin_def gid_elements_nth)
next
  case False
  then show ?thesis by (simp only: timed_lin_def gid_elements_length simp_thms)
qed

lemma lin_list_ball: "(\<forall>(h, lin) \<in> set (lin_list data). P h lin) \<longleftrightarrow> (\<forall>pt \<in> set data. \<forall>lin \<in> set (jPartials pt). P (jHistory pt) lin)"
  by (auto simp: lin_list_def)

lemma drawable_gid: "drawable (gid_data g data) = drawable data"
proof -
  have "(\<forall>el \<in> set (gid_elements g es). jStart el < jEnd el) \<longleftrightarrow> (\<forall>el \<in> set es. jStart el < jEnd el)" for es
    by (induction es arbitrary: g) auto
  moreover have "(\<forall>(h, lin) \<in> set (lin_list (gid_data g data)). timed_lin h (map Index lin)) \<longleftrightarrow> (\<forall>(h, lin) \<in> set (lin_list data). timed_lin h (map Index lin))"
    unfolding lin_list_ball by (induction data arbitrary: g) (simp_all add: timed_lin_gid)
  ultimately show ?thesis by (simp add: drawable_def elements_gid)
qed

lemma lin_list_tweak: "lin_list (tweak_data data) = map (\<lambda>(h, lin). (map (tweak (startTimestamps data) (nextTs (sort (allTimestamps data)))) h, lin)) (lin_list data)"
  by (simp add: lin_list_def tweak_data_def Let_def map_concat comp_def)

lemma lin_list_elements: "(h, lin) \<in> set (lin_list data) \<Longrightarrow> set h \<subseteq> set (elements data)"
  by (auto simp: lin_list_def elements_def)

text \<open>After the change the comparisons are strict.\<close>

lemma tweaked_el:
  assumes "drawable data" and "el \<in> set (elements (tweak_data data))"
  shows "jStart el < jEnd el"
  using assms tweak_order [of _ data] by (fastforce simp: elements_tweak drawable_def)

lemma tweaked_lin:
  assumes d: "drawable data" and hl: "(h, lin) \<in> set (lin_list (tweak_data data))"
  shows "steps_in h lin" "lin = [] \<Longrightarrow> h = []"
    "i \<le> k \<Longrightarrow> k < length lin \<Longrightarrow> jStart (h ! nat (Index (lin ! i))) < jEnd (h ! nat (Index (lin ! k)))"
    "i < length lin \<Longrightarrow> el \<in> illegal_of (h, lin) \<Longrightarrow> jStart (h ! nat (Index (lin ! i))) < jEnd el"
proof -
  let ?tw = "tweak (startTimestamps data) (nextTs (sort (allTimestamps data)))"
  obtain h0 where h0: "h = map ?tw h0" "(h0, lin) \<in> set (lin_list data)" using hl by (auto simp: lin_list_tweak)
  have t: "timed_lin h0 (map Index lin)" and pos: "\<forall>el \<in> set (elements data). jStart el < jEnd el"
    using d h0(2) by (auto simp: drawable_def)
  have st: "steps_in h0 lin" using t by (auto simp: timed_lin_def steps_in_def)
  then show "steps_in h lin" by (simp add: steps_in_def h0(1))
  show "h = []" if "lin = []" using t that h0(1) by (simp add: timed_lin_def)
  have ord: "jStart (h ! a) < jEnd (h ! b) \<longleftrightarrow> jStart (h0 ! a) \<le> jEnd (h0 ! b)" if "a < length h0" "b < length h0" for a b
  proof -
    have "h0 ! a \<in> set (elements data)" "h0 ! b \<in> set (elements data)" using lin_list_elements [OF h0(2)] that nth_mem by blast+
    from tweak_order [OF this pos] show ?thesis using that by (simp add: h0(1))
  qed
  have at: "nat (Index (lin ! i)) < length h0" if "i < length lin" for i using st that by (simp add: steps_in_def)
  show "jStart (h ! nat (Index (lin ! i))) < jEnd (h ! nat (Index (lin ! k)))" if ik: "i \<le> k" "k < length lin"
  proof (cases "i = k")
    case True
    have "h0 ! nat (Index (lin ! k)) \<in> set (elements data)" using lin_list_elements [OF h0(2)] at [OF ik(2)] by auto
    then show ?thesis using ord [OF at at] ik pos True by fastforce
  next
    case False
    then have "jStart (h0 ! nat (Index (lin ! i))) \<le> jEnd (h0 ! nat (Index (lin ! k)))"
      using t ik sorted_wrt_nth_less [of "\<lambda>i j. jStart (h0 ! nat i) \<le> jEnd (h0 ! nat j)" "map Index lin" i k] by (simp add: timed_lin_def)
    then show ?thesis using ord [OF at at] ik by simp
  qed
  show "jStart (h ! nat (Index (lin ! i))) < jEnd el" if i: "i < length lin" "el \<in> illegal_of (h, lin)"
  proof -
    obtain j where j: "j < length h" "el = h ! j" "int j \<notin> set (map Index lin)"
      using i(2) by (auto simp: illegal_of_def illegal_next_def set_zip)
    moreover have "Index (lin ! i) \<in> set (map Index lin)" using i(1) by simp
    ultimately have "jStart (h0 ! nat (Index (lin ! i))) \<le> jEnd (h0 ! j)" using t h0(1) unfolding timed_lin_def by (metis length_map)
    then show ?thesis using ord [OF at [OF i(1)]] j h0(1) by simp
  qed
qed

subsection \<open>The constraints on the data\<close>

definition lin_starts :: "jsElement list \<Rightarrow> linearizationStep list \<Rightarrow> rat list" where
  "lin_starts h lin = map (\<lambda>s. jStart (h ! nat (Index s))) lin"

text \<open>
  A warp of time: positions start at 0 and unequal timestamps keep a distance; the box of every
  operation is wide enough for its text; every point of a linearization lies before the end of the box
  of its operation, and so does the point of an operation that may come next after all of them.
\<close>

definition page_warp :: "(string \<Rightarrow> rat) \<Rightarrow> jsPartition list \<Rightarrow> rat list \<Rightarrow> (rat \<Rightarrow> rat) \<Rightarrow> bool" where
  "page_warp text_width data ts X \<longleftrightarrow>
     (ts \<noteq> [] \<longrightarrow> 0 \<le> X (hd ts)) \<and>
     (\<forall>i. Suc i < length ts \<longrightarrow> X (ts ! i) + BOX_GAP \<le> X (ts ! Suc i)) \<and>
     (\<forall>el \<in> set (elements data). X (jStart el) + (text_width (jDescription el) + 2 * BOX_TEXT_PADDING) \<le> X (jEnd el)) \<and>
     (\<forall>(h, lin) \<in> set (lin_list data).
        (\<forall>k < length lin. lpoint X (lin_starts h lin) k \<le> X (jEnd (h ! nat (Index (lin ! k))))) \<and>
        (\<forall>el \<in> illegal_of (h, lin). lpoint X (lin_starts h lin) (length lin - 1) + EPSILON \<le> X (jEnd el)))"

definition event_of :: "(string \<Rightarrow> rat) \<Rightarrow> jsElement \<Rightarrow> box_event" where
  "event_of text_width el = \<lparr>b_start = jStart el, b_end = jEnd el, b_width = text_width (jDescription el) + 2 * BOX_TEXT_PADDING, b_gid = jGid el\<rparr>"

lemma set_byEnd: "set (byEnd text_width data) = event_of text_width ` set (elements data)"
  by (simp add: byEnd_def event_of_def)

lemma global_starts:
  assumes "numbered data" and "(h, lin) \<in> set (lin_list data)" and "steps_in h lin"
  shows "map (\<lambda>gid. jStart (elements data ! gid)) (global_lin h lin) = lin_starts h lin"
proof -
  have "elements data ! jGid (h ! nat (Index s)) = h ! nat (Index s)" if "s \<in> set lin" for s
    using numbered_el(2) [OF assms(1)] lin_list_elements [OF assms(2)] assms(3) that nth_mem by (fastforce simp: steps_in_def)
  then show ?thesis by (simp add: global_lin_def lin_starts_def)
qed

lemma numbered_inj: "numbered data \<Longrightarrow> a \<in> set (elements data) \<Longrightarrow> b \<in> set (elements data) \<Longrightarrow> jGid a = jGid b \<Longrightarrow> a = b"
  using numbered_el(2) by metis

lemma ball_int_pairs: "(\<forall>(l, k) \<in> {(l, int k) |l k. P l k}. Q l (nat k)) \<longleftrightarrow> (\<forall>l k. P l k \<longrightarrow> Q l k)"
proof
  assume *: "\<forall>(l, k) \<in> {(l, int k) |l k. P l k}. Q l (nat k)"
  show "\<forall>l k. P l k \<longrightarrow> Q l k"
  proof (intro allI impI)
    fix l k assume "P l k"
    then have "(l, int k) \<in> {(l, int k) |l k. P l k}" by blast
    then show "Q l k" using * by fastforce
  qed
qed auto

text \<open>The constraints by operation, as the scan meets them, are those by linearization.\<close>

lemma fits_page:
  assumes num: "numbered data" and ix: "index_ok (length (elements data)) (lin_list data) ix"
    and st: "\<forall>(h, lin) \<in> set (lin_list data). steps_in h lin" and el: "el \<in> set (elements data)"
  shows "fits (\<lambda>gid. jStart (elements data ! gid)) ix X (event_of w el) B \<longleftrightarrow>
    X (jStart el) + (w (jDescription el) + 2 * BOX_TEXT_PADDING) \<le> B \<and>
    (\<forall>(h, lin) \<in> set (lin_list data). (\<forall>k < length lin. h ! nat (Index (lin ! k)) = el \<longrightarrow> lpoint X (lin_starts h lin) k \<le> B) \<and>
       (el \<in> illegal_of (h, lin) \<longrightarrow> lpoint X (lin_starts h lin) (length lin - 1) + EPSILON \<le> B))"
proof -
  let ?S = "\<lambda>gid. jStart (elements data ! gid)" and ?ls = "lin_list data"
  note ixd = ix [unfolded index_ok_def]
  have g: "jGid el < length (elements data)" by (rule numbered_el(1) [OF num el])
  have gl: "allLin ix ! l = global_lin (fst (?ls ! l)) (snd (?ls ! l))" "starts_of ?S ix l = lin_starts (fst (?ls ! l)) (snd (?ls ! l))"
    "length (allLin ix ! l) = length (snd (?ls ! l))" if "l < length ?ls" for l
  proof -
    have m: "(fst (?ls ! l), snd (?ls ! l)) \<in> set ?ls" using that by simp
    show a: "allLin ix ! l = global_lin (fst (?ls ! l)) (snd (?ls ! l))" using ixd that by (simp add: case_prod_beta)
    show "starts_of ?S ix l = lin_starts (fst (?ls ! l)) (snd (?ls ! l))"
      unfolding starts_of_def a using global_starts [OF num m] st m by blast
    show "length (allLin ix ! l) = length (snd (?ls ! l))" by (simp add: a global_lin_def)
  qed
  have same: "allLin ix ! l ! k = jGid el \<longleftrightarrow> fst (?ls ! l) ! nat (Index (snd (?ls ! l) ! k)) = el" if "l < length ?ls" "k < length (snd (?ls ! l))" for l k
  proof -
    have m: "(fst (?ls ! l), snd (?ls ! l)) \<in> set ?ls" using that(1) by simp
    then have s: "steps_in (fst (?ls ! l)) (snd (?ls ! l))" using st by blast
    then have "fst (?ls ! l) ! nat (Index (snd (?ls ! l) ! k)) \<in> set (elements data)"
      using lin_list_elements [OF m] that(2) by (auto simp: steps_in_def)
    moreover have "allLin ix ! l ! k = jGid (fst (?ls ! l) ! nat (Index (snd (?ls ! l) ! k)))" using gl(1) [OF that(1)] that(2) by (simp add: global_lin_def)
    ultimately show ?thesis using numbered_inj [OF num _ el] by auto
  qed
  have ill: "jGid el \<in> jGid ` illegal_of (?ls ! l) \<longleftrightarrow> el \<in> illegal_of (?ls ! l)" if "l < length ?ls" for l
  proof -
    have m: "(fst (?ls ! l), snd (?ls ! l)) \<in> set ?ls" using that by simp
    have "illegal_of (?ls ! l) \<subseteq> set (elements data)" using illegal_next_in lin_list_elements [OF m] by (fastforce simp: illegal_of_def)
    then show ?thesis using numbered_inj [OF num _ el] by auto
  qed
  have toL: "set (toLin ix ! jGid el) = {(l, int k) |l k. l < length ?ls \<and> k < length (allLin ix ! l) \<and> allLin ix ! l ! k = jGid el}"
    and ilL: "set (illLast ix ! jGid el) = {l. l < length ?ls \<and> jGid el \<in> jGid ` illegal_of (?ls ! l)}" using ixd g by simp_all
  have "(\<forall>(l, k) \<in> set (toLin ix ! jGid el). lpoint X (starts_of ?S ix l) (nat k) \<le> B) \<longleftrightarrow>
    (\<forall>l. l < length ?ls \<longrightarrow> (\<forall>k. k < length (allLin ix ! l) \<longrightarrow> allLin ix ! l ! k = jGid el \<longrightarrow> lpoint X (starts_of ?S ix l) k \<le> B))"
    unfolding toL by (subst ball_int_pairs [where Q = "\<lambda>l k. lpoint X (starts_of ?S ix l) k \<le> B"]) auto
  also have "\<dots> \<longleftrightarrow> (\<forall>l. l < length ?ls \<longrightarrow> (\<forall>k. k < length (snd (?ls ! l)) \<longrightarrow> fst (?ls ! l) ! nat (Index (snd (?ls ! l) ! k)) = el \<longrightarrow>
      lpoint X (lin_starts (fst (?ls ! l)) (snd (?ls ! l))) k \<le> B))"
    by (intro iff_allI imp_cong refl) (simp_all add: gl(2,3) same)
  finally have 1: "(\<forall>(l, k) \<in> set (toLin ix ! jGid el). lpoint X (starts_of ?S ix l) (nat k) \<le> B) \<longleftrightarrow> \<dots>" .
  have "(\<forall>l \<in> set (illLast ix ! jGid el). lpoint X (starts_of ?S ix l) (length (allLin ix ! l) - 1) + EPSILON \<le> B) \<longleftrightarrow>
    (\<forall>l. l < length ?ls \<longrightarrow> jGid el \<in> jGid ` illegal_of (?ls ! l) \<longrightarrow> lpoint X (starts_of ?S ix l) (length (allLin ix ! l) - 1) + EPSILON \<le> B)"
    unfolding ilL by auto
  also have "\<dots> \<longleftrightarrow> (\<forall>l. l < length ?ls \<longrightarrow> el \<in> illegal_of (?ls ! l) \<longrightarrow>
      lpoint X (lin_starts (fst (?ls ! l)) (snd (?ls ! l))) (length (snd (?ls ! l)) - 1) + EPSILON \<le> B)"
    by (intro iff_allI imp_cong refl) (simp_all only: gl(2,3) ill)
  finally have 2: "(\<forall>l \<in> set (illLast ix ! jGid el). lpoint X (starts_of ?S ix l) (length (allLin ix ! l) - 1) + EPSILON \<le> B) \<longleftrightarrow> \<dots>" .
  have e: "b_gid (event_of w el) = jGid el" "b_start (event_of w el) = jStart el" "b_width (event_of w el) = w (jDescription el) + 2 * BOX_TEXT_PADDING"
    by (simp_all add: event_of_def)
  have 3: "(\<forall>(h, lin) \<in> set ?ls. P h lin) \<longleftrightarrow> (\<forall>l < length ?ls. P (fst (?ls ! l)) (snd (?ls ! l)))" for P
    by (simp add: all_set_conv_all_nth case_prod_beta)
  show ?thesis unfolding fits_def e 1 2 3 prod.collapse by blast
qed

lemma warp_page:
  assumes num: "numbered data" and ix: "index_ok (length (elements data)) (lin_list data) ix"
    and st: "\<forall>(h, lin) \<in> set (lin_list data). steps_in h lin"
  shows "warp (\<lambda>gid. jStart (elements data ! gid)) ix (byEnd w data) ts X = page_warp w data ts X"
proof -
  have in_el: "h ! nat (Index (lin ! k)) \<in> set (elements data)" if "(h, lin) \<in> set (lin_list data)" "k < length lin" for h lin k
  proof -
    have "nat (Index (lin ! k)) < length h" using st that by (auto simp: steps_in_def)
    then show ?thesis using lin_list_elements [OF that(1)] by auto
  qed
  have ill: "el \<in> set (elements data)" if "(h, lin) \<in> set (lin_list data)" "el \<in> illegal_of (h, lin)" for h lin el
    using illegal_next_in lin_list_elements [OF that(1)] that(2) by (fastforce simp: illegal_of_def)
  let ?lins = "\<lambda>el h lin. (\<forall>k < length lin. h ! nat (Index (lin ! k)) = el \<longrightarrow> lpoint X (lin_starts h lin) k \<le> X (jEnd el)) \<and>
       (el \<in> illegal_of (h, lin) \<longrightarrow> lpoint X (lin_starts h lin) (length lin - 1) + EPSILON \<le> X (jEnd el))"
  have b: "b_end (event_of w el) = jEnd el" for el by (simp add: event_of_def)
  have "(\<forall>e \<in> set (byEnd w data). fits (\<lambda>gid. jStart (elements data ! gid)) ix X e (X (b_end e))) \<longleftrightarrow>
    (\<forall>el \<in> set (elements data). fits (\<lambda>gid. jStart (elements data ! gid)) ix X (event_of w el) (X (jEnd el)))"
    unfolding set_byEnd ball_simps(9) b ..
  also have "\<dots> \<longleftrightarrow> (\<forall>el \<in> set (elements data). X (jStart el) + (w (jDescription el) + 2 * BOX_TEXT_PADDING) \<le> X (jEnd el) \<and>
      (\<forall>(h, lin) \<in> set (lin_list data). ?lins el h lin))"
    by (rule ball_cong [OF refl]) (rule fits_page [OF assms])
  also have "\<dots> \<longleftrightarrow> (\<forall>el \<in> set (elements data). X (jStart el) + (w (jDescription el) + 2 * BOX_TEXT_PADDING) \<le> X (jEnd el)) \<and>
      (\<forall>(h, lin) \<in> set (lin_list data). \<forall>el \<in> set (elements data). ?lins el h lin)"
    by blast
  also have "(\<forall>(h, lin) \<in> set (lin_list data). \<forall>el \<in> set (elements data). ?lins el h lin) \<longleftrightarrow>
    (\<forall>(h, lin) \<in> set (lin_list data).
        (\<forall>k < length lin. lpoint X (lin_starts h lin) k \<le> X (jEnd (h ! nat (Index (lin ! k))))) \<and>
        (\<forall>el \<in> illegal_of (h, lin). lpoint X (lin_starts h lin) (length lin - 1) + EPSILON \<le> X (jEnd el)))"
    using in_el ill by (intro ball_cong refl) (auto split: prod.splits)
  finally show ?thesis unfolding warp_def page_warp_def by blast
qed

subsection \<open>The layout\<close>

lemma layout_timely:
  assumes d: "drawable data1" and num: "numbered (tweak_data data1)" and ix: "index_ok (length (elements (tweak_data data1))) (lin_list (tweak_data data1)) ix"
    and el: "el \<in> set (elements (tweak_data data1))"
  shows "timely (\<lambda>gid. jStart (elements (tweak_data data1) ! gid)) ix (set (sortedTimestamps data1)) (event_of w el)"
proof -
  let ?d = "tweak_data data1" and ?S = "\<lambda>gid. jStart (elements (tweak_data data1) ! gid)" and ?ls = "lin_list (tweak_data data1)"
  note ixd = ix [unfolded index_ok_def]
  have starts: "jStart a \<in> set (sortedTimestamps data1)" if "a \<in> set (elements ?d)" for a
    using that by (auto simp: sortedTimestamps_def allTimestamps_set elements_tweak)
  have g: "jGid el < length (elements ?d)" by (rule numbered_el(1) [OF num el])
  have toL: "set (toLin ix ! jGid el) = {(l, int k) |l k. l < length ?ls \<and> k < length (allLin ix ! l) \<and> allLin ix ! l ! k = jGid el}"
    and ilL: "set (illLast ix ! jGid el) = {l. l < length ?ls \<and> jGid el \<in> jGid ` illegal_of (?ls ! l)}" using ixd g by simp_all
  have al: "\<exists>h lin. (h, lin) \<in> set ?ls \<and> ?ls ! l = (h, lin) \<and> allLin ix ! l = global_lin h lin \<and> l < length (allLin ix)" if "l < length ?ls" for l
  proof -
    obtain h lin where h: "?ls ! l = (h, lin)" by (cases "?ls ! l")
    have "allLin ix = map (\<lambda>(h, lin). global_lin h lin) ?ls" using ixd by blast
    then show ?thesis using that h nth_mem [OF that] by simp
  qed
  have gs: "?S (global_lin h lin ! i) = jStart (h ! nat (Index (lin ! i)))" "?S (global_lin h lin ! i) \<in> set (sortedTimestamps data1)"
      "h ! nat (Index (lin ! i)) \<in> set (elements ?d)" if "(h, lin) \<in> set ?ls" "i < length lin" for h lin i
  proof -
    have "nat (Index (lin ! i)) < length h" using tweaked_lin(1) [OF d that(1)] that(2) by (simp add: steps_in_def)
    then show m: "h ! nat (Index (lin ! i)) \<in> set (elements ?d)" using lin_list_elements [OF that(1)] by auto
    then show s: "?S (global_lin h lin ! i) = jStart (h ! nat (Index (lin ! i)))" using numbered_el(2) [OF num] that(2) by (simp add: global_lin_def)
    show "?S (global_lin h lin ! i) \<in> set (sortedTimestamps data1)" unfolding s by (rule starts [OF m])
  qed
  have 1: "starts_placed ?S ix {t \<in> set (sortedTimestamps data1). t < jEnd el} (l, int k)" if lk: "l < length ?ls" "k < length (allLin ix ! l)" "allLin ix ! l ! k = jGid el" for l k
  proof -
    obtain h lin where h: "(h, lin) \<in> set ?ls" "allLin ix ! l = global_lin h lin" "l < length (allLin ix)" using al [OF lk(1)] by blast
    have k: "k < length lin" using lk(2) h(2) by (simp add: global_lin_def)
    have "jGid (h ! nat (Index (lin ! k))) = jGid el" using lk(3) h(2) k by (simp add: global_lin_def)
    then have e: "h ! nat (Index (lin ! k)) = el" using numbered_inj [OF num gs(3) [OF h(1) k] el] by simp
    have "?S (global_lin h lin ! i) \<in> {t \<in> set (sortedTimestamps data1). t < jEnd el}" if "i \<le> k" for i
      using gs [OF h(1), of i] tweaked_lin(3) [OF d h(1) that k] that k by (simp add: e)
    then show ?thesis using h lk(2) by (simp add: starts_placed_def)
  qed
  have 2: "starts_placed ?S ix {t \<in> set (sortedTimestamps data1). t < jEnd el} (l, go_len (allLin ix ! l) - 1)" if l: "l < length ?ls" "jGid el \<in> jGid ` illegal_of (?ls ! l)" for l
  proof -
    obtain h lin where h: "(h, lin) \<in> set ?ls" "?ls ! l = (h, lin)" "allLin ix ! l = global_lin h lin" "l < length (allLin ix)" using al [OF l(1)] by blast
    obtain el' where el': "el' \<in> illegal_of (h, lin)" "jGid el' = jGid el" using l(2) h(2) by auto
    have m: "el' \<in> set h" using illegal_next_in el'(1) by (fastforce simp: illegal_of_def)
    then have e: "el' = el" using numbered_inj [OF num _ el] lin_list_elements [OF h(1)] el'(2) by blast
    have "lin \<noteq> []" using tweaked_lin(2) [OF d h(1)] m by auto
    moreover have "?S (global_lin h lin ! i) \<in> {t \<in> set (sortedTimestamps data1). t < jEnd el}" if "i < length lin" for i
      using gs [OF h(1) that] tweaked_lin(4) [OF d h(1) that, of el] el'(1) e by simp
    moreover have "length (global_lin h lin) = length lin" by (simp add: global_lin_def)
    moreover have "nat (int (length lin) - 1) = length lin - 1" by simp
    moreover have "i < length lin" if "i \<le> length lin - 1" for i using \<open>lin \<noteq> []\<close> that by (cases lin) auto
    ultimately show ?thesis using h(4) unfolding starts_placed_def go_len_def h(3) fst_conv snd_conv by (auto simp: Suc_le_eq)
  qed
  show ?thesis using starts [OF el] tweaked_el [OF d el] 1 2
    unfolding timely_def event_ready_def event_of_def by (auto simp: toL ilL)
qed

lemma sortedTimestamps_strict: "sorted_wrt (<) (sortedTimestamps data)"
  unfolding sortedTimestamps_def by (rule sorted_timestamps)

lemma sortedTimestamps_set: "set (sortedTimestamps data) = set (allTimestamps data) \<union> jEnd ` set (elements (tweak_data data))"
  by (simp add: sortedTimestamps_def)

lemma warp_cong:
  assumes "warp S ix ev ts X" and "\<And>t. t \<in> set ts \<Longrightarrow> Y t = X t" and "\<And>e. e \<in> set ev \<Longrightarrow> timely S ix (set ts) e \<and> b_end e \<in> set ts"
  shows "warp S ix ev ts Y"
proof -
  have "fits S ix Y e (Y (b_end e))" if "e \<in> set ev" for e
  proof -
    have "event_ready S ix (set ts) e" using assms(3) [OF that] event_ready_mono unfolding timely_def by blast
    then show ?thesis using fits_cong [of S ix "set ts" e Y X] assms that by (simp add: warp_def)
  qed
  then show ?thesis using assms(1,2) by (simp add: warp_def)
qed

definition x_at :: "page_layout \<Rightarrow> rat \<Rightarrow> rat" where
  "x_at lay t = the (l_xPos lay (Some t))"

lemma layout_ok:
  assumes "drawable data0"
  shows "\<exists>lay. layout w data0 = Inr lay \<and> l_data lay = tweak_data (gid_data 0 data0) \<and> l_times lay = sortedTimestamps (gid_data 0 data0) \<and>
    (\<forall>t \<in> set (l_times lay). l_xPos lay (Some t) \<noteq> None) \<and> page_warp w (l_data lay) (l_times lay) (x_at lay) \<and>
    (\<forall>Y. page_warp w (l_data lay) (l_times lay) Y \<longrightarrow> (\<forall>t \<in> set (l_times lay). x_at lay t \<le> Y t))"
proof -
  define data1 where "data1 = gid_data 0 data0"
  let ?d = "tweak_data data1" and ?S = "\<lambda>gid. jStart (elements (tweak_data data1) ! gid)" and ?ev = "byEnd w (tweak_data data1)"
  have dr: "drawable data1" using assms by (simp add: data1_def drawable_gid)
  have num: "numbered ?d" unfolding data1_def by (rule numbered_layout)
  have st: "\<forall>(h, lin) \<in> set (lin_list ?d). steps_in h lin" using tweaked_lin(1) [OF dr] by blast
  obtain ix where ix: "index_linearizations ?d = Inr ix" "index_ok (length (elements ?d)) (lin_list ?d) ix"
    using index_linearizations_ok [OF st num] by blast
  note wp = warp_page [OF num ix(2) st]
  have tm: "timely ?S ix (set (sortedTimestamps data1)) e" if "e \<in> set ?ev" for e
    using layout_timely [OF dr num ix(2)] that by (auto simp: set_byEnd)
  show ?thesis
  proof (cases "sortedTimestamps data1")
    case Nil
    then have "elements ?d = []" using sortedTimestamps_set [of data1] by (auto simp: elements_tweak)
    then have "?ev = []" by (simp add: byEnd_def)
    then have "warp ?S ix ?ev [] X" for X by (simp add: warp_def)
    then show ?thesis using ix(1) Nil wp by (simp add: layout_def Let_def data1_def)
  next
    case (Cons t0 tss)
    note strict = sortedTimestamps_strict [of data1, unfolded Cons]
    have ends: "b_end e \<in> set tss" if e: "e \<in> set ?ev" for e
    proof -
      obtain el where el: "el \<in> set (elements ?d)" "b_end e = jEnd el" using e by (auto simp: set_byEnd event_of_def)
      have "jStart el \<in> set (t0 # tss)" using el(1) sortedTimestamps_set [of data1] Cons by (auto simp: allTimestamps_set elements_tweak)
      then have "t0 \<le> jStart el" using strict by auto
      then have "t0 < jEnd el" using tweaked_el [OF dr el(1)] by simp
      moreover have "jEnd el \<in> set (t0 # tss)" using el(1) sortedTimestamps_set [of data1] unfolding Cons by blast
      ultimately show ?thesis using el(2) by auto
    qed
    let ?lps = "replicate (length (allLin ix)) []"
    have "\<exists>X lps'. scan ?S ix t0 tss ?ev (placed {t0} (\<lambda>_. 0)) ?lps = Inr (placed ({t0} \<union> set tss) X, lps') \<and> (\<forall>t \<in> {t0}. X t = 0) \<and>
      points_ok ?S ix ({t0} \<union> set tss) X lps' \<and> stepwise ?S ix X ?ev t0 tss"
    proof (rule scan_ok [OF strict])
      show "{t0} \<inter> set tss = {}" using strict by auto
      show "\<forall>e \<in> set ?ev. timely ?S ix ({t0} \<union> set tss) e \<and> t0 < b_end e" using tm ends strict Cons by auto
      show "sorted (map b_end ?ev)" by (simp add: byEnd_def)
      show "points_ok ?S ix {t0} (\<lambda>_. 0) ?lps" by (simp add: points_ok_def)
    qed simp_all
    then obtain X lps' where X: "scan ?S ix t0 tss ?ev (placed {t0} (\<lambda>_. 0)) ?lps = Inr (placed (set (t0 # tss)) X, lps')" "X t0 = 0" "stepwise ?S ix X ?ev t0 tss"
      by auto
    have p0: "placed {t0} (\<lambda>_. 0) = [Some t0 \<mapsto> 0]" by (auto simp: placed_def fun_eq_iff split: option.splits)
    let ?lay = "\<lparr>l_data = ?d, l_times = t0 # tss, l_index = ix, l_xPos = placed (set (t0 # tss)) X, l_points = lps'\<rparr>"
    have lay: "layout w data0 = Inr ?lay" using ix(1) X(1) Cons by (simp add: layout_def Let_def p0 flip: data1_def)
    have at: "x_at ?lay t = X t" if "t \<in> set (t0 # tss)" for t using that by (simp add: x_at_def placed_def)
    have wX: "warp ?S ix ?ev (t0 # tss) X" using stepwise_warp [OF X(3,2) strict] ends by blast
    have cong: "page_warp w ?d (t0 # tss) (x_at ?lay)"
      using wp warp_cong [OF wX, of "x_at ?lay"] at tm ends Cons by simp
    have "x_at ?lay t \<le> Y t" if Y: "page_warp w ?d (t0 # tss) Y" and t: "t \<in> set (t0 # tss)" for Y t
    proof -
      obtain i where i: "i < length (t0 # tss)" "t = (t0 # tss) ! i" using t by (metis in_set_conv_nth)
      show ?thesis using stepwise_least [OF X(3,2) strict _ _ i(1), of Y] tm ends Y wp i(2) at [OF t] Cons by auto
    qed
    then show ?thesis using lay cong Cons by (intro exI [of _ ?lay]) (simp add: data1_def placed_def)
  qed
qed

end
