(* ===== verification/Page_Check.thy ===== *)
theory Page_Check
  imports Page_Least
begin

section \<open>The page of a check is laid out\<close>

text \<open>
  What the checker hands to the page can be drawn: its operations end after they start and its partial
  linearizations keep the order of time. So the script of the page finds a layout for every check.
\<close>

lemma replay_Index: "map Index (replay md es s q) = q"
  by (induction q arbitrary: s) (simp_all add: Let_def)

lemma replay_nil [simp]: "replay md es s q = [] \<longleftrightarrow> q = []"
  by (cases q) (simp_all add: Let_def)

context time_sort
begin

text \<open>Positions in the entries and times.\<close>

lemma entries_time:
  assumes "p \<le> q" and "q < length (makeEntries srt ops)"
  shows "time (makeEntries srt ops ! p) \<le> time (makeEntries srt ops ! q)"
proof (cases "p = q")
  case False
  then have "p < q" using assms(1) by simp
  from srt_Less [OF this, of "make_loop ops 0"] show ?thesis
    using assms(2) by (simp add: makeEntries_def byTime_Less_def byTime_Len_def not_less)
qed simp

lemma partial_timed:
  assumes wf: "wf_hist (makeEntries srt ops) n" and pl: "partial_linearization md (makeEntries srt ops) n q"
  shows "timed_lin (map (js_element \<circ> element md (makeEntries srt ops)) [0..<n]) q"
proof -
  let ?es = "makeEntries srt ops" and ?h = "map (js_element \<circ> element md (makeEntries srt ops)) [0..<n]"
  obtain "is" where q: "q = map int is" "set is \<subseteq> {0..<n}" "real_time ?es is"
    "\<forall>i \<in> set is. \<forall>j < n. j \<notin> set is \<longrightarrow> \<not> rpos ?es j < cpos ?es i" "is = [] \<longrightarrow> n = 0"
    using pl by (auto simp: partial_linearization_def)
  have le: "jStart (?h ! i) \<le> jEnd (?h ! j)" if "i < n" "j < n" "\<not> rpos ?es j < cpos ?es i" for i j
    using entries_time [of "cpos ?es i" "rpos ?es j" ops] wf_histD(2) [OF wf that(2)] that by (simp add: js_element_def element_def)
  have "sorted_wrt (\<lambda>i j. jStart (?h ! i) \<le> jEnd (?h ! j)) is"
    by (rule sorted_wrt_mono_rel [OF _ q(3) [unfolded real_time_def]]) (rule le, use q(2) in auto)
  then have "sorted_wrt (\<lambda>i j. jStart (?h ! nat i) \<le> jEnd (?h ! nat j)) q" unfolding q(1) by (simp add: sorted_wrt_map)
  moreover have "jStart (?h ! nat i) \<le> jEnd (?h ! j)" if i: "i \<in> set q" "j < length ?h" "int j \<notin> set q" for i j
  proof -
    obtain k where k: "i = int k" "k \<in> set is" using i(1) q(1) by auto
    moreover have "j \<notin> set is" "j < n" using i q(1) by auto
    ultimately show ?thesis using le [of k j] q(2,4) by auto
  qed
  moreover have "\<forall>i \<in> set q. 0 \<le> i \<and> nat i < length ?h" using q(1,2) by auto
  moreover have "q = [] \<longrightarrow> ?h = []" using q(1,5) by simp
  ultimately show ?thesis unfolding timed_lin_def by blast
qed

end

lemma elements_ball: "(\<forall>el \<in> set (elements data). P el) \<longleftrightarrow> (\<forall>pt \<in> set data. \<forall>el \<in> set (jHistory pt). P el)"
  by (auto simp: elements_def)

lemma check_drawable:
  assumes srt: "time_sort srt" and ls: "length_sort lsrt"
    and subs: "\<forall>sub \<in> set subs. (\<forall>x \<in> set sub. Call x < Return x) \<and> length sub < 2 ^ 63"
    and info: "info_ok (fillDefault fmtv fmts md) (map (makeEntries srt) subs) lin"
  shows "drawable (map js_partition (shown srt lsrt fmtv fmts md subs lin))"
proof -
  let ?dm = "fillDefault fmtv fmts md"
  have wf: "wf_hist (makeEntries srt (subs ! p)) (length (subs ! p))" if "p < length subs" for p
    using time_sort.makeEntries_wf [OF srt, of "subs ! p"] subs nth_mem [OF that] by blast
  have el: "jStart (js_element (element ?dm (makeEntries srt (subs ! p)) i)) < jEnd (js_element (element ?dm (makeEntries srt (subs ! p)) i))"
    if "p < length subs" "i < length (subs ! p)" for p i
    using time_sort.makeEntries_at(2,4) [OF srt wf [OF that(1)] that(2)] subs nth_mem [OF that(1)] nth_mem [OF that(2)] by (simp add: js_element_def element_def)
  have lin: "timed_lin (map (js_element \<circ> element ?dm (makeEntries srt (subs ! p))) [0..<length (subs ! p)]) q"
    if "p < length subs" "q \<in> set (lsrt (partialLinearizations lin ! p))" for p q
  proof -
    have "q \<in> set (partialLinearizations lin ! p)" using that(2) length_sort.mset_srt [OF ls] by (metis set_mset_mset)
    then have "partial_linearization ?dm (makeEntries srt (subs ! p)) (length (subs ! p)) q"
      using info that(1) ops_of_makeEntries [OF srt] by (simp add: info_ok_def)
    then show ?thesis by (rule time_sort.partial_timed [OF srt wf [OF that(1)]])
  qed
  show ?thesis
    unfolding drawable_def elements_ball lin_list_ball
    using el lin by (auto simp: shown_def js_partition_def Let_def replay_Index comp_def)
qed

text \<open>
  What the page reads beside the layout: the partial linearizations stand in order of length, and
  \<open>Largest\<close> gives for each operation the first, so the longest, that has it.
\<close>

definition has_op :: "int \<Rightarrow> linearizationStep list \<Rightarrow> bool" where
  "has_op i lin \<longleftrightarrow> i \<in> Index ` set lin"

definition longest :: "(linearizationStep list \<Rightarrow> bool) \<Rightarrow> linearizationStep list list \<Rightarrow> nat \<Rightarrow> bool" where
  "longest P lins m \<longleftrightarrow> m < length lins \<and> P (lins ! m) \<and> (\<forall>k < length lins. P (lins ! k) \<longrightarrow> length (lins ! k) \<le> length (lins ! m))"

definition page_listed :: "jsPartition list \<Rightarrow> bool" where
  "page_listed data \<longleftrightarrow> (\<forall>pt \<in> set data. sorted_wrt (\<lambda>p q. length q \<le> length p) (jPartials pt) \<and>
     (\<forall>i. jLargest pt i = first_with (map (map Index) (jPartials pt)) i))"

lemma first_with_longest:
  assumes srt: "sorted_wrt (\<lambda>p q. length q \<le> length p) lins"
  shows "case first_with (map (map Index) lins) i of None \<Rightarrow> \<forall>lin \<in> set lins. \<not> has_op i lin | Some m \<Rightarrow> 0 \<le> m \<and> longest (has_op i) lins (nat m)"
proof -
  let ?f = "takeWhile (\<lambda>q. i \<notin> set q) (map (map Index) lins)"
  have has: "i \<in> set (map (map Index) lins ! k) \<longleftrightarrow> has_op i (lins ! k)" if "k < length lins" for k
    using that by (simp add: has_op_def)
  show ?thesis
  proof (cases "length ?f < length lins")
    case True
    have "has_op i (lins ! length ?f)" using nth_length_takeWhile [of "\<lambda>q. i \<notin> set q" "map (map Index) lins"] True has [OF True] by simp
    moreover have "length (lins ! k) \<le> length (lins ! length ?f)" if k: "k < length lins" "has_op i (lins ! k)" for k
    proof -
      have "\<not> k < length ?f"
      proof
        assume "k < length ?f"
        then have "i \<notin> set (map (map Index) lins ! k)" by (metis nth_mem set_takeWhileD takeWhile_nth)
        then show False using has [OF k(1)] k(2) by simp
      qed
      then show ?thesis using sorted_wrt_nth_less [OF srt, of "length ?f" k] k(1) by (cases "k = length ?f") simp_all
    qed
    ultimately show ?thesis using True by (simp add: first_with_def longest_def Let_def)
  next
    case False
    then have "?f = map (map Index) lins" by (metis length_map length_takeWhile_le le_antisym not_less takeWhile_eq_take take_all_iff)
    then have "\<forall>q \<in> set (map (map Index) lins). i \<notin> set q" by (simp only: takeWhile_eq_all_conv)
    then have "\<forall>lin \<in> set lins. \<not> has_op i lin" by (simp add: has_op_def)
    then show ?thesis using False by (simp add: first_with_def Let_def)
  qed
qed

lemma check_listed:
  assumes ls: "length_sort lsrt"
  shows "page_listed (map js_partition (shown srt lsrt fmtv fmts md subs lin))"
proof -
  have len: "length (replay dm es st q) = length q" for dm es st and q :: "int list" by (metis length_map replay_Index)
  have "sorted_wrt (\<lambda>p q. length q \<le> length p) (lsrt ps)" for ps
    using length_sort.srt_longest [OF ls, of _ _ ps] length_sort.length_srt [OF ls, of ps] by (simp add: sorted_wrt_iff_nth_less not_less)
  then show ?thesis
    by (auto simp: page_listed_def shown_def js_partition_def Let_def sorted_wrt_map len comp_def replay_Index)
qed

text \<open>A verbose check returns, and what it returns can be shown.\<close>

lemma checked_data:
  assumes "time_sort srt" and "length_sort lsrt" and "good_equality md" and "\<forall>xs. set (ro xs) \<subseteq> set xs"
    and "subs = (case Partition md of None \<Rightarrow> NoPartition | Some p \<Rightarrow> p) ops" and "subs \<noteq> []"
    and "\<forall>sub \<in> set subs. (\<forall>x \<in> set sub. Call x < Return x) \<and> length sub < 2 ^ 63"
    and "all_arrive (length subs) js"
  shows "\<exists>f0. \<forall>fuel \<ge> f0. \<exists>r lin data.
    CheckOperationsVerbose fuel ro srt fmtv fmts md ops timeout (\<lambda>_ _. False) (map Arrive js) = Some (Inr (r, lin)) \<and>
    computeVisualizationData lsrt fmtv fmts md lin = Inr data \<and> drawable (map js_partition data) \<and> page_listed (map js_partition data)"
proof -
  from checkOperations_total [OF assms(1,3,5,6,7,8) assms(4), where vb = True and fmtv = fmtv and fmts = fmts]
  obtain f0 where f0: "\<forall>fuel \<ge> f0. \<exists>r lin. CheckOperationsVerbose fuel ro srt fmtv fmts md ops timeout (\<lambda>_ _. False) (map Arrive js) = Some (Inr (r, lin)) \<and>
      info_ok (fillDefault fmtv fmts md) (map (makeEntries srt) subs) lin" unfolding CheckOperationsVerbose_def by blast
  then show ?thesis
    using visualization_ok [OF assms(1,2,7), of fmtv fmts md] check_drawable [OF assms(1,2,7), of fmtv fmts md] check_listed [OF assms(2)] by blast
qed

text \<open>
  C22: The page of every check is laid out, and as the comment in its script promises. On the data of a verbose
  check the script computes a position for every timestamp without meeting an undefined value;
  positions start at 0 and unequal timestamps are at least 20 apart, every box is wide enough for its
  text, the points of every partial linearization, 20 apart, lie in the boxes of their operations, and
  so does the point of each operation that could come next but is refused. And no warp of time that
  meets these constraints gives any timestamp a smaller position.
\<close>

theorem page_layout_optimal:
  assumes "time_sort srt" and "length_sort lsrt" and "good_equality md" and "\<forall>xs. set (ro xs) \<subseteq> set xs"
    and "subs = (case Partition md of None \<Rightarrow> NoPartition | Some p \<Rightarrow> p) ops" and "subs \<noteq> []"
    and "\<forall>sub \<in> set subs. (\<forall>x \<in> set sub. Call x < Return x) \<and> length sub < 2 ^ 63"
    and "all_arrive (length subs) js"
  shows "\<exists>f0. \<forall>fuel \<ge> f0. \<exists>r lin data lay.
    CheckOperationsVerbose fuel ro srt fmtv fmts md ops timeout (\<lambda>_ _. False) (map Arrive js) = Some (Inr (r, lin)) \<and>
    computeVisualizationData lsrt fmtv fmts md lin = Inr data \<and>
    layout text_width (map js_partition data) = Inr lay \<and>
    (\<forall>t \<in> set (l_times lay). l_xPos lay (Some t) \<noteq> None) \<and> page_warp text_width (l_data lay) (l_times lay) (x_at lay) \<and>
    (\<forall>Y. page_warp text_width (l_data lay) (l_times lay) Y \<longrightarrow> (\<forall>t \<in> set (l_times lay). x_at lay t \<le> Y t))"
  using checked_data [OF assms, of fmtv fmts] layout_ok [of _ text_width] by meson

text \<open>The page of the sample history.\<close>

theorem page_layout_optimal_witness:
  "\<exists>f0. \<forall>fuel \<ge> f0. \<exists>r lin data lay.
    CheckOperationsVerbose fuel id (sort_key time) fmt0 fmt0 KvModel sample_ops 0 (\<lambda>_ _. False) (map Arrive [0, 1]) = Some (Inr (r, lin)) \<and>
    computeVisualizationData (sort_key (\<lambda>q. - int (length q))) fmt0 fmt0 KvModel lin = Inr data \<and>
    layout (\<lambda>d. 6 * of_nat (length d)) (map js_partition data) = Inr lay \<and>
    page_warp (\<lambda>d. 6 * of_nat (length d)) (l_data lay) (l_times lay) (x_at lay)"
proof -
  have "good_equality KvModel" by (rule good_equality_default) (simp add: KvModel_def)
  from page_layout_optimal [where ro = id and js = "[0, 1]" and fmtv = fmt0 and fmts = fmt0 and text_width = "\<lambda>d. 6 * of_nat (length d)",
      OF by_time.time_sort_axioms by_length.length_sort_axioms this _ sample_partition _ sample_subs]
  show ?thesis by (simp add: all_arrive_def atLeast0_lessThan_Suc insert_commute numeral_2_eq_2) meson
qed

end
