(* ===== verification/Page_Draw.thy ===== *)
theory Page_Draw
  imports Page_Check
begin

section \<open>What the page draws\<close>

text \<open>
  The boxes of the operations, the lines and points of the partial linearizations, and the points where
  a linearization gets stuck. Elements of the picture are records of the attributes that the script
  sets; the class says whether a line is a point of a linearization or leads to one, and whether the
  step is refused by the model.
\<close>

definition PADDING :: rat where "PADDING = 10"

definition BOX_HEIGHT :: rat where "BOX_HEIGHT = 30"

definition BOX_SPACE :: rat where "BOX_SPACE = 15"

definition XOFF :: rat where "XOFF = 20"

definition LINE_BLEED :: rat where "LINE_BLEED = 5"

lemmas page_constants = PADDING_def BOX_HEIGHT_def BOX_SPACE_def XOFF_def LINE_BLEED_def

record svg_rect =
  r_x :: rat
  r_y :: rat
  r_width :: rat
  r_height :: rat

record svg_line =
  ln_x1 :: rat
  ln_x2 :: rat
  ln_y1 :: rat
  ln_y2 :: rat
  ln_point :: bool
  ln_invalid :: bool

record svg_text =
  t_x :: rat
  t_y :: rat
  t_content :: string

definition page_height :: "page_layout \<Rightarrow> rat" where
  "page_height lay = 2 * PADDING + BOX_HEIGHT * of_int (nClient (l_data lay)) + BOX_SPACE * (of_int (nClient (l_data lay)) - 1)"

definition page_width :: "page_layout \<Rightarrow> rat res" where
  "page_width lay =
     bind_res (js_get (l_xPos lay) (if l_times lay = [] then None else Some (last (l_times lay)))) (\<lambda>x. Inr (2 * PADDING + XOFF + x))"

text \<open>The number of every client before its row, and the line between them and the boxes.\<close>

definition client_label :: "int \<Rightarrow> svg_text" where
  "client_label i = \<lparr>t_x = XOFF / 2, t_y = PADDING + BOX_HEIGHT / 2 + of_int i * (BOX_HEIGHT + BOX_SPACE), t_content = Itoa i\<rparr>"

definition divider :: "page_layout \<Rightarrow> svg_line" where
  "divider lay = \<lparr>ln_x1 = PADDING + XOFF, ln_x2 = PADDING + XOFF, ln_y1 = PADDING, ln_y2 = page_height lay - PADDING, ln_point = False, ln_invalid = False\<rparr>"

subsection \<open>Boxes\<close>

definition draw_box :: "xpos \<Rightarrow> jsElement \<Rightarrow> svg_rect res" where
  "draw_box xPos el =
     bind_res (js_get xPos (Some (jStart el))) (\<lambda>rx.
     bind_res (js_get xPos (Some (jEnd el))) (\<lambda>ex.
       Inr \<lparr>r_x = rx + XOFF + PADDING, r_y = PADDING + of_int (jClientId el) * (BOX_HEIGHT + BOX_SPACE),
            r_width = ex - rx, r_height = BOX_HEIGHT\<rparr>))"

definition box_text :: "jsElement \<Rightarrow> svg_rect \<Rightarrow> svg_text" where
  "box_text el r = \<lparr>t_x = r_x r + r_width r / 2, t_y = r_y r + BOX_HEIGHT / 2, t_content = jDescription el\<rparr>"

definition draw_history :: "page_layout \<Rightarrow> svg_rect list list res" where
  "draw_history lay =
     fold_res (\<lambda>pt rects. bind_res (fold_res (\<lambda>el rs. bind_res (draw_box (l_xPos lay) el) (\<lambda>r. Inr (rs @ [r]))) (jHistory pt) []) (\<lambda>rs. Inr (rects @ [rs])))
       (l_data lay) []"

subsection \<open>Linearizations\<close>

text \<open>The previous point: \<open>prevX\<close>, \<open>prevY\<close> and \<open>prevEl\<close>, which are null together.\<close>

type_synonym prev_point = "(rat \<times> rat \<times> jsElement) option"

definition point_xy :: "xpos \<Rightarrow> jsElement \<Rightarrow> prev_point \<Rightarrow> (rat \<times> rat) res" where
  "point_xy xPos el prev =
     bind_res (js_get xPos (Some (jStart el))) (\<lambda>sx.
       let hereX = PADDING + XOFF + sx;
           x = (case prev of None \<Rightarrow> hereX | Some (prevX, _, _) \<Rightarrow> max hereX (prevX + EPSILON))
       in Inr (x, PADDING + of_int (jClientId el) * (BOX_HEIGHT + BOX_SPACE) - LINE_BLEED))"

definition join_line :: "bool \<Rightarrow> rat \<times> rat \<times> jsElement \<Rightarrow> jsElement \<Rightarrow> rat \<Rightarrow> rat \<Rightarrow> svg_line" where
  "join_line invalid prev el x y =
     (case prev of (prevX, prevY, prevEl) \<Rightarrow>
        \<lparr>ln_x1 = prevX, ln_x2 = x,
         ln_y1 = (if jClientId prevEl \<ge> jClientId el then prevY else prevY + BOX_HEIGHT + 2 * LINE_BLEED),
         ln_y2 = (if jClientId prevEl \<le> jClientId el then y else y + BOX_HEIGHT + 2 * LINE_BLEED),
         ln_point = False, ln_invalid = invalid\<rparr>)"

definition point_line :: "bool \<Rightarrow> rat \<Rightarrow> rat \<Rightarrow> svg_line" where
  "point_line invalid x y =
     \<lparr>ln_x1 = x, ln_x2 = x, ln_y1 = y, ln_y2 = y + BOX_HEIGHT + 2 * LINE_BLEED, ln_point = True, ln_invalid = invalid\<rparr>"

definition draw_step :: "xpos \<Rightarrow> jsElement list \<Rightarrow> linearizationStep \<Rightarrow> svg_line list \<times> prev_point \<Rightarrow> (svg_line list \<times> prev_point) res" where
  "draw_step xPos h s acc =
     (case acc of (lines, prev) \<Rightarrow>
        bind_res (js_at h (Index s)) (\<lambda>el.
        bind_res (point_xy xPos el prev) (\<lambda>(x, y).
          Inr (lines @ (case prev of None \<Rightarrow> [] | Some p \<Rightarrow> [join_line False p el x y]) @ [point_line False x y], Some (x, y, el)))))"

text \<open>
  A point where the linearization gets stuck: its position, its layer (the partition and the number of
  the linearization) and the operation that the link to it selects.
\<close>

record error_point =
  ep_x :: rat
  ep_partition :: nat
  ep_lin :: nat
  ep_index :: int

record drawn =
  dr_lines :: "svg_line list"
  dr_errors :: "error_point list"
  dr_illegal :: "int list"

definition draw_illegal :: "xpos \<Rightarrow> nat \<Rightarrow> nat \<Rightarrow> linearizationStep list \<Rightarrow> prev_point \<Rightarrow> int \<times> jsElement \<Rightarrow> drawn \<Rightarrow> drawn res" where
  "draw_illegal xPos partitionIndex linIndex lin prev ie d =
     (case ie of (index, el) \<Rightarrow>
        bind_res (point_xy xPos el prev) (\<lambda>(x, y).
        case prev of
          None \<Rightarrow> Inl (Panic ''undefined'')
        | Some p \<Rightarrow>
            bind_res (js_at lin (go_len lin - 1)) (\<lambda>lst.
              Inr \<lparr>dr_lines = dr_lines d @ [join_line True p el x y, point_line True x y],
                   dr_errors = dr_errors d @ [\<lparr>ep_x = x, ep_partition = partitionIndex, ep_lin = linIndex, ep_index = Index lst\<rparr>],
                   dr_illegal = dr_illegal d @ [index]\<rparr>)))"

definition draw_lin :: "xpos \<Rightarrow> nat \<Rightarrow> jsElement list \<Rightarrow> nat \<Rightarrow> linearizationStep list \<Rightarrow> drawn res" where
  "draw_lin xPos partitionIndex h linIndex lin =
     bind_res (fold_res (draw_step xPos h) lin ([], None)) (\<lambda>(lines, prev).
       fold_res (draw_illegal xPos partitionIndex linIndex lin prev) (illegal_next (map Index lin) h) \<lparr>dr_lines = lines, dr_errors = [], dr_illegal = []\<rparr>)"

text \<open>The longest linearization that gets stuck at an operation, and the number of its operations.\<close>

definition note_illegal :: "nat \<Rightarrow> nat \<Rightarrow> int \<Rightarrow> (int \<Rightarrow> (nat \<times> nat) option) \<Rightarrow> (int \<Rightarrow> (nat \<times> nat) option)" where
  "note_illegal linIndex len index largest =
     (case largest index of
        None \<Rightarrow> largest(index \<mapsto> (linIndex, len))
      | Some (_, n) \<Rightarrow> if n < len then largest(index \<mapsto> (linIndex, len)) else largest)"

fun draw_lins :: "xpos \<Rightarrow> nat \<Rightarrow> jsElement list \<Rightarrow> nat \<Rightarrow> linearizationStep list list \<Rightarrow> drawn list \<times> (int \<Rightarrow> (nat \<times> nat) option) \<Rightarrow>
  (drawn list \<times> (int \<Rightarrow> (nat \<times> nat) option)) res" where
  "draw_lins xPos partitionIndex h linIndex [] acc = Inr acc"
| "draw_lins xPos partitionIndex h linIndex (lin # lins) (ds, largest) =
     bind_res (draw_lin xPos partitionIndex h linIndex lin) (\<lambda>d.
       draw_lins xPos partitionIndex h (linIndex + 1) lins (ds @ [d], fold (note_illegal linIndex (length lin)) (dr_illegal d) largest))"

fun draw_partitions :: "xpos \<Rightarrow> nat \<Rightarrow> jsPartition list \<Rightarrow> (drawn list \<times> (int \<Rightarrow> (nat \<times> nat) option)) list res" where
  "draw_partitions xPos partitionIndex [] = Inr []"
| "draw_partitions xPos partitionIndex (pt # data) =
     bind_res (draw_lins xPos partitionIndex (jHistory pt) 0 (jPartials pt) ([], \<lambda>_. None)) (\<lambda>d.
     bind_res (draw_partitions xPos (partitionIndex + 1) data) (\<lambda>ds. Inr (d # ds)))"

record picture =
  p_width :: rat
  p_height :: rat
  p_labels :: "svg_text list"
  p_divider :: svg_line
  p_rects :: "svg_rect list list"
  p_texts :: "svg_text list list"
  p_lins :: "drawn list list"
  p_largestIllegal :: "(int \<Rightarrow> nat option) list"
  p_errorPoints :: "error_point list"

definition draw :: "page_layout \<Rightarrow> picture res" where
  "draw lay =
     bind_res (page_width lay) (\<lambda>w.
     bind_res (draw_history lay) (\<lambda>rects.
     bind_res (draw_partitions (l_xPos lay) 0 (l_data lay)) (\<lambda>ds.
       Inr \<lparr>p_width = w, p_height = page_height lay, p_labels = map client_label [0..nClient (l_data lay) - 1], p_divider = divider lay,
            p_rects = rects, p_texts = map2 (\<lambda>pt rs. map2 box_text (jHistory pt) rs) (l_data lay) rects, p_lins = map fst ds,
            p_largestIllegal = map (\<lambda>(_, largest). map_option fst \<circ> largest) ds,
            p_errorPoints = sort_key ep_x (concat (map dr_errors (concat (map fst ds))))\<rparr>)))"

subsection \<open>The points lie in the boxes\<close>

text \<open>A point is drawn through the whole height of a box, between its ends.\<close>

definition crosses :: "svg_rect \<Rightarrow> svg_line \<Rightarrow> bool" where
  "crosses r sl \<longleftrightarrow> r_x r \<le> ln_x1 sl \<and> ln_x1 sl \<le> r_x r + r_width r \<and> ln_x2 sl = ln_x1 sl \<and> ln_y1 sl \<le> r_y r \<and> r_y r + r_height r \<le> ln_y2 sl"

definition box_of :: "(rat \<Rightarrow> rat) \<Rightarrow> jsElement \<Rightarrow> svg_rect" where
  "box_of X el = \<lparr>r_x = X (jStart el) + XOFF + PADDING, r_y = PADDING + of_int (jClientId el) * (BOX_HEIGHT + BOX_SPACE),
     r_width = X (jEnd el) - X (jStart el), r_height = BOX_HEIGHT\<rparr>"

definition row_y :: "jsElement \<Rightarrow> rat" where
  "row_y el = PADDING + of_int (jClientId el) * (BOX_HEIGHT + BOX_SPACE) - LINE_BLEED"

lemma crosses_box:
  "crosses (box_of X el) (point_line iv x (row_y el)) \<longleftrightarrow> X (jStart el) + XOFF + PADDING \<le> x \<and> x \<le> X (jEnd el) + XOFF + PADDING"
  by (auto simp: crosses_def box_of_def point_line_def row_y_def page_constants)

text \<open>The positions known to the drawing.\<close>

definition located :: "xpos \<Rightarrow> (rat \<Rightarrow> rat) \<Rightarrow> jsElement \<Rightarrow> bool" where
  "located xPos X el \<longleftrightarrow> xPos (Some (jStart el)) = Some (X (jStart el)) \<and> xPos (Some (jEnd el)) = Some (X (jEnd el))"

lemma point_xy_located:
  assumes "located xPos X el"
  shows "point_xy xPos el prev = Inr (case prev of None \<Rightarrow> PADDING + XOFF + X (jStart el) | Some (px, _, _) \<Rightarrow> max (PADDING + XOFF + X (jStart el)) (px + EPSILON), row_y el)"
  using assms by (auto simp: point_xy_def located_def js_get_def row_y_def Let_def split: option.splits)

lemma lpoint_append: "k < length ss \<Longrightarrow> lpoint X (ss @ ts) k = lpoint X ss k"
  by (induction k) (simp_all add: nth_append)

lemma draw_steps:
  assumes "steps_in h lin" and "\<forall>el \<in> set h. located xPos X el"
  shows "\<exists>lines prev. fold_res (draw_step xPos h) lin ([], None) = Inr (lines, prev) \<and> (\<forall>sl \<in> set lines. \<not> ln_invalid sl) \<and>
    filter ln_point lines = map (\<lambda>k. point_line False (PADDING + XOFF + lpoint X (lin_starts h lin) k) (row_y (h ! nat (Index (lin ! k))))) [0..<length lin] \<and>
    (if lin = [] then prev = None
     else \<exists>y el. prev = Some (PADDING + XOFF + lpoint X (lin_starts h lin) (length lin - 1), y, el))"
  using assms(1)
proof (induction lin rule: rev_induct)
  case (snoc s lin)
  let ?el = "h ! nat (Index s)"
  have s: "steps_in h lin" "js_at h (Index s) = Inr ?el" "?el \<in> set h" using snoc.prems by (auto simp: steps_in_def js_at_def)
  obtain lines prev where IH: "fold_res (draw_step xPos h) lin ([], None) = Inr (lines, prev)" "\<forall>sl \<in> set lines. \<not> ln_invalid sl"
    "filter ln_point lines = map (\<lambda>k. point_line False (PADDING + XOFF + lpoint X (lin_starts h lin) k) (row_y (h ! nat (Index (lin ! k))))) [0..<length lin]"
    "if lin = [] then prev = None else \<exists>y el. prev = Some (PADDING + XOFF + lpoint X (lin_starts h lin) (length lin - 1), y, el)"
    using snoc.IH [OF s(1)] by (elim exE conjE) (rule that)
  have ss: "lin_starts h (lin @ [s]) = lin_starts h lin @ [jStart ?el]" "length (lin_starts h lin) = length lin" by (simp_all add: lin_starts_def)
  have x: "point_xy xPos ?el prev = Inr (PADDING + XOFF + lpoint X (lin_starts h (lin @ [s])) (length lin), row_y ?el)"
  proof (cases "length lin")
    case 0
    then show ?thesis using IH(4) point_xy_located [OF assms(2) [rule_format, OF s(3)]] by (simp add: lin_starts_def)
  next
    case (Suc n)
    then have "lin \<noteq> []" by auto
    then obtain y el where p: "prev = Some (PADDING + XOFF + lpoint X (lin_starts h lin) n, y, el)" using IH(4) Suc by auto
    have "lpoint X (lin_starts h (lin @ [s])) (Suc n) = max (X (jStart ?el)) (lpoint X (lin_starts h lin) n + EPSILON)"
      using lpoint_append [of n "lin_starts h lin" X "[jStart ?el]"] ss Suc by (simp add: nth_append)
    then show ?thesis using point_xy_located [OF assms(2) [rule_format, OF s(3)], of prev] Suc unfolding p
      by (simp add: max_add_distrib_right add.assoc)
  qed
  let ?x = "PADDING + XOFF + lpoint X (lin_starts h (lin @ [s])) (length lin)"
  define new where "new = (case prev of None \<Rightarrow> [] | Some p \<Rightarrow> [join_line False p ?el ?x (row_y ?el)]) @ [point_line False ?x (row_y ?el)]"
  have st: "fold_res (draw_step xPos h) (lin @ [s]) ([], None) = Inr (lines @ new, Some (?x, row_y ?el, ?el))"
    using IH(1) s(2) x by (simp add: fold_res_snoc draw_step_def new_def)
  have "filter ln_point new = [point_line False ?x (row_y ?el)]" "\<forall>sl \<in> set new. \<not> ln_invalid sl"
    by (auto simp: new_def point_line_def join_line_def split: option.splits prod.splits)
  moreover have "map (\<lambda>k. point_line False (PADDING + XOFF + lpoint X (lin_starts h (lin @ [s])) k) (row_y (h ! nat (Index ((lin @ [s]) ! k))))) [0..<length lin] = filter ln_point lines"
    unfolding IH(3) using lpoint_append [of _ "lin_starts h lin" X "[jStart ?el]"] ss by (simp add: nth_append)
  ultimately show ?case using IH(2) st by (intro exI [of _ "lines @ new"] exI [of _ "Some (?x, row_y ?el, ?el)"]) auto
qed simp

lemma draw_illegals:
  assumes "lin \<noteq> []" and "\<forall>(i, el) \<in> set ies. located xPos X el"
  shows "\<exists>d'. fold_res (draw_illegal xPos pn li lin (Some (px, py, pel))) ies d = Inr d' \<and>
    dr_illegal d' = dr_illegal d @ map fst ies \<and>
    dr_errors d' = dr_errors d @ map (\<lambda>(i, el). \<lparr>ep_x = max (PADDING + XOFF + X (jStart el)) (px + EPSILON), ep_partition = pn, ep_lin = li, ep_index = Index (last lin)\<rparr>) ies \<and>
    filter (\<lambda>sl. \<not> ln_invalid sl) (dr_lines d') = filter (\<lambda>sl. \<not> ln_invalid sl) (dr_lines d) \<and>
    filter (\<lambda>sl. ln_point sl \<and> ln_invalid sl) (dr_lines d') = filter (\<lambda>sl. ln_point sl \<and> ln_invalid sl) (dr_lines d) @
      map (\<lambda>(i, el). point_line True (max (PADDING + XOFF + X (jStart el)) (px + EPSILON)) (row_y el)) ies"
  using assms(2)
proof (induction ies arbitrary: d)
  case (Cons ie ies)
  obtain i el where ie: "ie = (i, el)" by (cases ie)
  let ?x = "max (PADDING + XOFF + X (jStart el)) (px + EPSILON)"
  have "js_at lin (go_len lin - 1) = Inr (last lin)" using assms(1) js_at_nat [of lin "length lin - 1"] by (cases lin) (simp_all add: go_len_def last_conv_nth)
  then have "draw_illegal xPos pn li lin (Some (px, py, pel)) ie d = Inr \<lparr>dr_lines = dr_lines d @ [join_line True (px, py, pel) el ?x (row_y el), point_line True ?x (row_y el)],
      dr_errors = dr_errors d @ [\<lparr>ep_x = ?x, ep_partition = pn, ep_lin = li, ep_index = Index (last lin)\<rparr>], dr_illegal = dr_illegal d @ [i]\<rparr>" (is "_ = Inr ?d1")
    using Cons.prems ie point_xy_located [of xPos X el "Some (px, py, pel)"] by (simp add: draw_illegal_def)
  moreover have "\<forall>(i, el) \<in> set ies. located xPos X el" using Cons.prems by simp
  from Cons.IH [OF this, of ?d1] obtain d' where "fold_res (draw_illegal xPos pn li lin (Some (px, py, pel))) ies ?d1 = Inr d'"
    "dr_illegal d' = dr_illegal ?d1 @ map fst ies"
    "dr_errors d' = dr_errors ?d1 @ map (\<lambda>(i, el). \<lparr>ep_x = max (PADDING + XOFF + X (jStart el)) (px + EPSILON), ep_partition = pn, ep_lin = li, ep_index = Index (last lin)\<rparr>) ies"
    "filter (\<lambda>sl. \<not> ln_invalid sl) (dr_lines d') = filter (\<lambda>sl. \<not> ln_invalid sl) (dr_lines ?d1)"
    "filter (\<lambda>sl. ln_point sl \<and> ln_invalid sl) (dr_lines d') = filter (\<lambda>sl. ln_point sl \<and> ln_invalid sl) (dr_lines ?d1) @
      map (\<lambda>(i, el). point_line True (max (PADDING + XOFF + X (jStart el)) (px + EPSILON)) (row_y el)) ies"
    by (elim exE conjE) (rule that)
  ultimately show ?case using ie by (intro exI [of _ d']) (simp add: join_line_def point_line_def)
qed simp

lemma draw_lin_ok:
  assumes st: "steps_in h lin" and loc: "\<forall>el \<in> set h. located xPos X el" and ne: "lin = [] \<longrightarrow> h = []"
  shows "\<exists>d. draw_lin xPos pn h li lin = Inr d \<and> dr_illegal d = map fst (illegal_next (map Index lin) h) \<and>
    (\<forall>e \<in> set (dr_errors d). ep_partition e = pn \<and> ep_lin e = li \<and> lin \<noteq> [] \<and> ep_index e = Index (last lin)) \<and>
    length (dr_errors d) = length (dr_illegal d) \<and>
    filter (\<lambda>sl. ln_point sl \<and> \<not> ln_invalid sl) (dr_lines d) =
      map (\<lambda>k. point_line False (PADDING + XOFF + lpoint X (lin_starts h lin) k) (row_y (h ! nat (Index (lin ! k))))) [0..<length lin] \<and>
    filter (\<lambda>sl. ln_point sl \<and> ln_invalid sl) (dr_lines d) =
      map (\<lambda>(i, el). point_line True (PADDING + XOFF + max (X (jStart el)) (lpoint X (lin_starts h lin) (length lin - 1) + EPSILON)) (row_y el)) (illegal_next (map Index lin) h)"
proof -
  obtain lines prev where 1: "fold_res (draw_step xPos h) lin ([], None) = Inr (lines, prev)" "\<forall>sl \<in> set lines. \<not> ln_invalid sl"
    "filter ln_point lines = map (\<lambda>k. point_line False (PADDING + XOFF + lpoint X (lin_starts h lin) k) (row_y (h ! nat (Index (lin ! k))))) [0..<length lin]"
    "if lin = [] then prev = None else \<exists>y el. prev = Some (PADDING + XOFF + lpoint X (lin_starts h lin) (length lin - 1), y, el)"
    using draw_steps [OF st loc] by (elim exE conjE) (rule that)
  let ?ies = "illegal_next (map Index lin) h" and ?d0 = "\<lparr>dr_lines = lines, dr_errors = [], dr_illegal = []\<rparr>"
  have v: "filter (\<lambda>sl. ln_point sl \<and> \<not> ln_invalid sl) ls = filter ln_point (filter (\<lambda>sl. \<not> ln_invalid sl) ls)" for ls by (simp add: conj_commute)
  have l0: "filter (\<lambda>sl. \<not> ln_invalid sl) lines = lines" "filter (\<lambda>sl. ln_point sl \<and> ln_invalid sl) lines = []" using 1(2) by (auto simp: filter_id_conv filter_empty_conv)
  show ?thesis
  proof (cases "lin = []")
    case True
    then have "?ies = []" using ne by (simp add: illegal_next_def)
    then show ?thesis using True by (simp add: draw_lin_def)
  next
    case False
    then obtain y el where p: "prev = Some (PADDING + XOFF + lpoint X (lin_starts h lin) (length lin - 1), y, el)" using 1(4) by auto
    have "\<forall>(i, el) \<in> set ?ies. located xPos X el" using loc illegal_next_in by fast
    from draw_illegals [OF False this, of pn li "PADDING + XOFF + lpoint X (lin_starts h lin) (length lin - 1)" y el ?d0, folded p]
    obtain d where d: "fold_res (draw_illegal xPos pn li lin prev) ?ies ?d0 = Inr d" "dr_illegal d = dr_illegal ?d0 @ map fst ?ies"
      "dr_errors d = dr_errors ?d0 @ map (\<lambda>(i, el). \<lparr>ep_x = max (PADDING + XOFF + X (jStart el)) (PADDING + XOFF + lpoint X (lin_starts h lin) (length lin - 1) + EPSILON),
          ep_partition = pn, ep_lin = li, ep_index = Index (last lin)\<rparr>) ?ies"
      "filter (\<lambda>sl. \<not> ln_invalid sl) (dr_lines d) = filter (\<lambda>sl. \<not> ln_invalid sl) (dr_lines ?d0)"
      "filter (\<lambda>sl. ln_point sl \<and> ln_invalid sl) (dr_lines d) = filter (\<lambda>sl. ln_point sl \<and> ln_invalid sl) (dr_lines ?d0) @
        map (\<lambda>(i, el). point_line True (max (PADDING + XOFF + X (jStart el)) (PADDING + XOFF + lpoint X (lin_starts h lin) (length lin - 1) + EPSILON)) (row_y el)) ?ies"
      by (elim exE conjE) (rule that)
    have "max (PADDING + XOFF + a) (PADDING + XOFF + b + EPSILON) = PADDING + XOFF + max a (b + EPSILON)" for a b :: rat
      by (simp add: max_add_distrib_right add.assoc)
    then show ?thesis using 1(1,3) d False l0 by (intro exI [of _ d]) (auto simp: draw_lin_def v split: prod.splits)
  qed
qed

text \<open>The number in \<open>largestIllegal\<close> is that of a longest linearization that gets stuck at the operation.\<close>

definition largest_ok :: "linearizationStep list list \<Rightarrow> drawn list \<Rightarrow> (int \<Rightarrow> (nat \<times> nat) option) \<Rightarrow> bool" where
  "largest_ok lins ds largest \<longleftrightarrow> (\<forall>i.
     case largest i of
       None \<Rightarrow> \<forall>k < length ds. i \<notin> set (dr_illegal (ds ! k))
     | Some (m, n) \<Rightarrow> m < length ds \<and> i \<in> set (dr_illegal (ds ! m)) \<and> n = length (lins ! m) \<and>
         (\<forall>k < length ds. i \<in> set (dr_illegal (ds ! k)) \<longrightarrow> length (lins ! k) \<le> n))"

lemma note_illegal_all:
  "fold (note_illegal l len) xs largest i =
     (if i \<in> set xs then (case largest i of None \<Rightarrow> Some (l, len) | Some (m, n) \<Rightarrow> if n < len then Some (l, len) else Some (m, n)) else largest i)"
  by (induction xs arbitrary: largest) (auto simp: note_illegal_def split: option.splits)

lemma largest_ok_snoc:
  assumes "largest_ok lins ds largest" and "length ds = length lins"
  shows "largest_ok (lins @ [lin]) (ds @ [d]) (fold (note_illegal (length ds) (length lin)) (dr_illegal d) largest)"
  unfolding largest_ok_def
proof
  fix i
  have old: "case largest i of None \<Rightarrow> \<forall>k < length ds. i \<notin> set (dr_illegal (ds ! k))
     | Some (m, n) \<Rightarrow> m < length ds \<and> i \<in> set (dr_illegal (ds ! m)) \<and> n = length (lins ! m) \<and>
         (\<forall>k < length ds. i \<in> set (dr_illegal (ds ! k)) \<longrightarrow> length (lins ! k) \<le> n)"
    using assms(1) by (simp add: largest_ok_def)
  show "case fold (note_illegal (length ds) (length lin)) (dr_illegal d) largest i of
       None \<Rightarrow> \<forall>k < length (ds @ [d]). i \<notin> set (dr_illegal ((ds @ [d]) ! k))
     | Some (m, n) \<Rightarrow> m < length (ds @ [d]) \<and> i \<in> set (dr_illegal ((ds @ [d]) ! m)) \<and> n = length ((lins @ [lin]) ! m) \<and>
         (\<forall>k < length (ds @ [d]). i \<in> set (dr_illegal ((ds @ [d]) ! k)) \<longrightarrow> length ((lins @ [lin]) ! k) \<le> n)"
    using old assms(2) unfolding note_illegal_all
    by (auto simp: nth_append less_Suc_eq split: option.splits prod.splits if_splits)
qed

lemma draw_lins_ok:
  assumes "\<forall>lin \<in> set lins. \<forall>li. \<exists>d. draw_lin xPos pn h li lin = Inr d" and "largest_ok pre ds largest" and "length ds = length pre"
  shows "\<exists>ds' largest'. draw_lins xPos pn h (length ds) lins (ds, largest) = Inr (ds @ ds', largest') \<and> length ds' = length lins \<and>
    (\<forall>k < length lins. draw_lin xPos pn h (length ds + k) (lins ! k) = Inr (ds' ! k)) \<and> largest_ok (pre @ lins) (ds @ ds') largest'"
  using assms
proof (induction lins arbitrary: pre ds largest)
  case (Cons lin lins)
  obtain d where d: "draw_lin xPos pn h (length ds) lin = Inr d" using Cons.prems(1) by (meson list.set_intros(1))
  let ?lg = "fold (note_illegal (length ds) (length lin)) (dr_illegal d) largest"
  have "\<forall>lin \<in> set lins. \<forall>li. \<exists>d. draw_lin xPos pn h li lin = Inr d" "length (ds @ [d]) = length (pre @ [lin])" using Cons.prems by simp_all
  from Cons.IH [OF this(1) largest_ok_snoc [OF Cons.prems(2,3)] this(2)]
  obtain ds' largest' where IH: "draw_lins xPos pn h (length (ds @ [d])) lins (ds @ [d], ?lg) = Inr ((ds @ [d]) @ ds', largest')" "length ds' = length lins"
    "\<forall>k < length lins. draw_lin xPos pn h (length (ds @ [d]) + k) (lins ! k) = Inr (ds' ! k)" "largest_ok ((pre @ [lin]) @ lins) ((ds @ [d]) @ ds') largest'"
    by (elim exE conjE) (rule that)
  have "draw_lin xPos pn h (length ds + k) ((lin # lins) ! k) = Inr ((d # ds') ! k)" if "k < length (lin # lins)" for k
    using IH(3) d that by (cases k) simp_all
  then show ?case using d IH by (intro exI [of _ "d # ds'"] exI [of _ largest']) simp
qed simp

lemma draw_partitions_ok:
  assumes "\<forall>pt \<in> set data. \<forall>lin \<in> set (jPartials pt). \<forall>pn li. \<exists>d. draw_lin xPos pn (jHistory pt) li lin = Inr d"
  shows "\<exists>ds. draw_partitions xPos p0 data = Inr ds \<and> length ds = length data \<and>
    (\<forall>p < length data. length (fst (ds ! p)) = length (jPartials (data ! p)) \<and>
       (\<forall>k < length (jPartials (data ! p)). draw_lin xPos (p0 + p) (jHistory (data ! p)) k (jPartials (data ! p) ! k) = Inr (fst (ds ! p) ! k)) \<and>
       largest_ok (jPartials (data ! p)) (fst (ds ! p)) (snd (ds ! p)))"
  using assms
proof (induction data arbitrary: p0)
  case (Cons pt data)
  have "\<forall>lin \<in> set (jPartials pt). \<forall>li. \<exists>d. draw_lin xPos p0 (jHistory pt) li lin = Inr d" using Cons.prems by simp
  moreover have "largest_ok [] [] (\<lambda>_. None)" by (simp add: largest_ok_def)
  ultimately obtain ds1 largest where 1: "draw_lins xPos p0 (jHistory pt) 0 (jPartials pt) ([], \<lambda>_. None) = Inr (ds1, largest)" "length ds1 = length (jPartials pt)"
    "\<forall>k < length (jPartials pt). draw_lin xPos p0 (jHistory pt) k (jPartials pt ! k) = Inr (ds1 ! k)" "largest_ok (jPartials pt) ds1 largest"
    using draw_lins_ok [of "jPartials pt" xPos p0 "jHistory pt" "[]" "[]" "\<lambda>_. None"] by auto
  have "\<forall>pt \<in> set data. \<forall>lin \<in> set (jPartials pt). \<forall>pn li. \<exists>d. draw_lin xPos pn (jHistory pt) li lin = Inr d" using Cons.prems by simp
  from Cons.IH [OF this, of "p0 + 1"]
  obtain ds where 2: "draw_partitions xPos (p0 + 1) data = Inr ds" "length ds = length data"
    "\<forall>p < length data. length (fst (ds ! p)) = length (jPartials (data ! p)) \<and>
       (\<forall>k < length (jPartials (data ! p)). draw_lin xPos (p0 + 1 + p) (jHistory (data ! p)) k (jPartials (data ! p) ! k) = Inr (fst (ds ! p) ! k)) \<and>
       largest_ok (jPartials (data ! p)) (fst (ds ! p)) (snd (ds ! p))"
    by (elim exE conjE) (rule that)
  have "length (fst (((ds1, largest) # ds) ! p)) = length (jPartials ((pt # data) ! p)) \<and>
       (\<forall>k < length (jPartials ((pt # data) ! p)). draw_lin xPos (p0 + p) (jHistory ((pt # data) ! p)) k (jPartials ((pt # data) ! p) ! k) = Inr (fst (((ds1, largest) # ds) ! p) ! k)) \<and>
       largest_ok (jPartials ((pt # data) ! p)) (fst (((ds1, largest) # ds) ! p)) (snd (((ds1, largest) # ds) ! p))" if "p < length (pt # data)" for p
    using 1 2(3) that by (cases p) simp_all
  then show ?case using 1(1) 2(1,2) by (intro exI [of _ "(ds1, largest) # ds"]) simp
qed simp

lemma draw_history_ok:
  assumes "\<forall>el \<in> set (elements (l_data lay)). located (l_xPos lay) X el"
  shows "draw_history lay = Inr (map (\<lambda>pt. map (box_of X) (jHistory pt)) (l_data lay))"
proof -
  have box: "draw_box (l_xPos lay) el = Inr (box_of X el)" if "located (l_xPos lay) X el" for el
    using that by (simp add: draw_box_def located_def js_get_def box_of_def)
  have row: "fold_res (\<lambda>el rs. bind_res (draw_box (l_xPos lay) el) (\<lambda>r. Inr (rs @ [r]))) els rs0 = Inr (rs0 @ map (box_of X) els)"
    if "\<forall>el \<in> set els. located (l_xPos lay) X el" for els rs0
    using that by (induction els arbitrary: rs0) (simp_all add: box)
  have "fold_res (\<lambda>pt rects. bind_res (fold_res (\<lambda>el rs. bind_res (draw_box (l_xPos lay) el) (\<lambda>r. Inr (rs @ [r]))) (jHistory pt) []) (\<lambda>rs. Inr (rects @ [rs]))) data r0 =
      Inr (r0 @ map (\<lambda>pt. map (box_of X) (jHistory pt)) data)" if "\<forall>pt \<in> set data. \<forall>el \<in> set (jHistory pt). located (l_xPos lay) X el" for data r0
    using that by (induction data arbitrary: r0) (simp_all add: row)
  from this [of "l_data lay" "[]"] show ?thesis using assms by (simp add: draw_history_def elements_ball)
qed

text \<open>Later timestamps lie further right.\<close>

lemma warp_increasing:
  fixes ts :: "rat list"
  assumes srt: "sorted_wrt (<) ts" and gap: "\<forall>i. Suc i < length ts \<longrightarrow> X (ts ! i) + BOX_GAP \<le> X (ts ! Suc i)"
    and "t \<in> set ts" and "u \<in> set ts" and "t \<le> u"
  shows "X t \<le> X u"
proof -
  obtain i j where ij: "i < length ts" "j < length ts" "t = ts ! i" "u = ts ! j" using assms(3,4) by (metis in_set_conv_nth)
  have "i \<le> j"
  proof (rule ccontr)
    assume "\<not> i \<le> j"
    then have "ts ! j < ts ! i" using sorted_wrt_nth_less [OF srt, of j i] ij by simp
    then show False using ij assms(5) by linarith
  qed
  then have "X (ts ! i) \<le> X (ts ! j)" using ij(2)
  proof (induction j rule: dec_induct)
    case (step j)
    then have "X (ts ! j) + BOX_GAP \<le> X (ts ! Suc j)" using gap by simp
    then show ?case using step by (simp add: BOX_GAP_def)
  qed simp
  then show ?thesis using ij by simp
qed

subsection \<open>The picture of a check\<close>

text \<open>
  The operations at which a linearization \<open>q\<close> of \<open>h\<close> gets stuck: they are not in it, and could come next,
  since no other operation that is not in it had ended before they started.
\<close>

definition stuck_at :: "jsElement list \<Rightarrow> int list \<Rightarrow> int set" where
  "stuck_at h q = {int j |j. j < length h \<and> int j \<notin> set q \<and> (\<forall>k < length h. int k \<notin> set q \<longrightarrow> jStart (h ! j) \<le> jOriginalEnd (h ! k))}"

lemma before_minEnd:
  "before_end t (minEnd q i0 els) \<longleftrightarrow> (\<forall>k < length els. i0 + int k \<notin> set q \<longrightarrow> t < jEnd (els ! k))"
proof (induction els arbitrary: i0)
  case (Cons el els)
  have "(\<forall>k < length (el # els). i0 + int k \<notin> set q \<longrightarrow> t < jEnd ((el # els) ! k)) \<longleftrightarrow>
    (i0 \<notin> set q \<longrightarrow> t < jEnd el) \<and> (\<forall>k < length els. i0 + 1 + int k \<notin> set q \<longrightarrow> t < jEnd (els ! k))"
    by (simp add: All_less_Suc2 add.assoc)
  moreover have "before_end t (minEnd q i0 (el # els)) \<longleftrightarrow> (i0 \<notin> set q \<longrightarrow> t < jEnd el) \<and> before_end t (minEnd q (i0 + 1) els)"
    by (auto simp: before_end_def Let_def split: option.splits)
  ultimately show ?case using Cons by simp
qed (simp add: before_end_def)

lemma illegal_next_stuck:
  assumes d: "drawable data" and hl: "(h, lin) \<in> set (lin_list (tweak_data data))"
  shows "fst ` set (illegal_next q h) = stuck_at h q"
proof -
  let ?tw = "tweak (startTimestamps data) (nextTs (sort (allTimestamps data)))"
  obtain h0 where h0: "h = map ?tw h0" "(h0, lin) \<in> set (lin_list data)" using hl by (auto simp: lin_list_tweak)
  have pos: "\<forall>el \<in> set (elements data). jStart el < jEnd el" using d by (simp add: drawable_def)
  have ord: "jStart (h ! a) < jEnd (h ! b) \<longleftrightarrow> jStart (h ! a) \<le> jOriginalEnd (h ! b)" if "a < length h" "b < length h" for a b
  proof -
    have l: "a < length h0" "b < length h0" using that h0(1) by simp_all
    have "h0 ! a \<in> set (elements data)" "h0 ! b \<in> set (elements data)" using lin_list_elements [OF h0(2)] l nth_mem by blast+
    from tweak_order [OF this pos] show ?thesis using l by (simp add: h0(1))
  qed
  have "fst ` set (illegal_next q h) = {int j |j. j < length h \<and> int j \<notin> set q \<and> (\<forall>k < length h. int k \<notin> set q \<longrightarrow> jStart (h ! j) < jEnd (h ! k))}"
    using before_minEnd [of _ q 0 h] by (force simp: illegal_next_def set_zip image_iff)
  also have "\<dots> = stuck_at h q" unfolding stuck_at_def using ord by blast
  finally show ?thesis .
qed

text \<open>
  The picture shows the boxes of all operations, and of every partial linearization one point per
  operation, in order and 20 apart, each through the box of its operation, and one refused point
  through the box of each operation at which it gets stuck.
\<close>

definition pictures :: "(rat \<Rightarrow> rat) \<Rightarrow> jsPartition list \<Rightarrow> picture \<Rightarrow> bool" where
  "pictures X data pic \<longleftrightarrow>
     p_rects pic = map (\<lambda>pt. map (box_of X) (jHistory pt)) data \<and> length (p_lins pic) = length data \<and>
     (\<forall>p < length data. length (p_lins pic ! p) = length (jPartials (data ! p)) \<and>
       (\<forall>l < length (jPartials (data ! p)).
          let q = map Index (jPartials (data ! p) ! l); d = p_lins pic ! p ! l;
              points = filter (\<lambda>sl. ln_point sl \<and> \<not> ln_invalid sl) (dr_lines d);
              refused = filter (\<lambda>sl. ln_point sl \<and> ln_invalid sl) (dr_lines d)
          in list_all2 (\<lambda>i sl. crosses (p_rects pic ! p ! nat i) sl) q points \<and>
             sorted_wrt (\<lambda>a b. ln_x1 a + EPSILON \<le> ln_x1 b) points \<and>
             list_all2 (\<lambda>i sl. crosses (p_rects pic ! p ! nat i) sl) (dr_illegal d) refused \<and>
             set (dr_illegal d) = stuck_at (jHistory (data ! p)) q))"

text \<open>
  The points where linearizations get stuck, from left to right: a linearization has one exactly when it
  gets stuck at an operation; each has the linearization's last operation for the link.
\<close>

definition error_points :: "jsPartition list \<Rightarrow> error_point list \<Rightarrow> bool" where
  "error_points data eps \<longleftrightarrow> sorted (map ep_x eps) \<and>
     (\<forall>ep \<in> set eps. ep_partition ep < length data \<and> ep_lin ep < length (jPartials (data ! ep_partition ep)) \<and>
        jPartials (data ! ep_partition ep) ! ep_lin ep \<noteq> [] \<and> ep_index ep = Index (last (jPartials (data ! ep_partition ep) ! ep_lin ep))) \<and>
     (\<forall>p < length data. \<forall>l < length (jPartials (data ! p)).
        stuck_at (jHistory (data ! p)) (map Index (jPartials (data ! p) ! l)) \<noteq> {} \<longleftrightarrow> (\<exists>ep \<in> set eps. ep_partition ep = p \<and> ep_lin ep = l))"

lemma lpoint_apart: "i < j \<Longrightarrow> lpoint X ss i + EPSILON \<le> lpoint X ss j"
proof (induction j)
  case (Suc j)
  show ?case
  proof (cases "i = j")
    case False
    then have "lpoint X ss i + EPSILON \<le> lpoint X ss j" using Suc by simp
    then show ?thesis by (simp add: EPSILON_def le_max_iff_disj)
  qed simp
qed simp

lemma lpoint_ge: "X (ss ! k) \<le> lpoint X ss k"
  by (cases k) simp_all

lemma lin_points_ok:
  assumes d: "drawable data1" and data: "data = tweak_data data1" and pt: "pt \<in> set data" "lin \<in> set (jPartials pt)"
    and loc: "\<forall>el \<in> set (elements data). located xPos X el" and le: "\<forall>el \<in> set (elements data). X (jStart el) \<le> X (jEnd el)"
    and warp: "page_warp w data ts X" and dl: "draw_lin xPos pn (jHistory pt) li lin = Inr d"
  shows "list_all2 (\<lambda>i sl. crosses (map (box_of X) (jHistory pt) ! nat i) sl) (map Index lin) (filter (\<lambda>sl. ln_point sl \<and> \<not> ln_invalid sl) (dr_lines d)) \<and>
    sorted_wrt (\<lambda>a b. ln_x1 a + EPSILON \<le> ln_x1 b) (filter (\<lambda>sl. ln_point sl \<and> \<not> ln_invalid sl) (dr_lines d)) \<and>
    list_all2 (\<lambda>i sl. crosses (map (box_of X) (jHistory pt) ! nat i) sl) (dr_illegal d) (filter (\<lambda>sl. ln_point sl \<and> ln_invalid sl) (dr_lines d)) \<and>
    set (dr_illegal d) = stuck_at (jHistory pt) (map Index lin)"
proof -
  let ?h = "jHistory pt" and ?ss = "lin_starts (jHistory pt) lin" and ?ies = "illegal_next (map Index lin) (jHistory pt)"
  have hl: "(?h, lin) \<in> set (lin_list data)" using pt by (auto simp: lin_list_def)
  note tl = tweaked_lin [OF d hl [unfolded data]]
  have ne: "lin = [] \<longrightarrow> ?h = []" using tl(2) by blast
  have inh: "nat (Index (lin ! k)) < length ?h" if "k < length lin" for k using tl(1) that by (simp add: steps_in_def)
  have locl: "\<forall>el \<in> set ?h. located xPos X el" using loc lin_list_elements [OF hl] by blast
  obtain d' where d': "draw_lin xPos pn ?h li lin = Inr d'" "dr_illegal d' = map fst ?ies"
    "filter (\<lambda>sl. ln_point sl \<and> \<not> ln_invalid sl) (dr_lines d') =
      map (\<lambda>k. point_line False (PADDING + XOFF + lpoint X ?ss k) (row_y (?h ! nat (Index (lin ! k))))) [0..<length lin]"
    "filter (\<lambda>sl. ln_point sl \<and> ln_invalid sl) (dr_lines d') =
      map (\<lambda>(i, el). point_line True (PADDING + XOFF + max (X (jStart el)) (lpoint X ?ss (length lin - 1) + EPSILON)) (row_y el)) ?ies"
    using draw_lin_ok [OF tl(1) locl ne, of pn li] by (elim exE conjE) (rule that)
  have w: "\<forall>k < length lin. lpoint X ?ss k \<le> X (jEnd (?h ! nat (Index (lin ! k))))" "\<forall>el \<in> illegal_of (?h, lin). lpoint X ?ss (length lin - 1) + EPSILON \<le> X (jEnd el)"
    using warp hl unfolding page_warp_def by blast+
  have in_box: "crosses (map (box_of X) ?h ! nat (Index (lin ! k))) (point_line False (PADDING + XOFF + lpoint X ?ss k) (row_y (?h ! nat (Index (lin ! k)))))" if k: "k < length lin" for k
  proof -
    have "X (jStart (?h ! nat (Index (lin ! k)))) \<le> lpoint X ?ss k" using lpoint_ge [of X ?ss k] k by (simp add: lin_starts_def)
    then show ?thesis using w(1) k inh [OF k] by (simp add: crosses_box)
  qed
  have ref: "crosses (map (box_of X) ?h ! nat i) (point_line True (PADDING + XOFF + max (X (jStart el)) (lpoint X ?ss (length lin - 1) + EPSILON)) (row_y el))"
    if ie: "(i, el) \<in> set ?ies" for i el
  proof -
    have i: "nat i < length ?h" "?h ! nat i = el" using ie by (auto simp: illegal_next_def set_zip)
    have "el \<in> illegal_of (?h, lin)" using ie by (force simp: illegal_of_def)
    moreover have "el \<in> set (elements data)" using lin_list_elements [OF hl] i nth_mem by blast
    ultimately have "max (X (jStart el)) (lpoint X ?ss (length lin - 1) + EPSILON) \<le> X (jEnd el)" using w(2) le by simp
    then show ?thesis using i by (simp add: crosses_box)
  qed
  have "list_all2 (\<lambda>i sl. crosses (map (box_of X) ?h ! nat i) sl) (map Index lin) (map (\<lambda>k. point_line False (PADDING + XOFF + lpoint X ?ss k) (row_y (?h ! nat (Index (lin ! k))))) [0..<length lin])"
    using in_box by (simp add: list_all2_conv_all_nth)
  moreover have "sorted_wrt (\<lambda>a b. ln_x1 a + EPSILON \<le> ln_x1 b) (map (\<lambda>k. point_line False (PADDING + XOFF + lpoint X ?ss k) (row_y (?h ! nat (Index (lin ! k))))) [0..<length lin])"
    using lpoint_apart by (simp add: sorted_wrt_iff_nth_less point_line_def add.assoc)
  moreover have "list_all2 (\<lambda>i sl. crosses (map (box_of X) ?h ! nat i) sl) (map fst ?ies)
      (map (\<lambda>(i, el). point_line True (PADDING + XOFF + max (X (jStart el)) (lpoint X ?ss (length lin - 1) + EPSILON)) (row_y el)) ?ies)"
    using ref by (auto simp: list_all2_conv_all_nth split: prod.splits) (metis nth_mem)
  moreover have "set (map fst ?ies) = stuck_at ?h (map Index lin)"
    using illegal_next_stuck [OF d hl [unfolded data]] by simp
  ultimately show ?thesis using dl d' by simp
qed

lemma bex_nth: "(\<exists>x \<in> set xs. Q x) \<longleftrightarrow> (\<exists>i < length xs. Q (xs ! i))"
  by (metis in_set_conv_nth)

lemma error_points_ok:
  assumes len: "length ds = length data" and shape: "\<forall>p < length data. length (ds ! p) = length (jPartials (data ! p))"
    and err: "\<And>p l. p < length data \<Longrightarrow> l < length (jPartials (data ! p)) \<Longrightarrow>
      (\<forall>e \<in> set (dr_errors (ds ! p ! l)). ep_partition e = p \<and> ep_lin e = l \<and> jPartials (data ! p) ! l \<noteq> [] \<and> ep_index e = Index (last (jPartials (data ! p) ! l))) \<and>
      length (dr_errors (ds ! p ! l)) = length (dr_illegal (ds ! p ! l)) \<and>
      set (dr_illegal (ds ! p ! l)) = stuck_at (jHistory (data ! p)) (map Index (jPartials (data ! p) ! l))"
  shows "error_points data (sort_key ep_x (concat (map dr_errors (concat ds))))"
proof -
  let ?eps = "concat (map dr_errors (concat ds))"
  have mem: "e \<in> set ?eps \<longleftrightarrow> (\<exists>p < length data. \<exists>l < length (jPartials (data ! p)). e \<in> set (dr_errors (ds ! p ! l)))" for e
  proof -
    have "e \<in> set ?eps \<longleftrightarrow> (\<exists>row \<in> set ds. \<exists>d \<in> set row. e \<in> set (dr_errors d))" by auto
    also have "\<dots> \<longleftrightarrow> (\<exists>p < length ds. \<exists>l < length (ds ! p). e \<in> set (dr_errors (ds ! p ! l)))" by (simp only: bex_nth)
    finally show ?thesis using len shape by (simp cong: conj_cong)
  qed
  have ne: "stuck_at (jHistory (data ! p)) (map Index (jPartials (data ! p) ! l)) \<noteq> {} \<longleftrightarrow> dr_errors (ds ! p ! l) \<noteq> []"
    if "p < length data" "l < length (jPartials (data ! p))" for p l
    using err [OF that] by (metis length_0_conv set_empty)
  have "stuck_at (jHistory (data ! p)) (map Index (jPartials (data ! p) ! l)) \<noteq> {} \<longleftrightarrow> (\<exists>ep \<in> set ?eps. ep_partition ep = p \<and> ep_lin ep = l)"
    if pl: "p < length data" "l < length (jPartials (data ! p))" for p l
  proof
    assume "stuck_at (jHistory (data ! p)) (map Index (jPartials (data ! p) ! l)) \<noteq> {}"
    then have "dr_errors (ds ! p ! l) \<noteq> []" using ne [OF pl] by simp
    then obtain e where e: "e \<in> set (dr_errors (ds ! p ! l))" using hd_in_set that by blast
    have "e \<in> set ?eps" by (rule mem [THEN iffD2]) (intro exI conjI, rule pl, rule pl, rule e)
    moreover have "ep_partition e = p \<and> ep_lin e = l" using bspec [OF conjunct1 [OF err [OF pl]] e] by blast
    ultimately show "\<exists>ep \<in> set ?eps. ep_partition ep = p \<and> ep_lin ep = l" by (intro bexI [of _ e])
  next
    assume "\<exists>ep \<in> set ?eps. ep_partition ep = p \<and> ep_lin ep = l"
    then obtain ep where ep: "ep \<in> set ?eps" "ep_partition ep = p" "ep_lin ep = l" by (elim bexE conjE) (rule that)
    obtain p' l' where pl': "p' < length data" "l' < length (jPartials (data ! p'))" "ep \<in> set (dr_errors (ds ! p' ! l'))"
      using mem [THEN iffD1, OF ep(1)] by (elim exE conjE) (rule that)
    have "ep \<in> set (dr_errors (ds ! p ! l))" using bspec [OF conjunct1 [OF err [OF pl'(1,2)]] pl'(3)] ep(2,3) pl'(3) by simp
    then show "stuck_at (jHistory (data ! p)) (map Index (jPartials (data ! p) ! l)) \<noteq> {}" using ne [OF pl] by auto
  qed
  moreover have "ep_partition ep < length data \<and> ep_lin ep < length (jPartials (data ! ep_partition ep)) \<and>
        jPartials (data ! ep_partition ep) ! ep_lin ep \<noteq> [] \<and> ep_index ep = Index (last (jPartials (data ! ep_partition ep) ! ep_lin ep))" if ep: "ep \<in> set ?eps" for ep
  proof -
    obtain p l where pl: "p < length data" "l < length (jPartials (data ! p))" "ep \<in> set (dr_errors (ds ! p ! l))"
      using mem [THEN iffD1, OF ep] by (elim exE conjE) (rule that)
    show ?thesis using bspec [OF conjunct1 [OF err [OF pl(1,2)]] pl(3)] pl(1,2) by simp
  qed
  ultimately show ?thesis unfolding error_points_def by (simp only: set_sort sorted_sort_key) simp
qed

text \<open>What the layout gives to the drawing.\<close>

lemma layout_located:
  assumes dr: "drawable data0" and lay: "layout w data0 = Inr lay"
  shows "l_data lay = tweak_data (gid_data 0 data0)" "page_warp w (l_data lay) (l_times lay) (x_at lay)"
    "\<forall>el \<in> set (elements (l_data lay)). located (l_xPos lay) (x_at lay) el"
    "\<forall>el \<in> set (elements (l_data lay)). x_at lay (jStart el) \<le> x_at lay (jEnd el)" "\<exists>wd. page_width lay = Inr wd"
proof -
  let ?d1 = "gid_data 0 data0" and ?D = "l_data lay" and ?X = "x_at lay" and ?xp = "l_xPos lay"
  have l: "?D = tweak_data ?d1" "l_times lay = sortedTimestamps ?d1" "\<forall>t \<in> set (l_times lay). ?xp (Some t) \<noteq> None" "page_warp w ?D (l_times lay) ?X"
    using layout_ok [OF dr, of w] lay by auto
  then show "?D = tweak_data ?d1" "page_warp w ?D (l_times lay) ?X" by simp_all
  have tm: "jStart el \<in> set (l_times lay)" "jEnd el \<in> set (l_times lay)" if "el \<in> set (elements ?D)" for el
    using that unfolding l(1,2) sortedTimestamps_set by (auto simp: allTimestamps_set elements_tweak)
  have at: "?xp (Some t) = Some (?X t)" if "t \<in> set (l_times lay)" for t using l(3) that by (auto simp: x_at_def)
  show "\<forall>el \<in> set (elements ?D). located ?xp ?X el" using at tm by (simp add: located_def)
  show "\<forall>el \<in> set (elements ?D). ?X (jStart el) \<le> ?X (jEnd el)"
  proof
    fix el assume el: "el \<in> set (elements ?D)"
    then have "jStart el < jEnd el" using tweaked_el [of ?d1 el] dr l(1) by (simp add: drawable_gid)
    moreover have "sorted_wrt (<) (l_times lay)" unfolding l(2) by (rule sortedTimestamps_strict)
    ultimately show "?X (jStart el) \<le> ?X (jEnd el)" using warp_increasing [of "l_times lay" ?X "jStart el" "jEnd el"] l(4) tm [OF el] by (simp add: page_warp_def)
  qed
  show "\<exists>wd. page_width lay = Inr wd"
  proof (cases "l_times lay = []")
    case True
    then have "sortedTimestamps ?d1 = []" using l(2) by simp
    then have "?xp = [None \<mapsto> 0]" using lay by (auto simp: layout_def Let_def bind_res_eq_Inr)
    then show ?thesis using True by (simp add: page_width_def js_get_def)
  next
    case False
    then show ?thesis using at [of "last (l_times lay)"] by (simp add: page_width_def js_get_def)
  qed
qed

lemma layout_draw_lin:
  assumes dr: "drawable data0" and lay: "layout w data0 = Inr lay" and pt: "pt \<in> set (l_data lay)" "lin \<in> set (jPartials pt)"
  shows "\<exists>d. draw_lin (l_xPos lay) pn (jHistory pt) li lin = Inr d \<and> length (dr_errors d) = length (dr_illegal d) \<and>
      (\<forall>e \<in> set (dr_errors d). ep_partition e = pn \<and> ep_lin e = li \<and> lin \<noteq> [] \<and> ep_index e = Index (last lin))"
proof -
  note l = layout_located [OF dr lay]
  have hl: "(jHistory pt, lin) \<in> set (lin_list (tweak_data (gid_data 0 data0)))" using pt unfolding l(1) by (auto simp: lin_list_def)
  have d1: "drawable (gid_data 0 data0)" using dr by (simp add: drawable_gid)
  have "\<forall>el \<in> set (jHistory pt). located (l_xPos lay) (x_at lay) el" using l(3) pt by (auto simp: elements_def)
  then show ?thesis using draw_lin_ok [OF tweaked_lin(1) [OF d1 hl], of "l_xPos lay" "x_at lay" pn li] tweaked_lin(2) [OF d1 hl] by blast
qed

lemma draw_ok:
  assumes dr: "drawable data0" and lay: "layout w data0 = Inr lay"
  shows "\<exists>pic. draw lay = Inr pic \<and> pictures (x_at lay) (l_data lay) pic \<and> error_points (l_data lay) (p_errorPoints pic) \<and>
    length (p_largestIllegal pic) = length (l_data lay) \<and>
    (\<forall>p < length (l_data lay). \<exists>largest. p_largestIllegal pic ! p = map_option fst \<circ> largest \<and> largest_ok (jPartials (l_data lay ! p)) (p_lins pic ! p) largest)"
proof -
  let ?D = "l_data lay" and ?X = "x_at lay" and ?xp = "l_xPos lay"
  note l = layout_located [OF dr lay] and one = layout_draw_lin [OF dr lay]
  have d1: "drawable (gid_data 0 data0)" using dr by (simp add: drawable_gid)
  have "\<forall>pt \<in> set ?D. \<forall>lin \<in> set (jPartials pt). \<forall>pn li. \<exists>d. draw_lin ?xp pn (jHistory pt) li lin = Inr d" using one by blast
  from draw_partitions_ok [OF this, of 0]
  obtain ds where ds: "draw_partitions ?xp 0 ?D = Inr ds" "length ds = length ?D"
    "\<forall>p < length ?D. length (fst (ds ! p)) = length (jPartials (?D ! p)) \<and>
       (\<forall>k < length (jPartials (?D ! p)). draw_lin ?xp (0 + p) (jHistory (?D ! p)) k (jPartials (?D ! p) ! k) = Inr (fst (ds ! p) ! k)) \<and>
       largest_ok (jPartials (?D ! p)) (fst (ds ! p)) (snd (ds ! p))"
    by (elim exE conjE) (rule that)
  obtain pic where pic: "draw lay = Inr pic" "p_rects pic = map (\<lambda>pt. map (box_of ?X) (jHistory pt)) ?D" "p_lins pic = map fst ds"
      "p_largestIllegal pic = map (\<lambda>(_, largest). map_option fst \<circ> largest) ds" "p_errorPoints pic = sort_key ep_x (concat (map dr_errors (concat (map fst ds))))"
    using l(5) draw_history_ok [OF l(3)] ds(1) by (auto simp: draw_def)
  have "list_all2 (\<lambda>i sl. crosses (map (box_of ?X) (jHistory (?D ! p)) ! nat i) sl) (map Index (jPartials (?D ! p) ! k)) (filter (\<lambda>sl. ln_point sl \<and> \<not> ln_invalid sl) (dr_lines (fst (ds ! p) ! k))) \<and>
      sorted_wrt (\<lambda>a b. ln_x1 a + EPSILON \<le> ln_x1 b) (filter (\<lambda>sl. ln_point sl \<and> \<not> ln_invalid sl) (dr_lines (fst (ds ! p) ! k))) \<and>
      list_all2 (\<lambda>i sl. crosses (map (box_of ?X) (jHistory (?D ! p)) ! nat i) sl) (dr_illegal (fst (ds ! p) ! k)) (filter (\<lambda>sl. ln_point sl \<and> ln_invalid sl) (dr_lines (fst (ds ! p) ! k))) \<and>
      set (dr_illegal (fst (ds ! p) ! k)) = stuck_at (jHistory (?D ! p)) (map Index (jPartials (?D ! p) ! k))"
    if "p < length ?D" "k < length (jPartials (?D ! p))" for p k
    by (rule lin_points_ok [OF d1 l(1) nth_mem [OF that(1)] nth_mem [OF that(2)] l(3,4,2) ds(3) [rule_format, OF that(1), THEN conjunct2, THEN conjunct1, rule_format, OF that(2)]])
  then have pics: "pictures ?X ?D pic" using ds(2,3) pic(2,3) by (simp add: pictures_def Let_def)
  have "(\<forall>e \<in> set (dr_errors (map fst ds ! p ! k)). ep_partition e = p \<and> ep_lin e = k \<and> jPartials (?D ! p) ! k \<noteq> [] \<and> ep_index e = Index (last (jPartials (?D ! p) ! k))) \<and>
      length (dr_errors (map fst ds ! p ! k)) = length (dr_illegal (map fst ds ! p ! k)) \<and>
      set (dr_illegal (map fst ds ! p ! k)) = stuck_at (jHistory (?D ! p)) (map Index (jPartials (?D ! p) ! k))"
    if "p < length ?D" "k < length (jPartials (?D ! p))" for p k
    using one [OF nth_mem [OF that(1)] nth_mem [OF that(2)], of p k] ds(2,3) that pics pic(3) by (auto simp: pictures_def Let_def)
  then have "error_points ?D (p_errorPoints pic)" using error_points_ok [of "map fst ds" ?D] ds(2,3) pic(5) by simp
  moreover have "\<exists>largest. p_largestIllegal pic ! p = map_option fst \<circ> largest \<and> largest_ok (jPartials (?D ! p)) (p_lins pic ! p) largest" if "p < length ?D" for p
    using ds(2,3) that pic(3,4) by (intro exI [of _ "snd (ds ! p)"]) (simp add: case_prod_beta)
  ultimately show ?thesis using ds(2) pic(1,4) pics by (intro exI [of _ pic]) simp
qed

text \<open>
  C23: The page draws every check. On the layout of the data of a verbose check, the script draws
  every operation as a box over its interval, in the row of its client. Of every partial linearization
  it draws one point per operation, in order and at least 20 apart, each through the box of its operation;
  and one refused point through the box of every operation at which the linearization gets stuck: the
  operation is not in it and starts no later than every operation that is not in it has ended, in the
  times of the history before the script moved them. No other operation is marked as refused.
\<close>

theorem page_draws_check:
  assumes "time_sort srt" and "length_sort lsrt" and "good_equality md" and "\<forall>xs. set (ro xs) \<subseteq> set xs"
    and "subs = (case Partition md of None \<Rightarrow> NoPartition | Some p \<Rightarrow> p) ops" and "subs \<noteq> []"
    and "\<forall>sub \<in> set subs. (\<forall>x \<in> set sub. Call x < Return x) \<and> length sub < 2 ^ 63"
    and "all_arrive (length subs) js"
  shows "\<exists>f0. \<forall>fuel \<ge> f0. \<exists>r lin data lay pic.
    CheckOperationsVerbose fuel ro srt fmtv fmts md ops timeout (\<lambda>_ _. False) (map Arrive js) = Some (Inr (r, lin)) \<and>
    computeVisualizationData lsrt fmtv fmts md lin = Inr data \<and>
    layout text_width (map js_partition data) = Inr lay \<and> draw lay = Inr pic \<and> pictures (x_at lay) (l_data lay) pic"
  using checked_data [OF assms, of fmtv fmts] layout_ok [of _ text_width] draw_ok [of _ text_width] by meson

text \<open>The page of the sample history.\<close>

theorem page_draws_check_witness:
  "\<exists>f0. \<forall>fuel \<ge> f0. \<exists>r lin data lay pic.
    CheckOperationsVerbose fuel id (sort_key time) fmt0 fmt0 KvModel sample_ops 0 (\<lambda>_ _. False) (map Arrive [0, 1]) = Some (Inr (r, lin)) \<and>
    computeVisualizationData (sort_key (\<lambda>q. - int (length q))) fmt0 fmt0 KvModel lin = Inr data \<and>
    layout (\<lambda>d. 6 * of_nat (length d)) (map js_partition data) = Inr lay \<and> draw lay = Inr pic \<and> pictures (x_at lay) (l_data lay) pic"
proof -
  have "good_equality KvModel" by (rule good_equality_default) (simp add: KvModel_def)
  from page_draws_check [where ro = id and js = "[0, 1]" and fmtv = fmt0 and fmts = fmt0 and text_width = "\<lambda>d. 6 * of_nat (length d)",
      OF by_time.time_sort_axioms by_length.length_sort_axioms this _ sample_partition _ sample_subs]
  show ?thesis by (simp add: all_arrive_def atLeast0_lessThan_Suc insert_commute numeral_2_eq_2)
qed

end
