(* ===== verification/Page_Events.thy ===== *)
theory Page_Events
  imports Page_Draw
begin

section \<open>The reactions of the page\<close>

text \<open>
  The event handlers of the page as functions of its state: what is selected, which layers of
  operations and of linearizations are hidden, which boxes have the class \<open>selected\<close>, the tooltip, and
  the link to the first point where a visible linearization gets stuck. The position of the tooltip
  and scrolling are left out. Numbers are printed by \<open>show_num\<close>. Layers and boxes are arrays of DOM nodes in the script; here
  they are arrays of their \<open>hidden\<close> and \<open>selected\<close> classes.
\<close>

datatype js_value = JNull | JNum int | JBool bool

record page_state =
  selected :: bool
  selectedIndex :: "int \<times> int"
  historyHidden :: "bool list"
  partialHidden :: "bool list list"
  rectSelected :: "bool list list"
  tooltip :: string
  tooltipShown :: bool
  lastTooltip :: "js_value list"
  jumpActive :: bool
  jumpTo :: "error_point option"

fun arrayEq :: "js_value list \<Rightarrow> js_value list \<Rightarrow> bool" where
  "arrayEq [] [] = True"
| "arrayEq (a # as) (b # bs) = (a = b \<and> arrayEq as bs)"
| "arrayEq _ _ = False"

definition linearizationIndex :: "jsPartition list \<Rightarrow> picture \<Rightarrow> int \<Rightarrow> int \<Rightarrow> int option res" where
  "linearizationIndex data pic p index =
     bind_res (js_at data p) (\<lambda>pt.
       case jLargest pt index of
         Some m \<Rightarrow> Inr (Some m)
       | None \<Rightarrow> bind_res (js_at (p_largestIllegal pic) p) (\<lambda>largestIllegal. Inr (map_option int (largestIllegal index))))"

definition updateJump :: "picture \<Rightarrow> page_state \<Rightarrow> page_state" where
  "updateJump pic s =
     (case find (\<lambda>pt. \<not> partialHidden s ! ep_partition pt ! ep_lin pt) (p_errorPoints pic) of
        Some ep \<Rightarrow> s\<lparr>jumpActive := True, jumpTo := Some ep\<rparr>
      | None \<Rightarrow> s\<lparr>jumpActive := False\<rparr>)"

definition highlight :: "jsPartition list \<Rightarrow> picture \<Rightarrow> int \<Rightarrow> int \<Rightarrow> page_state \<Rightarrow> page_state res" where
  "highlight data pic p index s =
     (let s1 = s\<lparr>historyHidden := map (\<lambda>i. int i \<noteq> p) [0..<length (historyHidden s)],
                 partialHidden := map (map (\<lambda>_. True)) (partialHidden s)\<rparr>
      in bind_res (linearizationIndex data pic p index) (\<lambda>maxIndex.
         case maxIndex of
           None \<Rightarrow> Inr (updateJump pic s1)
         | Some m \<Rightarrow>
             bind_res (js_at (partialHidden s1) p) (\<lambda>layers.
             bind_res (js_at layers m) (\<lambda>_.
               Inr (updateJump pic (s1\<lparr>partialHidden := (partialHidden s1)[nat p := layers[nat m := False]]\<rparr>))))))"

definition resetHighlight :: "picture \<Rightarrow> page_state \<Rightarrow> page_state" where
  "resetHighlight pic s =
     updateJump pic (s\<lparr>historyHidden := map (\<lambda>_. False) (historyHidden s),
                       partialHidden := map (\<lambda>layers. map (\<lambda>i. i \<noteq> 0) [0..<length layers]) (partialHidden s)\<rparr>)"

definition mark_rect :: "int \<times> int \<Rightarrow> bool \<Rightarrow> page_state \<Rightarrow> page_state res" where
  "mark_rect ri b s =
     (case ri of (p, index) \<Rightarrow>
        bind_res (js_at (rectSelected s) p) (\<lambda>rects.
        bind_res (js_at rects index) (\<lambda>_. Inr (s\<lparr>rectSelected := (rectSelected s)[nat p := rects[nat index := b]]\<rparr>))))"

definition select :: "jsPartition list \<Rightarrow> picture \<Rightarrow> int \<Rightarrow> int \<Rightarrow> page_state \<Rightarrow> page_state res" where
  "select data pic p index s =
     bind_res (highlight data pic p index (s\<lparr>selected := True, selectedIndex := (p, index)\<rparr>)) (mark_rect (p, index) True)"

definition deselect :: "picture \<Rightarrow> page_state \<Rightarrow> page_state res" where
  "deselect pic s =
     (if \<not> selected s then Inr s
      else mark_rect (selectedIndex s) False (resetHighlight pic (s\<lparr>selected := False\<rparr>)))"

definition handleClick :: "jsPartition list \<Rightarrow> picture \<Rightarrow> int \<Rightarrow> int \<Rightarrow> page_state \<Rightarrow> page_state res" where
  "handleClick data pic p index s =
     (if selected s
      then if (p, index) = selectedIndex s then deselect pic s
           else bind_res (mark_rect (selectedIndex s) False s) (select data pic p index)
      else select data pic p index s)"

definition handleBgClick :: "picture \<Rightarrow> page_state \<Rightarrow> page_state res" where
  "handleBgClick pic s = deselect pic s"

definition handleMouseOver :: "jsPartition list \<Rightarrow> picture \<Rightarrow> int \<Rightarrow> int \<Rightarrow> page_state \<Rightarrow> page_state res" where
  "handleMouseOver data pic p index s =
     bind_res (if \<not> selected s then highlight data pic p index s else Inr s) (\<lambda>s1. Inr (s1\<lparr>tooltipShown := True\<rparr>))"

definition no_tooltip :: "js_value list" where
  "no_tooltip = [JNull, JNull, JNull, JNull, JNull]"

definition handleMouseOut :: "picture \<Rightarrow> page_state \<Rightarrow> page_state" where
  "handleMouseOut pic s =
     (let s1 = (if \<not> selected s then resetHighlight pic s else s)
      in s1\<lparr>tooltipShown := False, lastTooltip := no_tooltip\<rparr>)"

text \<open>The step before an operation in a linearization and the step itself, if it is in it.\<close>

fun find_step :: "int \<Rightarrow> linearizationStep option \<Rightarrow> linearizationStep list \<Rightarrow> (linearizationStep option \<times> linearizationStep) option" where
  "find_step index prev [] = None"
| "find_step index prev (here # lin) = (if Index here = index then Some (prev, here) else find_step index (Some here) lin)"

definition tooltip_lin :: "(rat \<Rightarrow> string) \<Rightarrow> jsPartition list \<Rightarrow> picture \<Rightarrow> int \<Rightarrow> int \<Rightarrow> int \<Rightarrow> string res" where
  "tooltip_lin show_num data pic p index maxIndex =
     bind_res (js_at data p) (\<lambda>pt.
     bind_res (js_at (jPartials pt) maxIndex) (\<lambda>lin.
     bind_res (js_at (jHistory pt) index) (\<lambda>el.
       let call_return = ''<br><br>Call: '' @ show_num (jStart el) @ ''<br><br>Return: '' @ show_num (jOriginalEnd el)
       in case find_step index None lin of
            Some (prev, here) \<Rightarrow>
              Inr ((case prev of None \<Rightarrow> '''' | Some q \<Rightarrow> ''<strong>Previous state:</strong><br>'' @ StateDescription q @ ''<br><br>'') @
                   ''<strong>New state:</strong><br>'' @ StateDescription here @ call_return)
          | None \<Rightarrow>
              bind_res (js_at (p_lins pic) p) (\<lambda>illegalLast.
              bind_res (js_at illegalLast maxIndex) (\<lambda>d.
                if index \<in> set (dr_illegal d)
                then bind_res (js_at lin (go_len lin - 1)) (\<lambda>lst.
                       Inr (''<strong>Previous state:</strong><br>'' @ StateDescription lst @
                            ''<br><br><strong>New state:</strong><br>&langle;invalid op&rangle;'' @ call_return))
                else Inr ''Not part of selected element's partial linearization.'')))))"

definition tooltip_text :: "(rat \<Rightarrow> string) \<Rightarrow> jsPartition list \<Rightarrow> picture \<Rightarrow> bool \<Rightarrow> int \<times> int \<Rightarrow> int \<Rightarrow> int \<Rightarrow> string res" where
  "tooltip_text show_num data pic sel sidx p index =
     (case sidx of (sPartition, sIndex) \<Rightarrow>
        bind_res (if \<not> sel then linearizationIndex data pic p index else linearizationIndex data pic sPartition sIndex) (\<lambda>maxIndex.
        if sel \<and> sPartition \<noteq> p then Inr ''Not part of selected partition.''
        else case maxIndex of
               None \<Rightarrow> Inr (if \<not> sel then ''Not part of any partial linearization.''
                            else ''Selected element is not part of any partial linearization.'')
             | Some m \<Rightarrow> tooltip_lin show_num data pic p index m))"

definition tooltip_key :: "page_state \<Rightarrow> int \<Rightarrow> int \<Rightarrow> js_value list" where
  "tooltip_key s p index = [JNum p, JNum index, JBool (selected s), JNum (fst (selectedIndex s)), JNum (snd (selectedIndex s))]"

definition handleMouseMove :: "(rat \<Rightarrow> string) \<Rightarrow> jsPartition list \<Rightarrow> picture \<Rightarrow> int \<Rightarrow> int \<Rightarrow> page_state \<Rightarrow> page_state res" where
  "handleMouseMove show_num data pic p index s =
     (let thisTooltip = tooltip_key s p index
      in if \<not> arrayEq (lastTooltip s) thisTooltip
         then bind_res (tooltip_text show_num data pic (selected s) (selectedIndex s) p index) (\<lambda>msg.
                Inr (s\<lparr>tooltip := msg, lastTooltip := thisTooltip\<rparr>))
         else Inr s)"

text \<open>A click on the link, which has no handler before the first point is found.\<close>

definition handleJump :: "jsPartition list \<Rightarrow> picture \<Rightarrow> page_state \<Rightarrow> page_state res" where
  "handleJump data pic s =
     (case jumpTo s of
        None \<Rightarrow> Inr s
      | Some ep \<Rightarrow> if \<not> selected s then select data pic (int (ep_partition ep)) (ep_index ep) s else Inr s)"

definition page_start :: "jsPartition list \<Rightarrow> picture \<Rightarrow> page_state" where
  "page_start data pic =
     handleMouseOut pic \<lparr>selected = False, selectedIndex = (-1, -1), historyHidden = map (\<lambda>_. False) data,
       partialHidden = map (\<lambda>pt. map (\<lambda>_. False) (jPartials pt)) data, rectSelected = map (\<lambda>pt. map (\<lambda>_. False) (jHistory pt)) data,
       tooltip = '''', tooltipShown = True, lastTooltip = no_tooltip, jumpActive = True, jumpTo = None\<rparr>"

datatype page_event = MouseOver nat nat | MouseMove nat nat | MouseOut | Click nat nat | BgClick | Jump

fun page_handle :: "(rat \<Rightarrow> string) \<Rightarrow> jsPartition list \<Rightarrow> picture \<Rightarrow> page_event \<Rightarrow> page_state \<Rightarrow> page_state res" where
  "page_handle show_num data pic (MouseOver p i) s = handleMouseOver data pic (int p) (int i) s"
| "page_handle show_num data pic (MouseMove p i) s = handleMouseMove show_num data pic (int p) (int i) s"
| "page_handle show_num data pic MouseOut s = Inr (handleMouseOut pic s)"
| "page_handle show_num data pic (Click p i) s = handleClick data pic (int p) (int i) s"
| "page_handle show_num data pic BgClick s = handleBgClick pic s"
| "page_handle show_num data pic Jump s = handleJump data pic s"

text \<open>The events of the boxes come from boxes that are there.\<close>

definition on_page :: "jsPartition list \<Rightarrow> nat \<Rightarrow> nat \<Rightarrow> bool" where
  "on_page data p i \<longleftrightarrow> p < length data \<and> i < length (jHistory (data ! p))"

fun event_on :: "jsPartition list \<Rightarrow> page_event \<Rightarrow> bool" where
  "event_on data (MouseOver p i) = on_page data p i"
| "event_on data (MouseMove p i) = on_page data p i"
| "event_on data (Click p i) = on_page data p i"
| "event_on data _ = True"

end
