(* ===== verification/Page_Reacts.thy ===== *)
theory Page_Reacts
  imports Page_Events
begin

section \<open>The page never fails and shows what is selected\<close>

text \<open>
  What the handlers rely on: the numbers they use as indices are valid, and the linearization they
  show for an operation is a longest one that has it, or else a longest one that gets stuck at it.
\<close>

definition stuck :: "jsPartition \<Rightarrow> nat \<Rightarrow> linearizationStep list \<Rightarrow> bool" where
  "stuck pt i lin \<longleftrightarrow> int i \<in> stuck_at (jHistory pt) (map Index lin)"

definition choice_ok :: "jsPartition \<Rightarrow> nat \<Rightarrow> int option \<Rightarrow> bool" where
  "choice_ok pt i c \<longleftrightarrow>
     (if \<exists>lin \<in> set (jPartials pt). has_op (int i) lin then \<exists>m. c = Some (int m) \<and> longest (has_op (int i)) (jPartials pt) m
      else if \<exists>lin \<in> set (jPartials pt). stuck pt i lin then \<exists>m. c = Some (int m) \<and> longest (stuck pt i) (jPartials pt) m
      else c = None)"

definition legible :: "jsPartition list \<Rightarrow> picture \<Rightarrow> bool" where
  "legible data pic \<longleftrightarrow>
     (\<forall>p i. on_page data p i \<longrightarrow> (\<exists>c. linearizationIndex data pic (int p) (int i) = Inr c \<and> choice_ok (data ! p) i c)) \<and>
     (\<forall>p i. p < length data \<and> jPartials (data ! p) \<noteq> [] \<and> has_op i (hd (jPartials (data ! p))) \<longrightarrow> linearizationIndex data pic (int p) i = Inr (Some 0)) \<and>
     error_points data (p_errorPoints pic) \<and>
     (\<forall>pt \<in> set data. \<forall>lin \<in> set (jPartials pt). steps_in (jHistory pt) lin) \<and>
     length (p_lins pic) = length data \<and>
     (\<forall>p < length data. length (p_lins pic ! p) = length (jPartials (data ! p)) \<and>
        (\<forall>l < length (jPartials (data ! p)). set (dr_illegal (p_lins pic ! p ! l)) = stuck_at (jHistory (data ! p)) (map Index (jPartials (data ! p) ! l))))"

lemma listed_layout: "page_listed (tweak_data (gid_data g data)) = page_listed data"
proof (induction data arbitrary: g)
  case Nil
  then show ?case by (simp add: tweak_data_def)
next
  case (Cons pt data)
  have t: "page_listed (tweak_data d) = page_listed d" for d by (simp add: page_listed_def tweak_data_def Let_def)
  show ?case using Cons [unfolded t] unfolding t by (simp add: page_listed_def)
qed

lemma longest_Ex: "longest P lins m \<Longrightarrow> \<exists>lin \<in> set lins. P lin"
  by (auto simp: longest_def)

lemma choice_okI:
  assumes srt: "sorted_wrt (\<lambda>p q. length q \<le> length p) (jPartials pt)"
    and ill: "\<And>l. l < length (jPartials pt) \<Longrightarrow> set (dr_illegal (ds ! l)) = stuck_at (jHistory pt) (map Index (jPartials pt ! l))"
    and lg: "largest_ok (jPartials pt) ds largest" and len: "length ds = length (jPartials pt)"
  shows "choice_ok pt i (case first_with (map (map Index) (jPartials pt)) (int i) of Some m \<Rightarrow> Some m | None \<Rightarrow> map_option (int \<circ> fst) (largest (int i)))"
proof (cases "first_with (map (map Index) (jPartials pt)) (int i)")
  case (Some m)
  then have "0 \<le> m" "longest (has_op (int i)) (jPartials pt) (nat m)" using first_with_longest [OF srt, of "int i"] by simp_all
  moreover from longest_Ex [OF this(2)] have "\<exists>lin \<in> set (jPartials pt). has_op (int i) lin" .
  ultimately show ?thesis using Some by (simp add: choice_ok_def) (metis nat_0_le)
next
  case None
  then have no: "\<not> (\<exists>lin \<in> set (jPartials pt). has_op (int i) lin)" using first_with_longest [OF srt, of "int i"] by auto
  have st: "int i \<in> set (dr_illegal (ds ! k)) \<longleftrightarrow> stuck pt i (jPartials pt ! k)" if "k < length (jPartials pt)" for k
    using ill [OF that] by (simp add: stuck_def)
  have lgi: "case largest (int i) of None \<Rightarrow> \<forall>k < length ds. int i \<notin> set (dr_illegal (ds ! k))
     | Some (m, n) \<Rightarrow> m < length ds \<and> int i \<in> set (dr_illegal (ds ! m)) \<and> n = length (jPartials pt ! m) \<and>
         (\<forall>k < length ds. int i \<in> set (dr_illegal (ds ! k)) \<longrightarrow> length (jPartials pt ! k) \<le> n)"
    using lg unfolding largest_ok_def by (rule spec)
  show ?thesis
  proof (cases "largest (int i)")
    case None': None
    then have "\<not> (\<exists>lin \<in> set (jPartials pt). stuck pt i lin)" using lgi st len by (simp add: bex_nth)
    then show ?thesis using None None' no by (simp add: choice_ok_def)
  next
    case (Some mn)
    obtain m n where mn: "mn = (m, n)" by (cases mn)
    have "longest (stuck pt i) (jPartials pt) m" using lgi st len unfolding Some mn longest_def by auto
    moreover from longest_Ex [OF this] have "\<exists>lin \<in> set (jPartials pt). stuck pt i lin" .
    ultimately show ?thesis using None Some mn no by (simp add: choice_ok_def)
  qed
qed

lemma legible_ok:
  assumes dr: "drawable data0" and li: "page_listed data0" and lay: "layout w data0 = Inr lay" and pic: "draw lay = Inr pic"
  shows "legible (l_data lay) pic"
proof -
  let ?D = "l_data lay"
  have D: "?D = tweak_data (gid_data 0 data0)" using layout_ok [OF dr, of w] lay by auto
  have L: "page_listed ?D" using li by (simp add: D listed_layout)
  have dp: "pictures (x_at lay) ?D pic" "error_points ?D (p_errorPoints pic)" "length (p_largestIllegal pic) = length ?D"
    "\<And>p. p < length ?D \<Longrightarrow> \<exists>largest. p_largestIllegal pic ! p = map_option fst \<circ> largest \<and> largest_ok (jPartials (?D ! p)) (p_lins pic ! p) largest"
    using draw_ok [OF dr lay] pic by auto
  have ill: "set (dr_illegal (p_lins pic ! p ! l)) = stuck_at (jHistory (?D ! p)) (map Index (jPartials (?D ! p) ! l))"
    if "p < length ?D" "l < length (jPartials (?D ! p))" for p l
    using dp(1) that by (simp add: pictures_def Let_def)
  have len: "length (p_lins pic) = length ?D" "\<And>p. p < length ?D \<Longrightarrow> length (p_lins pic ! p) = length (jPartials (?D ! p))"
    using dp(1) by (simp_all add: pictures_def)
  have "\<exists>c. linearizationIndex ?D pic (int p) (int i) = Inr c \<and> choice_ok (?D ! p) i c" if on: "on_page ?D p i" for p i
  proof -
    have p: "p < length ?D" using on by (simp add: on_page_def)
    obtain largest where lg: "p_largestIllegal pic ! p = map_option fst \<circ> largest" "largest_ok (jPartials (?D ! p)) (p_lins pic ! p) largest"
      using dp(4) [OF p] by blast
    have "sorted_wrt (\<lambda>p q. length q \<le> length p) (jPartials (?D ! p))" "\<forall>i. jLargest (?D ! p) i = first_with (map (map Index) (jPartials (?D ! p))) i"
      using L nth_mem [OF p] unfolding page_listed_def by blast+
    from choice_okI [OF this(1) ill [OF p] lg(2) len(2) [OF p], of i] this(2) show ?thesis
      using p dp(3) lg(1) by (auto simp: linearizationIndex_def js_at_nat option.map_comp split: option.splits)
  qed
  moreover have "linearizationIndex ?D pic (int p) i = Inr (Some 0)"
    if p: "p < length ?D" "jPartials (?D ! p) \<noteq> []" "has_op i (hd (jPartials (?D ! p)))" for p i
  proof -
    have "jLargest (?D ! p) i = first_with (map (map Index) (jPartials (?D ! p))) i" using L nth_mem [OF p(1)] unfolding page_listed_def by blast
    then have "jLargest (?D ! p) i = Some 0" using p(2,3) by (cases "jPartials (?D ! p)") (auto simp: first_with_def has_op_def)
    then show ?thesis using p(1) by (simp add: linearizationIndex_def)
  qed
  moreover have "steps_in (jHistory pt) lin" if "pt \<in> set ?D" "lin \<in> set (jPartials pt)" for pt lin
  proof -
    have "(jHistory pt, lin) \<in> set (lin_list (tweak_data (gid_data 0 data0)))" using that unfolding D by (auto simp: lin_list_def)
    from tweaked_lin(1) [OF _ this] show ?thesis using dr by (simp add: drawable_gid)
  qed
  ultimately show ?thesis unfolding legible_def using dp(2) ill len by blast
qed

subsection \<open>Views\<close>

text \<open>What is visible is determined by the operation in view, or by none: then the page is an overview.\<close>

type_synonym view = "(nat \<times> nat) option"

definition the_choice :: "jsPartition list \<Rightarrow> picture \<Rightarrow> nat \<Rightarrow> nat \<Rightarrow> int option" where
  "the_choice data pic p i = (case linearizationIndex data pic (int p) (int i) of Inr c \<Rightarrow> c | Inl _ \<Rightarrow> None)"

definition history_view :: "jsPartition list \<Rightarrow> view \<Rightarrow> bool list" where
  "history_view data v = map (\<lambda>k. case v of None \<Rightarrow> False | Some (p, _) \<Rightarrow> k \<noteq> p) [0..<length data]"

definition partial_view :: "jsPartition list \<Rightarrow> picture \<Rightarrow> view \<Rightarrow> bool list list" where
  "partial_view data pic v =
     map (\<lambda>k. map (\<lambda>l. case v of None \<Rightarrow> l \<noteq> 0 | Some (p, i) \<Rightarrow> \<not> (k = p \<and> the_choice data pic p i = Some (int l)))
       [0..<length (jPartials (data ! k))]) [0..<length data]"

definition rect_view :: "jsPartition list \<Rightarrow> view \<Rightarrow> bool list list" where
  "rect_view data v = map (\<lambda>k. map (\<lambda>j. v = Some (k, j)) [0..<length (jHistory (data ! k))]) [0..<length data]"

definition in_view :: "jsPartition list \<Rightarrow> picture \<Rightarrow> view \<Rightarrow> page_state \<Rightarrow> page_state" where
  "in_view data pic v s = updateJump pic (s\<lparr>historyHidden := history_view data v, partialHidden := partial_view data pic v\<rparr>)"

definition laid_out :: "jsPartition list \<Rightarrow> picture \<Rightarrow> page_state \<Rightarrow> bool" where
  "laid_out data pic s \<longleftrightarrow> length (historyHidden s) = length data \<and> map length (partialHidden s) = map (length \<circ> jPartials) data"

lemma list2_eqI:
  assumes "length xss = length yss" and "\<And>k. k < length xss \<Longrightarrow> length (xss ! k) = length (yss ! k)"
    and "\<And>k l. k < length xss \<Longrightarrow> l < length (xss ! k) \<Longrightarrow> xss ! k ! l = yss ! k ! l"
  shows "xss = yss"
  using assms by (intro nth_equalityI) auto

lemma the_choice_ok:
  assumes "legible data pic" and "on_page data p i"
  shows "linearizationIndex data pic (int p) (int i) = Inr (the_choice data pic p i)" "choice_ok (data ! p) i (the_choice data pic p i)"
proof -
  obtain c where "linearizationIndex data pic (int p) (int i) = Inr c \<and> choice_ok (data ! p) i c" using assms unfolding legible_def by blast
  then show "linearizationIndex data pic (int p) (int i) = Inr (the_choice data pic p i)" "choice_ok (data ! p) i (the_choice data pic p i)"
    by (simp_all add: the_choice_def)
qed

lemma choice_cases:
  assumes "choice_ok pt i c"
  obtains "c = None" | m where "c = Some (int m)" "m < length (jPartials pt)"
  using assms by (auto simp: choice_ok_def longest_def split: if_splits)

lemma laid_out_nth: "laid_out data pic s \<Longrightarrow> k < length data \<Longrightarrow> length (partialHidden s ! k) = length (jPartials (data ! k))"
  unfolding laid_out_def by (metis comp_apply length_map nth_map)

lemma laid_out_length: "laid_out data pic s \<Longrightarrow> length (partialHidden s) = length data" "laid_out data pic s \<Longrightarrow> length (historyHidden s) = length data"
  unfolding laid_out_def by (metis length_map)+

lemma highlight_ok:
  assumes leg: "legible data pic" and on: "on_page data p i" and s: "laid_out data pic s"
  shows "highlight data pic (int p) (int i) s = Inr (in_view data pic (Some (p, i)) s)"
proof -
  note ch = the_choice_ok [OF leg on] and len = laid_out_length [OF s] laid_out_nth [OF s]
  have h: "map (\<lambda>k. int k \<noteq> int p) [0..<length (historyHidden s)] = history_view data (Some (p, i))"
    by (simp add: history_view_def len)
  have p: "p < length data" using on by (simp add: on_page_def)
  from ch(2) show ?thesis
  proof (cases rule: choice_cases)
    case 1
    have "map (map (\<lambda>_. True)) (partialHidden s) = partial_view data pic (Some (p, i))"
      by (rule list2_eqI) (simp_all add: partial_view_def len 1)
    then show ?thesis using ch(1) h by (simp add: highlight_def in_view_def 1 Let_def)
  next
    case (2 m)
    let ?new = "(map (map (\<lambda>_. True)) (partialHidden s))[p := (map (\<lambda>_. True) (partialHidden s ! p))[m := False]]"
    have "?new = partial_view data pic (Some (p, i))"
      by (rule list2_eqI) (auto simp: partial_view_def len 2 nth_list_update p)
    then show ?thesis using ch(1) h p 2 len by (simp add: highlight_def in_view_def Let_def)
  qed
qed

lemma resetHighlight_ok:
  assumes s: "laid_out data pic s"
  shows "resetHighlight pic s = in_view data pic None s"
proof -
  note len = laid_out_length [OF s] laid_out_nth [OF s]
  have "map (\<lambda>_. False) (historyHidden s) = history_view data None" by (simp add: history_view_def map_replicate_const len)
  moreover have "map (\<lambda>layers. map (\<lambda>i. i \<noteq> 0) [0..<length layers]) (partialHidden s) = partial_view data pic None"
    by (rule list2_eqI) (simp_all add: partial_view_def len)
  ultimately show ?thesis by (simp add: resetHighlight_def in_view_def)
qed

lemma mark_rect_ok:
  assumes on: "on_page data p i"
  shows "rectSelected s = rect_view data None \<Longrightarrow> mark_rect (int p, int i) True s = Inr (s\<lparr>rectSelected := rect_view data (Some (p, i))\<rparr>)"
    and "rectSelected s = rect_view data (Some (p, i)) \<Longrightarrow> mark_rect (int p, int i) False s = Inr (s\<lparr>rectSelected := rect_view data None\<rparr>)"
proof -
  have p: "p < length data" "i < length (jHistory (data ! p))" using on by (simp_all add: on_page_def)
  have len: "length (rect_view data v) = length data" "p < length data \<Longrightarrow> length (rect_view data v ! p) = length (jHistory (data ! p))" for v
    by (simp_all add: rect_view_def)
  have "(rect_view data None)[p := (rect_view data None ! p)[i := True]] = rect_view data (Some (p, i))"
    using p by (intro list2_eqI) (auto simp: rect_view_def nth_list_update split: if_splits)
  then show "rectSelected s = rect_view data None \<Longrightarrow> mark_rect (int p, int i) True s = Inr (s\<lparr>rectSelected := rect_view data (Some (p, i))\<rparr>)"
    using p len by (simp add: mark_rect_def)
  have "(rect_view data (Some (p, i)))[p := (rect_view data (Some (p, i)) ! p)[i := False]] = rect_view data None"
    using p by (intro list2_eqI) (auto simp: rect_view_def nth_list_update split: if_splits)
  then show "rectSelected s = rect_view data (Some (p, i)) \<Longrightarrow> mark_rect (int p, int i) False s = Inr (s\<lparr>rectSelected := rect_view data None\<rparr>)"
    using p len by (simp add: mark_rect_def)
qed

subsection \<open>The invariant\<close>

lemma updateJump_fields [simp]:
  "selected (updateJump pic s) = selected s" "selectedIndex (updateJump pic s) = selectedIndex s"
  "historyHidden (updateJump pic s) = historyHidden s" "partialHidden (updateJump pic s) = partialHidden s"
  "rectSelected (updateJump pic s) = rectSelected s" "tooltip (updateJump pic s) = tooltip s"
  "tooltipShown (updateJump pic s) = tooltipShown s" "lastTooltip (updateJump pic s) = lastTooltip s"
  by (simp_all add: updateJump_def split: option.splits)

lemma in_view_fields [simp]:
  "selected (in_view data pic v s) = selected s" "selectedIndex (in_view data pic v s) = selectedIndex s"
  "historyHidden (in_view data pic v s) = history_view data v" "partialHidden (in_view data pic v s) = partial_view data pic v"
  "rectSelected (in_view data pic v s) = rectSelected s" "tooltip (in_view data pic v s) = tooltip s"
  "tooltipShown (in_view data pic v s) = tooltipShown s" "lastTooltip (in_view data pic v s) = lastTooltip s"
  by (simp_all add: in_view_def)

text \<open>The link leads to the first point in view, which is the leftmost one.\<close>

definition jump_set :: "picture \<Rightarrow> page_state \<Rightarrow> bool" where
  "jump_set pic s \<longleftrightarrow>
     (case find (\<lambda>pt. \<not> partialHidden s ! ep_partition pt ! ep_lin pt) (p_errorPoints pic) of
        Some ep \<Rightarrow> jumpActive s \<and> jumpTo s = Some ep
      | None \<Rightarrow> \<not> jumpActive s) \<and> (\<forall>ep. jumpTo s = Some ep \<longrightarrow> ep \<in> set (p_errorPoints pic))"

text \<open>The text of the tooltip is the one for \<open>lastTooltip\<close>.\<close>

definition cached :: "(rat \<Rightarrow> string) \<Rightarrow> jsPartition list \<Rightarrow> picture \<Rightarrow> page_state \<Rightarrow> bool" where
  "cached show_num data pic s \<longleftrightarrow> lastTooltip s = no_tooltip \<or>
     (\<exists>p i sel sp si. lastTooltip s = [JNum p, JNum i, JBool sel, JNum sp, JNum si] \<and> tooltip_text show_num data pic sel (sp, si) p i = Inr (tooltip s))"

definition ui_inv :: "(rat \<Rightarrow> string) \<Rightarrow> jsPartition list \<Rightarrow> picture \<Rightarrow> view \<Rightarrow> page_state \<Rightarrow> bool" where
  "ui_inv show_num data pic v s \<longleftrightarrow>
     historyHidden s = history_view data v \<and> partialHidden s = partial_view data pic v \<and> (\<forall>p i. v = Some (p, i) \<longrightarrow> on_page data p i) \<and>
     (selected s \<longrightarrow> (\<exists>p i. v = Some (p, i) \<and> selectedIndex s = (int p, int i))) \<and>
     rectSelected s = rect_view data (if selected s then v else None) \<and> jump_set pic s \<and> cached show_num data pic s"

lemma view_laid_out: "historyHidden s = history_view data v \<Longrightarrow> partialHidden s = partial_view data pic v \<Longrightarrow> laid_out data pic s"
  unfolding laid_out_def by (intro conjI nth_equalityI) (simp_all add: history_view_def partial_view_def)

lemma jump_set_cong: "partialHidden s = partialHidden t \<Longrightarrow> jumpActive s = jumpActive t \<Longrightarrow> jumpTo s = jumpTo t \<Longrightarrow> jump_set pic s = jump_set pic t"
  by (simp add: jump_set_def split: option.splits)

lemma jump_set_update:
  assumes "\<forall>ep. jumpTo s = Some ep \<longrightarrow> ep \<in> set (p_errorPoints pic)"
  shows "jump_set pic (updateJump pic s)"
proof (cases "find (\<lambda>pt. \<not> partialHidden s ! ep_partition pt ! ep_lin pt) (p_errorPoints pic)")
  case (Some ep)
  then have "ep \<in> set (p_errorPoints pic)" by (auto simp: find_Some_iff)
  then show ?thesis using Some by (simp add: jump_set_def updateJump_def)
qed (use assms in \<open>simp add: jump_set_def updateJump_def\<close>)

lemma cached_cong: "lastTooltip s = lastTooltip t \<Longrightarrow> tooltip s = tooltip t \<Longrightarrow> cached sn data pic s = cached sn data pic t"
  by (simp add: cached_def)

lemma jump_set_in_view: "jump_set pic s \<Longrightarrow> jump_set pic (in_view data pic v s)"
  unfolding in_view_def by (rule jump_set_update) (simp add: jump_set_def)

lemma cached_in_view [simp]: "cached sn data pic (in_view data pic' v s) = cached sn data pic s"
  by (rule cached_cong) simp_all

lemma select_inv:
  assumes "legible data pic" and on: "on_page data p i" and "laid_out data pic s" and "rectSelected s = rect_view data None"
    and js: "jump_set pic s" and "cached sn data pic s"
  shows "\<exists>s'. select data pic (int p) (int i) s = Inr s' \<and> ui_inv sn data pic (Some (p, i)) s' \<and> selected s'"
proof -
  let ?s0 = "s\<lparr>selected := True, selectedIndex := (int p, int i)\<rparr>"
  let ?s1 = "in_view data pic (Some (p, i)) ?s0"
  have "laid_out data pic ?s0" using assms(3) by (simp add: laid_out_def)
  from highlight_ok [OF assms(1) on this] have "select data pic (int p) (int i) s = mark_rect (int p, int i) True ?s1"
    by (simp add: select_def)
  also have "\<dots> = Inr (?s1\<lparr>rectSelected := rect_view data (Some (p, i))\<rparr>)" using assms(4) by (intro mark_rect_ok(1) [OF on]) simp
  finally have sel: "select data pic (int p) (int i) s = Inr (?s1\<lparr>rectSelected := rect_view data (Some (p, i))\<rparr>)" .
  have "jump_set pic ?s0" using js jump_set_cong [of ?s0 s pic] by simp
  then have "jump_set pic (?s1\<lparr>rectSelected := rect_view data (Some (p, i))\<rparr>)"
    using jump_set_in_view [of pic ?s0 data "Some (p, i)"] jump_set_cong [of "?s1\<lparr>rectSelected := rect_view data (Some (p, i))\<rparr>" ?s1 pic] by simp
  moreover have "cached sn data pic (?s1\<lparr>rectSelected := rect_view data (Some (p, i))\<rparr>)"
    using assms(6) cached_cong [of "?s1\<lparr>rectSelected := rect_view data (Some (p, i))\<rparr>" s sn data pic] by simp
  ultimately show ?thesis using sel on by (simp add: ui_inv_def)
qed

lemma ui_invD:
  assumes "ui_inv sn data pic v s"
  shows "laid_out data pic s" "jump_set pic s" "cached sn data pic s" "rectSelected s = rect_view data (if selected s then v else None)"
    "selected s \<Longrightarrow> \<exists>p i. v = Some (p, i) \<and> on_page data p i \<and> selectedIndex s = (int p, int i)"
  using assms view_laid_out [of s data v pic] by (auto simp: ui_inv_def)

lemma deselect_inv:
  assumes inv: "ui_inv sn data pic v s"
  shows "\<exists>v' s'. deselect pic s = Inr s' \<and> ui_inv sn data pic v' s'"
proof (cases "selected s")
  case True
  note D = ui_invD [OF inv]
  obtain p i where pi: "v = Some (p, i)" "on_page data p i" "selectedIndex s = (int p, int i)" using D(5) [OF True] by blast
  let ?s0 = "s\<lparr>selected := False\<rparr>"
  let ?s2 = "(in_view data pic None ?s0)\<lparr>rectSelected := rect_view data None\<rparr>"
  have "laid_out data pic ?s0" using D(1) by (simp add: laid_out_def)
  then have "deselect pic s = mark_rect (int p, int i) False (in_view data pic None ?s0)"
    using True pi(3) resetHighlight_ok [of data pic ?s0] by (simp add: deselect_def)
  also have "\<dots> = Inr ?s2" using D(4) True pi(1) by (intro mark_rect_ok(2) [OF pi(2)]) simp
  finally have d: "deselect pic s = Inr ?s2" .
  have "jump_set pic ?s0" using D(2) jump_set_cong [of ?s0 s pic] by simp
  then have "jump_set pic ?s2" using jump_set_in_view [of pic ?s0 data None] jump_set_cong [of ?s2 "in_view data pic None ?s0" pic] by simp
  moreover have "cached sn data pic ?s2" using D(3) cached_cong [of ?s2 s sn data pic] by simp
  ultimately have "ui_inv sn data pic None ?s2" by (simp add: ui_inv_def)
  then show ?thesis using d by blast
qed (use inv in \<open>auto simp: deselect_def\<close>)

lemma click_inv:
  assumes leg: "legible data pic" and on: "on_page data p i" and inv: "ui_inv sn data pic v s"
  shows "\<exists>v' s'. handleClick data pic (int p) (int i) s = Inr s' \<and> ui_inv sn data pic v' s'"
proof -
  note D = ui_invD [OF inv]
  consider "selected s" "(int p, int i) = selectedIndex s" | "selected s" "(int p, int i) \<noteq> selectedIndex s" | "\<not> selected s" by blast
  then show ?thesis
  proof cases
    case 1
    then show ?thesis using deselect_inv [OF inv] by (simp add: handleClick_def)
  next
    case 2
    obtain q j where qj: "v = Some (q, j)" "on_page data q j" "selectedIndex s = (int q, int j)" using D(5) [OF 2(1)] by blast
    let ?s1 = "s\<lparr>rectSelected := rect_view data None\<rparr>"
    have m: "mark_rect (selectedIndex s) False s = Inr ?s1" using D(4) 2(1) qj mark_rect_ok(2) [OF qj(2)] by simp
    have "laid_out data pic ?s1" using D(1) by (simp add: laid_out_def)
    moreover have "jump_set pic ?s1" using D(2) jump_set_cong [of ?s1 s pic] by simp
    moreover have "cached sn data pic ?s1" using D(3) cached_cong [of ?s1 s sn data pic] by simp
    ultimately show ?thesis using select_inv [OF leg on, of ?s1 sn] m 2 by (auto simp: handleClick_def)
  next
    case 3
    then show ?thesis using select_inv [OF leg on D(1) _ D(2,3)] D(4) by (auto simp: handleClick_def)
  qed
qed

lemma over_inv:
  assumes leg: "legible data pic" and on: "on_page data p i" and inv: "ui_inv sn data pic v s"
  shows "\<exists>v' s'. handleMouseOver data pic (int p) (int i) s = Inr s' \<and> ui_inv sn data pic v' s'"
proof -
  note D = ui_invD [OF inv]
  define v' where "v' = (if selected s then v else Some (p, i))"
  define s1 where "s1 = (if selected s then s else in_view data pic (Some (p, i)) s)"
  have h: "handleMouseOver data pic (int p) (int i) s = Inr (s1\<lparr>tooltipShown := True\<rparr>)"
    using highlight_ok [OF leg on D(1)] by (simp add: handleMouseOver_def s1_def)
  have "ui_inv sn data pic v' s1"
    using inv jump_set_in_view [OF D(2), of data "Some (p, i)"] on by (simp add: ui_inv_def s1_def v'_def)
  then have "ui_inv sn data pic v' (s1\<lparr>tooltipShown := True\<rparr>)"
    using jump_set_cong [of "s1\<lparr>tooltipShown := True\<rparr>" s1 pic] cached_cong [of "s1\<lparr>tooltipShown := True\<rparr>" s1 sn data pic] by (simp add: ui_inv_def)
  then show ?thesis using h by blast
qed

lemma out_inv:
  assumes "laid_out data pic s" and "jump_set pic s" and "rectSelected s = rect_view data (if selected s then v else None)"
    and "selected s \<Longrightarrow> ui_inv sn data pic v s"
  shows "\<exists>v'. ui_inv sn data pic v' (handleMouseOut pic s)"
proof -
  define v' where "v' = (if selected s then v else None)"
  define s1 where "s1 = (if selected s then s else in_view data pic None s)"
  let ?s2 = "s1\<lparr>tooltipShown := False, lastTooltip := no_tooltip\<rparr>"
  have h: "handleMouseOut pic s = ?s2" using resetHighlight_ok [OF assms(1)] by (simp add: handleMouseOut_def s1_def Let_def)
  have "jump_set pic s1" using assms(2) jump_set_in_view [OF assms(2), of data None] by (simp add: s1_def)
  then have "jump_set pic ?s2" using jump_set_cong [of ?s2 s1 pic] by simp
  moreover have "cached sn data pic ?s2" by (simp add: cached_def)
  ultimately have "ui_inv sn data pic v' ?s2" using assms(3,4) by (auto simp: ui_inv_def s1_def v'_def)
  then show ?thesis using h by auto
qed

lemma page_start_inv: "\<exists>v. ui_inv sn data pic v (page_start data pic)"
proof -
  let ?s = "\<lparr>selected = False, selectedIndex = (-1, -1), historyHidden = map (\<lambda>_. False) data,
       partialHidden = map (\<lambda>pt. map (\<lambda>_. False) (jPartials pt)) data, rectSelected = map (\<lambda>pt. map (\<lambda>_. False) (jHistory pt)) data,
       tooltip = '''', tooltipShown = True, lastTooltip = no_tooltip, jumpActive = True, jumpTo = None\<rparr>"
  have l: "laid_out data pic ?s" by (simp add: laid_out_def comp_def)
  have r: "rectSelected ?s = rect_view data None" by (intro list2_eqI) (simp_all add: rect_view_def)
  have "jump_set pic (updateJump pic (?s\<lparr>historyHidden := history_view data None, partialHidden := partial_view data pic None\<rparr>))"
    by (rule jump_set_update) simp
  then have j: "jump_set pic (in_view data pic None ?s)" by (simp only: in_view_def)
  let ?t = "(in_view data pic None ?s)\<lparr>tooltipShown := False, lastTooltip := no_tooltip\<rparr>"
  have "page_start data pic = ?t" using resetHighlight_ok [OF l] by (simp add: page_start_def handleMouseOut_def Let_def)
  moreover have "ui_inv sn data pic None ?t"
    using j r jump_set_cong [of ?t "in_view data pic None ?s" pic] by (simp add: ui_inv_def cached_def)
  ultimately show ?thesis by auto
qed

text \<open>The tooltip.\<close>

lemma arrayEq_iff: "arrayEq xs ys \<longleftrightarrow> xs = ys"
  by (induction xs ys rule: arrayEq.induct) auto

lemma stuck_nonempty:
  assumes "legible data pic" and "p < length data" and "l < length (jPartials (data ! p))" and "i \<in> stuck_at (jHistory (data ! p)) (map Index (jPartials (data ! p) ! l))"
  shows "jPartials (data ! p) ! l \<noteq> []"
proof -
  have "error_points data (p_errorPoints pic)" using assms(1) by (simp add: legible_def)
  moreover then obtain ep where "ep \<in> set (p_errorPoints pic)" "ep_partition ep = p" "ep_lin ep = l"
    using assms(2-4) unfolding error_points_def by blast
  ultimately show ?thesis unfolding error_points_def by blast
qed

lemma tooltip_lin_ok:
  assumes leg: "legible data pic" and on: "on_page data p i" and m: "m < length (jPartials (data ! p))"
  shows "\<exists>msg. tooltip_lin sn data pic (int p) (int i) (int m) = Inr msg"
proof -
  have p: "p < length data" "i < length (jHistory (data ! p))" using on by (simp_all add: on_page_def)
  let ?lin = "jPartials (data ! p) ! m"
  have l: "length (p_lins pic) = length data" "length (p_lins pic ! p) = length (jPartials (data ! p))"
    "set (dr_illegal (p_lins pic ! p ! m)) = stuck_at (jHistory (data ! p)) (map Index ?lin)"
    using leg p(1) m unfolding legible_def by blast+
  have "\<exists>lst. js_at ?lin (go_len ?lin - 1) = Inr lst" if "int i \<in> set (dr_illegal (p_lins pic ! p ! m))"
    using stuck_nonempty [OF leg p(1) m that [unfolded l(3)]] by (simp add: js_at_def go_len_def Suc_le_eq)
  then show ?thesis using p m l(1,2) by (auto simp: tooltip_lin_def Let_def split: option.splits)
qed

lemma tooltip_text_ok:
  assumes leg: "legible data pic" and on: "on_page data p i" and sel: "sel \<longrightarrow> (\<exists>q j. on_page data q j \<and> si = (int q, int j))"
  shows "\<exists>msg. tooltip_text sn data pic sel si (int p) (int i) = Inr msg"
proof (cases sel)
  case True
  then obtain q j where qj: "on_page data q j" "si = (int q, int j)" using sel by blast
  note ch = the_choice_ok [OF leg qj(1)]
  from ch(2) show ?thesis
  proof (cases rule: choice_cases)
    case (2 m)
    then show ?thesis using tooltip_lin_ok [OF leg on, of m sn] ch(1) True qj(2) by (auto simp: tooltip_text_def)
  qed (use ch(1) True qj(2) in \<open>simp add: tooltip_text_def\<close>)
next
  case False
  note ch = the_choice_ok [OF leg on]
  from ch(2) show ?thesis
  proof (cases rule: choice_cases)
    case (2 m)
    then show ?thesis using tooltip_lin_ok [OF leg on, of m sn] ch(1) False by (auto simp: tooltip_text_def split: prod.splits)
  qed (use ch(1) False in \<open>simp add: tooltip_text_def split: prod.splits\<close>)
qed

lemma move_ok:
  assumes leg: "legible data pic" and on: "on_page data p i" and inv: "ui_inv sn data pic v s"
  shows "\<exists>s'. handleMouseMove sn data pic (int p) (int i) s = Inr s' \<and> ui_inv sn data pic v s' \<and>
    tooltip_text sn data pic (selected s) (selectedIndex s) (int p) (int i) = Inr (tooltip s')"
proof (cases "lastTooltip s = tooltip_key s (int p) (int i)")
  case True
  then have "tooltip_text sn data pic (selected s) (selectedIndex s) (int p) (int i) = Inr (tooltip s)"
    using ui_invD(3) [OF inv] by (auto simp: cached_def tooltip_key_def no_tooltip_def)
  then show ?thesis using inv True by (simp add: handleMouseMove_def arrayEq_iff)
next
  case False
  have "selected s \<longrightarrow> (\<exists>q j. on_page data q j \<and> selectedIndex s = (int q, int j))" using ui_invD(5) [OF inv] by blast
  from tooltip_text_ok [OF leg on this, of sn]
  obtain msg where msg: "tooltip_text sn data pic (selected s) (selectedIndex s) (int p) (int i) = Inr msg" by blast
  let ?s = "s\<lparr>tooltip := msg, lastTooltip := tooltip_key s (int p) (int i)\<rparr>"
  have "cached sn data pic ?s" using msg by (auto simp: cached_def tooltip_key_def)
  then have "ui_inv sn data pic v ?s" using inv jump_set_cong [of ?s s pic] by (simp add: ui_inv_def)
  then show ?thesis using msg False by (simp add: handleMouseMove_def arrayEq_iff)
qed

text \<open>The link.\<close>

lemma error_point_on_page:
  assumes leg: "legible data pic" and ep: "ep \<in> set (p_errorPoints pic)"
  shows "on_page data (ep_partition ep) (nat (ep_index ep))" "ep_index ep = int (nat (ep_index ep))"
    "ep_lin ep < length (jPartials (data ! ep_partition ep))" "has_op (ep_index ep) (jPartials (data ! ep_partition ep) ! ep_lin ep)"
proof -
  let ?pt = "data ! ep_partition ep" and ?lin = "jPartials (data ! ep_partition ep) ! ep_lin ep"
  have "error_points data (p_errorPoints pic)" using leg by (simp add: legible_def)
  then have e: "ep_partition ep < length data" "ep_lin ep < length (jPartials ?pt)" "?lin \<noteq> []" "ep_index ep = Index (last ?lin)"
    using ep unfolding error_points_def by blast+
  have "steps_in (jHistory ?pt) ?lin" using leg nth_mem [OF e(1)] nth_mem [OF e(2)] unfolding legible_def by blast
  then have "0 \<le> ep_index ep" "nat (ep_index ep) < length (jHistory ?pt)" using e(3,4) last_in_set [OF e(3)] by (auto simp: steps_in_def)
  then show "on_page data (ep_partition ep) (nat (ep_index ep))" "ep_index ep = int (nat (ep_index ep))"
    "ep_lin ep < length (jPartials ?pt)" "has_op (ep_index ep) ?lin" using e by (simp_all add: on_page_def has_op_def)
qed

lemma jump_inv:
  assumes leg: "legible data pic" and inv: "ui_inv sn data pic v s"
  shows "\<exists>v' s'. handleJump data pic s = Inr s' \<and> ui_inv sn data pic v' s' \<and>
    (\<forall>ep. jumpTo s = Some ep \<and> \<not> selected s \<longrightarrow> selected s' \<and> v' = Some (ep_partition ep, nat (ep_index ep)))"
proof (cases "jumpTo s = None \<or> selected s")
  case True
  then show ?thesis using inv by (auto simp: handleJump_def split: option.splits)
next
  case False
  then obtain ep where ep: "jumpTo s = Some ep" by auto
  note D = ui_invD [OF inv]
  have "ep \<in> set (p_errorPoints pic)" using D(2) ep by (simp add: jump_set_def)
  note e = error_point_on_page [OF leg this]
  have "rectSelected s = rect_view data None" using D(4) False by simp
  from select_inv [OF leg e(1) D(1) this D(2,3)] show ?thesis using ep False e(2) by (auto simp: handleJump_def)
qed

lemma handle_inv:
  assumes leg: "legible data pic" and inv: "ui_inv sn data pic v s" and ev: "event_on data e"
  shows "\<exists>v' s'. page_handle sn data pic e s = Inr s' \<and> ui_inv sn data pic v' s'"
proof (cases e)
  case (MouseOver p i)
  then show ?thesis using over_inv [OF leg _ inv] ev by simp
next
  case (MouseMove p i)
  then show ?thesis using move_ok [OF leg _ inv, of p i] ev by auto
next
  case MouseOut
  then show ?thesis using out_inv [OF ui_invD(1,2,4) [OF inv] inv] by simp
next
  case (Click p i)
  then show ?thesis using click_inv [OF leg _ inv] ev by simp
next
  case BgClick
  then show ?thesis using deselect_inv [OF inv] by (simp add: handleBgClick_def)
next
  case Jump
  then show ?thesis using jump_inv [OF leg inv] by auto
qed

lemma handle_all:
  assumes leg: "legible data pic" and "ui_inv sn data pic v s" and "\<forall>e \<in> set events. event_on data e"
  shows "\<exists>v' s'. fold_res (page_handle sn data pic) events s = Inr s' \<and> ui_inv sn data pic v' s'"
  using assms(2,3)
proof (induction events arbitrary: v s)
  case (Cons e events)
  obtain v1 s1 where 1: "page_handle sn data pic e s = Inr s1" "ui_inv sn data pic v1 s1"
    using handle_inv [OF leg Cons.prems(1)] Cons.prems(2) by (metis list.set_intros(1))
  then show ?case using Cons.IH [OF 1(2)] Cons.prems(2) by simp
qed auto

subsection \<open>What the page shows\<close>

text \<open>The linearizations that are visible: partition and number.\<close>

definition visible :: "jsPartition list \<Rightarrow> page_state \<Rightarrow> (nat \<times> nat) set" where
  "visible data s = {(p, l). p < length data \<and> l < length (jPartials (data ! p)) \<and> \<not> partialHidden s ! p ! l}"

text \<open>All operations and the longest linearization of each partition.\<close>

definition overview :: "jsPartition list \<Rightarrow> page_state \<Rightarrow> bool" where
  "overview data s \<longleftrightarrow> (\<forall>p < length data. \<not> historyHidden s ! p) \<and> visible data s = {(p, 0) |p. p < length data \<and> jPartials (data ! p) \<noteq> []}"

text \<open>
  The partition of an operation, and one linearization: a longest one that has the operation, or else a
  longest one that gets stuck at it; none if there is neither.
\<close>

definition focused :: "jsPartition list \<Rightarrow> nat \<Rightarrow> nat \<Rightarrow> page_state \<Rightarrow> bool" where
  "focused data p i s \<longleftrightarrow> (\<forall>k < length data. historyHidden s ! k \<longleftrightarrow> k \<noteq> p) \<and>
     (let lins = jPartials (data ! p); stops = (\<lambda>lin. int i \<in> stuck_at (jHistory (data ! p)) (map Index lin))
      in if \<exists>lin \<in> set lins. has_op (int i) lin then \<exists>m. visible data s = {(p, m)} \<and> longest (has_op (int i)) lins m
         else if \<exists>lin \<in> set lins. stops lin then \<exists>m. visible data s = {(p, m)} \<and> longest stops lins m
         else visible data s = {})"

definition consistent :: "jsPartition list \<Rightarrow> picture \<Rightarrow> page_state \<Rightarrow> bool" where
  "consistent data pic s \<longleftrightarrow>
     (if selected s then \<exists>p i. on_page data p i \<and> selectedIndex s = (int p, int i) \<and> focused data p i s
      else overview data s \<or> (\<exists>p i. on_page data p i \<and> focused data p i s)) \<and>
     (\<forall>p i. on_page data p i \<longrightarrow> rectSelected s ! p ! i = (selected s \<and> selectedIndex s = (int p, int i))) \<and>
     jumpActive s = (\<exists>(p, l) \<in> visible data s. stuck_at (jHistory (data ! p)) (map Index (jPartials (data ! p) ! l)) \<noteq> {}) \<and>
     (jumpActive s \<longrightarrow> (\<exists>ep \<in> set (p_errorPoints pic). jumpTo s = Some ep \<and> (ep_partition ep, ep_lin ep) \<in> visible data s \<and>
        (\<forall>ep' \<in> set (p_errorPoints pic). (ep_partition ep', ep_lin ep') \<in> visible data s \<longrightarrow> ep_x ep \<le> ep_x ep')))"

lemma visible_view:
  assumes "partialHidden s = partial_view data pic v"
  shows "visible data s = {(k, l). k < length data \<and> l < length (jPartials (data ! k)) \<and>
    (case v of None \<Rightarrow> l = 0 | Some (p, i) \<Rightarrow> k = p \<and> the_choice data pic p i = Some (int l))}"
  using assms by (auto simp: visible_def partial_view_def split: option.splits)

lemma view_overview: "historyHidden s = history_view data None \<Longrightarrow> partialHidden s = partial_view data pic None \<Longrightarrow> overview data s"
  unfolding overview_def by (auto simp: visible_view history_view_def)

lemma view_focused:
  assumes leg: "legible data pic" and on: "on_page data p i"
    and s: "historyHidden s = history_view data (Some (p, i))" "partialHidden s = partial_view data pic (Some (p, i))"
  shows "focused data p i s"
proof -
  note ch = the_choice_ok(2) [OF leg on]
  have p: "p < length data" using on by (simp add: on_page_def)
  have vis: "visible data s = {(p, l) |l. l < length (jPartials (data ! p)) \<and> the_choice data pic p i = Some (int l)}"
    unfolding visible_view [OF s(2)] using p by auto
  have one: "visible data s = {(p, m)}" if "the_choice data pic p i = Some (int m)" "longest P (jPartials (data ! p)) m" for m P
    using that unfolding vis by (auto simp: longest_def)
  have h: "\<forall>k < length data. historyHidden s ! k \<longleftrightarrow> k \<noteq> p" by (simp add: s(1) history_view_def)
  have st: "stuck (data ! p) i = (\<lambda>lin. int i \<in> stuck_at (jHistory (data ! p)) (map Index lin))" by (simp add: stuck_def fun_eq_iff)
  consider m where "\<exists>lin \<in> set (jPartials (data ! p)). has_op (int i) lin" "the_choice data pic p i = Some (int m)" "longest (has_op (int i)) (jPartials (data ! p)) m"
    | m where "\<not> (\<exists>lin \<in> set (jPartials (data ! p)). has_op (int i) lin)" "\<exists>lin \<in> set (jPartials (data ! p)). stuck (data ! p) i lin"
        "the_choice data pic p i = Some (int m)" "longest (stuck (data ! p) i) (jPartials (data ! p)) m"
    | "\<not> (\<exists>lin \<in> set (jPartials (data ! p)). has_op (int i) lin)" "\<not> (\<exists>lin \<in> set (jPartials (data ! p)). stuck (data ! p) i lin)" "the_choice data pic p i = None"
    using ch unfolding choice_ok_def by (auto split: if_splits)
  then show ?thesis
  proof cases
    case (1 m)
    then show ?thesis using h one [OF 1(2,3)] unfolding focused_def Let_def by auto
  next
    case (2 m)
    then show ?thesis using h one [OF 2(3,4)] unfolding focused_def Let_def st by auto
  next
    case 3
    then have "visible data s = {}" unfolding vis by simp
    then show ?thesis using h 3(1,2) unfolding focused_def Let_def st by simp
  qed
qed

lemma jump_consistent:
  assumes leg: "legible data pic" and js: "jump_set pic s"
  shows "jumpActive s = (\<exists>(p, l) \<in> visible data s. stuck_at (jHistory (data ! p)) (map Index (jPartials (data ! p) ! l)) \<noteq> {})"
    and "jumpActive s \<Longrightarrow> \<exists>ep \<in> set (p_errorPoints pic). jumpTo s = Some ep \<and> (ep_partition ep, ep_lin ep) \<in> visible data s \<and>
        (\<forall>ep' \<in> set (p_errorPoints pic). (ep_partition ep', ep_lin ep') \<in> visible data s \<longrightarrow> ep_x ep \<le> ep_x ep')"
proof -
  let ?eps = "p_errorPoints pic" and ?H = "\<lambda>ep. \<not> partialHidden s ! ep_partition ep ! ep_lin ep"
  have E: "error_points data ?eps" using leg by (simp add: legible_def)
  have vis: "(ep_partition ep, ep_lin ep) \<in> visible data s \<longleftrightarrow> ?H ep" if "ep \<in> set ?eps" for ep
    using error_point_on_page(1,3) [OF leg that] by (simp add: visible_def on_page_def)
  have ex: "(\<exists>(p, l) \<in> visible data s. stuck_at (jHistory (data ! p)) (map Index (jPartials (data ! p) ! l)) \<noteq> {}) \<longleftrightarrow> (\<exists>ep \<in> set ?eps. ?H ep)"
  proof
    assume "\<exists>(p, l) \<in> visible data s. stuck_at (jHistory (data ! p)) (map Index (jPartials (data ! p) ! l)) \<noteq> {}"
    then obtain p l where pl: "(p, l) \<in> visible data s" "stuck_at (jHistory (data ! p)) (map Index (jPartials (data ! p) ! l)) \<noteq> {}" by blast
    then have "p < length data" "l < length (jPartials (data ! p))" by (simp_all add: visible_def)
    then obtain ep where "ep \<in> set ?eps" "ep_partition ep = p" "ep_lin ep = l" using E pl(2) unfolding error_points_def by blast
    then show "\<exists>ep \<in> set ?eps. ?H ep" using vis pl(1) by blast
  next
    assume "\<exists>ep \<in> set ?eps. ?H ep"
    then obtain ep where ep: "ep \<in> set ?eps" "?H ep" by blast
    then have v: "(ep_partition ep, ep_lin ep) \<in> visible data s" using vis by blast
    then have "ep_partition ep < length data" "ep_lin ep < length (jPartials (data ! ep_partition ep))" by (simp_all add: visible_def)
    then have "stuck_at (jHistory (data ! ep_partition ep)) (map Index (jPartials (data ! ep_partition ep) ! ep_lin ep)) \<noteq> {}"
      using E ep(1) unfolding error_points_def by blast
    then show "\<exists>(p, l) \<in> visible data s. stuck_at (jHistory (data ! p)) (map Index (jPartials (data ! p) ! l)) \<noteq> {}" using v by blast
  qed
  have find: "jumpActive s \<longleftrightarrow> (\<exists>ep. find ?H ?eps = Some ep)" "find ?H ?eps = Some ep \<Longrightarrow> jumpTo s = Some ep" for ep
    using js by (auto simp: jump_set_def split: option.splits)
  have "(\<exists>ep. find ?H ?eps = Some ep) \<longleftrightarrow> (\<exists>ep \<in> set ?eps. ?H ep)" using find_None_iff [of ?H ?eps] by auto
  then show "jumpActive s = (\<exists>(p, l) \<in> visible data s. stuck_at (jHistory (data ! p)) (map Index (jPartials (data ! p) ! l)) \<noteq> {})"
    using find(1) ex by simp
  assume "jumpActive s"
  then obtain ep where ep: "find ?H ?eps = Some ep" using find(1) by blast
  then obtain n where n: "n < length ?eps" "?H (?eps ! n)" "ep = ?eps ! n" "\<And>k. k < n \<Longrightarrow> \<not> ?H (?eps ! k)" by (auto simp: find_Some_iff)
  have "ep_x ep \<le> ep_x ep'" if ep': "ep' \<in> set ?eps" "(ep_partition ep', ep_lin ep') \<in> visible data s" for ep'
  proof -
    obtain k where k: "k < length ?eps" "ep' = ?eps ! k" using ep'(1) by (metis in_set_conv_nth)
    then have "n \<le> k" using n(4) [of k] vis [OF ep'(1)] ep'(2) by (meson not_le)
    moreover have "sorted (map ep_x ?eps)" using E by (simp add: error_points_def)
    ultimately show ?thesis using sorted_nth_mono [of "map ep_x ?eps" n k] k n(1,3) by simp
  qed
  then show "\<exists>ep \<in> set ?eps. jumpTo s = Some ep \<and> (ep_partition ep, ep_lin ep) \<in> visible data s \<and>
        (\<forall>ep' \<in> set ?eps. (ep_partition ep', ep_lin ep') \<in> visible data s \<longrightarrow> ep_x ep \<le> ep_x ep')"
    using n(1-3) find(2) [OF ep] vis [of ep] by (intro bexI [of _ ep]) auto
qed

lemma inv_consistent:
  assumes leg: "legible data pic" and inv: "ui_inv sn data pic v s"
  shows "consistent data pic s"
proof -
  note D = ui_invD [OF inv]
  have v: "historyHidden s = history_view data v" "partialHidden s = partial_view data pic v" "\<And>p i. v = Some (p, i) \<Longrightarrow> on_page data p i"
    using inv by (simp_all add: ui_inv_def)
  have foc: "v = Some (p, i) \<Longrightarrow> on_page data p i \<and> focused data p i s" for p i
    using view_focused [OF leg, of p i s] v by simp
  have "if selected s then \<exists>p i. on_page data p i \<and> selectedIndex s = (int p, int i) \<and> focused data p i s
      else overview data s \<or> (\<exists>p i. on_page data p i \<and> focused data p i s)"
  proof (cases v)
    case None
    then show ?thesis using D(5) view_overview v by auto
  next
    case (Some a)
    then show ?thesis using D(5) foc by (cases a) auto
  qed
  moreover have "rectSelected s ! p ! i = (selected s \<and> selectedIndex s = (int p, int i))" if "on_page data p i" for p i
    using that D(4,5) by (auto simp: rect_view_def on_page_def)
  ultimately show ?thesis unfolding consistent_def using jump_consistent [OF leg D(2)] by blast
qed

text \<open>From the overview the link selects the last operation before the leftmost error, and the linearization stays in view.\<close>

lemma jump_visible:
  assumes leg: "legible data pic" and inv: "ui_inv sn data pic v s" and ov: "overview data s" "\<not> selected s" and act: "jumpActive s"
  shows "\<exists>ep s'. jumpTo s = Some ep \<and> handleJump data pic s = Inr s' \<and> selected s' \<and> (ep_partition ep, ep_lin ep) \<in> visible data s'"
proof -
  obtain ep where ep: "ep \<in> set (p_errorPoints pic)" "jumpTo s = Some ep" "(ep_partition ep, ep_lin ep) \<in> visible data s"
    using jump_consistent(2) [OF leg ui_invD(2) [OF inv] act] by blast
  note e = error_point_on_page [OF leg ep(1)]
  let ?p = "ep_partition ep"
  have p: "ep_lin ep = 0" "jPartials (data ! ?p) \<noteq> []" "?p < length data" using ep(3) ov(1) by (auto simp: overview_def)
  obtain v' s' where s': "handleJump data pic s = Inr s'" "ui_inv sn data pic v' s'" "selected s'" "v' = Some (?p, nat (ep_index ep))"
    using jump_inv [OF leg inv] ep(2) ov(2) by blast
  have "has_op (ep_index ep) (hd (jPartials (data ! ?p)))" using e(4) p(1,2) by (simp add: hd_conv_nth)
  then have "linearizationIndex data pic (int ?p) (ep_index ep) = Inr (Some 0)" using leg p(2,3) unfolding legible_def by blast
  then have "the_choice data pic ?p (nat (ep_index ep)) = Some 0" using e(2) by (simp add: the_choice_def)
  moreover have "partialHidden s' = partial_view data pic v'" using s'(2) by (simp add: ui_inv_def)
  from visible_view [OF this] have "(?p, ep_lin ep) \<in> visible data s' \<longleftrightarrow> the_choice data pic ?p (nat (ep_index ep)) = Some 0"
    using s'(4) p by simp
  ultimately show ?thesis using ep(2) s'(1,3) by blast
qed

text \<open>The tooltip shows the text for the operation under the mouse, and the link keeps its point in view.\<close>

definition responsive :: "(rat \<Rightarrow> string) \<Rightarrow> jsPartition list \<Rightarrow> picture \<Rightarrow> page_state \<Rightarrow> bool" where
  "responsive show_num data pic s \<longleftrightarrow>
     (\<forall>p i. on_page data p i \<longrightarrow> (\<exists>s'. handleMouseMove show_num data pic (int p) (int i) s = Inr s' \<and>
        tooltip_text show_num data pic (selected s) (selectedIndex s) (int p) (int i) = Inr (tooltip s'))) \<and>
     (overview data s \<and> \<not> selected s \<and> jumpActive s \<longrightarrow>
        (\<exists>ep s'. jumpTo s = Some ep \<and> handleJump data pic s = Inr s' \<and> selected s' \<and> (ep_partition ep, ep_lin ep) \<in> visible data s'))"

lemma page_events_ok:
  assumes leg: "legible data pic" and ev: "\<forall>e \<in> set events. event_on data e"
  shows "\<exists>s. fold_res (page_handle show_num data pic) events (page_start data pic) = Inr s \<and> consistent data pic s \<and> responsive show_num data pic s"
proof -
  obtain v0 where "ui_inv show_num data pic v0 (page_start data pic)" using page_start_inv by blast
  from handle_all [OF leg this ev] obtain v s where s: "fold_res (page_handle show_num data pic) events (page_start data pic) = Inr s" "ui_inv show_num data pic v s" by blast
  moreover have "responsive show_num data pic s" unfolding responsive_def using move_ok [OF leg _ s(2)] jump_visible [OF leg s(2)] by meson
  ultimately show ?thesis using inv_consistent [OF leg s(2)] by blast
qed

lemma page_legible:
  assumes "drawable data" and "page_listed data"
  shows "\<exists>lay pic. layout text_width data = Inr lay \<and> draw lay = Inr pic \<and> legible (l_data lay) pic"
  using layout_ok [OF assms(1), of text_width] draw_ok [OF assms(1), of text_width] legible_ok [OF assms, of text_width] by meson

text \<open>
  C24: The page of a check never fails and always shows what is selected. Whatever the user does with
  the boxes, the background and the link, no handler of the page of a verbose check meets an undefined
  value, and after each sequence of events: at most one box is marked, the one of the selected operation;
  what is visible is the partition of the selected operation (or of the one under the mouse) with one
  linearization, a longest one that has the operation or else a longest one that gets stuck at it, or the
  overview with the longest linearization of every partition; the link is active exactly when a visible
  linearization gets stuck, and leads to the leftmost such point; from the overview a click on it
  selects an operation and keeps that point in view; and the text of the tooltip is never stale.
\<close>

theorem page_reacts:
  assumes "time_sort srt" and "length_sort lsrt" and "good_equality md" and "\<forall>xs. set (ro xs) \<subseteq> set xs"
    and "subs = (case Partition md of None \<Rightarrow> NoPartition | Some p \<Rightarrow> p) ops" and "subs \<noteq> []"
    and "\<forall>sub \<in> set subs. (\<forall>x \<in> set sub. Call x < Return x) \<and> length sub < 2 ^ 63"
    and "all_arrive (length subs) js"
  shows "\<exists>f0. \<forall>fuel \<ge> f0. \<exists>r lin data lay pic.
    CheckOperationsVerbose fuel ro srt fmtv fmts md ops timeout (\<lambda>_ _. False) (map Arrive js) = Some (Inr (r, lin)) \<and>
    computeVisualizationData lsrt fmtv fmts md lin = Inr data \<and>
    layout text_width (map js_partition data) = Inr lay \<and> draw lay = Inr pic \<and>
    (\<forall>events. (\<forall>e \<in> set events. event_on (l_data lay) e) \<longrightarrow>
      (\<exists>s. fold_res (page_handle show_num (l_data lay) pic) events (page_start (l_data lay) pic) = Inr s \<and>
        consistent (l_data lay) pic s \<and> responsive show_num (l_data lay) pic s))"
proof -
  note ev = page_events_ok [where show_num = show_num]
  from checked_data [OF assms, of fmtv fmts] obtain f0 where f0: "\<And>fuel. f0 \<le> fuel \<Longrightarrow> \<exists>r lin data.
    CheckOperationsVerbose fuel ro srt fmtv fmts md ops timeout (\<lambda>_ _. False) (map Arrive js) = Some (Inr (r, lin)) \<and>
    computeVisualizationData lsrt fmtv fmts md lin = Inr data \<and> drawable (map js_partition data) \<and> page_listed (map js_partition data)" by blast
  then show ?thesis using page_legible [of _ text_width] ev by (intro exI [of _ f0] allI impI) meson
qed

text \<open>The page of the sample history: a click on the link and one on the background.\<close>

theorem page_reacts_witness:
  "\<exists>f0. \<forall>fuel \<ge> f0. \<exists>r lin data lay pic.
    CheckOperationsVerbose fuel id (sort_key time) fmt0 fmt0 KvModel sample_ops 0 (\<lambda>_ _. False) (map Arrive [0, 1]) = Some (Inr (r, lin)) \<and>
    computeVisualizationData (sort_key (\<lambda>q. - int (length q))) fmt0 fmt0 KvModel lin = Inr data \<and>
    layout (\<lambda>d. 6 * of_nat (length d)) (map js_partition data) = Inr lay \<and> draw lay = Inr pic \<and>
    (\<exists>s. fold_res (page_handle (\<lambda>_. ''0'') (l_data lay) pic) [MouseOut, Jump, BgClick] (page_start (l_data lay) pic) = Inr s \<and>
       consistent (l_data lay) pic s)"
proof -
  have "good_equality KvModel" by (rule good_equality_default) (simp add: KvModel_def)
  from page_reacts [where ro = id and js = "[0, 1]" and fmtv = fmt0 and fmts = fmt0 and text_width = "\<lambda>d. 6 * of_nat (length d)" and show_num = "\<lambda>_. ''0''",
      OF by_time.time_sort_axioms by_length.length_sort_axioms this _ sample_partition _ sample_subs]
  obtain f0 where f0: "\<And>fuel. f0 \<le> fuel \<Longrightarrow> \<exists>r lin data lay pic.
    CheckOperationsVerbose fuel id (sort_key time) fmt0 fmt0 KvModel sample_ops 0 (\<lambda>_ _. False) (map Arrive [0, 1]) = Some (Inr (r, lin)) \<and>
    computeVisualizationData (sort_key (\<lambda>q. - int (length q))) fmt0 fmt0 KvModel lin = Inr data \<and>
    layout (\<lambda>d. 6 * of_nat (length d)) (map js_partition data) = Inr lay \<and> draw lay = Inr pic \<and>
    (\<forall>events. (\<forall>e \<in> set events. event_on (l_data lay) e) \<longrightarrow>
      (\<exists>s. fold_res (page_handle (\<lambda>_. ''0'') (l_data lay) pic) events (page_start (l_data lay) pic) = Inr s \<and>
        consistent (l_data lay) pic s \<and> responsive (\<lambda>_. ''0'') (l_data lay) pic s))"
    by (simp add: all_arrive_def atLeast0_lessThan_Suc insert_commute numeral_2_eq_2) blast
  moreover have "\<forall>e \<in> set [MouseOut, Jump, BgClick]. event_on data e" for data by simp
  ultimately show ?thesis by (intro exI [of _ f0] allI impI) meson
qed

end
