(* ===== verification/Lab_Programs.thy ===== *)
theory Lab_Programs
  imports MR_Encoding
begin

section \<open>The programs of the older labs (main/diskvd.go, lockc.go, lockd.go, pbc.go, pbd.go, viewd.go; raft/util.go)\<close>

text \<open>
  These programs read their command line and start a server or make a call. The packages that they
  use (\<open>diskv\<close>, \<open>lockservice\<close>, \<open>pbservice\<close>, \<open>viewservice\<close>) are not part of the repository: their
  functions are parameters, which change a state of any type. A program prints and exits with status 1, or
  returns having printed, or sleeps forever with its servers running, or kills itself after ten minutes.
\<close>

datatype program_end = Exit1 string | Return string | Sleeps | KillsItself

subsection \<open>strconv\<close>

text \<open>\<open>ParseUint\<close> in base 10 with 64 bits, from its loop; the error says whether it is one of range.\<close>

fun ParseUint_loop :: "nat \<Rightarrow> string \<Rightarrow> bool + nat" where
  "ParseUint_loop n [] = Inr n"
| "ParseUint_loop n (c # cs) =
     (if \<not> is_digit c then Inl False
      else let n1 = n * 10 + (of_char c - 48) in if n1 > 2 ^ 64 - 1 then Inl True else ParseUint_loop n1 cs)"

definition ParseUint :: "string \<Rightarrow> bool + nat" where
  "ParseUint s = (if s = [] then Inl False else ParseUint_loop 0 s)"

text \<open>The value, and whether there is no error; the value is the nearest one when it is out of range.\<close>

definition ParseInt :: "string \<Rightarrow> int \<times> bool" where
  "ParseInt s =
     (let neg = (s \<noteq> [] \<and> hd s = CHR ''-''); t = (if s \<noteq> [] \<and> (hd s = CHR ''+'' \<or> hd s = CHR ''-'') then tl s else s)
      in case ParseUint t of
           Inl False \<Rightarrow> (0, False)
         | Inl True \<Rightarrow> (if neg then - (2 ^ 63) else 2 ^ 63 - 1, False)
         | Inr un \<Rightarrow>
             if \<not> neg \<and> un \<ge> 2 ^ 63 then (2 ^ 63 - 1, False)
             else if neg \<and> un > 2 ^ 63 then (- (2 ^ 63), False)
             else (if neg then - int un else int un, True))"

definition Atoi :: "string \<Rightarrow> int \<times> bool" where
  "Atoi s = ParseInt s"

definition ParseBool :: "string \<Rightarrow> bool \<times> bool" where
  "ParseBool s =
     (if s \<in> set [''1'', ''t'', ''T'', ''true'', ''TRUE'', ''True''] then (True, True)
      else if s \<in> set [''0'', ''f'', ''F'', ''false'', ''FALSE'', ''False''] then (False, True)
      else (False, False))"

subsection \<open>diskvd\<close>

record diskvd_vars =
  dv_gid :: int
  dv_masters :: "string list"
  dv_replicas :: "string list"
  dv_me :: int
  dv_unreliable :: bool
  dv_dir :: string
  dv_restart :: bool

definition diskvd_vars0 :: diskvd_vars where
  "diskvd_vars0 = \<lparr>dv_gid = - 1, dv_masters = [], dv_replicas = [], dv_me = - 1, dv_unreliable = False, dv_dir = '''', dv_restart = False\<rparr>"

definition diskvd_usage :: string where
  "diskvd_usage = ''Usage: diskvd -g gid -m master... -s server... -i my-index -d dir'' @ [char_of (10 :: nat)]"

text \<open>The loop over pairs of arguments; a last argument without a partner is not looked at.\<close>

fun diskvd_args :: "string list \<Rightarrow> diskvd_vars \<Rightarrow> string + diskvd_vars" where
  "diskvd_args (a0 # a1 # as) v =
     (if a0 = ''-g'' then diskvd_args as (v\<lparr>dv_gid := fst (ParseInt a1)\<rparr>)
      else if a0 = ''-m'' then diskvd_args as (v\<lparr>dv_masters := dv_masters v @ [a1]\<rparr>)
      else if a0 = ''-s'' then diskvd_args as (v\<lparr>dv_replicas := dv_replicas v @ [a1]\<rparr>)
      else if a0 = ''-i'' then diskvd_args as (v\<lparr>dv_me := fst (Atoi a1)\<rparr>)
      else if a0 = ''-u'' then diskvd_args as (v\<lparr>dv_unreliable := fst (ParseBool a1)\<rparr>)
      else if a0 = ''-d'' then diskvd_args as (v\<lparr>dv_dir := a1\<rparr>)
      else if a0 = ''-r'' then diskvd_args as (v\<lparr>dv_restart := fst (ParseBool a1)\<rparr>)
      else Inl diskvd_usage)"
| "diskvd_args _ v = Inr v"

definition diskvd_main ::
  "(int \<Rightarrow> string list \<Rightarrow> string list \<Rightarrow> int \<Rightarrow> string \<Rightarrow> bool \<Rightarrow> 'w \<Rightarrow> 'srv \<times> 'w) \<Rightarrow> ('srv \<Rightarrow> bool \<Rightarrow> 'w \<Rightarrow> 'w) \<Rightarrow> string list \<Rightarrow> 'w \<Rightarrow> program_end \<times> 'w" where
  "diskvd_main StartServer Setunreliable args w =
     (case diskvd_args (drop 1 args) diskvd_vars0 of
        Inl msg \<Rightarrow> (Exit1 msg, w)
      | Inr v \<Rightarrow>
          if dv_gid v < 0 \<or> dv_me v < 0 \<or> length (dv_masters v) < 1 \<or> dv_me v \<ge> int (length (dv_replicas v)) \<or> dv_dir v = ''''
          then (Exit1 diskvd_usage, w)
          else (case StartServer (dv_gid v) (dv_masters v) (dv_replicas v) (dv_me v) (dv_dir v) (dv_restart v) w of
                  (srv, w1) \<Rightarrow> (KillsItself, Setunreliable srv (dv_unreliable v) w1)))"

subsection \<open>The lock service and the primary/backup service\<close>

definition bool_v :: "bool \<Rightarrow> string" where
  "bool_v b = (if b then ''true'' else ''false'')"

definition newline :: string where
  "newline = [char_of (10 :: nat)]"

text \<open>The clerk is made before the flag is looked at.\<close>

definition lockc_main ::
  "(string \<Rightarrow> string \<Rightarrow> 'w \<Rightarrow> 'ck \<times> 'w) \<Rightarrow> ('ck \<Rightarrow> string \<Rightarrow> 'w \<Rightarrow> bool \<times> 'w) \<Rightarrow> ('ck \<Rightarrow> string \<Rightarrow> 'w \<Rightarrow> bool \<times> 'w) \<Rightarrow> string list \<Rightarrow> 'w \<Rightarrow>
   program_end \<times> 'w" where
  "lockc_main MakeClerk Lock Unlock args w =
     (let usage = Exit1 (''Usage: lockc -l|-u primaryport backupport lockname'' @ newline) in
      if length args = 5
      then (case MakeClerk (args ! 2) (args ! 3) w of (ck, w1) \<Rightarrow>
              if args ! 1 = ''-l'' then (case Lock ck (args ! 4) w1 of (ok, w2) \<Rightarrow> (Return (''reply: '' @ bool_v ok @ newline), w2))
              else if args ! 1 = ''-u'' then (case Unlock ck (args ! 4) w1 of (ok, w2) \<Rightarrow> (Return (''reply: '' @ bool_v ok @ newline), w2))
              else (usage, w1))
      else (usage, w))"

definition lockd_main :: "(string \<Rightarrow> string \<Rightarrow> bool \<Rightarrow> 'w \<Rightarrow> 'w) \<Rightarrow> string list \<Rightarrow> 'w \<Rightarrow> program_end \<times> 'w" where
  "lockd_main StartServer args w =
     (if length args = 4 \<and> args ! 1 = ''-p'' then (Sleeps, StartServer (args ! 2) (args ! 3) True w)
      else if length args = 4 \<and> args ! 1 = ''-b'' then (Sleeps, StartServer (args ! 2) (args ! 3) False w)
      else (Exit1 (''Usage: lockd -p|-b primaryport backupport'' @ newline), w))"

definition pbc_main ::
  "(string \<Rightarrow> string \<Rightarrow> 'w \<Rightarrow> 'ck \<times> 'w) \<Rightarrow> ('ck \<Rightarrow> string \<Rightarrow> 'w \<Rightarrow> string \<times> 'w) \<Rightarrow> ('ck \<Rightarrow> string \<Rightarrow> string \<Rightarrow> 'w \<Rightarrow> 'w) \<Rightarrow> string list \<Rightarrow> 'w \<Rightarrow>
   program_end \<times> 'w" where
  "pbc_main MakeClerk Get Put args w =
     (if length args = 3
      then (case MakeClerk (args ! 1) '''' w of (ck, w1) \<Rightarrow> case Get ck (args ! 2) w1 of (v, w2) \<Rightarrow> (Return (v @ newline), w2))
      else if length args = 4
      then (case MakeClerk (args ! 1) '''' w of (ck, w1) \<Rightarrow> (Return '''', Put ck (args ! 2) (args ! 3) w1))
      else (Exit1 (''Usage: pbc viewport key'' @ newline @ ''       pbc viewport key value'' @ newline), w))"

definition pbd_main :: "(string \<Rightarrow> string \<Rightarrow> 'w \<Rightarrow> 'w) \<Rightarrow> string list \<Rightarrow> 'w \<Rightarrow> program_end \<times> 'w" where
  "pbd_main StartServer args w =
     (if length args \<noteq> 3 then (Exit1 (''Usage: pbd viewport myport'' @ newline), w)
      else (Sleeps, StartServer (args ! 1) (args ! 2) w))"

definition viewd_main :: "(string \<Rightarrow> 'w \<Rightarrow> 'w) \<Rightarrow> string list \<Rightarrow> 'w \<Rightarrow> program_end \<times> 'w" where
  "viewd_main StartServer args w =
     (if length args \<noteq> 2 then (Exit1 (''Usage: viewd port'' @ newline), w)
      else (Sleeps, StartServer (args ! 1) w))"

subsection \<open>Debugging output of Raft\<close>

definition Debug :: int where "Debug = 0"

text \<open>\<open>Printf\<close> is that of package \<open>log\<close>; the named results are never set.\<close>

definition DPrintf :: "(string \<Rightarrow> 'a list \<Rightarrow> 'w \<Rightarrow> 'w) \<Rightarrow> string \<Rightarrow> 'a list \<Rightarrow> 'w \<Rightarrow> (int \<times> string option) \<times> 'w" where
  "DPrintf Printf format a w = ((0, None), if Debug > 0 then Printf format a w else w)"

subsection \<open>What they do\<close>

lemma ParseUint_loop_snoc:
  assumes "ParseUint_loop n s = Inr m" and "d < 10" and "m * 10 + d < 2 ^ 64"
  shows "ParseUint_loop n (s @ [char_of (48 + d)]) = Inr (m * 10 + d)"
  using assms(1)
proof (induction s arbitrary: n)
  case Nil
  have "is_digit (char_of (48 + d))" using assms(2) by (rule is_digit_char_of)
  then show ?case using Nil assms(2,3) by (simp add: of_char_of Let_def)
next
  case (Cons c s)
  then show ?case by (auto simp: Let_def split: if_splits)
qed

lemma ParseUint_loop_digits: "n < 2 ^ 64 \<Longrightarrow> ParseUint_loop 0 (digits n) = Inr n"
proof (induction n rule: digits.induct)
  case (1 n)
  show ?case
  proof (cases "n < 10")
    case True
    then show ?thesis using ParseUint_loop_snoc [of 0 "[]" 0 n] by (simp add: digits.simps)
  next
    case False
    then have "ParseUint_loop 0 (digits (n div 10)) = Inr (n div 10)" using 1 by simp
    from ParseUint_loop_snoc [OF this, of "n mod 10"] show ?thesis using False 1(2) digits.simps [of n] by simp
  qed
qed

lemma ParseInt_Itoa:
  assumes "- (2 ^ 63) \<le> i" and "i < 2 ^ 63"
  shows "ParseInt (Itoa i) = (i, True)"
proof -
  have sign: "hd (digits n) \<noteq> CHR ''+'' \<and> hd (digits n) \<noteq> CHR ''-''" for n
    using digits_are_digits [OF hd_in_set [OF digits_nonempty], of n] by (auto simp: is_digit_def)
  have parse: "ParseUint (digits n) = Inr n" if "n < 2 ^ 64" for n
    using ParseUint_loop_digits [OF that] by (simp add: ParseUint_def)
  show ?thesis
  proof (cases "i < 0")
    case True
    then have "ParseUint (digits (nat (- i))) = Inr (nat (- i))" using assms by (intro parse) simp
    moreover have "\<not> nat (- i) > 2 ^ 63" using assms by simp
    ultimately show ?thesis using True by (simp add: ParseInt_def Itoa_def Let_def)
  next
    case False
    then have "ParseUint (digits (nat i)) = Inr (nat i)" using assms by (intro parse) simp
    moreover have "\<not> nat i \<ge> 2 ^ 63" using assms False by simp
    ultimately show ?thesis using False sign [of "nat i"] by (simp add: ParseInt_def Itoa_def Let_def)
  qed
qed

lemma ParseBool_v: "ParseBool (bool_v b) = (b, True)"
  by (cases b) (simp_all add: ParseBool_def bool_v_def)

text \<open>The command line for the values of the variables, with the flags in the order of the usage message.\<close>

definition diskvd_command :: "diskvd_vars \<Rightarrow> string list" where
  "diskvd_command v = [''diskvd'', ''-g'', Itoa (dv_gid v)] @ concat (map (\<lambda>m. [''-m'', m]) (dv_masters v)) @ concat (map (\<lambda>s. [''-s'', s]) (dv_replicas v)) @
     [''-i'', Itoa (dv_me v), ''-d'', dv_dir v, ''-u'', bool_v (dv_unreliable v), ''-r'', bool_v (dv_restart v)]"

definition diskvd_valid :: "diskvd_vars \<Rightarrow> bool" where
  "diskvd_valid v \<longleftrightarrow> 0 \<le> dv_gid v \<and> dv_gid v < 2 ^ 63 \<and> dv_masters v \<noteq> [] \<and> 0 \<le> dv_me v \<and> dv_me v < int (length (dv_replicas v)) \<and> dv_me v < 2 ^ 63 \<and> dv_dir v \<noteq> ''''"

lemma diskvd_masters: "diskvd_args (concat (map (\<lambda>m. [''-m'', m]) ms) @ as) v = diskvd_args as (v\<lparr>dv_masters := dv_masters v @ ms\<rparr>)"
  by (induction ms arbitrary: v) simp_all

lemma diskvd_replicas: "diskvd_args (concat (map (\<lambda>m. [''-s'', m]) ms) @ as) v = diskvd_args as (v\<lparr>dv_replicas := dv_replicas v @ ms\<rparr>)"
  by (induction ms arbitrary: v) simp_all

lemma diskvd_parses:
  assumes "diskvd_valid v"
  shows "diskvd_args (drop 1 (diskvd_command v)) diskvd_vars0 = Inr v"
proof -
  have "ParseInt (Itoa (dv_gid v)) = (dv_gid v, True)" "Atoi (Itoa (dv_me v)) = (dv_me v, True)"
    using assms ParseInt_Itoa [of "dv_gid v"] ParseInt_Itoa [of "dv_me v"] by (simp_all add: diskvd_valid_def Atoi_def)
  then show ?thesis by (simp add: diskvd_command_def diskvd_masters diskvd_replicas ParseBool_v diskvd_vars0_def)
qed

lemma diskvd_args_usage: "diskvd_args as u = Inl msg \<Longrightarrow> msg = diskvd_usage"
  by (induction as u rule: diskvd_args.induct) (auto split: if_splits)

text \<open>
  C40: \<open>diskvd\<close> starts the server that its command line asks for. For every replica group, index,
  directory and list of ports that pass its checks, written as the flags of its usage message, it calls
  \<open>StartServer\<close> once with exactly these values, then \<open>Setunreliable\<close>; and it starts no server on any command
  line whose values do not pass the checks: it prints the usage message, exits with status 1 and changes nothing.
\<close>

theorem diskvd_command_line:
  "(diskvd_valid v \<longrightarrow> diskvd_main StartServer Setunreliable (diskvd_command v) w =
     (case StartServer (dv_gid v) (dv_masters v) (dv_replicas v) (dv_me v) (dv_dir v) (dv_restart v) w of
        (srv, w1) \<Rightarrow> (KillsItself, Setunreliable srv (dv_unreliable v) w1))) \<and>
   (diskvd_main StartServer Setunreliable args w = (Exit1 diskvd_usage, w) \<or>
    (\<exists>u :: diskvd_vars. diskvd_main StartServer Setunreliable args w =
       (case StartServer (dv_gid u) (dv_masters u) (dv_replicas u) (dv_me u) (dv_dir u) (dv_restart u) w of
          (srv, w1) \<Rightarrow> (KillsItself, Setunreliable srv (dv_unreliable u) w1)) \<and>
       dv_masters u \<noteq> [] \<and> 0 \<le> dv_gid u \<and> 0 \<le> dv_me u \<and> dv_me u < int (length (dv_replicas u)) \<and> dv_dir u \<noteq> ''''))"
proof
  show "diskvd_valid v \<longrightarrow> diskvd_main StartServer Setunreliable (diskvd_command v) w =
     (case StartServer (dv_gid v) (dv_masters v) (dv_replicas v) (dv_me v) (dv_dir v) (dv_restart v) w of
        (srv, w1) \<Rightarrow> (KillsItself, Setunreliable srv (dv_unreliable v) w1))"
    using diskvd_parses [of v] by (auto simp: diskvd_main_def diskvd_valid_def Suc_le_eq)
  show "diskvd_main StartServer Setunreliable args w = (Exit1 diskvd_usage, w) \<or>
    (\<exists>u :: diskvd_vars. diskvd_main StartServer Setunreliable args w =
       (case StartServer (dv_gid u) (dv_masters u) (dv_replicas u) (dv_me u) (dv_dir u) (dv_restart u) w of
          (srv, w1) \<Rightarrow> (KillsItself, Setunreliable srv (dv_unreliable u) w1)) \<and>
       dv_masters u \<noteq> [] \<and> 0 \<le> dv_gid u \<and> 0 \<le> dv_me u \<and> dv_me u < int (length (dv_replicas u)) \<and> dv_dir u \<noteq> '''')"
  proof (cases "diskvd_args (drop 1 args) diskvd_vars0")
    case (Inl msg)
    then show ?thesis using diskvd_args_usage [OF Inl] by (simp add: diskvd_main_def)
  next
    case (Inr u)
    show ?thesis
    proof (cases "dv_gid u < 0 \<or> dv_me u < 0 \<or> length (dv_masters u) < 1 \<or> dv_me u \<ge> int (length (dv_replicas u)) \<or> dv_dir u = ''''")
      case True
      then show ?thesis using Inr by (simp add: diskvd_main_def)
    next
      case False
      then show ?thesis using Inr by (intro disjI2 exI [of _ u]) (simp add: diskvd_main_def)
    qed
  qed
qed

text \<open>The second server of a group, with a package that records the calls.\<close>

theorem diskvd_command_line_witness:
  "diskvd_main (\<lambda>g ms rs i d r w. ((), Some (g, ms, rs, i, d, r))) (\<lambda>_ _ w. w)
     (diskvd_command \<lparr>dv_gid = 100, dv_masters = [''m0'', ''m1''], dv_replicas = [''s0'', ''s1''], dv_me = 1, dv_unreliable = False, dv_dir = ''d'', dv_restart = True\<rparr>) None =
   (KillsItself, Some (100, [''m0'', ''m1''], [''s0'', ''s1''], 1, ''d'', True))"
proof -
  let ?v = "\<lparr>dv_gid = 100, dv_masters = [''m0'', ''m1''], dv_replicas = [''s0'', ''s1''], dv_me = 1, dv_unreliable = False, dv_dir = ''d'', dv_restart = True\<rparr>"
  have "diskvd_valid ?v" by (simp add: diskvd_valid_def)
  then show ?thesis by (simp add: diskvd_command_line [THEN conjunct1, THEN mp])
qed

end
