(* ===== verification/Spec2Isabelle.thy ===== *)
theory Spec2Isabelle
  imports Labgob Raft_Safety Raft_Rpc Harness_Checks Harness_Groups MR_Properties MR_Timing MR_Programs Page_Reacts Lab_Programs
begin

section \<open>The labs of MIT 6.824 in Isabelle/HOL\<close>

text \<open>
  The repository holds solutions and skeletons of the labs of the course, in Go, under
  src/6.824lab/src. This development models them and proves what makes them correct, and, where the
  code does less than its notes promise, what goes wrong.

  \<^bold>\<open>The program.\<close> Raft (raft/raft.go) replicates a log; its peers talk through a simulated network
  (labrpc/labrpc.go) that loses, delays and reorders messages, with values encoded by labgob/labgob.go,
  and keep their state in a persister (raft/persister.go). The tests drive them through a harness
  (raft/config.go) that crashes, restarts and disconnects peers; the services have harnesses of their own
  (kvraft/config.go, shardmaster/config.go, shardkv/config.go). MapReduce is a master and workers
  (mr/master.go, mr/worker.go), plugins (mrapps) and a sequential reference program
  (main/mrsequential.go), started by main/mrmaster.go and main/mrworker.go. The tests of the key-value services check recorded histories with the
  linearizability checker porcupine and its key-value model (models/kv.go). The services themselves
  (kvraft, shardmaster, shardkv) are skeletons with complete clerks for the sharded ones.

  \<^bold>\<open>Conventions\<close> (theory \<open>Go_Prelude\<close>). A run-time failure (index out of range, nil dereference,
  division by zero, panic, \<open>log.Fatal\<close>) is a value of type \<open>go_error\<close>; code that can fail returns a
  value of the sum type \<open>res\<close>. A slice is a list with Go's bounds checks, a map is a partial
  function or, where its order of iteration shows, an association list. A struct is a record. A
  critical section between \<open>Lock\<close> and \<open>Unlock\<close> is one function of the state; interleaving is a
  sequence of such steps. The clock, random numbers and the scheduler are arguments. Counters of type
  \<open>int\<close> are unbounded integers; the FNV hash, the bit set and the counters of the network that can wrap
  are machine words.

  \<^bold>\<open>Raft.\<close> \<open>Persister\<close>: the persister, and the locale \<open>stable_store\<close> with the contract Raft relies on.
  \<open>Raft\<close>: a peer and each of its critical sections (\<open>RequestVote\<close>, \<open>AppendEntries\<close>, \<open>Start\<close>,
  \<open>sendHearbeat\<close> in three parts, \<open>startElection\<close>, \<open>Run\<close>, \<open>sendApplyMsg\<close>, \<open>Make\<close>).
  \<open>Raft_Log\<close> gives the loops on logs a reference definition; \<open>Raft_Peer\<close> has the type invariant and
  the durability of the persistent fields, and interprets the store contract; \<open>Raft_Replication\<close> has
  the exchange of a heartbeat. \<open>Raft_Properties\<close>: an accepted heartbeat makes the logs agree,
  repeated heartbeats repair a follower, commits need a majority, the vote rule, no panic and no loss of
  committed entries on the heartbeats that leaders build. \<open>Raft_Flaws\<close>: runs of the handlers that the protocol excludes. \<open>Raft_Cluster\<close> lets
  all peers run together, with a net of messages that can be delayed, reordered and lost
  (the simulated network never delivers one twice), and with crashes; \<open>Raft_Invariants\<close> and \<open>Raft_Safety\<close>: one vote per term and durability hold in every reachable
  state, and two leaders of one term are reachable.

  \<^bold>\<open>The network.\<close> \<open>Labrpc\<close>: services, servers, the operations of the network and the life of one
  request as a state machine. A handler is executed at most once, and a reply is what it returned; a
  deleted server is silent. \<open>Labgob\<close>: the checks of types and of default values around gob.

  \<^bold>\<open>The Raft harness.\<close> \<open>Raft_Service\<close>: the objects behind services, numbered as they are made, and the service that
  \<open>MakeService\<close> makes of a Raft peer. \<open>Harness_Raft\<close>: \<open>connect\<close>, \<open>disconnect\<close>, \<open>crash1\<close>, \<open>start1\<close>, which
  registers a server with that service, the readers of the apply channels, and the checks. \<open>Harness_Wiring\<close>: in every run exactly the ends between connected peers
  are enabled, an old instance can never send again, and a restart recovers what was saved.
  \<open>Harness_Checks\<close>: applied commands agree, and \<open>one\<close> and \<open>checkOneLeader\<close> return only what they promise.
  \<open>Raft_Rpc\<close> puts Raft, network and harness together: \<open>sendRequestVote\<close> and \<open>sendAppendEntries\<close> on the ends the
  harness gave a peer run the handler of the peer that was meant, and of no other; which service the called
  server has is an invariant of the runs, and that labgob decodes what it encoded is a hypothesis.

  \<^bold>\<open>Services.\<close> \<open>Clerks\<close>: the clerks of the shard master and the sharded store, and the skeletons. The
  retry loops have no bound, so they are partial functions; they return exactly when some round gets
  a usable reply. With the skeletons a \<open>Get\<close> never returns. \<open>Kv_Services\<close>: the
  methods that the three kinds of servers offer to the network, beside those of the Raft peer inside.

  \<^bold>\<open>The harnesses of the services.\<close> kvraft/config.go and shardmaster/config.go have the same code around two
  services. \<open>Harness_Kv\<close> has that code over a record of the operations of a service; \<open>Harness_Kv_Net\<close> reads
  the ends as a matrix of links; \<open>Harness_Kv_Runs\<close> has the runs of a harness (starting, stopping, connecting,
  partitioning, making and deleting clerks) and their invariant, the services of the registered servers, and the locale \<open>raft_backed\<close>, whose
  contract is that starting a server makes a Raft peer from its persister and that killing it kills the peer. \<open>Harness_Services\<close> interprets it for
  both services: a partition isolates the leader, a clerk reaches exactly the servers asked for, a
  restarted server has what it had saved. \<open>Harness_Shard\<close>, \<open>Harness_Shard_Runs\<close> and \<open>Harness_Groups\<close> do the
  same for shardkv/config.go, with its three masters and three groups: which server an end reaches in
  every run, what joining tells the shard master, what a restart restores, and that only groups of three
  servers work.

  \<^bold>\<open>MapReduce.\<close> \<open>MR_Encoding\<close>: strings, the hash and the JSON encoding. \<open>MR_Master\<close>: queues and
  handlers. \<open>MR_Worker\<close>: map and reduce tasks on a file system, with the locale \<open>key_sort\<close> for
  \<open>sort.Sort\<close>. \<open>MR_Jobs\<close>: runs of a master with arbitrary workers, in
  which a handler runs as a whole. \<open>MR_Races\<close>: the handlers split at their locks, and schedules of them. \<open>MR_Run\<close>: the loop of a worker. \<open>MR_Apps\<close>: the plugins; \<open>MR_Timing\<close>: how two of them count the
  workers that run at the same time. \<open>MR_Properties\<close> and
  \<open>MR_Results\<close>: when handlers run one at a time no task is lost, reduce tasks come after map tasks and done means
  done; a distributed job prints what the sequential program prints, word count counts. When handlers
  interleave at their locks, a worker can be told that a job is done whose reduce tasks are not queued yet, a
  reduce task can be handed out before a map task is done, and two workers that ask at once can crash the master. \<open>MR_Programs\<close>: remote
  calls that can fail and the three main functions; the programs agree, and a failed call for a task
  ends a worker.

  \<^bold>\<open>Porcupine.\<close> \<open>Bitset\<close> and \<open>Porcupine\<close>: the checker with its linked list on a heap, the cache, and the
  parallel check. \<open>Linearizability\<close>: the specification. \<open>Porcupine_Links\<close>, \<open>Porcupine_Search\<close>,
  \<open>Porcupine_Check\<close>, \<open>Porcupine_Entries\<close>, \<open>Porcupine_Parallel\<close>: the search terminates and decides
  linearizability. A result that a goroutine sends is an arrival; to wait without a timeout when no result is left
  to arrive is the error \<open>Deadlock\<close>. \<open>Porcupine_Locality\<close>: a history is linearizable when its partitions are. \<open>Kv_Model\<close>: the
  model of the store. \<open>Visualization\<close>: the data of the page. \<open>Porcupine_Properties\<close> puts them together, and
  \<open>Porcupine_Page\<close> has the JSON and the page that is written to a file.

  \<^bold>\<open>The page.\<close> The constant \<open>html\<close> of porcupine/visualization.go has a script, which is modelled as it runs in
  the browser, with rational numbers for its numbers and with what would be \<open>undefined\<close> or \<open>NaN\<close> as an error. \<open>Page_Layout\<close>:
  the positions of timestamps on the axis, found by one scan. A comment in the script states the
  constraints and calls the scan optimal; \<open>Page_Warp\<close> and \<open>Page_Least\<close> prove that it is: the positions meet the
  constraints and are the least that do. \<open>Page_Check\<close>: the data of a check has what the script relies
  on. \<open>Page_Draw\<close>: boxes, points and lines; every point crosses the box of its operation, and the
  refused points are the operations at which a linearization gets stuck. \<open>Page_Events\<close> has the event handlers
  as functions of the state of the page, and \<open>Page_Reacts\<close> shows that no sequence of events makes them
  fail and what is visible after each.

  \<^bold>\<open>Other programs.\<close> \<open>Lab_Programs\<close>: the main functions of older labs (main/diskvd.go, lockc.go, lockd.go, pbc.go,
  pbd.go, viewd.go), whose packages are parameters, and the debug output of raft/util.go.

  \<^bold>\<open>Fuel.\<close> The loop of \<open>checkSingle\<close> and the loops of a worker and of the master program take fuel (for calls over
  the network one fate per call); the theorems state that enough fuel
  exists and that with it the loop returns. All other loops are total by structure or measure, or
  partial functions whose returning is characterised.

  \<^bold>\<open>Not modelled.\<close> The style sheet of the page in visualization.go, the creation of DOM nodes (a node is the
  record of the attributes it gets) and the width of a text, which the browser measures and which is an
  argument of the layout; the sockets of the MapReduce master (\<open>server\<close>) and the package net/rpc, of which only the fate
  of a call is modelled; gob and \<open>reflect\<close> beyond the checks of labgob; random strings and seeds; and the
  packages of older labs, which are not in the repository.
\<close>

end
